(* ===== verification/Kernel_Prelude.thy ===== *)
theory Kernel_Prelude
  imports Main "HOL-Library.Word" "HOL-Library.Monad_Syntax"
begin

text \<open>
  Shared vocabulary of the BoarOS development: the machine integer types of the kernel
  sources, the integer limits of \<^verbatim>\<open>stdint.h\<close>, the status codes of the kernel heap that
  several components consume, and the generic lemmas on lists and words that the component
  theories use.

  Conventions. A \<^verbatim>\<open>__builtin_trap()\<close> of the source is the value \<open>None\<close> of an option result,
  so that "does not trap" is a statement of the logic. A pointer is a natural number and the
  null pointer is \<open>0\<close>. A \<^verbatim>\<open>uint64_t\<close> is a \<open>64 word\<close>; array indices and \<^verbatim>\<open>uint32_t\<close> element
  counts are natural numbers, with the source's \<^verbatim>\<open>UINT32_MAX\<close> guards written out.
\<close>

unbundle bit_operations_syntax

type_synonym u8 = "8 word"
type_synonym u16 = "16 word"
type_synonym u32 = "32 word"
type_synonym u64 = "64 word"
type_synonym ptr = nat

abbreviation u64_max :: u64 where
  "u64_max \<equiv> - 1"

abbreviation uint32_max :: nat where
  "uint32_max \<equiv> 4294967295"

text \<open>The status codes of \<^verbatim>\<open>include/kernel/heap.h\<close>.\<close>

datatype heap_status =
    HEAP_OK
  | HEAP_INVALID
  | HEAP_EMPTY
  | HEAP_OVERFLOW
  | HEAP_DOUBLE_FREE
  | HEAP_STATE

text \<open>
  The kernel heap as a client that only allocates and frees whole objects sees it: the outcomes
  of its next allocations, and the addresses handed back so far. An address that an allocation
  returns is assumed fresh only where a theorem says so.
\<close>

datatype alloc_outcome = Alloc ptr | Alloc_empty | Alloc_error

record heap_view =
  outcomes :: "alloc_outcome list"
  freed :: "ptr list"

definition heap_release :: "ptr \<Rightarrow> heap_view \<Rightarrow> heap_view" where
  "heap_release p hp = hp\<lparr>freed := p # freed hp\<rparr>"

named_theorems word_range "order and arithmetic facts on machine words"
named_theorems array_moves "what the in-place array loops of the kernel compute"

section \<open>Words\<close>

lemma le_u64_max [simp]: "(a :: 'a :: len word) \<le> - 1"
  by simp

lemma less_u64_max_iff [word_range]: "(a :: 'a :: len word) < - 1 \<longleftrightarrow> a \<noteq> - 1"
  by (simp add: order.strict_iff_order)

lemma unat_diff_le [word_range]:
  "b \<le> a \<Longrightarrow> unat (a - b) = unat a - unat (b :: 'a :: len word)"
  by (rule unat_sub)

lemma less_plus_one_iff [word_range]:
  "(a :: 'a :: len word) \<noteq> - 1 \<Longrightarrow> x < a + 1 \<longleftrightarrow> x \<le> a"
proof -
  assume "a \<noteq> - 1"
  then have "unat (a + 1) = Suc (unat a)"
    by (metis Suc_eq_plus1 add.commute add.inverse_inverse eq_neg_iff_add_eq_0 unatSuc)
  then show ?thesis
    by (simp add: word_less_nat_alt word_le_nat_alt less_Suc_eq_le)
qed

text \<open>The C idiom \<^verbatim>\<open>a > MAX - b\<close> detects exactly the additions that wrap.\<close>

lemma no_wrap_iff [word_range]:
  "(a :: 'a :: len word) \<le> - 1 - b \<longleftrightarrow> unat a + unat b < 2 ^ LENGTH('a)"
proof -
  have "unat (- 1 - b) = unat (- 1 :: 'a word) - unat b"
    by (rule unat_sub) simp
  moreover have "unat (- 1 :: 'a word) = 2 ^ LENGTH('a) - 1"
    by (simp add: unsigned_minus_1_eq_mask mask_eq_exp_minus_1)
  moreover have "unat b < 2 ^ LENGTH('a)" by (rule unsigned_less)
  ultimately show ?thesis
    unfolding word_le_nat_alt by linarith
qed

lemma unat_add_no_wrap [word_range]:
  "unat (a :: 'a :: len word) + unat b < 2 ^ LENGTH('a) \<Longrightarrow> unat (a + b) = unat a + unat b"
  by (simp add: unat_word_ariths)

section \<open>Signed integers\<close>

text \<open>Conversion of an \<^verbatim>\<open>int\<close> to \<^verbatim>\<open>int8_t\<close>, and the limits of \<^verbatim>\<open>int64_t\<close>.\<close>

definition int8 :: "int \<Rightarrow> int" where
  "int8 x = (x + 128) mod 256 - 128"

abbreviation int64_max :: int where
  "int64_max \<equiv> 9223372036854775807"

abbreviation int64_min :: int where
  "int64_min \<equiv> - 9223372036854775808"

section \<open>Lists\<close>

lemma find_append:
  "find P (xs @ ys) = (case find P xs of None \<Rightarrow> find P ys | Some x \<Rightarrow> Some x)"
  by (induction xs) auto

end
