(* ===== verification/Vma.thy ===== *)
theory Vma
  imports Kernel_Prelude
begin

text \<open>
  Model of \<^verbatim>\<open>mm/vma.c\<close> (with \<^verbatim>\<open>include/kernel/vma.h\<close>): the set of virtual memory areas of an
  address space, kept as a sorted array of half-open intervals.

  The array \<^verbatim>\<open>entries\<close> is a list of \<^verbatim>\<open>capacity\<close> slots of which the first \<^verbatim>\<open>count\<close> are live; the
  loops that shift slots are modelled slot by slot. The address of the set itself (\<open>self\<close>) is
  kept because a prepared edit names the set it was prepared for. \<open>shm_refs\<close> is the balance of
  \<^verbatim>\<open>kernel_shm_attachment_open\<close> over \<^verbatim>\<open>kernel_shm_attachment_close\<close> calls this set made.
  The outcome of \<^verbatim>\<open>kernel_heap_resize\<close> and the current task's memory limits are arguments.
\<close>

section \<open>Data\<close>

datatype vma_status =
    VMA_OK
  | VMA_INVALID_ARGUMENT
  | VMA_NO_MEMORY
  | VMA_CONFLICT
  | VMA_NOT_FOUND
  | VMA_ACCESS
  | VMA_STATE

datatype vma_kind =
    KIND_ANONYMOUS
  | KIND_FILE_PRIVATE
  | KIND_ELF_PRIVATE
  | KIND_ANON_SHARED
  | KIND_FILE_SHARED
  | KIND_SYSV_SHM

datatype vma_role =
    ROLE_NONE
  | ROLE_ELF
  | ROLE_VDSO
  | ROLE_STACK
  | ROLE_HEAP
  | ROLE_MMAP
  | ROLE_SYSV_SHM

datatype vma_fault_policy =
    FAULT_RESIDENT_REQUIRED
  | FAULT_DEMAND_ZERO
  | FAULT_FILE_PRIVATE
  | FAULT_ELF
  | FAULT_ANON_SHARED
  | FAULT_FILE_SHARED

record vma =
  vstart :: u64
  vend :: u64
  backing_offset :: u64
  permissions :: u32
  maximum_permissions :: u32
  kind :: vma_kind
  role :: vma_role
  fault_policy :: vma_fault_policy
  vflags :: u32
  backing :: ptr
  shm_attachment :: ptr

abbreviation VMA_LOCKED :: u32 where "VMA_LOCKED \<equiv> 1"
abbreviation VMA_LOCK_ONFAULT :: u32 where "VMA_LOCK_ONFAULT \<equiv> 2"
abbreviation VMA_LOCK_MASK :: u32 where "VMA_LOCK_MASK \<equiv> 3"
abbreviation VMA_DONTFORK :: u32 where "VMA_DONTFORK \<equiv> 4"
abbreviation VMA_ALL_FLAGS :: u32 where "VMA_ALL_FLAGS \<equiv> 15"
abbreviation VMA_ALL_PERMISSIONS :: u32 where "VMA_ALL_PERMISSIONS \<equiv> 7"

record vma_set =
  self :: ptr
  entries :: "vma list"
  vcount :: nat
  capacity :: nat
  generation :: u64
  total_bytes :: u64
  data_bytes :: u64
  locked_bytes :: u64
  shm_refs :: "ptr \<Rightarrow> int"

datatype vma_edit_kind = EDIT_REMOVE | EDIT_REPLACE | EDIT_PROTECT | EDIT_FLAGS

record vma_edit =
  edit_set :: ptr
  edit_generation :: u64
  edit_start :: u64
  edit_end :: u64
  edit_permissions :: u32
  edit_flags :: u32
  edit_flags_mask :: u32
  edit_kind :: vma_edit_kind
  edit_replacement :: vma

record vma_remap =
  remap_set :: ptr
  remap_generation :: u64
  remap_start :: u64
  remap_end :: u64
  remap_replacement :: vma

record memory_limits =
  address_space :: u64
  data_soft :: u64
  data_hard :: u64

text \<open>
  The heap as the set sees it: the status \<^verbatim>\<open>kernel_heap_resize\<close> returns for a byte size, and
  what the fresh slots of a grown array contain (uninitialised memory, any value).
\<close>

record vma_heap =
  resize_status :: "nat \<Rightarrow> heap_status"
  fresh_slot :: vma

text \<open>A zero-initialised \<^verbatim>\<open>struct kernel_vma\<close>.\<close>

definition vma_zero :: vma where
  "vma_zero = \<lparr>vstart = 0, vend = 0, backing_offset = 0, permissions = 0,
     maximum_permissions = 0, kind = KIND_ANONYMOUS, role = ROLE_NONE,
     fault_policy = FAULT_RESIDENT_REQUIRED, vflags = 0, backing = 0, shm_attachment = 0\<rparr>"

section \<open>Accounting and validity\<close>

definition set_valid :: "vma_set \<Rightarrow> bool" where
  "set_valid s \<longleftrightarrow> self s \<noteq> 0 \<and>
     ((entries s = [] \<and> vcount s = 0 \<and> capacity s = 0) \<or>
      (entries s \<noteq> [] \<and> capacity s \<noteq> 0 \<and> vcount s \<le> capacity s))"

definition live :: "vma_set \<Rightarrow> vma list" where
  "live s = take (vcount s) (entries s)"

definition private_data_mapping :: "vma \<Rightarrow> bool" where
  "private_data_mapping v \<longleftrightarrow> role v \<noteq> ROLE_STACK \<and>
     (kind v = KIND_ANONYMOUS \<or> kind v = KIND_FILE_PRIVATE \<or> kind v = KIND_ELF_PRIVATE)"

definition kernel_vma_is_data :: "vma \<Rightarrow> bool" where
  "kernel_vma_is_data v \<longleftrightarrow> permissions v AND 2 \<noteq> 0 \<and> private_data_mapping v"

fun recount_loop :: "vma list \<Rightarrow> u64 \<Rightarrow> u64 \<Rightarrow> u64 \<Rightarrow> (u64 \<times> u64 \<times> u64) option" where
  "recount_loop [] tot data locked = Some (tot, data, locked)"
| "recount_loop (v # vs) tot data locked =
     (let len = vend v - vstart v in
      if u64_max - tot < len then None
      else recount_loop vs (tot + len)
             (if kernel_vma_is_data v then data + len else data)
             (if vflags v AND VMA_LOCKED \<noteq> 0 then locked + len else locked))"

definition recount_bytes :: "vma_set \<Rightarrow> vma_set option" where
  "recount_bytes s =
     (case recount_loop (live s) 0 0 0 of
        None \<Rightarrow> None
      | Some (tot, data, locked) \<Rightarrow>
          Some (s\<lparr>total_bytes := tot, data_bytes := data, locked_bytes := locked\<rparr>))"

text \<open>The counters as clients read them: a handle that is not valid stops the machine.\<close>

definition kernel_vma_set_generation :: "vma_set \<Rightarrow> u64 option" where
  "kernel_vma_set_generation s = (if \<not> set_valid s then None else Some (generation s))"

definition kernel_vma_set_total_bytes :: "vma_set \<Rightarrow> u64 option" where
  "kernel_vma_set_total_bytes s = (if \<not> set_valid s then None else Some (total_bytes s))"

definition kernel_vma_set_data_bytes :: "vma_set \<Rightarrow> u64 option" where
  "kernel_vma_set_data_bytes s = (if \<not> set_valid s then None else Some (data_bytes s))"

definition kernel_vma_set_locked_bytes :: "vma_set \<Rightarrow> u64 option" where
  "kernel_vma_set_locked_bytes s = (if \<not> set_valid s then None else Some (locked_bytes s))"

fun locked_range_loop :: "vma list \<Rightarrow> u64 \<Rightarrow> u64 \<Rightarrow> u64 \<Rightarrow> u64" where
  "locked_range_loop [] a b bytes = bytes"
| "locked_range_loop (v # vs) a b bytes =
     (if b \<le> vstart v then bytes
      else if vend v \<le> a \<or> vflags v AND VMA_LOCKED = 0 then locked_range_loop vs a b bytes
      else let lo = (if a < vstart v then vstart v else a);
               hi = (if vend v < b then vend v else b)
           in locked_range_loop vs a b (bytes + (hi - lo)))"

definition kernel_vma_set_locked_range :: "vma_set \<Rightarrow> u64 \<Rightarrow> u64 \<Rightarrow> u64" where
  "kernel_vma_set_locked_range s a b = locked_range_loop (live s) a b 0"

text \<open>
  \<^verbatim>\<open>vma_valid\<close>. The range checks on the three enumerations hold by typing and are not repeated;
  \<open>page_mask\<close> is \<^verbatim>\<open>BOAROS_PAGE_MASK\<close> of the build (4 KiB pages on RV64, 16 KiB on LA64).
\<close>

definition vma_valid :: "u64 \<Rightarrow> vma \<Rightarrow> bool" where
  "vma_valid page_mask v \<longleftrightarrow>
     (if vend v \<le> vstart v then False
      else if vflags v AND NOT VMA_ALL_FLAGS \<noteq> 0 \<or> vflags v AND VMA_LOCK_MASK = VMA_LOCK_ONFAULT
      then False
      else if maximum_permissions v AND NOT VMA_ALL_PERMISSIONS \<noteq> 0 \<or>
              permissions v AND VMA_ALL_PERMISSIONS AND NOT (maximum_permissions v) \<noteq> 0
      then False
      else if kind v \<noteq> KIND_SYSV_SHM \<and> shm_attachment v \<noteq> 0 then False
      else if kind v = KIND_ANONYMOUS \<and>
              (backing_offset v \<noteq> 0 \<or> backing v \<noteq> 0 \<or> fault_policy v = FAULT_FILE_PRIVATE \<or>
               fault_policy v = FAULT_ELF \<or> fault_policy v = FAULT_ANON_SHARED)
      then False
      else if (kind v = KIND_FILE_PRIVATE \<and>
               (backing v = 0 \<or> fault_policy v \<noteq> FAULT_FILE_PRIVATE \<or>
                u64_max - (vend v - vstart v) < backing_offset v)) \<or>
              (kind v = KIND_ELF_PRIVATE \<and>
               (backing v = 0 \<or> fault_policy v \<noteq> FAULT_ELF \<or>
                u64_max - (vend v - vstart v) < backing_offset v))
      then False
      else if kind v = KIND_ANON_SHARED \<and>
              (backing v = 0 \<or> fault_policy v \<noteq> FAULT_ANON_SHARED \<or>
               backing_offset v AND page_mask \<noteq> 0 \<or>
               u64_max - (vend v - vstart v) < backing_offset v)
      then False
      else if kind v = KIND_SYSV_SHM \<and>
              (backing v = 0 \<or> shm_attachment v = 0 \<or> fault_policy v \<noteq> FAULT_ANON_SHARED \<or>
               backing_offset v AND page_mask \<noteq> 0 \<or>
               u64_max - (vend v - vstart v) < backing_offset v)
      then False
      else if kind v = KIND_FILE_SHARED \<and>
              (backing v = 0 \<or> fault_policy v \<noteq> FAULT_FILE_SHARED \<or>
               u64_max - (vend v - vstart v) < backing_offset v)
      then False
      else True)"

definition can_merge :: "vma \<Rightarrow> vma \<Rightarrow> bool" where
  "can_merge l r \<longleftrightarrow>
     (if vend l \<noteq> vstart r \<or> permissions l \<noteq> permissions r \<or> kind l \<noteq> kind r \<or>
         role l \<noteq> role r \<or> fault_policy l \<noteq> fault_policy r \<or> vflags l \<noteq> vflags r \<or>
         backing l \<noteq> backing r \<or> shm_attachment l \<noteq> shm_attachment r \<or>
         maximum_permissions l \<noteq> maximum_permissions r then False
      else if kind l = KIND_SYSV_SHM \<or> kind r = KIND_SYSV_SHM then False
      else if kind l = KIND_ANONYMOUS then True
      else let left_size = vend l - vstart l in
           backing_offset l \<le> u64_max - left_size \<and>
           backing_offset l + left_size = backing_offset r)"

section \<open>Searching\<close>

function lower_bound_loop :: "vma list \<Rightarrow> u64 \<Rightarrow> nat \<Rightarrow> nat \<Rightarrow> nat" where
  "lower_bound_loop es a low high =
     (if low < high then
        let middle = low + (high - low) div 2 in
        if vstart (es ! middle) < a then lower_bound_loop es a (middle + 1) high
        else lower_bound_loop es a low middle
      else low)"
  by pat_completeness auto
termination
  by (relation "measure (\<lambda>(es, a, low, high). high - low)") auto

declare lower_bound_loop.simps [simp del]

definition lower_bound :: "vma_set \<Rightarrow> u64 \<Rightarrow> nat" where
  "lower_bound s a = lower_bound_loop (entries s) a 0 (vcount s)"

text \<open>The search key \<^verbatim>\<open>address + (address != UINT64_MAX ? 1U : 0U)\<close>.\<close>

definition after_address :: "u64 \<Rightarrow> u64" where
  "after_address a = a + (if a \<noteq> u64_max then 1 else 0)"

definition kernel_vma_set_count :: "vma_set \<Rightarrow> nat option" where
  "kernel_vma_set_count s = (if \<not> set_valid s then None else Some (vcount s))"

definition kernel_vma_set_get_at :: "vma_set \<Rightarrow> nat \<Rightarrow> vma_status + vma" where
  "kernel_vma_set_get_at s i =
     (if \<not> set_valid s then Inl VMA_INVALID_ARGUMENT
      else if vcount s \<le> i then Inl VMA_NOT_FOUND
      else Inr (entries s ! i))"

definition kernel_vma_set_next :: "vma_set \<Rightarrow> u64 \<Rightarrow> vma_status + vma" where
  "kernel_vma_set_next s a =
     (if \<not> set_valid s then Inl VMA_INVALID_ARGUMENT
      else let i = lower_bound s a in
           if i = vcount s then Inl VMA_NOT_FOUND else Inr (entries s ! i))"

definition kernel_vma_set_lookup :: "vma_set \<Rightarrow> u64 \<Rightarrow> vma_status + vma" where
  "kernel_vma_set_lookup s a =
     (if \<not> set_valid s then Inl VMA_INVALID_ARGUMENT
      else let i = lower_bound s (after_address a) in
           if i = 0 \<or> vend (entries s ! (i - 1)) \<le> a then Inl VMA_NOT_FOUND
           else Inr (entries s ! (i - 1)))"

definition kernel_vma_set_overlaps :: "vma_set \<Rightarrow> u64 \<Rightarrow> u64 \<Rightarrow> vma_status + bool" where
  "kernel_vma_set_overlaps s a b =
     (if \<not> set_valid s \<or> b \<le> a then Inl VMA_INVALID_ARGUMENT
      else let i = lower_bound s a in
           Inr ((0 < i \<and> a < vend (entries s ! (i - 1))) \<or>
                (i < vcount s \<and> vstart (entries s ! i) < b)))"

fun backing_loop :: "vma list \<Rightarrow> ptr \<Rightarrow> bool" where
  "backing_loop [] p = False"
| "backing_loop (v # vs) p = (if backing v = p then True else backing_loop vs p)"

definition kernel_vma_set_backing_in_use :: "vma_set \<Rightarrow> ptr \<Rightarrow> vma_status + bool" where
  "kernel_vma_set_backing_in_use s p =
     (if \<not> set_valid s \<or> p = 0 then Inl VMA_INVALID_ARGUMENT
      else Inr (backing_loop (live s) p))"

text \<open>The downward scan of \<^verbatim>\<open>kernel_vma_set_find_topdown_gap\<close>: \<open>index\<close> slots are left.\<close>

fun topdown_loop :: "vma list \<Rightarrow> u64 \<Rightarrow> u64 \<Rightarrow> u64 \<Rightarrow> nat \<Rightarrow> u64 \<Rightarrow> u64 option" where
  "topdown_loop es lower upper len 0 cursor =
     (if lower \<le> cursor \<and> len \<le> cursor - lower then Some (cursor - len) else None)"
| "topdown_loop es lower upper len (Suc index) cursor =
     (let e = es ! index in
      if upper \<le> vstart e then topdown_loop es lower upper len index cursor
      else if vend e \<le> lower then
        (if lower \<le> cursor \<and> len \<le> cursor - lower then Some (cursor - len) else None)
      else let gap_start = (if lower < vend e then vend e else lower) in
        if gap_start < cursor \<and> len \<le> cursor - gap_start then Some (cursor - len)
        else topdown_loop es lower upper len index
               (if vstart e < cursor then vstart e else cursor))"

definition kernel_vma_set_find_topdown_gap ::
  "vma_set \<Rightarrow> u64 \<Rightarrow> u64 \<Rightarrow> u64 \<Rightarrow> u64 \<Rightarrow> vma_status + u64" where
  "kernel_vma_set_find_topdown_gap s hint lower upper len =
     (if \<not> set_valid s \<or> upper \<le> lower \<or> len = 0 \<or> upper - lower < len
      then Inl VMA_INVALID_ARGUMENT
      else if lower \<le> hint \<and> hint \<le> upper - len \<and>
              kernel_vma_set_overlaps s hint (hint + len) = Inr False
      then Inr hint
      else case topdown_loop (entries s) lower upper len (vcount s) upper of
             Some address \<Rightarrow> Inr address
           | None \<Rightarrow> Inl VMA_NOT_FOUND)"

section \<open>Slots: growing, shifting, inserting, splitting, merging\<close>

definition shm_open :: "ptr \<Rightarrow> vma_set \<Rightarrow> vma_set" where
  "shm_open p s = (if p \<noteq> 0 then s\<lparr>shm_refs := (shm_refs s)(p := shm_refs s p + 1)\<rparr> else s)"

definition shm_close :: "ptr \<Rightarrow> vma_set \<Rightarrow> vma_set" where
  "shm_close p s = (if p \<noteq> 0 then s\<lparr>shm_refs := (shm_refs s)(p := shm_refs s p - 1)\<rparr> else s)"

text \<open>
  The doubling loop of \<^verbatim>\<open>reserve_entries\<close>: \<open>Inl\<close> is the early return, \<open>None\<close> would be a loop
  that never ends (it would for a capacity of zero, which the caller replaces by eight).
\<close>

partial_function (option) grow_capacity :: "nat \<Rightarrow> nat \<Rightarrow> (vma_status + nat) option" where
  "grow_capacity c required =
     (if c < required then
        if uint32_max div 2 < c then Some (Inl VMA_NO_MEMORY)
        else grow_capacity (c * 2) required
      else Some (Inr c))"

declare grow_capacity.simps [code]

abbreviation vma_bytes :: nat where "vma_bytes \<equiv> 64"

definition heap_resize :: "vma_heap \<Rightarrow> vma list \<Rightarrow> nat \<Rightarrow> heap_status \<times> vma list" where
  "heap_resize h es slots =
     (case resize_status h (slots * vma_bytes) of
        HEAP_OK \<Rightarrow> (HEAP_OK, take slots es @ replicate (slots - length es) (fresh_slot h))
      | st \<Rightarrow> (st, es))"

definition reserve_entries :: "vma_heap \<Rightarrow> vma_set \<Rightarrow> nat \<Rightarrow> (vma_status \<times> vma_set) option" where
  "reserve_entries h s required =
     (if required \<le> capacity s then Some (VMA_OK, s)
      else case grow_capacity (if capacity s = 0 then 8 else capacity s) required of
             None \<Rightarrow> None
           | Some (Inl st) \<Rightarrow> Some (st, s)
           | Some (Inr c) \<Rightarrow>
               (case heap_resize h (entries s) c of
                  (HEAP_OK, resized) \<Rightarrow> Some (VMA_OK, s\<lparr>entries := resized, capacity := c\<rparr>)
                | (HEAP_EMPTY, _) \<Rightarrow> Some (VMA_NO_MEMORY, s)
                | _ \<Rightarrow> Some (VMA_STATE, s)))"

text \<open>Slot copies \<open>es[d + k] = es[src + k]\<close> for ascending \<open>k < n\<close>, and for descending \<open>k\<close>.\<close>

function copy_up :: "vma list \<Rightarrow> nat \<Rightarrow> nat \<Rightarrow> nat \<Rightarrow> nat \<Rightarrow> vma list" where
  "copy_up es d src n k =
     (if k < n then copy_up (es[d + k := es ! (src + k)]) d src n (Suc k) else es)"
  by pat_completeness auto
termination
  by (relation "measure (\<lambda>(es, d, src, n, k). n - k)") auto

declare copy_up.simps [simp del]

fun copy_down :: "vma list \<Rightarrow> nat \<Rightarrow> nat \<Rightarrow> nat \<Rightarrow> vma list" where
  "copy_down es d src 0 = es"
| "copy_down es d src (Suc k) = copy_down (es[d + k := es ! (src + k)]) d src k"

definition move_entries :: "vma_set \<Rightarrow> nat \<Rightarrow> nat \<Rightarrow> nat \<Rightarrow> vma_set" where
  "move_entries s d src n =
     (if n = 0 \<or> d = src then s
      else if d < src then s\<lparr>entries := copy_up (entries s) d src n 0\<rparr>
      else s\<lparr>entries := copy_down (entries s) d src n\<rparr>)"

text \<open>\<^verbatim>\<open>erase_entry\<close>: close the slot's attachment and shift every later slot down by one.\<close>

definition erase_entry :: "vma_set \<Rightarrow> nat \<Rightarrow> vma_set" where
  "erase_entry s i =
     (let s1 = shm_close (shm_attachment (entries s ! i)) s in
      s1\<lparr>entries := copy_up (entries s1) i (i + 1) (vcount s1 - (i + 1)) 0,
         vcount := vcount s1 - 1\<rparr>)"

definition insert_entry :: "vma_heap \<Rightarrow> vma_set \<Rightarrow> vma \<Rightarrow> (vma_status \<times> vma_set) option" where
  "insert_entry h s v =
     (let i = lower_bound s (vstart v); es = entries s in
      if (0 < i \<and> vstart v < vend (es ! (i - 1))) \<or> (i < vcount s \<and> vstart (es ! i) < vend v)
      then Some (VMA_CONFLICT, s)
      else if 0 < i \<and> can_merge (es ! (i - 1)) v then
        (let es1 = es[i - 1 := (es ! (i - 1))\<lparr>vend := vend v\<rparr>]; s1 = s\<lparr>entries := es1\<rparr> in
         if i < vcount s \<and> can_merge (es1 ! (i - 1)) (es1 ! i) then
           Some (VMA_OK,
             erase_entry (s1\<lparr>entries := es1[i - 1 := (es1 ! (i - 1))\<lparr>vend := vend (es1 ! i)\<rparr>]\<rparr>) i)
         else Some (VMA_OK, s1))
      else if i < vcount s \<and> can_merge v (es ! i) then
        Some (VMA_OK, s\<lparr>entries := es[i := v\<lparr>vend := vend (es ! i)\<rparr>]\<rparr>)
      else if vcount s = uint32_max then Some (VMA_NO_MEMORY, s)
      else do {
        (st, s1) \<leftarrow> reserve_entries h s (vcount s + 1);
        if st \<noteq> VMA_OK then Some (st, s1)
        else let s2 = move_entries s1 (i + 1) i (vcount s1 - i);
                 s3 = s2\<lparr>entries := (entries s2)[i := v]\<rparr>;
                 s4 = shm_open (shm_attachment v) s3
             in Some (VMA_OK, s4\<lparr>vcount := vcount s4 + 1\<rparr>)
      })"

definition split_at :: "vma_set \<Rightarrow> u64 \<Rightarrow> vma_status \<times> vma_set" where
  "split_at s a =
     (let i = lower_bound s (after_address a) in
      if i = 0 \<or> a \<le> vstart (entries s ! (i - 1)) \<or> vend (entries s ! (i - 1)) \<le> a
      then (VMA_OK, s)
      else if capacity s \<le> vcount s then (VMA_STATE, s)
      else
        let j = i - 1; e = entries s ! j; delta = a - vstart e in
        if kind e \<noteq> KIND_ANONYMOUS \<and> u64_max - delta < backing_offset e then (VMA_STATE, s)
        else
          let right = e\<lparr>backing_offset := (if kind e \<noteq> KIND_ANONYMOUS
                                           then backing_offset e + delta else backing_offset e),
                        vstart := a\<rparr>;
              s1 = s\<lparr>entries := (entries s)[j := e\<lparr>vend := a\<rparr>]\<rparr>;
              s2 = move_entries s1 (j + 2) (j + 1) (vcount s1 - j - 1);
              s3 = s2\<lparr>entries := (entries s2)[j + 1 := right]\<rparr>;
              s4 = shm_open (shm_attachment right) s3
          in (VMA_OK, s4\<lparr>vcount := vcount s4 + 1\<rparr>))"

text \<open>The compaction loop of \<^verbatim>\<open>merge_all\<close>: \<open>output\<close> is the last slot kept, \<open>index\<close> the next one read.\<close>

function merge_loop :: "vma_set \<Rightarrow> nat \<Rightarrow> nat \<Rightarrow> vma_set \<times> nat" where
  "merge_loop s output index =
     (if index < vcount s then
        let es = entries s in
        if can_merge (es ! output) (es ! index) then
          merge_loop (shm_close (shm_attachment (es ! index))
                        (s\<lparr>entries := es[output := (es ! output)\<lparr>vend := vend (es ! index)\<rparr>]\<rparr>))
                     output (Suc index)
        else if Suc output \<noteq> index then
          merge_loop (s\<lparr>entries := es[Suc output := es ! index]\<rparr>) (Suc output) (Suc index)
        else merge_loop s (Suc output) (Suc index)
      else (s, output))"
  by pat_completeness auto
termination
  by (relation "measure (\<lambda>(s, output, index). vcount s - index)")
     (auto simp: shm_close_def)

declare merge_loop.simps [simp del]

definition merge_all :: "vma_set \<Rightarrow> vma_set" where
  "merge_all s =
     (if vcount s = 0 then s
      else let (s1, output) = merge_loop s 0 1 in s1\<lparr>vcount := output + 1\<rparr>)"

section \<open>Operations on a set\<close>

definition kernel_vma_set_clear_locks :: "vma_set \<Rightarrow> vma_set option" where
  "kernel_vma_set_clear_locks s =
     (if \<not> set_valid s then None
      else let s1 = s\<lparr>entries :=
                 map (\<lambda>v. v\<lparr>vflags := vflags v AND NOT VMA_LOCK_MASK\<rparr>) (take (vcount s) (entries s))
                 @ drop (vcount s) (entries s), locked_bytes := 0\<rparr>;
               s2 = merge_all s1
           in Some (s2\<lparr>generation := generation s2 + 1\<rparr>))"

text \<open>\<^verbatim>\<open>kernel_vma_set_create\<close>: \<open>st\<close> is the outcome of the zeroed allocation, \<open>p\<close> its address.\<close>

definition kernel_vma_set_create :: "heap_status \<Rightarrow> ptr \<Rightarrow> vma_status + vma_set" where
  "kernel_vma_set_create st p =
     (case st of
        HEAP_OK \<Rightarrow> Inr \<lparr>self = p, entries = [], vcount = 0, capacity = 0, generation = 0,
                       total_bytes = 0, data_bytes = 0, locked_bytes = 0, shm_refs = (\<lambda>_. 0)\<rparr>
      | HEAP_EMPTY \<Rightarrow> Inl VMA_NO_MEMORY
      | _ \<Rightarrow> Inl VMA_STATE)"

definition kernel_vma_set_destroy :: "vma_set \<Rightarrow> vma_status \<times> vma_set" where
  "kernel_vma_set_destroy s =
     (if \<not> set_valid s then (VMA_INVALID_ARGUMENT, s)
      else if entries s \<noteq> [] then
        (VMA_OK, (fold (\<lambda>v. shm_close (shm_attachment v)) (live s) s)
           \<lparr>entries := [], vcount := 0, capacity := 0, total_bytes := 0, data_bytes := 0\<rparr>)
      else (VMA_OK, s))"

fun fork_loop :: "vma list \<Rightarrow> vma_set \<Rightarrow> vma_set" where
  "fork_loop [] w = w"
| "fork_loop (v # vs) w =
     (if vflags v AND VMA_DONTFORK \<noteq> 0 then fork_loop vs w
      else let e = v\<lparr>vflags := vflags v AND NOT VMA_LOCK_MASK\<rparr>;
               w1 = w\<lparr>entries := (entries w)[vcount w := e], vcount := vcount w + 1\<rparr>
           in fork_loop vs (shm_open (shm_attachment e) w1))"

definition kernel_vma_set_fork ::
  "vma_heap \<Rightarrow> heap_status \<Rightarrow> ptr \<Rightarrow> vma_set \<Rightarrow> (vma_status + vma_set) option" where
  "kernel_vma_set_fork h st p source =
     (if \<not> set_valid source then Some (Inl VMA_INVALID_ARGUMENT)
      else case kernel_vma_set_create st p of
        Inl e \<Rightarrow> Some (Inl e)
      | Inr w \<Rightarrow> do {
          (rs, w1) \<leftarrow> reserve_entries h w (vcount source);
          if rs = VMA_OK then do {
            w2 \<leftarrow> recount_bytes (merge_all (fork_loop (live source) w1));
            Some (Inr w2)
          } else Some (Inl rs)
        })"

definition kernel_vma_set_insert ::
  "u64 \<Rightarrow> vma_heap \<Rightarrow> vma_set \<Rightarrow> vma \<Rightarrow> (vma_status \<times> vma_set) option" where
  "kernel_vma_set_insert page_mask h s v =
     (if \<not> set_valid s \<or> \<not> vma_valid page_mask v then Some (VMA_INVALID_ARGUMENT, s)
      else if generation s = u64_max then Some (VMA_STATE, s)
      else do {
        (st, s1) \<leftarrow> insert_entry h s v;
        if st = VMA_OK then do {
          s2 \<leftarrow> recount_bytes s1;
          Some (VMA_OK, s2\<lparr>generation := generation s2 + 1\<rparr>)
        } else Some (st, s1)
      })"

definition split_needed :: "vma_set \<Rightarrow> u64 \<Rightarrow> bool" where
  "split_needed s a =
     (let i = lower_bound s (after_address a) in
      0 < i \<and> vstart (entries s ! (i - 1)) < a \<and> a < vend (entries s ! (i - 1)))"

definition reserve_edit_capacity ::
  "vma_heap \<Rightarrow> vma_set \<Rightarrow> u64 \<Rightarrow> u64 \<Rightarrow> bool \<Rightarrow> (vma_status \<times> vma_set) option" where
  "reserve_edit_capacity h s a b replacing =
     (let extra = of_bool (split_needed s a) + of_bool (split_needed s b) in
      if uint32_max - extra < vcount s then Some (VMA_NO_MEMORY, s)
      else
        let required = vcount s + extra in
        if replacing then
          (case kernel_vma_set_overlaps s a b of
             Inl _ \<Rightarrow> Some (VMA_STATE, s)
           | Inr overlaps \<Rightarrow>
               if \<not> overlaps then
                 if vcount s = uint32_max then Some (VMA_NO_MEMORY, s)
                 else reserve_entries h s
                        (if required < vcount s + 1 then vcount s + 1 else required)
               else reserve_entries h s required)
        else reserve_entries h s required)"

definition kernel_vma_set_prepare_replace ::
  "u64 \<Rightarrow> vma_heap \<Rightarrow> vma_set \<Rightarrow> u64 \<Rightarrow> u64 \<Rightarrow> vma option
     \<Rightarrow> (vma_set \<times> (vma_status + vma_edit)) option" where
  "kernel_vma_set_prepare_replace page_mask h s a b replacement =
     (if \<not> set_valid s \<or> b \<le> a \<or>
         (case replacement of None \<Rightarrow> False
          | Some r \<Rightarrow> \<not> vma_valid page_mask r \<or> vstart r \<noteq> a \<or> vend r \<noteq> b)
      then Some (s, Inl VMA_INVALID_ARGUMENT)
      else if generation s = u64_max then Some (s, Inl VMA_STATE)
      else do {
        (st, s1) \<leftarrow> reserve_edit_capacity h s a b (replacement \<noteq> None);
        if st \<noteq> VMA_OK then Some (s1, Inl st)
        else Some (s1, Inr \<lparr>edit_set = self s1, edit_generation = generation s1,
               edit_start = a, edit_end = b, edit_permissions = 0, edit_flags = 0,
               edit_flags_mask = 0,
               edit_kind = (case replacement of None \<Rightarrow> EDIT_REMOVE | Some _ \<Rightarrow> EDIT_REPLACE),
               edit_replacement = (case replacement of None \<Rightarrow> vma_zero | Some r \<Rightarrow> r)\<rparr>)
      })"

function covered_loop :: "vma_set \<Rightarrow> u64 \<Rightarrow> nat \<Rightarrow> u64 \<Rightarrow> bool" where
  "covered_loop s b i cursor =
     (if i < vcount s \<and> cursor < b then
        if cursor < vstart (entries s ! i) \<or> vend (entries s ! i) \<le> cursor then False
        else covered_loop s b (Suc i) (vend (entries s ! i))
      else b \<le> cursor)"
  by pat_completeness auto
termination
  by (relation "measure (\<lambda>(s, b, i, cursor). vcount s - i)") auto

declare covered_loop.simps [simp del]

text \<open>The first slot that can hold an address at or after \<open>a\<close>: step back over a straddling slot.\<close>

definition first_slot :: "vma_set \<Rightarrow> u64 \<Rightarrow> nat" where
  "first_slot s a =
     (let i = lower_bound s a in
      if 0 < i \<and> a < vend (entries s ! (i - 1)) then i - 1 else i)"

definition range_is_covered :: "vma_set \<Rightarrow> u64 \<Rightarrow> u64 \<Rightarrow> bool" where
  "range_is_covered s a b = covered_loop s b (first_slot s a) a"

function permission_loop :: "vma_set \<Rightarrow> u64 \<Rightarrow> u32 \<Rightarrow> nat \<Rightarrow> bool" where
  "permission_loop s b perms i =
     (if i < vcount s \<and> vstart (entries s ! i) < b then
        if perms AND VMA_ALL_PERMISSIONS AND NOT (maximum_permissions (entries s ! i)) \<noteq> 0
        then False
        else permission_loop s b perms (Suc i)
      else True)"
  by pat_completeness auto
termination
  by (relation "measure (\<lambda>(s, b, perms, i). vcount s - i)") auto

declare permission_loop.simps [simp del]

definition kernel_vma_set_prepare_protect ::
  "vma_heap \<Rightarrow> vma_set \<Rightarrow> u64 \<Rightarrow> u64 \<Rightarrow> u32 \<Rightarrow> (vma_set \<times> (vma_status + vma_edit)) option" where
  "kernel_vma_set_prepare_protect h s a b perms =
     (if \<not> set_valid s \<or> b \<le> a then Some (s, Inl VMA_INVALID_ARGUMENT)
      else if \<not> range_is_covered s a b then Some (s, Inl VMA_NOT_FOUND)
      else if \<not> permission_loop s b perms (first_slot s a) then Some (s, Inl VMA_ACCESS)
      else if generation s = u64_max then Some (s, Inl VMA_STATE)
      else do {
        (st, s1) \<leftarrow> reserve_edit_capacity h s a b False;
        if st \<noteq> VMA_OK then Some (s1, Inl st)
        else Some (s1, Inr \<lparr>edit_set = self s1, edit_generation = generation s1,
               edit_start = a, edit_end = b, edit_permissions = perms, edit_flags = 0,
               edit_flags_mask = 0, edit_kind = EDIT_PROTECT, edit_replacement = vma_zero\<rparr>)
      })"

definition kernel_vma_set_prepare_flags ::
  "vma_heap \<Rightarrow> vma_set \<Rightarrow> u64 \<Rightarrow> u64 \<Rightarrow> u32 \<Rightarrow> u32
     \<Rightarrow> (vma_set \<times> (vma_status + vma_edit)) option" where
  "kernel_vma_set_prepare_flags h s a b fmask flags =
     (if \<not> set_valid s \<or> b \<le> a \<or> fmask AND NOT VMA_ALL_FLAGS \<noteq> 0 \<or> flags AND NOT fmask \<noteq> 0 \<or>
         (fmask AND VMA_LOCK_MASK \<noteq> 0 \<and>
          (fmask AND VMA_LOCK_MASK \<noteq> VMA_LOCK_MASK \<or> flags AND VMA_LOCK_MASK = VMA_LOCK_ONFAULT))
      then Some (s, Inl VMA_INVALID_ARGUMENT)
      else if \<not> range_is_covered s a b then Some (s, Inl VMA_NOT_FOUND)
      else if generation s = u64_max then Some (s, Inl VMA_STATE)
      else do {
        (st, s1) \<leftarrow> reserve_edit_capacity h s a b False;
        if st \<noteq> VMA_OK then Some (s1, Inl st)
        else Some (s1, Inr \<lparr>edit_set = self s1, edit_generation = generation s1,
               edit_start = a, edit_end = b, edit_permissions = 0, edit_flags = flags,
               edit_flags_mask = fmask, edit_kind = EDIT_FLAGS, edit_replacement = vma_zero\<rparr>)
      })"

text \<open>
  The admission loop of \<^verbatim>\<open>kernel_vma_set_prepare_mprotect\<close>. \<open>e\<close> is the caller's edit, whose set
  pointer is null until the first changed area has been reserved; \<open>first_split\<close> and \<open>data\<close> are
  the locals of the C function, \<open>limits\<close> what \<^verbatim>\<open>kernel_task_current_memory_limits\<close> fills in.
\<close>

function mprotect_loop ::
  "vma_heap \<Rightarrow> memory_limits \<Rightarrow> u32 \<Rightarrow> u64 \<Rightarrow> vma_set \<Rightarrow> vma_edit \<Rightarrow> nat \<Rightarrow> bool \<Rightarrow> u64 \<Rightarrow> u64
     \<Rightarrow> (vma_status \<times> vma_set \<times> vma_edit) option" where
  "mprotect_loop h limits perms b s e i first_split data a =
     (if \<not> a < b then Some (VMA_OK, s, e)
      else if i = vcount s \<or> a < vstart (entries s ! i) \<or> vend (entries s ! i) \<le> a
      then Some (VMA_NO_MEMORY, s, e)
      else
        let v = entries s ! i;
            finish = (if vend v < b then vend v else b);
            bytes = finish - a;
            toggles = ((permissions v XOR perms) AND 2 \<noteq> 0 \<and> private_data_mapping v);
            grows = (toggles \<and> perms AND 2 \<noteq> 0);
            limit = (if data_soft limits \<noteq> 0 then data_soft limits else data_hard limits);
            end_split = (finish < vend v);
            fresh = (edit_set e = 0);
            split = (if fresh then vstart v < a else first_split);
            extra = of_bool split + of_bool end_split;
            data' = (if grows then data + bytes else if toggles then data - bytes else data);
            e' = (if fresh
                  then \<lparr>edit_set = self s, edit_generation = generation s, edit_start = a,
                        edit_end = finish, edit_permissions = perms, edit_flags = 0,
                        edit_flags_mask = 0, edit_kind = EDIT_PROTECT,
                        edit_replacement = vma_zero\<rparr>
                  else e\<lparr>edit_end := finish\<rparr>)
        in
        if perms AND NOT (maximum_permissions v) \<noteq> 0 then Some (VMA_ACCESS, s, e)
        else if permissions v = perms
        then mprotect_loop h limits perms b s e (Suc i) first_split data finish
        else if grows \<and> total_bytes s \<le> address_space limits \<and>
                bytes \<le> address_space limits - total_bytes s \<and>
                (limit < data \<or> limit - data < bytes)
        then Some (VMA_NO_MEMORY, s, e)
        else if fresh \<and> generation s = u64_max then Some (VMA_STATE, s, e)
        else if fresh \<or> end_split then
          if uint32_max - extra < vcount s then Some (VMA_NO_MEMORY, s, e)
          else (case reserve_entries h s (vcount s + extra) of
                  None \<Rightarrow> None
                | Some (st, s1) \<Rightarrow>
                    if st \<noteq> VMA_OK then Some (st, s1, e)
                    else mprotect_loop h limits perms b s1 e' (Suc i) split data' finish)
        else mprotect_loop h limits perms b s e' (Suc i) split data' finish)"
  by pat_completeness auto
termination
  by (relation "measure (\<lambda>(h, limits, perms, b, s, e, i, first_split, data, a). unat b - unat a)")
     (auto simp: word_less_nat_alt word_le_nat_alt)

declare mprotect_loop.simps [simp del]

definition kernel_vma_set_prepare_mprotect ::
  "vma_heap \<Rightarrow> memory_limits \<Rightarrow> vma_set \<Rightarrow> u64 \<Rightarrow> u64 \<Rightarrow> u32 \<Rightarrow> vma_edit
     \<Rightarrow> (vma_status \<times> vma_set \<times> vma_edit) option" where
  "kernel_vma_set_prepare_mprotect h limits s a b perms e =
     (if \<not> set_valid s \<or> b \<le> a then Some (VMA_INVALID_ARGUMENT, s, e\<lparr>edit_set := 0\<rparr>)
      else mprotect_loop h limits perms b s (e\<lparr>edit_set := 0\<rparr>) (first_slot s a) False
             (data_bytes s) a)"

text \<open>The in-place update loop of \<^verbatim>\<open>kernel_vma_set_commit_edit\<close> over slots \<open>first\<close> to \<open>limit\<close>.\<close>

definition apply_edit :: "vma_edit \<Rightarrow> vma \<Rightarrow> vma" where
  "apply_edit e v =
     (if edit_kind e = EDIT_PROTECT then v\<lparr>permissions := edit_permissions e\<rparr>
      else v\<lparr>vflags := (vflags v AND NOT (edit_flags_mask e)) OR edit_flags e\<rparr>)"

definition edit_slots :: "vma_edit \<Rightarrow> nat \<Rightarrow> nat \<Rightarrow> vma list \<Rightarrow> vma list" where
  "edit_slots e first limit es = fold (\<lambda>i es. es[i := apply_edit e (es ! i)]) [first..<limit] es"

definition kernel_vma_set_commit_edit ::
  "u64 \<Rightarrow> vma_heap \<Rightarrow> vma_set \<Rightarrow> vma_edit \<Rightarrow> (vma_status \<times> vma_set) option" where
  "kernel_vma_set_commit_edit page_mask h s e =
     (if \<not> set_valid s \<or> edit_set e \<noteq> self s \<or> edit_generation e \<noteq> generation s \<or>
         edit_end e \<le> edit_start e
      then Some (VMA_STATE, s)
      else if edit_kind e = EDIT_REPLACE \<and>
              (\<not> vma_valid page_mask (edit_replacement e) \<or>
               vstart (edit_replacement e) \<noteq> edit_start e \<or>
               vend (edit_replacement e) \<noteq> edit_end e)
      then Some (VMA_STATE, s)
      else case split_at s (edit_start e) of (st1, s1) \<Rightarrow>
        if st1 \<noteq> VMA_OK then Some (VMA_STATE, s1)
        else case split_at s1 (edit_end e) of (st2, s2) \<Rightarrow>
          if st2 \<noteq> VMA_OK then Some (VMA_STATE, s2)
          else
            let first = lower_bound s2 (edit_start e); limit = lower_bound s2 (edit_end e) in
            if edit_kind e = EDIT_PROTECT \<or> edit_kind e = EDIT_FLAGS then do {
              s3 \<leftarrow> recount_bytes (merge_all (s2\<lparr>entries := edit_slots e first limit (entries s2)\<rparr>));
              Some (VMA_OK, s3\<lparr>generation := generation s3 + 1\<rparr>)
            } else do {
              let s3 = fold (\<lambda>i s. shm_close (shm_attachment (entries s ! i)) s) [first..<limit] s2;
              let s4 = move_entries s3 first limit (vcount s3 - limit);
              let s5 = s4\<lparr>vcount := vcount s4 - (limit - first)\<rparr>;
              (st6, s6) \<leftarrow> (if edit_kind e = EDIT_REPLACE
                           then insert_entry h s5 (edit_replacement e) else Some (VMA_OK, s5));
              if st6 \<noteq> VMA_OK then Some (VMA_STATE, s6)
              else do {
                s7 \<leftarrow> recount_bytes (merge_all s6);
                Some (VMA_OK, s7\<lparr>generation := generation s7 + 1\<rparr>)
              }
            })"

definition kernel_vma_set_prepare_remap ::
  "u64 \<Rightarrow> vma_heap \<Rightarrow> vma_set \<Rightarrow> u64 \<Rightarrow> u64 \<Rightarrow> vma
     \<Rightarrow> (vma_set \<times> (vma_status + vma_remap)) option" where
  "kernel_vma_set_prepare_remap page_mask h s a b r =
     (if \<not> set_valid s \<or> \<not> vma_valid page_mask r \<or> b \<le> a \<or> u64_max - 2 < generation s
      then Some (s, Inl VMA_INVALID_ARGUMENT)
      else
        let check_start = (if vstart r = a then b else vstart r) in
        if check_start < vend r \<and> kernel_vma_set_overlaps s check_start (vend r) \<noteq> Inr False
        then Some (s, Inl VMA_CONFLICT)
        else if uint32_max - 3 < vcount s then Some (s, Inl VMA_NO_MEMORY)
        else do {
          (st, s1) \<leftarrow> reserve_entries h s (vcount s + 3);
          if st \<noteq> VMA_OK then Some (s1, Inl st)
          else Some (s1, Inr \<lparr>remap_set = self s1, remap_generation = generation s1,
                 remap_start = a, remap_end = b, remap_replacement = r\<rparr>)
        })"

definition kernel_vma_set_commit_remap ::
  "u64 \<Rightarrow> vma_heap \<Rightarrow> vma_set \<Rightarrow> vma_remap \<Rightarrow> (vma_status \<times> vma_set) option" where
  "kernel_vma_set_commit_remap page_mask h s e =
     (if remap_set e \<noteq> self s \<or> remap_generation e \<noteq> generation s then Some (VMA_STATE, s)
      else do {
        (s1, prepared) \<leftarrow>
          kernel_vma_set_prepare_replace page_mask h s (remap_start e) (remap_end e) None;
        case prepared of
          Inl _ \<Rightarrow> None
        | Inr removal \<Rightarrow> do {
            (st2, s2) \<leftarrow> kernel_vma_set_commit_edit page_mask h s1 removal;
            if st2 \<noteq> VMA_OK then None
            else do {
              (st3, s3) \<leftarrow> kernel_vma_set_insert page_mask h s2 (remap_replacement e);
              if st3 \<noteq> VMA_OK then None else Some (VMA_OK, s3)
            }
          }
      })"

definition kernel_vma_set_trim_end ::
  "vma_set \<Rightarrow> u64 \<Rightarrow> u64 \<Rightarrow> u64 \<Rightarrow> (vma_status \<times> vma_set) option" where
  "kernel_vma_set_trim_end s a old_end new_end =
     (if \<not> set_valid s \<or> old_end \<le> a \<or> new_end < a \<or> old_end \<le> new_end
      then Some (VMA_INVALID_ARGUMENT, s)
      else if generation s = u64_max then Some (VMA_STATE, s)
      else
        let i = lower_bound s a in
        if vcount s \<le> i \<or> vstart (entries s ! i) \<noteq> a \<or> vend (entries s ! i) \<noteq> old_end
        then Some (VMA_NOT_FOUND, s)
        else do {
          s2 \<leftarrow> recount_bytes
                 (if new_end = a then erase_entry s i
                  else s\<lparr>entries := (entries s)[i := (entries s ! i)\<lparr>vend := new_end\<rparr>]\<rparr>);
          Some (VMA_OK, s2\<lparr>generation := generation s2 + 1\<rparr>)
        })"

end
