(* ===== verification/Vma_View.thy ===== *)
theory Vma_View
  imports Vma
begin

text \<open>
  What a set of virtual memory areas means: the map from addresses to the attributes a page
  fault at that address sees. The theory states the representation invariant of the sorted
  array and proves, for every slot-level helper of \<^verbatim>\<open>mm/vma.c\<close>, what it does to the list of live
  areas and to that map.
\<close>

section \<open>Abstraction\<close>

record vattr =
  at_permissions :: u32
  at_maximum :: u32
  at_kind :: vma_kind
  at_role :: vma_role
  at_policy :: vma_fault_policy
  at_flags :: u32
  at_backing :: ptr
  at_shm :: ptr
  at_offset :: u64

definition covers :: "vma \<Rightarrow> u64 \<Rightarrow> bool" where
  "covers v a \<longleftrightarrow> vstart v \<le> a \<and> a < vend v"

definition attr_at :: "vma \<Rightarrow> u64 \<Rightarrow> vattr" where
  "attr_at v a = \<lparr>at_permissions = permissions v, at_maximum = maximum_permissions v,
     at_kind = kind v, at_role = role v, at_policy = fault_policy v, at_flags = vflags v,
     at_backing = backing v, at_shm = shm_attachment v,
     at_offset = (if kind v = KIND_ANONYMOUS then 0 else backing_offset v + (a - vstart v))\<rparr>"

fun lview :: "vma list \<Rightarrow> u64 \<Rightarrow> vattr option" where
  "lview [] a = None"
| "lview (v # vs) a = (if covers v a then Some (attr_at v a) else lview vs a)"

definition view :: "vma_set \<Rightarrow> u64 \<Rightarrow> vattr option" where
  "view s = lview (live s)"

section \<open>Invariant\<close>

definition ordered :: "vma list \<Rightarrow> bool" where
  "ordered vs \<longleftrightarrow> sorted_wrt (\<lambda>v w. vend v \<le> vstart w) vs \<and> (\<forall>v \<in> set vs. vstart v < vend v)"

definition is_page_mask :: "u64 \<Rightarrow> bool" where
  "is_page_mask pm \<longleftrightarrow> (\<exists>k. pm = mask k)"

definition area_ok :: "u64 \<Rightarrow> vma \<Rightarrow> bool" where
  "area_ok pm v \<longleftrightarrow> vma_valid pm v \<and> vstart v AND pm = 0 \<and> vend v AND pm = 0"

fun coalesced :: "vma list \<Rightarrow> bool" where
  "coalesced (v # w # vs) = (\<not> can_merge v w \<and> coalesced (w # vs))"
| "coalesced vs = True"

definition vlen :: "vma \<Rightarrow> nat" where
  "vlen v = unat (vend v) - unat (vstart v)"

definition bytes_where :: "(vma \<Rightarrow> bool) \<Rightarrow> vma list \<Rightarrow> nat" where
  "bytes_where P vs = sum_list (map vlen (filter P vs))"

definition area_locked :: "vma \<Rightarrow> bool" where
  "area_locked v \<longleftrightarrow> vflags v AND VMA_LOCKED \<noteq> 0"

definition accounted :: "vma_set \<Rightarrow> bool" where
  "accounted s \<longleftrightarrow>
     unat (total_bytes s) = bytes_where (\<lambda>_. True) (live s) \<and>
     unat (data_bytes s) = bytes_where kernel_vma_is_data (live s) \<and>
     unat (locked_bytes s) = bytes_where area_locked (live s)"

definition attachments :: "ptr \<Rightarrow> vma list \<Rightarrow> int" where
  "attachments p vs = int (length (filter (\<lambda>v. shm_attachment v = p) vs))"

definition shm_balanced :: "vma_set \<Rightarrow> bool" where
  "shm_balanced s \<longleftrightarrow> (\<forall>p. p \<noteq> 0 \<longrightarrow> shm_refs s p = attachments p (live s))"

text \<open>The part of the invariant that holds between the steps of an edit.\<close>

definition array_ok :: "u64 \<Rightarrow> vma_set \<Rightarrow> bool" where
  "array_ok pm s \<longleftrightarrow> set_valid s \<and> length (entries s) = capacity s \<and> capacity s \<le> uint32_max \<and>
     ordered (live s) \<and> (\<forall>v \<in> set (live s). area_ok pm v) \<and> shm_balanced s"

definition vset_inv :: "u64 \<Rightarrow> vma_set \<Rightarrow> bool" where
  "vset_inv pm s \<longleftrightarrow> array_ok pm s \<and> coalesced (live s) \<and> accounted s"

section \<open>Lists of areas\<close>

lemma ordered_Nil [simp]: "ordered []"
  by (simp add: ordered_def)

lemma ordered_Cons:
  "ordered (v # vs) \<longleftrightarrow> vstart v < vend v \<and> (\<forall>w \<in> set vs. vend v \<le> vstart w) \<and> ordered vs"
  by (auto simp: ordered_def)

lemma ordered_append:
  "ordered (xs @ ys) \<longleftrightarrow>
     ordered xs \<and> ordered ys \<and> (\<forall>x \<in> set xs. \<forall>y \<in> set ys. vend x \<le> vstart y)"
  by (auto simp: ordered_def sorted_wrt_append)

lemmas ordered_simps = ordered_Cons ordered_append

lemma lview_append:
  "lview (xs @ ys) a = (case lview xs a of None \<Rightarrow> lview ys a | Some t \<Rightarrow> Some t)"
  by (induction xs) auto

lemma lview_eq_None_iff: "lview vs a = None \<longleftrightarrow> (\<forall>v \<in> set vs. \<not> covers v a)"
  by (induction vs) auto

lemma lview_Some_covers: "lview vs a = Some t \<Longrightarrow> \<exists>v \<in> set vs. covers v a \<and> t = attr_at v a"
  by (induction vs) (auto split: if_splits)

lemma ordered_covers_unique:
  assumes "ordered vs" "v \<in> set vs" "w \<in> set vs" "covers v a" "covers w a"
  shows "v = w"
  using assms
  by (induction vs) (auto simp: ordered_Cons covers_def dest: order.strict_trans2 order.trans)

lemma lview_covers:
  assumes "ordered vs" "v \<in> set vs" "covers v a"
  shows "lview vs a = Some (attr_at v a)"
  using assms ordered_covers_unique [OF assms(1)]
  by (cases "lview vs a") (auto simp: lview_eq_None_iff dest!: lview_Some_covers)

lemma lview_map_attr:
  assumes "\<And>v. v \<in> set vs \<Longrightarrow> vstart (f v) = vstart v \<and> vend (f v) = vend v"
    and "\<And>v. v \<in> set vs \<Longrightarrow> attr_at (f v) a = g (attr_at v a)"
  shows "lview (map f vs) a = map_option g (lview vs a)"
  using assms by (induction vs) (auto simp: covers_def)

section \<open>Bisection\<close>

lemma lower_bound_loop_spec:
  assumes "sorted (map vstart (take n es))" "n \<le> length es" "low \<le> high" "high \<le> n"
    and "\<forall>i < low. vstart (es ! i) < a" "\<forall>i. high \<le> i \<and> i < n \<longrightarrow> a \<le> vstart (es ! i)"
  shows "lower_bound_loop es a low high \<le> n
    \<and> (\<forall>i < lower_bound_loop es a low high. vstart (es ! i) < a)
    \<and> (\<forall>i. lower_bound_loop es a low high \<le> i \<and> i < n \<longrightarrow> a \<le> vstart (es ! i))"
  using assms
proof (induction es a low high rule: lower_bound_loop.induct)
  case (1 es a low high)
  have mono: "vstart (es ! i) \<le> vstart (es ! j)" if "i \<le> j" "j < n" for i j
    using sorted_nth_mono [OF "1.prems"(1), of i j] that "1.prems"(2) by simp
  show ?case
  proof (cases "low < high")
    case False
    then have "lower_bound_loop es a low high = low"
      by (subst lower_bound_loop.simps) simp
    with False "1.prems" show ?thesis by simp
  next
    case True
    define m where "m = low + (high - low) div 2"
    have m: "low \<le> m" "m < high" using True unfolding m_def by linarith+
    have unf: "lower_bound_loop es a low high =
        (if vstart (es ! m) < a then lower_bound_loop es a (m + 1) high
         else lower_bound_loop es a low m)"
      using True unfolding m_def by (subst lower_bound_loop.simps) (simp add: Let_def)
    show ?thesis
    proof (cases "vstart (es ! m) < a")
      case less: True
      have "\<forall>i < m + 1. vstart (es ! i) < a"
      proof (intro allI impI)
        fix i assume "i < m + 1"
        then have "vstart (es ! i) \<le> vstart (es ! m)" using mono m "1.prems"(4) by simp
        then show "vstart (es ! i) < a" using less by (rule order.strict_trans1)
      qed
      then show ?thesis unfolding unf if_P [OF less]
        using m by (intro "1.IH"(1) [OF True m_def less "1.prems"(1,2) _ "1.prems"(4) _ "1.prems"(6)]) simp_all
    next
      case ge: False
      have "\<forall>i. m \<le> i \<and> i < n \<longrightarrow> a \<le> vstart (es ! i)"
      proof (intro allI impI)
        fix i assume "m \<le> i \<and> i < n"
        then have "vstart (es ! m) \<le> vstart (es ! i)" using mono by simp
        with ge show "a \<le> vstart (es ! i)" by (simp add: linorder_not_less)
      qed
      then have "lower_bound_loop es a low m \<le> n
        \<and> (\<forall>i < lower_bound_loop es a low m. vstart (es ! i) < a)
        \<and> (\<forall>i. lower_bound_loop es a low m \<le> i \<and> i < n \<longrightarrow> a \<le> vstart (es ! i))"
        using m "1.prems"(4) by (intro "1.IH"(2) [OF True m_def ge "1.prems"(1,2) m(1) _ "1.prems"(5)]) simp_all
      then show ?thesis unfolding unf if_not_P [OF ge] .
    qed
  qed
qed

lemma ordered_sorted_starts: "ordered vs \<Longrightarrow> sorted (map vstart vs)"
  by (induction vs) (auto simp: ordered_Cons dest: order.strict_implies_order intro: order.trans)

lemma live_length: "set_valid s \<Longrightarrow> length (entries s) = capacity s \<Longrightarrow> length (live s) = vcount s"
  by (auto simp: live_def set_valid_def)

text \<open>The search splits the live areas into those that start before the key and the rest.\<close>

lemma lower_bound_split:
  assumes "array_ok pm s"
  obtains xs ys where "live s = xs @ ys" "lower_bound s a = length xs"
    "\<forall>v \<in> set xs. vstart v < a" "\<forall>v \<in> set ys. a \<le> vstart v"
    "entries s = xs @ ys @ drop (vcount s) (entries s)" "vcount s = length xs + length ys"
proof -
  let ?k = "lower_bound s a"
  have len: "length (live s) = vcount s" and n: "vcount s \<le> length (entries s)"
    using assms by (auto simp: array_ok_def live_length set_valid_def)
  have "sorted (map vstart (take (vcount s) (entries s)))"
    using assms by (simp add: array_ok_def live_def [symmetric] ordered_sorted_starts)
  then have "?k \<le> vcount s \<and> (\<forall>i < ?k. vstart (entries s ! i) < a)
    \<and> (\<forall>i. ?k \<le> i \<and> i < vcount s \<longrightarrow> a \<le> vstart (entries s ! i))"
    unfolding lower_bound_def using n by (intro lower_bound_loop_spec) auto
  then have spec: "?k \<le> vcount s" "\<forall>i < ?k. vstart (entries s ! i) < a"
    "\<forall>i. ?k \<le> i \<and> i < vcount s \<longrightarrow> a \<le> vstart (entries s ! i)" by auto
  have nth: "live s ! i = entries s ! i" if "i < vcount s" for i
    using that by (simp add: live_def)
  show thesis
  proof (rule that [of "take ?k (live s)" "drop ?k (live s)"])
    show "live s = take ?k (live s) @ drop ?k (live s)" by simp
    show "lower_bound s a = length (take ?k (live s))" using spec len by simp
    show "\<forall>v \<in> set (take ?k (live s)). vstart v < a"
      using spec len nth by (auto simp: in_set_conv_nth)
    show "\<forall>v \<in> set (drop ?k (live s)). a \<le> vstart v"
      using spec len nth by (auto simp: in_set_conv_nth)
    show "entries s = take ?k (live s) @ drop ?k (live s) @ drop (vcount s) (entries s)"
      unfolding live_def append_assoc [symmetric] append_take_drop_id ..
    show "vcount s = length (take ?k (live s)) + length (drop ?k (live s))"
      using spec len by simp
  qed
qed


section \<open>Moving slots\<close>

lemma length_copy_up [simp]: "length (copy_up es d src n k) = length es"
  by (induction es d src n k rule: copy_up.induct) (subst copy_up.simps, simp)

lemma length_copy_down [simp]: "length (copy_down es d src n) = length es"
  by (induction es d src n rule: copy_down.induct) simp_all

lemma copy_up_nth [array_moves]:
  assumes "d \<le> src" "src + n \<le> length es" "i < length es"
  shows "copy_up es d src n k ! i = (if d + k \<le> i \<and> i < d + n then es ! (src + (i - d)) else es ! i)"
  using assms
proof (induction es d src n k rule: copy_up.induct)
  case (1 es d src n k)
  show ?case
  proof (cases "k < n")
    case True
    have "copy_up es d src n k ! i = copy_up (es[d + k := es ! (src + k)]) d src n (Suc k) ! i"
      using True by (subst copy_up.simps) simp
    also have "\<dots> = (if d + Suc k \<le> i \<and> i < d + n then es[d + k := es ! (src + k)] ! (src + (i - d))
                      else es[d + k := es ! (src + k)] ! i)"
      using "1.IH" [OF True] "1.prems" by simp
    also have "\<dots> = (if d + k \<le> i \<and> i < d + n then es ! (src + (i - d)) else es ! i)"
      using True "1.prems" by (auto simp: nth_list_update)
    finally show ?thesis .
  next
    case False
    then show ?thesis by (subst copy_up.simps) auto
  qed
qed

lemma copy_up_close_gap [array_moves]:
  "take (length pre + length ys)
     (copy_up (pre @ mid @ ys @ zs) (length pre) (length pre + length mid) (length ys) 0) = pre @ ys"
proof (rule nth_equalityI)
  fix i assume "i < length (take (length pre + length ys)
    (copy_up (pre @ mid @ ys @ zs) (length pre) (length pre + length mid) (length ys) 0))"
  then have i: "i < length pre + length ys" by simp
  have "copy_up (pre @ mid @ ys @ zs) (length pre) (length pre + length mid) (length ys) 0 ! i
      = (if length pre \<le> i then ys ! (i - length pre) else pre ! i)"
    using i by (subst copy_up_nth) (auto simp: nth_append)
  then show "take (length pre + length ys)
      (copy_up (pre @ mid @ ys @ zs) (length pre) (length pre + length mid) (length ys) 0) ! i
      = (pre @ ys) ! i"
    using i by (simp add: nth_append)
qed simp

lemma copy_down_open_gap [array_moves]:
  "(copy_down (pre @ ys @ z # zs) (Suc (length pre)) (length pre) (length ys))[length pre := v]
     = pre @ v # ys @ zs"
proof (induction ys arbitrary: z zs rule: rev_induct)
  case Nil
  then show ?case by simp
next
  case (snoc y ys)
  have "(pre @ (ys @ [y]) @ z # zs)[Suc (length pre) + length ys :=
          (pre @ (ys @ [y]) @ z # zs) ! (length pre + length ys)] = pre @ ys @ y # y # zs"
    by (simp add: nth_append list_update_append)
  then show ?case using snoc.IH [of y "y # zs"] by simp
qed

lemma move_entries_open_gap [array_moves]:
  "entries s = pre @ ys @ z # zs \<Longrightarrow>
   (entries (move_entries s (Suc (length pre)) (length pre) (length ys)))[length pre := v]
     = pre @ v # ys @ zs"
  by (auto simp: move_entries_def copy_down_open_gap)

lemma move_entries_close_gap [array_moves]:
  "entries s = pre @ mid @ ys @ zs \<Longrightarrow>
   take (length pre + length ys)
     (entries (move_entries s (length pre) (length pre + length mid) (length ys))) = pre @ ys"
  by (auto simp: move_entries_def copy_up_close_gap)

lemma move_entries_fields [simp]:
  "self (move_entries s d src n) = self s" "vcount (move_entries s d src n) = vcount s"
  "capacity (move_entries s d src n) = capacity s" "generation (move_entries s d src n) = generation s"
  "shm_refs (move_entries s d src n) = shm_refs s"
  "length (entries (move_entries s d src n)) = length (entries s)"
  by (simp_all add: move_entries_def)

lemma shm_open_fields [simp]:
  "self (shm_open p s) = self s" "entries (shm_open p s) = entries s"
  "vcount (shm_open p s) = vcount s" "capacity (shm_open p s) = capacity s"
  "generation (shm_open p s) = generation s"
  by (simp_all add: shm_open_def)

lemma shm_close_fields [simp]:
  "self (shm_close p s) = self s" "entries (shm_close p s) = entries s"
  "vcount (shm_close p s) = vcount s" "capacity (shm_close p s) = capacity s"
  "generation (shm_close p s) = generation s"
  by (simp_all add: shm_close_def)

lemma shm_refs_open: "q \<noteq> 0 \<Longrightarrow> shm_refs (shm_open p s) q = shm_refs s q + of_bool (p = q)"
  by (simp add: shm_open_def)

lemma shm_refs_close: "q \<noteq> 0 \<Longrightarrow> shm_refs (shm_close p s) q = shm_refs s q - of_bool (p = q)"
  by (simp add: shm_close_def)

lemma attachments_simps [simp]:
  "attachments p [] = 0"
  "attachments p (v # vs) = of_bool (shm_attachment v = p) + attachments p vs"
  "attachments p (xs @ ys) = attachments p xs + attachments p ys"
  by (simp_all add: attachments_def)

section \<open>Valid areas\<close>

definition offset_fits :: "vma \<Rightarrow> bool" where
  "offset_fits v \<longleftrightarrow> backing_offset v \<le> u64_max - (vend v - vstart v)"

definition kind_ok :: "u64 \<Rightarrow> vma \<Rightarrow> bool" where
  "kind_ok pm v =
     (case kind v of
        KIND_ANONYMOUS \<Rightarrow> backing_offset v = 0 \<and> backing v = 0 \<and>
          fault_policy v \<noteq> FAULT_FILE_PRIVATE \<and> fault_policy v \<noteq> FAULT_ELF \<and>
          fault_policy v \<noteq> FAULT_ANON_SHARED
      | KIND_FILE_PRIVATE \<Rightarrow> backing v \<noteq> 0 \<and> fault_policy v = FAULT_FILE_PRIVATE \<and> offset_fits v
      | KIND_ELF_PRIVATE \<Rightarrow> backing v \<noteq> 0 \<and> fault_policy v = FAULT_ELF \<and> offset_fits v
      | KIND_ANON_SHARED \<Rightarrow> backing v \<noteq> 0 \<and> fault_policy v = FAULT_ANON_SHARED \<and>
          backing_offset v AND pm = 0 \<and> offset_fits v
      | KIND_SYSV_SHM \<Rightarrow> backing v \<noteq> 0 \<and> shm_attachment v \<noteq> 0 \<and>
          fault_policy v = FAULT_ANON_SHARED \<and> backing_offset v AND pm = 0 \<and> offset_fits v
      | KIND_FILE_SHARED \<Rightarrow> backing v \<noteq> 0 \<and> fault_policy v = FAULT_FILE_SHARED \<and> offset_fits v)"

text \<open>The early returns of \<^verbatim>\<open>vma_valid\<close> as one conjunction.\<close>

lemma vma_valid_iff:
  "vma_valid pm v \<longleftrightarrow> vstart v < vend v \<and>
     vflags v AND NOT VMA_ALL_FLAGS = 0 \<and> vflags v AND VMA_LOCK_MASK \<noteq> VMA_LOCK_ONFAULT \<and>
     maximum_permissions v AND NOT VMA_ALL_PERMISSIONS = 0 \<and>
     permissions v AND VMA_ALL_PERMISSIONS AND NOT (maximum_permissions v) = 0 \<and>
     (kind v \<noteq> KIND_SYSV_SHM \<longrightarrow> shm_attachment v = 0) \<and> kind_ok pm v"
  by (cases "kind v";
      simp add: vma_valid_def kind_ok_def offset_fits_def not_less not_le if_bool_eq_conj; blast)

lemma area_ok_start_less: "area_ok pm v \<Longrightarrow> vstart v < vend v"
  by (simp add: area_ok_def vma_valid_iff)

lemma area_ok_attachment: "area_ok pm v \<Longrightarrow> kind v \<noteq> KIND_SYSV_SHM \<Longrightarrow> shm_attachment v = 0"
  by (simp add: area_ok_def vma_valid_iff)

lemma vma_valid_offset: "vma_valid pm v \<Longrightarrow> kind v \<noteq> KIND_ANONYMOUS \<Longrightarrow> offset_fits v"
  by (cases "kind v") (simp_all add: vma_valid_iff kind_ok_def)

lemma offset_fits_unat:
  "offset_fits v \<longleftrightarrow> unat (backing_offset v) + unat (vend v - vstart v) < 2 ^ 64"
  using no_wrap_iff [of "backing_offset v" "vend v - vstart v"] by (simp add: offset_fits_def)

section \<open>Merging adjacent areas\<close>

text \<open>
  The list-level reading of every merge the code performs: two neighbours that \<^verbatim>\<open>can_merge\<close>
  accepts become one. All the merging routines are sequences of such steps.
\<close>

inductive merge_step :: "vma list \<Rightarrow> vma list \<Rightarrow> bool" where
  merge_step: "can_merge l r \<Longrightarrow> merge_step (xs @ l # r # ys) (xs @ l\<lparr>vend := vend r\<rparr> # ys)"

abbreviation merges :: "vma list \<Rightarrow> vma list \<Rightarrow> bool" where
  "merges \<equiv> merge_step\<^sup>*\<^sup>*"

definition areas_ok :: "u64 \<Rightarrow> vma list \<Rightarrow> bool" where
  "areas_ok pm vs \<longleftrightarrow> ordered vs \<and> (\<forall>v \<in> set vs. area_ok pm v)"

definition by_attributes :: "(vma \<Rightarrow> bool) \<Rightarrow> bool" where
  "by_attributes P \<longleftrightarrow> (\<forall>v w. permissions v = permissions w \<and> kind v = kind w \<and> role v = role w \<and>
     vflags v = vflags w \<longrightarrow> P v = P w)"

lemma by_attributesD:
  "by_attributes P \<Longrightarrow> permissions v = permissions w \<Longrightarrow> kind v = kind w \<Longrightarrow> role v = role w \<Longrightarrow>
   vflags v = vflags w \<Longrightarrow> P v = P w"
  unfolding by_attributes_def by blast

lemma by_attributes_accounts:
  "by_attributes (\<lambda>_. True)" "by_attributes kernel_vma_is_data" "by_attributes area_locked"
  by (auto simp: by_attributes_def kernel_vma_is_data_def private_data_mapping_def area_locked_def)

lemma areas_ok_simps:
  "areas_ok pm []"
  "areas_ok pm (v # vs) \<longleftrightarrow> area_ok pm v \<and> (\<forall>w \<in> set vs. vend v \<le> vstart w) \<and> areas_ok pm vs"
  "areas_ok pm (xs @ ys) \<longleftrightarrow>
     areas_ok pm xs \<and> areas_ok pm ys \<and> (\<forall>x \<in> set xs. \<forall>y \<in> set ys. vend x \<le> vstart y)"
  by (auto simp: areas_ok_def ordered_simps area_ok_start_less)

lemma can_merge_attrs:
  assumes "can_merge l r"
  shows "vend l = vstart r" "permissions l = permissions r" "kind l = kind r" "role l = role r"
    "fault_policy l = fault_policy r" "vflags l = vflags r" "backing l = backing r"
    "shm_attachment l = shm_attachment r" "maximum_permissions l = maximum_permissions r"
    "kind l \<noteq> KIND_SYSV_SHM"
    "kind l \<noteq> KIND_ANONYMOUS \<Longrightarrow> backing_offset l + (vend l - vstart l) = backing_offset r"
    "kind l \<noteq> KIND_ANONYMOUS \<Longrightarrow> backing_offset l \<le> u64_max - (vend l - vstart l)"
  using assms by (auto simp: can_merge_def Let_def split: if_splits)

text \<open>Extending a valid area keeps it valid when its backing range still does not wrap.\<close>

lemma vma_valid_extend:
  assumes "vma_valid pm v" "vstart v < e"
    and "kind v \<noteq> KIND_ANONYMOUS \<Longrightarrow> offset_fits (v\<lparr>vend := e\<rparr>)"
  shows "vma_valid pm (v\<lparr>vend := e\<rparr>)"
  using assms by (cases "kind v") (simp_all add: vma_valid_iff kind_ok_def)

lemma merged_area_ok:
  assumes "can_merge l r" "area_ok pm l" "area_ok pm r"
  shows "area_ok pm (l\<lparr>vend := vend r\<rparr>)"
proof -
  note m = can_merge_attrs [OF assms(1)]
  have lt: "vstart l < vend l" "vstart r < vend r" using assms by (auto intro: area_ok_start_less)
  have "offset_fits (l\<lparr>vend := vend r\<rparr>)" if k: "kind l \<noteq> KIND_ANONYMOUS"
  proof -
    have "unat (backing_offset r) + unat (vend r - vstart r) < 2 ^ 64"
      using vma_valid_offset [of pm r] assms(3) m(3) k by (simp add: area_ok_def offset_fits_unat)
    moreover have "unat (backing_offset r) = unat (backing_offset l) + unat (vend l - vstart l)"
      using m(11) [OF k] m(12) [OF k] no_wrap_iff [of "backing_offset l" "vend l - vstart l"]
      by (metis unat_add_no_wrap)
    moreover have "unat (vend r - vstart l) = unat (vend r - vstart r) + unat (vend l - vstart l)"
      using lt m(1) by (simp add: unat_diff_le word_le_nat_alt word_less_nat_alt)
    ultimately show ?thesis by (simp add: offset_fits_unat)
  qed
  then have "vma_valid pm (l\<lparr>vend := vend r\<rparr>)"
    using assms(2) lt m(1) by (intro vma_valid_extend) (auto simp: area_ok_def)
  then show ?thesis using assms by (simp add: area_ok_def)
qed

lemma merged_view:
  assumes "can_merge l r" "vstart l < vend l" "vstart r < vend r"
  shows "lview (l\<lparr>vend := vend r\<rparr> # zs) a = lview (l # r # zs) a"
proof -
  note m = can_merge_attrs [OF assms(1)]
  have "attr_at (l\<lparr>vend := vend r\<rparr>) a = attr_at l a" by (simp add: attr_at_def)
  moreover have "attr_at r a = attr_at l a"
  proof -
    have "backing_offset r + (a - vstart r) = backing_offset l + (a - vstart l)"
      if "kind l \<noteq> KIND_ANONYMOUS"
      unfolding m(11) [OF that, symmetric] m(1) by simp
    then show ?thesis using m(2-10) by (simp add: attr_at_def)
  qed
  ultimately show ?thesis using assms m(1) by (auto simp: covers_def)
qed

lemma merge_step_keeps:
  assumes "merge_step vs ws" "areas_ok pm vs"
  shows "areas_ok pm ws" "lview ws a = lview vs a"
    "p \<noteq> 0 \<Longrightarrow> attachments p ws = attachments p vs"
    "by_attributes P \<Longrightarrow> bytes_where P ws = bytes_where P vs"
proof -
  from assms(1) obtain xs l r ys where
    m: "can_merge l r" and vs: "vs = xs @ l # r # ys" and ws: "ws = xs @ l\<lparr>vend := vend r\<rparr> # ys"
    by (auto elim: merge_step.cases)
  note at = can_merge_attrs [OF m]
  have ok: "area_ok pm l" "area_ok pm r" using assms(2) vs by (auto simp: areas_ok_simps)
  note lt = this [THEN area_ok_start_less]
  show "areas_ok pm ws"
    using assms(2) merged_area_ok [OF m ok] unfolding vs ws
    by (auto simp: areas_ok_simps)
  show "lview ws a = lview vs a"
    unfolding vs ws lview_append merged_view [OF m lt] ..
  show "attachments p ws = attachments p vs" if "p \<noteq> 0"
    using that area_ok_attachment [OF ok(1)] at(10,8) unfolding vs ws by simp
  show "bytes_where P ws = bytes_where P vs" if "by_attributes P"
  proof -
    have "P (l\<lparr>vend := vend r\<rparr>) = P l" by (rule by_attributesD [OF that]) simp_all
    moreover have "P r = P l" by (rule by_attributesD [OF that]) (simp_all add: at)
    moreover have "vlen (l\<lparr>vend := vend r\<rparr>) = vlen l + vlen r"
      using lt at(1) by (simp add: vlen_def word_less_nat_alt)
    ultimately show ?thesis unfolding vs ws by (simp add: bytes_where_def)
  qed
qed

lemma merges_keep:
  assumes "merges vs ws" "areas_ok pm vs"
  shows "areas_ok pm ws \<and> lview ws = lview vs
    \<and> (\<forall>p. p \<noteq> 0 \<longrightarrow> attachments p ws = attachments p vs)
    \<and> (\<forall>P. by_attributes P \<longrightarrow> bytes_where P ws = bytes_where P vs)"
  using assms
proof (induction rule: rtranclp_induct)
  case base
  then show ?case by simp
next
  case (step ws us)
  then have IH: "areas_ok pm ws" "lview ws = lview vs"
    "\<forall>p. p \<noteq> 0 \<longrightarrow> attachments p ws = attachments p vs"
    "\<forall>P. by_attributes P \<longrightarrow> bytes_where P ws = bytes_where P vs" by simp_all
  note k = merge_step_keeps [OF step.hyps(2) IH(1)]
  have "lview us = lview vs" using k(2) IH(2) by (simp add: fun_eq_iff)
  with k(1,3,4) IH(3,4) show ?case by simp
qed

fun absorb :: "vma \<Rightarrow> vma list \<Rightarrow> vma list" where
  "absorb acc [] = [acc]"
| "absorb acc (w # ws) =
     (if can_merge acc w then absorb (acc\<lparr>vend := vend w\<rparr>) ws else acc # absorb w ws)"

definition merge_list :: "vma list \<Rightarrow> vma list" where
  "merge_list vs = (case vs of [] \<Rightarrow> [] | v # vs \<Rightarrow> absorb v vs)"

lemma merges_append: "merges vs ws \<Longrightarrow> merges (xs @ vs) (xs @ ws)"
proof (induction rule: rtranclp_induct)
  case base
  then show ?case by simp
next
  case (step ws us)
  from step.hyps(2) have "merge_step (xs @ ws) (xs @ us)"
    by (auto elim!: merge_step.cases intro: merge_step.intros simp flip: append_assoc)
  with step.IH show ?case by simp
qed

lemma absorb_merges: "merges (acc # ws) (absorb acc ws)"
proof (induction ws arbitrary: acc)
  case Nil
  then show ?case by simp
next
  case (Cons w ws)
  have "merge_step (acc # w # ws) (acc\<lparr>vend := vend w\<rparr> # ws)" if "can_merge acc w"
    using merge_step.intros [OF that, of "[]" ws] by simp
  then show ?case
    using Cons.IH merges_append [OF Cons.IH, of "[acc]" w] by (auto intro: converse_rtranclp_into_rtranclp)
qed

lemma merge_list_merges: "merges vs (merge_list vs)"
  by (cases vs) (simp_all add: merge_list_def absorb_merges)

lemma can_merge_right_end [simp]: "can_merge x (w\<lparr>vend := e\<rparr>) = can_merge x w"
  by (simp add: can_merge_def Let_def)

lemma absorb_head: "\<exists>e ys. absorb acc ws = acc\<lparr>vend := e\<rparr> # ys"
proof (induction ws arbitrary: acc)
  case Nil
  have "acc = acc\<lparr>vend := vend acc\<rparr>" by simp
  then show ?case by (metis absorb.simps(1))
next
  case (Cons w ws)
  have "acc = acc\<lparr>vend := vend acc\<rparr>" by simp
  moreover have "\<exists>e ys. absorb (acc\<lparr>vend := vend w\<rparr>) ws = acc\<lparr>vend := e\<rparr> # ys"
    using Cons.IH [of "acc\<lparr>vend := vend w\<rparr>"] by auto
  ultimately show ?case by (metis absorb.simps(2))
qed

lemma coalesced_absorb: "coalesced (absorb acc ws)"
proof (induction ws arbitrary: acc)
  case (Cons w ws)
  from absorb_head [of w ws] obtain e ys where "absorb w ws = w\<lparr>vend := e\<rparr> # ys" by blast
  with Cons.IH [of w] Cons.IH show ?case by simp
qed simp

lemma coalesced_merge_list: "coalesced (merge_list vs)"
  by (cases vs) (simp_all add: merge_list_def coalesced_absorb)

lemma length_absorb: "length (absorb acc ws) \<le> Suc (length ws)"
  by (induction ws arbitrary: acc) (auto intro: le_SucI)

end
