(* ===== verification/Vma_Slots.thy ===== *)
theory Vma_Slots
  imports Vma_View
begin

text \<open>
  The routines of \<^verbatim>\<open>src/mm/vma.c\<close> that move slots of the area array: growing it
  (\<^verbatim>\<open>reserve_entries\<close>), compacting it (\<^verbatim>\<open>merge_all\<close>), counting it again (\<^verbatim>\<open>recount_bytes\<close>),
  deleting one slot (\<^verbatim>\<open>erase_entry\<close>) and inserting one area (\<^verbatim>\<open>insert_entry\<close>). Each lemma says
  what the routine does to the list of live areas and to the address-to-attributes view of it.
\<close>

section \<open>Growing the array\<close>

lemma grow_capacity_spec:
  assumes "0 < c" "c \<le> uint32_max"
  shows "(\<exists>c'. grow_capacity c required = Some (Inr c') \<and> required \<le> c' \<and> c \<le> c' \<and> c' \<le> uint32_max)
    \<or> grow_capacity c required = Some (Inl VMA_NO_MEMORY)"
  using assms
proof (induction "required - c" arbitrary: c rule: less_induct)
  case less
  show ?case
  proof (cases "c < required \<and> c \<le> uint32_max div 2")
    case True
    then have "required - c * 2 < required - c" using less.prems by linarith
    moreover have "c * 2 \<le> uint32_max" using True by linarith
    ultimately have "(\<exists>c'. grow_capacity (c * 2) required = Some (Inr c') \<and> required \<le> c' \<and> c * 2 \<le> c'
        \<and> c' \<le> uint32_max) \<or> grow_capacity (c * 2) required = Some (Inl VMA_NO_MEMORY)"
      using less by simp
    moreover have "grow_capacity c required = grow_capacity (c * 2) required"
      using True by (subst grow_capacity.simps) simp
    ultimately show ?thesis by fastforce
  next
    case False
    then show ?thesis using less.prems by (subst (1 2) grow_capacity.simps) auto
  qed
qed

text \<open>The heap keeps what the array held; a failed resize leaves it alone.\<close>

lemma heap_resize_spec:
  "heap_resize h es n = (HEAP_OK, es') \<Longrightarrow> length es \<le> n \<Longrightarrow>
     length es' = n \<and> take (length es) es' = es"
  by (auto simp: heap_resize_def split: heap_status.splits)

definition grown :: "vma_set \<Rightarrow> vma_set \<Rightarrow> bool" where
  "grown s s' \<longleftrightarrow> (\<exists>es c. s' = s\<lparr>entries := es, capacity := c\<rparr> \<and> length es = c \<and>
     take (length (entries s)) es = entries s \<and> capacity s \<le> c \<and> c \<le> uint32_max)"

lemma reserve_entries_cases:
  assumes "length (entries s) = capacity s" "capacity s \<le> uint32_max"
  shows "(\<exists>s'. reserve_entries h s n = Some (VMA_OK, s') \<and> grown s s' \<and> n \<le> capacity s')
    \<or> reserve_entries h s n = Some (VMA_NO_MEMORY, s) \<or> reserve_entries h s n = Some (VMA_STATE, s)"
proof (cases "n \<le> capacity s")
  case True
  then have "reserve_entries h s n = Some (VMA_OK, s)" by (simp add: reserve_entries_def)
  moreover have "grown s s" unfolding grown_def
    by (rule exI [of _ "entries s"], rule exI [of _ "capacity s"]) (use assms in simp)
  ultimately show ?thesis using True by blast
next
  case False
  define c where "c = (if capacity s = 0 then 8 else capacity s)"
  have c: "0 < c" "c \<le> uint32_max" using assms(2) by (simp_all add: c_def)
  consider (ok) c' where "grow_capacity c n = Some (Inr c')" "n \<le> c'" "c \<le> c'" "c' \<le> uint32_max"
    | (no) "grow_capacity c n = Some (Inl VMA_NO_MEMORY)"
    using grow_capacity_spec [OF c, of n] by blast
  then show ?thesis
  proof cases
    case ok
    obtain hs es where r: "heap_resize h (entries s) c' = (hs, es)" by fastforce
    show ?thesis
    proof (cases "hs = HEAP_OK")
      case True
      then have "length es = c'" "take (length (entries s)) es = entries s"
        using heap_resize_spec [of h "entries s" c' es] r ok assms
        by (auto simp: c_def split: if_splits)
      then have "grown s (s\<lparr>entries := es, capacity := c'\<rparr>)"
        using ok False assms unfolding grown_def by auto
      moreover have "reserve_entries h s n = Some (VMA_OK, s\<lparr>entries := es, capacity := c'\<rparr>)"
        using False ok r True by (simp add: reserve_entries_def c_def [symmetric])
      ultimately show ?thesis using ok(2) by auto
    next
      case hs: False
      then show ?thesis using False ok r by (cases hs) (simp_all add: reserve_entries_def c_def [symmetric])
    qed
  next
    case no
    then show ?thesis using False by (simp add: reserve_entries_def c_def [symmetric])
  qed
qed

lemma reserve_entries_room: "n \<le> capacity s \<Longrightarrow> reserve_entries h s n = Some (VMA_OK, s)"
  by (simp add: reserve_entries_def)

lemma grown_fields:
  assumes "grown s s'"
  shows "self s' = self s" "vcount s' = vcount s" "generation s' = generation s"
    "shm_refs s' = shm_refs s" "total_bytes s' = total_bytes s" "data_bytes s' = data_bytes s"
    "locked_bytes s' = locked_bytes s" "capacity s \<le> capacity s'" "length (entries s') = capacity s'"
    "capacity s' \<le> uint32_max" "take (length (entries s)) (entries s') = entries s"
  using assms by (auto simp: grown_def)

lemma grown_live:
  assumes "grown s s'" "vcount s \<le> length (entries s)"
  shows "live s' = live s"
proof -
  have "take (vcount s) (entries s') = take (vcount s) (take (length (entries s)) (entries s'))"
    using assms(2) by (simp add: min_def)
  then show ?thesis using grown_fields [OF assms(1)] by (simp add: live_def)
qed

lemma array_ok_count: "array_ok pm s \<Longrightarrow> vcount s \<le> length (entries s)"
  by (auto simp: array_ok_def set_valid_def)

lemma array_ok_live_length: "array_ok pm s \<Longrightarrow> length (live s) = vcount s"
  by (simp add: array_ok_def live_length)

lemma grown_array_ok:
  assumes "grown s s'" "array_ok pm s"
  shows "array_ok pm s'"
proof -
  note g = grown_fields [OF assms(1)]
  have l: "live s' = live s" using assms array_ok_count by (intro grown_live)
  have "set_valid s'"
    using assms(2) g unfolding array_ok_def set_valid_def by (cases "capacity s' = 0") auto
  with assms(2) g l show ?thesis by (simp add: array_ok_def shm_balanced_def)
qed

lemma grown_vset_inv: "grown s s' \<Longrightarrow> vset_inv pm s \<Longrightarrow> vset_inv pm s'"
  by (auto simp: vset_inv_def grown_array_ok accounted_def grown_fields
      dest: grown_live array_ok_count)

section \<open>Merging\<close>

lemma merge_loop_absorb:
  assumes "entries s = out @ acc # gap @ rest @ junk"
    and "vcount s = length out + 1 + length gap + length rest"
    and "\<forall>v \<in> set rest. kind v \<noteq> KIND_SYSV_SHM \<longrightarrow> shm_attachment v = 0"
  shows "\<exists>es. merge_loop s (length out) (length out + 1 + length gap)
      = (s\<lparr>entries := es\<rparr>, length out + length (absorb acc rest) - 1)
    \<and> take (length out + length (absorb acc rest)) es = out @ absorb acc rest
    \<and> length es = length (entries s)"
  using assms
proof (induction rest arbitrary: s out acc gap)
  case Nil
  then have "merge_loop s (length out) (length out + 1 + length gap) = (s, length out)"
    by (subst merge_loop.simps) simp
  then show ?case using Nil.prems by (intro exI [of _ "entries s"]) simp
next
  case (Cons w rest)
  note IH = Cons.IH and prems = Cons.prems
  let ?i = "length out + 1 + length gap"
  have idx: "?i < vcount s" "entries s ! length out = acc" "entries s ! ?i = w"
    using prems by (simp_all add: nth_append)
  show ?case
  proof (cases "can_merge acc w")
    case True
    let ?s = "s\<lparr>entries := (entries s)[length out := acc\<lparr>vend := vend w\<rparr>]\<rparr>"
    have "shm_attachment w = 0"
      using can_merge_attrs(3,10) [OF True] prems(3) by auto
    then have "merge_loop s (length out) ?i = merge_loop ?s (length out) (Suc ?i)"
      using True idx by (subst merge_loop.simps) (simp add: Let_def shm_close_def)
    moreover have "\<exists>es. merge_loop ?s (length out) (length out + 1 + length (gap @ [w]))
      = (?s\<lparr>entries := es\<rparr>, length out + length (absorb (acc\<lparr>vend := vend w\<rparr>) rest) - 1)
      \<and> take (length out + length (absorb (acc\<lparr>vend := vend w\<rparr>) rest)) es
          = out @ absorb (acc\<lparr>vend := vend w\<rparr>) rest
      \<and> length es = length (entries ?s)"
      by (rule IH) (use prems in \<open>auto simp: list_update_append\<close>)
    ultimately show ?thesis using True by auto
  next
    case False
    show ?thesis
    proof (cases gap)
      case Nil
      have "merge_loop s (length out) ?i = merge_loop s (Suc (length out)) (Suc ?i)"
        using False idx Nil by (subst merge_loop.simps) (simp add: Let_def)
      moreover have "\<exists>es. merge_loop s (length (out @ [acc])) (length (out @ [acc]) + 1 + length ([] :: vma list))
        = (s\<lparr>entries := es\<rparr>, length (out @ [acc]) + length (absorb w rest) - 1)
        \<and> take (length (out @ [acc]) + length (absorb w rest)) es = (out @ [acc]) @ absorb w rest
        \<and> length es = length (entries s)"
        by (rule IH) (use prems Nil in auto)
      ultimately show ?thesis using False Nil by auto
    next
      case (Cons g gap')
      let ?s = "s\<lparr>entries := (entries s)[Suc (length out) := w]\<rparr>"
      have "merge_loop s (length out) ?i = merge_loop ?s (Suc (length out)) (Suc ?i)"
        using False idx Cons by (subst merge_loop.simps) (simp add: Let_def)
      moreover have "\<exists>es. merge_loop ?s (length (out @ [acc])) (length (out @ [acc]) + 1 + length (gap' @ [w]))
        = (?s\<lparr>entries := es\<rparr>, length (out @ [acc]) + length (absorb w rest) - 1)
        \<and> take (length (out @ [acc]) + length (absorb w rest)) es = (out @ [acc]) @ absorb w rest
        \<and> length es = length (entries ?s)"
        by (rule IH) (use prems Cons in \<open>auto simp: list_update_append\<close>)
      ultimately show ?thesis using False Cons by auto
    qed
  qed
qed


lemma array_okI:
  assumes "self s \<noteq> 0" "length (entries s) = capacity s" "capacity s \<le> uint32_max"
    "vcount s \<le> capacity s" "areas_ok pm (live s)" "shm_balanced s"
  shows "array_ok pm s"
  using assms by (auto simp: array_ok_def set_valid_def areas_ok_def)

lemma array_okD:
  assumes "array_ok pm s"
  shows "self s \<noteq> 0" "length (entries s) = capacity s" "capacity s \<le> uint32_max"
    "vcount s \<le> capacity s" "areas_ok pm (live s)" "shm_balanced s" "set_valid s"
    "ordered (live s)" "\<And>v. v \<in> set (live s) \<Longrightarrow> area_ok pm v" "\<And>v. v \<in> set (live s) \<Longrightarrow> vstart v < vend v"
  using assms by (auto simp: array_ok_def set_valid_def areas_ok_def area_ok_start_less)

lemma live_split:
  assumes "array_ok pm s" "live s = xs @ ys"
  shows "entries s = xs @ ys @ drop (vcount s) (entries s)" "vcount s = length xs + length ys"
proof -
  have "entries s = live s @ drop (vcount s) (entries s)" by (simp add: live_def)
  then show "entries s = xs @ ys @ drop (vcount s) (entries s)" using assms(2) by simp
  show "vcount s = length xs + length ys"
    using array_ok_live_length [OF assms(1)] assms(2) by simp
qed

lemma merge_all_spec:
  assumes ok: "array_ok pm s"
  shows "live (merge_all s) = merge_list (live s)" "array_ok pm (merge_all s)"
    "view (merge_all s) = view s" "coalesced (live (merge_all s))"
    "self (merge_all s) = self s" "generation (merge_all s) = generation s"
    "capacity (merge_all s) = capacity s" "vcount (merge_all s) \<le> vcount s"
    "by_attributes P \<Longrightarrow> bytes_where P (live (merge_all s)) = bytes_where P (live s)"
proof -
  note okD = array_okD [OF ok]
  have main: "\<exists>es n. merge_all s = s\<lparr>entries := es, vcount := n\<rparr> \<and> length es = length (entries s)
      \<and> n \<le> vcount s \<and> take n es = merge_list (live s)"
  proof (cases "live s")
    case Nil
    then have "vcount s = 0" using array_ok_live_length [OF ok] by simp
    then have "merge_all s = s\<lparr>entries := entries s, vcount := 0\<rparr>"
      by (simp add: merge_all_def)
    then show ?thesis using Nil by (intro exI [of _ "entries s"] exI [of _ 0]) (simp add: merge_list_def)
  next
    case (Cons v vs)
    have e: "entries s = [] @ v # [] @ vs @ drop (vcount s) (entries s)"
      and n: "vcount s = length ([] :: vma list) + 1 + length ([] :: vma list) + length vs"
      using live_split [OF ok, of "[]" "v # vs"] Cons by auto
    have "\<forall>w \<in> set vs. kind w \<noteq> KIND_SYSV_SHM \<longrightarrow> shm_attachment w = 0"
      using okD(9) Cons by (auto intro: area_ok_attachment)
    from merge_loop_absorb [OF e n this] obtain es where
      es: "merge_loop s 0 1 = (s\<lparr>entries := es\<rparr>, length (absorb v vs) - 1)"
        "take (length (absorb v vs)) es = absorb v vs" "length es = length (entries s)"
      by auto
    have pos: "0 < length (absorb v vs)" using absorb_head [of v vs] by auto
    have "merge_all s = s\<lparr>entries := es, vcount := length (absorb v vs)\<rparr>"
      using n pos by (simp add: merge_all_def es(1) [unfolded One_nat_def])
    then show ?thesis
      using es n length_absorb [of v vs] Cons
      by (intro exI [of _ es] exI [of _ "length (absorb v vs)"]) (simp add: merge_list_def)
  qed
  then obtain es n where m: "merge_all s = s\<lparr>entries := es, vcount := n\<rparr>"
    "length es = length (entries s)" "n \<le> vcount s" "take n es = merge_list (live s)" by blast
  show l: "live (merge_all s) = merge_list (live s)" using m by (simp add: live_def)
  have k: "areas_ok pm (merge_list (live s))" "lview (merge_list (live s)) = lview (live s)"
    "\<And>p. p \<noteq> 0 \<Longrightarrow> attachments p (merge_list (live s)) = attachments p (live s)"
    "\<And>P. by_attributes P \<Longrightarrow> bytes_where P (merge_list (live s)) = bytes_where P (live s)"
    using merges_keep [OF merge_list_merges okD(5)] by auto
  show "array_ok pm (merge_all s)"
    using okD m k l by (intro array_okI) (auto simp: shm_balanced_def)
  show "view (merge_all s) = view s" using k l by (simp add: view_def)
  show "coalesced (live (merge_all s))" by (simp add: l coalesced_merge_list)
  show "self (merge_all s) = self s" "generation (merge_all s) = generation s"
    "capacity (merge_all s) = capacity s" "vcount (merge_all s) \<le> vcount s"
    using m by simp_all
  show "by_attributes P \<Longrightarrow> bytes_where P (live (merge_all s)) = bytes_where P (live s)"
    using k(4) l by simp
qed

section \<open>Accounting\<close>

lemma bytes_where_simps [simp]:
  "bytes_where P [] = 0"
  "bytes_where P (v # vs) = (if P v then vlen v else 0) + bytes_where P vs"
  "bytes_where P (xs @ ys) = bytes_where P xs + bytes_where P ys"
  by (simp_all add: bytes_where_def)

lemma unat_vlen: "vstart v < vend v \<Longrightarrow> unat (vend v - vstart v) = vlen v"
  by (simp add: vlen_def unat_diff_le)

text \<open>Disjoint areas below an address never sum to more than that address: no count wraps.\<close>

lemma recount_loop_spec:
  assumes "ordered vs" "\<forall>v \<in> set vs. unat tot \<le> unat (vstart v)"
    "unat data \<le> unat tot" "unat locked \<le> unat tot"
  shows "\<exists>t d l. recount_loop vs tot data locked = Some (t, d, l)
    \<and> unat t = unat tot + bytes_where (\<lambda>_. True) vs
    \<and> unat d = unat data + bytes_where kernel_vma_is_data vs
    \<and> unat l = unat locked + bytes_where area_locked vs"
  using assms
proof (induction vs arbitrary: tot data locked)
  case Nil
  then show ?case by simp
next
  case (Cons v vs)
  let ?len = "vend v - vstart v"
  have lt: "vstart v < vend v" using Cons.prems by (simp add: ordered_Cons)
  then have len: "unat ?len = vlen v" "unat (vstart v) + vlen v = unat (vend v)"
    by (simp_all add: unat_vlen vlen_def word_less_nat_alt)
  have bound: "unat tot + vlen v \<le> unat (vend v)" using Cons.prems(2) len(2) by simp
  have top: "unat (vend v) < 2 ^ LENGTH(64)" by (rule unsigned_less)
  have nw: "unat x + unat ?len < 2 ^ LENGTH(64)" if "unat x \<le> unat tot" for x :: u64
    by (rule order.strict_trans1 [OF _ top]) (use that bound len(1) in linarith)
  note sums = nw [OF order_refl, THEN unat_add_no_wrap] nw [OF Cons.prems(3), THEN unat_add_no_wrap]
    nw [OF Cons.prems(4), THEN unat_add_no_wrap]
  have "?len \<le> u64_max - tot"
    unfolding no_wrap_iff by (subst add.commute) (rule nw [OF order_refl])
  then have "\<not> u64_max - tot < ?len" by (simp only: not_less)
  then have step: "recount_loop (v # vs) tot data locked = recount_loop vs (tot + ?len)
      (if kernel_vma_is_data v then data + ?len else data)
      (if area_locked v then locked + ?len else locked)"
    by (simp add: Let_def area_locked_def)
  have "\<exists>t d l. recount_loop vs (tot + ?len) (if kernel_vma_is_data v then data + ?len else data)
      (if area_locked v then locked + ?len else locked) = Some (t, d, l)
    \<and> unat t = unat (tot + ?len) + bytes_where (\<lambda>_. True) vs
    \<and> unat d = unat (if kernel_vma_is_data v then data + ?len else data)
        + bytes_where kernel_vma_is_data vs
    \<and> unat l = unat (if area_locked v then locked + ?len else locked) + bytes_where area_locked vs"
  proof (rule Cons.IH)
    show "ordered vs" using Cons.prems by (simp add: ordered_Cons)
    show "\<forall>w \<in> set vs. unat (tot + ?len) \<le> unat (vstart w)"
      using Cons.prems(1) bound sums(1) len by (auto simp: ordered_Cons word_le_nat_alt)
  qed (use Cons.prems sums in auto)
  then show ?case unfolding step using sums len by auto
qed

lemma recount_bytes_spec:
  assumes "array_ok pm s"
  shows "\<exists>t d l. recount_bytes s = Some (s\<lparr>total_bytes := t, data_bytes := d, locked_bytes := l\<rparr>)
    \<and> accounted (s\<lparr>total_bytes := t, data_bytes := d, locked_bytes := l\<rparr>)"
proof -
  obtain t d l where "recount_loop (live s) 0 0 0 = Some (t, d, l)"
    "unat t = bytes_where (\<lambda>_. True) (live s)" "unat d = bytes_where kernel_vma_is_data (live s)"
    "unat l = bytes_where area_locked (live s)"
    using recount_loop_spec [of "live s" 0 0 0] array_okD(8) [OF assms] by auto
  then show ?thesis by (auto simp: recount_bytes_def accounted_def live_def)
qed

lemma array_ok_update [simp]:
  "array_ok pm (s\<lparr>total_bytes := t, data_bytes := d, locked_bytes := l\<rparr>) = array_ok pm s"
  "array_ok pm (s\<lparr>generation := g\<rparr>) = array_ok pm s"
  by (simp_all add: array_ok_def set_valid_def live_def shm_balanced_def)

lemma live_update [simp]:
  "live (s\<lparr>total_bytes := t, data_bytes := d, locked_bytes := l\<rparr>) = live s"
  "live (s\<lparr>generation := g\<rparr>) = live s"
  by (simp_all add: live_def)

lemma view_update [simp]:
  "view (s\<lparr>total_bytes := t, data_bytes := d, locked_bytes := l\<rparr>) = view s"
  "view (s\<lparr>generation := g\<rparr>) = view s"
  by (simp_all add: view_def)

lemma vset_inv_generation [simp]: "vset_inv pm (s\<lparr>generation := g\<rparr>) = vset_inv pm s"
  by (simp add: vset_inv_def accounted_def)

text \<open>The common tail of the edits: merge, recount.\<close>

lemma merge_recount_spec:
  assumes "array_ok pm s"
  shows "\<exists>s'. recount_bytes (merge_all s) = Some s' \<and> vset_inv pm s' \<and> view s' = view s
    \<and> self s' = self s \<and> generation s' = generation s \<and> capacity s' = capacity s
    \<and> live s' = merge_list (live s) \<and> vcount s' \<le> vcount s"
proof -
  note m = merge_all_spec [OF assms]
  obtain t d l where r: "recount_bytes (merge_all s)
      = Some ((merge_all s)\<lparr>total_bytes := t, data_bytes := d, locked_bytes := l\<rparr>)"
    "accounted ((merge_all s)\<lparr>total_bytes := t, data_bytes := d, locked_bytes := l\<rparr>)"
    using recount_bytes_spec [OF m(2)] by blast
  then show ?thesis using m by (simp add: vset_inv_def)
qed

lemma recount_inv:
  assumes "array_ok pm s" "coalesced (live s)"
  shows "\<exists>s'. recount_bytes s = Some s' \<and> vset_inv pm s' \<and> view s' = view s \<and> live s' = live s
    \<and> self s' = self s \<and> generation s' = generation s \<and> capacity s' = capacity s
    \<and> vcount s' = vcount s"
proof -
  obtain t d l where "recount_bytes s = Some (s\<lparr>total_bytes := t, data_bytes := d, locked_bytes := l\<rparr>)"
    "accounted (s\<lparr>total_bytes := t, data_bytes := d, locked_bytes := l\<rparr>)"
    using recount_bytes_spec [OF assms(1)] by blast
  then show ?thesis using assms by (simp add: vset_inv_def)
qed


section \<open>Erasing and inserting one area\<close>

lemma lview_two_parts:
  assumes "areas_ok pm (xs @ v # ys)"
  shows "lview (xs @ v # ys) a = (if covers v a then Some (attr_at v a) else lview (xs @ ys) a)"
proof -
  have "lview xs a = None" if "covers v a"
    using assms that by (auto simp: lview_eq_None_iff areas_ok_simps covers_def)
  then show ?thesis by (auto simp: lview_append split: option.splits)
qed

lemma erase_entry_spec:
  assumes ok: "array_ok pm s" and l: "live s = xs @ e # ys"
  shows "live (erase_entry s (length xs)) = xs @ ys" "array_ok pm (erase_entry s (length xs))"
    "self (erase_entry s (length xs)) = self s"
    "generation (erase_entry s (length xs)) = generation s"
    "capacity (erase_entry s (length xs)) = capacity s"
    "vcount (erase_entry s (length xs)) = vcount s - 1"
proof -
  note okD = array_okD [OF ok]
  let ?s = "erase_entry s (length xs)"
  define junk where "junk = drop (vcount s) (entries s)"
  have es: "entries s = xs @ [e] @ ys @ junk" and n: "vcount s = length xs + 1 + length ys"
    using live_split [OF ok l] by (auto simp: junk_def)
  have e: "entries s ! length xs = e" by (simp add: es)
  have "entries ?s = copy_up (xs @ [e] @ ys @ junk) (length xs) (length xs + length [e]) (length ys) 0"
    unfolding es [symmetric] using n by (simp add: erase_entry_def Let_def)
  then show live: "live ?s = xs @ ys"
    using n copy_up_close_gap [of xs ys "[e]" junk]
    by (simp add: live_def erase_entry_def Let_def)
  show f: "self ?s = self s" "generation ?s = generation s" "capacity ?s = capacity s"
    "vcount ?s = vcount s - 1"
    by (simp_all add: erase_entry_def Let_def)
  have "shm_refs ?s p = shm_refs s p - of_bool (shm_attachment e = p)" if "p \<noteq> 0" for p
    using shm_refs_close [OF that, of "shm_attachment e" s] by (simp add: erase_entry_def Let_def e)
  then have "shm_balanced ?s" using okD(6) by (simp add: shm_balanced_def live l)
  moreover have "length (entries ?s) = length (entries s)" by (simp add: erase_entry_def Let_def)
  moreover have "areas_ok pm (xs @ ys)" using okD(5) by (auto simp: l areas_ok_simps)
  ultimately show "array_ok pm ?s" using okD f live by (intro array_okI) simp_all
qed

definition disjoint_from :: "vma \<Rightarrow> vma list \<Rightarrow> bool" where
  "disjoint_from v vs \<longleftrightarrow> (\<forall>w \<in> set vs. vend w \<le> vstart v \<or> vend v \<le> vstart w)"

text \<open>What a successful insertion of \<open>v\<close> into \<open>s\<close> yields.\<close>

definition inserted :: "u64 \<Rightarrow> vma_set \<Rightarrow> vma \<Rightarrow> vma_set \<Rightarrow> bool" where
  "inserted pm s v s' \<longleftrightarrow> array_ok pm s' \<and>
     (\<forall>a. view s' a = (if covers v a then Some (attr_at v a) else view s a)) \<and>
     (coalesced (live s) \<longrightarrow> coalesced (live s')) \<and> self s' = self s \<and>
     generation s' = generation s \<and> capacity s \<le> capacity s' \<and> vcount s' \<le> vcount s + 1"

text \<open>The two neighbour tests of \<^verbatim>\<open>insert_entry\<close> decide disjointness from every area.\<close>

lemma neighbour_tests:
  assumes "ordered (xs @ ys)" "vstart v < vend v" "\<forall>w \<in> set xs. vstart w < vstart v"
    "\<forall>w \<in> set ys. vstart v \<le> vstart w"
  shows "((xs \<noteq> [] \<and> vstart v < vend (last xs)) \<or> (ys \<noteq> [] \<and> vstart (hd ys) < vend v))
    \<longleftrightarrow> \<not> disjoint_from v (xs @ ys)"
proof -
  have 1: "(\<forall>w \<in> set xs. vend w \<le> vstart v \<or> vend v \<le> vstart w)
      \<longleftrightarrow> xs = [] \<or> vend (last xs) \<le> vstart v"
  proof (cases xs rule: rev_cases)
    case (snoc ws w)
    have "vend u \<le> vstart v" if "vend w \<le> vstart v" "u \<in> set ws" for u
      using assms(1) that unfolding snoc by (auto simp: ordered_simps dest: order.trans order.strict_implies_order)
    moreover have "\<not> vend v \<le> vstart w" using assms snoc by auto
    ultimately show ?thesis using snoc by auto
  qed simp
  have 2: "(\<forall>w \<in> set ys. vend w \<le> vstart v \<or> vend v \<le> vstart w)
      \<longleftrightarrow> ys = [] \<or> vend v \<le> vstart (hd ys)"
  proof (cases ys)
    case (Cons w ws)
    have "vend v \<le> vstart u" if "vend v \<le> vstart w" "u \<in> set ws" for u
      using assms(1) that unfolding Cons by (auto simp: ordered_simps dest: order.trans order.strict_implies_order)
    moreover have "\<not> vend w \<le> vstart v" using assms(1,4) Cons by (auto simp: ordered_simps)
    ultimately show ?thesis using Cons by auto
  qed simp
  show ?thesis using 1 2 unfolding disjoint_from_def set_append ball_Un by (metis linorder_not_less)
qed

lemma disjoint_areas_ok:
  assumes "areas_ok pm (xs @ ys)" "area_ok pm v" "disjoint_from v (xs @ ys)"
    "\<forall>w \<in> set xs. vstart w < vstart v" "\<forall>w \<in> set ys. vstart v \<le> vstart w"
  shows "areas_ok pm (xs @ v # ys)"
proof -
  have "vend x \<le> vstart v" if "x \<in> set xs" for x
    using assms(3,4) that area_ok_start_less [OF assms(2)] unfolding disjoint_from_def by fastforce
  moreover have "vend v \<le> vstart y" if "y \<in> set ys" for y
  proof -
    have "vstart y < vend y" using assms(1) that by (auto simp: areas_ok_def intro: area_ok_start_less)
    then have "\<not> vend y \<le> vstart v" using assms(5) that by (auto simp: not_le intro: order.strict_trans1)
    then show ?thesis using assms(3) that by (auto simp: disjoint_from_def)
  qed
  ultimately show ?thesis using assms(1,2) by (auto simp: areas_ok_simps)
qed

lemma coalesced_append:
  "coalesced (xs @ y # ys) \<longleftrightarrow>
     coalesced xs \<and> coalesced (y # ys) \<and> (xs \<noteq> [] \<longrightarrow> \<not> can_merge (last xs) y)"
  by (induction xs rule: coalesced.induct) auto

lemma coalesced_change_end:
  assumes "coalesced (xs @ l # ys)" "ys \<noteq> [] \<longrightarrow> \<not> can_merge (l\<lparr>vend := e\<rparr>) (hd ys)"
  shows "coalesced (xs @ l\<lparr>vend := e\<rparr> # ys)"
  using assms by (cases ys) (auto simp: coalesced_append)

text \<open>A merged area can absorb what its right part could.\<close>

lemma can_merge_trans:
  assumes "can_merge l r" "can_merge (l\<lparr>vend := vend r\<rparr>) y" "area_ok pm l" "area_ok pm r"
  shows "can_merge r y"
proof -
  note m = can_merge_attrs [OF assms(1)] and n = can_merge_attrs [OF assms(2)]
  have "backing_offset r \<le> u64_max - (vend r - vstart r)
      \<and> backing_offset r + (vend r - vstart r) = backing_offset y" if k: "kind l \<noteq> KIND_ANONYMOUS"
  proof
    show "backing_offset r \<le> u64_max - (vend r - vstart r)"
      using vma_valid_offset [of pm r] assms(4) k m(3) by (simp add: area_ok_def offset_fits_def)
    have "backing_offset l + (vend r - vstart l) = backing_offset y" using n(11) k by simp
    then show "backing_offset r + (vend r - vstart r) = backing_offset y"
      using m(11) [OF k, symmetric] m(1) by simp
  qed
  then show ?thesis using m(2-10) n(1-10) by (simp add: can_merge_def Let_def)
qed


lemma insertedI:
  assumes ok: "array_ok pm s" and l: "live s = xs @ ys" and areas: "areas_ok pm (xs @ v # ys)"
    and m: "merges (xs @ v # ys) (live s')"
    and f: "self s' = self s" "generation s' = generation s" "length (entries s') = capacity s'"
      "capacity s \<le> capacity s'" "capacity s' \<le> uint32_max" "vcount s' \<le> capacity s'"
      "vcount s' \<le> vcount s + 1"
    and refs: "\<And>p. p \<noteq> 0 \<Longrightarrow> shm_refs s' p = shm_refs s p + of_bool (shm_attachment v = p)"
    and c: "coalesced (live s) \<Longrightarrow> coalesced (live s')"
  shows "inserted pm s v s'"
proof -
  note okD = array_okD [OF ok] and k = merges_keep [OF m areas]
  have "shm_balanced s'" using okD(6) refs k by (simp add: shm_balanced_def l)
  then have "array_ok pm s'" using f okD(1) k by (intro array_okI) simp_all
  moreover have "view s' a = (if covers v a then Some (attr_at v a) else view s a)" for a
    using k lview_two_parts [OF areas, of a] by (simp add: view_def l)
  ultimately show ?thesis using f c by (simp add: inserted_def)
qed

lemma insert_slot_spec:
  assumes ok: "array_ok pm s" and l: "live s = xs @ ys" and room: "vcount s < capacity s"
    and areas: "areas_ok pm (xs @ v # ys)"
    and nm: "\<not> (xs \<noteq> [] \<and> can_merge (last xs) v)" "\<not> (ys \<noteq> [] \<and> can_merge v (hd ys))"
    and s': "s' = (let s2 = move_entries s (length xs + 1) (length xs) (vcount s - length xs);
                 s3 = s2\<lparr>entries := (entries s2)[length xs := v]\<rparr>;
                 s4 = shm_open (shm_attachment v) s3
             in s4\<lparr>vcount := vcount s4 + 1\<rparr>)"
  shows "inserted pm s v s'" "vcount s' = vcount s + 1"
proof -
  note okD = array_okD [OF ok]
  have n: "vcount s = length xs + length ys" and es: "entries s = xs @ ys @ drop (vcount s) (entries s)"
    using live_split [OF ok l] by auto
  have "drop (vcount s) (entries s) \<noteq> []" using room okD(2) by simp
  then obtain z zs where zs: "entries s = xs @ ys @ z # zs" using es by (metis neq_Nil_conv)
  have e: "entries s' = xs @ v # ys @ zs"
    using move_entries_open_gap [OF zs, of v] n by (simp add: s' Let_def)
  then have live: "live s' = xs @ v # ys" using n by (simp add: live_def s' Let_def)
  have f: "self s' = self s" "generation s' = generation s" "capacity s' = capacity s"
    "vcount s' = vcount s + 1" "length (entries s') = length (entries s)"
    by (simp_all add: s' Let_def)
  then show "vcount s' = vcount s + 1" by blast
  have "coalesced (live s')" if "coalesced (live s)"
    using that nm unfolding live l by (cases ys) (auto simp: coalesced_append)
  moreover have "shm_refs s' p = shm_refs s p + of_bool (shm_attachment v = p)" if "p \<noteq> 0" for p
    using shm_refs_open [OF that] by (simp add: s' Let_def)
  ultimately show "inserted pm s v s'"
    using okD(2,3) room by (intro insertedI [OF ok l areas]) (simp_all add: live f)
qed


lemma insert_entry_merging:
  assumes ok: "array_ok pm s" and v: "area_ok pm v" and dj: "disjoint_from v (live s)"
    and l: "live s = xs @ ys" and i: "lower_bound s (vstart v) = length xs"
    and xs: "\<forall>w \<in> set xs. vstart w < vstart v" and ys: "\<forall>w \<in> set ys. vstart v \<le> vstart w"
    and nb: "(xs \<noteq> [] \<and> can_merge (last xs) v) \<or> (ys \<noteq> [] \<and> can_merge v (hd ys))"
  shows "\<exists>s'. (\<forall>h. insert_entry h s v = Some (VMA_OK, s')) \<and> inserted pm s v s' \<and> vcount s' \<le> vcount s"
proof -
  note okD = array_okD [OF ok]
  define junk where "junk = drop (vcount s) (entries s)"
  have es: "entries s = xs @ ys @ junk" and n: "vcount s = length xs + length ys"
    using live_split [OF ok l] by (auto simp: junk_def)
  have areas: "areas_ok pm (xs @ v # ys)"
    using disjoint_areas_ok [of pm xs ys v] okD(5) v dj xs ys l by simp
  have noconf: "\<not> (0 < length xs \<and> vstart v < vend (entries s ! (length xs - 1)) \<or>
      length xs < vcount s \<and> vstart (entries s ! length xs) < vend v)"
    using neighbour_tests [of xs ys v] okD(8) l xs ys dj area_ok_start_less [OF v] n
    by (auto simp: es nth_append last_conv_nth hd_conv_nth split: if_splits)
  show ?thesis
  proof (cases "xs \<noteq> [] \<and> can_merge (last xs) v")
    case True
    then obtain zs w where xsw: "xs = zs @ [w]" "can_merge w v" by (cases xs rule: rev_cases) auto
    note av = can_merge_attrs [OF xsw(2)]
    have okw: "area_ok pm w" using areas by (simp add: xsw areas_ok_simps)
    then have att: "shm_attachment v = 0" using area_ok_attachment [OF okw] av(8,10) by simp
    let ?w = "w\<lparr>vend := vend v\<rparr>"
    let ?s = "s\<lparr>entries := zs @ ?w # ys @ junk\<rparr>"
    have live1: "live ?s = zs @ ?w # ys" using n by (simp add: live_def xsw)
    have step1: "merge_step (xs @ v # ys) (zs @ ?w # ys)"
      using merge_step.intros [OF xsw(2), of zs ys] by (simp add: xsw)
    show ?thesis
    proof (cases "ys \<noteq> [] \<and> can_merge ?w (hd ys)")
      case False
      have "inserted pm s v ?s"
      proof (rule insertedI [OF ok l areas])
        show "merges (xs @ v # ys) (live ?s)" using step1 live1 by auto
        show "coalesced (live s) \<Longrightarrow> coalesced (live ?s)"
          unfolding live1 l xsw using False by (auto intro: coalesced_change_end)
      qed (use okD n es in \<open>simp_all add: xsw att\<close>)
      moreover have "insert_entry h s v = Some (VMA_OK, ?s)" for h
        using noconf False n unfolding insert_entry_def i Let_def
        by (auto simp: es xsw nth_append list_update_append hd_conv_nth)
      ultimately show ?thesis by auto
    next
      case True
      then obtain y ys' where ysy: "ys = y # ys'" "can_merge ?w y" by (cases ys) auto
      let ?m = "?w\<lparr>vend := vend y\<rparr>"
      let ?t = "s\<lparr>entries := zs @ ?m # y # ys' @ junk\<rparr>"
      have aw: "area_ok pm ?w" by (rule merged_area_ok [OF xsw(2) okw v])
      have ay: "area_ok pm y" using areas by (simp add: ysy areas_ok_simps)
      have ayt: "shm_attachment y = 0" using can_merge_attrs(3,10) [OF ysy(2)] area_ok_attachment [OF ay] by simp
      define u where "u = erase_entry ?t (length (zs @ [?m]))"
      have e: "u = s\<lparr>entries := copy_up (zs @ ?m # y # ys' @ junk) (Suc (length zs)) (Suc (Suc (length zs)))
                (length ys') 0, vcount := vcount s - 1\<rparr>"
        unfolding u_def using n by (simp add: erase_entry_def Let_def ayt shm_close_def nth_append xsw ysy)
      have "take (length (zs @ [?m]) + length ys')
          (copy_up ((zs @ [?m]) @ [y] @ ys' @ junk) (length (zs @ [?m])) (length (zs @ [?m]) + length [y])
             (length ys') 0) = (zs @ [?m]) @ ys'"
        by (rule copy_up_close_gap)
      then have live2: "live u = zs @ ?m # ys'" unfolding e using n by (simp add: live_def xsw ysy)
      have f: "self u = self s" "generation u = generation s" "capacity u = capacity s"
        "vcount u = vcount s - 1" "length (entries u) = length (entries s)" "shm_refs u = shm_refs s"
        using es by (simp_all add: e xsw ysy)
      have "merge_step (zs @ ?w # ys) (zs @ ?m # ys')"
        using merge_step.intros [OF ysy(2), of zs ys'] by (simp add: ysy)
      with step1 have mm: "merges (xs @ v # ys) (live u)" unfolding live2 by auto
      have "inserted pm s v u"
      proof (rule insertedI [OF ok l areas mm])
        show "coalesced (live u)" if "coalesced (live s)"
        proof -
          have "\<not> can_merge ?m (hd ys')" if "ys' \<noteq> []"
            using can_merge_trans [OF ysy(2) _ aw ay, of "hd ys'"] \<open>coalesced (live s)\<close> that
            unfolding l ysy by (cases ys') (auto simp: coalesced_append)
          then show ?thesis using that unfolding live2 l xsw ysy
            by (cases ys') (auto simp: coalesced_append)
        qed
      qed (use okD n in \<open>simp_all add: f att\<close>)
      moreover have "insert_entry h s v = Some (VMA_OK, u)" for h
        using noconf n ysy unfolding insert_entry_def i Let_def u_def
        by (auto simp: es xsw nth_append list_update_append)
      ultimately show ?thesis using f(4) by (intro exI [of _ u]) auto
    qed
  next
    case False
    with nb obtain y ys' where ysy: "ys = y # ys'" "can_merge v y" by (cases ys) auto
    have ay: "area_ok pm y" using areas by (simp add: ysy areas_ok_simps)
    have att: "shm_attachment v = 0" using can_merge_attrs(10) [OF ysy(2)] area_ok_attachment [OF v] by simp
    let ?s = "s\<lparr>entries := xs @ v\<lparr>vend := vend y\<rparr> # ys' @ junk\<rparr>"
    have live1: "live ?s = xs @ v\<lparr>vend := vend y\<rparr> # ys'" using n by (simp add: live_def ysy)
    have "inserted pm s v ?s"
    proof (rule insertedI [OF ok l areas])
      show "merges (xs @ v # ys) (live ?s)"
        unfolding live1 ysy using merge_step.intros [OF ysy(2), of xs ys'] by simp
      show "coalesced (live ?s)" if c: "coalesced (live s)"
      proof -
        have "\<not> can_merge (v\<lparr>vend := vend y\<rparr>) (hd ys')" if "ys' \<noteq> []"
          using can_merge_trans [OF ysy(2) _ v ay, of "hd ys'"] c that
          unfolding l ysy by (cases ys') (auto simp: coalesced_append)
        then show ?thesis using False c unfolding live1 l ysy
          by (cases ys') (auto simp: coalesced_append)
      qed
    qed (use okD n es in \<open>simp_all add: ysy att\<close>)
    moreover have "insert_entry h s v = Some (VMA_OK, ?s)" for h
      using noconf False n ysy unfolding insert_entry_def i Let_def
      by (auto simp: es nth_append list_update_append last_conv_nth)
    ultimately show ?thesis by auto
  qed
qed

lemma insert_entry_conflict:
  assumes ok: "array_ok pm s" and v: "area_ok pm v" and dj: "\<not> disjoint_from v (live s)"
  shows "insert_entry h s v = Some (VMA_CONFLICT, s)"
proof -
  obtain xs ys where l: "live s = xs @ ys" and i: "lower_bound s (vstart v) = length xs"
    and xs: "\<forall>w \<in> set xs. vstart w < vstart v" and ys: "\<forall>w \<in> set ys. vstart v \<le> vstart w"
    and es: "entries s = xs @ ys @ drop (vcount s) (entries s)" and n: "vcount s = length xs + length ys"
    by (rule lower_bound_split [OF ok])
  have "(xs \<noteq> [] \<and> vstart v < vend (last xs)) \<or> (ys \<noteq> [] \<and> vstart (hd ys) < vend v)"
    using neighbour_tests [OF _ area_ok_start_less [OF v] xs ys] array_okD(8) [OF ok] dj l by simp
  moreover have "xs \<noteq> [] \<Longrightarrow> entries s ! (length xs - 1) = last xs"
    by (subst es) (simp add: nth_append last_conv_nth)
  moreover have "ys \<noteq> [] \<Longrightarrow> entries s ! length xs = hd ys"
    by (subst es) (simp add: nth_append hd_conv_nth)
  ultimately have "(0 < length xs \<and> vstart v < vend (entries s ! (length xs - 1))) \<or>
      (length xs < vcount s \<and> vstart (entries s ! length xs) < vend v)"
    using n by auto
  then show ?thesis unfolding insert_entry_def Let_def i by simp
qed

text \<open>An insertion either succeeds, or it needs a slot that the heap refuses and changes nothing.\<close>

lemma insert_entry_cases:
  assumes ok: "array_ok pm s" and v: "area_ok pm v" and dj: "disjoint_from v (live s)"
  shows "(\<exists>s'. (\<forall>h. insert_entry h s v = Some (VMA_OK, s')) \<and> inserted pm s v s') \<or>
    vcount s = capacity s \<and>
      ((\<exists>s'. insert_entry h s v = Some (VMA_OK, s') \<and> inserted pm s v s') \<or>
       insert_entry h s v = Some (VMA_NO_MEMORY, s) \<or> insert_entry h s v = Some (VMA_STATE, s))"
proof -
  note okD = array_okD [OF ok]
  obtain xs ys where l: "live s = xs @ ys" and i: "lower_bound s (vstart v) = length xs"
    and xs: "\<forall>w \<in> set xs. vstart w < vstart v" and ys: "\<forall>w \<in> set ys. vstart v \<le> vstart w"
    and es: "entries s = xs @ ys @ drop (vcount s) (entries s)" and n: "vcount s = length xs + length ys"
    by (rule lower_bound_split [OF ok])
  show ?thesis
  proof (cases "(xs \<noteq> [] \<and> can_merge (last xs) v) \<or> (ys \<noteq> [] \<and> can_merge v (hd ys))")
    case True
    from insert_entry_merging [OF ok v dj l i xs ys this] show ?thesis by blast
  next
    case False
    have areas: "areas_ok pm (xs @ v # ys)"
      using disjoint_areas_ok [of pm xs ys v] okD(5) v dj xs ys l by simp
    have nx: "xs \<noteq> [] \<Longrightarrow> entries s ! (length xs - 1) = last xs"
      by (subst es) (simp add: nth_append last_conv_nth)
    have ny: "ys \<noteq> [] \<Longrightarrow> entries s ! length xs = hd ys"
      by (subst es) (simp add: nth_append hd_conv_nth)
    have "\<not> ((xs \<noteq> [] \<and> vstart v < vend (last xs)) \<or> (ys \<noteq> [] \<and> vstart (hd ys) < vend v))"
      using neighbour_tests [OF _ area_ok_start_less [OF v] xs ys] okD(8) dj l by simp
    then have noconf: "\<not> (0 < length xs \<and> vstart v < vend (entries s ! (length xs - 1)) \<or>
        length xs < vcount s \<and> vstart (entries s ! length xs) < vend v)"
      using nx ny n by auto
    have nomerge: "\<not> (0 < length xs \<and> can_merge (entries s ! (length xs - 1)) v)"
        "\<not> (length xs < vcount s \<and> can_merge v (entries s ! length xs))"
      using False nx ny n by auto
    let ?fill = "\<lambda>s1. let s2 = move_entries s1 (length xs + 1) (length xs) (vcount s1 - length xs);
                 s3 = s2\<lparr>entries := (entries s2)[length xs := v]\<rparr>;
                 s4 = shm_open (shm_attachment v) s3
             in s4\<lparr>vcount := vcount s4 + 1\<rparr>"
    have run: "insert_entry h s v =
       (if vcount s = uint32_max then Some (VMA_NO_MEMORY, s)
        else do { (st, s1) \<leftarrow> reserve_entries h s (vcount s + 1);
                  if st \<noteq> VMA_OK then Some (st, s1) else Some (VMA_OK, ?fill s1) })" for h
      unfolding insert_entry_def Let_def i if_not_P [OF noconf] if_not_P [OF nomerge(1)]
        if_not_P [OF nomerge(2)] by (rule refl)
    have fill: "inserted pm s v (?fill s1)" if "grown s s1" "vcount s < capacity s1" for s1
    proof -
      note g = grown_fields [OF that(1)]
      have l1: "live s1 = live s" using grown_live [OF that(1)] okD(2,4) by simp
      have "inserted pm s1 v (?fill s1)"
        using insert_slot_spec(1) [OF grown_array_ok [OF that(1) ok] _ _ areas _ _ refl]
          False l l1 that(2) g(2) by simp
      then show ?thesis using g(1,2,3,8) l1 by (simp add: inserted_def view_def)
    qed
    show ?thesis
    proof (cases "vcount s < capacity s")
      case True
      then have "insert_entry h s v = Some (VMA_OK, ?fill s)" for h
        using okD(3) by (simp add: run reserve_entries_room)
      moreover have "grown s s" using okD(2,3) by (auto simp: grown_def intro!: exI [of _ "entries s"])
      ultimately show ?thesis using fill True by blast
    next
      case full: False
      have "(\<exists>s'. insert_entry h s v = Some (VMA_OK, s') \<and> inserted pm s v s') \<or>
        insert_entry h s v = Some (VMA_NO_MEMORY, s) \<or> insert_entry h s v = Some (VMA_STATE, s)"
        using reserve_entries_cases [OF okD(2,3), of h "vcount s + 1"]
      proof (elim disjE exE conjE)
        fix s1 assume "reserve_entries h s (vcount s + 1) = Some (VMA_OK, s1)" "grown s s1"
          "vcount s + 1 \<le> capacity s1"
        then have "insert_entry h s v = Some (VMA_OK, ?fill s1) \<and> inserted pm s v (?fill s1)
          \<or> insert_entry h s v = Some (VMA_NO_MEMORY, s)"
          using fill by (simp add: run)
        then show ?thesis by blast
      qed (simp_all add: run)
      then show ?thesis using full okD(4) by simp
    qed
  qed
qed

end
