(* ===== verification/Vma_Edit.thy ===== *)
theory Vma_Edit
  imports Vma_Slots
begin

text \<open>
  Two-phase edits of an area set (\<^verbatim>\<open>src/mm/vma.c\<close>): a \<^verbatim>\<open>prepare\<close> call checks the request and
  reserves every slot the edit can need, the matching \<^verbatim>\<open>commit\<close> call cuts the areas at the two
  boundaries, changes the ones in between and merges again.
\<close>

section \<open>Cutting an area at an address\<close>

definition cut_at :: "u64 \<Rightarrow> vma list \<Rightarrow> bool" where
  "cut_at a vs \<longleftrightarrow> (\<forall>v \<in> set vs. vend v \<le> a \<or> a \<le> vstart v)"

lemma after_address_split:
  assumes ok: "array_ok pm s"
  obtains xs ys where "live s = xs @ ys" "lower_bound s (after_address a) = length xs"
    "\<forall>v \<in> set xs. vstart v \<le> a" "\<forall>v \<in> set ys. a < vstart v"
    "entries s = xs @ ys @ drop (vcount s) (entries s)" "vcount s = length xs + length ys"
proof -
  obtain xs ys where l: "live s = xs @ ys" and i: "lower_bound s (after_address a) = length xs"
    and xs: "\<forall>w \<in> set xs. vstart w < after_address a" and ys: "\<forall>w \<in> set ys. after_address a \<le> vstart w"
    and es: "entries s = xs @ ys @ drop (vcount s) (entries s)" and n: "vcount s = length xs + length ys"
    by (rule lower_bound_split [OF ok])
  show ?thesis
  proof (cases "a = u64_max")
    case True
    have "\<not> u64_max \<le> vstart w" if "w \<in> set ys" for w
    proof -
      have "vstart w < vend w" using array_okD(10) [OF ok] that l by simp
      then show ?thesis using le_u64_max [of "vend w"] by (auto simp: not_le intro: order.strict_trans2)
    qed
    then have "ys = []" using ys True by (cases ys) (auto simp: after_address_def)
    then show ?thesis using that [OF l i _ _ es n] True le_u64_max by auto
  next
    case False
    have lt: "a < a + 1" using False by (simp add: less_plus_one_iff)
    have "\<forall>w \<in> set xs. vstart w \<le> a"
      using xs False by (auto simp: after_address_def less_plus_one_iff)
    moreover have "\<forall>w \<in> set ys. a < vstart w"
      using ys False lt by (auto simp: after_address_def intro: order.strict_trans2)
    ultimately show ?thesis by (rule that [OF l i _ _ es n])
  qed
qed

lemma split_needed_iff:
  assumes ok: "array_ok pm s"
  shows "split_needed s a \<longleftrightarrow> \<not> cut_at a (live s)"
proof -
  obtain xs ys where l: "live s = xs @ ys" and i: "lower_bound s (after_address a) = length xs"
    and xs: "\<forall>v \<in> set xs. vstart v \<le> a" and ys: "\<forall>v \<in> set ys. a < vstart v"
    and es: "entries s = xs @ ys @ drop (vcount s) (entries s)"
    by (rule after_address_split [OF ok])
  show ?thesis
  proof (cases xs rule: rev_cases)
    case Nil
    then show ?thesis using i l ys by (auto simp: split_needed_def cut_at_def intro: less_imp_le)
  next
    case (snoc zs w)
    have "entries s ! (length xs - 1) = w" by (subst es) (simp add: snoc nth_append)
    moreover have "vend z \<le> a" if "z \<in> set zs" for z
    proof -
      have "vend z \<le> vstart w" using array_okD(8) [OF ok] that l snoc by (simp add: ordered_simps)
      then show ?thesis using xs snoc by (auto intro: order.trans)
    qed
    ultimately show ?thesis using i l ys snoc
      by (auto simp: split_needed_def cut_at_def not_le dest: leD intro: less_imp_le)
  qed
qed

lemma page_mask_and_zero:
  assumes "is_page_mask pm" "x AND pm = 0" "y AND pm = 0"
  shows "(x + y) AND pm = 0" "(x - y) AND pm = 0"
proof -
  obtain k where k: "pm = mask k" using assms(1) by (auto simp: is_page_mask_def)
  have dvd: "z AND pm = 0 \<longleftrightarrow> 2 ^ k dvd z" for z
    by (simp add: k take_bit_eq_mask [symmetric] take_bit_eq_0_iff)
  show "(x + y) AND pm = 0" "(x - y) AND pm = 0"
    using assms(2,3) unfolding dvd by (rule dvd_add, rule dvd_diff)
qed

definition right_part :: "vma \<Rightarrow> u64 \<Rightarrow> vma" where
  "right_part e a = e\<lparr>backing_offset := (if kind e \<noteq> KIND_ANONYMOUS
       then backing_offset e + (a - vstart e) else backing_offset e), vstart := a\<rparr>"

lemma offset_fits_parts:
  assumes "offset_fits e" "vstart e < a" "a < vend e" 
  shows "offset_fits (e\<lparr>vend := a\<rparr>)" "backing_offset e \<le> u64_max - (a - vstart e)"
    "offset_fits (e\<lparr>backing_offset := backing_offset e + (a - vstart e), vstart := a\<rparr>)"
proof -
  have le: "vstart e \<le> a" "a \<le> vend e" "vstart e \<le> vend e" using assms by auto
  have d: "unat (vend e - vstart e) = unat (a - vstart e) + unat (vend e - a)"
    using le by (simp add: unat_diff_le word_le_nat_alt)
  have f: "unat (backing_offset e) + unat (a - vstart e) + unat (vend e - a) < 2 ^ 64"
    using assms(1) d by (simp add: offset_fits_unat)
  then have g: "unat (backing_offset e) + unat (a - vstart e) < 2 ^ 64" by simp
  then show "offset_fits (e\<lparr>vend := a\<rparr>)" by (simp add: offset_fits_unat)
  show "backing_offset e \<le> u64_max - (a - vstart e)"
    using g no_wrap_iff [of "backing_offset e" "a - vstart e"] by simp
  then have "unat (backing_offset e + (a - vstart e)) = unat (backing_offset e) + unat (a - vstart e)"
    using g by (intro unat_add_no_wrap) simp
  then show "offset_fits (e\<lparr>backing_offset := backing_offset e + (a - vstart e), vstart := a\<rparr>)"
    using f by (simp add: offset_fits_unat)
qed

lemma parts_area_ok:
  assumes pm: "is_page_mask pm" and e: "area_ok pm e" and a: "vstart e < a" "a < vend e" "a AND pm = 0"
  shows "area_ok pm (e\<lparr>vend := a\<rparr>)" "area_ok pm (right_part e a)"
    "kind e \<noteq> KIND_ANONYMOUS \<Longrightarrow> backing_offset e \<le> u64_max - (a - vstart e)"
proof -
  have ov: "vma_valid pm e" "vstart e AND pm = 0" "vend e AND pm = 0"
    using e by (auto simp: area_ok_def)
  note parts = offset_fits_parts [OF vma_valid_offset [OF ov(1)] a(1,2)]
  show "kind e \<noteq> KIND_ANONYMOUS \<Longrightarrow> backing_offset e \<le> u64_max - (a - vstart e)"
    by (rule parts(2))
  have "vma_valid pm (e\<lparr>vend := a\<rparr>)" using ov(1) a(1) parts(1) by (rule vma_valid_extend)
  then show "area_ok pm (e\<lparr>vend := a\<rparr>)" using ov a by (simp add: area_ok_def)
  have "(backing_offset e + (a - vstart e)) AND pm = 0" if "backing_offset e AND pm = 0"
    using page_mask_and_zero(1) [OF pm that page_mask_and_zero(2) [OF pm a(3) ov(2)]] .
  then have "vma_valid pm (right_part e a)" using ov(1) a(2) parts(3)
    by (cases "kind e") (simp_all add: vma_valid_iff kind_ok_def right_part_def)
  then show "area_ok pm (right_part e a)" using ov a by (simp add: area_ok_def right_part_def)
qed

lemma attr_at_right_part: "attr_at (right_part e a) x = attr_at e x"
  by (simp add: attr_at_def right_part_def)

lemma parts_view:
  assumes "vstart e < a" "a < vend e"
  shows "lview (e\<lparr>vend := a\<rparr> # right_part e a # ys) x = lview (e # ys) x"
proof -
  have "covers e x \<longleftrightarrow> covers (e\<lparr>vend := a\<rparr>) x \<or> covers (right_part e a) x"
    using assms by (auto simp: covers_def right_part_def not_less intro: order.trans order.strict_trans less_imp_le)
  moreover have "attr_at (e\<lparr>vend := a\<rparr>) x = attr_at e x" by (simp add: attr_at_def)
  ultimately show ?thesis by (auto simp: attr_at_right_part)
qed

definition split_to :: "u64 \<Rightarrow> vma_set \<Rightarrow> u64 \<Rightarrow> vma_set \<Rightarrow> bool" where
  "split_to pm s a s' \<longleftrightarrow> array_ok pm s' \<and> view s' = view s \<and>
     (\<forall>b. cut_at b (live s') \<longleftrightarrow> b = a \<or> cut_at b (live s)) \<and>
     self s' = self s \<and> generation s' = generation s \<and> capacity s' = capacity s \<and>
     vcount s' = vcount s + of_bool (split_needed s a)"

lemma cut_at_parts:
  assumes "vstart e < a" "a < vend e"
  shows "cut_at b (zs @ e\<lparr>vend := a\<rparr> # right_part e a # ys) \<longleftrightarrow>
     (b = a \<and> cut_at a (zs @ ys)) \<or> cut_at b (zs @ e # ys)"
  using assms by (auto simp: cut_at_def right_part_def)

lemma split_at_spec:
  assumes ok: "array_ok pm s" and pm: "is_page_mask pm" "a AND pm = 0"
    and room: "vcount s + of_bool (split_needed s a) \<le> capacity s"
  shows "\<exists>s'. split_at s a = (VMA_OK, s') \<and> split_to pm s a s'"
proof (cases "split_needed s a")
  case False
  then have "split_at s a = (VMA_OK, s)"
    unfolding split_at_def split_needed_def Let_def by (auto simp: not_less)
  then show ?thesis using ok False split_needed_iff [OF ok] by (auto simp: split_to_def)
next
  case True
  note okD = array_okD [OF ok]
  obtain xs ys where l: "live s = xs @ ys" and i: "lower_bound s (after_address a) = length xs"
    and xs: "\<forall>v \<in> set xs. vstart v \<le> a" and ys: "\<forall>v \<in> set ys. a < vstart v"
    and es0: "entries s = xs @ ys @ drop (vcount s) (entries s)" and n: "vcount s = length xs + length ys"
    by (rule after_address_split [OF ok])
  obtain zs e where xse: "xs = zs @ [e]"
    using True i by (cases xs rule: rev_cases) (auto simp: split_needed_def)
  have "drop (vcount s) (entries s) \<noteq> []" using room True okD(2) by simp
  then obtain z junk where es: "entries s = zs @ e # ys @ z # junk"
    using es0 xse by (metis append.assoc append_Cons append_Nil neq_Nil_conv)
  have a: "vstart e < a" "a < vend e"
    using True i by (auto simp: split_needed_def xse es nth_append)
  have oe: "area_ok pm e" using okD(9) l xse by simp
  note parts = parts_area_ok [OF pm(1) oe a pm(2)]
  define s2 where "s2 = move_entries (s\<lparr>entries := zs @ e\<lparr>vend := a\<rparr> # ys @ z # junk\<rparr>)
    (length zs + 2) (length zs + 1) (length ys)"
  define s4 where "s4 = shm_open (shm_attachment e) (s2\<lparr>entries := (entries s2)[length zs + 1 := right_part e a]\<rparr>)"
  define s' where "s' = s4\<lparr>vcount := vcount s4 + 1\<rparr>"
  have run: "split_at s a = (VMA_OK, s')"
  proof -
    have "entries s ! length zs = e" by (simp add: es nth_append)
    moreover have "\<not> (kind e \<noteq> KIND_ANONYMOUS \<and> u64_max - (a - vstart e) < backing_offset e)"
      using parts(3) by (auto simp: not_less)
    moreover have "(entries s)[length zs := e\<lparr>vend := a\<rparr>] = zs @ e\<lparr>vend := a\<rparr> # ys @ z # junk"
      by (simp add: es list_update_append)
    ultimately show ?thesis using a n room True
      unfolding split_at_def Let_def i s'_def s4_def s2_def right_part_def
      by (simp add: xse not_le)
  qed
  have "(entries s2)[length (zs @ [e\<lparr>vend := a\<rparr>]) := right_part e a]
      = (zs @ [e\<lparr>vend := a\<rparr>]) @ right_part e a # ys @ junk"
    unfolding s2_def using move_entries_open_gap
      [of "s\<lparr>entries := zs @ e\<lparr>vend := a\<rparr> # ys @ z # junk\<rparr>" "zs @ [e\<lparr>vend := a\<rparr>]" ys z junk "right_part e a"]
    by simp
  then have e4: "entries s4 = zs @ e\<lparr>vend := a\<rparr> # right_part e a # ys @ junk" by (simp add: s4_def)
  then have live: "live s' = zs @ e\<lparr>vend := a\<rparr> # right_part e a # ys"
    using n by (simp add: s'_def live_def s4_def s2_def xse)
  have f: "self s' = self s" "generation s' = generation s" "capacity s' = capacity s"
    "vcount s' = vcount s + 1" "length (entries s') = length (entries s)"
    using e4 es by (simp_all add: s'_def) (simp_all add: s4_def s2_def)
  have areas: "areas_ok pm (live s')"
    using okD(5) parts(1,2) a unfolding live l xse
    by (auto simp: areas_ok_simps right_part_def intro: less_imp_le order.trans)
  have bal: "shm_balanced s'"
    using okD(6) unfolding shm_balanced_def live l xse
    by (simp add: right_part_def s'_def s4_def s2_def shm_refs_open)
  have "array_ok pm s'"
    using okD(1,2,3) room True f areas bal by (intro array_okI) simp_all
  moreover have "view s' = view s"
    unfolding view_def live l xse by (simp only: fun_eq_iff lview_append append.simps append_assoc parts_view [OF a] simp_thms)
  moreover have "cut_at b (live s') \<longleftrightarrow> b = a \<or> cut_at b (live s)" for b
  proof -
    have "cut_at a (zs @ ys)"
      using ys okD(8) xs a unfolding l xse cut_at_def
      by (auto simp: ordered_simps intro: less_imp_le order.trans)
    then show ?thesis unfolding live l xse using cut_at_parts [OF a, of b zs ys] by simp
  qed
  ultimately show ?thesis using run f True by (auto simp: split_to_def)
qed

section \<open>The areas between two cuts\<close>

lemma range_split:
  assumes ok: "array_ok pm s" and ab: "a < b" and cuts: "cut_at a (live s)" "cut_at b (live s)"
  obtains xs ms ys where "live s = xs @ ms @ ys" "lower_bound s a = length xs"
    "lower_bound s b = length xs + length ms" "\<forall>v \<in> set xs. vend v \<le> a"
    "\<forall>v \<in> set ms. a \<le> vstart v \<and> vend v \<le> b" "\<forall>v \<in> set ys. b \<le> vstart v"
    "entries s = xs @ ms @ ys @ drop (vcount s) (entries s)"
    "vcount s = length xs + length ms + length ys"
proof -
  have lt: "vstart v < vend v" if "v \<in> set (live s)" for v using array_okD(10) [OF ok that] .
  obtain xs r where 1: "live s = xs @ r" "lower_bound s a = length xs"
    "\<forall>w \<in> set xs. vstart w < a" "\<forall>w \<in> set r. a \<le> vstart w"
    "entries s = xs @ r @ drop (vcount s) (entries s)" "vcount s = length xs + length r"
    by (rule lower_bound_split [OF ok])
  obtain ps ys where 2: "live s = ps @ ys" "lower_bound s b = length ps"
    "\<forall>w \<in> set ps. vstart w < b" "\<forall>w \<in> set ys. b \<le> vstart w"
    by (rule lower_bound_split [OF ok])
  have "length xs \<le> length ps"
  proof (rule ccontr)
    assume n: "\<not> length xs \<le> length ps"
    then have "length ps < length (live s)" using 1(1) by simp
    then have "live s ! length ps \<in> set ys" using 2(1) by (simp add: nth_append)
    moreover have "live s ! length ps \<in> set xs" using n 1(1) by (simp add: nth_append)
    ultimately have "b \<le> vstart (live s ! length ps)" "vstart (live s ! length ps) < a"
      using 1(3) 2(4) by auto
    then show False using ab by (auto dest: order.strict_trans1 order.strict_trans)
  qed
  then obtain ms where ms: "ps = xs @ ms" "r = ms @ ys"
    using 1(1) 2(1) by (auto simp: append_eq_append_conv_if split: if_splits)
      (metis append_take_drop_id)
  have "\<forall>v \<in> set xs. vend v \<le> a" using 1(1,3) cuts(1) by (auto simp: cut_at_def dest: leD)
  moreover have "\<forall>v \<in> set ms. a \<le> vstart v \<and> vend v \<le> b"
    using 2(3) cuts(2) 1(1,4) ms by (auto simp: cut_at_def dest: leD)
  ultimately show ?thesis using that [of xs ms ys] 1 2 ms by simp
qed

lemma lview_outside:
  assumes "\<forall>v \<in> set ms. a \<le> vstart v \<and> vend v \<le> b" "\<not> (a \<le> x \<and> x < b)"
  shows "lview ms x = None"
  using assms by (auto simp: lview_eq_None_iff covers_def dest: order.trans order.strict_trans2)

lemma lview_below: "\<forall>v \<in> set xs. vend v \<le> a \<Longrightarrow> a \<le> x \<Longrightarrow> lview xs x = None"
  by (auto simp: lview_eq_None_iff covers_def dest: order.trans leD)

lemma lview_above: "\<forall>v \<in> set ys. b \<le> vstart v \<Longrightarrow> x < b \<Longrightarrow> lview ys x = None"
  by (auto simp: lview_eq_None_iff covers_def dest: order.strict_trans2 leD)

text \<open>Changing only the areas between two cuts changes the view only there.\<close>

lemma lview_range:
  assumes "\<forall>v \<in> set xs. vend v \<le> a" "\<forall>v \<in> set ms. a \<le> vstart v \<and> vend v \<le> b"
    "\<forall>v \<in> set ys. b \<le> vstart v"
  shows "lview (xs @ ms @ ys) x = (if a \<le> x \<and> x < b then lview ms x else lview (xs @ ys) x)"
  using lview_outside [OF assms(2), of x] lview_below [OF assms(1), of x] lview_above [OF assms(3), of x]
  by (auto simp: lview_append split: option.splits)

section \<open>Committing an edit\<close>

definition attr_edit :: "vma_edit \<Rightarrow> vattr \<Rightarrow> vattr" where
  "attr_edit e t = (if edit_kind e = EDIT_PROTECT then t\<lparr>at_permissions := edit_permissions e\<rparr>
     else t\<lparr>at_flags := (at_flags t AND NOT (edit_flags_mask e)) OR edit_flags e\<rparr>)"

text \<open>What an edit means for the address-to-attributes view.\<close>

definition edit_view :: "vma_edit \<Rightarrow> (u64 \<Rightarrow> vattr option) \<Rightarrow> u64 \<Rightarrow> vattr option" where
  "edit_view e m x = (if edit_start e \<le> x \<and> x < edit_end e then
       (case edit_kind e of
          EDIT_REMOVE \<Rightarrow> None
        | EDIT_REPLACE \<Rightarrow> Some (attr_at (edit_replacement e) x)
        | _ \<Rightarrow> map_option (attr_edit e) (m x))
     else m x)"

definition flags_fit :: "u32 \<Rightarrow> u32 \<Rightarrow> bool" where
  "flags_fit fmask flags \<longleftrightarrow> fmask AND NOT VMA_ALL_FLAGS = 0 \<and> flags AND NOT fmask = 0 \<and>
     (fmask AND VMA_LOCK_MASK = 0 \<or>
      fmask AND VMA_LOCK_MASK = VMA_LOCK_MASK \<and> flags AND VMA_LOCK_MASK \<noteq> VMA_LOCK_ONFAULT)"

definition edit_fits :: "u64 \<Rightarrow> vma_edit \<Rightarrow> (u64 \<Rightarrow> vattr option) \<Rightarrow> bool" where
  "edit_fits pm e m = (case edit_kind e of
       EDIT_REMOVE \<Rightarrow> True
     | EDIT_REPLACE \<Rightarrow> area_ok pm (edit_replacement e) \<and> vstart (edit_replacement e) = edit_start e \<and>
         vend (edit_replacement e) = edit_end e
     | EDIT_PROTECT \<Rightarrow> (\<forall>x t. edit_start e \<le> x \<and> x < edit_end e \<and> m x = Some t \<longrightarrow>
         edit_permissions e AND VMA_ALL_PERMISSIONS AND NOT (at_maximum t) = 0)
     | EDIT_FLAGS \<Rightarrow> flags_fit (edit_flags_mask e) (edit_flags e))"

lemma flags_fit_keeps:
  assumes "flags_fit fmask flags" "fl AND NOT VMA_ALL_FLAGS = 0" "fl AND VMA_LOCK_MASK \<noteq> VMA_LOCK_ONFAULT"
  shows "((fl AND NOT fmask) OR flags) AND NOT VMA_ALL_FLAGS = 0"
    "((fl AND NOT fmask) OR flags) AND VMA_LOCK_MASK \<noteq> VMA_LOCK_ONFAULT"
proof -
  show "((fl AND NOT fmask) OR flags) AND NOT VMA_ALL_FLAGS = 0"
  proof (rule bit_eqI)
    fix n assume "possible_bit TYPE(32 word) n"
    moreover have "bit (fmask AND NOT VMA_ALL_FLAGS) n = bit (0 :: u32) n"
        "bit (flags AND NOT fmask) n = bit (0 :: u32) n" "bit (fl AND NOT VMA_ALL_FLAGS) n = bit (0 :: u32) n"
      using assms by (simp_all only: flags_fit_def)
    ultimately show "bit (((fl AND NOT fmask) OR flags) AND NOT VMA_ALL_FLAGS) n = bit (0 :: u32) n"
      by (auto simp: bit_simps)
  qed
  have "((fl AND NOT fmask) OR flags) AND VMA_LOCK_MASK = fl AND VMA_LOCK_MASK \<or>
    ((fl AND NOT fmask) OR flags) AND VMA_LOCK_MASK = flags AND VMA_LOCK_MASK \<and>
      fmask AND VMA_LOCK_MASK = VMA_LOCK_MASK"
  proof -
    have k: "bit fmask n" if "bit flags n" for n
    proof -
      have "bit (flags AND NOT fmask) n = bit (0 :: u32) n" using assms(1) by (simp only: flags_fit_def)
      then show ?thesis using that by (auto simp: bit_simps dest: bit_imp_le_length)
    qed
    show ?thesis
    proof (cases "fmask AND VMA_LOCK_MASK = 0")
      case True
      have z: "\<not> (bit fmask n \<and> bit VMA_LOCK_MASK n)" for n
        using arg_cong [OF True, of "\<lambda>w. bit w n"] by (simp add: bit_simps)
      show ?thesis using k z by (intro disjI1 bit_eqI) (auto simp: bit_simps)
    next
      case False
      then have m: "fmask AND VMA_LOCK_MASK = VMA_LOCK_MASK" using assms(1) by (simp add: flags_fit_def)
      have z: "bit VMA_LOCK_MASK n \<Longrightarrow> bit fmask n" for n
        using arg_cong [OF m, of "\<lambda>w. bit w n"] by (simp add: bit_simps)
      show ?thesis using m z by (intro disjI2 conjI bit_eqI) (auto simp: bit_simps)
    qed
  qed
  then show "((fl AND NOT fmask) OR flags) AND VMA_LOCK_MASK \<noteq> VMA_LOCK_ONFAULT"
    using assms by (auto simp: flags_fit_def)
qed

lemma apply_edit_area_ok:
  assumes "area_ok pm v" and "edit_kind e = EDIT_PROTECT \<or> edit_kind e = EDIT_FLAGS"
    and "edit_kind e = EDIT_PROTECT \<Longrightarrow>
      edit_permissions e AND VMA_ALL_PERMISSIONS AND NOT (maximum_permissions v) = 0"
    and "edit_kind e = EDIT_FLAGS \<Longrightarrow> flags_fit (edit_flags_mask e) (edit_flags e)"
  shows "area_ok pm (apply_edit e v)"
proof -
  have kinds: "kind_ok pm (v\<lparr>permissions := p\<rparr>) = kind_ok pm v" "kind_ok pm (v\<lparr>vflags := f\<rparr>) = kind_ok pm v"
    for p f by (cases "kind v"; simp add: kind_ok_def offset_fits_def)+
  show ?thesis
  proof (cases "edit_kind e = EDIT_PROTECT")
    case True
    then show ?thesis using assms(1,3) by (simp add: area_ok_def vma_valid_iff kinds apply_edit_def)
  next
    case False
    then have "flags_fit (edit_flags_mask e) (edit_flags e)" using assms(2,4) by blast
    note keeps = flags_fit_keeps [OF this, of "vflags v"]
    show ?thesis using assms(1) keeps False unfolding area_ok_def vma_valid_iff
      by (simp add: kinds apply_edit_def)
  qed
qed

lemma apply_edit_fields [simp]:
  "vstart (apply_edit e v) = vstart v" "vend (apply_edit e v) = vend v"
  "shm_attachment (apply_edit e v) = shm_attachment v"
  by (simp_all add: apply_edit_def)

lemma attr_at_apply_edit: "attr_at (apply_edit e v) x = attr_edit e (attr_at v x)"
  by (simp add: attr_at_def apply_edit_def attr_edit_def)

lemma lview_apply_edit: "lview (map (apply_edit e) ms) x = map_option (attr_edit e) (lview ms x)"
  by (induction ms) (auto simp: covers_def attr_at_apply_edit)

lemma edit_slots_map:
  "edit_slots e (length xs) (length xs + length ms) (xs @ ms @ zs) = xs @ map (apply_edit e) ms @ zs"
proof (induction ms arbitrary: xs)
  case (Cons m ms)
  have "[length xs..<length xs + length (m # ms)]
      = length xs # [length (xs @ [apply_edit e m])..<length (xs @ [apply_edit e m]) + length ms]"
    by (simp add: upt_conv_Cons del: upt_Suc)
  then show ?case using Cons [of "xs @ [apply_edit e m]"] by (simp add: edit_slots_def)
qed (simp add: edit_slots_def)

lemma edited_middle:
  assumes ok: "array_ok pm s" and l: "live s = xs @ ms @ ys"
    and es: "entries s = xs @ ms @ ys @ drop (vcount s) (entries s)"
    and n: "vcount s = length xs + length ms + length ys"
    and ms: "\<forall>m \<in> set ms. area_ok pm (apply_edit e m)"
  defines "s' \<equiv> s\<lparr>entries := edit_slots e (length xs) (length xs + length ms) (entries s)\<rparr>"
  shows "array_ok pm s'" "live s' = xs @ map (apply_edit e) ms @ ys"
proof -
  note okD = array_okD [OF ok]
  obtain junk where j: "entries s = xs @ ms @ ys @ junk" using es by blast
  have e': "entries s' = xs @ map (apply_edit e) ms @ ys @ junk"
    by (simp add: s'_def j edit_slots_map)
  show l': "live s' = xs @ map (apply_edit e) ms @ ys"
    using n by (simp add: live_def e') (simp add: s'_def)
  have "areas_ok pm (live s')"
    using okD(5) ms unfolding l l'
    by (induction ms) (auto simp: areas_ok_simps)
  moreover have "shm_balanced s'"
  proof -
    have "attachments p (map (apply_edit e) ms) = attachments p ms" for p by (induction ms) auto
    then show ?thesis using okD(6) unfolding shm_balanced_def l l' by (simp add: s'_def)
  qed
  moreover have "length (entries s') = length (entries s)" by (simp add: e' j)
  ultimately show "array_ok pm s'" using okD(1-4) by (intro array_okI) (simp_all add: s'_def)
qed

definition refs_minus :: "vma_set \<Rightarrow> vma list \<Rightarrow> ptr \<Rightarrow> int" where
  "refs_minus s ms p = (if p = 0 then shm_refs s 0 else shm_refs s p - attachments p ms)"

lemma shm_close_refs: "shm_close (shm_attachment m) s = s\<lparr>shm_refs := refs_minus s [m]\<rparr>"
proof -
  have "refs_minus s [m] = shm_refs (shm_close (shm_attachment m) s)"
    by (auto simp: refs_minus_def shm_close_def fun_eq_iff)
  then show ?thesis by (simp add: shm_close_def)
qed

lemma close_slots:
  "entries s = xs @ ms @ zs \<Longrightarrow>
   fold (\<lambda>i s. shm_close (shm_attachment (entries s ! i)) s) [length xs..<length xs + length ms] s
     = s\<lparr>shm_refs := refs_minus s ms\<rparr>"
proof (induction ms arbitrary: xs s)
  case Nil
  have "refs_minus s [] = shm_refs s" by (simp add: refs_minus_def fun_eq_iff)
  then show ?case by simp
next
  case (Cons m ms)
  let ?s = "s\<lparr>shm_refs := refs_minus s [m]\<rparr>"
  have up: "[length xs..<length xs + length (m # ms)]
      = length xs # [length (xs @ [m])..<length (xs @ [m]) + length ms]"
    by (simp add: upt_conv_Cons del: upt_Suc)
  have "entries s ! length xs = m" using Cons.prems by (simp add: nth_append)
  moreover have "entries ?s = (xs @ [m]) @ ms @ zs" using Cons.prems by simp
  moreover have "refs_minus ?s ms = refs_minus s (m # ms)" by (simp add: refs_minus_def fun_eq_iff)
  ultimately show ?case unfolding up using Cons.IH [of ?s "xs @ [m]"] by (simp add: shm_close_refs)
qed

lemma removed_middle:
  assumes ok: "array_ok pm s" and l: "live s = xs @ ms @ ys"
    and es: "entries s = xs @ ms @ ys @ drop (vcount s) (entries s)"
    and n: "vcount s = length xs + length ms + length ys"
  defines "s3 \<equiv> fold (\<lambda>i s. shm_close (shm_attachment (entries s ! i)) s)
                [length xs..<length xs + length ms] s"
  defines "s4 \<equiv> move_entries s3 (length xs) (length xs + length ms) (vcount s3 - (length xs + length ms))"
  defines "s5 \<equiv> s4\<lparr>vcount := vcount s4 - (length xs + length ms - length xs)\<rparr>"
  shows "array_ok pm s5" "live s5 = xs @ ys" "vcount s5 = length xs + length ys"
    "self s5 = self s" "generation s5 = generation s" "capacity s5 = capacity s"
proof -
  note okD = array_okD [OF ok]
  obtain junk where j: "entries s = xs @ ms @ ys @ junk" using es by blast
  have "s3 = s\<lparr>shm_refs := refs_minus s ms\<rparr>" unfolding s3_def by (rule close_slots [OF j])
  then have f3: "entries s3 = entries s" "vcount s3 = vcount s" "self s3 = self s" "capacity s3 = capacity s"
    "generation s3 = generation s" "shm_refs s3 = refs_minus s ms"
    by simp_all
  show f: "self s5 = self s" "generation s5 = generation s" "capacity s5 = capacity s"
    "vcount s5 = length xs + length ys"
    using n by (simp_all add: s5_def s4_def f3)
  have "take (length xs + length ys) (entries s4) = xs @ ys"
    using move_entries_close_gap [of s3 xs ms ys junk] n by (simp add: s4_def f3 j)
  then show live: "live s5 = xs @ ys" using n by (simp add: live_def s5_def s4_def f3)
  have "areas_ok pm (live s5)" using okD(5) unfolding l live by (auto simp: areas_ok_simps)
  moreover have "shm_balanced s5"
    using okD(6) unfolding shm_balanced_def l live by (simp add: s5_def s4_def f3 refs_minus_def)
  moreover have "length (entries s5) = capacity s5" using okD(2) f3 by (simp add: s5_def s4_def)
  ultimately show "array_ok pm s5" using okD(1-4) f n by (intro array_okI) simp_all
qed

definition edit_room :: "vma_set \<Rightarrow> vma_edit \<Rightarrow> bool" where
  "edit_room s e \<longleftrightarrow>
     vcount s + of_bool (split_needed s (edit_start e)) + of_bool (split_needed s (edit_end e)) \<le> capacity s \<and>
     (edit_kind e = EDIT_REPLACE \<longrightarrow> vcount s < capacity s \<or>
        (\<exists>x. edit_start e \<le> x \<and> x < edit_end e \<and> view s x \<noteq> None))"

definition edited :: "u64 \<Rightarrow> vma_set \<Rightarrow> vma_edit \<Rightarrow> vma_set \<Rightarrow> bool" where
  "edited pm s e s' \<longleftrightarrow> vset_inv pm s' \<and> view s' = edit_view e (view s) \<and> self s' = self s \<and>
     generation s' = generation s + 1 \<and> capacity s \<le> capacity s' \<and>
     vcount s' \<le> vcount s + 2 + of_bool (edit_kind e = EDIT_REPLACE)"

definition edit_shape :: "u64 \<Rightarrow> vma_edit \<Rightarrow> bool" where
  "edit_shape pm e \<longleftrightarrow> edit_start e < edit_end e \<and> edit_start e AND pm = 0 \<and> edit_end e AND pm = 0"

lemma merge_recount_edited:
  assumes ok: "array_ok pm s3" and v: "view s3 = edit_view e (view s)"
    and f: "self s3 = self s" "generation s3 = generation s" "capacity s \<le> capacity s3"
      "vcount s3 \<le> vcount s + 2 + of_bool (edit_kind e = EDIT_REPLACE)"
  shows "\<exists>s4. recount_bytes (merge_all s3) = Some s4 \<and> edited pm s e (s4\<lparr>generation := generation s4 + 1\<rparr>)"
proof -
  obtain s4 where "recount_bytes (merge_all s3) = Some s4" "vset_inv pm s4" "view s4 = view s3"
    "self s4 = self s3" "generation s4 = generation s3" "capacity s4 = capacity s3" "vcount s4 \<le> vcount s3"
    using merge_recount_spec [OF ok] by blast
  then show ?thesis using v f by (auto simp: edited_def)
qed

text \<open>The two cuts of a commit and the areas they isolate.\<close>

definition isolated :: "u64 \<Rightarrow> vma_set \<Rightarrow> vma_edit \<Rightarrow> vma_set \<Rightarrow> vma list \<Rightarrow> vma list \<Rightarrow> vma list \<Rightarrow> bool" where
  "isolated pm s e s2 xs ms ys \<longleftrightarrow> array_ok pm s2 \<and> view s2 = view s \<and> self s2 = self s \<and>
     generation s2 = generation s \<and> capacity s2 = capacity s \<and> vcount s2 \<le> vcount s + 2 \<and>
     (cut_at (edit_start e) (live s) \<and> cut_at (edit_end e) (live s) \<longrightarrow> vcount s2 = vcount s) \<and>
     live s2 = xs @ ms @ ys \<and> lower_bound s2 (edit_start e) = length xs \<and>
     lower_bound s2 (edit_end e) = length xs + length ms \<and>
     (\<forall>v \<in> set xs. vend v \<le> edit_start e) \<and>
     (\<forall>v \<in> set ms. edit_start e \<le> vstart v \<and> vend v \<le> edit_end e) \<and>
     (\<forall>v \<in> set ys. edit_end e \<le> vstart v) \<and>
     entries s2 = xs @ ms @ ys @ drop (vcount s2) (entries s2) \<and>
     vcount s2 = length xs + length ms + length ys"

lemma commit_isolates:
  assumes ok: "array_ok pm s" and pm: "is_page_mask pm" and shape: "edit_shape pm e" and room: "edit_room s e"
  obtains s1 s2 xs ms ys where "split_at s (edit_start e) = (VMA_OK, s1)"
    "split_at s1 (edit_end e) = (VMA_OK, s2)" "isolated pm s e s2 xs ms ys"
proof -
  let ?a = "edit_start e" and ?b = "edit_end e"
  have ab: "?a < ?b" "?a AND pm = 0" "?b AND pm = 0" using shape by (auto simp: edit_shape_def)
  obtain s1 where s1: "split_at s ?a = (VMA_OK, s1)" "split_to pm s ?a s1"
    using split_at_spec [OF ok pm ab(2)] room by (auto simp: edit_room_def)
  have ok1: "array_ok pm s1" using s1(2) by (simp add: split_to_def)
  have sb: "split_needed s1 ?b = split_needed s ?b"
    using s1(2) ab(1) split_needed_iff [OF ok] split_needed_iff [OF ok1] by (auto simp: split_to_def)
  then have "vcount s1 + of_bool (split_needed s1 ?b) \<le> capacity s1"
    using room s1(2) by (simp add: edit_room_def split_to_def)
  from split_at_spec [OF ok1 pm ab(3) this] obtain s2 where
    s2: "split_at s1 ?b = (VMA_OK, s2)" "split_to pm s1 ?b s2" by blast
  have ok2: "array_ok pm s2" and cuts: "cut_at ?a (live s2)" "cut_at ?b (live s2)"
    using s1(2) s2(2) by (auto simp: split_to_def)
  obtain xs ms ys where "live s2 = xs @ ms @ ys" "lower_bound s2 ?a = length xs"
    "lower_bound s2 ?b = length xs + length ms" "\<forall>v \<in> set xs. vend v \<le> ?a"
    "\<forall>v \<in> set ms. ?a \<le> vstart v \<and> vend v \<le> ?b" "\<forall>v \<in> set ys. ?b \<le> vstart v"
    "entries s2 = xs @ ms @ ys @ drop (vcount s2) (entries s2)"
    "vcount s2 = length xs + length ms + length ys"
    by (rule range_split [OF ok2 ab(1) cuts])
  moreover have "vcount s2 = vcount s + of_bool (split_needed s ?a) + of_bool (split_needed s ?b)"
    using s1(2) s2(2) sb by (simp add: split_to_def)
  then have "vcount s2 \<le> vcount s + 2" "cut_at ?a (live s) \<and> cut_at ?b (live s) \<longrightarrow> vcount s2 = vcount s"
    using split_needed_iff [OF ok] by (auto simp: of_bool_def)
  ultimately have "isolated pm s e s2 xs ms ys"
    using s1(2) s2(2) unfolding isolated_def split_to_def by simp
  then show ?thesis by (rule that [OF s1(1) s2(1)])
qed

lemma isolated_view:
  assumes "isolated pm s e s2 xs ms ys"
  shows "view s x = (if edit_start e \<le> x \<and> x < edit_end e then lview ms x else lview (xs @ ys) x)"
  using assms lview_range [of xs "edit_start e" ms "edit_end e" ys x]
  unfolding isolated_def view_def by metis

text \<open>Permission and flag edits rewrite the isolated areas where they stand.\<close>

lemma isolated_apply_ok:
  assumes iso: "isolated pm s e s2 xs ms ys" and k: "edit_kind e = EDIT_PROTECT \<or> edit_kind e = EDIT_FLAGS"
    and fits: "edit_fits pm e (view s)" and m: "m \<in> set ms"
  shows "area_ok pm (apply_edit e m)"
proof (rule apply_edit_area_ok [OF _ k])
  have ok2: "array_ok pm s2" and l: "live s2 = xs @ ms @ ys" and v2: "view s2 = view s"
    and ms: "edit_start e \<le> vstart m" "vend m \<le> edit_end e"
    using iso m by (auto simp: isolated_def)
  show am: "area_ok pm m" using array_okD(9) [OF ok2] l m by simp
  show "flags_fit (edit_flags_mask e) (edit_flags e)" if "edit_kind e = EDIT_FLAGS"
    using fits that by (simp add: edit_fits_def)
  show "edit_permissions e AND VMA_ALL_PERMISSIONS AND NOT (maximum_permissions m) = 0"
    if "edit_kind e = EDIT_PROTECT"
  proof -
    have "covers m (vstart m)" using area_ok_start_less [OF am] by (simp add: covers_def)
    then have "view s (vstart m) = Some (attr_at m (vstart m))"
      using lview_covers [of "live s2" m "vstart m"] array_okD(8) [OF ok2] m v2 l by (simp add: view_def)
    moreover have "vstart m < edit_end e"
      using ms(2) area_ok_start_less [OF am] by (auto intro: order.strict_trans2)
    ultimately have "edit_permissions e AND VMA_ALL_PERMISSIONS AND NOT (at_maximum (attr_at m (vstart m))) = 0"
      using fits that ms(1) unfolding edit_fits_def by simp
    then show ?thesis by (simp add: attr_at_def)
  qed
qed

lemma commit_in_place:
  assumes iso: "isolated pm s e s2 xs ms ys" and k: "edit_kind e = EDIT_PROTECT \<or> edit_kind e = EDIT_FLAGS"
    and fits: "edit_fits pm e (view s)"
  shows "\<exists>s4. recount_bytes (merge_all
      (s2\<lparr>entries := edit_slots e (length xs) (length xs + length ms) (entries s2)\<rparr>)) = Some s4 \<and>
    edited pm s e (s4\<lparr>generation := generation s4 + 1\<rparr>)"
proof -
  note i = iso [unfolded isolated_def]
  let ?s3 = "s2\<lparr>entries := edit_slots e (length xs) (length xs + length ms) (entries s2)\<rparr>"
  have mm: "array_ok pm ?s3" "live ?s3 = xs @ map (apply_edit e) ms @ ys"
    using edited_middle [of pm s2 xs ms ys e] i isolated_apply_ok [OF iso k fits] by blast+
  have "view ?s3 = edit_view e (view s)"
  proof
    fix x
    have "view ?s3 x = (if edit_start e \<le> x \<and> x < edit_end e then map_option (attr_edit e) (lview ms x)
        else lview (xs @ ys) x)"
      using lview_range [of xs "edit_start e" "map (apply_edit e) ms" "edit_end e" ys x] i
      by (simp add: view_def mm(2) lview_apply_edit)
    then show "view ?s3 x = edit_view e (view s) x"
      using k by (auto simp: edit_view_def isolated_view [OF iso])
  qed
  then show ?thesis using i by (intro merge_recount_edited [OF mm(1)]) auto
qed

text \<open>Removal closes the gap the isolated areas leave; replacement then fills it.\<close>

definition removed :: "u64 \<Rightarrow> vma_set \<Rightarrow> vma_edit \<Rightarrow> vma_set \<Rightarrow> bool" where
  "removed pm s e s5 \<longleftrightarrow> array_ok pm s5 \<and> self s5 = self s \<and> generation s5 = generation s \<and>
     capacity s5 = capacity s \<and> vcount s5 \<le> vcount s + 2 \<and>
     (\<forall>x. view s5 x = (if edit_start e \<le> x \<and> x < edit_end e then None else view s x))"

lemma uncut_view:
  assumes ok: "array_ok pm s" and ab: "a < b" and none: "\<And>x. a \<le> x \<Longrightarrow> x < b \<Longrightarrow> view s x = None"
  shows "cut_at a (live s)" "cut_at b (live s)"
proof -
  have nc: "\<not> covers v x" if "v \<in> set (live s)" "a \<le> x" "x < b" for v x
    using none [OF that(2,3)] that(1) by (auto simp: view_def lview_eq_None_iff)
  show "cut_at a (live s)"
    unfolding cut_at_def using nc [of _ a] ab by (meson covers_def less_imp_le not_le order.refl)
  have "vend v \<le> b" if v: "v \<in> set (live s)" "vstart v < b" for v
  proof (cases "vstart v \<le> a")
    case True
    then show ?thesis using nc [OF v(1) order.refl ab] ab by (auto simp: covers_def not_less intro: order.trans less_imp_le)
  next
    case False
    then have "a \<le> vstart v" by simp
    then show ?thesis using nc [OF v(1) _ v(2)] array_okD(10) [OF ok v(1)] by (simp add: covers_def)
  qed
  then show "cut_at b (live s)" by (auto simp: cut_at_def not_le)
qed

lemma isolated_removed:
  assumes iso: "isolated pm s e s2 xs ms ys"
  defines "s3 \<equiv> fold (\<lambda>i s. shm_close (shm_attachment (entries s ! i)) s)
                [length xs..<length xs + length ms] s2"
  defines "s4 \<equiv> move_entries s3 (length xs) (length xs + length ms) (vcount s3 - (length xs + length ms))"
  defines "s5 \<equiv> s4\<lparr>vcount := vcount s4 - (length xs + length ms - length xs)\<rparr>"
  shows "removed pm s e s5" "vcount s5 = length xs + length ys" "live s5 = xs @ ys"
proof -
  note i = iso [unfolded isolated_def]
  have parts: "array_ok pm s2" "live s2 = xs @ ms @ ys"
    "entries s2 = xs @ ms @ ys @ drop (vcount s2) (entries s2)"
    "vcount s2 = length xs + length ms + length ys" using i by blast+
  note rem = removed_middle [OF parts, folded s3_def, folded s4_def, folded s5_def]
  have "view s5 x = (if edit_start e \<le> x \<and> x < edit_end e then None else view s x)" for x
  proof -
    have "lview (xs @ [] @ ys) x = (if edit_start e \<le> x \<and> x < edit_end e then lview [] x else lview (xs @ ys) x)"
      using i by (intro lview_range) auto
    then show ?thesis using isolated_view [OF iso, of x] unfolding view_def [of s5] rem(2) by (auto split: if_splits)
  qed
  then show "removed pm s e s5" using rem i by (simp add: removed_def)
  show "vcount s5 = length xs + length ys" "live s5 = xs @ ys" using rem by blast+
qed

lemma removed_replace_room:
  assumes ok: "array_ok pm s" and iso: "isolated pm s e s2 xs ms ys" and lt: "edit_start e < edit_end e"
    and room: "edit_room s e" "edit_kind e = EDIT_REPLACE"
  shows "length xs + length ys < capacity s"
proof (cases "ms = []")
  case True
  then have none: "view s x = None" if "edit_start e \<le> x" "x < edit_end e" for x
    using isolated_view [OF iso, of x] that by simp
  then have "cut_at (edit_start e) (live s)" "cut_at (edit_end e) (live s)"
    using uncut_view [OF ok lt] by blast+
  then show ?thesis using iso room none True by (auto simp: isolated_def edit_room_def)
next
  case False
  have "array_ok pm s2" using iso by (simp add: isolated_def)
  then have "vcount s2 \<le> capacity s2" by (rule array_okD(4))
  moreover have "vcount s2 = length xs + length ms + length ys" "capacity s2 = capacity s"
    using iso by (simp_all add: isolated_def)
  ultimately show ?thesis using False by (cases ms) auto
qed

lemma replace_removed:
  assumes r: "removed pm s e s5" and k: "edit_kind e = EDIT_REPLACE" and fits: "edit_fits pm e (view s)"
    and room: "vcount s5 < capacity s"
  shows "\<exists>s6. (\<forall>h. insert_entry h s5 (edit_replacement e) = Some (VMA_OK, s6)) \<and> array_ok pm s6 \<and>
    view s6 = edit_view e (view s) \<and> self s6 = self s \<and> generation s6 = generation s \<and>
    capacity s \<le> capacity s6 \<and> vcount s6 \<le> vcount s + 3"
proof -
  let ?r = "edit_replacement e"
  have ar: "area_ok pm ?r" and bounds: "vstart ?r = edit_start e" "vend ?r = edit_end e"
    using fits k by (simp_all add: edit_fits_def)
  have ok5: "array_ok pm s5" using r by (simp add: removed_def)
  have "disjoint_from ?r (live s5)"
  proof -
    have lt: "edit_start e < edit_end e" using area_ok_start_less [OF ar] bounds by simp
    have "cut_at (edit_start e) (live s5)" "cut_at (edit_end e) (live s5)"
      using uncut_view [OF ok5 lt] r by (auto simp: removed_def)
    moreover have "\<not> (edit_start e \<le> vstart w \<and> vstart w < edit_end e)" if "w \<in> set (live s5)" for w
    proof
      assume "edit_start e \<le> vstart w \<and> vstart w < edit_end e"
      moreover have "view s5 (vstart w) = Some (attr_at w (vstart w))"
        using lview_covers [OF array_okD(8) [OF ok5] that] array_okD(10) [OF ok5 that]
        by (simp add: view_def covers_def)
      ultimately show False using r by (simp add: removed_def)
    qed
    ultimately show ?thesis unfolding disjoint_from_def bounds cut_at_def by (meson not_le)
  qed
  from insert_entry_cases [OF ok5 ar this] room obtain s6 where
    s6: "\<forall>h. insert_entry h s5 ?r = Some (VMA_OK, s6)" "inserted pm s5 ?r s6"
    using r by (auto simp: removed_def)
  moreover have "view s6 = edit_view e (view s)"
    using s6(2) r k by (auto simp: inserted_def removed_def edit_view_def covers_def bounds fun_eq_iff)
  ultimately show ?thesis using r by (auto simp: inserted_def removed_def)
qed

lemma commit_edit_spec:
  assumes ok: "array_ok pm s" and pm: "is_page_mask pm" and shape: "edit_shape pm e"
    and own: "edit_set e = self s" "edit_generation e = generation s"
    and fits: "edit_fits pm e (view s)" and room: "edit_room s e"
  shows "\<exists>s'. (\<forall>h. kernel_vma_set_commit_edit pm h s e = Some (VMA_OK, s')) \<and> edited pm s e s'"
proof -
  have lt: "edit_start e < edit_end e" using shape by (simp add: edit_shape_def)
  have guard: "set_valid s" using array_okD(7) [OF ok] .
  obtain s1 s2 xs ms ys where sp: "split_at s (edit_start e) = (VMA_OK, s1)"
    "split_at s1 (edit_end e) = (VMA_OK, s2)" and iso: "isolated pm s e s2 xs ms ys"
    by (rule commit_isolates [OF ok pm shape room])
  have lb: "lower_bound s2 (edit_start e) = length xs" "lower_bound s2 (edit_end e) = length xs + length ms"
    using iso by (simp_all add: isolated_def)
  show ?thesis
  proof (cases "edit_kind e = EDIT_PROTECT \<or> edit_kind e = EDIT_FLAGS")
    case True
    then have "edit_kind e \<noteq> EDIT_REPLACE" by auto
    then show ?thesis using commit_in_place [OF iso True fits] True guard own lt
      by (auto simp: kernel_vma_set_commit_edit_def sp lb Let_def)
  next
    case False
    define s3 where "s3 = fold (\<lambda>i s. shm_close (shm_attachment (entries s ! i)) s)
                [length xs..<length xs + length ms] s2"
    define s4 where "s4 = move_entries s3 (length xs) (length xs + length ms) (vcount s3 - (length xs + length ms))"
    define s5 where "s5 = s4\<lparr>vcount := vcount s4 - (length xs + length ms - length xs)\<rparr>"
    note rem = isolated_removed [OF iso, folded s3_def, folded s4_def, folded s5_def]
    have rep: "vma_valid pm (edit_replacement e)" "vstart (edit_replacement e) = edit_start e"
      "vend (edit_replacement e) = edit_end e" if "edit_kind e = EDIT_REPLACE"
      using fits that by (simp_all add: edit_fits_def area_ok_def)
    have run: "kernel_vma_set_commit_edit pm h s e = do {
              (st6, s6) \<leftarrow> (if edit_kind e = EDIT_REPLACE
                           then insert_entry h s5 (edit_replacement e) else Some (VMA_OK, s5));
              if st6 \<noteq> VMA_OK then Some (VMA_STATE, s6)
              else do {
                s7 \<leftarrow> recount_bytes (merge_all s6);
                Some (VMA_OK, s7\<lparr>generation := generation s7 + 1\<rparr>) } }" for h
      using False guard own unfolding kernel_vma_set_commit_edit_def sp lb Let_def
        s3_def [symmetric] s4_def [symmetric] s5_def [symmetric] prod.case
      by (auto simp: not_le [THEN iffD2, OF lt] rep)
    show ?thesis
    proof (cases "edit_kind e = EDIT_REPLACE")
      case True
      obtain s6 where s6: "\<And>h. insert_entry h s5 (edit_replacement e) = Some (VMA_OK, s6)"
        "array_ok pm s6" "view s6 = edit_view e (view s)" "self s6 = self s" "generation s6 = generation s"
        "capacity s \<le> capacity s6" "vcount s6 \<le> vcount s + 3"
        using replace_removed [OF rem(1) True fits] removed_replace_room [OF ok iso lt room True] rem(2) by auto
      then show ?thesis using merge_recount_edited [OF s6(2-6)] True by (auto simp: run)
    next
      case nr: False
      then have "edit_kind e = EDIT_REMOVE" using False by (cases "edit_kind e") auto
      then have "view s5 = edit_view e (view s)"
        using rem(1) by (auto simp: removed_def edit_view_def fun_eq_iff)
      then show ?thesis using merge_recount_edited [of pm s5 e s] rem(1) nr
        by (auto simp: run removed_def)
    qed
  qed
qed

end
