(* ===== verification/Vma_Query.thy ===== *)
theory Vma_Query
  imports Vma_Edit
begin

text \<open>
  The read-only operations of \<^verbatim>\<open>src/mm/vma.c\<close>: what \<^verbatim>\<open>lookup\<close>, \<^verbatim>\<open>next\<close>, \<^verbatim>\<open>overlaps\<close>,
  \<^verbatim>\<open>find_topdown_gap\<close>, \<^verbatim>\<open>range_is_covered\<close> and the locked-byte count answer, in terms of
  the view of the set.
\<close>

section \<open>Looking up an address\<close>

lemma lookup_spec:
  assumes ok: "array_ok pm s"
  shows "kernel_vma_set_lookup s a =
    (case find (\<lambda>v. covers v a) (live s) of None \<Rightarrow> Inl VMA_NOT_FOUND | Some v \<Rightarrow> Inr v)"
proof -
  note okD = array_okD [OF ok]
  obtain xs ys where l: "live s = xs @ ys" and i: "lower_bound s (after_address a) = length xs"
    and xs: "\<forall>v \<in> set xs. vstart v \<le> a" and ys: "\<forall>v \<in> set ys. a < vstart v"
    and es: "entries s = xs @ ys @ drop (vcount s) (entries s)"
    by (rule after_address_split [OF ok])
  have nys: "find (\<lambda>v. covers v a) ys = None"
    using ys by (auto simp: find_None_iff covers_def dest: leD)
  show ?thesis
  proof (cases xs rule: rev_cases)
    case Nil
    then show ?thesis using i l nys okD(7) by (simp add: kernel_vma_set_lookup_def)
  next
    case (snoc zs w)
    have w: "entries s ! (length xs - 1) = w" by (subst es) (simp add: snoc nth_append)
    have "\<not> covers z a" if "z \<in> set zs" for z
    proof -
      have "vend z \<le> vstart w" using okD(8) that unfolding l snoc by (simp add: ordered_simps)
      then show ?thesis using xs snoc by (auto simp: covers_def dest: order.trans leD)
    qed
    then have "find (\<lambda>v. covers v a) zs = None" by (simp add: find_None_iff)
    then have "find (\<lambda>v. covers v a) (live s) = (if covers w a then Some w else None)"
      using nys by (simp add: l snoc find_append)
    then show ?thesis using i w okD(7) xs snoc
      by (auto simp: kernel_vma_set_lookup_def covers_def not_less)
  qed
qed

lemma view_find: "view s a = map_option (\<lambda>v. attr_at v a) (find (\<lambda>v. covers v a) (live s))"
proof -
  have "lview vs a = map_option (\<lambda>v. attr_at v a) (find (\<lambda>v. covers v a) vs)" for vs
    by (induction vs) auto
  then show ?thesis by (simp add: view_def)
qed

lemma find_covers_iff:
  assumes "ordered vs"
  shows "find (\<lambda>v. covers v a) vs = Some v \<longleftrightarrow> v \<in> set vs \<and> covers v a"
proof
  assume "find (\<lambda>v. covers v a) vs = Some v"
  then show "v \<in> set vs \<and> covers v a" by (auto simp: find_Some_iff)
next
  assume v: "v \<in> set vs \<and> covers v a"
  then obtain w where w: "find (\<lambda>v. covers v a) vs = Some w"
    by (cases "find (\<lambda>v. covers v a) vs") (auto simp: find_None_iff)
  then have "w \<in> set vs" "covers w a" by (auto simp: find_Some_iff)
  then show "find (\<lambda>v. covers v a) vs = Some v"
    using w v ordered_covers_unique [OF assms] by blast
qed

section \<open>Overlap\<close>

lemma disjoint_view:
  assumes ok: "array_ok pm s" and v: "vstart v < vend v"
  shows "disjoint_from v (live s) \<longleftrightarrow> (\<forall>x. covers v x \<longrightarrow> view s x = None)"
proof
  note okD = array_okD [OF ok]
  assume free: "\<forall>x. covers v x \<longrightarrow> view s x = None"
  show "disjoint_from v (live s)"
    unfolding disjoint_from_def
  proof (rule ballI, rule ccontr)
    fix w assume w: "w \<in> set (live s)" and n: "\<not> (vend w \<le> vstart v \<or> vend v \<le> vstart w)"
    let ?x = "max (vstart v) (vstart w)"
    have c: "covers w ?x" "covers v ?x" using n okD(10) [OF w] v by (auto simp: covers_def max_def)
    have "view s ?x \<noteq> None" using lview_covers [OF okD(8) w c(1)] by (simp add: view_def)
    moreover have "view s ?x = None" using c(2) by (rule free [rule_format])
    ultimately show False by (rule notE)
  qed
next
  assume d: "disjoint_from v (live s)"
  have "\<not> covers w x" if x: "covers v x" and w: "w \<in> set (live s)" for x w
  proof
    assume "covers w x"
    with x have "vstart v < vend w" "vstart w < vend v"
      by (auto simp: covers_def intro: order.strict_trans1)
    then show False using d w by (auto simp: disjoint_from_def dest: leD)
  qed
  then show "\<forall>x. covers v x \<longrightarrow> view s x = None" by (simp add: view_def lview_eq_None_iff)
qed

lemma overlaps_spec:
  assumes ok: "array_ok pm s" and ab: "a < b"
  shows "kernel_vma_set_overlaps s a b = Inr (\<exists>x. a \<le> x \<and> x < b \<and> view s x \<noteq> None)"
proof -
  note okD = array_okD [OF ok]
  obtain xs ys where l: "live s = xs @ ys" and i: "lower_bound s a = length xs"
    and xs: "\<forall>w \<in> set xs. vstart w < a" and ys: "\<forall>w \<in> set ys. a \<le> vstart w"
    and es: "entries s = xs @ ys @ drop (vcount s) (entries s)" and n: "vcount s = length xs + length ys"
    by (rule lower_bound_split [OF ok])
  let ?v = "vma_zero\<lparr>vstart := a, vend := b\<rparr>"
  have nx: "xs \<noteq> [] \<Longrightarrow> entries s ! (length xs - 1) = last xs"
    by (subst es) (simp add: nth_append last_conv_nth)
  have ny: "ys \<noteq> [] \<Longrightarrow> entries s ! length xs = hd ys"
    by (subst es) (simp add: nth_append hd_conv_nth)
  have "((xs \<noteq> [] \<and> a < vend (last xs)) \<or> (ys \<noteq> [] \<and> vstart (hd ys) < b)) \<longleftrightarrow> \<not> disjoint_from ?v (live s)"
    using neighbour_tests [of xs ys ?v] okD(8) xs ys ab l by simp
  moreover have "\<not> disjoint_from ?v (live s) \<longleftrightarrow> (\<exists>x. a \<le> x \<and> x < b \<and> view s x \<noteq> None)"
    using disjoint_view [OF ok, of ?v] ab by (auto simp: covers_def)
  moreover have "((0 < length xs \<and> a < vend (entries s ! (length xs - 1))) \<or>
      (length xs < vcount s \<and> vstart (entries s ! length xs) < b)) \<longleftrightarrow>
      (xs \<noteq> [] \<and> a < vend (last xs)) \<or> (ys \<noteq> [] \<and> vstart (hd ys) < b)"
    using nx ny n by auto
  ultimately show ?thesis
    using okD(7) ab unfolding kernel_vma_set_overlaps_def Let_def i by simp
qed

section \<open>The highest hole\<close>

definition hole :: "vma list \<Rightarrow> u64 \<Rightarrow> u64 \<Rightarrow> bool" where
  "hole vs g len \<longleftrightarrow> (\<forall>v \<in> set vs. unat g + unat len \<le> unat (vstart v) \<or> unat (vend v) \<le> unat g)"

lemma hole_view:
  assumes "ordered (live s)" "\<forall>v \<in> set (live s). vstart v < vend v" "0 < len"
  shows "hole (live s) g len \<longleftrightarrow> (\<forall>x. unat g \<le> unat x \<and> unat x < unat g + unat len \<longrightarrow> view s x = None)"
proof
  assume h: "hole (live s) g len"
  have "\<not> covers v x" if "unat g \<le> unat x" "unat x < unat g + unat len" "v \<in> set (live s)" for x v
  proof -
    have "unat g + unat len \<le> unat (vstart v) \<or> unat (vend v) \<le> unat g" using h that(3) by (simp add: hole_def)
    then show ?thesis using that(1,2) unfolding covers_def word_le_nat_alt word_less_nat_alt by linarith
  qed
  then show "\<forall>x. unat g \<le> unat x \<and> unat x < unat g + unat len \<longrightarrow> view s x = None"
    by (simp add: view_def lview_eq_None_iff)
next
  assume free: "\<forall>x. unat g \<le> unat x \<and> unat x < unat g + unat len \<longrightarrow> view s x = None"
  show "hole (live s) g len"
    unfolding hole_def
  proof (rule ballI, rule ccontr)
    fix v assume v: "v \<in> set (live s)"
      and n: "\<not> (unat g + unat len \<le> unat (vstart v) \<or> unat (vend v) \<le> unat g)"
    let ?x = "if unat g \<le> unat (vstart v) then vstart v else g"
    have lt: "unat (vstart v) < unat (vend v)" using assms(2) v by (simp add: word_less_nat_alt)
    have "covers v ?x" using n lt by (simp add: covers_def word_le_nat_alt word_less_nat_alt)
    then have "view s ?x \<noteq> None" using lview_covers [OF assms(1) v] by (simp add: view_def)
    moreover have "unat g \<le> unat ?x" "unat ?x < unat g + unat len"
      using n assms(3) by (simp_all add: word_less_nat_alt)
    then have "view s ?x = None" by (rule free [rule_format, OF conjI])
    ultimately show False by (rule notE)
  qed
qed

lemma fits_iff: "lo \<le> cursor \<and> len \<le> cursor - lo \<longleftrightarrow> unat lo + unat (len :: u64) \<le> unat cursor"
proof (cases "lo \<le> cursor")
  case True
  have "unat lo \<le> unat cursor" using True by (simp add: word_le_nat_alt)
  then show ?thesis using True unat_diff_le [OF True] unfolding word_le_nat_alt by linarith
next
  case False
  then have "\<not> unat lo \<le> unat cursor" by (simp add: word_le_nat_alt)
  then show ?thesis using False by linarith
qed

text \<open>The answer of the scan below \<open>cursor\<close>: the highest hole there, or none.\<close>

definition best_below :: "vma list \<Rightarrow> u64 \<Rightarrow> u64 \<Rightarrow> nat \<Rightarrow> u64 option \<Rightarrow> bool" where
  "best_below vs lower len lim r \<longleftrightarrow>
     (case r of
        Some g \<Rightarrow> unat lower \<le> unat g \<and> unat g + unat len \<le> lim \<and> hole vs g len \<and>
          (\<forall>g'. unat lower \<le> unat g' \<and> unat g' + unat len \<le> lim \<and> hole vs g' len \<longrightarrow> unat g' \<le> unat g)
      | None \<Rightarrow> \<not> (\<exists>g'. unat lower \<le> unat g' \<and> unat g' + unat len \<le> lim \<and> hole vs g' len))"

lemma best_at_cursor:
  assumes "unat lower + unat len \<le> unat cursor" "\<forall>v \<in> set vs. cursor \<le> vstart v \<or> unat (vend v) + unat len \<le> unat cursor"
  shows "best_below vs lower len (unat cursor) (Some (cursor - len))"
proof -
  have "len \<le> cursor" using assms(1) by (simp add: word_le_nat_alt)
  then have u: "unat (cursor - len) + unat len = unat cursor"
    using assms(1) by (simp add: unat_diff_le)
  have "hole vs (cursor - len) len" unfolding hole_def u
  proof
    fix v assume "v \<in> set vs"
    with assms(2) have "unat cursor \<le> unat (vstart v) \<or> unat (vend v) + unat len \<le> unat cursor"
      by (simp add: word_le_nat_alt)
    then show "unat cursor \<le> unat (vstart v) \<or> unat (vend v) \<le> unat (cursor - len)" using u by linarith
  qed
  then show ?thesis using u assms(1) by (auto simp: best_below_def)
qed

lemma best_none: "\<not> unat lower + unat len \<le> lim \<Longrightarrow> best_below vs lower len lim None"
  by (auto simp: best_below_def)

lemma best_lower_top:
  assumes "best_below vs lower len lim' r" "lim' \<le> lim"
    and "\<And>g. unat lower \<le> unat g \<Longrightarrow> unat g + unat len \<le> lim \<Longrightarrow> hole vs g len \<Longrightarrow> unat g + unat len \<le> lim'"
  shows "best_below vs lower len lim r"
proof (cases r)
  case None
  then show ?thesis using assms(1,3) by (auto simp: best_below_def)
next
  case (Some g)
  then show ?thesis using assms by (auto simp: best_below_def)
qed

text \<open>
  The scan keeps \<open>cursor\<close> at or below the start of every slot already passed, so the space between
  the slot under inspection and \<open>cursor\<close> is free.
\<close>

lemma topdown_loop_spec:
  assumes vs: "ordered vs" "\<forall>v \<in> set vs. vstart v < vend v" and len: "0 < len"
    and es: "\<And>j. j < length vs \<Longrightarrow> es ! j = vs ! j"
    and "i \<le> length vs" "cursor \<le> upper" "\<forall>v \<in> set (drop i vs). cursor \<le> vstart v"
  shows "best_below vs lower len (unat cursor) (topdown_loop es lower upper len i cursor)"
  using assms(5-7)
proof (induction i arbitrary: cursor)
  case 0
  then show ?case using best_at_cursor [of lower len cursor vs] best_none [of lower len "unat cursor" vs]
    by (simp add: fits_iff)
next
  case (Suc i)
  let ?e = "vs ! i"
  have e: "es ! i = ?e" "?e \<in> set vs" using Suc.prems(1) es by auto
  have dr: "drop i vs = ?e # drop (Suc i) vs" using Suc.prems(1) by (simp add: Cons_nth_drop_Suc)
  have parts: "vs = take i vs @ ?e # drop (Suc i) vs" using Suc.prems(1) by (simp add: id_take_nth_drop)
  have bl: "vend v \<le> vstart ?e" if "v \<in> set (take i vs)" for v
    using vs(1) that by (subst (asm) parts) (simp add: ordered_simps)
  have lt: "unat (vstart ?e) < unat (vend ?e)" using vs(2) e(2) by (simp add: word_less_nat_alt)
  have sides: "cursor \<le> vstart v \<or> unat (vend v) \<le> unat (vend ?e)" if "v \<in> set vs" for v
  proof -
    from that parts consider "v \<in> set (take i vs)" | "v = ?e" | "v \<in> set (drop (Suc i) vs)"
      by (metis Un_iff list.set(2) insertE set_append)
    then show ?thesis
    proof cases
      case 1
      then have "unat (vend v) \<le> unat (vstart ?e)" using bl by (simp add: word_le_nat_alt)
      then show ?thesis using lt by linarith
    qed (use Suc.prems(3) in auto)
  qed
  have sat: "cursor \<le> vstart v \<or> unat (vend v) + unat len \<le> unat cursor"
    if "v \<in> set vs" "unat (vend ?e) + unat len \<le> unat cursor" for v
    using sides [OF that(1)] that(2) by linarith
  consider "upper \<le> vstart ?e" | "\<not> upper \<le> vstart ?e" "vend ?e \<le> lower"
    | "\<not> upper \<le> vstart ?e" "\<not> vend ?e \<le> lower" by blast
  then show ?case
  proof cases
    case 1
    then have "cursor \<le> vstart ?e" using Suc.prems(2) by (rule order.trans [rotated])
    then show ?thesis using Suc.IH [of cursor] Suc.prems dr 1 by (simp add: e)
  next
    case 2
    have "unat (vend ?e) \<le> unat lower" using 2(2) by (simp add: word_le_nat_alt)
    then have "best_below vs lower len (unat cursor) (Some (cursor - len))" if "unat lower + unat len \<le> unat cursor"
      using that sat by (intro best_at_cursor) auto
    then show ?thesis using 2 best_none [of lower len "unat cursor" vs] by (simp add: e fits_iff Let_def)
  next
    case 3
    then have gs: "(if lower < vend ?e then vend ?e else lower) = vend ?e" by (simp add: not_le)
    have ge: "unat lower \<le> unat (vend ?e)" using 3(2) by (simp add: not_le word_less_nat_alt)
    have test: "vend ?e < cursor \<and> len \<le> cursor - vend ?e \<longleftrightarrow> unat (vend ?e) + unat len \<le> unat cursor"
    proof (cases "vend ?e < cursor")
      case True
      then show ?thesis using fits_iff [of "vend ?e" cursor len] by (simp add: less_imp_le)
    next
      case False
      then have "unat cursor \<le> unat (vend ?e)" "0 < unat len" using len by (simp_all add: word_less_nat_alt)
      then show ?thesis using False by linarith
    qed
    show ?thesis
    proof (cases "unat (vend ?e) + unat len \<le> unat cursor")
      case True
      then have "best_below vs lower len (unat cursor) (Some (cursor - len))"
        using ge sat by (intro best_at_cursor) auto
      then show ?thesis using 3 True by (simp add: e gs test Let_def)
    next
      case False
      let ?c = "if vstart ?e < cursor then vstart ?e else cursor"
      have c: "unat ?c = min (unat (vstart ?e)) (unat cursor)" by (auto simp: word_less_nat_alt)
      have rec: "best_below vs lower len (unat ?c) (topdown_loop es lower upper len i ?c)"
      proof (rule Suc.IH)
        show "?c \<le> upper" using Suc.prems(2) by (auto intro: order.trans less_imp_le)
        show "\<forall>v \<in> set (drop i vs). ?c \<le> vstart v"
          using Suc.prems(3) unfolding dr by (auto intro: order.trans less_imp_le)
      qed (use Suc.prems(1) in simp)
      have room: "unat g + unat len \<le> unat ?c"
        if "unat lower \<le> unat g" "unat g + unat len \<le> unat cursor" "hole vs g len" for g
      proof -
        have "unat g + unat len \<le> unat (vstart ?e) \<or> unat (vend ?e) \<le> unat g"
          using that(3) e(2) by (simp add: hole_def)
        then show ?thesis using that(2) False unfolding c by linarith
      qed
      have "unat ?c \<le> unat cursor" unfolding c by (rule min.cobounded2)
      from best_lower_top [OF rec this room]
      have "best_below vs lower len (unat cursor) (topdown_loop es lower upper len i ?c)" .
      then show ?thesis using 3 False by (simp add: e gs test Let_def)
    qed
  qed
qed

lemma find_topdown_gap_cases:
  assumes ok: "array_ok pm s" and args: "lower < upper" "0 < len" "len \<le> upper - lower"
  shows "(\<exists>r. best_below (live s) lower len (unat upper) r \<and>
      kernel_vma_set_find_topdown_gap s hint lower upper len =
        (case r of Some g \<Rightarrow> Inr g | None \<Rightarrow> Inl VMA_NOT_FOUND)) \<or>
    kernel_vma_set_find_topdown_gap s hint lower upper len = Inr hint \<and> lower \<le> hint \<and>
      unat hint + unat len \<le> unat upper \<and> hole (live s) hint len"
proof -
  note okD = array_okD [OF ok]
  have n: "length (live s) = vcount s" by (rule array_ok_live_length [OF ok])
  have valid: "\<not> (\<not> set_valid s \<or> upper \<le> lower \<or> len = 0 \<or> upper - lower < len)"
    using args okD(7) by (auto dest: leD)
  have scan: "best_below (live s) lower len (unat upper)
      (topdown_loop (entries s) lower upper len (vcount s) upper)"
  proof (rule topdown_loop_spec)
    show "entries s ! j = live s ! j" if "j < length (live s)" for j
      using that n by (simp add: live_def)
  qed (use okD(8,10) args n in auto)
  show ?thesis
  proof (cases "lower \<le> hint \<and> hint \<le> upper - len \<and> kernel_vma_set_overlaps s hint (hint + len) = Inr False")
    case False
    then have "kernel_vma_set_find_topdown_gap s hint lower upper len =
        (case topdown_loop (entries s) lower upper len (vcount s) upper of
           Some g \<Rightarrow> Inr g | None \<Rightarrow> Inl VMA_NOT_FOUND)"
      unfolding kernel_vma_set_find_topdown_gap_def if_not_P [OF False] if_not_P [OF valid]
      by (simp split: option.splits)
    then show ?thesis using scan by blast
  next
    case True
    have "unat lower + unat len \<le> unat upper" using fits_iff [of lower upper len] args(3) less_imp_le [OF args(1)] by blast
    then have le: "len \<le> upper" by (simp add: word_le_nat_alt)
    have u: "unat hint + unat len \<le> unat upper"
      using True fits_iff [of len upper hint] le by (simp add: add.commute)
    have "unat hint + unat len < 2 ^ LENGTH(64)" using u unsigned_less [of upper] by (rule order.strict_trans1)
    then have sum: "unat (hint + len) = unat hint + unat len" by (rule unat_add_no_wrap)
    have lt: "hint < hint + len" using args(2) by (simp add: word_less_nat_alt sum)
    have none: "view s x = None" if "unat hint \<le> unat x" "unat x < unat hint + unat len" for x
    proof -
      have "hint \<le> x" "x < hint + len" using that by (simp_all add: word_le_nat_alt word_less_nat_alt sum)
      then show ?thesis using True overlaps_spec [OF ok lt] by auto
    qed
    have "hole (live s) hint len"
      by (rule iffD2 [OF hole_view]) (use okD(8,10) args(2) none in auto)
    moreover have "kernel_vma_set_find_topdown_gap s hint lower upper len = Inr hint"
      unfolding kernel_vma_set_find_topdown_gap_def if_P [OF True] if_not_P [OF valid] by (rule refl)
    ultimately show ?thesis using u True by blast
  qed
qed

section \<open>Coverage of a range\<close>

lemma first_slot_split:
  assumes ok: "array_ok pm s"
  obtains xs ys where "live s = xs @ ys" "first_slot s a = length xs"
    "\<forall>v \<in> set xs. vend v \<le> a" "\<forall>v \<in> set ys. a < vend v"
    "entries s = xs @ ys @ drop (vcount s) (entries s)" "vcount s = length xs + length ys"
proof -
  note okD = array_okD [OF ok]
  obtain xs ys where l: "live s = xs @ ys" and i: "lower_bound s a = length xs"
    and xs: "\<forall>w \<in> set xs. vstart w < a" and ys: "\<forall>w \<in> set ys. a \<le> vstart w"
    and es: "entries s = xs @ ys @ drop (vcount s) (entries s)" and n: "vcount s = length xs + length ys"
    by (rule lower_bound_split [OF ok])
  have ys': "\<forall>w \<in> set ys. a < vend w" using ys okD(10) l by (auto intro: order.strict_trans1)
  show ?thesis
  proof (cases xs rule: rev_cases)
    case Nil
    then show ?thesis using that [of xs ys] l i ys' es n by (simp add: first_slot_def)
  next
    case (snoc zs w)
    have w: "entries s ! (length xs - 1) = w" by (subst es) (simp add: snoc nth_append)
    have zs: "vend z \<le> a" if "z \<in> set zs" for z
    proof -
      have "vend z \<le> vstart w" using okD(8) that unfolding l snoc by (simp add: ordered_simps)
      then show ?thesis using xs snoc by (auto intro: order.trans less_imp_le)
    qed
    show ?thesis
    proof (cases "a < vend w")
      case True
      show ?thesis using that [of zs "w # ys"] l i ys' es n zs w True snoc by (simp add: first_slot_def)
    next
      case False
      show ?thesis using that [of xs ys] l i ys' es n zs w False snoc by (auto simp: first_slot_def)
    qed
  qed
qed

lemma covered_loop_spec:
  assumes ok: "array_ok pm s" and l: "live s = xs @ ys" and c: "\<forall>v \<in> set ys. cursor < vend v"
  shows "covered_loop s b (length xs) cursor \<longleftrightarrow> (\<forall>x. cursor \<le> x \<and> x < b \<longrightarrow> lview ys x \<noteq> None)"
  using l c
proof (induction ys arbitrary: xs cursor)
  case Nil
  have "vcount s = length xs" using live_split(2) [OF ok Nil(1)] by simp
  then show ?case by (subst covered_loop.simps) (auto simp: not_le)
next
  case (Cons v ys)
  note IH = Cons.IH and prems = Cons.prems
  have n: "length xs < vcount s" and e: "entries s ! length xs = v"
    using live_split [OF ok prems(1)] by (auto, metis append_Cons nth_append_length)
  have ord: "ordered (v # ys)" using array_okD(8) [OF ok] prems(1) by (simp add: ordered_simps)
  have step: "covered_loop s b (Suc (length xs)) (vend v) \<longleftrightarrow>
      (\<forall>x. vend v \<le> x \<and> x < b \<longrightarrow> lview ys x \<noteq> None)"
    using IH [of "xs @ [v]" "vend v"] prems(1) ord array_okD(10) [OF ok]
    by (auto simp: ordered_simps intro: order.strict_trans1)
  consider "b \<le> cursor" | "cursor < b" "cursor < vstart v" | "cursor < b" "vstart v \<le> cursor"
    by (meson not_le)
  then show ?case
  proof cases
    case 1
    then show ?thesis by (subst covered_loop.simps) (auto dest: leD intro: order.strict_trans1)
  next
    case 2
    have "lview (v # ys) cursor = None"
      using 2(2) ord by (auto simp: lview_eq_None_iff covers_def ordered_simps dest: leD order.strict_trans2)
    then have "\<not> (\<forall>x. cursor \<le> x \<and> x < b \<longrightarrow> lview (v # ys) x \<noteq> None)" using 2(1) by blast
    moreover have "\<not> covered_loop s b (length xs) cursor" using 2 n e by (subst covered_loop.simps) simp
    ultimately show ?thesis by blast
  next
    case 3
    have "\<not> (cursor < vstart v \<or> vend v \<le> cursor)" using prems(2) 3(2) by (simp add: not_le not_less)
    then have "covered_loop s b (length xs) cursor = covered_loop s b (Suc (length xs)) (vend v)"
      using 3(1) n e by (subst covered_loop.simps) simp
    also have "\<dots> \<longleftrightarrow> (\<forall>x. cursor \<le> x \<and> x < b \<longrightarrow> lview (v # ys) x \<noteq> None)"
      unfolding step
    proof (intro iffI allI impI)
      fix x assume h: "\<forall>x. vend v \<le> x \<and> x < b \<longrightarrow> lview ys x \<noteq> None" and x: "cursor \<le> x \<and> x < b"
      show "lview (v # ys) x \<noteq> None"
        using h x 3(2) by (cases "vend v \<le> x") (auto simp: covers_def not_le intro: order.trans)
    next
      fix x assume h: "\<forall>x. cursor \<le> x \<and> x < b \<longrightarrow> lview (v # ys) x \<noteq> None" and x: "vend v \<le> x \<and> x < b"
      have "cursor \<le> x" using x prems(2) by (auto intro: order.trans less_imp_le)
      then have "lview (v # ys) x \<noteq> None" using h x by blast
      then show "lview ys x \<noteq> None" using x by (auto simp: covers_def split: if_splits dest: leD)
    qed
    finally show ?thesis .
  qed
qed

lemma range_is_covered_spec:
  assumes ok: "array_ok pm s"
  shows "range_is_covered s a b \<longleftrightarrow> (\<forall>x. a \<le> x \<and> x < b \<longrightarrow> view s x \<noteq> None)"
proof -
  obtain xs ys where l: "live s = xs @ ys" and f: "first_slot s a = length xs"
    and xs: "\<forall>v \<in> set xs. vend v \<le> a" and ys: "\<forall>v \<in> set ys. a < vend v"
    by (rule first_slot_split [OF ok])
  have "view s x = lview ys x" if "a \<le> x" for x
    using lview_below [OF xs that] by (simp add: view_def l lview_append)
  then show ?thesis
    unfolding range_is_covered_def f covered_loop_spec [OF ok l ys] by auto
qed

lemma permission_loop_spec:
  assumes ok: "array_ok pm s" and l: "live s = xs @ ys"
  shows "permission_loop s b perms (length xs) \<longleftrightarrow>
    (\<forall>v \<in> set ys. vstart v < b \<longrightarrow> perms AND VMA_ALL_PERMISSIONS AND NOT (maximum_permissions v) = 0)"
  using l
proof (induction ys arbitrary: xs)
  case Nil
  have "vcount s = length xs" using live_split(2) [OF ok Nil(1)] by simp
  then show ?case by (subst permission_loop.simps) simp
next
  case (Cons v ys)
  have n: "length xs < vcount s" and e: "entries s ! length xs = v"
    using live_split [OF ok Cons.prems(1)] by (auto, metis append_Cons nth_append_length)
  have late: "b \<le> vstart w" if "b \<le> vstart v" "w \<in> set ys" for w
  proof -
    have "vend v \<le> vstart w" "vstart v < vend v"
      using array_okD(8,10) [OF ok] that(2) Cons.prems by (auto simp: ordered_simps)
    then show ?thesis using that(1) by (auto intro: order.trans less_imp_le)
  qed
  show ?case
  proof (cases "vstart v < b")
    case True
    then show ?thesis using n e Cons.IH [of "xs @ [v]"] Cons.prems by (subst permission_loop.simps) simp
  next
    case False
    then have "\<forall>w \<in> set (v # ys). \<not> vstart w < b" using late by (auto simp: not_less)
    then show ?thesis using False n e by (subst permission_loop.simps) simp
  qed
qed

lemma permission_scan_spec:
  assumes ok: "array_ok pm s" and ab: "a < b"
  shows "permission_loop s b perms (first_slot s a) \<longleftrightarrow>
    (\<forall>x t. a \<le> x \<and> x < b \<and> view s x = Some t \<longrightarrow> perms AND VMA_ALL_PERMISSIONS AND NOT (at_maximum t) = 0)"
proof -
  obtain xs ys where l: "live s = xs @ ys" and f: "first_slot s a = length xs"
    and xs: "\<forall>v \<in> set xs. vend v \<le> a" and ys: "\<forall>v \<in> set ys. a < vend v"
    by (rule first_slot_split [OF ok])
  have ord: "ordered ys" using array_okD(8) [OF ok] l by (simp add: ordered_simps)
  have v: "view s x = lview ys x" if "a \<le> x" for x
    using lview_below [OF xs that] by (simp add: view_def l lview_append)
  show ?thesis unfolding f permission_loop_spec [OF ok l]
  proof (intro iffI allI impI ballI)
    fix x t assume h: "\<forall>v \<in> set ys. vstart v < b \<longrightarrow> perms AND VMA_ALL_PERMISSIONS AND NOT (maximum_permissions v) = 0"
      and x: "a \<le> x \<and> x < b \<and> view s x = Some t"
    then have "lview ys x = Some t" using v [of x] by simp
    then obtain w where w: "w \<in> set ys" "covers w x" "t = attr_at w x" by (auto dest: lview_Some_covers)
    then have "vstart w < b" using x by (auto simp: covers_def intro: order.strict_trans1)
    then have "perms AND VMA_ALL_PERMISSIONS AND NOT (maximum_permissions w) = 0" using h w(1) by blast
    then show "perms AND VMA_ALL_PERMISSIONS AND NOT (at_maximum t) = 0" by (simp add: w(3) attr_at_def)
  next
    fix w assume h: "\<forall>x t. a \<le> x \<and> x < b \<and> view s x = Some t \<longrightarrow> perms AND VMA_ALL_PERMISSIONS AND NOT (at_maximum t) = 0"
      and w: "w \<in> set ys" "vstart w < b"
    let ?x = "max a (vstart w)"
    have "covers w ?x" using ys w(1) array_okD(10) [OF ok] l by (auto simp: covers_def max_def)
    then have "view s ?x = Some (attr_at w ?x)" using lview_covers [OF ord w(1)] v [of ?x] by simp
    moreover have "a \<le> ?x" "?x < b" using ab w(2) by (auto simp: max_def)
    ultimately have "perms AND VMA_ALL_PERMISSIONS AND NOT (at_maximum (attr_at w ?x)) = 0" using h by blast
    then show "perms AND VMA_ALL_PERMISSIONS AND NOT (maximum_permissions w) = 0" by (simp add: attr_at_def)
  qed
qed

section \<open>Locked bytes of a range\<close>

lemma card_word_range: "card {x :: u64. lo \<le> x \<and> x < hi} = unat hi - unat lo"
proof -
  have "unat ` {x. lo \<le> x \<and> x < hi} = {unat lo..<unat hi}"
  proof (intro equalityI subsetI)
    fix n assume n: "n \<in> {unat lo..<unat hi}"
    then have "n < 2 ^ LENGTH(64)" using unsigned_less [of hi] by (auto intro: order.strict_trans)
    then have "unat (of_nat n :: u64) = n" by (simp add: unat_of_nat)
    then show "n \<in> unat ` {x. lo \<le> x \<and> x < hi}"
      using n by (intro image_eqI [of _ _ "of_nat n"]) (simp_all add: word_le_nat_alt word_less_nat_alt)
  qed (auto simp: word_le_nat_alt word_less_nat_alt)
  moreover have "card (unat ` {x. lo \<le> x \<and> x < hi}) = card {x. lo \<le> x \<and> x < hi}"
    by (rule card_image, rule inj_onI, rule unsigned_word_eqI)
  ultimately show ?thesis by (simp only: card_atLeastLessThan)
qed

definition locked_in :: "vma list \<Rightarrow> u64 \<Rightarrow> u64 \<Rightarrow> u64 set" where
  "locked_in vs a b = {x. a \<le> x \<and> x < b \<and> (\<exists>v \<in> set vs. covers v x \<and> vflags v AND VMA_LOCKED \<noteq> 0)}"

lemma locked_in_late:
  "ordered vs \<Longrightarrow> \<forall>v \<in> set vs. b \<le> vstart v \<Longrightarrow> locked_in vs a b = {}"
  by (auto simp: locked_in_def covers_def dest: order.strict_trans1 leD)

lemma locked_range_loop_spec:
  assumes "ordered vs" "\<forall>v \<in> set vs. vstart v < vend v" "a < b" "unat bytes + card (locked_in vs a b) < 2 ^ 64"
  shows "unat (locked_range_loop vs a b bytes) = unat bytes + card (locked_in vs a b)"
  using assms(1,2,4)
proof (induction vs arbitrary: bytes)
  case Nil
  then show ?case by (simp add: locked_in_def)
next
  case (Cons v vs)
  have ord: "ordered vs" "\<forall>w \<in> set vs. vend v \<le> vstart w" using Cons.prems(1) by (auto simp: ordered_simps)
  have pos: "\<forall>w \<in> set vs. vstart w < vend w" "vstart v < vend v" using Cons.prems(2) by auto
  have fin: "finite (locked_in us a b)" for us by simp
  have split: "locked_in (v # vs) a b = locked_in [v] a b \<union> locked_in vs a b" by (auto simp: locked_in_def)
  have dis: "locked_in [v] a b \<inter> locked_in vs a b = {}"
    using ord(2) by (auto simp: locked_in_def covers_def dest: order.strict_trans2 order.trans leD)
  have card: "card (locked_in (v # vs) a b) = card (locked_in [v] a b) + card (locked_in vs a b)"
    unfolding split by (rule card_Un_disjoint [OF fin fin dis])
  show ?case
  proof (cases "b \<le> vstart v")
    case True
    have "\<forall>w \<in> set (v # vs). b \<le> vstart w"
      using True ord(2) pos(2) by (auto intro: order.trans less_imp_le)
    then show ?thesis using locked_in_late [OF Cons.prems(1)] True by simp
  next
    case False
    show ?thesis
    proof (cases "vend v \<le> a \<or> vflags v AND VMA_LOCKED = 0")
      case True
      then have "locked_in [v] a b = {}"
        by (auto simp: locked_in_def covers_def dest: order.strict_trans2 leD)
      then show ?thesis using False True card Cons.IH [OF ord(1) pos(1)] Cons.prems(3) by simp
    next
      case in_range: False
      let ?lo = "if a < vstart v then vstart v else a" and ?hi = "if vend v < b then vend v else b"
      have "locked_in [v] a b = {x. ?lo \<le> x \<and> x < ?hi}"
        using in_range by (auto simp: locked_in_def covers_def not_less intro: order.trans less_imp_le order.strict_trans2 order.strict_trans)
      then have c: "card (locked_in [v] a b) = unat ?hi - unat ?lo" by (simp only: card_word_range)
      have "?lo \<le> ?hi" using in_range False assms(3) pos(2) by (auto simp: not_le intro: less_imp_le)
      then have u: "unat (?hi - ?lo) = unat ?hi - unat ?lo" by (rule unat_diff_le)
      have fit: "unat bytes + unat (?hi - ?lo) + card (locked_in vs a b) < 2 ^ 64"
        using Cons.prems(3) card c u by simp
      then have "unat bytes + unat (?hi - ?lo) < 2 ^ LENGTH(64)" by simp
      then have s: "unat (bytes + (?hi - ?lo)) = unat bytes + unat (?hi - ?lo)" by (rule unat_add_no_wrap)
      have "unat (locked_range_loop vs a b (bytes + (?hi - ?lo)))
          = unat (bytes + (?hi - ?lo)) + card (locked_in vs a b)"
        using fit by (intro Cons.IH ord(1) pos(1)) (simp only: s)
      then show ?thesis using False in_range card c u s by (simp add: Let_def)
    qed
  qed
qed

end
