(* ===== verification/Kernel_Interface.thy ===== *)
theory Kernel_Interface
  imports Kernel_Prelude
begin

text \<open>
  The contract that the kernel's mutable tables share. An operation always returns, keeps the
  invariant of the table, and is failure-atomic: when it reports success the abstract contents
  change as its specification says, and when it reports an error they do not change at all.
  Clients may then replay any history of calls on the abstract contents.
\<close>

fun run_all :: "('r \<Rightarrow> 's \<Rightarrow> (bool \<times> 's) option) \<Rightarrow> 'r list \<Rightarrow> 's \<Rightarrow> (bool list \<times> 's) option" where
  "run_all step [] s = Some ([], s)"
| "run_all step (r # rs) s =
     (case step r s of
        None \<Rightarrow> None
      | Some (done, s1) \<Rightarrow> map_option (\<lambda>(ds, s2). (done # ds, s2)) (run_all step rs s1))"

fun replay :: "('r \<Rightarrow> 'o \<Rightarrow> 'o) \<Rightarrow> 'r list \<Rightarrow> bool list \<Rightarrow> 'o \<Rightarrow> 'o" where
  "replay meaning (r # rs) (d # ds) m = replay meaning rs ds (if d then meaning r m else m)"
| "replay meaning _ _ m = m"

locale atomic_object =
  fixes ok :: "'s \<Rightarrow> bool"
    and contents :: "'s \<Rightarrow> 'o"
    and admissible :: "'r \<Rightarrow> bool"
    and step :: "'r \<Rightarrow> 's \<Rightarrow> (bool \<times> 's) option"
    and meaning :: "'r \<Rightarrow> 'o \<Rightarrow> 'o"
  assumes step_atomic: "ok s \<Longrightarrow> admissible r \<Longrightarrow>
    \<exists>d s'. step r s = Some (d, s') \<and> ok s' \<and>
      contents s' = (if d then meaning r (contents s) else contents s)"
begin

lemma step_keeps_ok: "ok s \<Longrightarrow> admissible r \<Longrightarrow> step r s = Some (d, s') \<Longrightarrow> ok s'"
  using step_atomic by fastforce

lemma step_failure: "ok s \<Longrightarrow> admissible r \<Longrightarrow> step r s = Some (False, s') \<Longrightarrow> contents s' = contents s"
  using step_atomic by fastforce

lemma history_replays:
  assumes "ok s" "list_all admissible rs"
  shows "\<exists>ds s'. run_all step rs s = Some (ds, s') \<and> length ds = length rs \<and> ok s' \<and>
    contents s' = replay meaning rs ds (contents s)"
  using assms
proof (induction rs arbitrary: s)
  case (Cons r rs)
  obtain d s1 where s1: "step r s = Some (d, s1)" "ok s1"
    "contents s1 = (if d then meaning r (contents s) else contents s)"
    using step_atomic [of s r] Cons.prems by auto
  obtain ds s2 where "run_all step rs s1 = Some (ds, s2)" "length ds = length rs" "ok s2"
    "contents s2 = replay meaning rs ds (contents s1)"
    using Cons.IH [OF s1(2)] Cons.prems by auto
  then show ?case using s1 by auto
qed simp

end

section \<open>Ordered indexes\<close>

text \<open>
  The contract of the kernel's intrusive search trees towards their clients: the items are kept
  in strict order, inserting a fresh item and deleting a present one never trap, and they change
  the set of items by exactly that item.
\<close>

fun apply_all :: "('t \<Rightarrow> 'a \<Rightarrow> 't option) \<Rightarrow> 'a list \<Rightarrow> 't \<Rightarrow> 't option" where
  "apply_all f [] t = Some t"
| "apply_all f (x # xs) t = (case f t x of None \<Rightarrow> None | Some t' \<Rightarrow> apply_all f xs t')"

locale ordered_index =
  fixes ok :: "'t \<Rightarrow> bool"
    and items :: "'t \<Rightarrow> 'a list"
    and less :: "'a \<Rightarrow> 'a \<Rightarrow> bool"
    and fresh :: "'a \<Rightarrow> 't \<Rightarrow> bool"
    and ins :: "'t \<Rightarrow> 'a \<Rightarrow> 't option"
    and del :: "'t \<Rightarrow> 'a \<Rightarrow> 't option"
  assumes items_sorted: "ok t \<Longrightarrow> sorted_wrt less (items t)"
    and less_irrefl: "\<not> less x x"
    and less_trans: "less x y \<Longrightarrow> less y z \<Longrightarrow> less x z"
    and fresh_absent: "fresh x t \<Longrightarrow> x \<notin> set (items t)"
    and ins_item: "ok t \<Longrightarrow> fresh x t \<Longrightarrow>
      \<exists>t'. ins t x = Some t' \<and> ok t' \<and> set (items t') = insert x (set (items t))"
    and del_item: "ok t \<Longrightarrow> x \<in> set (items t) \<Longrightarrow>
      \<exists>t'. del t x = Some t' \<and> ok t' \<and> set (items t') = set (items t) - {x}"
begin

lemma sorted_determined:
  "sorted_wrt less xs \<Longrightarrow> sorted_wrt less ys \<Longrightarrow> set xs = set ys \<Longrightarrow> xs = ys"
proof (induction xs arbitrary: ys)
  case (Cons x xs)
  then obtain y zs where ys: "ys = y # zs" by (cases ys) auto
  have "x = y"
  proof (rule ccontr)
    assume "x \<noteq> y"
    then have "x \<in> set zs" "y \<in> set xs" using Cons.prems(3) ys by auto
    then have "less y x" "less x y" using Cons.prems ys by auto
    then show False using less_trans less_irrefl by blast
  qed
  moreover have "x \<notin> set xs" "y \<notin> set zs" using Cons.prems ys less_irrefl by auto
  ultimately have "set xs = set zs" using Cons.prems(3) ys by auto
  then show ?case using Cons.IH [of zs] Cons.prems ys \<open>x = y\<close> by simp
qed simp

lemma insert_delete_restores:
  assumes "ok t" "fresh x t"
  shows "\<exists>t' t''. ins t x = Some t' \<and> del t' x = Some t'' \<and> ok t'' \<and> items t'' = items t"
proof -
  obtain t' where t': "ins t x = Some t'" "ok t'" "set (items t') = insert x (set (items t))"
    using ins_item [OF assms] by blast
  moreover obtain t'' where "del t' x = Some t''" "ok t''" "set (items t'') = set (items t') - {x}"
    using del_item [of t' x] t' by auto
  moreover from this have "items t'' = items t"
    using t' fresh_absent [OF assms(2)] assms(1) by (intro sorted_determined items_sorted) auto
  ultimately show ?thesis by blast
qed

lemma delete_many:
  "ok t \<Longrightarrow> distinct xs \<Longrightarrow> set xs \<subseteq> set (items t) \<Longrightarrow>
   \<exists>t'. apply_all del xs t = Some t' \<and> ok t' \<and> set (items t') = set (items t) - set xs"
proof (induction xs arbitrary: t)
  case (Cons x xs)
  then obtain t1 where t1: "del t x = Some t1" "ok t1" "set (items t1) = set (items t) - {x}"
    using del_item [of t x] by auto
  have "\<exists>t'. apply_all del xs t1 = Some t' \<and> ok t' \<and> set (items t') = set (items t1) - set xs"
    using Cons.prems t1 by (intro Cons.IH) auto
  then show ?case using t1 by auto
qed simp

end

end
