(* ===== verification/Vma_Spec.thy ===== *)
theory Vma_Spec
  imports Vma_Query Kernel_Interface
begin

text \<open>
  The contract of the area set of \<^verbatim>\<open>src/mm/vma.c\<close>: a partial map from addresses to attributes
  that every operation of the component reads or updates as specified, failing without effect.
\<close>

section \<open>Insertion\<close>

lemma inserted_inv:
  assumes "vset_inv pm s" "inserted pm s v s1"
  shows "\<exists>s2. recount_bytes s1 = Some s2 \<and> vset_inv pm s2 \<and> self s2 = self s \<and>
    generation s2 = generation s \<and> (\<forall>x. view s2 x = (if covers v x then Some (attr_at v x) else view s x)) \<and>
    vcount s2 \<le> vcount s + 1"
  using recount_inv [of pm s1] assms by (auto simp: inserted_def vset_inv_def)

lemma insert_conflict:
  assumes "vset_inv pm s" "area_ok pm v" "generation s \<noteq> u64_max" "\<exists>x. covers v x \<and> view s x \<noteq> None"
  shows "kernel_vma_set_insert pm h s v = Some (VMA_CONFLICT, s)"
proof -
  have ok: "array_ok pm s" using assms(1) by (simp add: vset_inv_def)
  have "\<not> disjoint_from v (live s)"
    unfolding disjoint_view [OF ok area_ok_start_less [OF assms(2)]] using assms(4) by simp
  then show ?thesis using insert_entry_conflict [OF ok assms(2)] assms array_okD(7) [OF ok]
    by (simp add: kernel_vma_set_insert_def area_ok_def)
qed

lemma insert_free:
  assumes inv: "vset_inv pm s" and v: "area_ok pm v" and g: "generation s \<noteq> u64_max"
    and free: "\<forall>x. covers v x \<longrightarrow> view s x = None"
  shows "(\<exists>s'. kernel_vma_set_insert pm h s v = Some (VMA_OK, s') \<and> vset_inv pm s' \<and> self s' = self s \<and>
      generation s' = generation s + 1 \<and>
      (\<forall>x. view s' x = (if covers v x then Some (attr_at v x) else view s x))) \<or>
    vcount s = capacity s \<and> (kernel_vma_set_insert pm h s v = Some (VMA_NO_MEMORY, s) \<or>
      kernel_vma_set_insert pm h s v = Some (VMA_STATE, s))"
proof -
  have ok: "array_ok pm s" using inv by (simp add: vset_inv_def)
  have guards: "set_valid s" "vma_valid pm v" using array_okD(7) [OF ok] v by (simp_all add: area_ok_def)
  have "disjoint_from v (live s)"
    unfolding disjoint_view [OF ok area_ok_start_less [OF v]] by (rule free)
  then have "(\<exists>s1. insert_entry h s v = Some (VMA_OK, s1) \<and> inserted pm s v s1) \<or>
    vcount s = capacity s \<and> (insert_entry h s v = Some (VMA_NO_MEMORY, s) \<or> insert_entry h s v = Some (VMA_STATE, s))"
    using insert_entry_cases [OF ok v, of h] by blast
  then show ?thesis
  proof (elim disjE exE conjE)
    fix s1 assume "insert_entry h s v = Some (VMA_OK, s1)" "inserted pm s v s1"
    moreover from inserted_inv [OF inv this(2)] obtain s2 where "recount_bytes s1 = Some s2"
      "vset_inv pm s2" "self s2 = self s" "generation s2 = generation s"
      "\<forall>x. view s2 x = (if covers v x then Some (attr_at v x) else view s x)" by blast
    ultimately show ?thesis using guards g by (simp add: kernel_vma_set_insert_def)
  qed (use guards g in \<open>simp_all add: kernel_vma_set_insert_def\<close>)
qed

section \<open>Two-phase requests\<close>

text \<open>
  A client request and its two calls: the \<^verbatim>\<open>prepare\<close> function that admits it and
  \<^verbatim>\<open>kernel_vma_set_commit_edit\<close>. \<open>h\<close> is the heap the first call meets and \<open>h'\<close> the second.
\<close>

datatype vma_request =
    Insert_area vma
  | Remove_range u64 u64
  | Replace_range u64 u64 vma
  | Protect_range u64 u64 u32
  | Flag_range u64 u64 u32 u32

fun prepare_request ::
  "u64 \<Rightarrow> vma_heap \<Rightarrow> vma_set \<Rightarrow> vma_request \<Rightarrow> (vma_set \<times> (vma_status + vma_edit)) option" where
  "prepare_request pm h s (Insert_area v) = Some (s, Inl VMA_INVALID_ARGUMENT)"
| "prepare_request pm h s (Remove_range a b) = kernel_vma_set_prepare_replace pm h s a b None"
| "prepare_request pm h s (Replace_range a b v) = kernel_vma_set_prepare_replace pm h s a b (Some v)"
| "prepare_request pm h s (Protect_range a b perms) = kernel_vma_set_prepare_protect h s a b perms"
| "prepare_request pm h s (Flag_range a b fmask flags) = kernel_vma_set_prepare_flags h s a b fmask flags"

fun request_edit :: "vma_request \<Rightarrow> vma_set \<Rightarrow> vma_edit" where
  "request_edit (Insert_area v) s = \<lparr>edit_set = self s, edit_generation = generation s,
     edit_start = vstart v, edit_end = vend v, edit_permissions = 0, edit_flags = 0, edit_flags_mask = 0,
     edit_kind = EDIT_REPLACE, edit_replacement = v\<rparr>"
| "request_edit (Remove_range a b) s = \<lparr>edit_set = self s, edit_generation = generation s,
     edit_start = a, edit_end = b, edit_permissions = 0, edit_flags = 0, edit_flags_mask = 0,
     edit_kind = EDIT_REMOVE, edit_replacement = vma_zero\<rparr>"
| "request_edit (Replace_range a b v) s = \<lparr>edit_set = self s, edit_generation = generation s,
     edit_start = a, edit_end = b, edit_permissions = 0, edit_flags = 0, edit_flags_mask = 0,
     edit_kind = EDIT_REPLACE, edit_replacement = v\<rparr>"
| "request_edit (Protect_range a b perms) s = \<lparr>edit_set = self s, edit_generation = generation s,
     edit_start = a, edit_end = b, edit_permissions = perms, edit_flags = 0, edit_flags_mask = 0,
     edit_kind = EDIT_PROTECT, edit_replacement = vma_zero\<rparr>"
| "request_edit (Flag_range a b fmask flags) s = \<lparr>edit_set = self s, edit_generation = generation s,
     edit_start = a, edit_end = b, edit_permissions = 0, edit_flags = flags, edit_flags_mask = fmask,
     edit_kind = EDIT_FLAGS, edit_replacement = vma_zero\<rparr>"

text \<open>What the request means for the contents of the set.\<close>

fun request_view :: "vma_request \<Rightarrow> (u64 \<Rightarrow> vattr option) \<Rightarrow> u64 \<Rightarrow> vattr option" where
  "request_view (Insert_area v) m x = (if covers v x then Some (attr_at v x) else m x)"
| "request_view (Remove_range a b) m x = (if a \<le> x \<and> x < b then None else m x)"
| "request_view (Replace_range a b v) m x = (if a \<le> x \<and> x < b then Some (attr_at v x) else m x)"
| "request_view (Protect_range a b perms) m x =
     (if a \<le> x \<and> x < b then map_option (\<lambda>t. t\<lparr>at_permissions := perms\<rparr>) (m x) else m x)"
| "request_view (Flag_range a b fmask flags) m x =
     (if a \<le> x \<and> x < b
      then map_option (\<lambda>t. t\<lparr>at_flags := (at_flags t AND NOT fmask) OR flags\<rparr>) (m x) else m x)"

fun request_aligned :: "u64 \<Rightarrow> vma_request \<Rightarrow> bool" where
  "request_aligned pm (Insert_area v) \<longleftrightarrow> vstart v AND pm = 0 \<and> vend v AND pm = 0"
| "request_aligned pm (Remove_range a b) \<longleftrightarrow> a AND pm = 0 \<and> b AND pm = 0"
| "request_aligned pm (Replace_range a b v) \<longleftrightarrow> a AND pm = 0 \<and> b AND pm = 0"
| "request_aligned pm (Protect_range a b perms) \<longleftrightarrow> a AND pm = 0 \<and> b AND pm = 0"
| "request_aligned pm (Flag_range a b fmask flags) \<longleftrightarrow> a AND pm = 0 \<and> b AND pm = 0"

fun run_request :: "u64 \<Rightarrow> vma_heap \<Rightarrow> vma_heap \<Rightarrow> vma_request \<Rightarrow> vma_set \<Rightarrow> (vma_status \<times> vma_set) option" where
  "run_request pm h h' (Insert_area v) s = kernel_vma_set_insert pm h s v"
| "run_request pm h h' r s =
     do { (s1, p) \<leftarrow> prepare_request pm h s r;
          case p of Inl st \<Rightarrow> Some (st, s1) | Inr e \<Rightarrow> kernel_vma_set_commit_edit pm h' s1 e }"

lemma edit_view_request: "edit_view (request_edit r s) m x = request_view r m x"
  by (cases r; cases "m x") (simp_all add: edit_view_def attr_edit_def covers_def)

section \<open>Admission\<close>

lemma reserve_edit_capacity_cases:
  assumes ok: "array_ok pm s" and ab: "a < b"
  shows "(\<exists>s1. reserve_edit_capacity h s a b replacing = Some (VMA_OK, s1) \<and> grown s s1 \<and>
      vcount s + of_bool (split_needed s a) + of_bool (split_needed s b) \<le> capacity s1 \<and>
      (replacing \<longrightarrow> vcount s < capacity s1 \<or> (\<exists>x. a \<le> x \<and> x < b \<and> view s x \<noteq> None))) \<or>
    reserve_edit_capacity h s a b replacing = Some (VMA_NO_MEMORY, s) \<or>
    reserve_edit_capacity h s a b replacing = Some (VMA_STATE, s)"
proof -
  note okD = array_okD [OF ok]
  define extra where "extra = (of_bool (split_needed s a) + of_bool (split_needed s b) :: nat)"
  define ov where "ov \<longleftrightarrow> (\<exists>x. a \<le> x \<and> x < b \<and> view s x \<noteq> None)"
  have o: "kernel_vma_set_overlaps s a b = Inr ov" unfolding ov_def by (rule overlaps_spec [OF ok ab])
  define n where "n = (if replacing \<and> \<not> ov \<and> vcount s + extra < vcount s + 1 then vcount s + 1
      else vcount s + extra)"
  have n: "vcount s + extra \<le> n" "replacing \<Longrightarrow> vcount s < n \<or> ov" by (auto simp: n_def)
  have "reserve_edit_capacity h s a b replacing = Some (VMA_NO_MEMORY, s) \<or>
    reserve_edit_capacity h s a b replacing = reserve_entries h s n"
    unfolding reserve_edit_capacity_def Let_def o extra_def [symmetric] n_def
    by (cases replacing; cases ov; simp)
  then consider "reserve_edit_capacity h s a b replacing = Some (VMA_NO_MEMORY, s)"
    | "reserve_edit_capacity h s a b replacing = Some (VMA_STATE, s)"
    | s1 where "reserve_edit_capacity h s a b replacing = Some (VMA_OK, s1)" "grown s s1" "n \<le> capacity s1"
    using reserve_entries_cases [OF okD(2,3), of h n] by fastforce
  then show ?thesis
  proof cases
    case (3 s1)
    then have "vcount s + extra \<le> capacity s1" "replacing \<longrightarrow> vcount s < capacity s1 \<or> ov"
      using n order.trans order.strict_trans2 by blast+
    then show ?thesis using 3(1,2) unfolding ov_def extra_def by (simp add: add.assoc)
  qed simp_all
qed

definition edit_ready :: "u64 \<Rightarrow> vma_set \<Rightarrow> vma_edit \<Rightarrow> bool" where
  "edit_ready pm s e \<longleftrightarrow> edit_shape pm e \<and> edit_set e = self s \<and> edit_generation e = generation s \<and>
     edit_fits pm e (view s) \<and> edit_room s e"

lemma grown_view:
  assumes "array_ok pm s" "grown s s1"
  shows "view s1 = view s" "split_needed s1 = split_needed s" "live s1 = live s"
proof -
  have ok1: "array_ok pm s1" by (rule grown_array_ok [OF assms(2,1)])
  show l: "live s1 = live s" using grown_live [OF assms(2) array_ok_count [OF assms(1)]] .
  then show "view s1 = view s" by (simp add: view_def)
  show "split_needed s1 = split_needed s"
    using split_needed_iff [OF ok1] split_needed_iff [OF assms(1)] l by auto
qed

lemma reserved_ready:
  assumes ok: "array_ok pm s" and e: "edit_shape pm e" "edit_set e = self s" "edit_generation e = generation s"
    and fits: "edit_fits pm e (view s)"
    and r: "reserve_edit_capacity h s (edit_start e) (edit_end e) (edit_kind e = EDIT_REPLACE) = Some (VMA_OK, s1)"
  shows "grown s s1 \<and> edit_ready pm s1 e"
proof -
  have "edit_start e < edit_end e" using e(1) by (simp add: edit_shape_def)
  from reserve_edit_capacity_cases [OF ok this, of h "edit_kind e = EDIT_REPLACE"] r
  have g: "grown s s1" and room: "vcount s + of_bool (split_needed s (edit_start e)) +
      of_bool (split_needed s (edit_end e)) \<le> capacity s1"
    "edit_kind e = EDIT_REPLACE \<longrightarrow> vcount s < capacity s1 \<or>
      (\<exists>x. edit_start e \<le> x \<and> x < edit_end e \<and> view s x \<noteq> None)" by auto
  have "edit_room s1 e"
    using room unfolding edit_room_def grown_view [OF ok g] grown_fields(2) [OF g] by simp
  then show ?thesis
    using g e fits grown_view(1) [OF ok g] grown_fields [OF g] by (simp add: edit_ready_def)
qed

lemma reserve_edit_result:
  assumes "array_ok pm s" "a < b" "reserve_edit_capacity h s a b rep = Some (st, s1)" "st \<noteq> VMA_OK"
  shows "s1 = s"
  using reserve_edit_capacity_cases [OF assms(1,2), of h rep] assms(3,4) by auto

lemma reserve_edit_total:
  assumes "array_ok pm s" "a < b"
  shows "\<exists>st s1. reserve_edit_capacity h s a b rep = Some (st, s1)"
  using reserve_edit_capacity_cases [OF assms, of h rep] by auto

lemma request_edit_fields [simp]:
  "edit_set (request_edit r s) = self s" "edit_generation (request_edit r s) = generation s"
  by (cases r; simp)+

lemma request_edit_grown: "grown s s1 \<Longrightarrow> request_edit r s1 = request_edit r s"
  by (cases r) (simp_all add: grown_fields)

text \<open>A request is either refused without effect or admitted with everything its commit needs.\<close>

definition admitted :: "u64 \<Rightarrow> vma_heap \<Rightarrow> vma_set \<Rightarrow> vma_request \<Rightarrow> bool" where
  "admitted pm h s r \<longleftrightarrow>
     (\<exists>st. st \<noteq> VMA_OK \<and> prepare_request pm h s r = Some (s, Inl st)) \<or>
     (\<exists>s1. prepare_request pm h s r = Some (s1, Inr (request_edit r s)) \<and> grown s s1 \<and>
        edit_ready pm s1 (request_edit r s))"

lemma admitted_by_reserve:
  assumes ok: "array_ok pm s" and shape: "edit_shape pm (request_edit r s)"
    and fits: "edit_fits pm (request_edit r s) (view s)"
    and run: "prepare_request pm h s r = do {
        (st, s1) \<leftarrow> reserve_edit_capacity h s (edit_start (request_edit r s)) (edit_end (request_edit r s))
                     (edit_kind (request_edit r s) = EDIT_REPLACE);
        if st \<noteq> VMA_OK then Some (s1, Inl st) else Some (s1, Inr (request_edit r s1)) }"
  shows "admitted pm h s r"
proof -
  let ?e = "request_edit r s"
  have lt: "edit_start ?e < edit_end ?e" using shape by (simp add: edit_shape_def)
  obtain st s1 where r: "reserve_edit_capacity h s (edit_start ?e) (edit_end ?e) (edit_kind ?e = EDIT_REPLACE)
      = Some (st, s1)" using reserve_edit_total [OF ok lt] by blast
  show ?thesis
  proof (cases "st = VMA_OK")
    case True
    have "grown s s1 \<and> edit_ready pm s1 ?e"
      using reserved_ready [OF ok shape _ _ fits] r True by simp
    then show ?thesis using run r True request_edit_grown [of s s1 r] by (simp add: admitted_def)
  next
    case False
    then show ?thesis using run r reserve_edit_result [OF ok lt r] by (simp add: admitted_def)
  qed
qed

lemma prepare_replace_admitted:
  assumes ok: "array_ok pm s" and al: "a AND pm = 0" "b AND pm = 0"
  shows "admitted pm h s (Remove_range a b)" "admitted pm h s (Replace_range a b v)"
proof -
  have gv: "set_valid s" using array_okD(7) [OF ok] .
  show "admitted pm h s (Remove_range a b)"
  proof (cases "b \<le> a \<or> generation s = u64_max")
    case True
    then show ?thesis using gv by (auto simp: admitted_def kernel_vma_set_prepare_replace_def)
  next
    case False
    then have "a < b" by (simp add: not_le)
    then show ?thesis using gv al False
      by (intro admitted_by_reserve [OF ok])
        (simp_all add: edit_shape_def edit_fits_def kernel_vma_set_prepare_replace_def cong: if_cong)
  qed
  show "admitted pm h s (Replace_range a b v)"
  proof (cases "b \<le> a \<or> generation s = u64_max \<or> \<not> vma_valid pm v \<or> vstart v \<noteq> a \<or> vend v \<noteq> b")
    case True
    then show ?thesis using gv by (auto simp: admitted_def kernel_vma_set_prepare_replace_def)
  next
    case False
    then have "a < b" by (simp add: not_le)
    then show ?thesis using gv al False
      by (intro admitted_by_reserve [OF ok])
        (simp_all add: edit_shape_def edit_fits_def area_ok_def kernel_vma_set_prepare_replace_def cong: if_cong)
  qed
qed

lemma prepare_protect_admitted:
  assumes ok: "array_ok pm s" and al: "a AND pm = 0" "b AND pm = 0"
  shows "admitted pm h s (Protect_range a b perms)"
proof -
  have gv: "set_valid s" using array_okD(7) [OF ok] .
  let ?c = "permission_loop s b perms (first_slot s a)"
  show ?thesis
  proof (cases "b \<le> a \<or> generation s = u64_max \<or> \<not> range_is_covered s a b \<or> \<not> ?c")
    case True
    then show ?thesis using gv by (auto simp: admitted_def kernel_vma_set_prepare_protect_def)
  next
    case False
    then have lt: "a < b" by (simp add: not_le)
    have "edit_fits pm (request_edit (Protect_range a b perms) s) (view s)"
      using iffD1 [OF permission_scan_spec [OF ok lt]] False by (simp add: edit_fits_def)
    then show ?thesis using gv al False lt
      by (intro admitted_by_reserve [OF ok])
        (simp_all add: edit_shape_def kernel_vma_set_prepare_protect_def cong: if_cong)
  qed
qed

lemma prepare_flags_admitted:
  assumes ok: "array_ok pm s" and al: "a AND pm = 0" "b AND pm = 0"
  shows "admitted pm h s (Flag_range a b fmask flags)"
proof -
  have gv: "set_valid s" using array_okD(7) [OF ok] .
  show ?thesis
  proof (cases "b \<le> a \<or> generation s = u64_max \<or> \<not> range_is_covered s a b \<or> \<not> flags_fit fmask flags")
    case True
    then show ?thesis using gv by (auto simp: admitted_def kernel_vma_set_prepare_flags_def flags_fit_def)
  next
    case False
    then have "a < b" by (simp add: not_le)
    then show ?thesis using gv al False
      by (intro admitted_by_reserve [OF ok])
        (auto simp: edit_shape_def edit_fits_def flags_fit_def kernel_vma_set_prepare_flags_def cong: if_cong)
  qed
qed

lemma request_admitted:
  assumes "array_ok pm s" "request_aligned pm r" "\<And>v. r \<noteq> Insert_area v"
  shows "admitted pm h s r"
  using assms prepare_replace_admitted prepare_protect_admitted prepare_flags_admitted
  by (cases r) (auto simp del: prepare_request.simps)

lemma ready_commit:
  assumes "array_ok pm s" "is_page_mask pm" "edit_ready pm s e"
  shows "\<exists>s'. (\<forall>h. kernel_vma_set_commit_edit pm h s e = Some (VMA_OK, s')) \<and> edited pm s e s'"
  using commit_edit_spec [OF assms(1,2)] assms(3) by (simp add: edit_ready_def)

lemma run_request_two_phase:
  "\<forall>v. r \<noteq> Insert_area v \<Longrightarrow> run_request pm h h' r s =
     do { (s1, p) \<leftarrow> prepare_request pm h s r;
          case p of Inl st \<Rightarrow> Some (st, s1) | Inr e \<Rightarrow> kernel_vma_set_commit_edit pm h' s1 e }"
  by (cases r) simp_all

definition request_done :: "u64 \<Rightarrow> vma_request \<Rightarrow> vma_set \<Rightarrow> vma_status \<Rightarrow> vma_set \<Rightarrow> bool" where
  "request_done pm r s st s' \<longleftrightarrow> vset_inv pm s' \<and> self s' = self s \<and>
     (if st = VMA_OK then view s' = request_view r (view s) \<and> generation s' = generation s + 1
      else view s' = view s \<and> generation s' = generation s)"

lemma insert_request_done:
  assumes inv: "vset_inv pm s" and al: "vstart v AND pm = 0" "vend v AND pm = 0"
  shows "\<exists>st s'. kernel_vma_set_insert pm h s v = Some (st, s') \<and> request_done pm (Insert_area v) s st s'"
proof (cases "vma_valid pm v \<and> generation s \<noteq> u64_max")
  case False
  have "set_valid s" using inv by (simp add: vset_inv_def array_ok_def)
  then show ?thesis using False inv by (auto simp: kernel_vma_set_insert_def request_done_def)
next
  case True
  then have v: "area_ok pm v" and g: "generation s \<noteq> u64_max" using al by (auto simp: area_ok_def)
  have viewI: "view s' = request_view (Insert_area v) (view s)"
    if "\<forall>x. view s' x = (if covers v x then Some (attr_at v x) else view s x)" for s'
    using that by (simp add: fun_eq_iff)
  show ?thesis
  proof (cases "\<forall>x. covers v x \<longrightarrow> view s x = None")
    case True
    from insert_free [OF inv v g True, of h] show ?thesis using inv
      by (elim disjE exE conjE) (auto simp: request_done_def dest: viewI)
  next
    case False
    then have "kernel_vma_set_insert pm h s v = Some (VMA_CONFLICT, s)"
      using insert_conflict [OF inv v g] by simp
    then show ?thesis using inv by (simp add: request_done_def)
  qed
qed

lemma run_request_done:
  assumes inv: "vset_inv pm s" and pm: "is_page_mask pm" and al: "request_aligned pm r"
  shows "\<exists>st s'. run_request pm h h' r s = Some (st, s') \<and> request_done pm r s st s'"
proof (cases "\<exists>v. r = Insert_area v")
  case True
  then show ?thesis using insert_request_done [OF inv] al by auto
next
  case False
  have ok: "array_ok pm s" using inv by (simp add: vset_inv_def)
  have run: "run_request pm h h' r s = do { (s1, p) \<leftarrow> prepare_request pm h s r;
          case p of Inl st \<Rightarrow> Some (st, s1) | Inr e \<Rightarrow> kernel_vma_set_commit_edit pm h' s1 e }"
    using False run_request_two_phase by blast
  have "admitted pm h s r" using request_admitted [OF ok al] False by blast
  then consider st where "st \<noteq> VMA_OK" "prepare_request pm h s r = Some (s, Inl st)"
    | s1 where "prepare_request pm h s r = Some (s1, Inr (request_edit r s))" "grown s s1"
        "edit_ready pm s1 (request_edit r s)"
    unfolding admitted_def by blast
  then show ?thesis
  proof cases
    case (1 st)
    then show ?thesis using inv by (simp add: run request_done_def)
  next
    case (2 s1)
    have ok1: "array_ok pm s1" by (rule grown_array_ok [OF 2(2) ok])
    obtain s' where s': "\<And>h. kernel_vma_set_commit_edit pm h s1 (request_edit r s) = Some (VMA_OK, s')"
      "edited pm s1 (request_edit r s) s'" using ready_commit [OF ok1 pm 2(3)] by blast
    have "view s' = request_view r (view s)"
      using s'(2) grown_view(1) [OF ok 2(2)] by (simp add: edited_def fun_eq_iff edit_view_request)
    then show ?thesis using s' 2(1) grown_fields [OF 2(2)]
      by (simp add: run request_done_def edited_def)
  qed
qed

section \<open>The set as a failure-atomic object\<close>

definition request_step :: "u64 \<Rightarrow> vma_heap \<times> vma_heap \<times> vma_request \<Rightarrow> vma_set \<Rightarrow> (bool \<times> vma_set) option" where
  "request_step pm c s =
     (case c of (h, h', r) \<Rightarrow> map_option (\<lambda>(st, s'). (st = VMA_OK, s')) (run_request pm h h' r s))"

interpretation vset: atomic_object
  "vset_inv pm" view "\<lambda>c. is_page_mask pm \<and> request_aligned pm (snd (snd c))" "request_step pm"
  "\<lambda>c. request_view (snd (snd c))" for pm
proof
  fix s and c :: "vma_heap \<times> vma_heap \<times> vma_request"
  assume "vset_inv pm s" "is_page_mask pm \<and> request_aligned pm (snd (snd c))"
  then show "\<exists>d s'. request_step pm c s = Some (d, s') \<and> vset_inv pm s' \<and>
      view s' = (if d then request_view (snd (snd c)) (view s) else view s)"
    using run_request_done [of pm s "snd (snd c)" "fst c" "fst (snd c)"]
    by (cases c) (auto simp: request_step_def request_done_def split: if_splits)
qed

end
