(* ===== verification/Vma_Life.thy ===== *)
theory Vma_Life
  imports Vma_Spec
begin

text \<open>
  The remaining operations of \<^verbatim>\<open>src/mm/vma.c\<close>: moving an area in two phases (\<^verbatim>\<open>remap\<close>), copying a
  set for a child (\<^verbatim>\<open>fork\<close>), shrinking (\<^verbatim>\<open>trim_end\<close>), dropping all locks and destruction.
\<close>

section \<open>Moving an area\<close>

lemma reserve_edit_room:
  assumes ok: "array_ok pm s" and room: "vcount s + 2 \<le> capacity s"
  shows "reserve_edit_capacity h s a b False = Some (VMA_OK, s)"
proof -
  have "vcount s + 2 \<le> uint32_max" using room array_okD(3) [OF ok] by (rule order.trans)
  then show ?thesis using room
    by (simp add: reserve_edit_capacity_def Let_def reserve_entries_room not_less)
qed

lemma insert_with_room:
  assumes inv: "vset_inv pm s" and v: "area_ok pm v" and g: "generation s \<noteq> u64_max"
    and free: "\<forall>x. covers v x \<longrightarrow> view s x = None" and room: "vcount s < capacity s"
  shows "\<exists>s'. (\<forall>h. kernel_vma_set_insert pm h s v = Some (VMA_OK, s')) \<and> vset_inv pm s' \<and>
    self s' = self s \<and> generation s' = generation s + 1 \<and>
    (\<forall>x. view s' x = (if covers v x then Some (attr_at v x) else view s x))"
proof -
  have ok: "array_ok pm s" using inv by (simp add: vset_inv_def)
  have guards: "set_valid s" "vma_valid pm v" using array_okD(7) [OF ok] v by (simp_all add: area_ok_def)
  have "disjoint_from v (live s)" unfolding disjoint_view [OF ok area_ok_start_less [OF v]] by (rule free)
  then obtain s1 where s1: "\<And>h. insert_entry h s v = Some (VMA_OK, s1)" "inserted pm s v s1"
    using insert_entry_cases [OF ok v] room by fastforce
  obtain s2 where "recount_bytes s1 = Some s2"
      "vset_inv pm s2" "self s2 = self s" "generation s2 = generation s"
      "\<forall>x. view s2 x = (if covers v x then Some (attr_at v x) else view s x)"
    using inserted_inv [OF inv s1(2)] by blast
  then show ?thesis using guards g s1(1) by (simp add: kernel_vma_set_insert_def)
qed

lemma remap_target_free:
  assumes ok: "array_ok pm s" and r: "vstart r < vend r"
    and c: "c = (if vstart r = a then b else vstart r)"
    and chk: "\<not> (c < vend r \<and> kernel_vma_set_overlaps s c (vend r) \<noteq> Inr False)"
    and x: "covers r x"
  shows "(a \<le> x \<and> x < b) \<or> view s x = None"
proof (cases "c \<le> x")
  case True
  then have "c < vend r" using x by (auto simp: covers_def intro: order.strict_trans1)
  then have "\<not> (\<exists>y. c \<le> y \<and> y < vend r \<and> view s y \<noteq> None)"
    using chk overlaps_spec [OF ok] by auto
  then show ?thesis using True x by (auto simp: covers_def)
next
  case False
  then show ?thesis using x by (auto simp: c covers_def not_le split: if_splits)
qed

lemma remap_commit:
  assumes inv: "vset_inv pm s" and pm: "is_page_mask pm" and al: "a AND pm = 0" "b AND pm = 0"
    and r: "area_ok pm r" and ab: "a < b" and gen: "generation s \<le> u64_max - 2"
    and room: "vcount s + 3 \<le> capacity s"
    and free: "\<And>x. covers r x \<Longrightarrow> (a \<le> x \<and> x < b) \<or> view s x = None"
  defines "e \<equiv> \<lparr>remap_set = self s, remap_generation = generation s, remap_start = a, remap_end = b,
     remap_replacement = r\<rparr>"
  shows "\<exists>s'. (\<forall>h. kernel_vma_set_commit_remap pm h s e = Some (VMA_OK, s')) \<and> vset_inv pm s' \<and>
    (\<forall>x. view s' x = (if covers r x then Some (attr_at r x) else if a \<le> x \<and> x < b then None else view s x))"
proof -
  have ok: "array_ok pm s" using inv by (simp add: vset_inv_def)
  have g1: "generation s \<noteq> u64_max" and g2: "generation s + 1 \<noteq> u64_max"
  proof -
    have "\<not> u64_max \<le> (u64_max - 2 :: u64)" by code_simp
    then show "generation s \<noteq> u64_max" using gen by (auto simp del: diff_numeral_special)
    show "generation s + 1 \<noteq> u64_max"
    proof
      assume "generation s + 1 = u64_max"
      then have "generation s = u64_max - 1" by (rule iffD2 [OF eq_diff_eq])
      then show False using gen by simp
    qed
  qed
  let ?d = "request_edit (Remove_range a b) s"
  have prep: "kernel_vma_set_prepare_replace pm h s a b None = Some (s, Inr ?d)" for h
    using reserve_edit_room [OF ok, of h a b] room ab g1 array_okD(7) [OF ok]
    by (simp add: kernel_vma_set_prepare_replace_def not_le)
  have "edit_ready pm s ?d"
    using reserved_ready [OF ok, of ?d undefined s] al ab reserve_edit_room [OF ok, of undefined a b] room
    by (simp add: edit_shape_def edit_fits_def)
  then obtain s2 where s2: "\<And>h. kernel_vma_set_commit_edit pm h s ?d = Some (VMA_OK, s2)" "edited pm s ?d s2"
    using ready_commit [OF ok pm] by blast
  have v2: "view s2 x = (if a \<le> x \<and> x < b then None else view s x)" for x
    using s2(2) by (simp add: edited_def edit_view_def)
  have "\<exists>s'. (\<forall>h. kernel_vma_set_insert pm h s2 r = Some (VMA_OK, s')) \<and> vset_inv pm s' \<and>
    self s' = self s2 \<and> generation s' = generation s2 + 1 \<and>
    (\<forall>x. view s' x = (if covers r x then Some (attr_at r x) else view s2 x))"
  proof (rule insert_with_room)
    show "\<forall>x. covers r x \<longrightarrow> view s2 x = None" using free v2 by auto
    show "vcount s2 < capacity s2" using s2(2) room by (simp add: edited_def)
    show "generation s2 \<noteq> u64_max" using s2(2) g2 by (simp add: edited_def)
  qed (use s2(2) r in \<open>simp_all add: edited_def\<close>)
  then obtain s' where "\<And>h. kernel_vma_set_insert pm h s2 r = Some (VMA_OK, s')" "vset_inv pm s'"
    "\<And>x. view s' x = (if covers r x then Some (attr_at r x) else view s2 x)" by blast
  then show ?thesis using prep s2(1) v2 by (simp add: kernel_vma_set_commit_remap_def e_def)
qed

lemma prepare_remap_ready:
  assumes inv: "vset_inv pm s" and al: "a AND pm = 0" "b AND pm = 0" "vstart r AND pm = 0" "vend r AND pm = 0"
    and p: "kernel_vma_set_prepare_remap pm h s a b r = Some (s1, Inr e)"
  shows "vset_inv pm s1" "view s1 = view s" "area_ok pm r" "a < b" "generation s1 \<le> u64_max - 2"
    "vcount s1 + 3 \<le> capacity s1" "\<And>x. covers r x \<Longrightarrow> (a \<le> x \<and> x < b) \<or> view s1 x = None"
    "e = \<lparr>remap_set = self s1, remap_generation = generation s1, remap_start = a, remap_end = b,
     remap_replacement = r\<rparr>"
proof -
  have ok: "array_ok pm s" using inv by (simp add: vset_inv_def)
  define c where "c = (if vstart r = a then b else vstart r)"
  have g: "vma_valid pm r" "a < b" "generation s \<le> u64_max - 2" "vcount s \<le> uint32_max - 3"
    "\<not> (c < vend r \<and> kernel_vma_set_overlaps s c (vend r) \<noteq> Inr False)"
    using p unfolding kernel_vma_set_prepare_remap_def Let_def c_def [symmetric]
    by (auto simp: not_le not_less split: if_splits)
  have run: "kernel_vma_set_prepare_remap pm h s a b r = do {
      (st, s1) \<leftarrow> reserve_entries h s (vcount s + 3);
      if st \<noteq> VMA_OK then Some (s1, Inl st)
      else Some (s1, Inr \<lparr>remap_set = self s1, remap_generation = generation s1,
             remap_start = a, remap_end = b, remap_replacement = r\<rparr>) }"
    using g array_okD(7) [OF ok] unfolding kernel_vma_set_prepare_remap_def Let_def c_def [symmetric]
    by (auto simp: not_less dest: leD)
  from reserve_entries_cases [OF array_okD(2,3) [OF ok], of h "vcount s + 3"] p run
  have gr: "grown s s1" "vcount s + 3 \<le> capacity s1"
    and e: "e = \<lparr>remap_set = self s1, remap_generation = generation s1, remap_start = a, remap_end = b,
     remap_replacement = r\<rparr>" by auto
  show r: "area_ok pm r" using g(1) al(3,4) by (simp add: area_ok_def)
  show v: "view s1 = view s" by (rule grown_view(1) [OF ok gr(1)])
  show "(a \<le> x \<and> x < b) \<or> view s1 x = None" if "covers r x" for x
    unfolding v by (rule remap_target_free [OF ok area_ok_start_less [OF r] c_def g(5) that])
  show "vset_inv pm s1" by (rule grown_vset_inv [OF gr(1) inv])
  show "a < b" "generation s1 \<le> u64_max - 2" "vcount s1 + 3 \<le> capacity s1"
    using g(2,3) gr(2) grown_fields [OF gr(1)] by simp_all
  show "e = \<lparr>remap_set = self s1, remap_generation = generation s1, remap_start = a, remap_end = b,
     remap_replacement = r\<rparr>" by (rule e)
qed

section \<open>Clearing locks and forking\<close>

definition unlocked :: "vma \<Rightarrow> vma" where
  "unlocked v = v\<lparr>vflags := vflags v AND NOT VMA_LOCK_MASK\<rparr>"

lemma unlocked_fields [simp]:
  "vstart (unlocked v) = vstart v" "vend (unlocked v) = vend v" "shm_attachment (unlocked v) = shm_attachment v"
  "covers (unlocked v) x = covers v x"
  by (simp_all add: unlocked_def covers_def)

lemma unlocked_area_ok: "area_ok pm v \<Longrightarrow> area_ok pm (unlocked v)"
proof -
  assume v: "area_ok pm v"
  let ?e = "request_edit (Flag_range 0 0 VMA_LOCK_MASK 0) undefined"
  have "unlocked v = apply_edit ?e v" by (simp add: unlocked_def apply_edit_def)
  moreover have "flags_fit VMA_LOCK_MASK 0" by (simp add: flags_fit_def)
  ultimately show ?thesis using apply_edit_area_ok [OF v, of ?e] by simp
qed

lemma unlocked_not_locked: "\<not> area_locked (unlocked v)"
proof -
  have "(vflags v AND NOT VMA_LOCK_MASK) AND VMA_LOCKED = vflags v AND (NOT VMA_LOCK_MASK AND VMA_LOCKED)"
    by (rule and.assoc)
  also have "\<dots> = 0" by simp
  finally show ?thesis by (simp add: area_locked_def unlocked_def)
qed

definition attr_unlocked :: "vattr \<Rightarrow> vattr" where
  "attr_unlocked t = t\<lparr>at_flags := at_flags t AND NOT VMA_LOCK_MASK\<rparr>"

lemma attr_at_unlocked: "attr_at (unlocked v) x = attr_unlocked (attr_at v x)"
  by (simp add: attr_at_def unlocked_def attr_unlocked_def)

lemma lview_unlocked: "lview (map unlocked vs) x = map_option attr_unlocked (lview vs x)"
  by (induction vs) (auto simp: attr_at_unlocked)

lemma areas_ok_unlocked: "areas_ok pm vs \<Longrightarrow> areas_ok pm (map unlocked (filter P vs))"
  by (induction vs) (auto simp: areas_ok_simps unlocked_area_ok)

lemma attachments_unlocked [simp]: "attachments p (map unlocked vs) = attachments p vs"
  by (induction vs) auto

lemma bytes_unlocked:
  "bytes_where (\<lambda>_. True) (map unlocked vs) = bytes_where (\<lambda>_. True) vs"
  "bytes_where kernel_vma_is_data (map unlocked vs) = bytes_where kernel_vma_is_data vs"
  "bytes_where area_locked (map unlocked vs) = 0"
proof -
  have d: "kernel_vma_is_data (unlocked v) = kernel_vma_is_data v" "vlen (unlocked v) = vlen v" for v
    by (simp_all add: unlocked_def kernel_vma_is_data_def private_data_mapping_def vlen_def)
  show "bytes_where (\<lambda>_. True) (map unlocked vs) = bytes_where (\<lambda>_. True) vs"
    "bytes_where kernel_vma_is_data (map unlocked vs) = bytes_where kernel_vma_is_data vs"
    "bytes_where area_locked (map unlocked vs) = 0"
    by (induction vs) (simp_all add: d unlocked_not_locked)
qed

lemma merge_loop_counters:
  "total_bytes (fst (merge_loop s k i)) = total_bytes s \<and>
   data_bytes (fst (merge_loop s k i)) = data_bytes s \<and>
   locked_bytes (fst (merge_loop s k i)) = locked_bytes s"
proof (induction s k i rule: merge_loop.induct)
  case (1 s k i)
  then show ?case
    by (subst (1 2 3) merge_loop.simps) (simp add: Let_def shm_close_def)
qed

lemma merge_all_counters:
  "total_bytes (merge_all s) = total_bytes s" "data_bytes (merge_all s) = data_bytes s"
  "locked_bytes (merge_all s) = locked_bytes s"
  using merge_loop_counters [of s 0 1] by (auto simp: merge_all_def split: prod.splits)

lemma clear_locks_spec:
  assumes inv: "vset_inv pm s"
  shows "\<exists>s'. kernel_vma_set_clear_locks s = Some s' \<and> vset_inv pm s' \<and> locked_bytes s' = 0 \<and>
    view s' = (\<lambda>x. map_option attr_unlocked (view s x)) \<and> generation s' = generation s + 1"
proof -
  have ok: "array_ok pm s" and acc: "accounted s" using inv by (simp_all add: vset_inv_def)
  note okD = array_okD [OF ok]
  define s1 where "s1 = s\<lparr>entries := map unlocked (take (vcount s) (entries s)) @ drop (vcount s) (entries s),
      locked_bytes := 0\<rparr>"
  have n: "vcount s \<le> length (entries s)" using okD(2,4) by simp
  have l1: "live s1 = map unlocked (live s)" using n by (simp add: live_def s1_def)
  have "array_ok pm s1"
  proof (rule array_okI)
    show "areas_ok pm (live s1)" using areas_ok_unlocked [OF okD(5), of "\<lambda>_. True"] by (simp add: l1)
    show "shm_balanced s1" using okD(6) by (simp add: shm_balanced_def l1 s1_def [symmetric])
        (simp add: s1_def)
  qed (use okD n in \<open>simp_all add: s1_def\<close>)
  note m = merge_all_spec [OF this]
  have "bytes_where P (live (merge_all s1)) = bytes_where P (live s1)" if "by_attributes P" for P
    using m(9) that by blast
  note b = this [OF by_attributes_accounts(1)] this [OF by_attributes_accounts(2)]
    this [OF by_attributes_accounts(3)]
  have "accounted (merge_all s1)"
    using acc unfolding accounted_def b l1 bytes_unlocked merge_all_counters by (simp add: s1_def)
  then have "vset_inv pm (merge_all s1)" using m by (simp add: vset_inv_def)
  moreover have "kernel_vma_set_clear_locks s
      = Some ((merge_all s1)\<lparr>generation := generation (merge_all s1) + 1\<rparr>)"
    using okD(7) by (simp add: kernel_vma_set_clear_locks_def Let_def s1_def unlocked_def [abs_def])
  moreover have "view (merge_all s1) = (\<lambda>x. map_option attr_unlocked (view s x))"
    using m(3) by (simp add: view_def l1 lview_unlocked fun_eq_iff)
  moreover have "generation (merge_all s1) = generation s" "locked_bytes (merge_all s1) = 0"
    using m(6) by (simp_all add: merge_all_counters s1_def)
  ultimately show ?thesis by simp
qed

definition inherited :: "vma \<Rightarrow> bool" where
  "inherited v \<longleftrightarrow> vflags v AND VMA_DONTFORK = 0"

lemma fork_loop_spec:
  assumes "entries w = xs @ junk" "vcount w = length xs" "length (filter inherited vs) \<le> length junk"
  shows "live (fork_loop vs w) = xs @ map unlocked (filter inherited vs) \<and>
    vcount (fork_loop vs w) = length xs + length (filter inherited vs) \<and>
    length (entries (fork_loop vs w)) = length (entries w) \<and> capacity (fork_loop vs w) = capacity w \<and>
    self (fork_loop vs w) = self w \<and> generation (fork_loop vs w) = generation w \<and>
    (\<forall>p. p \<noteq> 0 \<longrightarrow> shm_refs (fork_loop vs w) p = shm_refs w p + attachments p (filter inherited vs))"
  using assms
proof (induction vs arbitrary: w xs junk)
  case Nil
  then show ?case by (simp add: live_def)
next
  case (Cons v vs)
  show ?case
  proof (cases "inherited v")
    case False
    then show ?thesis using Cons.IH [OF Cons.prems(1,2)] Cons.prems(3) by (simp add: inherited_def)
  next
    case True
    then obtain j js where j: "junk = j # js" using Cons.prems(3) by (cases junk) auto
    let ?w = "shm_open (shm_attachment v) (w\<lparr>entries := (xs @ [unlocked v]) @ js, vcount := vcount w + 1\<rparr>)"
    have step: "fork_loop (v # vs) w = fork_loop vs ?w"
      using True Cons.prems(1,2) j by (simp add: inherited_def unlocked_def list_update_append Let_def)
    show ?thesis unfolding step
      using Cons.IH [of ?w "xs @ [unlocked v]" js] Cons.prems j True
      by (simp add: shm_refs_open)
  qed
qed

lemma lview_inherited:
  assumes "ordered vs"
  shows "lview (map unlocked (filter inherited vs)) x =
    (case lview vs x of Some t \<Rightarrow> if at_flags t AND VMA_DONTFORK = 0 then Some (attr_unlocked t) else None
     | None \<Rightarrow> None)"
  using assms
proof (induction vs)
  case (Cons v vs)
  have "lview (map unlocked (filter inherited vs)) x = None" if "covers v x"
  proof -
    have "\<not> covers w x" if "w \<in> set vs" for w
      using Cons.prems that \<open>covers v x\<close>
      by (auto simp: ordered_simps covers_def dest: order.strict_trans2 leD)
    then show ?thesis by (auto simp: lview_eq_None_iff)
  qed
  moreover have "inherited v \<longleftrightarrow> at_flags (attr_at v x) AND VMA_DONTFORK = 0"
    by (simp add: inherited_def attr_at_def)
  ultimately show ?case using Cons.IH Cons.prems
    by (cases "covers v x") (simp_all add: ordered_simps attr_at_unlocked)
qed simp

lemma fork_attempt:
  assumes inv: "vset_inv pm s" and p: "p \<noteq> 0"
  shows "(\<exists>w. kernel_vma_set_fork h HEAP_OK p s = Some (Inr w) \<and> vset_inv pm w \<and> self w = p \<and>
      locked_bytes w = 0 \<and>
      view w = (\<lambda>x. case view s x of
          Some t \<Rightarrow> if at_flags t AND VMA_DONTFORK = 0 then Some (attr_unlocked t) else None
        | None \<Rightarrow> None)) \<or>
    kernel_vma_set_fork h HEAP_OK p s = Some (Inl VMA_NO_MEMORY) \<or>
    kernel_vma_set_fork h HEAP_OK p s = Some (Inl VMA_STATE)"
proof -
  have ok: "array_ok pm s" using inv by (simp add: vset_inv_def)
  note okD = array_okD [OF ok]
  define w where "w = \<lparr>self = p, entries = [], vcount = 0, capacity = 0, generation = 0, total_bytes = 0,
     data_bytes = 0, locked_bytes = 0, shm_refs = (\<lambda>_. 0)\<rparr>"
  have run: "kernel_vma_set_fork h HEAP_OK p s = do {
      (rs, w1) \<leftarrow> reserve_entries h w (vcount s);
      if rs = VMA_OK then do { w2 \<leftarrow> recount_bytes (merge_all (fork_loop (live s) w1)); Some (Inr w2) }
      else Some (Inl rs) }"
    using okD(7) by (simp add: kernel_vma_set_fork_def kernel_vma_set_create_def w_def)
  have "length (entries w) = capacity w" "capacity w \<le> uint32_max" by (simp_all add: w_def)
  from reserve_entries_cases [OF this, of h "vcount s"] show ?thesis
  proof (elim disjE exE conjE)
    fix w1 assume w1: "reserve_entries h w (vcount s) = Some (VMA_OK, w1)" "grown w w1" "vcount s \<le> capacity w1"
    note g = grown_fields [OF w1(2)]
    let ?c = "map unlocked (filter inherited (live s))" and ?f = "fork_loop (live s) w1"
    have "length (filter inherited (live s)) \<le> length (live s)" by (rule length_filter_le)
    then have fits: "length (filter inherited (live s)) \<le> capacity w1"
      using w1(3) array_ok_live_length [OF ok] by simp
    have f: "live ?f = ?c" "vcount ?f = length ?c" "length (entries ?f) = capacity w1" "capacity ?f = capacity w1"
      "self ?f = p" "\<And>p. p \<noteq> 0 \<Longrightarrow> shm_refs ?f p = attachments p (filter inherited (live s))"
      using fork_loop_spec [of w1 "[]" "entries w1" "live s"] fits g by (auto simp: w_def)
    have "array_ok pm ?f"
    proof (rule array_okI)
      show "areas_ok pm (live ?f)" unfolding f(1) by (rule areas_ok_unlocked [OF okD(5)])
      show "shm_balanced ?f" unfolding shm_balanced_def f(1) by (simp add: f(6))
    qed (use p f g fits in simp_all)
    then obtain w2 where w2: "recount_bytes (merge_all ?f) = Some w2" "vset_inv pm w2" "view w2 = view ?f"
      "self w2 = self ?f" "live w2 = merge_list (live ?f)"
      using merge_recount_spec by blast
    have "bytes_where area_locked (live w2) = bytes_where area_locked (live ?f)"
      using merge_all_spec(1,9) [OF \<open>array_ok pm ?f\<close>] by_attributes_accounts(3) w2(5) by metis
    then have "unat (locked_bytes w2) = 0"
      using w2(2) by (simp add: vset_inv_def accounted_def f(1) bytes_unlocked)
    then have "locked_bytes w2 = 0" by (simp add: unat_eq_0)
    moreover have "view w2 = (\<lambda>x. case view s x of
          Some t \<Rightarrow> if at_flags t AND VMA_DONTFORK = 0 then Some (attr_unlocked t) else None
        | None \<Rightarrow> None)"
      using w2(3) lview_inherited [OF okD(8)] by (simp add: view_def f(1) fun_eq_iff)
    ultimately show ?thesis using w2 f(5) w1(1) by (simp add: run)
  qed (simp_all add: run)
qed

text \<open>
  What the heap answers when the array of a new set with room for \<open>n\<close> areas is allocated: no array is needed for no area, and there
  is none for more than \<^verbatim>\<open>2^31\<close>; otherwise it has the first of 8, 16, 32, \<dots>, \<^verbatim>\<open>2^31\<close> slots that is enough.
\<close>

definition slot_count :: "nat \<Rightarrow> nat option" where
  "slot_count n = find (\<lambda>c. n \<le> c) (map (\<lambda>k. 8 * 2 ^ k) [0..<29])"

definition array_status :: "vma_heap \<Rightarrow> nat \<Rightarrow> heap_status" where
  "array_status h n = (if n = 0 then HEAP_OK else case slot_count n of None \<Rightarrow> HEAP_EMPTY | Some c \<Rightarrow> resize_status h (c * vma_bytes))"

definition heap_error :: "heap_status \<Rightarrow> vma_status" where
  "heap_error st = (if st = HEAP_EMPTY then VMA_NO_MEMORY else VMA_STATE)"

lemma grow_capacity_first:
  "k \<le> 28 \<Longrightarrow> grow_capacity (8 * 2 ^ k) n =
    (case find (\<lambda>c. n \<le> c) (map (\<lambda>j. 8 * 2 ^ j) [k..<29]) of None \<Rightarrow> Some (Inl VMA_NO_MEMORY) | Some c \<Rightarrow> Some (Inr c))"
proof (induction "28 - k" arbitrary: k)
  case 0
  then have "k = 28" by simp
  then show ?case by (subst grow_capacity.simps) simp
next
  case (Suc d)
  have lt: "k < 28" using Suc.hyps(2) by simp
  have "2 ^ k \<le> (2 :: nat) ^ 27" by (rule power_increasing) (use lt in simp_all)
  then have le: "8 * 2 ^ k \<le> uint32_max div 2" by simp
  have "[k..<29] = k # [Suc k..<29]" using lt by (simp add: upt_conv_Cons)
  moreover have "grow_capacity (8 * 2 ^ Suc k) n =
      (case find (\<lambda>c. n \<le> c) (map (\<lambda>j. 8 * 2 ^ j) [Suc k..<29]) of None \<Rightarrow> Some (Inl VMA_NO_MEMORY) | Some c \<Rightarrow> Some (Inr c))"
    by (rule Suc.hyps(1)) (use Suc.hyps(2) lt in simp_all)
  ultimately show ?case using le by (subst grow_capacity.simps) (simp add: mult.commute mult.left_commute)
qed

lemma reserve_first:
  assumes "entries w = []" "capacity w = 0"
  shows "\<exists>rs w1. reserve_entries h w n = Some (rs, w1) \<and>
    rs = (if array_status h n = HEAP_OK then VMA_OK else heap_error (array_status h n))"
proof (cases "n = 0")
  case True
  then show ?thesis by (simp add: reserve_entries_def array_status_def)
next
  case False
  show ?thesis
    using grow_capacity_first [of 0 n] False assms
    by (cases "slot_count n"; cases "resize_status h (the (slot_count n) * vma_bytes)")
       (auto simp: reserve_entries_def heap_resize_def array_status_def heap_error_def slot_count_def)
qed

definition fork_view :: "(u64 \<Rightarrow> vattr option) \<Rightarrow> u64 \<Rightarrow> vattr option" where
  "fork_view m x = (case m x of Some t \<Rightarrow> if at_flags t AND VMA_DONTFORK = 0 then Some (attr_unlocked t) else None | None \<Rightarrow> None)"

lemma fork_spec:
  assumes inv: "vset_inv pm s" and p: "p \<noteq> 0"
  shows "\<exists>r. kernel_vma_set_fork h st p s = Some r \<and>
    (if st = HEAP_OK \<and> array_status h (vcount s) = HEAP_OK
     then \<exists>w. r = Inr w \<and> vset_inv pm w \<and> self w = p \<and> locked_bytes w = 0 \<and> view w = fork_view (view s)
     else r = Inl (heap_error (if st = HEAP_OK then array_status h (vcount s) else st)))"
proof (cases "st = HEAP_OK")
  case False
  have "set_valid s" using inv by (auto simp: vset_inv_def dest: array_okD(7))
  then show ?thesis using False by (cases st) (simp_all add: kernel_vma_set_fork_def kernel_vma_set_create_def heap_error_def)
next
  case True
  have v: "set_valid s" using inv by (auto simp: vset_inv_def dest: array_okD(7))
  define w where "w = \<lparr>self = p, entries = [], vcount = 0, capacity = 0, generation = 0, total_bytes = 0,
     data_bytes = 0, locked_bytes = 0, shm_refs = (\<lambda>_. 0)\<rparr>"
  obtain w1 where w1: "reserve_entries h w (vcount s) =
      Some (if array_status h (vcount s) = HEAP_OK then VMA_OK else heap_error (array_status h (vcount s)), w1)"
    using reserve_first [of w h "vcount s"] by (auto simp: w_def)
  have run: "kernel_vma_set_fork h st p s = do {
      (rs, w1) \<leftarrow> reserve_entries h w (vcount s);
      if rs = VMA_OK then do { w2 \<leftarrow> recount_bytes (merge_all (fork_loop (live s) w1)); Some (Inr w2) }
      else Some (Inl rs) }"
    using v True by (simp add: kernel_vma_set_fork_def kernel_vma_set_create_def w_def)
  show ?thesis
  proof (cases "array_status h (vcount s) = HEAP_OK")
    case ok: True
    then have "kernel_vma_set_fork h st p s \<noteq> Some (Inl e)" for e unfolding run w1 by (cases "recount_bytes (merge_all (fork_loop (live s) w1))") auto
    then show ?thesis using fork_attempt [OF assms, of h] True ok by (auto simp: fork_view_def [abs_def])
  next
    case False
    moreover have "heap_error (array_status h (vcount s)) \<noteq> VMA_OK" by (simp add: heap_error_def)
    ultimately show ?thesis using True unfolding run w1 by simp
  qed
qed

section \<open>Shrinking and destruction\<close>

lemma lview_without:
  assumes "areas_ok pm (xs @ w # ys)" "covers w x"
  shows "lview (xs @ ys) x = None"
  using assms by (auto simp: lview_eq_None_iff areas_ok_simps covers_def dest: order.strict_trans2 leD)

definition trimmed :: "vma list \<Rightarrow> vma \<Rightarrow> vma list \<Rightarrow> u64 \<Rightarrow> vma list" where
  "trimmed xs w ys n = (if n = vstart w then xs @ ys else xs @ w\<lparr>vend := n\<rparr> # ys)"

lemma trimmed_areas:
  assumes ok: "areas_ok pm (xs @ w # ys)" and n: "vstart w \<le> n" "n < vend w" "n AND pm = 0"
  shows "areas_ok pm (trimmed xs w ys n)"
proof (cases "n = vstart w")
  case True
  then show ?thesis using ok by (auto simp: trimmed_def areas_ok_simps)
next
  case False
  then have lt: "vstart w < n" using n(1) by simp
  have w: "area_ok pm w" using ok by (simp add: areas_ok_simps)
  have "vma_valid pm (w\<lparr>vend := n\<rparr>)"
    using w lt offset_fits_parts(1) [OF _ lt n(2)] vma_valid_offset
    by (intro vma_valid_extend) (auto simp: area_ok_def)
  then have "area_ok pm (w\<lparr>vend := n\<rparr>)" using w n(3) by (simp add: area_ok_def)
  then show ?thesis using ok n(2) False
    by (auto simp: trimmed_def areas_ok_simps intro: less_imp_le order.trans)
qed

lemma trimmed_view:
  assumes ok: "areas_ok pm (xs @ w # ys)" and n: "vstart w \<le> n" "n < vend w" "n AND pm = 0"
  shows "lview (trimmed xs w ys n) x = (if n \<le> x \<and> x < vend w then None else lview (xs @ w # ys) x)"
proof (cases "covers w x")
  case True
  note out = lview_without [OF ok True]
  show ?thesis
  proof (cases "n \<le> x")
    case le: True
    then have "\<not> covers (w\<lparr>vend := n\<rparr>) x" by (simp add: covers_def leD)
    then have "lview (trimmed xs w ys n) x = None"
      using out by (cases "n = vstart w") (simp_all add: trimmed_def lview_append split: option.splits)
    then show ?thesis using le True by (simp add: covers_def)
  next
    case False
    then have lt: "x < n" "n \<noteq> vstart w" using True by (auto simp: covers_def)
    then have "covers (w\<lparr>vend := n\<rparr>) x" using True by (simp add: covers_def)
    then have "lview (trimmed xs w ys n) x = Some (attr_at (w\<lparr>vend := n\<rparr>) x)"
      using trimmed_areas [OF ok n] lt(2) lview_two_parts [of pm xs "w\<lparr>vend := n\<rparr>" ys x]
      by (simp add: trimmed_def)
    moreover have "attr_at (w\<lparr>vend := n\<rparr>) x = attr_at w x" by (simp add: attr_at_def)
    ultimately show ?thesis using False lview_two_parts [OF ok, of x] True by simp
  qed
next
  case False
  have inside: "\<not> (n \<le> x \<and> x < vend w)" using False n(1) by (auto simp: covers_def)
  have "\<not> covers (w\<lparr>vend := n\<rparr>) x"
    using False n(2) by (auto simp: covers_def intro: order.strict_trans)
  then have "lview (trimmed xs w ys n) x = lview (xs @ ys) x"
    by (simp add: trimmed_def lview_append split: option.splits)
  then show ?thesis using False lview_two_parts [OF ok, of x] unfolding if_not_P [OF inside] by simp
qed

lemma trimmed_coalesced:
  assumes "coalesced (xs @ w # ys)" "areas_ok pm (xs @ w # ys)" "vstart w \<le> n" "n < vend w"
  shows "coalesced (trimmed xs w ys n)"
proof -
  have "\<not> can_merge l r" if "l \<in> set xs" "r \<in> set ys" for l r
  proof
    assume "can_merge l r"
    then have "vend l = vstart r" by (rule can_merge_attrs)
    moreover have "vend l \<le> vstart w" "vend w \<le> vstart r" using assms(2) that by (auto simp: areas_ok_simps)
    ultimately show False using assms(3,4) by (auto dest: order.trans leD)
  qed
  moreover have "\<not> can_merge (w\<lparr>vend := n\<rparr>) r" if "r \<in> set ys" for r
  proof
    assume "can_merge (w\<lparr>vend := n\<rparr>) r"
    then have "n = vstart r" using can_merge_attrs(1) by fastforce
    moreover have "vend w \<le> vstart r" using assms(2) that by (auto simp: areas_ok_simps)
    ultimately show False using assms(4) by (auto dest: leD)
  qed
  ultimately show ?thesis using assms(1)
    by (cases ys) (auto simp: trimmed_def coalesced_append)
qed

lemma trim_slot:
  assumes ok: "array_ok pm s" and l: "live s = xs @ w # ys"
    and n: "vstart w \<le> n" "n < vend w" "n AND pm = 0"
  defines "t \<equiv> (if n = vstart w then erase_entry s (length xs)
      else s\<lparr>entries := (entries s)[length xs := w\<lparr>vend := n\<rparr>]\<rparr>)"
  shows "array_ok pm t" "live t = trimmed xs w ys n" "generation t = generation s"
proof -
  note okD = array_okD [OF ok]
  have es: "entries s = xs @ w # ys @ drop (vcount s) (entries s)" and c: "vcount s = length xs + Suc (length ys)"
    using live_split [OF ok l] by simp_all
  have "array_ok pm t \<and> live t = trimmed xs w ys n \<and> generation t = generation s"
  proof (cases "n = vstart w")
    case True
    then show ?thesis using erase_entry_spec [OF ok l] by (simp add: t_def trimmed_def)
  next
    case False
    obtain junk where j: "entries s = xs @ w # ys @ junk" using es by blast
    have live: "live t = trimmed xs w ys n"
      using False c by (simp add: t_def trimmed_def live_def j list_update_append)
    have "areas_ok pm (live t)" unfolding live using okD(5) l by (intro trimmed_areas n) simp
    moreover have "shm_balanced t"
      using okD(6) False unfolding shm_balanced_def live l by (simp add: t_def trimmed_def)
    ultimately have "array_ok pm t" using okD(1-4) False by (intro array_okI) (simp_all add: t_def)
    then show ?thesis using live False by (simp add: t_def)
  qed
  then show "array_ok pm t" "live t = trimmed xs w ys n" "generation t = generation s" by blast+
qed

lemma trim_end_spec:
  assumes inv: "vset_inv pm s" and args: "a < old" "a \<le> new" "new < old" and al: "new AND pm = 0"
    and g: "generation s \<noteq> u64_max" and w: "w \<in> set (live s)" "vstart w = a" "vend w = old"
  shows "\<exists>s'. kernel_vma_set_trim_end s a old new = Some (VMA_OK, s') \<and> vset_inv pm s' \<and>
    generation s' = generation s + 1 \<and>
    view s' = (\<lambda>x. if new \<le> x \<and> x < old then None else view s x)"
proof -
  have ok: "array_ok pm s" and co: "coalesced (live s)" using inv by (simp_all add: vset_inv_def)
  note okD = array_okD [OF ok]
  obtain xs r where l0: "live s = xs @ r" and i: "lower_bound s a = length xs"
    and xs: "\<forall>v \<in> set xs. vstart v < a" and r: "\<forall>v \<in> set r. a \<le> vstart v"
    and es: "entries s = xs @ r @ drop (vcount s) (entries s)" and n: "vcount s = length xs + length r"
    by (rule lower_bound_split [OF ok])
  have "w \<in> set r" using w(1,2) l0 xs by auto
  then obtain v ys where r2: "r = v # ys" by (cases r) auto
  have ord: "ordered (v # ys)" using okD(8) l0 r2 by (simp add: ordered_simps)
  have "v = w"
  proof (rule ccontr)
    assume "v \<noteq> w"
    then have "vend v \<le> vstart w" "vstart v < vend v"
      using \<open>w \<in> set r\<close> ord r2 by (auto simp: ordered_simps)
    then show False using r r2 w(2) by (auto dest: order.strict_trans2 leD)
  qed
  then have l: "live s = xs @ w # ys" using l0 r2 by simp
  have e: "entries s ! length xs = w" by (subst es) (simp add: r2 \<open>v = w\<close> nth_append)
  define t where "t = (if new = a then erase_entry s (length xs)
      else s\<lparr>entries := (entries s)[length xs := w\<lparr>vend := new\<rparr>]\<rparr>)"
  have run: "kernel_vma_set_trim_end s a old new =
      do { s2 \<leftarrow> recount_bytes t; Some (VMA_OK, s2\<lparr>generation := generation s2 + 1\<rparr>) }"
    using args g okD(7) n r2 w(2,3) unfolding kernel_vma_set_trim_end_def Let_def i e t_def
    by (auto dest: leD)
  have areas: "areas_ok pm (xs @ w # ys)" using okD(5) l by simp
  have n: "vstart w \<le> new" "new < vend w" using args w(2,3) by simp_all
  have t: "array_ok pm t" "live t = trimmed xs w ys new" "generation t = generation s"
    using trim_slot [OF ok l n al] w(2) by (simp_all add: t_def)
  have "coalesced (live t)" unfolding t(2) using co l by (intro trimmed_coalesced [OF _ areas n]) simp
  moreover have "view t = (\<lambda>x. if new \<le> x \<and> x < old then None else view s x)"
    unfolding view_def t(2) l using trimmed_view [OF areas n al] w(3) by (simp add: fun_eq_iff)
  ultimately show ?thesis using recount_inv [OF t(1)] t(3) by (auto simp: run)
qed

lemma destroy_spec:
  assumes ok: "array_ok pm s"
  shows "\<exists>s'. kernel_vma_set_destroy s = (VMA_OK, s') \<and> live s' = [] \<and> (\<forall>p. p \<noteq> 0 \<longrightarrow> shm_refs s' p = 0)"
proof -
  note okD = array_okD [OF ok]
  have "shm_refs (fold (\<lambda>v. shm_close (shm_attachment v)) vs t) p = shm_refs t p - attachments p vs" if "p \<noteq> 0" for p vs t
  proof (induction vs arbitrary: t)
    case (Cons v vs)
    then show ?case using that by (simp add: shm_refs_close)
  qed simp
  then show ?thesis using okD(2,4,6,7)
    by (cases "entries s") (auto simp: kernel_vma_set_destroy_def shm_balanced_def live_def)
qed

end
