(* ===== verification/Vma_Theorems.thy ===== *)
theory Vma_Theorems
  imports Vma_Life
begin

text \<open>The properties of the area set of \<^verbatim>\<open>src/mm/vma.c\<close>, each at a concrete set.\<close>

section \<open>A concrete set\<close>

definition sample_area :: "u64 \<Rightarrow> u64 \<Rightarrow> vma" where
  "sample_area a b = vma_zero\<lparr>vstart := a, vend := b, permissions := 1, maximum_permissions := 7\<rparr>"

definition sample_set :: vma_set where
  "sample_set = \<lparr>self = 1, entries = [sample_area 0x1000 0x4000, vma_zero], vcount = 1, capacity = 2,
     generation = 5, total_bytes = 0x3000, data_bytes = 0, locked_bytes = 0, shm_refs = (\<lambda>_. 0)\<rparr>"

definition sample_heap :: vma_heap where
  "sample_heap = \<lparr>resize_status = (\<lambda>_. HEAP_OK), fresh_slot = vma_zero\<rparr>"

lemma sample_live: "live sample_set = [sample_area 0x1000 0x4000]"
  by (simp add: live_def sample_set_def)

lemma sample_area_ok: "area_ok 0xFFF (sample_area 0x1000 0x4000)" "area_ok 0xFFF (sample_area 0x5000 0x6000)"
  by (simp_all add: area_ok_def vma_valid_iff kind_ok_def sample_area_def vma_zero_def)

lemma sample_array_ok: "array_ok 0xFFF sample_set"
  using sample_area_ok(1)
  by (intro array_okI)
    (simp_all add: sample_live areas_ok_simps shm_balanced_def,
     simp_all add: sample_set_def sample_area_def vma_zero_def)

lemma sample_inv: "vset_inv 0xFFF sample_set"
  using sample_array_ok
  by (simp add: vset_inv_def sample_live accounted_def bytes_where_def)
    (simp add: sample_set_def sample_area_def vlen_def kernel_vma_is_data_def private_data_mapping_def
       area_locked_def vma_zero_def)

definition roomy_set :: vma_set where
  "roomy_set = sample_set\<lparr>entries := sample_area 0x1000 0x4000 # replicate 3 vma_zero, capacity := 4\<rparr>"

lemma roomy_inv: "vset_inv 0xFFF roomy_set"
proof -
  have "grown sample_set roomy_set" unfolding grown_def
    by (rule exI [of _ "sample_area 0x1000 0x4000 # replicate 3 vma_zero"], rule exI [of _ 4])
      (simp add: roomy_set_def sample_set_def numeral_3_eq_3)
  then show ?thesis using sample_inv by (rule grown_vset_inv)
qed

lemma sample_mask: "is_page_mask 0xFFF"
  unfolding is_page_mask_def by (rule exI [of _ 12]) (simp add: mask_eq_exp_minus_1)

section \<open>Edits refine updates of the address map\<close>

text \<open>
  C8. Every request on a well-formed set (insert, remove, replace, protect, change flags, with its
  prepare and commit calls under any heap behaviour) returns, keeps the representation invariant
  (sorted, disjoint, valid, maximally merged, byte counters exact, attachment references balanced)
  and is failure-atomic: on \<^verbatim>\<open>KERNEL_VMA_STATUS_OK\<close> the address map is updated exactly as the request
  says and the generation advances by one, on any other status both are unchanged. The addresses of the
  request are page-aligned, as all callers in \<^verbatim>\<open>src/mm/mm.c\<close> make them.
\<close>
theorem request_refines:
  assumes "vset_inv pm s" "is_page_mask pm" "request_aligned pm r"
  shows "\<exists>st s'. run_request pm h h' r s = Some (st, s') \<and> vset_inv pm s' \<and> self s' = self s \<and>
    (if st = VMA_OK then view s' = request_view r (view s) \<and> generation s' = generation s + 1
     else view s' = view s \<and> generation s' = generation s)"
  using run_request_done [OF assms, of h h'] by (simp add: request_done_def)

theorem request_refines_witness:
  "\<exists>st s'. run_request 0xFFF sample_heap sample_heap (Protect_range 0x2000 0x3000 3) sample_set = Some (st, s') \<and>
    vset_inv 0xFFF s' \<and> self s' = self sample_set \<and>
    (if st = VMA_OK then view s' = request_view (Protect_range 0x2000 0x3000 3) (view sample_set) \<and>
       generation s' = generation sample_set + 1
     else view s' = view sample_set \<and> generation s' = generation sample_set)"
  by (rule request_refines [OF sample_inv sample_mask]) simp

text \<open>
  C10. A history of requests of any length behaves like the same history of map updates, with the
  failed requests left out; no request of it traps and the invariant holds at the end. The addresses of the
  requests are page-aligned.
\<close>
theorem history_refines:
  assumes "vset_inv pm s" "is_page_mask pm" "list_all (\<lambda>c. request_aligned pm (snd (snd c))) cs"
  shows "\<exists>ds s'. run_all (request_step pm) cs s = Some (ds, s') \<and> length ds = length cs \<and> vset_inv pm s' \<and>
    view s' = replay (\<lambda>c. request_view (snd (snd c))) cs ds (view s)"
  using vset.history_replays [of pm s cs] assms by (simp add: list_all_iff)

theorem history_refines_witness:
  "\<exists>ds s'. run_all (request_step 0xFFF)
      [(sample_heap, sample_heap, Remove_range 0x2000 0x3000),
       (sample_heap, sample_heap, Insert_area (sample_area 0x2000 0x3000))] sample_set = Some (ds, s') \<and>
    length ds = 2 \<and> vset_inv 0xFFF s'"
  using history_refines [OF sample_inv sample_mask, of
      "[(sample_heap, sample_heap, Remove_range 0x2000 0x3000),
        (sample_heap, sample_heap, Insert_area (sample_area 0x2000 0x3000))]"]
  by (auto simp: sample_area_def)

text \<open>
  C9. The two-phase protocol: once a prepare call has admitted a request, its commit succeeds
  whatever the heap does afterwards, and performs the update on the address map. The addresses of the request
  are page-aligned.
\<close>
theorem prepared_request_commits:
  assumes "vset_inv pm s" "is_page_mask pm" "request_aligned pm r"
    "prepare_request pm h s r = Some (s1, Inr e)"
  shows "\<exists>s2. (\<forall>h'. kernel_vma_set_commit_edit pm h' s1 e = Some (VMA_OK, s2)) \<and> vset_inv pm s2 \<and>
    view s2 = request_view r (view s)"
proof -
  have ok: "array_ok pm s" using assms(1) by (simp add: vset_inv_def)
  have "r \<noteq> Insert_area v" for v using assms(4) by auto
  then have "admitted pm h s r" using request_admitted [OF ok assms(3)] by blast
  then have e: "e = request_edit r s" "grown s s1" "edit_ready pm s1 e"
    using assms(4) by (auto simp: admitted_def)
  have ok1: "array_ok pm s1" by (rule grown_array_ok [OF e(2) ok])
  show ?thesis using ready_commit [OF ok1 assms(2) e(3)] grown_view(1) [OF ok e(2)]
    by (auto simp: edited_def e(1) edit_view_request fun_eq_iff)
qed

theorem prepared_request_commits_witness:
  "\<exists>s2. (\<forall>h'. kernel_vma_set_commit_edit 0xFFF h' sample_set
        (request_edit (Remove_range 0x3000 0x5000) sample_set) = Some (VMA_OK, s2)) \<and> vset_inv 0xFFF s2 \<and>
    view s2 = request_view (Remove_range 0x3000 0x5000) (view sample_set)"
  using prepared_request_commits [OF sample_inv sample_mask, of "Remove_range 0x3000 0x5000" sample_heap sample_set
      "request_edit (Remove_range 0x3000 0x5000) sample_set"]
  by (simp add: kernel_vma_set_prepare_replace_def reserve_edit_capacity_def reserve_entries_def
      sample_set_def sample_area_def set_valid_def split_needed_def lower_bound_def after_address_def
      lower_bound_loop.simps)

text \<open>
  C11. Moving an area: a prepared remap always commits. The commit traps on no heap behaviour
  (both of its internal calls must succeed, or the C code stops the machine), and the result maps
  the replacement area, unmaps what is left of the old range and keeps every other address. The old range and
  the replacement are page-aligned.
\<close>
theorem prepared_remap_commits:
  assumes "vset_inv pm s" "is_page_mask pm" "a AND pm = 0" "b AND pm = 0" "vstart r AND pm = 0" "vend r AND pm = 0"
    "kernel_vma_set_prepare_remap pm h s a b r = Some (s1, Inr e)"
  shows "\<exists>s2. (\<forall>h'. kernel_vma_set_commit_remap pm h' s1 e = Some (VMA_OK, s2)) \<and> vset_inv pm s2 \<and>
    (\<forall>x. view s2 x = (if covers r x then Some (attr_at r x) else if a \<le> x \<and> x < b then None else view s x))"
proof -
  note p = prepare_remap_ready [OF assms(1,3-7)]
  show ?thesis
    unfolding p(8) p(2) [symmetric] by (rule remap_commit [OF p(1) assms(2-4) p(3-7)])
qed

theorem prepared_remap_commits_witness:
  "\<exists>s2. (\<forall>h'. kernel_vma_set_commit_remap 0xFFF h' roomy_set
        \<lparr>remap_set = 1, remap_generation = 5, remap_start = 0x1000, remap_end = 0x4000,
         remap_replacement = sample_area 0x8000 0xC000\<rparr> = Some (VMA_OK, s2)) \<and> vset_inv 0xFFF s2 \<and>
    (\<forall>x. view s2 x = (if covers (sample_area 0x8000 0xC000) x then Some (attr_at (sample_area 0x8000 0xC000) x)
       else if 0x1000 \<le> x \<and> x < 0x4000 then None else view roomy_set x))"
proof -
  have "kernel_vma_set_prepare_remap 0xFFF sample_heap roomy_set 0x1000 0x4000 (sample_area 0x8000 0xC000) =
    Some (roomy_set, Inr \<lparr>remap_set = 1, remap_generation = 5, remap_start = 0x1000, remap_end = 0x4000,
         remap_replacement = sample_area 0x8000 0xC000\<rparr>)"
    by (simp add: kernel_vma_set_prepare_remap_def reserve_entries_def roomy_set_def sample_set_def set_valid_def
        vma_valid_iff kind_ok_def sample_area_def vma_zero_def kernel_vma_set_overlaps_def lower_bound_def
        lower_bound_loop.simps)
  from prepared_remap_commits [OF roomy_inv sample_mask _ _ _ _ this] show ?thesis
    by (simp add: sample_area_def)
qed

section \<open>Queries answer from the address map\<close>

text \<open>
  C13. The binary search behind \<^verbatim>\<open>kernel_vma_set_lookup\<close> returns the area that contains the address,
  and reports \<^verbatim>\<open>NOT_FOUND\<close> exactly for unmapped addresses, for every address up to \<^verbatim>\<open>UINT64_MAX\<close>.
\<close>
theorem lookup_correct:
  assumes "vset_inv pm s"
  shows "(kernel_vma_set_lookup s a = Inr v \<longleftrightarrow> v \<in> set (live s) \<and> covers v a) \<and>
    (kernel_vma_set_lookup s a = Inl VMA_NOT_FOUND \<longleftrightarrow> view s a = None)"
proof -
  have ok: "array_ok pm s" using assms by (simp add: vset_inv_def)
  show ?thesis
    using lookup_spec [OF ok, of a] find_covers_iff [OF array_okD(8) [OF ok], of a] view_find [of s a]
    by (cases "find (\<lambda>v. covers v a) (live s)") auto
qed

theorem lookup_correct_witness:
  "kernel_vma_set_lookup sample_set 0x2FFF = Inr (sample_area 0x1000 0x4000) \<and> view sample_set 0x4000 = None"
  using lookup_correct [OF sample_inv, of "0x2FFF" "sample_area 0x1000 0x4000"]
    lookup_correct [OF sample_inv, of "0x4000" "sample_area 0x1000 0x4000"]
  by (simp add: sample_live covers_def sample_area_def view_def)

text \<open>
  \<^verbatim>\<open>kernel_vma_set_overlaps\<close> inspects two neighbours only, and still answers exactly whether any
  address of the range is mapped.
\<close>
theorem overlaps_correct:
  assumes "vset_inv pm s" "a < b"
  shows "kernel_vma_set_overlaps s a b = Inr (\<exists>x. a \<le> x \<and> x < b \<and> view s x \<noteq> None)"
  using overlaps_spec [of pm s a b] assms by (simp add: vset_inv_def)

theorem overlaps_correct_witness:
  "kernel_vma_set_overlaps sample_set 0x3FFF 0x9000 = Inr (\<exists>x. 0x3FFF \<le> x \<and> x < 0x9000 \<and> view sample_set x \<noteq> None)"
  by (rule overlaps_correct [OF sample_inv]) simp

text \<open>
  C14. The top-down gap search returns a free range inside the window. Unless it honours the hint,
  the range is the highest one of that length, and \<^verbatim>\<open>NOT_FOUND\<close> means that no free range of that
  length exists in the window.
\<close>
theorem topdown_gap_correct:
  assumes "vset_inv pm s" "lower < upper" "0 < len" "len \<le> upper - lower"
  defines "free g \<equiv> lower \<le> g \<and> unat g + unat len \<le> unat upper \<and>
      (\<forall>x. unat g \<le> unat x \<and> unat x < unat g + unat len \<longrightarrow> view s x = None)"
  shows "case kernel_vma_set_find_topdown_gap s hint lower upper len of
      Inr g \<Rightarrow> free g \<and> (g = hint \<or> (\<forall>g'. free g' \<longrightarrow> g' \<le> g))
    | Inl st \<Rightarrow> st = VMA_NOT_FOUND \<and> \<not> (\<exists>g. free g)"
proof -
  have ok: "array_ok pm s" using assms(1) by (simp add: vset_inv_def)
  have f: "free g \<longleftrightarrow> unat lower \<le> unat g \<and> unat g + unat len \<le> unat upper \<and> hole (live s) g len" for g
    unfolding free_def using hole_view [of s len g] array_okD(8,10) [OF ok] assms(3)
    by (simp add: word_le_nat_alt)
  from find_topdown_gap_cases [OF ok assms(2-4), of hint] show ?thesis
  proof (elim disjE exE conjE)
    fix r assume "best_below (live s) lower len (unat upper) r"
      "kernel_vma_set_find_topdown_gap s hint lower upper len =
        (case r of Some g \<Rightarrow> Inr g | None \<Rightarrow> Inl VMA_NOT_FOUND)"
    then show ?thesis by (cases r) (auto simp: f best_below_def word_le_nat_alt)
  next
    assume "kernel_vma_set_find_topdown_gap s hint lower upper len = Inr hint" "lower \<le> hint"
      "unat hint + unat len \<le> unat upper" "hole (live s) hint len"
    then show ?thesis by (simp add: f word_le_nat_alt)
  qed
qed

theorem topdown_gap_correct_witness:
  "kernel_vma_set_find_topdown_gap sample_set 0x2000 0x1000 0x6000 0x1000 = Inr 0x5000 \<and>
   view sample_set 0x5FFF = None"
proof -
  have r: "kernel_vma_set_find_topdown_gap sample_set 0x2000 0x1000 0x6000 0x1000 = Inr 0x5000"
    by (simp add: kernel_vma_set_find_topdown_gap_def sample_set_def set_valid_def sample_area_def
        kernel_vma_set_overlaps_def lower_bound_def lower_bound_loop.simps)
  show ?thesis
    using topdown_gap_correct [OF sample_inv, of "0x1000" "0x6000" "0x1000" "0x2000"] unfolding r by simp
qed

text \<open>
  \<^verbatim>\<open>kernel_vma_set_locked_range\<close> counts exactly the bytes of the range that lie in locked areas,
  without wrapping.
\<close>
theorem locked_range_counts:
  assumes "vset_inv pm s" "a < b"
  shows "unat (kernel_vma_set_locked_range s a b) =
    card {x. a \<le> x \<and> x < b \<and> (\<exists>t. view s x = Some t \<and> at_flags t AND VMA_LOCKED \<noteq> 0)}"
proof -
  have ok: "array_ok pm s" using assms(1) by (simp add: vset_inv_def)
  note okD = array_okD [OF ok]
  have eq: "locked_in (live s) a b = {x. a \<le> x \<and> x < b \<and> (\<exists>t. view s x = Some t \<and> at_flags t AND VMA_LOCKED \<noteq> 0)}"
    using lview_covers [OF okD(8)] lview_Some_covers [of "live s"]
    by (fastforce simp: locked_in_def view_def attr_at_def)
  have "card (locked_in (live s) a b) \<le> card {x. a \<le> x \<and> x < b}"
    by (rule card_mono) (auto simp: locked_in_def)
  also have "\<dots> \<le> unat b" by (simp only: card_word_range diff_le_self)
  also have "\<dots> < 2 ^ 64" using unsigned_less [of b, where 'a = nat] by simp
  finally have "unat (0 :: u64) + card (locked_in (live s) a b) < 2 ^ 64" by simp
  from locked_range_loop_spec [OF okD(8) _ assms(2) this] okD(10) show ?thesis
    by (simp add: kernel_vma_set_locked_range_def eq)
qed

theorem locked_range_counts_witness:
  "unat (kernel_vma_set_locked_range sample_set 0x2000 0x9000) =
    card {x. 0x2000 \<le> x \<and> x < 0x9000 \<and> (\<exists>t. view sample_set x = Some t \<and> at_flags t AND VMA_LOCKED \<noteq> 0)}"
  by (rule locked_range_counts [OF sample_inv]) simp

section \<open>Statuses\<close>

text \<open>
  C28. Insertion reports \<^verbatim>\<open>CONFLICT\<close> exactly when the new area shares an address with the set, and a
  conflict-free insertion into a set with a free slot succeeds without asking the heap.
\<close>
theorem insert_status:
  assumes "vset_inv pm s" "area_ok pm v" "generation s \<noteq> u64_max"
  shows "(kernel_vma_set_insert pm h s v = Some (VMA_CONFLICT, s) \<longleftrightarrow> (\<exists>x. covers v x \<and> view s x \<noteq> None)) \<and>
    (vcount s < capacity s \<and> (\<forall>x. covers v x \<longrightarrow> view s x = None) \<longrightarrow>
      (\<exists>s'. \<forall>h. kernel_vma_set_insert pm h s v = Some (VMA_OK, s')))"
proof
  show "kernel_vma_set_insert pm h s v = Some (VMA_CONFLICT, s) \<longleftrightarrow> (\<exists>x. covers v x \<and> view s x \<noteq> None)"
  proof
    assume c: "kernel_vma_set_insert pm h s v = Some (VMA_CONFLICT, s)"
    have "\<not> (\<forall>x. covers v x \<longrightarrow> view s x = None)"
    proof
      assume "\<forall>x. covers v x \<longrightarrow> view s x = None"
      from insert_free [OF assms this, of h] c show False by auto
    qed
    then show "\<exists>x. covers v x \<and> view s x \<noteq> None" by (simp only: not_all not_imp)
  qed (rule insert_conflict [OF assms])
  show "vcount s < capacity s \<and> (\<forall>x. covers v x \<longrightarrow> view s x = None) \<longrightarrow>
      (\<exists>s'. \<forall>h. kernel_vma_set_insert pm h s v = Some (VMA_OK, s'))"
    using insert_with_room [OF assms] by blast
qed

theorem insert_status_witness:
  "kernel_vma_set_insert 0xFFF sample_heap sample_set (sample_area 0x1000 0x4000) = Some (VMA_CONFLICT, sample_set)"
proof -
  have "covers (sample_area 0x1000 0x4000) 0x2000 \<and> view sample_set 0x2000 \<noteq> None"
    by (simp add: view_def sample_live covers_def sample_area_def)
  moreover have "generation sample_set \<noteq> u64_max" by (simp add: sample_set_def)
  ultimately show ?thesis
    using insert_status [OF sample_inv sample_area_ok(1), of sample_heap] by blast
qed

text \<open>
  Admission of a permission change: \<^verbatim>\<open>NOT_FOUND\<close> exactly when some address of the range is
  unmapped, else \<^verbatim>\<open>ACCESS\<close> exactly when some mapped address forbids one of the requested
  permissions; neither changes the set.
\<close>
theorem prepare_protect_status:
  assumes "vset_inv pm s" "a < b"
  shows "((\<exists>x. a \<le> x \<and> x < b \<and> view s x = None) \<longrightarrow>
      kernel_vma_set_prepare_protect h s a b perms = Some (s, Inl VMA_NOT_FOUND)) \<and>
    ((\<forall>x. a \<le> x \<and> x < b \<longrightarrow> view s x \<noteq> None) \<longrightarrow>
      (kernel_vma_set_prepare_protect h s a b perms = Some (s, Inl VMA_ACCESS) \<longleftrightarrow>
        (\<exists>x t. a \<le> x \<and> x < b \<and> view s x = Some t \<and>
           perms AND VMA_ALL_PERMISSIONS AND NOT (at_maximum t) \<noteq> 0)))"
proof -
  have ok: "array_ok pm s" using assms(1) by (simp add: vset_inv_def)
  note cov = range_is_covered_spec [OF ok, of a b] and perm = permission_scan_spec [OF ok assms(2), of perms]
  have args: "\<not> (\<not> set_valid s \<or> b \<le> a)" using array_okD(7) [OF ok] assms(2) by (simp add: not_le)
  have admit: "kernel_vma_set_prepare_protect h s a b perms \<noteq> Some (s, Inl VMA_ACCESS)"
    if "range_is_covered s a b" "permission_loop s b perms (first_slot s a)"
    using reserve_edit_capacity_cases [OF ok assms(2), of h False] that args
    by (auto simp: kernel_vma_set_prepare_protect_def)
  show ?thesis
  proof (intro conjI impI)
    assume "\<exists>x. a \<le> x \<and> x < b \<and> view s x = None"
    then have "\<not> range_is_covered s a b" unfolding cov by blast
    then show "kernel_vma_set_prepare_protect h s a b perms = Some (s, Inl VMA_NOT_FOUND)"
      unfolding kernel_vma_set_prepare_protect_def if_not_P [OF args] by simp
  next
    assume "\<forall>x. a \<le> x \<and> x < b \<longrightarrow> view s x \<noteq> None"
    then have c: "range_is_covered s a b" unfolding cov .
    have "kernel_vma_set_prepare_protect h s a b perms = Some (s, Inl VMA_ACCESS) \<longleftrightarrow>
        \<not> permission_loop s b perms (first_slot s a)"
      using admit [OF c] c unfolding kernel_vma_set_prepare_protect_def if_not_P [OF args] by auto
    then show "kernel_vma_set_prepare_protect h s a b perms = Some (s, Inl VMA_ACCESS) \<longleftrightarrow>
        (\<exists>x t. a \<le> x \<and> x < b \<and> view s x = Some t \<and>
           perms AND VMA_ALL_PERMISSIONS AND NOT (at_maximum t) \<noteq> 0)"
      unfolding perm by simp
  qed
qed

theorem prepare_protect_status_witness:
  "kernel_vma_set_prepare_protect sample_heap sample_set 0x3000 0x5000 3 = Some (sample_set, Inl VMA_NOT_FOUND)"
proof -
  have lt: "(0x3000 :: u64) < 0x5000" by simp
  have "0x3000 \<le> (0x4000 :: u64) \<and> 0x4000 < (0x5000 :: u64) \<and> view sample_set 0x4000 = None"
    by (simp add: view_def sample_live covers_def sample_area_def)
  then have ex: "\<exists>x. 0x3000 \<le> x \<and> x < 0x5000 \<and> view sample_set x = None" by (rule exI)
  show ?thesis
    by (rule prepare_protect_status [OF sample_inv lt, THEN conjunct1, THEN mp, OF ex])
qed

section \<open>Life cycle\<close>

text \<open>
  C39. Forking. If the heap grants the set and its array (of the first power of two from 8 on that is enough), the child's map
  is the parent's map without the \<^verbatim>\<open>DONTFORK\<close> areas and with every lock flag cleared, its invariant holds (so the attachment
  references it opened match its areas) and it has no locked bytes. The call fails exactly if the heap refuses one of the two
  allocations, or there are more than \<^verbatim>\<open>2^31\<close> areas, with \<^verbatim>\<open>NO_MEMORY\<close> if the heap is empty and \<^verbatim>\<open>STATE\<close> otherwise.
\<close>
theorem fork_copies:
  assumes "vset_inv pm s" "p \<noteq> 0"
  shows "\<exists>r. kernel_vma_set_fork h st p s = Some r \<and>
    (if st = HEAP_OK \<and> array_status h (vcount s) = HEAP_OK
     then \<exists>w. r = Inr w \<and> vset_inv pm w \<and> self w = p \<and> locked_bytes w = 0 \<and>
       view w = (\<lambda>x. case view s x of
           Some t \<Rightarrow> if at_flags t AND VMA_DONTFORK = 0 then Some (attr_unlocked t) else None
         | None \<Rightarrow> None)
     else r = Inl (heap_error (if st = HEAP_OK then array_status h (vcount s) else st)))"
  by (rule fork_spec [OF assms, unfolded fork_view_def [abs_def]])

text \<open>A parent with a locked area and one that is not inherited.\<close>

definition parent_areas :: "vma list" where
  "parent_areas = [(sample_area 0x1000 0x4000)\<lparr>vflags := VMA_LOCKED\<rparr>, (sample_area 0x5000 0x6000)\<lparr>vflags := VMA_DONTFORK\<rparr>]"

definition parent_set :: vma_set where
  "parent_set = sample_set\<lparr>entries := parent_areas, vcount := 2, total_bytes := 0x4000, locked_bytes := 0x3000\<rparr>"

lemma parent_inv: "vset_inv 0xFFF parent_set"
proof -
  have l: "live parent_set = parent_areas" by (simp add: live_def parent_set_def parent_areas_def)
  have "area_ok 0xFFF v" if "v \<in> set parent_areas" for v
    using that by (auto simp: parent_areas_def area_ok_def vma_valid_iff kind_ok_def sample_area_def vma_zero_def)
  then have "array_ok 0xFFF parent_set"
    by (intro array_okI)
      (simp_all add: l areas_ok_simps shm_balanced_def parent_areas_def,
       simp_all add: parent_set_def parent_areas_def sample_set_def sample_area_def vma_zero_def)
  then show ?thesis
    by (simp add: vset_inv_def l accounted_def bytes_where_def parent_areas_def can_merge_def)
      (simp add: parent_set_def sample_set_def sample_area_def vlen_def kernel_vma_is_data_def private_data_mapping_def
         area_locked_def vma_zero_def)
qed

theorem fork_copies_witness:
  "\<exists>w. kernel_vma_set_fork sample_heap HEAP_OK 2 parent_set = Some (Inr w) \<and> vset_inv 0xFFF w \<and> locked_bytes w = 0 \<and>
     map_option at_flags (view w 0x2000) = Some 0 \<and> view w 0x5000 = None"
proof -
  have "array_status sample_heap (vcount parent_set) = HEAP_OK"
    by (simp add: array_status_def slot_count_def sample_heap_def parent_set_def upt_conv_Cons)
  then obtain w where w: "kernel_vma_set_fork sample_heap HEAP_OK 2 parent_set = Some (Inr w)" "vset_inv 0xFFF w" "locked_bytes w = 0"
    "view w = (\<lambda>x. case view parent_set x of Some t \<Rightarrow> if at_flags t AND VMA_DONTFORK = 0 then Some (attr_unlocked t) else None | None \<Rightarrow> None)"
    using fork_copies [OF parent_inv, of 2 sample_heap HEAP_OK] by auto
  then show ?thesis
    by (simp add: view_def live_def parent_set_def parent_areas_def covers_def attr_at_def attr_unlocked_def sample_area_def)
qed

text \<open>
  Dropping all locks clears the lock flags of every mapped address, leaves everything else of
  the map alone, merges what became equal, and zeroes the locked-byte counter.
\<close>
theorem clear_locks_unlocks:
  assumes "vset_inv pm s"
  shows "\<exists>s'. kernel_vma_set_clear_locks s = Some s' \<and> vset_inv pm s' \<and> locked_bytes s' = 0 \<and>
    view s' = (\<lambda>x. map_option attr_unlocked (view s x)) \<and> generation s' = generation s + 1"
  by (rule clear_locks_spec [OF assms])

theorem clear_locks_unlocks_witness:
  "\<exists>s'. kernel_vma_set_clear_locks sample_set = Some s' \<and> vset_inv 0xFFF s' \<and> locked_bytes s' = 0 \<and>
    view s' = (\<lambda>x. map_option attr_unlocked (view sample_set x)) \<and> generation s' = generation sample_set + 1"
  by (rule clear_locks_unlocks [OF sample_inv])

text \<open>
  Trimming the end of an area (a shrinking \<^verbatim>\<open>brk\<close>) unmaps exactly the addresses from the new end
  to the old one, needs no further merging and keeps the invariant, also when nothing of the area
  is left.
\<close>
theorem trim_end_unmaps:
  assumes "vset_inv pm s" "a < old" "a \<le> new" "new < old" "new AND pm = 0" "generation s \<noteq> u64_max"
    "w \<in> set (live s)" "vstart w = a" "vend w = old"
  shows "\<exists>s'. kernel_vma_set_trim_end s a old new = Some (VMA_OK, s') \<and> vset_inv pm s' \<and>
    generation s' = generation s + 1 \<and>
    view s' = (\<lambda>x. if new \<le> x \<and> x < old then None else view s x)"
  by (rule trim_end_spec [OF assms])

theorem trim_end_unmaps_witness:
  "\<exists>s'. kernel_vma_set_trim_end sample_set 0x1000 0x4000 0x3000 = Some (VMA_OK, s') \<and> vset_inv 0xFFF s' \<and>
    generation s' = generation sample_set + 1 \<and>
    view s' = (\<lambda>x. if 0x3000 \<le> x \<and> x < 0x4000 then None else view sample_set x)"
proof (rule trim_end_unmaps [OF sample_inv])
  show "sample_area 0x1000 0x4000 \<in> set (live sample_set)" by (simp add: sample_live)
  show "generation sample_set \<noteq> u64_max" by (simp add: sample_set_def)
qed (simp_all add: sample_area_def)

text \<open>
  Destroying a set closes every shared-memory attachment it opened: no reference is left and
  no area is live.
\<close>
theorem destroy_closes_all:
  assumes "vset_inv pm s"
  shows "\<exists>s'. kernel_vma_set_destroy s = (VMA_OK, s') \<and> live s' = [] \<and> (\<forall>p. p \<noteq> 0 \<longrightarrow> shm_refs s' p = 0)"
  using destroy_spec [of pm s] assms by (simp add: vset_inv_def)

theorem destroy_closes_all_witness:
  "\<exists>s'. kernel_vma_set_destroy sample_set = (VMA_OK, s') \<and> live s' = []"
  using destroy_closes_all [OF sample_inv] by blast

end
