(* ===== verification/Avl.thy ===== *)
theory Avl
  imports Kernel_Interface
begin

text \<open>
  The intrusive AVL tree of \<^verbatim>\<open>src/include/kernel/avl.h\<close>. A tree is the value reached through the
  \<^verbatim>\<open>left\<close> and \<^verbatim>\<open>right\<close> pointers; a node keeps its address, because equal keys are ordered by it and
  removal compares pointers. Following a null pointer and \<^verbatim>\<open>__builtin_trap\<close> are both \<open>None\<close>.
  The embedding object is the record extension of the node, so other intrusive trees of the
  kernel can reuse the theory.
\<close>

record 'k avl_node =
  addr :: ptr
  key :: 'k

datatype ('k, 'm) atree =
    ALeaf
  | ANode "('k, 'm) atree" "('k, 'm) avl_node_scheme" int "('k, 'm) atree"

fun kernel_avl_height :: "('k, 'm) atree \<Rightarrow> int" where
  "kernel_avl_height ALeaf = 0"
| "kernel_avl_height (ANode l x h r) = h"

text \<open>\<^verbatim>\<open>kernel_avl_update\<close> on the node with the given children, with the conversion to \<^verbatim>\<open>int8_t\<close>.\<close>

definition kernel_avl_update ::
  "('k, 'm) atree \<Rightarrow> ('k, 'm) avl_node_scheme \<Rightarrow> ('k, 'm) atree \<Rightarrow> ('k, 'm) atree" where
  "kernel_avl_update l x r =
     (let left = kernel_avl_height l; right = kernel_avl_height r
      in ANode l x (int8 (1 + (if right < left then left else right))) r)"

fun kernel_avl_rotate_left :: "('k, 'm) atree \<Rightarrow> ('k, 'm) atree option" where
  "kernel_avl_rotate_left (ANode l x h (ANode rl y hr rr)) =
     Some (kernel_avl_update (kernel_avl_update l x rl) y rr)"
| "kernel_avl_rotate_left _ = None"

fun kernel_avl_rotate_right :: "('k, 'm) atree \<Rightarrow> ('k, 'm) atree option" where
  "kernel_avl_rotate_right (ANode (ANode ll y hl lr) x h r) =
     Some (kernel_avl_update ll y (kernel_avl_update lr x r))"
| "kernel_avl_rotate_right _ = None"

definition kernel_avl_balance ::
  "('k, 'm) atree \<Rightarrow> ('k, 'm) avl_node_scheme \<Rightarrow> ('k, 'm) atree \<Rightarrow> ('k, 'm) atree option" where
  "kernel_avl_balance l x r =
     (if 1 < kernel_avl_height l - kernel_avl_height r then
        (case l of
           ALeaf \<Rightarrow> None
         | ANode ll y hl lr \<Rightarrow> do {
             l' \<leftarrow> (if kernel_avl_height ll < kernel_avl_height lr then kernel_avl_rotate_left l else Some l);
             kernel_avl_rotate_right (kernel_avl_update l' x r)
           })
      else if 1 < kernel_avl_height r - kernel_avl_height l then
        (case r of
           ALeaf \<Rightarrow> None
         | ANode rl y hr rr \<Rightarrow> do {
             r' \<leftarrow> (if kernel_avl_height rr < kernel_avl_height rl then kernel_avl_rotate_right r else Some r);
             kernel_avl_rotate_left (kernel_avl_update l x r')
           })
      else Some (kernel_avl_update l x r))"

definition kernel_avl_before ::
  "('k :: linorder, 'm) avl_node_scheme \<Rightarrow> ('k, 'm) avl_node_scheme \<Rightarrow> bool" where
  "kernel_avl_before a b \<longleftrightarrow> key a < key b \<or> (key a = key b \<and> addr a < addr b)"

text \<open>A node is inserted with both links null and height one, as every caller initialises it.\<close>

fun kernel_avl_insert_node ::
  "('k :: linorder, 'm) atree \<Rightarrow> ('k, 'm) avl_node_scheme \<Rightarrow> ('k, 'm) atree option" where
  "kernel_avl_insert_node ALeaf task = Some (ANode ALeaf task 1 ALeaf)"
| "kernel_avl_insert_node (ANode l x h r) task =
     (if kernel_avl_before task x
      then do { l' \<leftarrow> kernel_avl_insert_node l task; kernel_avl_balance l' x r }
      else do { r' \<leftarrow> kernel_avl_insert_node r task; kernel_avl_balance l x r' })"

fun kernel_avl_extract_min ::
  "('k, 'm) atree \<Rightarrow> (('k, 'm) avl_node_scheme \<times> ('k, 'm) atree) option" where
  "kernel_avl_extract_min ALeaf = None"
| "kernel_avl_extract_min (ANode l x h r) =
     (if l = ALeaf then Some (x, r)
      else do {
        (minimum, l') \<leftarrow> kernel_avl_extract_min l;
        t \<leftarrow> kernel_avl_balance l' x r;
        Some (minimum, t)
      })"

fun kernel_avl_remove_node ::
  "('k :: linorder, 'm) atree \<Rightarrow> ('k, 'm) avl_node_scheme \<Rightarrow> ('k, 'm) atree option" where
  "kernel_avl_remove_node ALeaf task = None"
| "kernel_avl_remove_node (ANode l x h r) task =
     (if addr x \<noteq> addr task then
        if kernel_avl_before task x
        then do { l' \<leftarrow> kernel_avl_remove_node l task; kernel_avl_balance l' x r }
        else do { r' \<leftarrow> kernel_avl_remove_node r task; kernel_avl_balance l x r' }
      else if l = ALeaf then Some r
      else if r = ALeaf then Some l
      else do {
        (next, right) \<leftarrow> kernel_avl_extract_min r;
        kernel_avl_balance l next right
      })"

fun kernel_avl_first :: "('k, 'm) atree \<Rightarrow> ('k, 'm) avl_node_scheme option" where
  "kernel_avl_first ALeaf = None"
| "kernel_avl_first (ANode l x h r) = (if l \<noteq> ALeaf then kernel_avl_first l else Some x)"

fun kernel_avl_last :: "('k, 'm) atree \<Rightarrow> ('k, 'm) avl_node_scheme option" where
  "kernel_avl_last ALeaf = None"
| "kernel_avl_last (ANode l x h r) = (if r \<noteq> ALeaf then kernel_avl_last r else Some x)"

fun avl_after_loop ::
  "('k :: linorder, 'm) atree \<Rightarrow> 'k \<Rightarrow> ('k, 'm) avl_node_scheme option \<Rightarrow> ('k, 'm) avl_node_scheme option" where
  "avl_after_loop ALeaf k next = next"
| "avl_after_loop (ANode l x h r) k next =
     (if k < key x then avl_after_loop l k (Some x) else avl_after_loop r k next)"

definition kernel_avl_after :: "('k :: linorder, 'm) atree \<Rightarrow> 'k \<Rightarrow> ('k, 'm) avl_node_scheme option" where
  "kernel_avl_after t k = avl_after_loop t k None"

section \<open>Shape\<close>

fun inorder :: "('k, 'm) atree \<Rightarrow> ('k, 'm) avl_node_scheme list" where
  "inorder ALeaf = []"
| "inorder (ANode l x h r) = inorder l @ x # inorder r"

fun depth :: "('k, 'm) atree \<Rightarrow> nat" where
  "depth ALeaf = 0"
| "depth (ANode l x h r) = Suc (max (depth l) (depth r))"

fun avl :: "('k, 'm) atree \<Rightarrow> bool" where
  "avl ALeaf \<longleftrightarrow> True"
| "avl (ANode l x h r) \<longleftrightarrow> avl l \<and> avl r \<and> h = int (Suc (max (depth l) (depth r))) \<and>
     depth l \<le> Suc (depth r) \<and> depth r \<le> Suc (depth l)"

lemma avl_height [simp]: "avl t \<Longrightarrow> kernel_avl_height t = int (depth t)"
  by (cases t) simp_all

lemma int8_small: "n \<le> 127 \<Longrightarrow> int8 (int n) = int n"
  by (simp add: int8_def)

lemma update_fits:
  assumes "avl l" "avl r" "depth l \<le> 126" "depth r \<le> 126"
  shows "kernel_avl_update l x r = ANode l x (int (Suc (max (depth l) (depth r)))) r"
proof -
  have "1 + (if int (depth r) < int (depth l) then int (depth l) else int (depth r))
      = int (Suc (max (depth l) (depth r)))" by simp
  then show ?thesis using assms int8_small [of "Suc (max (depth l) (depth r))"]
    by (simp add: kernel_avl_update_def Let_def)
qed

lemma update_simps [simp]:
  "inorder (kernel_avl_update l x r) = inorder l @ x # inorder r"
  "depth (kernel_avl_update l x r) = Suc (max (depth l) (depth r))"
  by (simp_all add: kernel_avl_update_def Let_def)

lemma avl_update:
  assumes "avl l" "avl r" "depth l \<le> 126" "depth r \<le> 126" "depth l \<le> Suc (depth r)" "depth r \<le> Suc (depth l)"
  shows "avl (kernel_avl_update l x r)"
  using assms by (simp add: update_fits)

section \<open>Rebalancing\<close>

text \<open>
  Children whose depths differ by at most two are rebalanced without following a null pointer,
  keeping the in-order sequence.
\<close>

lemma rotate_updated [simp]:
  "kernel_avl_rotate_right (kernel_avl_update (ANode ll y h lr) x r) =
     Some (kernel_avl_update ll y (kernel_avl_update lr x r))"
  "kernel_avl_rotate_left (kernel_avl_update l x (ANode rl y h rr)) =
     Some (kernel_avl_update (kernel_avl_update l x rl) y rr)"
  by (simp_all add: kernel_avl_update_def Let_def)

definition balanced_as ::
  "('k, 'm) atree \<Rightarrow> nat \<Rightarrow> nat \<Rightarrow> ('k, 'm) avl_node_scheme list \<Rightarrow> bool" where
  "balanced_as t lo hi xs \<longleftrightarrow> avl t \<and> lo \<le> depth t \<and> depth t \<le> hi \<and> inorder t = xs"

lemma balance_left:
  assumes l: "avl l" "depth l \<le> 124" and r: "avl r" and d: "depth l = depth r + 2"
  shows "\<exists>t. kernel_avl_balance l x r = Some t \<and>
    balanced_as t (depth l) (Suc (depth l)) (inorder l @ x # inorder r)"
proof -
  obtain ll y h lr where ln: "l = ANode ll y h lr" using d by (cases l) auto
  have a: "avl ll" "avl lr" "depth ll \<le> Suc (depth lr)" "depth lr \<le> Suc (depth ll)"
    "Suc (max (depth ll) (depth lr)) = depth r + 2" using l(1) d ln by auto
  have test: "1 < kernel_avl_height l - kernel_avl_height r" using l r d by simp
  have small: "depth r \<le> 122" "depth ll \<le> 123" "depth lr \<le> 123" using l(2) d ln by auto
  show ?thesis
  proof (cases "depth ll < depth lr")
    case False
    then have dl: "depth ll = Suc (depth r)" "depth lr = depth r \<or> depth lr = Suc (depth r)" using a by auto
    have "kernel_avl_balance l x r = Some (kernel_avl_update ll y (kernel_avl_update lr x r))"
      using test False a ln by (simp add: kernel_avl_balance_def)
    moreover have "avl (kernel_avl_update lr x r)"
      using dl small by (auto intro!: avl_update a r)
    ultimately show ?thesis
      using avl_update [of ll "kernel_avl_update lr x r" y] dl small a d ln
      by (auto simp: balanced_as_def)
  next
    case True
    then have dl: "depth lr = Suc (depth r)" "depth ll = depth r" using a by auto
    obtain lrl z h' lrr where lrn: "lr = ANode lrl z h' lrr" using True by (cases lr) auto
    have b: "avl lrl" "avl lrr" "depth lrl \<le> Suc (depth lrr)" "depth lrr \<le> Suc (depth lrl)"
      "max (depth lrl) (depth lrr) = depth r" using a(2) dl lrn by auto
    let ?a = "kernel_avl_update ll y lrl" and ?b = "kernel_avl_update lrr x r"
    have lo: "avl ?a" "avl ?b"
      using b dl small by (auto intro!: avl_update a r)
    have rot: "kernel_avl_rotate_left l = Some (kernel_avl_update ?a z lrr)" by (simp add: ln lrn)
    have "kernel_avl_rotate_right (kernel_avl_update (kernel_avl_update ?a z lrr) x r)
        = Some (kernel_avl_update ?a z ?b)"
      by (simp add: kernel_avl_update_def Let_def)
    then have "kernel_avl_balance l x r = Some (kernel_avl_update ?a z ?b)"
      using test True a rot ln by (simp add: kernel_avl_balance_def)
    moreover have "avl (kernel_avl_update ?a z ?b)" "depth (kernel_avl_update ?a z ?b) = depth l"
      using avl_update [of ?a ?b z] lo b dl small d by auto
    ultimately show ?thesis by (auto simp: balanced_as_def ln lrn)
  qed
qed

lemma balance_right:
  assumes r: "avl r" "depth r \<le> 124" and l: "avl l" and d: "depth r = depth l + 2"
  shows "\<exists>t. kernel_avl_balance l x r = Some t \<and>
    balanced_as t (depth r) (Suc (depth r)) (inorder l @ x # inorder r)"
proof -
  obtain rl y h rr where rn: "r = ANode rl y h rr" using d by (cases r) auto
  have a: "avl rl" "avl rr" "depth rl \<le> Suc (depth rr)" "depth rr \<le> Suc (depth rl)"
    "Suc (max (depth rl) (depth rr)) = depth l + 2" using r(1) d rn by auto
  have test: "\<not> 1 < kernel_avl_height l - kernel_avl_height r" "1 < kernel_avl_height r - kernel_avl_height l"
    using l r d by simp_all
  have small: "depth l \<le> 122" "depth rl \<le> 123" "depth rr \<le> 123" using r(2) d rn by auto
  show ?thesis
  proof (cases "depth rr < depth rl")
    case False
    then have dl: "depth rr = Suc (depth l)" "depth rl = depth l \<or> depth rl = Suc (depth l)" using a by auto
    have "kernel_avl_balance l x r = Some (kernel_avl_update (kernel_avl_update l x rl) y rr)"
      using test False a rn by (simp add: kernel_avl_balance_def)
    moreover have "avl (kernel_avl_update l x rl)"
      using dl small by (auto intro!: avl_update a l)
    ultimately show ?thesis
      using avl_update [of "kernel_avl_update l x rl" rr y] dl small a d rn
      by (auto simp: balanced_as_def)
  next
    case True
    then have dl: "depth rl = Suc (depth l)" "depth rr = depth l" using a by auto
    obtain rll z h' rlr where rln: "rl = ANode rll z h' rlr" using True by (cases rl) auto
    have b: "avl rll" "avl rlr" "depth rll \<le> Suc (depth rlr)" "depth rlr \<le> Suc (depth rll)"
      "max (depth rll) (depth rlr) = depth l" using a(1) dl rln by auto
    let ?a = "kernel_avl_update l x rll" and ?b = "kernel_avl_update rlr y rr"
    have lo: "avl ?a" "avl ?b"
      using b dl small by (auto intro!: avl_update a l)
    have rot: "kernel_avl_rotate_right r = Some (kernel_avl_update rll z ?b)" by (simp add: rn rln)
    have "kernel_avl_rotate_left (kernel_avl_update l x (kernel_avl_update rll z ?b))
        = Some (kernel_avl_update ?a z ?b)"
      by (simp add: kernel_avl_update_def Let_def)
    then have "kernel_avl_balance l x r = Some (kernel_avl_update ?a z ?b)"
      using test True a rot rn by (simp add: kernel_avl_balance_def)
    moreover have "avl (kernel_avl_update ?a z ?b)" "depth (kernel_avl_update ?a z ?b) = depth r"
      using avl_update [of ?a ?b z] lo b dl small d by auto
    ultimately show ?thesis by (auto simp: balanced_as_def rn rln)
  qed
qed

lemma balance_spec:
  assumes "avl l" "avl r" "depth l \<le> 124" "depth r \<le> 124" "depth l \<le> depth r + 2" "depth r \<le> depth l + 2"
  shows "\<exists>t. kernel_avl_balance l x r = Some t \<and>
    balanced_as t (max (depth l) (depth r)) (Suc (max (depth l) (depth r))) (inorder l @ x # inorder r) \<and>
    (depth l \<le> Suc (depth r) \<and> depth r \<le> Suc (depth l) \<longrightarrow> depth t = Suc (max (depth l) (depth r)))"
proof -
  consider "depth l = depth r + 2" | "depth r = depth l + 2"
    | "depth l \<le> Suc (depth r)" "depth r \<le> Suc (depth l)" using assms by linarith
  then show ?thesis
  proof cases
    case 1
    then show ?thesis using balance_left [OF assms(1,3,2)] by (auto simp: max_def)
  next
    case 2
    then show ?thesis using balance_right [OF assms(2,4,1)] by (auto simp: max_def)
  next
    case 3
    then have "kernel_avl_balance l x r = Some (kernel_avl_update l x r)"
      using assms by (simp add: kernel_avl_balance_def)
    then show ?thesis using 3 avl_update [of l r x] assms by (auto simp: balanced_as_def)
  qed
qed

section \<open>Insertion and removal\<close>

text \<open>Insertion into the ordered sequence, the specification of \<^verbatim>\<open>kernel_avl_insert_node\<close>.\<close>

fun place :: "('k :: linorder, 'm) avl_node_scheme \<Rightarrow> ('k, 'm) avl_node_scheme list
    \<Rightarrow> ('k, 'm) avl_node_scheme list" where
  "place x [] = [x]"
| "place x (y # ys) = (if kernel_avl_before x y then x # y # ys else y # place x ys)"

abbreviation in_order :: "('k :: linorder, 'm) avl_node_scheme list \<Rightarrow> bool" where
  "in_order \<equiv> sorted_wrt kernel_avl_before"

lemma before_trans: "kernel_avl_before a b \<Longrightarrow> kernel_avl_before b c \<Longrightarrow> kernel_avl_before a c"
  by (auto simp: kernel_avl_before_def)

lemma before_irrefl [simp]: "\<not> kernel_avl_before a a"
  by (simp add: kernel_avl_before_def)

lemma before_asym: "kernel_avl_before a b \<Longrightarrow> \<not> kernel_avl_before b a"
  by (auto simp: kernel_avl_before_def)

lemma before_total: "addr a \<noteq> addr b \<Longrightarrow> kernel_avl_before a b \<or> kernel_avl_before b a"
  by (auto simp: kernel_avl_before_def)

lemma place_left: "kernel_avl_before x y \<Longrightarrow> place x (xs @ y # ys) = place x xs @ y # ys"
  by (induction xs) auto

lemma place_right:
  assumes "in_order (xs @ [y])" "\<not> kernel_avl_before x y"
  shows "place x (xs @ y # ys) = xs @ y # place x ys"
  using assms before_trans by (induction xs) (auto simp: sorted_wrt_append)

lemma set_place [simp]: "set (place x xs) = insert x (set xs)"
  by (induction xs) auto

lemma length_place [simp]: "length (place x xs) = Suc (length xs)"
  by (induction xs) auto

lemma in_order_place:
  assumes "in_order xs" "\<forall>y \<in> set xs. addr y \<noteq> addr x"
  shows "in_order (place x xs)"
  using assms
proof (induction xs)
  case (Cons y ys)
  then show ?case
    using before_total [of x y] before_trans by (auto simp: eq_commute [of "addr x"])
qed simp

lemma distinct_place: "distinct (map addr (place x xs)) \<longleftrightarrow> addr x \<notin> addr ` set xs \<and> distinct (map addr xs)"
  by (induction xs) auto

lemma insert_node_spec:
  assumes "avl t" "depth t \<le> 123" "in_order (inorder t)"
  shows "\<exists>t'. kernel_avl_insert_node t x = Some t' \<and>
    balanced_as t' (depth t) (Suc (depth t)) (place x (inorder t))"
  using assms
proof (induction t)
  case ALeaf
  then show ?case by (simp add: balanced_as_def)
next
  case (ANode l y h r)
  have d: "depth l \<le> 122" "depth r \<le> 122" "depth l \<le> Suc (depth r)" "depth r \<le> Suc (depth l)"
    using ANode.prems by auto
  have s: "in_order (inorder l)" "in_order (inorder r)" "in_order (inorder l @ [y])"
    using ANode.prems(3) by (auto simp: sorted_wrt_append)
  show ?case
  proof (cases "kernel_avl_before x y")
    case True
    then obtain l' where l': "kernel_avl_insert_node l x = Some l'"
      "balanced_as l' (depth l) (Suc (depth l)) (place x (inorder l))"
      using ANode.IH(1) ANode.prems(1) d s by auto
    then obtain t where "kernel_avl_balance l' y r = Some t"
      "balanced_as t (max (depth l') (depth r)) (Suc (max (depth l') (depth r))) (inorder l' @ y # inorder r)"
      "depth l' \<le> Suc (depth r) \<and> depth r \<le> Suc (depth l') \<longrightarrow> depth t = Suc (max (depth l') (depth r))"
      using balance_spec [of l' r y] ANode.prems(1) d by (auto simp: balanced_as_def)
    then show ?thesis using True l' d place_left [OF True]
      by (auto simp: balanced_as_def)
  next
    case False
    then obtain r' where r': "kernel_avl_insert_node r x = Some r'"
      "balanced_as r' (depth r) (Suc (depth r)) (place x (inorder r))"
      using ANode.IH(2) ANode.prems(1) d s by auto
    then obtain t where "kernel_avl_balance l y r' = Some t"
      "balanced_as t (max (depth l) (depth r')) (Suc (max (depth l) (depth r'))) (inorder l @ y # inorder r')"
      "depth l \<le> Suc (depth r') \<and> depth r' \<le> Suc (depth l) \<longrightarrow> depth t = Suc (max (depth l) (depth r'))"
      using balance_spec [of l r' y] ANode.prems(1) d by (auto simp: balanced_as_def)
    then show ?thesis using False r' d place_right [OF s(3) False]
      by (auto simp: balanced_as_def)
  qed
qed

lemma extract_min_spec:
  assumes "avl t" "depth t \<le> 124" "t \<noteq> ALeaf"
  shows "\<exists>m t'. kernel_avl_extract_min t = Some (m, t') \<and> avl t' \<and> depth t' \<le> depth t \<and>
    depth t \<le> Suc (depth t') \<and> inorder t = m # inorder t'"
  using assms
proof (induction t)
  case (ANode l y h r)
  show ?case
  proof (cases "l = ALeaf")
    case True
    then show ?thesis using ANode.prems by auto
  next
    case False
    have d: "depth l \<le> 123" "depth r \<le> 123" "depth l \<le> Suc (depth r)" "depth r \<le> Suc (depth l)"
      using ANode.prems by auto
    obtain m l' where l': "kernel_avl_extract_min l = Some (m, l')" "avl l'" "depth l' \<le> depth l"
      "depth l \<le> Suc (depth l')" "inorder l = m # inorder l'"
      using ANode.IH(1) ANode.prems False by auto
    then obtain t where "kernel_avl_balance l' y r = Some t"
      "balanced_as t (max (depth l') (depth r)) (Suc (max (depth l') (depth r))) (inorder l' @ y # inorder r)"
      "depth l' \<le> Suc (depth r) \<and> depth r \<le> Suc (depth l') \<longrightarrow> depth t = Suc (max (depth l') (depth r))"
      using balance_spec [of l' r y] ANode.prems(1) d by (auto simp: balanced_as_def)
    then show ?thesis using False l' d by (auto simp: balanced_as_def)
  qed
qed simp

abbreviation without :: "('k, 'm) avl_node_scheme \<Rightarrow> ('k, 'm) avl_node_scheme list
    \<Rightarrow> ('k, 'm) avl_node_scheme list" where
  "without x \<equiv> filter (\<lambda>y. addr y \<noteq> addr x)"

lemma without_absent: "addr x \<notin> addr ` set xs \<Longrightarrow> without x xs = xs"
  by (metis (mono_tags, lifting) filter_True imageI)

lemma remove_root:
  assumes l: "avl l" "depth l \<le> 123" and r: "avl r" "depth r \<le> 123"
    and d: "depth l \<le> Suc (depth r)" "depth r \<le> Suc (depth l)" and n: "l \<noteq> ALeaf" "r \<noteq> ALeaf"
  shows "\<exists>t. do { (next, right) \<leftarrow> kernel_avl_extract_min r; kernel_avl_balance l next right } = Some t \<and>
    balanced_as t (max (depth l) (depth r)) (Suc (max (depth l) (depth r))) (inorder l @ inorder r)"
proof -
  obtain m r' where r': "kernel_avl_extract_min r = Some (m, r')" "avl r'" "depth r' \<le> depth r"
      "depth r \<le> Suc (depth r')" "inorder r = m # inorder r'"
    using extract_min_spec [of r] r n by auto
  then obtain t where "kernel_avl_balance l m r' = Some t"
      "balanced_as t (max (depth l) (depth r')) (Suc (max (depth l) (depth r'))) (inorder l @ m # inorder r')"
      "depth l \<le> Suc (depth r') \<and> depth r' \<le> Suc (depth l) \<longrightarrow> depth t = Suc (max (depth l) (depth r'))"
    using balance_spec [of l r' m] l r d by auto
  then show ?thesis using r' d by (auto simp: balanced_as_def)
qed

lemma remove_node_spec:
  assumes "avl t" "depth t \<le> 124" "in_order (inorder t)" "distinct (map addr (inorder t))" "x \<in> set (inorder t)"
  shows "\<exists>t'. kernel_avl_remove_node t x = Some t' \<and> avl t' \<and> depth t' \<le> depth t \<and>
    depth t \<le> Suc (depth t') \<and> inorder t' = without x (inorder t)"
  using assms
proof (induction t)
  case (ANode l y h r)
  have d: "depth l \<le> 123" "depth r \<le> 123" "depth l \<le> Suc (depth r)" "depth r \<le> Suc (depth l)" "avl l" "avl r"
    using ANode.prems by auto
  have s: "in_order (inorder l)" "in_order (inorder r)" "\<forall>z \<in> set (inorder l). kernel_avl_before z y"
    "\<forall>z \<in> set (inorder r). kernel_avl_before y z"
    using ANode.prems(3) by (auto simp: sorted_wrt_append)
  have u: "distinct (map addr (inorder l))" "distinct (map addr (inorder r))"
    "addr y \<notin> addr ` set (inorder l)" "addr y \<notin> addr ` set (inorder r)"
    "addr ` set (inorder l) \<inter> addr ` set (inorder r) = {}" using ANode.prems(4) by auto
  from ANode.prems(5) consider "x \<in> set (inorder l)" | "x = y" | "x \<in> set (inorder r)" by auto
  then show ?case
  proof cases
    case 1
    have ax: "addr x \<noteq> addr y" using u(3) imageI [OF 1, of addr] by metis
    have bx: "kernel_avl_before x y" using 1 s(3) by blast
    obtain l' where l': "kernel_avl_remove_node l x = Some l'" "avl l'" "depth l' \<le> depth l"
      "depth l \<le> Suc (depth l')" "inorder l' = without x (inorder l)"
      using ANode.IH(1) 1 d s u by auto
    then obtain t where "kernel_avl_balance l' y r = Some t"
      "balanced_as t (max (depth l') (depth r)) (Suc (max (depth l') (depth r))) (inorder l' @ y # inorder r)"
      "depth l' \<le> Suc (depth r) \<and> depth r \<le> Suc (depth l') \<longrightarrow> depth t = Suc (max (depth l') (depth r))"
      using balance_spec [of l' r y] d by auto
    moreover have "without x (inorder r) = inorder r" using u(5) imageI [OF 1, of addr] by (intro without_absent) auto
    ultimately show ?thesis using ax bx l' d by (auto simp: balanced_as_def)
  next
    case 2
    have w: "without x (inorder l) = inorder l" "without x (inorder r) = inorder r"
      using 2 u(3,4) by (auto intro: without_absent)
    show ?thesis
    proof (cases "l = ALeaf \<or> r = ALeaf")
      case True
      then show ?thesis using 2 d w by auto
    next
      case False
      then obtain t where "do { (next, right) \<leftarrow> kernel_avl_extract_min r; kernel_avl_balance l next right } = Some t"
        "balanced_as t (max (depth l) (depth r)) (Suc (max (depth l) (depth r))) (inorder l @ inorder r)"
        using remove_root [of l r] d by auto
      then show ?thesis using 2 False w by (simp add: balanced_as_def)
    qed
  next
    case 3
    have ax: "addr x \<noteq> addr y" using u(4) imageI [OF 3, of addr] by metis
    have bx: "\<not> kernel_avl_before x y" using 3 s(4) by (blast dest: before_asym)
    obtain r' where r': "kernel_avl_remove_node r x = Some r'" "avl r'" "depth r' \<le> depth r"
      "depth r \<le> Suc (depth r')" "inorder r' = without x (inorder r)"
      using ANode.IH(2) 3 d s u by auto
    then obtain t where "kernel_avl_balance l y r' = Some t"
      "balanced_as t (max (depth l) (depth r')) (Suc (max (depth l) (depth r'))) (inorder l @ y # inorder r')"
      "depth l \<le> Suc (depth r') \<and> depth r' \<le> Suc (depth l) \<longrightarrow> depth t = Suc (max (depth l) (depth r'))"
      using balance_spec [of l r' y] d by auto
    moreover have "without x (inorder l) = inorder l" using u(5) imageI [OF 3, of addr] by (intro without_absent) auto
    ultimately show ?thesis using ax bx r' d by (auto simp: balanced_as_def)
  qed
qed simp

section \<open>Depth\<close>

text \<open>An AVL tree of depth \<open>n\<close> has at least \<open>3 ^ (n div 3)\<close> leaves.\<close>

lemma avl_size:
  fixes t :: "('k, 'm) atree"
  shows "avl t \<Longrightarrow> 3 ^ (depth t div 3) \<le> Suc (length (inorder t))"
proof (induction "depth t" arbitrary: t rule: less_induct)
  case less
  show ?case
  proof (cases "depth t < 3")
    case True
    then have "depth t div 3 = 0" by simp
    then show ?thesis by simp
  next
    case False
    then obtain l x h r where t: "t = ANode l x h r" by (cases t) auto
    have a: "avl l" "avl r" "depth l \<le> Suc (depth r)" "depth r \<le> Suc (depth l)" using less.prems t by auto
    have low: "3 ^ (n div 3) \<le> Suc (length (inorder u))" if "avl u" "n \<le> depth u" "depth u < depth t"
      for n and u :: "('k, 'm) atree"
    proof -
      have "3 ^ (n div 3) \<le> (3 :: nat) ^ (depth u div 3)" using that(2) by (intro power_increasing div_le_mono) auto
      then show ?thesis using less.hyps [OF that(3) that(1)] by (rule order.trans)
    qed
    define k where "k = depth t - 3"
    have kt: "depth t = k + 3" using False k_def by simp
    have two: "2 * 3 ^ (k div 3) \<le> Suc (length (inorder u))" if u: "avl u" "depth u = k + 2"
      for u :: "('k, 'm) atree"
    proof -
      obtain ul y g ur where ut: "u = ANode ul y g ur" using u(2) by (cases u) auto
      have "avl ul" "avl ur" "k \<le> depth ul" "k \<le> depth ur" "depth ul < depth t" "depth ur < depth t"
        using u ut kt by auto
      then have "3 ^ (k div 3) \<le> Suc (length (inorder ul))" "3 ^ (k div 3) \<le> Suc (length (inorder ur))"
        using low by blast+
      then show ?thesis by (simp add: ut)
    qed
    have "depth l = k + 2 \<and> k \<le> depth r \<or> depth r = k + 2 \<and> k \<le> depth l" "depth l < depth t" "depth r < depth t"
      using kt t a by auto
    then have "3 * 3 ^ (k div 3) \<le> Suc (length (inorder l)) + Suc (length (inorder r))"
      using two [of l] two [of r] low [of l k] low [of r k] a by auto
    moreover have "depth t div 3 = Suc (k div 3)" by (simp add: kt)
    ultimately show ?thesis by (simp add: t)
  qed
qed

lemma avl_depth_bound:
  assumes "avl t" "length (inorder t) < 2 ^ 64"
  shows "depth t \<le> 122"
proof (rule ccontr)
  assume "\<not> depth t \<le> 122"
  then have "41 \<le> depth t div 3" by simp
  then have "(3 :: nat) ^ 41 \<le> 3 ^ (depth t div 3)" by (rule power_increasing) simp
  also have "\<dots> \<le> 2 ^ 64" using avl_size [OF assms(1)] assms(2) by linarith
  finally show False by simp
qed

section \<open>The tree as an ordered index\<close>

definition avl_ok :: "('k :: linorder, 'm) atree \<Rightarrow> bool" where
  "avl_ok t \<longleftrightarrow> avl t \<and> in_order (inorder t) \<and> distinct (map addr (inorder t)) \<and>
     (\<forall>x \<in> set (inorder t). addr x < 2 ^ 64)"

definition avl_fresh :: "('k :: linorder, 'm) avl_node_scheme \<Rightarrow> ('k, 'm) atree \<Rightarrow> bool" where
  "avl_fresh x t \<longleftrightarrow> addr x < 2 ^ 64 \<and> addr x \<notin> addr ` set (inorder t)"

lemma distinct_addresses:
  fixes xs :: "('k, 'm) avl_node_scheme list"
  assumes "distinct (map addr xs)" "\<forall>x \<in> set xs. addr x < 2 ^ 64"
  shows "length xs \<le> 2 ^ 64"
proof -
  have "set (map addr xs) \<subseteq> {0..<2 ^ 64}" using assms(2) by auto
  then have "card (set (map addr xs)) \<le> card {0..<(2 ^ 64 :: nat)}" by (rule card_mono [OF finite_atLeastLessThan])
  then show ?thesis using distinct_card [OF assms(1)] by simp
qed

lemma avl_ok_depth: "avl_ok t \<Longrightarrow> depth t \<le> 123"
proof -
  assume ok: "avl_ok t"
  show ?thesis
  proof (cases "length (inorder t) < 2 ^ 64")
    case True
    then show ?thesis using avl_depth_bound [of t] ok by (simp add: avl_ok_def)
  next
    case False
    have "length (inorder t) \<le> 2 ^ 64" using distinct_addresses ok by (auto simp: avl_ok_def)
    show ?thesis
    proof (rule ccontr)
      assume "\<not> depth t \<le> 123"
      then have "41 \<le> depth t div 3" by simp
      then have "(3 :: nat) ^ 41 \<le> 3 ^ (depth t div 3)" by (rule power_increasing) simp
      also have "\<dots> \<le> Suc (2 ^ 64)"
        using avl_size [of t] ok \<open>length (inorder t) \<le> 2 ^ 64\<close> by (simp add: avl_ok_def)
      finally show False by simp
    qed
  qed
qed

lemma insert_node_ok:
  assumes "avl_ok t" "avl_fresh x t"
  shows "\<exists>t'. kernel_avl_insert_node t x = Some t' \<and> avl_ok t' \<and> inorder t' = place x (inorder t)"
proof -
  obtain t' where "kernel_avl_insert_node t x = Some t'"
    "balanced_as t' (depth t) (Suc (depth t)) (place x (inorder t))"
    using insert_node_spec [of t x] avl_ok_depth [OF assms(1)] assms(1) by (auto simp: avl_ok_def)
  moreover from assms have "in_order (place x (inorder t))"
    by (intro in_order_place) (auto simp: avl_ok_def avl_fresh_def image_iff)
  ultimately show ?thesis using assms by (auto simp: balanced_as_def avl_ok_def avl_fresh_def distinct_place)
qed

lemma remove_node_ok:
  assumes "avl_ok t" "x \<in> set (inorder t)"
  shows "\<exists>t'. kernel_avl_remove_node t x = Some t' \<and> avl_ok t' \<and> inorder t' = without x (inorder t)"
proof -
  have "depth t \<le> 124" using avl_ok_depth [OF assms(1)] by simp
  then obtain t' where "kernel_avl_remove_node t x = Some t'" "avl t'" "inorder t' = without x (inorder t)"
    using remove_node_spec [of t x] assms by (auto simp: avl_ok_def)
  then show ?thesis using assms(1) by (auto simp: avl_ok_def sorted_wrt_filter distinct_map_filter)
qed

lemma set_without:
  "distinct (map addr xs) \<Longrightarrow> x \<in> set xs \<Longrightarrow> set (without x xs) = set xs - {x}"
  by (auto simp: distinct_map inj_on_def)

interpretation kavl: ordered_index avl_ok inorder kernel_avl_before avl_fresh kernel_avl_insert_node
  kernel_avl_remove_node
proof
  fix t :: "('k :: linorder, 'm) atree" and x
  assume "avl_ok t" "x \<in> set (inorder t)"
  then show "\<exists>t'. kernel_avl_remove_node t x = Some t' \<and> avl_ok t' \<and> set (inorder t') = set (inorder t) - {x}"
    using remove_node_ok [of t x] set_without [of "inorder t" x] by (auto simp: avl_ok_def)
next
  fix t :: "('k :: linorder, 'm) atree" and x
  assume "avl_ok t" "avl_fresh x t"
  then show "\<exists>t'. kernel_avl_insert_node t x = Some t' \<and> avl_ok t' \<and> set (inorder t') = insert x (set (inorder t))"
    using insert_node_ok [of t x] by auto
qed (auto simp: avl_ok_def avl_fresh_def intro: before_trans)

section \<open>Queries\<close>

lemma inorder_Nil [simp]: "inorder t = [] \<longleftrightarrow> t = ALeaf"
  by (cases t) simp_all

lemma first_spec: "kernel_avl_first t = (if t = ALeaf then None else Some (hd (inorder t)))"
  by (induction t) (auto simp: hd_append)

lemma last_spec: "kernel_avl_last t = (if t = ALeaf then None else Some (last (inorder t)))"
  by (induction t) auto

lemma after_loop_spec:
  assumes "in_order (inorder t)"
  shows "avl_after_loop t k best = (case find (\<lambda>x. k < key x) (inorder t) of None \<Rightarrow> best | Some x \<Rightarrow> Some x)"
  using assms
proof (induction t arbitrary: best)
  case (ANode l x h r)
  have s: "in_order (inorder l)" "in_order (inorder r)" "\<forall>z \<in> set (inorder l). kernel_avl_before z x"
    using ANode.prems by (auto simp: sorted_wrt_append)
  show ?case
  proof (cases "k < key x")
    case True
    then show ?thesis using ANode.IH(1) s by (simp add: find_append split: option.splits)
  next
    case False
    then have "find (\<lambda>x. k < key x) (inorder l) = None"
      using s(3) by (fastforce simp: find_None_iff kernel_avl_before_def)
    then show ?thesis using False ANode.IH(2) s by (simp add: find_append)
  qed
qed simp

end
