(* ===== verification/Record_Lock.thy ===== *)
theory Record_Lock
  imports Avl
begin

text \<open>
  Byte-range record locks, \<^verbatim>\<open>src/fs/record_lock.c\<close>. All locks of an inode are in one AVL tree ordered
  by start and address, each node augmented with the largest end below it; the locks of one owner
  are also on a list. A lock is the value of \<^verbatim>\<open>struct kernel_record_lock\<close> without its tree links:
  \<open>addr\<close> is its address and \<open>key\<close> its \<^verbatim>\<open>start\<close>. The owner list pairs a lock with the state it is
  published in; a lock leaves the list before any of its fields changes, so list and tree hold the
  same values. Offsets are \<^verbatim>\<open>int64_t\<close> values and stand as integers; every addition of the source is
  guarded against overflow.
\<close>

record rlock = "int avl_node" +
  lowner :: ptr
  lend :: int
  lpid :: int
  ltype :: int
  lkind :: nat

datatype ltree =
    LLeaf
  | LNode ltree rlock int int ltree

record lock_state =
  state_self :: ptr
  root :: ltree
  waiters :: "ptr list"

type_synonym owner_list = "(ptr \<times> rlock) list"

record lock_conflict =
  found_start :: int
  found_end :: int
  found_pid :: int
  found_type :: int
  found_kind :: nat
  found_owner :: ptr

abbreviation EAGAIN :: int where "EAGAIN \<equiv> 11"
abbreviation ENOLCK :: int where "ENOLCK \<equiv> 37"
abbreviation F_WRLCK :: int where "F_WRLCK \<equiv> 1"
abbreviation F_UNLCK :: int where "F_UNLCK \<equiv> 2"

section \<open>The augmented tree\<close>

fun height :: "ltree \<Rightarrow> int" where
  "height LLeaf = 0"
| "height (LNode l x m h r) = h"

definition maximum :: "int \<Rightarrow> int \<Rightarrow> int" where
  "maximum a b = (if b < a then a else b)"

text \<open>\<^verbatim>\<open>update\<close> of the node \<open>x\<close> with the given children.\<close>

definition update :: "ltree \<Rightarrow> rlock \<Rightarrow> ltree \<Rightarrow> ltree" where
  "update l x r =
     (let left = height l; right = height r;
          h = int8 (1 + (if right < left then left else right));
          m1 = (case l of LLeaf \<Rightarrow> lend x | LNode _ _ ml _ _ \<Rightarrow> maximum (lend x) ml);
          m2 = (case r of LLeaf \<Rightarrow> m1 | LNode _ _ mr _ _ \<Rightarrow> maximum m1 mr)
      in LNode l x m2 h r)"

fun rotate_left :: "ltree \<Rightarrow> ltree option" where
  "rotate_left (LNode l x m h (LNode rl y mr hr rr)) = Some (update (update l x rl) y rr)"
| "rotate_left _ = None"

fun rotate_right :: "ltree \<Rightarrow> ltree option" where
  "rotate_right (LNode (LNode ll y ml hl lr) x m h r) = Some (update ll y (update lr x r))"
| "rotate_right _ = None"

definition balance :: "ltree \<Rightarrow> rlock \<Rightarrow> ltree \<Rightarrow> ltree option" where
  "balance l x r =
     (if 1 < height l - height r then
        (case l of
           LLeaf \<Rightarrow> None
         | LNode ll y ml hl lr \<Rightarrow> do {
             l' \<leftarrow> (if height ll < height lr then rotate_left l else Some l);
             rotate_right (update l' x r)
           })
      else if 1 < height r - height l then
        (case r of
           LLeaf \<Rightarrow> None
         | LNode rl y mr hr rr \<Rightarrow> do {
             r' \<leftarrow> (if height rr < height rl then rotate_right r else Some r);
             rotate_left (update l x r')
           })
      else Some (update l x r))"

definition before :: "rlock \<Rightarrow> rlock \<Rightarrow> bool" where
  "before a b \<longleftrightarrow> key a < key b \<or> (key a = key b \<and> addr a < addr b)"

text \<open>The empty case carries what \<^verbatim>\<open>publish\<close> has stored in the new node: null links, height one.\<close>

fun tree_insert :: "ltree \<Rightarrow> rlock \<Rightarrow> ltree option" where
  "tree_insert LLeaf lock = Some (LNode LLeaf lock (lend lock) 1 LLeaf)"
| "tree_insert (LNode l x m h r) lock =
     (if before lock x
      then do { l' \<leftarrow> tree_insert l lock; balance l' x r }
      else do { r' \<leftarrow> tree_insert r lock; balance l x r' })"

fun extract_min :: "ltree \<Rightarrow> (rlock \<times> ltree) option" where
  "extract_min LLeaf = None"
| "extract_min (LNode l x m h r) =
     (if l = LLeaf then Some (x, r)
      else do { (minimum, l') \<leftarrow> extract_min l; t \<leftarrow> balance l' x r; Some (minimum, t) })"

fun tree_remove :: "ltree \<Rightarrow> rlock \<Rightarrow> ltree option" where
  "tree_remove LLeaf lock = None"
| "tree_remove (LNode l x m h r) lock =
     (if addr x \<noteq> addr lock then
        if before lock x
        then do { l' \<leftarrow> tree_remove l lock; balance l' x r }
        else do { r' \<leftarrow> tree_remove r lock; balance l x r' }
      else if l = LLeaf then Some r
      else if r = LLeaf then Some l
      else do { (next, right) \<leftarrow> extract_min r; balance l next right })"

text \<open>
  \<^verbatim>\<open>join_root\<close> descends into the higher of two trees until the depths match; the recursion ends
  because the combined size shrinks.
\<close>

function join_root :: "ltree \<Rightarrow> rlock \<Rightarrow> ltree \<Rightarrow> ltree option" where
  "join_root l x r =
     (if height r + 1 < height l then
        (case l of
           LLeaf \<Rightarrow> None
         | LNode ll y ml hl lr \<Rightarrow> do { lr' \<leftarrow> join_root lr x r; balance ll y lr' })
      else if height l + 1 < height r then
        (case r of
           LLeaf \<Rightarrow> None
         | LNode rl y mr hr rr \<Rightarrow> do { rl' \<leftarrow> join_root l x rl; balance rl' y rr })
      else Some (update l x r))"
  by pat_completeness auto
termination
  by (relation "measure (\<lambda>(l, x, r). size l + size r)") auto

declare join_root.simps [simp del]

definition join_trees :: "ltree \<Rightarrow> ltree \<Rightarrow> ltree option" where
  "join_trees l r =
     (if l = LLeaf then Some r
      else if r = LLeaf then Some l
      else do { (x, r') \<leftarrow> extract_min r; join_root l x r' })"

section \<open>The owner list\<close>

definition owner_insert :: "ptr \<Rightarrow> rlock \<Rightarrow> owner_list \<Rightarrow> owner_list" where
  "owner_insert state lock os = (state, lock) # os"

definition owner_remove :: "rlock \<Rightarrow> owner_list \<Rightarrow> owner_list option" where
  "owner_remove lock os =
     (if addr lock \<notin> (addr \<circ> snd) ` set os then None
      else Some (filter (\<lambda>e. addr (snd e) \<noteq> addr lock) os))"

definition publish :: "ptr \<Rightarrow> ltree \<Rightarrow> owner_list \<Rightarrow> rlock \<Rightarrow> (ltree \<times> owner_list) option" where
  "publish state t os lock =
     do { t' \<leftarrow> tree_insert t lock; Some (t', owner_insert state lock os) }"

section \<open>Conflicts\<close>

text \<open>The test of \<^verbatim>\<open>conflict\<close> on one lock, once it is known to overlap the range.\<close>

definition excludes :: "ptr \<Rightarrow> nat \<Rightarrow> int \<Rightarrow> rlock \<Rightarrow> bool" where
  "excludes owner kind type x \<longleftrightarrow>
     (lowner x \<noteq> owner \<or> lkind x \<noteq> kind) \<and> (type = F_WRLCK \<or> ltype x = F_WRLCK)"

fun conflict :: "ltree \<Rightarrow> ptr \<Rightarrow> nat \<Rightarrow> int \<Rightarrow> int \<Rightarrow> int \<Rightarrow> rlock option" where
  "conflict LLeaf owner kind start stop type = None"
| "conflict (LNode l x m h r) owner kind start stop type =
     (if m < start then None
      else
        let found = (case l of
                       LLeaf \<Rightarrow> None
                     | LNode ll y ml hl lr \<Rightarrow>
                         if start \<le> ml then conflict l owner kind start stop type else None)
        in if found \<noteq> None then found
           else if key x \<le> stop \<and> start \<le> lend x \<and> excludes owner kind type x then Some x
           else if key x \<le> stop then conflict r owner kind start stop type else None)"

definition kernel_record_lock_state_init :: "ptr \<Rightarrow> lock_state" where
  "kernel_record_lock_state_init p = \<lparr>state_self = p, root = LLeaf, waiters = []\<rparr>"

definition kernel_record_lock_state_empty :: "lock_state \<Rightarrow> bool" where
  "kernel_record_lock_state_empty s \<longleftrightarrow> root s = LLeaf \<and> waiters s = []"

definition kernel_record_lock_get ::
  "lock_state \<Rightarrow> ptr \<Rightarrow> nat \<Rightarrow> int \<Rightarrow> int \<Rightarrow> int \<Rightarrow> lock_conflict \<Rightarrow> lock_conflict" where
  "kernel_record_lock_get s owner kind start stop type found =
     (case conflict (root s) owner kind start stop type of
        None \<Rightarrow> found\<lparr>found_type := F_UNLCK, found_owner := 0, found_kind := 0\<rparr>
      | Some x \<Rightarrow> \<lparr>found_start = key x, found_end = lend x,
                  found_pid = (if lkind x \<noteq> 0 then -1 else lpid x), found_type = ltype x,
                  found_kind = lkind x, found_owner = lowner x\<rparr>)"

section \<open>Setting and clearing a range\<close>

definition allocate :: "heap_view \<Rightarrow> (ptr option \<times> heap_view) option" where
  "allocate hp =
     (case outcomes hp of
        [] \<Rightarrow> Some (None, hp)
      | Alloc p # rest \<Rightarrow> Some (Some p, hp\<lparr>outcomes := rest\<rparr>)
      | Alloc_empty # rest \<Rightarrow> Some (None, hp\<lparr>outcomes := rest\<rparr>)
      | Alloc_error # rest \<Rightarrow> None)"

definition touching :: "rlock \<Rightarrow> int \<Rightarrow> int \<Rightarrow> bool" where
  "touching x start stop \<longleftrightarrow> key x \<le> stop \<and> start \<le> lend x"

definition adjacent :: "rlock \<Rightarrow> int \<Rightarrow> int \<Rightarrow> bool" where
  "adjacent x start stop \<longleftrightarrow>
     (lend x \<noteq> int64_max \<and> lend x + 1 = start) \<or> (stop \<noteq> int64_max \<and> stop + 1 = key x)"

text \<open>The edit under preparation: the range, widened by the locks it merges with, and the nodes needed.\<close>

type_synonym edit_plan = "int \<times> int \<times> nat"

definition plan_lock :: "ptr \<Rightarrow> nat \<Rightarrow> int \<Rightarrow> rlock \<Rightarrow> edit_plan \<Rightarrow> edit_plan" where
  "plan_lock owner kind type x p =
     (case p of (start, stop, needed) \<Rightarrow>
        if lowner x = owner \<and> lkind x = kind then
          if type \<noteq> F_UNLCK \<and> ltype x = type \<and> (touching x start stop \<or> adjacent x start stop)
          then (if key x < start then key x else start, if stop < lend x then lend x else stop, needed)
          else if key x < start \<and> stop < lend x then (start, stop, needed + 1)
          else p
        else p)"

fun prepare_edit :: "ltree \<Rightarrow> ptr \<Rightarrow> nat \<Rightarrow> int \<Rightarrow> edit_plan \<Rightarrow> edit_plan" where
  "prepare_edit LLeaf owner kind type p = p"
| "prepare_edit (LNode l x m h r) owner kind type p =
     (let start = fst p;
          first = (if type \<noteq> F_UNLCK \<and> start \<noteq> int64_min then start - 1 else start)
      in if m < first then p
         else
           let p1 = prepare_edit l owner kind type p;
               stop = fst (snd p1);
               last = (if type \<noteq> F_UNLCK \<and> stop \<noteq> int64_max then stop + 1 else stop)
           in if last < key x then p1
              else prepare_edit r owner kind type (plan_lock owner kind type x p1))"

text \<open>The second result is the list threaded through the detached nodes' left links.\<close>

fun extract_owned ::
  "ltree \<Rightarrow> ptr \<Rightarrow> nat \<Rightarrow> int \<Rightarrow> int \<Rightarrow> rlock list \<Rightarrow> (ltree \<times> rlock list) option" where
  "extract_owned LLeaf owner kind start stop gone = Some (LLeaf, gone)"
| "extract_owned (LNode l x m h r) owner kind start stop gone =
     (if m < start then Some (LNode l x m h r, gone)
      else do {
        (l', gone1) \<leftarrow> extract_owned l owner kind start stop gone;
        if stop < key x then do { t \<leftarrow> join_root l' x r; Some (t, gone1) }
        else do {
          (r', gone2) \<leftarrow> extract_owned r owner kind start stop gone1;
          if lowner x \<noteq> owner \<or> lkind x \<noteq> kind \<or> lend x < start
          then do { t \<leftarrow> join_root l' x r'; Some (t, gone2) }
          else do { t \<leftarrow> join_trees l' r'; Some (t, x # gone2) }
        }
      })"

fun allocate_spares :: "nat \<Rightarrow> ptr list \<Rightarrow> heap_view \<Rightarrow> (ptr list option \<times> heap_view) option" where
  "allocate_spares 0 spares hp = Some (Some spares, hp)"
| "allocate_spares (Suc n) spares hp =
     do {
       (fresh, hp1) \<leftarrow> allocate hp;
       case fresh of
         None \<Rightarrow> Some (None, fold heap_release spares hp1)
       | Some p \<Rightarrow> allocate_spares n (p # spares) hp1
     }"

type_synonym edit_world = "ltree \<times> owner_list \<times> ptr list \<times> heap_view"

definition replace_old ::
  "ptr \<Rightarrow> ptr \<Rightarrow> nat \<Rightarrow> int \<Rightarrow> int \<Rightarrow> rlock \<Rightarrow> edit_world \<Rightarrow> edit_world option" where
  "replace_old state owner kind start stop old w =
     (case w of (t, os, spares, hp) \<Rightarrow>
        let left = (key old < start); right = (stop < lend old) in do {
          os1 \<leftarrow> owner_remove old os;
          (t2, os2) \<leftarrow> (if left then publish state t os1 (old\<lparr>lend := start - 1\<rparr>) else Some (t, os1));
          if right then
            if left then
              (case spares of
                 [] \<Rightarrow> None
               | p # rest \<Rightarrow> do {
                   (t3, os3) \<leftarrow> publish state t2 os2
                     \<lparr>addr = p, key = stop + 1, lowner = owner, lend = lend old,
                      lpid = lpid old, ltype = ltype old, lkind = kind\<rparr>;
                   Some (t3, os3, rest, hp)
                 })
            else do {
              (t3, os3) \<leftarrow> publish state t2 os2 (old\<lparr>key := stop + 1, lend := lend old\<rparr>);
              Some (t3, os3, spares, hp)
            }
          else if \<not> left then Some (t2, os2, spares, heap_release (addr old) hp)
          else Some (t2, os2, spares, hp)
        })"

fun replace_loop ::
  "ptr \<Rightarrow> ptr \<Rightarrow> nat \<Rightarrow> int \<Rightarrow> int \<Rightarrow> rlock list \<Rightarrow> edit_world \<Rightarrow> edit_world option" where
  "replace_loop state owner kind start stop [] w = Some w"
| "replace_loop state owner kind start stop (old # rest) w =
     do { w1 \<leftarrow> replace_old state owner kind start stop old w;
          replace_loop state owner kind start stop rest w1 }"

text \<open>\<open>wake\<close> is whether \<^verbatim>\<open>kernel_wait_queue_wake_all\<close> reports \<^verbatim>\<open>OK\<close>; any other status traps.\<close>

definition wake_all :: "bool \<Rightarrow> lock_state \<Rightarrow> lock_state option" where
  "wake_all wake s = (if wake then Some (s\<lparr>waiters := []\<rparr>) else None)"

definition kernel_record_lock_set ::
  "lock_state \<Rightarrow> owner_list \<Rightarrow> ptr \<Rightarrow> nat \<Rightarrow> int \<Rightarrow> int \<Rightarrow> int \<Rightarrow> int \<Rightarrow> heap_view \<Rightarrow> bool
     \<Rightarrow> (int \<times> lock_state \<times> owner_list \<times> heap_view) option" where
  "kernel_record_lock_set s os owner kind pid start0 stop0 type hp wake =
     (if type \<noteq> F_UNLCK \<and> conflict (root s) owner kind start0 stop0 type \<noteq> None
      then Some (- EAGAIN, s, os, hp)
      else
        case prepare_edit (root s) owner kind type (start0, stop0, if type = F_UNLCK then 0 else 1) of
          (start, stop, needed) \<Rightarrow> do {
            (got, hp1) \<leftarrow> allocate_spares needed [] hp;
            case got of
              None \<Rightarrow> Some (- ENOLCK, s, os, hp1)
            | Some spares \<Rightarrow> do {
                (t1, old) \<leftarrow> extract_owned (root s) owner kind start stop [];
                (t2, os2, spares2, hp2) \<leftarrow>
                  replace_loop (state_self s) owner kind start stop old (t1, os, spares, hp1);
                (t3, os3, spares3) \<leftarrow>
                  (if type \<noteq> F_UNLCK then
                     (case spares2 of
                        [] \<Rightarrow> None
                      | p # rest \<Rightarrow> do {
                          (t, o') \<leftarrow> publish (state_self s) t2 os2
                            \<lparr>addr = p, key = start, lowner = owner, lend = stop, lpid = pid,
                             ltype = type, lkind = kind\<rparr>;
                          Some (t, o', rest)
                        })
                   else Some (t2, os2, spares2));
                if spares3 \<noteq> [] then None
                else do {
                  s' \<leftarrow> wake_all wake (s\<lparr>root := t3\<rparr>);
                  Some (0, s', os3, hp2)
                }
              }
          })"

fun release_loop :: "ptr \<Rightarrow> (ptr \<times> rlock) list \<Rightarrow> ltree \<times> owner_list \<times> heap_view \<times> bool
    \<Rightarrow> (ltree \<times> owner_list \<times> heap_view \<times> bool) option" where
  "release_loop state [] w = Some w"
| "release_loop state ((st, lock) # rest) (t, os, hp, changed) =
     (if st = state then do {
        t' \<leftarrow> tree_remove t lock;
        os' \<leftarrow> owner_remove lock os;
        release_loop state rest (t', os', heap_release (addr lock) hp, True)
      } else release_loop state rest (t, os, hp, changed))"

definition kernel_record_lock_release ::
  "lock_state \<Rightarrow> owner_list \<Rightarrow> heap_view \<Rightarrow> bool \<Rightarrow> (lock_state \<times> owner_list \<times> heap_view) option" where
  "kernel_record_lock_release s os hp wake =
     do {
       (t, os', hp', changed) \<leftarrow> release_loop (state_self s) os (root s, os, hp, False);
       s' \<leftarrow> (if changed then wake_all wake (s\<lparr>root := t\<rparr>) else Some (s\<lparr>root := t\<rparr>));
       Some (s', os', hp')
     }"

end
