(* ===== verification/Record_Lock_Tree.thy ===== *)
theory Record_Lock_Tree
  imports Record_Lock
begin

text \<open>
  The augmented tree of \<^verbatim>\<open>src/fs/record_lock.c\<close> without its \<^verbatim>\<open>max_end\<close> fields is an AVL tree of
  \<^verbatim>\<open>kernel/avl.h\<close>, operation by operation; the augmentation is kept exact by every operation, and
  makes the pruned searches equal to scans of the ordered sequence of locks.
\<close>

section \<open>Forgetting the augmentation\<close>

fun erase :: "ltree \<Rightarrow> (int, unit rlock_ext) atree" where
  "erase LLeaf = ALeaf"
| "erase (LNode l x m h r) = ANode (erase l) x h (erase r)"

abbreviation locks :: "ltree \<Rightarrow> rlock list" where
  "locks t \<equiv> inorder (erase t)"

lemma erase_Leaf [simp]: "erase t = ALeaf \<longleftrightarrow> t = LLeaf" "ALeaf = erase t \<longleftrightarrow> t = LLeaf"
  by (cases t; simp)+

lemma height_erase: "height t = kernel_avl_height (erase t)"
  by (cases t) simp_all

lemma erase_update [simp]: "erase (update l x r) = kernel_avl_update (erase l) x (erase r)"
  by (simp add: update_def kernel_avl_update_def Let_def height_erase)

lemma before_avl: "before a b = kernel_avl_before a b"
  by (simp add: before_def kernel_avl_before_def)

lemma erase_rotate:
  "map_option erase (rotate_left t) = kernel_avl_rotate_left (erase t)"
  "map_option erase (rotate_right t) = kernel_avl_rotate_right (erase t)"
proof -
  show "map_option erase (rotate_left t) = kernel_avl_rotate_left (erase t)"
    by (cases t rule: rotate_left.cases) simp_all
  show "map_option erase (rotate_right t) = kernel_avl_rotate_right (erase t)"
    by (cases t rule: rotate_right.cases) simp_all
qed

lemma map_option_bind:
  "(\<And>x. map_option f (g x) = k (h x)) \<Longrightarrow> map_option f (Option.bind a g) = Option.bind (map_option h a) k"
  by (cases a) simp_all

lemma erase_balance: "map_option erase (balance l x r) = kernel_avl_balance (erase l) x (erase r)"
proof -
  have left: "map_option erase (do { l' \<leftarrow> m; rotate_right (update l' x r) })
      = do { l' \<leftarrow> map_option erase m; kernel_avl_rotate_right (kernel_avl_update l' x (erase r)) }" for m
    by (rule map_option_bind) (simp add: erase_rotate)
  have right: "map_option erase (do { r' \<leftarrow> m; rotate_left (update l x r') })
      = do { r' \<leftarrow> map_option erase m; kernel_avl_rotate_left (kernel_avl_update (erase l) x r') }" for m
    by (rule map_option_bind) (simp add: erase_rotate)
  have sel: "map_option erase (if c then rotate_left t else Some t) = (if c then kernel_avl_rotate_left (erase t) else Some (erase t))"
    "map_option erase (if c then rotate_right t else Some t) = (if c then kernel_avl_rotate_right (erase t) else Some (erase t))"
    for c t by (simp_all add: erase_rotate)
  consider "1 < height l - height r" | "\<not> 1 < height l - height r" "1 < height r - height l"
    | "\<not> 1 < height l - height r" "\<not> 1 < height r - height l" by blast
  then show ?thesis
  proof cases
    case 1
    show ?thesis
    proof (cases l)
      case LLeaf
      then show ?thesis using 1 by (simp add: balance_def kernel_avl_balance_def height_erase)
    next
      case (LNode ll y ml hl lr)
      have "balance l x r = do { l' \<leftarrow> (if height ll < height lr then rotate_left l else Some l);
          rotate_right (update l' x r) }" using 1 LNode by (simp add: balance_def)
      moreover have "kernel_avl_balance (erase l) x (erase r) =
          do { l' \<leftarrow> (if height ll < height lr then kernel_avl_rotate_left (erase l) else Some (erase l));
               kernel_avl_rotate_right (kernel_avl_update l' x (erase r)) }"
        using 1 LNode by (simp add: kernel_avl_balance_def height_erase)
      ultimately show ?thesis by (simp only: left sel)
    qed
  next
    case 2
    show ?thesis
    proof (cases r)
      case LLeaf
      then show ?thesis using 2 by (simp add: balance_def kernel_avl_balance_def height_erase)
    next
      case (LNode rl y mr hr rr)
      have "balance l x r = do { r' \<leftarrow> (if height rr < height rl then rotate_right r else Some r);
          rotate_left (update l x r') }" using 2 LNode by (simp add: balance_def)
      moreover have "kernel_avl_balance (erase l) x (erase r) =
          do { r' \<leftarrow> (if height rr < height rl then kernel_avl_rotate_right (erase r) else Some (erase r));
               kernel_avl_rotate_left (kernel_avl_update (erase l) x r') }"
        using 2 LNode by (simp add: kernel_avl_balance_def height_erase)
      ultimately show ?thesis by (simp only: right sel)
    qed
  next
    case 3
    then show ?thesis by (simp add: balance_def kernel_avl_balance_def height_erase)
  qed
qed

lemma erase_insert: "map_option erase (tree_insert t x) = kernel_avl_insert_node (erase t) x"
proof (induction t)
  case (LNode l y m h r)
  have "map_option erase (do { l' \<leftarrow> tree_insert l x; balance l' y r })
      = do { l' \<leftarrow> map_option erase (tree_insert l x); kernel_avl_balance l' y (erase r) }"
    "map_option erase (do { r' \<leftarrow> tree_insert r x; balance l y r' })
      = do { r' \<leftarrow> map_option erase (tree_insert r x); kernel_avl_balance (erase l) y r' }"
    by (rule map_option_bind, simp add: erase_balance)+
  then show ?case using LNode by (simp add: before_avl)
qed simp

fun erase_snd :: "rlock \<times> ltree \<Rightarrow> rlock \<times> (int, unit rlock_ext) atree" where
  "erase_snd (x, t) = (x, erase t)"

lemma erase_extract_min: "map_option erase_snd (extract_min t) = kernel_avl_extract_min (erase t)"
proof (induction t)
  case (LNode l y m h r)
  have "map_option erase_snd (do { (z, l') \<leftarrow> extract_min l; t \<leftarrow> balance l' y r; Some (z, t) })
      = do { (z, l') \<leftarrow> map_option erase_snd (extract_min l); t \<leftarrow> kernel_avl_balance l' y (erase r); Some (z, t) }"
  proof (rule map_option_bind)
    fix p :: "rlock \<times> ltree"
    obtain z l' where p: "p = (z, l')" by (cases p)
    have "map_option erase_snd (do { t \<leftarrow> balance l' y r; Some (z, t) })
      = do { t \<leftarrow> map_option erase (balance l' y r); Some (z, t) }"
      by (rule map_option_bind) simp
    then show "map_option erase_snd (case p of (z, l') \<Rightarrow> do { t \<leftarrow> balance l' y r; Some (z, t) })
      = (case erase_snd p of (z, l') \<Rightarrow> do { t \<leftarrow> kernel_avl_balance l' y (erase r); Some (z, t) })"
      by (simp add: p erase_balance)
  qed
  then show ?case using LNode by simp
qed simp

lemma erase_remove: "map_option erase (tree_remove t x) = kernel_avl_remove_node (erase t) x"
proof (induction t)
  case (LNode l y m h r)
  have "map_option erase (do { l' \<leftarrow> tree_remove l x; balance l' y r })
      = do { l' \<leftarrow> map_option erase (tree_remove l x); kernel_avl_balance l' y (erase r) }"
    "map_option erase (do { r' \<leftarrow> tree_remove r x; balance l y r' })
      = do { r' \<leftarrow> map_option erase (tree_remove r x); kernel_avl_balance (erase l) y r' }"
    by (rule map_option_bind, simp add: erase_balance)+
  moreover have "map_option erase (do { (z, u) \<leftarrow> extract_min r; balance l z u })
      = do { (z, u) \<leftarrow> map_option erase_snd (extract_min r); kernel_avl_balance (erase l) z u }"
    by (rule map_option_bind) (auto simp: erase_balance)
  ultimately show ?case using LNode
    by (cases "l = LLeaf"; cases "r = LLeaf") (simp_all add: before_avl erase_extract_min)
qed simp

section \<open>The largest end\<close>

definition merged_end :: "ltree \<Rightarrow> rlock \<Rightarrow> ltree \<Rightarrow> int" where
  "merged_end l x r =
     (let m1 = (case l of LLeaf \<Rightarrow> lend x | LNode _ _ ml _ _ \<Rightarrow> maximum (lend x) ml)
      in case r of LLeaf \<Rightarrow> m1 | LNode _ _ mr _ _ \<Rightarrow> maximum m1 mr)"

fun ends_ok :: "ltree \<Rightarrow> bool" where
  "ends_ok LLeaf \<longleftrightarrow> True"
| "ends_ok (LNode l x m h r) \<longleftrightarrow> ends_ok l \<and> ends_ok r \<and> m = merged_end l x r"

lemma ends_ok_update [simp]: "ends_ok (update l x r) \<longleftrightarrow> ends_ok l \<and> ends_ok r"
  by (simp add: update_def Let_def merged_end_def)

lemma maximum_max [simp]: "maximum a b = max a b"
  by (simp add: maximum_def)

lemma max_end_bound:
  assumes "ends_ok (LNode l x m h r)" "y \<in> set (locks (LNode l x m h r))"
  shows "lend y \<le> m"
proof -
  have "t = LNode l x m h r \<Longrightarrow> ends_ok t \<Longrightarrow> y \<in> set (locks t) \<Longrightarrow> lend y \<le> m" for t l x m h r
  proof (induction t arbitrary: l x m h r)
    case (LNode l' x' m' h' r')
    have "m' = merged_end l' x' r'" using LNode.prems by simp
    then have up: "lend x' \<le> m'" "l' = LNode a b c d e \<Longrightarrow> c \<le> m'" "r' = LNode a b c d e \<Longrightarrow> c \<le> m'" for a b c d e
      by (auto simp: merged_end_def Let_def split: ltree.splits)
    consider "y \<in> set (locks l')" | "y = x'" | "y \<in> set (locks r')" using LNode.prems by auto
    then have "lend y \<le> m'"
    proof cases
      case 1
      then obtain a b c d e where l: "l' = LNode a b c d e" by (cases l') auto
      have "lend y \<le> c" using LNode.IH(1) [OF l] LNode.prems(2) 1 by simp
      then show ?thesis using up(2) [OF l] by simp
    next
      case 3
      then obtain a b c d e where r: "r' = LNode a b c d e" by (cases r') auto
      have "lend y \<le> c" using LNode.IH(2) [OF r] LNode.prems(2) 3 by simp
      then show ?thesis using up(3) [OF r] by simp
    qed (simp add: up(1))
    then show ?case using LNode.prems(1) by simp
  qed simp
  then show ?thesis using assms by blast
qed

lemma ends_ok_rotate:
  "ends_ok t \<Longrightarrow> rotate_left t = Some u \<Longrightarrow> ends_ok u"
  "ends_ok t \<Longrightarrow> rotate_right t = Some u \<Longrightarrow> ends_ok u"
  by (cases t rule: rotate_left.cases; force) (cases t rule: rotate_right.cases; force)

lemma ends_ok_balance:
  assumes "ends_ok l" "ends_ok r" "balance l x r = Some t"
  shows "ends_ok t"
proof -
  consider "1 < height l - height r" | "\<not> 1 < height l - height r" "1 < height r - height l"
    | "\<not> 1 < height l - height r" "\<not> 1 < height r - height l" by blast
  then show ?thesis
  proof cases
    case 1
    obtain ll y ml hl lr where l: "l = LNode ll y ml hl lr"
      using 1 assms(3) by (cases l) (auto simp: balance_def)
    obtain l' where l': "(if height ll < height lr then rotate_left l else Some l) = Some l'"
      "rotate_right (update l' x r) = Some t"
      using 1 assms(3) l by (simp add: balance_def bind_eq_Some_conv del: rotate_left.simps) blast
    have "ends_ok l'" using l'(1) assms(1) ends_ok_rotate(1) by (auto split: if_splits)
    then show ?thesis using ends_ok_rotate(2) [OF _ l'(2)] assms(2) by simp
  next
    case 2
    obtain rl y mr hr rr where r: "r = LNode rl y mr hr rr"
      using 2 assms(3) by (cases r) (auto simp: balance_def)
    obtain r' where r': "(if height rr < height rl then rotate_right r else Some r) = Some r'"
      "rotate_left (update l x r') = Some t"
      using 2 assms(3) r by (simp add: balance_def bind_eq_Some_conv del: rotate_right.simps) blast
    have "ends_ok r'" using r'(1) assms(2) ends_ok_rotate(2) by (auto split: if_splits)
    then show ?thesis using ends_ok_rotate(1) [OF _ r'(2)] assms(1) by simp
  next
    case 3
    then have "t = update l x r" using assms(3) by (simp add: balance_def)
    then show ?thesis using assms by simp
  qed
qed

lemma ends_ok_insert: "ends_ok t \<Longrightarrow> tree_insert t x = Some t' \<Longrightarrow> ends_ok t'"
proof (induction t arbitrary: t')
  case LLeaf
  then show ?case by (auto simp: merged_end_def)
next
  case (LNode l y m h r)
  show ?case
  proof (cases "before x y")
    case True
    then obtain l' where "tree_insert l x = Some l'" "balance l' y r = Some t'"
      using LNode.prems(2) by (auto simp: bind_eq_Some_conv)
    then show ?thesis using LNode.IH(1) [of l'] LNode.prems(1) ends_ok_balance [of l' r y t'] by simp
  next
    case False
    then obtain r' where "tree_insert r x = Some r'" "balance l y r' = Some t'"
      using LNode.prems(2) by (auto simp: bind_eq_Some_conv)
    then show ?thesis using LNode.IH(2) [of r'] LNode.prems(1) ends_ok_balance [of l r' y t'] by simp
  qed
qed

lemma ends_ok_extract_min: "ends_ok t \<Longrightarrow> extract_min t = Some (x, t') \<Longrightarrow> ends_ok t'"
proof (induction t arbitrary: t')
  case (LNode l y m h r)
  show ?case
  proof (cases "l = LLeaf")
    case True
    then show ?thesis using LNode.prems by simp
  next
    case False
    then obtain l' where "extract_min l = Some (x, l')" "balance l' y r = Some t'"
      using LNode.prems(2) by (auto simp: bind_eq_Some_conv)
    then show ?thesis using LNode.IH(1) [of l'] LNode.prems(1) ends_ok_balance [of l' r y t'] by simp
  qed
qed simp

lemma ends_ok_remove: "ends_ok t \<Longrightarrow> tree_remove t x = Some t' \<Longrightarrow> ends_ok t'"
proof (induction t arbitrary: t')
  case (LNode l y m h r)
  consider "addr y \<noteq> addr x" "before x y" | "addr y \<noteq> addr x" "\<not> before x y"
    | "addr y = addr x" "l = LLeaf \<or> r = LLeaf" | "addr y = addr x" "l \<noteq> LLeaf" "r \<noteq> LLeaf" by blast
  then show ?case
  proof cases
    case 1
    then obtain l' where "tree_remove l x = Some l'" "balance l' y r = Some t'"
      using LNode.prems(2) by (auto simp: bind_eq_Some_conv)
    then show ?thesis using LNode.IH(1) [of l'] LNode.prems(1) ends_ok_balance [of l' r y t'] by simp
  next
    case 2
    then obtain r' where "tree_remove r x = Some r'" "balance l y r' = Some t'"
      using LNode.prems(2) by (auto simp: bind_eq_Some_conv)
    then show ?thesis using LNode.IH(2) [of r'] LNode.prems(1) ends_ok_balance [of l r' y t'] by simp
  next
    case 3
    then show ?thesis using LNode.prems by (auto split: if_splits)
  next
    case 4
    then obtain z u where "extract_min r = Some (z, u)" "balance l z u = Some t'"
      using LNode.prems(2) by (auto simp: bind_eq_Some_conv)
    then show ?thesis using LNode.prems(1) ends_ok_extract_min [of r z u] ends_ok_balance [of l u z t'] by simp
  qed
qed simp

section \<open>Operations on well-formed trees\<close>

definition tree_ok :: "ltree \<Rightarrow> bool" where
  "tree_ok t \<longleftrightarrow> avl_ok (erase t) \<and> ends_ok t"

lemma tree_insert_ok:
  assumes "tree_ok t" "avl_fresh x (erase t)"
  shows "\<exists>t'. tree_insert t x = Some t' \<and> tree_ok t' \<and> locks t' = place x (locks t)"
proof -
  obtain u where u: "kernel_avl_insert_node (erase t) x = Some u" "avl_ok u" "inorder u = place x (locks t)"
    using insert_node_ok [of "erase t" x] assms by (auto simp: tree_ok_def)
  then obtain t' where t': "tree_insert t x = Some t'" "erase t' = u"
    using erase_insert [of t x] by (cases "tree_insert t x") auto
  then show ?thesis using u ends_ok_insert [of t x t'] assms(1) by (auto simp: tree_ok_def)
qed

lemma tree_remove_ok:
  assumes "tree_ok t" "x \<in> set (locks t)"
  shows "\<exists>t'. tree_remove t x = Some t' \<and> tree_ok t' \<and> locks t' = without x (locks t)"
proof -
  obtain u where u: "kernel_avl_remove_node (erase t) x = Some u" "avl_ok u" "inorder u = without x (locks t)"
    using remove_node_ok [of "erase t" x] assms by (auto simp: tree_ok_def)
  then obtain t' where t': "tree_remove t x = Some t'" "erase t' = u"
    using erase_remove [of t x] by (cases "tree_remove t x") auto
  then show ?thesis using u ends_ok_remove [of t x t'] assms(1) by (auto simp: tree_ok_def)
qed

interpretation rltree: ordered_index tree_ok locks before "\<lambda>x t. avl_fresh x (erase t)" tree_insert tree_remove
proof
  fix t x
  assume "tree_ok t" "x \<in> set (locks t)"
  then show "\<exists>t'. tree_remove t x = Some t' \<and> tree_ok t' \<and> set (locks t') = set (locks t) - {x}"
    using tree_remove_ok [of t x] set_without [of "locks t" x] by (auto simp: tree_ok_def avl_ok_def)
next
  fix t x
  assume "tree_ok t" "avl_fresh x (erase t)"
  then show "\<exists>t'. tree_insert t x = Some t' \<and> tree_ok t' \<and> set (locks t') = insert x (set (locks t))"
    using tree_insert_ok [of t x] by auto
next
  fix t assume "tree_ok t"
  then show "sorted_wrt before (locks t)"
    by (simp add: tree_ok_def avl_ok_def before_avl [abs_def])
qed (auto simp: avl_fresh_def before_avl intro: before_trans)

end
