(* ===== verification/Record_Lock_Join.thy ===== *)
theory Record_Lock_Join
  imports Record_Lock_Tree "HOL-Library.Multiset"
begin

text \<open>
  The range operations of \<^verbatim>\<open>src/fs/record_lock.c\<close> that cut and rejoin the tree, and the pruned
  walks, as operations on the ordered sequence of locks.
\<close>

section \<open>Joining\<close>

lemma balance_shape:
  assumes "avl (erase l)" "avl (erase r)" "ends_ok l" "ends_ok r"
    "depth (erase l) \<le> 124" "depth (erase r) \<le> 124"
    "depth (erase l) \<le> depth (erase r) + 2" "depth (erase r) \<le> depth (erase l) + 2"
  shows "\<exists>t. balance l x r = Some t \<and> ends_ok t \<and>
    balanced_as (erase t) (max (depth (erase l)) (depth (erase r))) (Suc (max (depth (erase l)) (depth (erase r))))
      (locks l @ x # locks r) \<and>
    (depth (erase l) \<le> Suc (depth (erase r)) \<and> depth (erase r) \<le> Suc (depth (erase l)) \<longrightarrow>
       depth (erase t) = Suc (max (depth (erase l)) (depth (erase r))))"
proof -
  obtain u where u: "kernel_avl_balance (erase l) x (erase r) = Some u"
    "balanced_as u (max (depth (erase l)) (depth (erase r))) (Suc (max (depth (erase l)) (depth (erase r))))
      (locks l @ x # locks r)"
    "depth (erase l) \<le> Suc (depth (erase r)) \<and> depth (erase r) \<le> Suc (depth (erase l)) \<longrightarrow>
       depth u = Suc (max (depth (erase l)) (depth (erase r)))"
    using balance_spec [of "erase l" "erase r" x] assms by blast
  then obtain t where t: "balance l x r = Some t" "erase t = u"
    using erase_balance [of l x r] by (cases "balance l x r") auto
  then show ?thesis using u ends_ok_balance [OF assms(3,4) t(1)] by auto
qed

lemma join_root_shape:
  "avl (erase l) \<Longrightarrow> avl (erase r) \<Longrightarrow> ends_ok l \<Longrightarrow> ends_ok r \<Longrightarrow>
   depth (erase l) \<le> 124 \<Longrightarrow> depth (erase r) \<le> 124 \<Longrightarrow>
   \<exists>t. join_root l x r = Some t \<and> ends_ok t \<and>
    balanced_as (erase t) (max (depth (erase l)) (depth (erase r))) (Suc (max (depth (erase l)) (depth (erase r))))
      (locks l @ x # locks r)"
proof (induction l x r rule: join_root.induct)
  case (1 l x r)
  note h = 1(3,4) [THEN avl_height] height_erase
  consider (left) "depth (erase r) + 1 < depth (erase l)" | (right) "depth (erase l) + 1 < depth (erase r)"
    | (level) "depth (erase l) \<le> Suc (depth (erase r))" "depth (erase r) \<le> Suc (depth (erase l))" by linarith
  then show ?case
  proof cases
    case left
    then obtain ll y ml hl lr where l: "l = LNode ll y ml hl lr" by (cases l) auto
    have d: "depth (erase lr) \<le> Suc (depth (erase ll))" "depth (erase ll) \<le> Suc (depth (erase lr))"
      "depth (erase r) \<le> depth (erase lr)" "depth (erase ll) \<le> 123" "depth (erase lr) \<le> 123"
      using left l 1(3,7) by auto
    have c: "height r + 1 < height l" using left by (simp add: h)
    obtain lr' where lr': "join_root lr x r = Some lr'" "ends_ok lr'"
      "balanced_as (erase lr') (max (depth (erase lr)) (depth (erase r))) (Suc (max (depth (erase lr)) (depth (erase r))))
        (locks lr @ x # locks r)"
      using 1(1) [OF c l] 1(3-8) l d by auto
    have e: "depth (erase lr) \<le> depth (erase lr')" "depth (erase lr') \<le> Suc (depth (erase lr))"
      using lr'(3) d(3) by (auto simp: balanced_as_def max_def)
    obtain t where t: "balance ll y lr' = Some t" "ends_ok t"
      "balanced_as (erase t) (max (depth (erase ll)) (depth (erase lr'))) (Suc (max (depth (erase ll)) (depth (erase lr'))))
        (locks ll @ y # locks lr')"
      "depth (erase ll) \<le> Suc (depth (erase lr')) \<and> depth (erase lr') \<le> Suc (depth (erase ll)) \<longrightarrow>
         depth (erase t) = Suc (max (depth (erase ll)) (depth (erase lr')))"
      using balance_shape [of ll lr' y] 1(3,5) l lr' d e by (auto simp: balanced_as_def)
    have "join_root l x r = Some t" by (subst join_root.simps, subst if_P [OF c]) (simp add: l lr'(1) t(1))
    moreover have "depth (erase l) \<le> depth (erase t)" "depth (erase t) \<le> Suc (depth (erase l))"
      using t(3,4) e d l by (auto simp: balanced_as_def)
    ultimately show ?thesis using t l lr'(3) left by (auto simp: balanced_as_def)
  next
    case right
    then obtain rl y mr hr rr where r: "r = LNode rl y mr hr rr" by (cases r) auto
    have d: "depth (erase rl) \<le> Suc (depth (erase rr))" "depth (erase rr) \<le> Suc (depth (erase rl))"
      "depth (erase l) \<le> depth (erase rl)" "depth (erase rr) \<le> 123" "depth (erase rl) \<le> 123"
      using right r 1(4,8) by auto
    have c: "\<not> height r + 1 < height l" "height l + 1 < height r" using right by (simp_all add: h)
    obtain rl' where rl': "join_root l x rl = Some rl'" "ends_ok rl'"
      "balanced_as (erase rl') (max (depth (erase l)) (depth (erase rl))) (Suc (max (depth (erase l)) (depth (erase rl))))
        (locks l @ x # locks rl)"
      using 1(2) [OF c r] 1(3-8) r d by auto
    have e: "depth (erase rl) \<le> depth (erase rl')" "depth (erase rl') \<le> Suc (depth (erase rl))"
      using rl'(3) d(3) by (auto simp: balanced_as_def max_def)
    obtain t where t: "balance rl' y rr = Some t" "ends_ok t"
      "balanced_as (erase t) (max (depth (erase rl')) (depth (erase rr))) (Suc (max (depth (erase rl')) (depth (erase rr))))
        (locks rl' @ y # locks rr)"
      "depth (erase rl') \<le> Suc (depth (erase rr)) \<and> depth (erase rr) \<le> Suc (depth (erase rl')) \<longrightarrow>
         depth (erase t) = Suc (max (depth (erase rl')) (depth (erase rr)))"
      using balance_shape [of rl' rr y] 1(4,6) r rl' d e by (auto simp: balanced_as_def)
    have "join_root l x r = Some t" by (subst join_root.simps, subst if_not_P [OF c(1)], subst if_P [OF c(2)]) (simp add: r rl'(1) t(1))
    moreover have "depth (erase r) \<le> depth (erase t)" "depth (erase t) \<le> Suc (depth (erase r))"
      using t(3,4) e d r by (auto simp: balanced_as_def)
    ultimately show ?thesis using t r rl'(3) right by (auto simp: balanced_as_def)
  next
    case level
    then have "join_root l x r = Some (update l x r)" by (simp add: join_root.simps [of l] h)
    then show ?thesis using 1(3-8) avl_update [of "erase l" "erase r" x] level
      by (auto simp: balanced_as_def)
  qed
qed

lemma extract_min_shape:
  assumes "avl (erase t)" "ends_ok t" "depth (erase t) \<le> 124" "t \<noteq> LLeaf"
  shows "\<exists>x t'. extract_min t = Some (x, t') \<and> avl (erase t') \<and> ends_ok t' \<and>
    depth (erase t') \<le> depth (erase t) \<and> locks t = x # locks t'"
proof -
  obtain x u where u: "kernel_avl_extract_min (erase t) = Some (x, u)" "avl u" "depth u \<le> depth (erase t)"
    "locks t = x # inorder u"
    using extract_min_spec [of "erase t"] assms by auto
  then obtain t' where "extract_min t = Some (x, t')" "erase t' = u"
    using erase_extract_min [of t] by (cases "extract_min t") auto
  then show ?thesis using u ends_ok_extract_min [OF assms(2)] by auto
qed

lemma join_trees_shape:
  assumes "avl (erase l)" "avl (erase r)" "ends_ok l" "ends_ok r" "depth (erase l) \<le> 124" "depth (erase r) \<le> 124"
  shows "\<exists>t. join_trees l r = Some t \<and> ends_ok t \<and> avl (erase t) \<and> locks t = locks l @ locks r"
proof (cases "l = LLeaf \<or> r = LLeaf")
  case True
  then show ?thesis using assms by (auto simp: join_trees_def)
next
  case False
  then obtain x r' where r': "extract_min r = Some (x, r')" "avl (erase r')" "ends_ok r'"
    "depth (erase r') \<le> depth (erase r)" "locks r = x # locks r'"
    using extract_min_shape [of r] assms by auto
  obtain t where "join_root l x r' = Some t" "ends_ok t" "avl (erase t)" "locks t = locks l @ x # locks r'"
    using join_root_shape [of l r' x] assms r' by (auto simp: balanced_as_def)
  then show ?thesis using False r' by (auto simp: join_trees_def)
qed

section \<open>The pruned walks\<close>

abbreviation mine :: "ptr \<Rightarrow> nat \<Rightarrow> rlock \<Rightarrow> bool" where
  "mine owner kind x \<equiv> lowner x = owner \<and> lkind x = kind"

definition taken :: "ptr \<Rightarrow> nat \<Rightarrow> int \<Rightarrow> int \<Rightarrow> rlock \<Rightarrow> bool" where
  "taken owner kind start stop x \<longleftrightarrow> mine owner kind x \<and> touching x start stop"

lemma in_order_keys: "in_order (xs @ x # ys) \<Longrightarrow> y \<in> set ys \<Longrightarrow> key x \<le> key y"
  by (auto simp: sorted_wrt_append kernel_avl_before_def)

lemma nothing_before:
  assumes "ends_ok (LNode l x m h r)" "m < start" "y \<in> set (locks (LNode l x m h r))"
  shows "lend y < start"
  using max_end_bound [OF assms(1,3)] assms(2) by simp

lemma avl_depth_small: "avl t \<Longrightarrow> length (inorder t) \<le> 2 ^ 64 \<Longrightarrow> depth t \<le> 123"
proof (rule ccontr)
  assume a: "avl t" "length (inorder t) \<le> 2 ^ 64" "\<not> depth t \<le> 123"
  then have "41 \<le> depth t div 3" by simp
  then have "(3 :: nat) ^ 41 \<le> 3 ^ (depth t div 3)" by (rule power_increasing) simp
  also have "\<dots> \<le> Suc (2 ^ 64)" using avl_size [OF a(1)] a(2) by simp
  finally show False by simp
qed

lemma extract_owned_spec:
  "ends_ok t \<Longrightarrow> avl (erase t) \<Longrightarrow> in_order (locks t) \<Longrightarrow> length (locks t) \<le> 2 ^ 64 \<Longrightarrow>
   \<exists>t' g. extract_owned t owner kind start stop gone = Some (t', g @ gone) \<and> ends_ok t' \<and> avl (erase t') \<and>
     locks t' = filter (\<lambda>x. \<not> taken owner kind start stop x) (locks t) \<and>
     mset g = mset (filter (taken owner kind start stop) (locks t))"
proof (induction t arbitrary: gone)
  case (LNode l x m h r)
  let ?taken = "taken owner kind start stop" and ?keep = "\<lambda>x. \<not> taken owner kind start stop x"
  have ok: "ends_ok l" "ends_ok r" "avl (erase l)" "avl (erase r)" "in_order (locks l)" "in_order (locks r)"
    "length (locks l) \<le> 2 ^ 64" "length (locks r) \<le> 2 ^ 64"
    using LNode.prems by (auto simp: sorted_wrt_append)
  show ?case
  proof (cases "m < start")
    case True
    have none: "\<not> ?taken y" if "y \<in> set (locks (LNode l x m h r))" for y
      using nothing_before [OF LNode.prems(1) True that] by (simp add: taken_def touching_def)
    then have "filter ?keep (locks (LNode l x m h r)) = locks (LNode l x m h r)"
      "filter ?taken (locks (LNode l x m h r)) = []"
      by (auto intro!: filter_True filter_False simp del: erase.simps inorder.simps)
    then show ?thesis using True LNode.prems by auto
  next
    case False
    obtain l' gl where l': "extract_owned l owner kind start stop gone = Some (l', gl @ gone)" "ends_ok l'" "avl (erase l')"
      "locks l' = filter ?keep (locks l)" "mset gl = mset (filter ?taken (locks l))"
      using LNode.IH(1) [of gone] ok by blast
    have "length (locks l') \<le> length (locks l)" unfolding l'(4) by (rule length_filter_le)
    then have dl: "depth (erase l') \<le> 124" using avl_depth_small [OF l'(3)] ok(7) by simp
    show ?thesis
    proof (cases "stop < key x")
      case stop: True
      have "\<not> ?taken y" if "y \<in> set (x # locks r)" for y
        using in_order_keys [of "locks l" x "locks r" y] LNode.prems(3) that stop by (auto simp: taken_def touching_def)
      then have none: "filter ?keep (x # locks r) = x # locks r" "filter ?taken (x # locks r) = []"
        by (auto intro!: filter_True filter_False)
      have "depth (erase r) \<le> 124" using avl_depth_small [OF ok(4,8)] by simp
      then obtain t where "join_root l' x r = Some t" "ends_ok t" "avl (erase t)" "locks t = locks l' @ x # locks r"
        using join_root_shape [of l' r x] l' ok dl by (auto simp: balanced_as_def)
      then show ?thesis using False stop l' none by (auto split: if_splits)
    next
      case stop: False
      obtain r' gr where r': "extract_owned r owner kind start stop (gl @ gone) = Some (r', gr @ gl @ gone)" "ends_ok r'"
        "avl (erase r')" "locks r' = filter ?keep (locks r)" "mset gr = mset (filter ?taken (locks r))"
        using LNode.IH(2) [of "gl @ gone"] ok by blast
      have "length (locks r') \<le> length (locks r)" unfolding r'(4) by (rule length_filter_le)
      then have dr: "depth (erase r') \<le> 124" using avl_depth_small [OF r'(3)] ok(8) by simp
      have t: "?taken x \<longleftrightarrow> \<not> (lowner x \<noteq> owner \<or> lkind x \<noteq> kind \<or> lend x < start)"
        using stop by (auto simp: taken_def touching_def)
      show ?thesis
      proof (cases "?taken x")
        case True
        obtain t where "join_trees l' r' = Some t" "ends_ok t" "avl (erase t)" "locks t = locks l' @ locks r'"
          using join_trees_shape [of l' r'] l' r' dl dr by blast
        then show ?thesis using False stop True l' r' t by (auto intro!: exI [of _ "x # gr @ gl"])
      next
        case none: False
        obtain t where "join_root l' x r' = Some t" "ends_ok t" "avl (erase t)" "locks t = locks l' @ x # locks r'"
          using join_root_shape [of l' r' x] l' r' dl dr by (auto simp: balanced_as_def)
        then show ?thesis using False stop none l' r' t by (auto intro!: exI [of _ "gr @ gl"])
      qed
    qed
  qed
qed simp

lemma conflict_spec:
  "ends_ok t \<Longrightarrow> in_order (locks t) \<Longrightarrow>
   conflict t owner kind start stop type = find (\<lambda>x. touching x start stop \<and> excludes owner kind type x) (locks t)"
proof (induction t)
  case (LNode l x m h r)
  let ?P = "\<lambda>x. touching x start stop \<and> excludes owner kind type x"
  have ok: "ends_ok l" "ends_ok r" "in_order (locks l)" "in_order (locks r)"
    using LNode.prems by (auto simp: sorted_wrt_append)
  show ?case
  proof (cases "m < start")
    case True
    then have "\<not> ?P y" if "y \<in> set (locks (LNode l x m h r))" for y
      using nothing_before [OF LNode.prems(1) True that] by (simp add: touching_def)
    then have "find ?P (locks (LNode l x m h r)) = None" by (subst find_None_iff) blast
    then show ?thesis using True by (simp del: erase.simps inorder.simps)
  next
    case False
    have left: "(case l of LLeaf \<Rightarrow> None | LNode ll y ml hl lr \<Rightarrow>
        if start \<le> ml then conflict l owner kind start stop type else None) = find ?P (locks l)"
      unfolding LNode.IH(1) [OF ok(1,3), symmetric] by (cases l) simp_all
    have "find ?P (locks r) = None" if "stop < key x"
      using in_order_keys [of "locks l" x "locks r"] LNode.prems(2) that
      by (subst find_None_iff) (force simp: touching_def)
    then show ?thesis using False LNode.IH(2) ok(2,4)
      by (simp add: left Let_def find_append touching_def split: option.split)
  qed
qed simp

end
