(* ===== verification/Record_Lock_Plan.thy ===== *)
theory Record_Lock_Plan
  imports Record_Lock_Join
begin

text \<open>
  The edit that \<^verbatim>\<open>prepare_edit\<close> of \<^verbatim>\<open>src/fs/record_lock.c\<close> plans: the requested range widened by the
  locks it coalesces with, and the number of nodes the edit needs. The locks of one owner are
  disjoint and coalesced, which is what makes a single in-order walk enough.
\<close>

section \<open>Well-formed locks\<close>

definition lock_wf :: "rlock \<Rightarrow> bool" where
  "lock_wf x \<longleftrightarrow> int64_min \<le> key x \<and> key x \<le> lend x \<and> lend x \<le> int64_max"

definition separate :: "rlock \<Rightarrow> rlock \<Rightarrow> bool" where
  "separate x y \<longleftrightarrow> lend x < key y \<and> (ltype x = ltype y \<longrightarrow> lend x + 1 < key y) \<or>
     lend y < key x \<and> (ltype x = ltype y \<longrightarrow> lend y + 1 < key x)"

definition locks_ok :: "rlock set \<Rightarrow> bool" where
  "locks_ok X \<longleftrightarrow> (\<forall>x \<in> X. lock_wf x) \<and>
     (\<forall>x \<in> X. \<forall>y \<in> X. mine (lowner y) (lkind y) x \<and> x \<noteq> y \<longrightarrow> separate x y) \<and>
     (\<forall>x \<in> X. \<forall>y \<in> X. \<not> mine (lowner y) (lkind y) x \<and> touching x (key y) (lend y) \<longrightarrow> ltype x \<noteq> F_WRLCK)"

text \<open>The locks of one holder from left to right.\<close>

definition apart :: "rlock list \<Rightarrow> bool" where
  "apart xs \<longleftrightarrow> sorted_wrt (\<lambda>x y. lend x < key y \<and> (ltype x = ltype y \<longrightarrow> lend x + 1 < key y)) xs"

lemma in_order_apart:
  assumes "in_order xs" "\<forall>x \<in> set xs. lock_wf x" "\<forall>x \<in> set xs. \<forall>y \<in> set xs. x \<noteq> y \<longrightarrow> separate x y"
  shows "apart xs"
  using assms
proof (induction xs)
  case (Cons x xs)
  have "lend x < key y \<and> (ltype x = ltype y \<longrightarrow> lend x + 1 < key y)" if "y \<in> set xs" for y
  proof -
    have b: "kernel_avl_before x y" using Cons.prems(1) that by simp
    then have "x \<noteq> y" by auto
    then have "separate x y" using Cons.prems(3) that by simp
    moreover have "key x \<le> key y" using b by (auto simp: kernel_avl_before_def)
    moreover have "lock_wf x" "lock_wf y" using Cons.prems(2) that by simp_all
    ultimately show ?thesis by (auto simp: separate_def lock_wf_def)
  qed
  then show ?case using Cons.IH Cons.prems by (simp add: apart_def)
qed (simp add: apart_def)

section \<open>The walk as a fold\<close>

definition plan_ok :: "edit_plan \<Rightarrow> bool" where
  "plan_ok p \<longleftrightarrow> int64_min \<le> fst p \<and> fst p \<le> fst (snd p) \<and> fst (snd p) \<le> int64_max"

lemma fold_idle: "\<forall>y \<in> set xs. f y p = p \<Longrightarrow> fold f xs p = p"
  by (induction xs) simp_all

lemma plan_lock_ok: "plan_ok p \<Longrightarrow> lock_wf x \<Longrightarrow> plan_ok (plan_lock owner kind type x p)"
  by (cases p) (auto simp: plan_ok_def plan_lock_def lock_wf_def)

lemma fold_plan_ok: "plan_ok p \<Longrightarrow> \<forall>x \<in> set xs. lock_wf x \<Longrightarrow> plan_ok (fold (plan_lock owner kind type) xs p)"
  by (induction xs arbitrary: p) (simp_all add: plan_lock_ok)

lemma plan_lock_left:
  assumes "plan_ok p" "lock_wf x" "lend x < (if type \<noteq> F_UNLCK \<and> fst p \<noteq> int64_min then fst p - 1 else fst p)"
  shows "plan_lock owner kind type x p = p"
  using assms by (cases p) (auto simp: plan_ok_def plan_lock_def lock_wf_def touching_def adjacent_def split: if_splits)

lemma plan_lock_right:
  assumes "plan_ok p" "lock_wf x"
    "(if type \<noteq> F_UNLCK \<and> fst (snd p) \<noteq> int64_max then fst (snd p) + 1 else fst (snd p)) < key x"
  shows "plan_lock owner kind type x p = p"
  using assms by (cases p) (auto simp: plan_ok_def plan_lock_def lock_wf_def touching_def adjacent_def split: if_splits)

lemma prepare_edit_fold:
  "ends_ok t \<Longrightarrow> in_order (locks t) \<Longrightarrow> \<forall>x \<in> set (locks t). lock_wf x \<Longrightarrow> plan_ok p \<Longrightarrow>
   prepare_edit t owner kind type p = fold (plan_lock owner kind type) (locks t) p"
proof (induction t arbitrary: p)
  case (LNode l x m h r)
  let ?f = "plan_lock owner kind type"
  let ?first = "if type \<noteq> F_UNLCK \<and> fst p \<noteq> int64_min then fst p - 1 else fst p"
  have ok: "ends_ok l" "ends_ok r" "in_order (locks l)" "in_order (locks r)"
    "\<forall>y \<in> set (locks l). lock_wf y" "\<forall>y \<in> set (locks r). lock_wf y" "lock_wf x"
    using LNode.prems by (auto simp: sorted_wrt_append)
  show ?case
  proof (cases "m < ?first")
    case True
    have "?f y p = p" if "y \<in> set (locks (LNode l x m h r))" for y
      using nothing_before [OF LNode.prems(1) True that] LNode.prems(3,4) that
      by (intro plan_lock_left) blast+
    then have "fold ?f (locks (LNode l x m h r)) p = p" by (intro fold_idle) blast
    moreover have "prepare_edit (LNode l x m h r) owner kind type p = p" using True by (simp add: Let_def)
    ultimately show ?thesis by simp
  next
    case False
    define p1 where "p1 = fold ?f (locks l) p"
    have p1: "prepare_edit l owner kind type p = p1" using LNode.IH(1) LNode.prems(4) ok by (simp add: p1_def)
    have p1_ok: "plan_ok p1" using fold_plan_ok LNode.prems(4) ok by (simp add: p1_def)
    let ?last = "if type \<noteq> F_UNLCK \<and> fst (snd p1) \<noteq> int64_max then fst (snd p1) + 1 else fst (snd p1)"
    have step: "prepare_edit (LNode l x m h r) owner kind type p
        = (if ?last < key x then p1 else prepare_edit r owner kind type (?f x p1))"
      unfolding prepare_edit.simps Let_def if_not_P [OF False] p1 ..
    have fold: "fold ?f (locks (LNode l x m h r)) p = fold ?f (locks r) (?f x p1)" by (simp add: p1_def)
    show ?thesis
    proof (cases "?last < key x")
      case last: True
      have "?f y p1 = p1" if y: "y \<in> set (x # locks r)" for y
      proof (rule plan_lock_right [OF p1_ok])
        show "lock_wf y" using y ok by auto
        show "?last < key y"
          using in_order_keys [of "locks l" x "locks r" y] LNode.prems(2) y last by (auto simp del: if_split_asm)
      qed
      then have "fold ?f (x # locks r) p1 = p1" by (intro fold_idle) blast
      then show ?thesis unfolding step fold if_P [OF last] by simp
    next
      case last: False
      have "prepare_edit r owner kind type (?f x p1) = fold ?f (locks r) (?f x p1)"
        using LNode.IH(2) ok plan_lock_ok [OF p1_ok ok(7)] by blast
      then show ?thesis unfolding step fold if_not_P [OF last] .
    qed
  qed
qed simp

section \<open>What the walk plans\<close>

definition near :: "rlock \<Rightarrow> int \<Rightarrow> int \<Rightarrow> bool" where
  "near x start stop \<longleftrightarrow> touching x start stop \<or> adjacent x start stop"

abbreviation straddles :: "int \<Rightarrow> int \<Rightarrow> rlock \<Rightarrow> bool" where
  "straddles start stop x \<equiv> key x < start \<and> stop < lend x"

lemma fold_mine: "fold (plan_lock owner kind type) xs p = fold (plan_lock owner kind type) (filter (mine owner kind) xs) p"
  by (induction xs arbitrary: p) (auto simp: plan_lock_def split: prod.split)

text \<open>The plan made for the locks \<open>xs\<close> of the requesting holder.\<close>

definition planned :: "int \<Rightarrow> rlock list \<Rightarrow> edit_plan \<Rightarrow> edit_plan \<Rightarrow> bool" where
  "planned type xs p q \<longleftrightarrow> (case (p, q) of ((s, e, n), (s', e', n')) \<Rightarrow>
     s' \<le> s \<and> e \<le> e' \<and>
     (\<forall>b. s' \<le> b \<and> b \<le> e' \<longrightarrow> s \<le> b \<and> b \<le> e \<or>
        type \<noteq> F_UNLCK \<and> (\<exists>x \<in> set xs. ltype x = type \<and> key x \<le> b \<and> b \<le> lend x)) \<and>
     (\<forall>x \<in> set xs. type \<noteq> F_UNLCK \<and> ltype x = type \<and> near x s' e' \<longrightarrow> s' \<le> key x \<and> lend x \<le> e') \<and>
     n' = n + length (filter (straddles s' e') xs))"

lemma plan_spec:
  assumes "apart xs" "\<forall>x \<in> set xs. lock_wf x \<and> mine owner kind x" "plan_ok p"
  shows "planned type xs p (fold (plan_lock owner kind type) xs p)"
  using assms
proof (induction xs arbitrary: p)
  case Nil
  then show ?case by (auto simp: planned_def)
next
  case (Cons x xs)
  obtain s e n where p: "p = (s, e, n)" by (cases p)
  define p1 where "p1 = plan_lock owner kind type x p"
  obtain s1 e1 n1 where p1: "p1 = (s1, e1, n1)" by (cases p1)
  obtain s' e' n' where q: "fold (plan_lock owner kind type) xs p1 = (s', e', n')" by (cases "fold (plan_lock owner kind type) xs p1")
  have se: "s \<le> e" "int64_min \<le> s" "e \<le> int64_max" using Cons.prems(3) p by (simp_all add: plan_ok_def)
  have x: "lock_wf x" "mine owner kind x" and wf: "\<forall>y \<in> set xs. lock_wf y" using Cons.prems(2) by simp_all
  have after: "lend x < key y" "ltype x = ltype y \<Longrightarrow> lend x + 1 < key y" if "y \<in> set xs" for y
    using Cons.prems(1) that by (simp_all add: apart_def)
  have "plan_ok p1" using plan_lock_ok Cons.prems(3) x by (simp add: p1_def)
  then have "planned type xs p1 (s', e', n')" using Cons.IH [of p1] Cons.prems q by (simp add: apart_def)
  then have ih: "s' \<le> s1" "e1 \<le> e'"
      "\<And>b. s' \<le> b \<Longrightarrow> b \<le> e' \<Longrightarrow> s1 \<le> b \<and> b \<le> e1 \<or>
        type \<noteq> F_UNLCK \<and> (\<exists>y \<in> set xs. ltype y = type \<and> key y \<le> b \<and> b \<le> lend y)"
      "\<And>y. y \<in> set xs \<Longrightarrow> type \<noteq> F_UNLCK \<Longrightarrow> ltype y = type \<Longrightarrow> near y s' e' \<Longrightarrow> s' \<le> key y \<and> lend y \<le> e'"
      "n' = n1 + length (filter (straddles s' e') xs)"
    by (auto simp: planned_def p1)
  have outside: False if "s' \<le> b" "b \<le> e'" "b \<le> lend x \<or> ltype x = type \<and> b \<le> lend x + 1" "b < s1 \<or> e1 < b" for b
    using ih(3) [OF that(1,2)] that(3,4) after by fastforce
  show ?case
  proof (cases "type \<noteq> F_UNLCK \<and> ltype x = type \<and> near x s e")
    case True
    have merged: "s1 = min s (key x)" "e1 = max e (lend x)" "n1 = n"
      using True x p p1 p1_def by (auto simp: plan_lock_def near_def)
    have hull: "s \<le> b \<and> b \<le> e \<or> key x \<le> b \<and> b \<le> lend x" if "s1 \<le> b" "b \<le> e1" for b
      using True that merged by (auto simp: near_def touching_def adjacent_def)
    have wide: "s' \<le> s" "e \<le> e'" "s' \<le> key x" "lend x \<le> e'" using ih(1,2) merged by simp_all
    have "s \<le> b \<and> b \<le> e \<or> type \<noteq> F_UNLCK \<and> (\<exists>y \<in> set (x # xs). ltype y = type \<and> key y \<le> b \<and> b \<le> lend y)"
      if "s' \<le> b" "b \<le> e'" for b
      using ih(3) [OF that] hull [of b] True by (simp only: list.set) blast
    moreover have "s' \<le> key y \<and> lend y \<le> e'"
      if "y \<in> set (x # xs)" "type \<noteq> F_UNLCK" "ltype y = type" "near y s' e'" for y
      using ih(4) that wide by (cases "y = x") simp_all
    moreover have "\<not> straddles s' e' x" using wide by simp
    ultimately show ?thesis
      using wide ih(5) merged(3) unfolding p fold_simps p1_def [unfolded p, symmetric] q planned_def by simp
  next
    case False
    then have same: "s1 = s" "e1 = e" "n1 = (if straddles s e x then n + 1 else n)"
      using x p p1 p1_def by (auto simp: plan_lock_def near_def split: if_splits)
    have head: "\<not> near x s' e'" if "type \<noteq> F_UNLCK" "ltype x = type"
    proof
      assume n: "near x s' e'"
      have "\<not> near x s e" using False that by simp
      then have "lend x + 1 < s \<or> e + 1 < key x"
        using x(1) se by (auto simp: near_def touching_def adjacent_def lock_wf_def)
      then show False
        using n outside [of "lend x + 1"] outside [of "e + 1"] that same ih(1,2) x(1) se
        by (auto simp: near_def touching_def adjacent_def lock_wf_def)
    qed
    have "straddles s' e' x" if "straddles s e x"
    proof (rule ccontr)
      assume "\<not> straddles s' e' x"
      then consider "s' \<le> key x" | "lend x \<le> e'" by linarith
      then show False
        using outside [of "key x"] outside [of "lend x"] that same ih(1,2) x(1) se by cases (auto simp: lock_wf_def split: if_splits)
    qed
    then have "straddles s e x \<longleftrightarrow> straddles s' e' x" using same ih(1,2) by auto
    moreover have "s \<le> b \<and> b \<le> e \<or> type \<noteq> F_UNLCK \<and> (\<exists>y \<in> set (x # xs). ltype y = type \<and> key y \<le> b \<and> b \<le> lend y)"
      if "s' \<le> b" "b \<le> e'" for b
      using ih(3) [OF that] unfolding same by (simp only: list.set) blast
    moreover have "s' \<le> key y \<and> lend y \<le> e'"
      if "y \<in> set (x # xs)" "type \<noteq> F_UNLCK" "ltype y = type" "near y s' e'" for y
      using ih(4) that head by (cases "y = x") simp_all
    ultimately show ?thesis
      using ih(1,2,5) same unfolding p fold_simps p1_def [unfolded p, symmetric] q planned_def by simp
  qed
qed

end
