(* ===== verification/Record_Lock_Edit.thy ===== *)
theory Record_Lock_Edit
  imports Record_Lock_Plan
begin

text \<open>
  An edit of one holder's locks seen on the set of all locks: the locks that touch the planned
  range are cut back to the parts outside it and one new lock is added. The set stays well formed,
  and what each holder claims on each byte changes exactly on the requested bytes.
\<close>

section \<open>Cutting locks back\<close>

definition left_part :: "int \<Rightarrow> rlock \<Rightarrow> rlock" where
  "left_part start x = x\<lparr>lend := start - 1\<rparr>"

definition right_part :: "int \<Rightarrow> ptr \<Rightarrow> rlock \<Rightarrow> rlock" where
  "right_part stop p x = x\<lparr>addr := p, key := stop + 1\<rparr>"

text \<open>The parts left of the locks of a list, and the spare addresses that the cuts use up.\<close>

fun parts :: "int \<Rightarrow> int \<Rightarrow> rlock list \<Rightarrow> ptr list \<Rightarrow> rlock list" where
  "parts start stop [] ps = []"
| "parts start stop (x # xs) ps =
     (if straddles start stop x
      then left_part start x # right_part stop (hd ps) x # parts start stop xs (tl ps)
      else if key x < start then left_part start x # parts start stop xs ps
      else if stop < lend x then right_part stop (addr x) x # parts start stop xs ps
      else parts start stop xs ps)"

abbreviation cuts :: "int \<Rightarrow> int \<Rightarrow> rlock list \<Rightarrow> nat" where
  "cuts start stop xs \<equiv> length (filter (straddles start stop) xs)"

definition part_of :: "int \<Rightarrow> int \<Rightarrow> rlock \<Rightarrow> rlock \<Rightarrow> bool" where
  "part_of start stop y x \<longleftrightarrow> mine (lowner x) (lkind x) y \<and> ltype y = ltype x \<and> lpid y = lpid x \<and>
     (key x < start \<and> key y = key x \<and> lend y = start - 1 \<or> stop < lend x \<and> key y = stop + 1 \<and> lend y = lend x)"

lemma part_of_parts: "y \<in> set (parts start stop xs ps) \<Longrightarrow> \<exists>x \<in> set xs. part_of start stop y x"
  by (induction xs ps rule: parts.induct) (auto simp: part_of_def left_part_def right_part_def split: if_splits)

lemma parts_addr:
  "cuts start stop xs \<le> length ps \<Longrightarrow> y \<in> set (parts start stop xs ps) \<Longrightarrow> addr y \<in> addr ` set xs \<union> set ps"
proof (induction xs arbitrary: ps)
  case (Cons x xs)
  show ?case
  proof (cases "straddles start stop x")
    case True
    then obtain p qs where "ps = p # qs" using Cons.prems by (cases ps) auto
    then show ?thesis using Cons.IH [of qs] Cons.prems True by (auto simp: left_part_def right_part_def)
  next
    case False
    then show ?thesis using Cons.IH [of ps] Cons.prems by (auto simp: left_part_def right_part_def split: if_splits)
  qed
qed simp

lemma parts_distinct:
  assumes "distinct (map addr xs)" "distinct ps" "set ps \<inter> addr ` set xs = {}" "cuts start stop xs \<le> length ps"
  shows "distinct (map addr (parts start stop xs ps))"
  using assms
proof (induction xs arbitrary: ps)
  case (Cons x xs)
  show ?case
  proof (cases "straddles start stop x")
    case True
    then obtain p qs where ps: "ps = p # qs" using Cons.prems by (cases ps) auto
    then have "distinct (map addr (parts start stop xs qs))" using Cons.IH [of qs] Cons.prems True by auto
    moreover have "addr x \<notin> addr ` set (parts start stop xs qs)" "p \<notin> addr ` set (parts start stop xs qs)"
      using parts_addr [of start stop xs qs] Cons.prems True ps by fastforce+
    ultimately show ?thesis using Cons.prems True ps by (auto simp: left_part_def right_part_def)
  next
    case False
    then have "distinct (map addr (parts start stop xs ps))" using Cons.IH [of ps] Cons.prems by auto
    moreover have "addr x \<notin> addr ` set (parts start stop xs ps)"
      using parts_addr [of start stop xs ps] Cons.prems False by fastforce
    ultimately show ?thesis using Cons.prems False by (auto simp: left_part_def right_part_def)
  qed
qed simp

section \<open>Claims\<close>

text \<open>Who claims which byte, and how.\<close>

definition claim :: "rlock \<Rightarrow> (ptr \<times> nat \<times> int \<times> int) set" where
  "claim x = {(lowner x, lkind x, b, ltype x) |b. key x \<le> b \<and> b \<le> lend x}"

definition claims :: "rlock set \<Rightarrow> (ptr \<times> nat \<times> int \<times> int) set" where
  "claims X = (\<Union>x \<in> X. claim x)"

lemma claim_iff: "(owner, kind, b, \<tau>) \<in> claim x \<longleftrightarrow> mine owner kind x \<and> ltype x = \<tau> \<and> key x \<le> b \<and> b \<le> lend x"
  by (auto simp: claim_def)

lemma claims_iff: "(owner, kind, b, \<tau>) \<in> claims X \<longleftrightarrow> (\<exists>x \<in> X. mine owner kind x \<and> ltype x = \<tau> \<and> key x \<le> b \<and> b \<le> lend x)"
  by (simp add: claims_def claim_iff)

lemma claims_simps [simp]:
  "claims {} = {}" "claims (X \<union> Y) = claims X \<union> claims Y" "claims (insert x X) = claim x \<union> claims X"
  by (simp_all add: claims_def)

lemma claims_parts:
  assumes "start \<le> stop" "\<forall>x \<in> set xs. touching x start stop"
  shows "(owner, kind, b, \<tau>) \<in> claims (set (parts start stop xs ps)) \<longleftrightarrow>
    (owner, kind, b, \<tau>) \<in> claims (set xs) \<and> (b < start \<or> stop < b)"
  using assms(2)
proof (induction xs arbitrary: ps)
  case (Cons x xs)
  have x: "key x \<le> stop" "start \<le> lend x" and rest: "\<forall>y \<in> set xs. touching y start stop"
    using Cons.prems by (simp_all add: touching_def)
  show ?case
    using x assms(1) Cons.IH [OF rest, of ps] Cons.IH [OF rest, of "tl ps"]
    by (auto simp: claim_iff left_part_def right_part_def)
qed simp

section \<open>Well-formed sets of locks\<close>

lemma locks_okD:
  assumes "locks_ok X" "x \<in> X"
  shows "lock_wf x"
    and "y \<in> X \<Longrightarrow> lowner x = lowner y \<Longrightarrow> lkind x = lkind y \<Longrightarrow> x \<noteq> y \<Longrightarrow> separate x y"
    and "y \<in> X \<Longrightarrow> lowner x \<noteq> lowner y \<or> lkind x \<noteq> lkind y \<Longrightarrow> touching x (key y) (lend y) \<Longrightarrow> ltype x \<noteq> F_WRLCK"
  using assms unfolding locks_ok_def by blast+

text \<open>In a well-formed set each holder claims a byte in at most one way.\<close>

lemma claims_unique:
  assumes "locks_ok X" "(owner, kind, b, \<tau>) \<in> claims X" "(owner, kind, b, \<tau>') \<in> claims X"
  shows "\<tau> = \<tau>'"
proof -
  obtain x where x: "x \<in> X" "mine owner kind x" "ltype x = \<tau>" "key x \<le> b" "b \<le> lend x"
    using assms(2) by (auto simp: claims_iff)
  obtain y where y: "y \<in> X" "mine owner kind y" "ltype y = \<tau>'" "key y \<le> b" "b \<le> lend y"
    using assms(3) by (auto simp: claims_iff)
  have "\<not> separate x y" using x y by (simp add: separate_def)
  then have "x = y" using locks_okD(2) [OF assms(1) x(1) y(1)] x(2) y(2) by (cases "x = y") simp_all
  then show ?thesis using x y by simp
qed

definition within :: "rlock \<Rightarrow> rlock \<Rightarrow> bool" where
  "within y z \<longleftrightarrow> mine (lowner z) (lkind z) y \<and> ltype y = ltype z \<and> key z \<le> key y \<and> lend y \<le> lend z"

lemma separate_sym: "separate x y \<Longrightarrow> separate y x"
  by (auto simp: separate_def)

lemma separate_within: "separate x z \<Longrightarrow> within y z \<Longrightarrow> separate x y"
  by (auto simp: separate_def within_def)

lemma touching_sym: "touching x (key y) (lend y) \<Longrightarrow> touching y (key x) (lend x)"
  by (simp add: touching_def)

lemma touching_within: "touching x (key y) (lend y) \<Longrightarrow> within y z \<Longrightarrow> touching x (key z) (lend z)"
  by (auto simp: touching_def within_def)

lemma part_within: "part_of start stop y x \<Longrightarrow> touching x start stop \<Longrightarrow> within y x"
  by (auto simp: part_of_def within_def touching_def)

lemma part_wf: "part_of start stop y x \<Longrightarrow> touching x start stop \<Longrightarrow> lock_wf x \<Longrightarrow> lock_wf y"
  by (auto simp: part_of_def lock_wf_def touching_def)

lemma parts_separate:
  assumes "start \<le> stop" "sorted_wrt separate xs" "\<forall>x \<in> set xs. touching x start stop"
  shows "sorted_wrt separate (parts start stop xs ps)"
  using assms(2,3)
proof (induction xs arbitrary: ps)
  case (Cons x xs)
  have part: "separate x z" if "z \<in> set (parts start stop xs qs)" for z qs
    using part_of_parts [OF that] part_within Cons.prems separate_within [of x] by fastforce
  have cut: "separate y z" if "within y x" "z \<in> set (parts start stop xs qs)" for y z qs
    using part [OF that(2)] separate_sym separate_within [of z x y] that(1) by blast
  have "within (left_part start x) x" "within (right_part stop p x) x" for p
    using Cons.prems assms(1) by (auto simp: within_def left_part_def right_part_def touching_def)
  moreover have "separate (left_part start x) (right_part stop p x)" for p
    using assms(1) by (simp add: separate_def left_part_def right_part_def)
  ultimately show ?case using Cons.IH Cons.prems cut by auto
qed simp

lemma sorted_wrt_pairwise:
  "sorted_wrt separate xs \<Longrightarrow> x \<in> set xs \<Longrightarrow> y \<in> set xs \<Longrightarrow> x \<noteq> y \<Longrightarrow> separate x y"
  by (induction xs) (auto intro: separate_sym)

lemma pairwise_sorted_wrt:
  "distinct xs \<Longrightarrow> (\<And>x y. x \<in> set xs \<Longrightarrow> y \<in> set xs \<Longrightarrow> x \<noteq> y \<Longrightarrow> R x y) \<Longrightarrow> sorted_wrt R xs"
  by (induction xs) auto

text \<open>Replacing locks by disjoint sublocks keeps a set well formed.\<close>

lemma refine_ok:
  assumes L: "locks_ok L" and P: "\<And>y. y \<in> P \<Longrightarrow> lock_wf y \<and> (\<exists>z \<in> L - K. within y z)"
    and apart: "\<And>x y. x \<in> P \<Longrightarrow> y \<in> P \<Longrightarrow> lowner x = lowner y \<Longrightarrow> lkind x = lkind y \<Longrightarrow> x \<noteq> y \<Longrightarrow> separate x y"
    and K: "K \<subseteq> L"
  shows "locks_ok (K \<union> P)"
proof -
  have wf: "lock_wf x" if "x \<in> K \<union> P" for x using that P locks_okD(1) [OF L] K by blast
  have cover: "\<exists>z \<in> L. within x z \<and> (x \<in> K \<longrightarrow> z = x) \<and> (x \<notin> K \<longrightarrow> z \<notin> K \<and> x \<in> P)" if "x \<in> K \<union> P" for x
    using that P K by (cases "x \<in> K") (auto simp: within_def)
  have "separate x y" if x: "x \<in> K \<union> P" and y: "y \<in> K \<union> P" and o: "lowner x = lowner y" "lkind x = lkind y" "x \<noteq> y" for x y
  proof (cases "x \<in> P \<and> y \<in> P")
    case True
    then show ?thesis using apart o by blast
  next
    case False
    obtain z where z: "z \<in> L" "within x z" "x \<in> K \<longrightarrow> z = x" "x \<notin> K \<longrightarrow> z \<notin> K \<and> x \<in> P" using cover [OF x] by blast
    obtain w where w: "w \<in> L" "within y w" "y \<in> K \<longrightarrow> w = y" "y \<notin> K \<longrightarrow> w \<notin> K \<and> y \<in> P" using cover [OF y] by blast
    have "z \<noteq> w" using z(3,4) w(3,4) False x y o(3) by auto
    then have "separate z w" using locks_okD(2) [OF L z(1) w(1)] z(2) w(2) o by (simp add: within_def)
    then have "separate z y" using w(2) by (rule separate_within)
    then show ?thesis using separate_within [OF separate_sym z(2)] separate_sym by blast
  qed
  moreover have "ltype x \<noteq> F_WRLCK" if x: "x \<in> K \<union> P" and y: "y \<in> K \<union> P"
    and o: "lowner x \<noteq> lowner y \<or> lkind x \<noteq> lkind y" and t: "touching x (key y) (lend y)" for x y
  proof -
    obtain z w where zw: "z \<in> L" "within x z" "w \<in> L" "within y w" using cover [OF x] cover [OF y] by blast
    have "touching x (key w) (lend w)" using touching_within [OF t zw(4)] .
    then have "touching z (key w) (lend w)" using touching_within [OF touching_sym zw(2)] touching_sym by blast
    then have "ltype z \<noteq> F_WRLCK" using locks_okD(3) [OF L zw(1,3)] zw(2,4) o by (simp add: within_def)
    then show ?thesis using zw(2) by (simp add: within_def)
  qed
  ultimately show ?thesis using wf unfolding locks_ok_def by blast
qed

lemma insert_ok:
  assumes "locks_ok X" "lock_wf n"
    and "\<And>x. x \<in> X \<Longrightarrow> lowner x = lowner n \<Longrightarrow> lkind x = lkind n \<Longrightarrow> separate n x"
    and "\<And>x. x \<in> X \<Longrightarrow> lowner x \<noteq> lowner n \<or> lkind x \<noteq> lkind n \<Longrightarrow> touching n (key x) (lend x) \<Longrightarrow>
      ltype x \<noteq> F_WRLCK \<and> ltype n \<noteq> F_WRLCK"
  shows "locks_ok (insert n X)"
  unfolding locks_ok_def
proof (intro conjI ballI impI)
  fix x y assume x: "x \<in> insert n X" and y: "y \<in> insert n X"
  show "lock_wf x" using x assms(2) locks_okD(1) [OF assms(1)] by auto
  show "separate x y" if "mine (lowner y) (lkind y) x \<and> x \<noteq> y"
    using x y that assms(3) [THEN separate_sym] assms(3) locks_okD(2) [OF assms(1)] by (cases "x = n"; cases "y = n") simp_all
  show "ltype x \<noteq> F_WRLCK" if "\<not> mine (lowner y) (lkind y) x \<and> touching x (key y) (lend y)"
  proof (cases "x = n")
    case True
    then have "y \<in> X" "lowner y \<noteq> lowner n \<or> lkind y \<noteq> lkind n" using that y by auto
    then show ?thesis using assms(4) that True by simp
  next
    case False
    show ?thesis
    proof (cases "y = n")
      case True
      then show ?thesis using assms(4) [OF _ _ touching_sym] that x False by auto
    next
      case no: False
      then show ?thesis using locks_okD(3) [OF assms(1)] that x y False by auto
    qed
  qed
qed

section \<open>The edit on the set of locks\<close>

text \<open>
  \<open>L\<close> the locks, \<open>xs\<close> those of the requesting holder, \<open>g\<close> those of them that touch the planned range
  \<open>s'\<close> to \<open>e'\<close>.
\<close>

definition edit_of ::
  "rlock set \<Rightarrow> ptr \<Rightarrow> nat \<Rightarrow> rlock list \<Rightarrow> rlock list \<Rightarrow> int \<Rightarrow> int \<Rightarrow> int \<Rightarrow> int \<Rightarrow> int \<Rightarrow> bool" where
  "edit_of L owner kind xs g type s e s' e' \<longleftrightarrow>
     locks_ok L \<and> set xs = {x \<in> L. mine owner kind x} \<and> distinct g \<and> set g = {x \<in> L. taken owner kind s' e' x} \<and>
     plan_ok (s, e, 0) \<and> plan_ok (s', e', 0) \<and> (\<exists>n n'. planned type xs (s, e, n) (s', e', n'))"

lemma edit_ofD:
  assumes "edit_of L owner kind xs g type s e s' e'"
  shows "s' \<le> s" "s \<le> e" "e \<le> e'" "int64_min \<le> s'" "e' \<le> int64_max"
    and "s' \<le> b \<Longrightarrow> b \<le> e' \<Longrightarrow> s \<le> b \<and> b \<le> e \<or> type \<noteq> F_UNLCK \<and> (owner, kind, b, type) \<in> claims L"
    and "x \<in> L \<Longrightarrow> mine owner kind x \<Longrightarrow> type \<noteq> F_UNLCK \<Longrightarrow> ltype x = type \<Longrightarrow> near x s' e' \<Longrightarrow> s' \<le> key x \<and> lend x \<le> e'"
    and "x \<in> set g \<Longrightarrow> touching x s' e'"
proof -
  obtain n n' where p: "planned type xs (s, e, n) (s', e', n')" using assms by (auto simp: edit_of_def)
  have xs: "set xs = {x \<in> L. mine owner kind x}" using assms by (simp add: edit_of_def)
  show "s' \<le> s" "s \<le> e" "e \<le> e'" "int64_min \<le> s'" "e' \<le> int64_max"
    using p assms by (auto simp: planned_def edit_of_def plan_ok_def)
  show "s \<le> b \<and> b \<le> e \<or> type \<noteq> F_UNLCK \<and> (owner, kind, b, type) \<in> claims L" if "s' \<le> b" "b \<le> e'"
    using p that xs by (auto simp: planned_def claims_iff)
  show "s' \<le> key x \<and> lend x \<le> e'"
    if "x \<in> L" "mine owner kind x" "type \<noteq> F_UNLCK" "ltype x = type" "near x s' e'"
    using p that xs by (auto simp: planned_def)
  show "touching x s' e'" if "x \<in> set g" using assms that by (auto simp: edit_of_def taken_def)
qed

lemma cut_ok:
  assumes e: "edit_of L owner kind xs g type s e s' e'"
  shows "locks_ok ((L - set g) \<union> set (parts s' e' g ps))"
proof (rule refine_ok)
  show L: "locks_ok L" using e by (simp add: edit_of_def)
  have g: "set g \<subseteq> L" "distinct g" "\<And>x. x \<in> set g \<Longrightarrow> mine owner kind x" using e by (auto simp: edit_of_def taken_def)
  note touch = edit_ofD(8) [OF e]
  show "lock_wf y \<and> (\<exists>z \<in> L - (L - set g). within y z)" if y: "y \<in> set (parts s' e' g ps)" for y
  proof -
    obtain x where x: "x \<in> set g" "part_of s' e' y x" using part_of_parts [OF y] by blast
    have "lock_wf x" using locks_okD(1) [OF L] x(1) g(1) by blast
    then have "lock_wf y" "within y x" using part_wf part_within x touch by simp_all
    then show ?thesis using x(1) g(1) by blast
  qed
  have "separate x y" if "x \<in> set g" "y \<in> set g" "x \<noteq> y" for x y
    using locks_okD(2) [OF L, of x y] g that by auto
  then have "sorted_wrt separate g" using pairwise_sorted_wrt [OF g(2)] by blast
  then have "sorted_wrt separate (parts s' e' g ps)" using parts_separate edit_ofD(1-3) [OF e] touch by simp
  then show "separate x y" if "x \<in> set (parts s' e' g ps)" "y \<in> set (parts s' e' g ps)" "x \<noteq> y" for x y
    using sorted_wrt_pairwise that by blast
qed blast

text \<open>The new lock.\<close>

definition covers :: "ptr \<Rightarrow> nat \<Rightarrow> int \<Rightarrow> int \<Rightarrow> int \<Rightarrow> rlock \<Rightarrow> bool" where
  "covers owner kind type start stop n \<longleftrightarrow> mine owner kind n \<and> ltype n = type \<and> key n = start \<and> lend n = stop"

lemma edit_ok:
  assumes e: "edit_of L owner kind xs g type s e s' e'" and lock: "type \<noteq> F_UNLCK"
    and n: "covers owner kind type s' e' n"
    and free: "\<And>x. x \<in> L \<Longrightarrow> touching x s e \<Longrightarrow> \<not> excludes owner kind type x"
  shows "locks_ok (insert n ((L - set g) \<union> set (parts s' e' g ps)))"
proof (rule insert_ok [OF cut_ok [OF e]])
  have L: "locks_ok L" using e by (simp add: edit_of_def)
  have g: "set g \<subseteq> L" "\<And>x. x \<in> set g \<longleftrightarrow> x \<in> L \<and> taken owner kind s' e' x" using e by (auto simp: edit_of_def)
  have range: "s' \<le> e'" using edit_ofD(1-3) [OF e] by simp
  show "lock_wf n" using n edit_ofD(4,5) [OF e] range by (simp add: covers_def lock_wf_def)
  note merge = edit_ofD(7) [OF e _ _ lock]
  fix x assume x: "x \<in> (L - set g) \<union> set (parts s' e' g ps)"
  have source: "\<exists>z \<in> L. within x z \<and> (x = z \<and> x \<notin> set g \<or> z \<in> set g \<and> part_of s' e' x z)"
  proof (cases "x \<in> L - set g")
    case True
    then show ?thesis by (auto simp: within_def)
  next
    case False
    then obtain z where "z \<in> set g" "part_of s' e' x z" using x part_of_parts by blast
    then show ?thesis using part_within edit_ofD(8) [OF e] g(1) by blast
  qed
  then obtain z where z: "z \<in> L" "within x z" "x = z \<and> x \<notin> set g \<or> z \<in> set g \<and> part_of s' e' x z" by blast
  have wz: "lock_wf z" using locks_okD(1) [OF L z(1)] .
  show "separate n x" if own: "lowner x = lowner n" "lkind x = lkind n"
  proof -
    have "mine owner kind z" using own n z(2) by (simp add: covers_def within_def)
    then have same: "ltype z = type \<Longrightarrow> near z s' e' \<Longrightarrow> s' \<le> key z \<and> lend z \<le> e'" using merge z(1) by blast
    show ?thesis
    proof (cases "z \<in> set g")
      case True
      then have "part_of s' e' x z" "touching z s' e'" using z(3) edit_ofD(8) [OF e] by blast+
      then show ?thesis using same n range by (auto simp: part_of_def near_def separate_def covers_def)
    next
      case False
      then have "x = z" "\<not> touching z s' e'" using z g(2) \<open>mine owner kind z\<close> by (auto simp: taken_def)
      moreover have "ltype z \<noteq> type" if "adjacent z s' e'"
        using same that calculation wz range by (auto simp: near_def touching_def lock_wf_def)
      then have "ltype z \<noteq> type \<or> lend z + 1 \<noteq> s' \<and> e' + 1 \<noteq> key z"
        using wz range edit_ofD(4,5) [OF e] by (fastforce simp: adjacent_def lock_wf_def)
      ultimately show ?thesis using n range wz by (auto simp: touching_def separate_def covers_def lock_wf_def)
    qed
  qed
  show "ltype x \<noteq> F_WRLCK \<and> ltype n \<noteq> F_WRLCK"
    if other: "lowner x \<noteq> lowner n \<or> lkind x \<noteq> lkind n" and touch: "touching n (key x) (lend x)"
  proof -
    define b where "b = max s' (key z)"
    have "touching n (key z) (lend z)" using touching_within [OF touch z(2)] .
    then have b: "s' \<le> b" "b \<le> e'" "key z \<le> b" "b \<le> lend z"
      using n range wz by (auto simp: b_def covers_def touching_def lock_wf_def)
    have noz: "\<not> mine owner kind z" using other n z(2) by (auto simp: covers_def within_def)
    consider "s \<le> b" "b \<le> e" | "(owner, kind, b, type) \<in> claims L" using edit_ofD(6) [OF e b(1,2)] by blast
    then have "ltype z \<noteq> F_WRLCK \<and> type \<noteq> F_WRLCK"
    proof cases
      case 1
      then have "touching z s e" using b by (simp add: touching_def)
      then show ?thesis using free [OF z(1)] noz by (auto simp: excludes_def)
    next
      case 2
      then obtain y where y: "y \<in> L" "mine owner kind y" "ltype y = type" "key y \<le> b" "b \<le> lend y" by (auto simp: claims_iff)
      have t: "touching z (key y) (lend y)" "touching y (key z) (lend z)" using y b by (simp_all add: touching_def)
      have o: "lowner z \<noteq> lowner y \<or> lkind z \<noteq> lkind y" "lowner y \<noteq> lowner z \<or> lkind y \<noteq> lkind z" using noz y(2) by auto
      show ?thesis using locks_okD(3) [OF L z(1) y(1) o(1) t(1)] locks_okD(3) [OF L y(1) z(1) o(2) t(2)] y(3) by simp
    qed
    then show ?thesis using z(2) n by (simp add: within_def covers_def)
  qed
qed

text \<open>What the request means for the claims.\<close>

definition reclaim :: "ptr \<Rightarrow> nat \<Rightarrow> int \<Rightarrow> int \<Rightarrow> int \<Rightarrow> (ptr \<times> nat \<times> int \<times> int) set \<Rightarrow> (ptr \<times> nat \<times> int \<times> int) set" where
  "reclaim owner kind start stop type C =
     {(ow, k, b, \<tau>) \<in> C. \<not> (ow = owner \<and> k = kind \<and> start \<le> b \<and> b \<le> stop)} \<union>
     (if type = F_UNLCK then {} else {(owner, kind, b, type) |b. start \<le> b \<and> b \<le> stop})"

lemma cut_claims:
  assumes e: "edit_of L owner kind xs g type s e s' e'"
  shows "(ow, k, b, \<tau>) \<in> claims ((L - set g) \<union> set (parts s' e' g ps)) \<longleftrightarrow>
    (ow, k, b, \<tau>) \<in> claims L \<and> \<not> (ow = owner \<and> k = kind \<and> s' \<le> b \<and> b \<le> e')"
proof -
  have g: "set g \<subseteq> L" "\<And>x. x \<in> set g \<longleftrightarrow> x \<in> L \<and> taken owner kind s' e' x" using e by (auto simp: edit_of_def)
  have range: "s' \<le> e'" using edit_ofD(1-3) [OF e] by simp
  have split: "claims L = claims (L - set g) \<union> claims (set g)" using g(1) by (auto simp: claims_def)
  have own: "ow = owner \<and> k = kind" if "(ow, k, b, \<tau>) \<in> claims (set g)"
    using that g(2) by (auto simp: claims_iff taken_def)
  have rest: "\<not> (ow = owner \<and> k = kind \<and> s' \<le> b \<and> b \<le> e')" if c: "(ow, k, b, \<tau>) \<in> claims (L - set g)"
  proof -
    obtain x where "x \<in> L - set g" "mine ow k x" "key x \<le> b" "b \<le> lend x" using c by (auto simp: claims_iff)
    then show ?thesis by (auto simp: g(2) taken_def touching_def)
  qed
  have "(ow, k, b, \<tau>) \<in> claims (set (parts s' e' g ps)) \<longleftrightarrow> (ow, k, b, \<tau>) \<in> claims (set g) \<and> (b < s' \<or> e' < b)"
    using claims_parts [OF range] edit_ofD(8) [OF e] by simp
  then show ?thesis unfolding split claims_simps(2) Un_iff
    by (cases "(ow, k, b, \<tau>) \<in> claims (L - set g)"; cases "(ow, k, b, \<tau>) \<in> claims (set g)") (use own rest in auto)
qed

lemma edit_claims:
  assumes e: "edit_of L owner kind xs g type s e s' e'"
    and n: "type \<noteq> F_UNLCK \<Longrightarrow> covers owner kind type s' e' n"
  shows "claims ((if type = F_UNLCK then {} else {n}) \<union> ((L - set g) \<union> set (parts s' e' g ps)))
    = reclaim owner kind s e type (claims L)"
proof -
  have L: "locks_ok L" using e by (simp add: edit_of_def)
  have range: "s' \<le> s" "s \<le> e" "e \<le> e'" using edit_ofD(1-3) [OF e] .
  have "(ow, k, b, \<tau>) \<in> claims ((if type = F_UNLCK then {} else {n}) \<union> ((L - set g) \<union> set (parts s' e' g ps)))
      \<longleftrightarrow> (ow, k, b, \<tau>) \<in> reclaim owner kind s e type (claims L)" for ow k b \<tau>
  proof (cases "ow = owner \<and> k = kind \<and> s' \<le> b \<and> b \<le> e' \<and> \<not> (s \<le> b \<and> b \<le> e)")
    case True
    then have ext: "type \<noteq> F_UNLCK" "(owner, kind, b, type) \<in> claims L" using edit_ofD(6) [OF e, of b] by auto
    then have "(owner, kind, b, \<tau>) \<in> claims L \<longleftrightarrow> \<tau> = type" using claims_unique [OF L] by blast
    then show ?thesis using True ext n cut_claims [OF e, of ow k b \<tau> ps]
      by (auto simp: reclaim_def claim_iff covers_def)
  next
    case False
    then show ?thesis using range n cut_claims [OF e, of ow k b \<tau> ps]
      by (cases "type = F_UNLCK") (auto simp: reclaim_def claim_iff covers_def)
  qed
  then show ?thesis by (simp only: set_eq_iff split_paired_All) blast
qed

end
