(* ===== verification/Record_Lock_Set.thy ===== *)
theory Record_Lock_Set
  imports Record_Lock_Edit
begin

text \<open>
  The operations of \<^verbatim>\<open>src/fs/record_lock.c\<close> on a well-formed lock state: setting and clearing a range
  never traps, and either changes the claims of the requesting holder on exactly the requested
  bytes or reports why not and changes nothing; releasing an owner removes exactly its locks.
\<close>

section \<open>Allocation\<close>

fun supplied :: "alloc_outcome list \<Rightarrow> ptr list" where
  "supplied [] = []"
| "supplied (Alloc p # os) = p # supplied os"
| "supplied (_ # os) = supplied os"

text \<open>The heap hands out distinct addresses that are not in use, and reports only OK or EMPTY.\<close>

definition heap_ready :: "heap_view \<Rightarrow> ptr set \<Rightarrow> bool" where
  "heap_ready hp used \<longleftrightarrow> Alloc_error \<notin> set (outcomes hp) \<and> distinct (supplied (outcomes hp)) \<and>
     (\<forall>p \<in> set (supplied (outcomes hp)). p < 2 ^ 64 \<and> p \<notin> used)"

lemma supplied_append: "supplied (map Alloc ps @ rest) = ps @ supplied rest"
  by (induction ps) auto

lemma fold_release: "fold heap_release ps hp = hp\<lparr>freed := rev ps @ freed hp\<rparr>"
  by (induction ps arbitrary: hp) (auto simp: heap_release_def)

lemma allocate_spares_cases:
  assumes "Alloc_error \<notin> set (outcomes hp)"
  obtains (all) ps rest where "outcomes hp = map Alloc ps @ rest" "length ps = n"
      "allocate_spares n sp hp = Some (Some (rev ps @ sp), hp\<lparr>outcomes := rest\<rparr>)"
    | (short) ps rest where "outcomes hp = map Alloc ps @ rest" "rest = [] \<or> hd rest = Alloc_empty" "length ps < n"
      "allocate_spares n sp hp = Some (None, hp\<lparr>outcomes := tl rest, freed := rev sp @ ps @ freed hp\<rparr>)"
  using assms
proof (induction n arbitrary: sp hp thesis)
  case 0
  then show ?case by (metis allocate_spares.simps(1) append_Nil heap_view.surjective heap_view.update_convs(1) list.map(1) list.size(3) rev.simps(1))
next
  case (Suc n)
  show ?case
  proof (cases "outcomes hp")
    case Nil
    then have "allocate_spares (Suc n) sp hp = Some (None, hp\<lparr>outcomes := tl [], freed := rev sp @ [] @ freed hp\<rparr>)"
      by (simp add: allocate_def fold_release)
    then show ?thesis using Suc.prems(2) [of "[]" "[]"] Nil by simp
  next
    case (Cons a rest)
    consider p where "a = Alloc p" | "a = Alloc_empty" using Cons Suc.prems(3) by (cases a) auto
    then show ?thesis
    proof cases
      case 1
      have step: "allocate_spares (Suc n) sp hp = allocate_spares n (p # sp) (hp\<lparr>outcomes := rest\<rparr>)"
        using Cons 1 by (simp add: allocate_def)
      have ne: "Alloc_error \<notin> set (outcomes (hp\<lparr>outcomes := rest\<rparr>))" using Cons Suc.prems(3) by simp
      show ?thesis
      proof (rule Suc.IH [OF _ _ ne, of "p # sp"])
        fix ps r assume "outcomes (hp\<lparr>outcomes := rest\<rparr>) = map Alloc ps @ r" "length ps = n"
          "allocate_spares n (p # sp) (hp\<lparr>outcomes := rest\<rparr>) = Some (Some (rev ps @ p # sp), hp\<lparr>outcomes := rest\<rparr>\<lparr>outcomes := r\<rparr>)"
        then show thesis using Suc.prems(1) [of "p # ps" r] step Cons 1 by simp
      next
        fix ps r assume "outcomes (hp\<lparr>outcomes := rest\<rparr>) = map Alloc ps @ r" "r = [] \<or> hd r = Alloc_empty" "length ps < n"
          "allocate_spares n (p # sp) (hp\<lparr>outcomes := rest\<rparr>)
            = Some (None, hp\<lparr>outcomes := rest\<rparr>\<lparr>outcomes := tl r, freed := rev (p # sp) @ ps @ freed (hp\<lparr>outcomes := rest\<rparr>)\<rparr>)"
        then show thesis using Suc.prems(2) [of "p # ps" r] step Cons 1 by simp
      qed
    next
      case 2
      then have "allocate_spares (Suc n) sp hp = Some (None, hp\<lparr>outcomes := rest, freed := rev sp @ [] @ freed hp\<rparr>)"
        using Cons by (simp add: allocate_def fold_release)
      then show ?thesis using Suc.prems(2) [of "[]" "a # rest"] Cons 2 by simp
    qed
  qed
qed

section \<open>One lock of the edit\<close>

lemma publish_spec:
  assumes "tree_ok t" "addr x < 2 ^ 64" "addr x \<notin> addr ` set (locks t)"
  shows "\<exists>t'. publish state t os x = Some (t', (state, x) # os) \<and> tree_ok t' \<and> set (locks t') = insert x (set (locks t))"
  using tree_insert_ok [of t x] assms by (auto simp: publish_def owner_insert_def avl_fresh_def)

abbreviation addresses :: "owner_list \<Rightarrow> ptr list" where
  "addresses os \<equiv> map (addr \<circ> snd) os"

lemma owner_remove_spec:
  assumes "distinct (addresses os)" "(st, x) \<in> set os"
  shows "\<exists>os'. owner_remove x os = Some os' \<and> set os' = set os - {(st, x)} \<and> distinct (addresses os') \<and>
    set (addresses os') = set (addresses os) - {addr x}"
proof -
  have "addr x \<in> (addr \<circ> snd) ` set os" using assms(2) by force
  then have "owner_remove x os = Some (filter (\<lambda>e. addr (snd e) \<noteq> addr x) os)" by (simp add: owner_remove_def)
  moreover have uniq: "addr (snd e) \<noteq> addr x" if "e \<in> set os" "e \<noteq> (st, x)" for e
    using inj_onD [of "addr \<circ> snd" "set os" e "(st, x)"] assms that by (auto simp: distinct_map)
  have "e \<in> set (filter (\<lambda>e. addr (snd e) \<noteq> addr x) os) \<longleftrightarrow> e \<in> set os - {(st, x)}" for e
    using uniq [of e] by (cases "e = (st, x)") auto
  then have "set (filter (\<lambda>e. addr (snd e) \<noteq> addr x) os) = set os - {(st, x)}" by (rule set_eqI)
  moreover have "set (addresses (filter (\<lambda>e. addr (snd e) \<noteq> addr x) os)) = set (addresses os) - {addr x}" by auto
  ultimately show ?thesis using distinct_map_filter [OF assms(1)] by blast
qed

abbreviation swallowed :: "int \<Rightarrow> int \<Rightarrow> rlock \<Rightarrow> bool" where
  "swallowed start stop x \<equiv> start \<le> key x \<and> lend x \<le> stop"

lemma right_part_eq:
  "mine owner kind x \<Longrightarrow> \<lparr>addr = p, key = stop + 1, lowner = owner, lend = lend x, lpid = lpid x, ltype = ltype x, lkind = kind\<rparr>
     = right_part stop p x"
  by (simp add: right_part_def)

text \<open>Everything the loop relies on, for the locks \<open>g\<close> that are still to be replaced.\<close>

definition edit_world_ok :: "ptr \<Rightarrow> ptr \<Rightarrow> nat \<Rightarrow> rlock list \<Rightarrow> edit_world \<Rightarrow> bool" where
  "edit_world_ok state owner kind g w \<longleftrightarrow> (case w of (t, os, ps, hp) \<Rightarrow>
     tree_ok t \<and> distinct (addresses os) \<and> distinct ps \<and> distinct (map addr g) \<and>
     (\<forall>x \<in> set g. mine owner kind x \<and> (state, x) \<in> set os \<and> addr x < 2 ^ 64 \<and> addr x \<notin> addr ` set (locks t)) \<and>
     (\<forall>p \<in> set ps. p < 2 ^ 64 \<and> p \<notin> addr ` set (locks t) \<and> p \<notin> set (addresses os)))"

lemma part_addr [simp]: "addr (left_part start x) = addr x" "addr (right_part stop p x) = p"
  by (simp_all add: left_part_def right_part_def)

lemma edit_world_rest:
  assumes ok: "edit_world_ok state owner kind (x # g) (t, os, ps, hp)"
    and os1: "set os1 = set os - {(state, x)}" "distinct (addresses os1)" "set (addresses os1) = set (addresses os) - {addr x}"
    and t': "tree_ok t'" "addr ` set (locks t') \<subseteq> insert (addr x) (addr ` set (locks t)) \<union> set (take k ps)"
    and new: "distinct (addresses new)" "set (addresses new) \<subseteq> insert (addr x) (set (take k ps))"
  shows "edit_world_ok state owner kind g (t', new @ os1, drop k ps, hp')"
proof -
  have x: "addr x \<notin> addr ` set g" "addr x \<in> set (addresses os)"
    and g: "\<And>y. y \<in> set g \<Longrightarrow> mine owner kind y \<and> (state, y) \<in> set os \<and> addr y < 2 ^ 64 \<and> addr y \<notin> addr ` set (locks t)"
    and ps: "\<And>p. p \<in> set ps \<Longrightarrow> p < 2 ^ 64 \<and> p \<notin> addr ` set (locks t) \<and> p \<notin> set (addresses os)" "distinct ps" "distinct (map addr g)"
    using ok by (force simp: edit_world_ok_def)+
  have split: "set (take k ps) \<inter> set (drop k ps) = {}" "set (take k ps) \<subseteq> set ps" "set (drop k ps) \<subseteq> set ps"
    using set_take_disj_set_drop_if_distinct [OF ps(2) order_refl] by (simp_all add: set_take_subset set_drop_subset)
  have "mine owner kind y \<and> (state, y) \<in> set (new @ os1) \<and> addr y < 2 ^ 64 \<and> addr y \<notin> addr ` set (locks t')" if y: "y \<in> set g" for y
  proof -
    have ne: "addr y \<noteq> addr x" using x(1) y by (metis imageI)
    have "addr y \<in> set (addresses os)" using g [OF y] by force
    then have "addr y \<notin> set (take k ps)" using ps(1) split(2) by blast
    then have "addr y \<notin> addr ` set (locks t')" using t'(2) ne g [OF y] by blast
    then show ?thesis using g [OF y] ne os1(1) by auto
  qed
  moreover have "p < 2 ^ 64 \<and> p \<notin> addr ` set (locks t') \<and> p \<notin> set (addresses (new @ os1))" if p: "p \<in> set (drop k ps)" for p
  proof -
    have q: "p \<in> set ps" "p \<notin> set (take k ps)" using p split by blast+
    then have "p \<noteq> addr x" using ps(1) x(2) by blast
    then show ?thesis using ps(1) [OF q(1)] q(2) t'(2) new(2) os1(3) by (simp add: comp_def image_iff) blast
  qed
  moreover have "distinct (addresses (new @ os1))"
    using new os1(2,3) ps(1) split(2) by (simp add: comp_def) blast
  ultimately show ?thesis using t'(1) ps(2,3) unfolding edit_world_ok_def prod.case by (intro conjI ballI) simp_all
qed

lemma replace_old_spec:
  assumes ok: "edit_world_ok state owner kind (x # g) (t, os, ps, hp)" and cuts: "cuts start stop [x] \<le> length ps"
  shows "\<exists>t' os' hp'. replace_old state owner kind start stop x (t, os, ps, hp) = Some (t', os', drop (cuts start stop [x]) ps, hp') \<and>
    edit_world_ok state owner kind g (t', os', drop (cuts start stop [x]) ps, hp') \<and>
    set (locks t') = set (locks t) \<union> set (parts start stop [x] ps) \<and>
    set os' = (set os - {(state, x)}) \<union> Pair state ` set (parts start stop [x] ps) \<and>
    hp' = (if swallowed start stop x then heap_release (addr x) hp else hp)"
proof -
  have x: "mine owner kind x" "(state, x) \<in> set os" "addr x < 2 ^ 64" "addr x \<notin> addr ` set (locks t)"
    and t: "tree_ok t" and dist: "distinct (addresses os)" using ok by (simp_all add: edit_world_ok_def)
  obtain os1 where os1: "owner_remove x os = Some os1" "set os1 = set os - {(state, x)}" "distinct (addresses os1)"
    "set (addresses os1) = set (addresses os) - {addr x}"
    using owner_remove_spec [OF dist x(2)] by blast
  note rest = edit_world_rest [OF ok os1(2-4)]
  consider (both) "straddles start stop x" | (left) "key x < start" "\<not> stop < lend x"
    | (right) "\<not> key x < start" "stop < lend x" | (none) "\<not> key x < start" "\<not> stop < lend x" by blast
  then show ?thesis
  proof cases
    case both
    then obtain p qs where ps: "ps = p # qs" using cuts by (cases ps) auto
    let ?l = "left_part start x" and ?r = "right_part stop p x"
    have p: "p < 2 ^ 64" "p \<notin> addr ` set (locks t)" "p \<notin> set (addresses os)"
      using ok unfolding ps by (simp_all add: edit_world_ok_def)
    have "addr x \<in> set (addresses os)" using imageI [OF x(2), of "addr \<circ> snd"] by simp
    then have p_x: "p \<noteq> addr x" using p(3) by blast
    obtain t2 where t2: "publish state t os1 ?l = Some (t2, (state, ?l) # os1)" "tree_ok t2"
      "set (locks t2) = insert ?l (set (locks t))"
      using publish_spec [OF t, of ?l state os1] x by auto
    have "p \<notin> addr ` set (locks t2)" using p p_x by (simp add: t2(3))
    then obtain t3 where t3: "publish state t2 ((state, ?l) # os1) ?r = Some (t3, (state, ?r) # (state, ?l) # os1)" "tree_ok t3"
      "set (locks t3) = insert ?r (set (locks t2))"
      using publish_spec [OF t2(2), of ?r state "(state, ?l) # os1"] p by auto
    have "replace_old state owner kind start stop x (t, os, ps, hp) = Some (t3, [(state, ?r), (state, ?l)] @ os1, drop 1 ps, hp)"
      using both os1(1) t2(1) t3(1) x(1) by (simp add: replace_old_def ps right_part_eq left_part_def)
    moreover have "edit_world_ok state owner kind g (t3, [(state, ?r), (state, ?l)] @ os1, drop 1 ps, hp)"
      using p_x t2(3) t3(3) ps by (intro rest t3(2)) auto
    moreover have "parts start stop [x] ps = [?l, ?r]" "cuts start stop [x] = 1" using both ps by simp_all
    ultimately show ?thesis using both t2(3) t3(3) os1(2) by auto
  next
    case left
    let ?l = "left_part start x"
    obtain t2 where t2: "publish state t os1 ?l = Some (t2, (state, ?l) # os1)" "tree_ok t2"
      "set (locks t2) = insert ?l (set (locks t))"
      using publish_spec [OF t, of ?l state os1] x by auto
    then have "replace_old state owner kind start stop x (t, os, ps, hp) = Some (t2, [(state, ?l)] @ os1, drop 0 ps, hp)"
      using left os1(1) by (simp add: replace_old_def left_part_def)
    moreover have "edit_world_ok state owner kind g (t2, [(state, ?l)] @ os1, drop 0 ps, hp)"
      using t2(3) by (intro rest t2(2)) auto
    moreover have "parts start stop [x] ps = [?l]" "cuts start stop [x] = 0" using left by simp_all
    ultimately show ?thesis using left t2(3) os1(2) by auto
  next
    case right
    let ?r = "right_part stop (addr x) x"
    obtain t2 where t2: "publish state t os1 ?r = Some (t2, (state, ?r) # os1)" "tree_ok t2"
      "set (locks t2) = insert ?r (set (locks t))"
      using publish_spec [OF t, of ?r state os1] x by auto
    have r: "?r = x\<lparr>key := stop + 1\<rparr>" by (simp add: right_part_def)
    have "replace_old state owner kind start stop x (t, os, ps, hp) = Some (t2, [(state, ?r)] @ os1, drop 0 ps, hp)"
      using right os1(1) t2(1) unfolding r by (simp add: replace_old_def)
    moreover have "edit_world_ok state owner kind g (t2, [(state, ?r)] @ os1, drop 0 ps, hp)"
      using t2(3) by (intro rest t2(2)) auto
    moreover have "parts start stop [x] ps = [?r]" "cuts start stop [x] = 0" using right by simp_all
    ultimately show ?thesis using right t2(3) os1(2) by auto
  next
    case none
    then have "replace_old state owner kind start stop x (t, os, ps, hp) = Some (t, [] @ os1, drop 0 ps, heap_release (addr x) hp)"
      using os1(1) by (simp add: replace_old_def)
    moreover have "edit_world_ok state owner kind g (t, [] @ os1, drop 0 ps, heap_release (addr x) hp)"
      by (intro rest t) auto
    moreover have "parts start stop [x] ps = []" "cuts start stop [x] = 0" using none by simp_all
    ultimately show ?thesis using none os1(2) by auto
  qed
qed

section \<open>The whole edit\<close>

lemma parts_Cons: "parts start stop (x # g) ps = parts start stop [x] ps @ parts start stop g (drop (cuts start stop [x]) ps)"
  by (simp add: drop_Suc)

lemma replace_loop_spec:
  assumes "edit_world_ok state owner kind g (t, os, ps, hp)" "cuts start stop g \<le> length ps"
  shows "\<exists>t' os'. replace_loop state owner kind start stop g (t, os, ps, hp)
      = Some (t', os', drop (cuts start stop g) ps, hp\<lparr>freed := rev (map addr (filter (swallowed start stop) g)) @ freed hp\<rparr>) \<and>
    edit_world_ok state owner kind [] (t', os', drop (cuts start stop g) ps, hp) \<and>
    set (locks t') = set (locks t) \<union> set (parts start stop g ps) \<and>
    set os' = (set os - Pair state ` set g) \<union> Pair state ` set (parts start stop g ps)"
  using assms
proof (induction g arbitrary: t os ps hp)
  case Nil
  then show ?case by simp
next
  case (Cons x g)
  let ?k = "cuts start stop [x]" and ?hp = "if swallowed start stop x then heap_release (addr x) hp else hp"
  have k: "cuts start stop (x # g) = ?k + cuts start stop g" by simp
  have len: "?k \<le> length ps" using Cons.prems(2) unfolding k by simp
  obtain t1 os1 where one: "replace_old state owner kind start stop x (t, os, ps, hp) = Some (t1, os1, drop ?k ps, ?hp)"
    "edit_world_ok state owner kind g (t1, os1, drop ?k ps, ?hp)"
    "set (locks t1) = set (locks t) \<union> set (parts start stop [x] ps)"
    "set os1 = (set os - {(state, x)}) \<union> Pair state ` set (parts start stop [x] ps)"
    using replace_old_spec [OF Cons.prems(1) len] by blast
  have "cuts start stop g \<le> length (drop ?k ps)" using Cons.prems(2) unfolding k by simp
  then obtain t' os' where rest: "replace_loop state owner kind start stop g (t1, os1, drop ?k ps, ?hp)
      = Some (t', os', drop (cuts start stop g) (drop ?k ps),
          ?hp\<lparr>freed := rev (map addr (filter (swallowed start stop) g)) @ freed ?hp\<rparr>)"
    "edit_world_ok state owner kind [] (t', os', drop (cuts start stop g) (drop ?k ps), ?hp)"
    "set (locks t') = set (locks t1) \<union> set (parts start stop g (drop ?k ps))"
    "set os' = (set os1 - Pair state ` set g) \<union> Pair state ` set (parts start stop g (drop ?k ps))"
    using Cons.IH [OF one(2)] by blast
  have new: "y \<notin> set g" if "y \<in> set (parts start stop [x] ps)" for y
  proof
    assume y: "y \<in> set g"
    have "addr x \<notin> addr ` set g" "addr y \<in> set (addresses os)" "\<forall>p \<in> set ps. p \<notin> set (addresses os)"
      using Cons.prems(1) y by (force simp: edit_world_ok_def)+
    moreover have "addr y \<in> addr ` {x} \<union> set ps" using parts_addr [OF len that] by simp
    ultimately show False using imageI [OF y, of addr] by (cases "addr y = addr x") auto
  qed
  have os': "set os' = (set os - Pair state ` set (x # g)) \<union> Pair state ` set (parts start stop (x # g) ps)"
    unfolding rest(4) one(4) parts_Cons [of start stop x g ps] set_append using new by auto
  have locks': "set (locks t') = set (locks t) \<union> set (parts start stop (x # g) ps)"
    unfolding rest(3) one(3) parts_Cons [of start stop x g ps] set_append by blast
  have drop: "drop (cuts start stop g) (drop ?k ps) = drop (cuts start stop (x # g)) ps" unfolding k by (simp add: add.commute)
  have hp: "?hp\<lparr>freed := rev (map addr (filter (swallowed start stop) g)) @ freed ?hp\<rparr>
      = hp\<lparr>freed := rev (map addr (filter (swallowed start stop) (x # g))) @ freed hp\<rparr>"
    by (simp add: heap_release_def)
  have "edit_world_ok state owner kind [] (t', os', drop (cuts start stop (x # g)) ps, hp)"
    using rest(2) unfolding drop by (simp add: edit_world_ok_def)
  moreover have "replace_loop state owner kind start stop (x # g) (t, os, ps, hp)
      = replace_loop state owner kind start stop g (t1, os1, drop ?k ps, ?hp)"
    unfolding replace_loop.simps one(1) by simp
  ultimately show ?case unfolding rest(1) drop hp using os' locks' by blast
qed

lemma parts_nodes:
  "cuts start stop g \<le> length ps \<Longrightarrow>
   addr ` set (parts start stop g ps) \<union> addr ` set (filter (swallowed start stop) g) = addr ` set g \<union> set (take (cuts start stop g) ps)"
proof (induction g arbitrary: ps)
  case (Cons x g)
  show ?case
  proof (cases "straddles start stop x")
    case True
    then obtain p qs where "ps = p # qs" using Cons.prems by (cases ps) auto
    then show ?thesis using Cons.IH [of qs] Cons.prems True by (simp add: insert_commute)
  next
    case False
    then show ?thesis using Cons.IH [of ps] Cons.prems by (cases "key x < start"; cases "stop < lend x") simp_all
  qed
qed simp

lemma parts_kept:
  "cuts start stop xs \<le> length ps \<Longrightarrow> y \<in> set (parts start stop xs ps) \<Longrightarrow>
   (\<exists>x \<in> set xs. \<not> swallowed start stop x \<and> addr y = addr x) \<or> addr y \<in> set ps"
proof (induction xs arbitrary: ps)
  case (Cons x xs)
  show ?case
  proof (cases "straddles start stop x")
    case True
    then obtain p qs where "ps = p # qs" using Cons.prems by (cases ps) auto
    then show ?thesis using Cons.IH [of qs] Cons.prems True by auto
  next
    case False
    then show ?thesis using Cons.IH [of ps] Cons.prems by (auto split: if_splits)
  qed
qed simp

end
