(* ===== verification/Record_Lock_Ops.thy ===== *)
theory Record_Lock_Ops
  imports Record_Lock_Set
begin

text \<open>
  The entry points of \<^verbatim>\<open>src/fs/record_lock.c\<close>: \<^verbatim>\<open>kernel_record_lock_set\<close> and
  \<^verbatim>\<open>kernel_record_lock_release\<close> on a well-formed state and owner list.
\<close>

definition state_ok :: "lock_state \<Rightarrow> bool" where
  "state_ok s \<longleftrightarrow> tree_ok (root s) \<and> locks_ok (set (locks (root s)))"

text \<open>The owner list holds exactly the locks that its holder has in the state.\<close>

definition listed :: "lock_state \<Rightarrow> owner_list \<Rightarrow> ptr \<Rightarrow> nat \<Rightarrow> bool" where
  "listed s os owner kind \<longleftrightarrow> distinct (addresses os) \<and>
     (\<forall>x. (state_self s, x) \<in> set os \<longleftrightarrow> x \<in> set (locks (root s)) \<and> mine owner kind x)"

abbreviation state_nodes :: "lock_state \<Rightarrow> ptr set" where
  "state_nodes s \<equiv> addr ` set (locks (root s))"

section \<open>The plan of a request\<close>

lemma tree_okD:
  assumes "tree_ok t"
  shows "ends_ok t" "avl (erase t)" "in_order (locks t)" "distinct (map addr (locks t))" "distinct (locks t)"
    "length (locks t) \<le> 2 ^ 64" "x \<in> set (locks t) \<Longrightarrow> addr x < 2 ^ 64"
  using assms distinct_addresses [of "locks t"] by (auto simp: tree_ok_def avl_ok_def distinct_map)

lemma request_plan:
  assumes s: "state_ok s" and range: "plan_ok (start, stop, n)"
    and q: "prepare_edit (root s) owner kind type (start, stop, n) = (s', e', n')"
    and g: "mset g = mset (filter (taken owner kind s' e') (locks (root s)))"
  shows "edit_of (set (locks (root s))) owner kind (filter (mine owner kind) (locks (root s))) g type start stop s' e'"
    and "n' = n + cuts s' e' g"
proof -
  let ?L = "locks (root s)" and ?xs = "filter (mine owner kind) (locks (root s))"
  note t = tree_okD [of "root s"]
  have ok: "tree_ok (root s)" "locks_ok (set ?L)" using s by (simp_all add: state_ok_def)
  have wf: "\<forall>x \<in> set ?L. lock_wf x" using locks_okD(1) [OF ok(2)] by blast
  have fold: "fold (plan_lock owner kind type) ?xs (start, stop, n) = (s', e', n')"
    using prepare_edit_fold [OF t(1,3) wf range] ok(1) q fold_mine by metis
  have "apart ?xs"
  proof (rule in_order_apart)
    show "in_order ?xs" using t(3) [OF ok(1)] by (rule sorted_wrt_filter)
    show "\<forall>x \<in> set ?xs. lock_wf x" using wf by simp
    show "\<forall>x \<in> set ?xs. \<forall>y \<in> set ?xs. x \<noteq> y \<longrightarrow> separate x y" using locks_okD(2) [OF ok(2)] by auto
  qed
  moreover have own: "\<forall>x \<in> set ?xs. lock_wf x \<and> mine owner kind x" "\<forall>x \<in> set ?xs. lock_wf x" using wf by simp_all
  ultimately have plan: "planned type ?xs (start, stop, n) (s', e', n')"
    using plan_spec [OF _ own(1) range, of type] unfolding fold by blast
  have "plan_ok (s', e', n')" using fold_plan_ok [OF range own(2), of owner kind type] unfolding fold .
  moreover have "distinct g" "set g = {x \<in> set ?L. taken owner kind s' e' x}"
    using mset_eq_imp_distinct_iff [OF g] mset_eq_setD [OF g] t(5) [OF ok(1)] by auto
  ultimately show "edit_of (set ?L) owner kind ?xs g type start stop s' e'"
    using plan range ok(2) by (auto simp: edit_of_def plan_ok_def)
  have "s' \<le> start" "stop \<le> e'" "start \<le> stop" using plan range by (auto simp: planned_def plan_ok_def)
  then have touch: "mine owner kind x \<and> straddles s' e' x \<longleftrightarrow> taken owner kind s' e' x \<and> straddles s' e' x" for x
    by (auto simp: taken_def touching_def)
  have "cuts s' e' g = size (filter_mset (straddles s' e') (mset g))" by (simp flip: mset_filter)
  also have "\<dots> = length (filter (straddles s' e') (filter (taken owner kind s' e') ?L))"
    unfolding g by (simp flip: mset_filter)
  also have "\<dots> = cuts s' e' ?xs" using touch by (simp add: conj_commute)
  finally show "n' = n + cuts s' e' g" using plan by (simp add: planned_def)
qed

section \<open>Setting and clearing\<close>

text \<open>The request succeeded.\<close>

definition set_done ::
  "lock_state \<Rightarrow> owner_list \<Rightarrow> ptr \<Rightarrow> nat \<Rightarrow> int \<Rightarrow> int \<Rightarrow> int \<Rightarrow> heap_view \<Rightarrow> lock_state \<Rightarrow> owner_list \<Rightarrow> heap_view \<Rightarrow> bool" where
  "set_done s os owner kind start stop type hp s' os' hp' \<longleftrightarrow>
     claims (set (locks (root s'))) = reclaim owner kind start stop type (claims (set (locks (root s)))) \<and>
     (\<forall>x. \<not> mine owner kind x \<longrightarrow> (x \<in> set (locks (root s')) \<longleftrightarrow> x \<in> set (locks (root s)))) \<and>
     (\<forall>st x. st \<noteq> state_self s \<longrightarrow> ((st, x) \<in> set os' \<longleftrightarrow> (st, x) \<in> set os)) \<and>
     state_self s' = state_self s \<and> waiters s' = [] \<and>
     (\<exists>ps gone. outcomes hp = map Alloc ps @ outcomes hp' \<and> freed hp' = gone @ freed hp \<and>
        set (addresses os') \<subseteq> set (addresses os) \<union> set ps \<and>
        state_nodes s' \<union> set gone = state_nodes s \<union> set ps \<and> state_nodes s' \<inter> set gone = {})"

text \<open>The edit proper, once the spares are there.\<close>

lemma extract_ok:
  assumes "tree_ok t"
  shows "\<exists>t1 g. extract_owned t owner kind start stop [] = Some (t1, g) \<and> tree_ok t1 \<and>
    set (locks t1) = set (locks t) - set g \<and> mset g = mset (filter (taken owner kind start stop) (locks t))"
proof -
  note t = tree_okD [OF assms]
  obtain t1 g where e: "extract_owned t owner kind start stop [] = Some (t1, g @ [])" "ends_ok t1" "avl (erase t1)"
    "locks t1 = filter (\<lambda>x. \<not> taken owner kind start stop x) (locks t)" "mset g = mset (filter (taken owner kind start stop) (locks t))"
    using extract_owned_spec [OF t(1,2,3,6)] by blast
  have "tree_ok t1" unfolding tree_ok_def avl_ok_def e(4)
    using e(2,3) t(7) sorted_wrt_filter [OF t(3)] distinct_map_filter [OF t(4)] by auto
  moreover have "set (locks t1) = set (locks t) - set g" using mset_eq_setD [OF e(5)] unfolding e(4) by auto
  ultimately show ?thesis using e by auto
qed

text \<open>What the final tree and list amount to; \<open>N\<close> is the new lock, if there is one.\<close>

lemma edit_result:
  assumes e: "edit_of (set (locks (root s))) owner kind xs g type start stop s' e'" and l: "listed s os owner kind"
    and free: "type = F_UNLCK \<or> conflict (root s) owner kind start stop type = None" and tree: "tree_ok (root s)"
    and N: "N = (if type = F_UNLCK then {} else {n})" "covers owner kind type s' e' n"
    and t': "tree_ok t'" "set (locks t') = N \<union> ((set (locks (root s)) - set g) \<union> set (parts s' e' g ps))"
    and os': "distinct (addresses os')"
      "set os' = Pair (state_self s) ` N \<union> ((set os - Pair (state_self s) ` set g) \<union> Pair (state_self s) ` set (parts s' e' g ps))"
  shows "state_ok (s\<lparr>root := t', waiters := []\<rparr>)" "listed (s\<lparr>root := t', waiters := []\<rparr>) os' owner kind"
    "claims (set (locks t')) = reclaim owner kind start stop type (claims (set (locks (root s))))"
    "\<not> mine owner kind x \<Longrightarrow> x \<in> set (locks t') \<longleftrightarrow> x \<in> set (locks (root s))"
    "st \<noteq> state_self s \<Longrightarrow> (st, x) \<in> set os' \<longleftrightarrow> (st, x) \<in> set os"
proof -
  let ?L = "set (locks (root s))" and ?P = "set (parts s' e' g ps)"
  note t = tree_okD [OF tree]
  have g: "set g \<subseteq> ?L" "\<And>x. x \<in> set g \<Longrightarrow> mine owner kind x" using e by (auto simp: edit_of_def taken_def)
  have own: "mine owner kind x" if "x \<in> N \<union> ?P" for x
    using that N g(2) part_of_parts [of x s' e' g ps] by (auto simp: covers_def part_of_def split: if_splits)
  show "claims (set (locks t')) = reclaim owner kind start stop type (claims ?L)"
    unfolding t'(2) N(1) using edit_claims [OF e] N(2) by blast
  show "x \<in> set (locks t') \<longleftrightarrow> x \<in> ?L" if "\<not> mine owner kind x" unfolding t'(2) using own g that by blast
  show "(st, x) \<in> set os' \<longleftrightarrow> (st, x) \<in> set os" if "st \<noteq> state_self s" unfolding os'(2) using that by auto
  have "locks_ok (set (locks t'))"
  proof (cases "type = F_UNLCK")
    case True
    then show ?thesis unfolding t'(2) N(1) using cut_ok [OF e] by simp
  next
    case False
    have "\<not> excludes owner kind type y" if "y \<in> ?L" "touching y start stop" for y
      using free False conflict_spec [OF t(1,3)] that by (auto simp: find_None_iff)
    then show ?thesis unfolding t'(2) N(1) using edit_ok [OF e False N(2)] False by simp
  qed
  then show "state_ok (s\<lparr>root := t', waiters := []\<rparr>)" using t'(1) by (simp add: state_ok_def)
  have "(state_self s, x) \<in> set os' \<longleftrightarrow> x \<in> set (locks t') \<and> mine owner kind x" for x
  proof -
    have "(state_self s, x) \<in> set os' \<longleftrightarrow> x \<in> N \<union> ?P \<or> (state_self s, x) \<in> set os \<and> x \<notin> set g"
      unfolding os'(2) by auto
    moreover have "x \<in> set (locks t') \<longleftrightarrow> x \<in> N \<union> ?P \<or> x \<in> ?L \<and> x \<notin> set g" unfolding t'(2) by blast
    ultimately show ?thesis using own l by (auto simp: listed_def)
  qed
  then show "listed (s\<lparr>root := t', waiters := []\<rparr>) os' owner kind" using os'(1) by (simp add: listed_def)
qed

definition new_lock :: "ptr \<Rightarrow> nat \<Rightarrow> int \<Rightarrow> int \<Rightarrow> int \<Rightarrow> int \<Rightarrow> ptr \<Rightarrow> rlock" where
  "new_lock owner kind pid start stop type p =
     \<lparr>addr = p, key = start, lowner = owner, lend = stop, lpid = pid, ltype = type, lkind = kind\<rparr>"

lemma drop_last: "length xs = Suc k \<Longrightarrow> drop k xs = [last xs]"
  by (cases xs rule: rev_cases) auto

lemma edit_runs:
  assumes w: "edit_world_ok self owner kind g (t1, os, sp, hp)"
    and len: "length sp = (if type = F_UNLCK then 0 else 1) + cuts s' e' g"
    and N: "N = (if type = F_UNLCK then {} else {new_lock owner kind pid s' e' type (last sp)})"
  shows "\<exists>t2 os2 sp2 t3 os3. replace_loop self owner kind s' e' g (t1, os, sp, hp)
      = Some (t2, os2, sp2, hp\<lparr>freed := rev (map addr (filter (swallowed s' e') g)) @ freed hp\<rparr>) \<and>
    (if type \<noteq> F_UNLCK then
       (case sp2 of
          [] \<Rightarrow> None
        | p # rest \<Rightarrow> do {
            (t, o') \<leftarrow> publish self t2 os2
              \<lparr>addr = p, key = s', lowner = owner, lend = e', lpid = pid, ltype = type, lkind = kind\<rparr>;
            Some (t, o', rest)
          })
     else Some (t2, os2, sp2)) = Some (t3, os3, []) \<and>
    tree_ok t3 \<and> set (locks t3) = N \<union> (set (locks t1) \<union> set (parts s' e' g sp)) \<and> distinct (addresses os3) \<and>
    set os3 = Pair self ` N \<union> ((set os - Pair self ` set g) \<union> Pair self ` set (parts s' e' g sp))"
proof -
  obtain t2 os2 where loop: "replace_loop self owner kind s' e' g (t1, os, sp, hp)
      = Some (t2, os2, drop (cuts s' e' g) sp, hp\<lparr>freed := rev (map addr (filter (swallowed s' e') g)) @ freed hp\<rparr>)"
    "edit_world_ok self owner kind [] (t2, os2, drop (cuts s' e' g) sp, hp)"
    "set (locks t2) = set (locks t1) \<union> set (parts s' e' g sp)"
    "set os2 = (set os - Pair self ` set g) \<union> Pair self ` set (parts s' e' g sp)"
    using replace_loop_spec [OF w, of s' e'] len by auto
  have w2: "tree_ok t2" "distinct (addresses os2)" using loop(2) by (simp_all add: edit_world_ok_def)
  show ?thesis
  proof (cases "type = F_UNLCK")
    case True
    then have "drop (cuts s' e' g) sp = []" using len by simp
    then show ?thesis using loop w2 True N by auto
  next
    case False
    let ?n = "new_lock owner kind pid s' e' type (last sp)"
    have last: "drop (cuts s' e' g) sp = [last sp]"
      using drop_last [of sp] len False by simp
    have p: "last sp < 2 ^ 64" "last sp \<notin> addr ` set (locks t2)" "last sp \<notin> set (addresses os2)"
      using loop(2) unfolding last by (simp_all add: edit_world_ok_def)
    have addr: "addr ?n = last sp" by (simp add: new_lock_def)
    obtain t3 where t3: "publish self t2 os2 ?n = Some (t3, (self, ?n) # os2)" "tree_ok t3" "set (locks t3) = insert ?n (set (locks t2))"
      using publish_spec [OF w2(1), of ?n self os2] p(1,2) unfolding addr by blast
    have "distinct (addresses ((self, ?n) # os2))" using w2(2) p(3) addr by simp
    then show ?thesis using loop t3 False N unfolding last by (auto simp: new_lock_def)
  qed
qed

lemma set_succeeds:
  assumes s: "state_ok s" and l: "listed s os owner kind" and range: "plan_ok (start, stop, 0)"
    and free: "type = F_UNLCK \<or> conflict (root s) owner kind start stop type = None"
    and plan: "prepare_edit (root s) owner kind type (start, stop, if type = F_UNLCK then 0 else 1) = (s', e', n)"
    and ps: "length ps = n" "distinct ps" "\<And>p. p \<in> set ps \<Longrightarrow> p < 2 ^ 64 \<and> p \<notin> state_nodes s \<and> p \<notin> set (addresses os)"
    and alloc: "allocate_spares n [] hp = Some (Some (rev ps), hp\<lparr>outcomes := rest\<rparr>)" "outcomes hp = map Alloc ps @ rest"
  shows "\<exists>st os' hp'. kernel_record_lock_set s os owner kind pid start stop type hp True = Some (0, st, os', hp') \<and>
    state_ok st \<and> listed st os' owner kind \<and> set_done s os owner kind start stop type hp st os' hp' \<and> outcomes hp' = rest"
proof -
  let ?L = "set (locks (root s))" and ?n = "if type = F_UNLCK then 0 else 1 :: nat" and ?self = "state_self s"
  have ok: "tree_ok (root s)" "locks_ok ?L" using s by (simp_all add: state_ok_def)
  note t = tree_okD [OF ok(1)]
  obtain t1 g where ext: "extract_owned (root s) owner kind s' e' [] = Some (t1, g)" "tree_ok t1"
    "set (locks t1) = ?L - set g" "mset g = mset (filter (taken owner kind s' e') (locks (root s)))"
    using extract_ok [OF ok(1)] by blast
  have "plan_ok (start, stop, ?n)" using range by (simp add: plan_ok_def)
  note e = request_plan [OF s this plan ext(4)]
  have g: "set g \<subseteq> ?L" "\<And>x. x \<in> set g \<Longrightarrow> mine owner kind x" using e(1) by (auto simp: edit_of_def taken_def)
  have "mset (map addr g) = mset (map addr (filter (taken owner kind s' e') (locks (root s))))" using ext(4) by (simp only: mset_map)
  then have ga: "distinct (map addr g)" using mset_eq_imp_distinct_iff distinct_map_filter [OF t(4)] by blast
  have gt: "addr x \<notin> addr ` set (locks t1)" if "x \<in> set g" for x
    using t(4) that g(1) unfolding ext(3) by (auto simp: distinct_map inj_on_def)
  have w: "edit_world_ok ?self owner kind g (t1, os, rev ps, hp\<lparr>outcomes := rest\<rparr>)"
    using ext(2,3) l ps g ga gt t(7) by (auto simp: edit_world_ok_def listed_def)
  define N where "N = (if type = F_UNLCK then {} else {new_lock owner kind pid s' e' type (last (rev ps))})"
  let ?hp = "hp\<lparr>outcomes := rest\<rparr>" and ?P = "set (parts s' e' g (rev ps))"
  define hp' where "hp' = ?hp\<lparr>freed := rev (map addr (filter (swallowed s' e') g)) @ freed ?hp\<rparr>"
  have len: "length (rev ps) = ?n + cuts s' e' g" using ps(1) e(2) by simp
  obtain t2 os2 sp2 t3 os3 where run: "replace_loop ?self owner kind s' e' g (t1, os, rev ps, ?hp) = Some (t2, os2, sp2, hp')"
    "(if type \<noteq> F_UNLCK then
       (case sp2 of
          [] \<Rightarrow> None
        | p # rest \<Rightarrow> do {
            (t, o') \<leftarrow> publish ?self t2 os2
              \<lparr>addr = p, key = s', lowner = owner, lend = e', lpid = pid, ltype = type, lkind = kind\<rparr>;
            Some (t, o', rest)
          })
     else Some (t2, os2, sp2)) = Some (t3, os3, [])"
    and t3: "tree_ok t3" "set (locks t3) = N \<union> ((?L - set g) \<union> ?P)"
    and os3: "distinct (addresses os3)" "set os3 = Pair ?self ` N \<union> ((set os - Pair ?self ` set g) \<union> Pair ?self ` ?P)"
    using edit_runs [OF w len N_def, folded hp'_def, unfolded ext(3)] by (elim exE conjE) (rule that)
  have n: "covers owner kind type s' e' (new_lock owner kind pid s' e' type (last (rev ps)))" by (simp add: covers_def new_lock_def)
  note res = edit_result [OF e(1) l free ok(1) N_def n t3 os3]
  have "kernel_record_lock_set s os owner kind pid start stop type hp True = Some (0, s\<lparr>root := t3, waiters := []\<rparr>, os3, hp')"
    using free plan alloc(1) ext(1) run by (simp add: kernel_record_lock_set_def wake_all_def)
  moreover have "set_done s os owner kind start stop type hp (s\<lparr>root := t3, waiters := []\<rparr>) os3 hp'"
  proof -
    have nodes: "addr ` N \<union> set (take (cuts s' e' g) (rev ps)) = set ps"
    proof (cases "type = F_UNLCK")
      case True
      then show ?thesis using len by (simp add: N_def)
    next
      case False
      have "set ps = set (take (cuts s' e' g) (rev ps)) \<union> set (drop (cuts s' e' g) (rev ps))"
        by (simp only: set_append [symmetric] append_take_drop_id set_rev)
      then show ?thesis using drop_last [of "rev ps"] len False by (simp add: N_def new_lock_def)
    qed
    have parts: "addr ` ?P \<union> addr ` set (filter (swallowed s' e') g) = addr ` set g \<union> set (take (cuts s' e' g) (rev ps))"
      using parts_nodes len by simp
    let ?gone = "rev (map addr (filter (swallowed s' e') g))"
    have gone: "set ?gone = addr ` set (filter (swallowed s' e') g)" "freed hp' = ?gone @ freed hp" by (simp_all add: hp'_def)
    have "addr ` set (locks t3) \<union> set ?gone = addr ` ?L \<union> set ps"
    proof -
      have "addr ` set (locks t3) \<union> set ?gone =
          addr ` N \<union> addr ` (?L - set g) \<union> (addr ` ?P \<union> addr ` set (filter (swallowed s' e') g))"
        unfolding t3(2) gone(1) by (simp only: image_Un Un_ac)
      also have "\<dots> = (addr ` N \<union> set (take (cuts s' e' g) (rev ps))) \<union> addr ` ((?L - set g) \<union> set g)"
        unfolding parts by (simp only: image_Un Un_ac)
      also have "(?L - set g) \<union> set g = ?L" using g(1) by blast
      finally show ?thesis unfolding nodes by blast
    qed
    moreover have "addr ` set (locks t3) \<inter> set ?gone = {}"
    proof -
      have old: "addr x \<notin> set ps" if "x \<in> set g" for x using ps(3) [of "addr x"] that g(1) by blast
      have part: "addr y \<noteq> addr x" if "x \<in> set g" "swallowed s' e' x" "y \<in> ?P" for x y
        using parts_kept [OF _ that(3)] len that(1,2) old [OF that(1)] ga by (auto simp: distinct_map inj_on_def)
      have new: "addr y \<in> set ps" if "y \<in> N" for y using nodes that by blast
      have kept: "addr y \<noteq> addr x" if "x \<in> set g" "y \<in> ?L - set g" for x y
        using gt [OF that(1)] that(2) unfolding ext(3) by (metis imageI)
      have "addr y \<noteq> addr x" if x: "x \<in> set g" "swallowed s' e' x" and y: "y \<in> set (locks t3)" for x y
      proof -
        consider "y \<in> N" | "y \<in> ?L - set g" | "y \<in> ?P" using y unfolding t3(2) by blast
        then show ?thesis using new [of y] old [OF x(1)] kept [OF x(1), of y] part [OF x, of y] by cases auto
      qed
      then show ?thesis unfolding gone(1) by auto
    qed
    moreover have "set (addresses os3) \<subseteq> set (addresses os) \<union> set ps"
    proof -
      have "addr ` set g \<subseteq> set (addresses os)" using l g by (force simp: listed_def)
      then have "addr ` N \<union> addr ` ?P \<subseteq> set (addresses os) \<union> set ps" using nodes parts by blast
      moreover have "set (addresses os3) \<subseteq> addr ` N \<union> set (addresses os) \<union> addr ` ?P" unfolding set_map os3(2) by auto
      ultimately show ?thesis by blast
    qed
    ultimately have "\<exists>ps gone. outcomes hp = map Alloc ps @ outcomes hp' \<and> freed hp' = gone @ freed hp \<and>
        set (addresses os3) \<subseteq> set (addresses os) \<union> set ps \<and>
        addr ` set (locks t3) \<union> set gone = addr ` ?L \<union> set ps \<and> addr ` set (locks t3) \<inter> set gone = {}"
      using alloc(2) gone(2) by (intro exI [of _ ps] exI [of _ ?gone]) (simp add: hp'_def)
    then show ?thesis using res(3-5) by (simp add: set_done_def)
  qed
  ultimately show ?thesis using res(1,2) by (auto simp: hp'_def)
qed

lemma set_spec:
  assumes s: "state_ok s" and l: "listed s os owner kind" and range: "plan_ok (start, stop, 0)"
    and heap: "heap_ready hp (state_nodes s \<union> set (addresses os))"
  obtains (blocked) "kernel_record_lock_set s os owner kind pid start stop type hp True = Some (- EAGAIN, s, os, hp)"
      "type \<noteq> F_UNLCK" "\<exists>x \<in> set (locks (root s)). touching x start stop \<and> excludes owner kind type x"
    | (full) ps rest where "outcomes hp = map Alloc ps @ rest" "rest = [] \<or> hd rest = Alloc_empty"
      "kernel_record_lock_set s os owner kind pid start stop type hp True
        = Some (- ENOLCK, s, os, hp\<lparr>outcomes := tl rest, freed := ps @ freed hp\<rparr>)"
      "type = F_UNLCK \<or> (\<forall>x \<in> set (locks (root s)). \<not> (touching x start stop \<and> excludes owner kind type x))"
    | (changed) s' os' hp' where "kernel_record_lock_set s os owner kind pid start stop type hp True = Some (0, s', os', hp')"
      "state_ok s'" "listed s' os' owner kind" "set_done s os owner kind start stop type hp s' os' hp'"
      "type = F_UNLCK \<or> (\<forall>x \<in> set (locks (root s)). \<not> (touching x start stop \<and> excludes owner kind type x))"
proof -
  have tree: "tree_ok (root s)" using s by (simp add: state_ok_def)
  have none: "conflict (root s) owner kind start stop type = None \<longleftrightarrow>
      (\<forall>x \<in> set (locks (root s)). \<not> (touching x start stop \<and> excludes owner kind type x))"
    using conflict_spec [OF tree_okD(1) [OF tree] tree_okD(3) [OF tree]] by (auto simp: find_None_iff)
  show ?thesis
  proof (cases "type \<noteq> F_UNLCK \<and> conflict (root s) owner kind start stop type \<noteq> None")
    case True
    then have "kernel_record_lock_set s os owner kind pid start stop type hp True = Some (- EAGAIN, s, os, hp)"
      by (simp add: kernel_record_lock_set_def)
    then show ?thesis by (rule blocked) (use True none in auto)
  next
    case False
    then have free: "type = F_UNLCK \<or> conflict (root s) owner kind start stop type = None" by blast
    then have free': "type = F_UNLCK \<or> (\<forall>x \<in> set (locks (root s)). \<not> (touching x start stop \<and> excludes owner kind type x))"
      using none by blast
    obtain s' e' n where plan: "prepare_edit (root s) owner kind type (start, stop, if type = F_UNLCK then 0 else 1) = (s', e', n)"
      by (cases "prepare_edit (root s) owner kind type (start, stop, if type = F_UNLCK then 0 else 1)")
    have ne: "Alloc_error \<notin> set (outcomes hp)" using heap by (simp add: heap_ready_def)
    show ?thesis
    proof (rule allocate_spares_cases [OF ne, where n = n and sp = "[]"])
      fix ps rest assume a: "outcomes hp = map Alloc ps @ rest" "length ps = n"
        "allocate_spares n [] hp = Some (Some (rev ps @ []), hp\<lparr>outcomes := rest\<rparr>)"
      have p: "distinct ps" "\<And>p. p \<in> set ps \<Longrightarrow> p < 2 ^ 64 \<and> p \<notin> state_nodes s \<and> p \<notin> set (addresses os)"
        using heap a(1) by (auto simp: heap_ready_def supplied_append)
      obtain st os' hp' where "kernel_record_lock_set s os owner kind pid start stop type hp True = Some (0, st, os', hp')"
        "state_ok st" "listed st os' owner kind" "set_done s os owner kind start stop type hp st os' hp'"
        using set_succeeds [OF s l range free plan a(2) p a(3) [unfolded append_Nil2] a(1), of pid] by blast
      then show ?thesis by (rule changed [OF _ _ _ _ free'])
    next
      fix ps rest assume a: "outcomes hp = map Alloc ps @ rest" "rest = [] \<or> hd rest = Alloc_empty"
        "allocate_spares n [] hp = Some (None, hp\<lparr>outcomes := tl rest, freed := rev [] @ ps @ freed hp\<rparr>)"
      have "kernel_record_lock_set s os owner kind pid start stop type hp True
          = Some (- ENOLCK, s, os, hp\<lparr>outcomes := tl rest, freed := ps @ freed hp\<rparr>)"
        using free plan a(3) by (auto simp: kernel_record_lock_set_def)
      then show ?thesis by (rule full [OF a(1,2) _ free'])
    qed
  qed
qed

section \<open>Releasing an owner\<close>

abbreviation here :: "ptr \<Rightarrow> owner_list \<Rightarrow> owner_list" where
  "here state os \<equiv> filter (\<lambda>e. fst e = state) os"

lemma release_loop_spec:
  assumes "tree_ok t" "distinct (addresses os)" "distinct (addresses rest)" "set rest \<subseteq> set os"
    "\<And>x. (state, x) \<in> set rest \<Longrightarrow> x \<in> set (locks t)"
  shows "\<exists>t' os'. release_loop state rest (t, os, hp, changed) =
      Some (t', os', hp\<lparr>freed := rev (addresses (here state rest)) @ freed hp\<rparr>, changed \<or> here state rest \<noteq> []) \<and>
    tree_ok t' \<and> set (locks t') = set (locks t) - snd ` set (here state rest) \<and>
    distinct (addresses os') \<and> set os' = set os - set (here state rest)"
  using assms
proof (induction rest arbitrary: t os hp changed)
  case (Cons e rest)
  obtain st x where e: "e = (st, x)" by (cases e)
  show ?case
  proof (cases "st = state")
    case False
    then have "release_loop state (e # rest) (t, os, hp, changed) = release_loop state rest (t, os, hp, changed)"
      "here state (e # rest) = here state rest" by (simp_all add: e)
    then show ?thesis using Cons.IH [of t os hp changed] Cons.prems by (simp only:) force
  next
    case True
    have x: "x \<in> set (locks t)" "(state, x) \<in> set os" using Cons.prems True e by auto
    obtain t1 where t1: "tree_remove t x = Some t1" "tree_ok t1" "locks t1 = without x (locks t)"
      using tree_remove_ok [OF Cons.prems(1) x(1)] by blast
    have locks1: "set (locks t1) = set (locks t) - {x}"
      using set_without [OF tree_okD(4) [OF Cons.prems(1)] x(1)] t1(3) by simp
    obtain os1 where os1: "owner_remove x os = Some os1" "set os1 = set os - {(state, x)}" "distinct (addresses os1)"
      using owner_remove_spec [OF Cons.prems(2) x(2)] by blast
    have "addr x \<notin> set (addresses rest)" using Cons.prems(3) by (simp add: e)
    then have fresh: "addr (snd d) \<noteq> addr x" if "d \<in> set rest" for d
      using imageI [OF that, of "addr \<circ> snd"] by (cases "addr (snd d) = addr x") simp_all
    have sub: "set rest \<subseteq> set os1" using Cons.prems(4) fresh [of "(state, x)"] unfolding os1(2) by auto
    have mem: "y \<in> set (locks t1)" if "(state, y) \<in> set rest" for y
      using Cons.prems(5) [of y] that fresh [OF that] unfolding locks1 by auto
    have dr: "distinct (addresses rest)" using Cons.prems(3) by (simp add: comp_def)
    obtain t' os' where rec: "release_loop state rest (t1, os1, heap_release (addr x) hp, True) =
        Some (t', os', (heap_release (addr x) hp)\<lparr>freed := rev (addresses (here state rest)) @ freed (heap_release (addr x) hp)\<rparr>,
          True \<or> here state rest \<noteq> [])" "tree_ok t'" "set (locks t') = set (locks t1) - snd ` set (here state rest)"
        "distinct (addresses os')" "set os' = set os1 - set (here state rest)"
      using Cons.IH [OF t1(2) os1(3) dr sub mem, of "heap_release (addr x) hp" True] by blast
    have "release_loop state (e # rest) (t, os, hp, changed)
        = Some (t', os', hp\<lparr>freed := rev (addresses (here state (e # rest))) @ freed hp\<rparr>, changed \<or> here state (e # rest) \<noteq> [])"
      using rec(1) t1(1) os1(1) True by (simp add: e heap_release_def)
    moreover have "set (locks t') = set (locks t) - snd ` set (here state (e # rest))"
      unfolding rec(3) locks1 using True e by auto
    moreover have "set os' = set os - set (here state (e # rest))" unfolding rec(5) os1(2) using True e by auto
    ultimately show ?thesis using rec(2,4) by blast
  qed
qed simp

lemma locks_ok_subset: "locks_ok X \<Longrightarrow> Y \<subseteq> X \<Longrightarrow> locks_ok Y"
  unfolding locks_ok_def by blast

lemma release_spec:
  assumes s: "state_ok s" and l: "listed s os owner kind"
  shows "\<exists>s' os' hp'. kernel_record_lock_release s os hp True = Some (s', os', hp') \<and>
    state_ok s' \<and> listed s' os' owner kind \<and> state_self s' = state_self s \<and> outcomes hp' = outcomes hp \<and>
    set (locks (root s')) = {x \<in> set (locks (root s)). \<not> mine owner kind x} \<and>
    set os' = {e \<in> set os. fst e \<noteq> state_self s} \<and>
    waiters s' = (if \<exists>x \<in> set (locks (root s)). mine owner kind x then [] else waiters s) \<and>
    (\<exists>gone. freed hp' = gone @ freed hp \<and> distinct gone \<and> set gone = addr ` {x \<in> set (locks (root s)). mine owner kind x})"
proof -
  let ?own = "here (state_self s) os" and ?mine = "{x \<in> set (locks (root s)). mine owner kind x}"
  have tree: "tree_ok (root s)" and dist: "distinct (addresses os)" using s l by (simp_all add: state_ok_def listed_def)
  have own: "snd ` set ?own = ?mine" using l by (force simp: listed_def)
  obtain t' os' where run: "release_loop (state_self s) os (root s, os, hp, False) =
      Some (t', os', hp\<lparr>freed := rev (addresses ?own) @ freed hp\<rparr>, False \<or> ?own \<noteq> [])"
    "tree_ok t'" "set (locks t') = set (locks (root s)) - snd ` set ?own" "distinct (addresses os')" "set os' = set os - set ?own"
    using release_loop_spec [OF tree dist dist order_refl, of "state_self s" hp False] l unfolding listed_def by blast
  have locks': "set (locks t') = {x \<in> set (locks (root s)). \<not> mine owner kind x}" unfolding run(3) own by blast
  have os': "set os' = {e \<in> set os. fst e \<noteq> state_self s}" unfolding run(5) by auto
  let ?s = "s\<lparr>root := t', waiters := if ?own \<noteq> [] then [] else waiters s\<rparr>"
  have ne: "?own \<noteq> [] \<longleftrightarrow> ?mine \<noteq> {}" unfolding own [symmetric] image_is_empty set_empty ..
  show ?thesis
  proof (intro exI conjI)
    show "kernel_record_lock_release s os hp True = Some (?s, os', hp\<lparr>freed := rev (addresses ?own) @ freed hp\<rparr>)"
      using run(1) by (simp add: kernel_record_lock_release_def wake_all_def)
    show "state_ok ?s"
      using run(2) s locks_ok_subset [of "set (locks (root s))" "set (locks t')"] locks' by (auto simp: state_ok_def)
    show "listed ?s os' owner kind" using run(4) by (auto simp: listed_def locks' os')
    show "set (locks (root ?s)) = {x \<in> set (locks (root s)). \<not> mine owner kind x}" using locks' by simp
    show "set os' = {e \<in> set os. fst e \<noteq> state_self s}" by (rule os')
    show "waiters ?s = (if \<exists>x \<in> set (locks (root s)). mine owner kind x then [] else waiters s)" using ne by auto
    show "set (rev (addresses ?own)) = addr ` ?mine" unfolding own [symmetric] by (simp add: image_comp)
    show "distinct (rev (addresses ?own))" using distinct_map_filter [OF dist] by simp
  qed simp_all
qed

end
