(* ===== verification/Record_Lock_World.thy ===== *)
theory Record_Lock_World
  imports Record_Lock_Ops Kernel_Interface
begin

text \<open>
  One inode's lock state shared by any number of holders. Each holder, a descriptor table or an open
  file description, has its own owner list; all of them allocate from one heap. Every interleaving
  of their calls keeps the invariant and acts on the claims as the calls mean.

  The heap keeps track of the nodes that are in use, those it has handed out and not got back. What it
  answers during a call is an arbitrary function of the number of the call and of the nodes in use; the
  one thing its clients rely on is that it never hands out a node that is in use. A node that was
  freed may be handed out again.
\<close>

record lock_world =
  inode :: lock_state
  held :: "ptr \<times> nat \<Rightarrow> owner_list"
  in_use :: "ptr list"
  moment :: nat
  heap_give :: "nat \<Rightarrow> ptr list \<Rightarrow> alloc_outcome list"

datatype lock_call =
    Lock_set ptr nat int int int int
  | Lock_release ptr nat

definition heap_now :: "lock_world \<Rightarrow> heap_view" where
  "heap_now w = \<lparr>outcomes = heap_give w (moment w) (in_use w), freed = []\<rparr>"

text \<open>The nodes in use after a call: those handed out during the call are added, those handed back removed.\<close>

definition used_after :: "heap_view \<Rightarrow> heap_view \<Rightarrow> ptr list \<Rightarrow> ptr list" where
  "used_after hp hp' us =
     filter (\<lambda>p. p \<notin> set (freed hp')) (supplied (take (length (outcomes hp) - length (outcomes hp')) (outcomes hp)) @ us)"

definition after_call :: "lock_world \<Rightarrow> ptr \<times> nat \<Rightarrow> lock_state \<Rightarrow> owner_list \<Rightarrow> heap_view \<Rightarrow> lock_world" where
  "after_call w h s' os' hp' = w\<lparr>inode := s', held := (held w)(h := os'), in_use := used_after (heap_now w) hp' (in_use w), moment := moment w + 1\<rparr>"

fun lock_step :: "lock_call \<Rightarrow> lock_world \<Rightarrow> (bool \<times> lock_world) option" where
  "lock_step (Lock_set owner kind pid start stop type) w =
     map_option (\<lambda>(r, s', os', hp'). (r = 0, after_call w (owner, kind) s' os' hp'))
       (kernel_record_lock_set (inode w) (held w (owner, kind)) owner kind pid start stop type (heap_now w) True)"
| "lock_step (Lock_release owner kind) w =
     map_option (\<lambda>(s', os', hp'). (True, after_call w (owner, kind) s' os' hp'))
       (kernel_record_lock_release (inode w) (held w (owner, kind)) (heap_now w) True)"

text \<open>The ranges the callers pass, and what a call means for the claims.\<close>

fun lock_call_ok :: "lock_call \<Rightarrow> bool" where
  "lock_call_ok (Lock_set owner kind pid start stop type) \<longleftrightarrow> int64_min \<le> start \<and> start \<le> stop \<and> stop \<le> int64_max"
| "lock_call_ok (Lock_release owner kind) \<longleftrightarrow> True"

fun lock_meaning :: "lock_call \<Rightarrow> (ptr \<times> nat \<times> int \<times> int) set \<Rightarrow> (ptr \<times> nat \<times> int \<times> int) set" where
  "lock_meaning (Lock_set owner kind pid start stop type) C = reclaim owner kind start stop type C"
| "lock_meaning (Lock_release owner kind) C = {(ow, k, b, \<tau>) \<in> C. \<not> (ow = owner \<and> k = kind)}"

definition world_nodes :: "lock_world \<Rightarrow> ptr set" where
  "world_nodes w = state_nodes (inode w) \<union> (\<Union>h. set (addresses (held w h)))"

text \<open>The nodes of the locks that holders have on other inodes.\<close>

definition foreign_nodes :: "lock_world \<Rightarrow> ptr set" where
  "foreign_nodes w = {addr x | st x h. (st, x) \<in> set (held w h) \<and> st \<noteq> state_self (inode w)}"

definition heap_sound :: "(nat \<Rightarrow> ptr list \<Rightarrow> alloc_outcome list) \<Rightarrow> bool" where
  "heap_sound give \<longleftrightarrow> (\<forall>n us. heap_ready \<lparr>outcomes = give n us, freed = []\<rparr> (set us))"

text \<open>
  The nodes in use are exactly those of the tree and of the owner lists, so that none leaks; a lock on
  another inode does not share its node with a lock of this one.
\<close>

definition world_ok :: "lock_world \<Rightarrow> bool" where
  "world_ok w \<longleftrightarrow> state_ok (inode w) \<and> (\<forall>owner kind. listed (inode w) (held w (owner, kind)) owner kind) \<and>
     foreign_nodes w \<inter> state_nodes (inode w) = {} \<and>
     set (in_use w) = world_nodes w \<and> heap_sound (heap_give w)"

abbreviation world_claims :: "lock_world \<Rightarrow> (ptr \<times> nat \<times> int \<times> int) set" where
  "world_claims w \<equiv> claims (set (locks (root (inode w))))"

section \<open>One call\<close>

lemma heap_ready_mono: "heap_ready hp used \<Longrightarrow> used' \<subseteq> used \<Longrightarrow> heap_ready hp used'"
  unfolding heap_ready_def by blast

lemma listed_other:
  assumes "listed s os owner kind" "state_self s' = state_self s"
    "\<And>x. mine owner kind x \<Longrightarrow> x \<in> set (locks (root s')) \<longleftrightarrow> x \<in> set (locks (root s))"
  shows "listed s' os owner kind"
  using assms unfolding listed_def by auto

lemma world_nodes_split:
  assumes "\<And>ow k. listed (inode w) (held w (ow, k)) ow k"
  shows "world_nodes w = state_nodes (inode w) \<union> foreign_nodes w"
proof -
  have "set (addresses (held w h)) \<subseteq> state_nodes (inode w) \<union> foreign_nodes w" for h
  proof
    fix p assume "p \<in> set (addresses (held w h))"
    then obtain st x where x: "(st, x) \<in> set (held w h)" "p = addr x" by auto
    show "p \<in> state_nodes (inode w) \<union> foreign_nodes w"
    proof (cases "st = state_self (inode w)")
      case True
      then show ?thesis using x assms [of "fst h" "snd h"] by (simp add: listed_def)
    next
      case False
      then show ?thesis using x unfolding foreign_nodes_def by blast
    qed
  qed
  moreover have "foreign_nodes w \<subseteq> (\<Union>h. set (addresses (held w h)))" unfolding foreign_nodes_def by force
  ultimately show ?thesis unfolding world_nodes_def by blast
qed

text \<open>The invariant after a call that adds the nodes \<open>P\<close> and frees the nodes \<open>G\<close>.\<close>

lemma world_ok_after:
  assumes w: "world_ok w" and s': "state_ok s'" "\<And>ow k. listed s' (((held w)((owner, kind) := os')) (ow, k)) ow k"
      "state_self s' = state_self (inode w)"
    and other: "\<And>st x. st \<noteq> state_self (inode w) \<Longrightarrow> (st, x) \<in> set os' \<longleftrightarrow> (st, x) \<in> set (held w (owner, kind))"
    and nodes: "state_nodes s' \<union> G = state_nodes (inode w) \<union> P" "state_nodes s' \<inter> G = {}" "P \<inter> world_nodes w = {}"
    and heap: "set (freed hp') = G" "set (supplied (take (length (outcomes (heap_now w)) - length (outcomes hp')) (outcomes (heap_now w)))) = P"
  shows "world_ok (after_call w (owner, kind) s' os' hp')"
proof -
  let ?w = "after_call w (owner, kind) s' os' hp'"
  have sel: "inode ?w = s'" "held ?w = (held w)((owner, kind) := os')" "heap_give ?w = heap_give w"
    "set (in_use ?w) = (P \<union> world_nodes w) - G"
    using w heap by (auto simp: after_call_def used_after_def world_ok_def)
  have old: "world_nodes w = state_nodes (inode w) \<union> foreign_nodes w" "foreign_nodes w \<inter> state_nodes (inode w) = {}"
    using w by (simp_all add: world_ok_def world_nodes_split)
  have new: "world_nodes ?w = state_nodes s' \<union> foreign_nodes ?w" using s'(2) world_nodes_split [of ?w] unfolding sel by blast
  have "(st, x) \<in> set (held ?w h) \<longleftrightarrow> (st, x) \<in> set (held w h)" if "st \<noteq> state_self (inode w)" for st x h
    using other [OF that] by (simp add: sel)
  then have f: "foreign_nodes ?w = foreign_nodes w" unfolding foreign_nodes_def sel s'(3) by blast
  have "set (in_use ?w) = world_nodes ?w" unfolding new f sel(4) old(1) using nodes old by blast
  moreover have "foreign_nodes w \<inter> state_nodes s' = {}" using nodes old by blast
  moreover have "heap_sound (heap_give w)" using w by (simp add: world_ok_def)
  ultimately show ?thesis using s'(1,2) unfolding world_ok_def f sel(1-3) by (intro conjI) simp_all
qed

lemma heap_now_ready: "world_ok w \<Longrightarrow> heap_ready (heap_now w) (world_nodes w)"
  unfolding world_ok_def heap_sound_def heap_now_def by metis

lemma fresh_nodes:
  assumes "world_ok w" "outcomes (heap_now w) = map Alloc ps @ rest"
  shows "set ps \<inter> world_nodes w = {}"
  using heap_now_ready [OF assms(1)] assms(2) by (auto simp: heap_ready_def supplied_append)

lemma world_ok_same:
  assumes w: "world_ok w" and hp': "set (freed hp') = P" "P \<inter> world_nodes w = {}"
    "set (supplied (take (length (outcomes (heap_now w)) - length (outcomes hp')) (outcomes (heap_now w)))) = P"
  shows "world_ok (after_call w h (inode w) (held w h) hp')"
proof -
  obtain owner kind where h: "h = (owner, kind)" by (cases h)
  have "state_nodes (inode w) \<subseteq> world_nodes w" by (auto simp: world_nodes_def)
  then show ?thesis
    unfolding h by (intro world_ok_after [OF w, of _ _ _ _ P P]) (use w hp' in \<open>auto simp: world_ok_def\<close>)
qed

lemma supplied_all [simp]: "supplied (map Alloc ps) = ps"
  using supplied_append [of ps "[]"] by simp

lemma supplied_taken: "rest = [] \<or> hd rest = Alloc_empty \<Longrightarrow>
    supplied (take (length (map Alloc ps @ rest) - length (tl rest)) (map Alloc ps @ rest)) = ps"
  by (cases rest) (simp_all add: supplied_append)

lemma set_step:
  assumes w: "world_ok w" and c: "lock_call_ok (Lock_set owner kind pid start stop type)"
  shows "\<exists>d w'. lock_step (Lock_set owner kind pid start stop type) w = Some (d, w') \<and> world_ok w' \<and>
    world_claims w' = (if d then reclaim owner kind start stop type (world_claims w) else world_claims w)"
proof -
  let ?s = "inode w" and ?os = "held w (owner, kind)" and ?hp = "heap_now w"
  have s: "state_ok ?s" and l: "\<And>ow k. listed ?s (held w (ow, k)) ow k" using w by (simp_all add: world_ok_def)
  have range: "plan_ok (start, stop, 0)" using c by (simp add: plan_ok_def)
  have used: "state_nodes ?s \<union> set (addresses ?os) \<subseteq> world_nodes w" by (auto simp: world_nodes_def)
  have fr: "freed ?hp = []" by (simp add: heap_now_def)
  show ?thesis
  proof (rule set_spec [OF s l [of owner kind] range heap_ready_mono [OF heap_now_ready [OF w] used], of pid type])
    assume "kernel_record_lock_set ?s ?os owner kind pid start stop type ?hp True = Some (- EAGAIN, ?s, ?os, ?hp)"
    then have "lock_step (Lock_set owner kind pid start stop type) w = Some (False, after_call w (owner, kind) ?s ?os ?hp)" by simp
    moreover have "world_ok (after_call w (owner, kind) ?s ?os ?hp)" by (rule world_ok_same [OF w, of _ "{}"]) (simp_all add: fr)
    ultimately show ?thesis by (auto simp: after_call_def)
  next
    fix ps rest
    let ?hp' = "?hp\<lparr>outcomes := tl rest, freed := ps @ freed ?hp\<rparr>"
    assume a: "outcomes ?hp = map Alloc ps @ rest" "rest = [] \<or> hd rest = Alloc_empty"
      "kernel_record_lock_set ?s ?os owner kind pid start stop type ?hp True = Some (- ENOLCK, ?s, ?os, ?hp')"
    have "lock_step (Lock_set owner kind pid start stop type) w = Some (False, after_call w (owner, kind) ?s ?os ?hp')" using a(3) by simp
    moreover have "world_ok (after_call w (owner, kind) ?s ?os ?hp')"
    proof (rule world_ok_same [OF w _ fresh_nodes [OF w a(1)]])
      show "set (freed ?hp') = set ps" by (simp add: fr)
      show "set (supplied (take (length (outcomes ?hp) - length (outcomes ?hp')) (outcomes ?hp))) = set ps"
        using supplied_taken [OF a(2), of ps] by (simp add: a(1))
    qed
    ultimately show ?thesis by (auto simp: after_call_def)
  next
    fix s' os' hp'
    assume run: "kernel_record_lock_set ?s ?os owner kind pid start stop type ?hp True = Some (0, s', os', hp')"
      and s': "state_ok s'" "listed s' os' owner kind" and d: "set_done ?s ?os owner kind start stop type ?hp s' os' hp'"
    let ?w = "after_call w (owner, kind) s' os' hp'"
    obtain ps gone where ps: "outcomes ?hp = map Alloc ps @ outcomes hp'" "freed hp' = gone @ freed ?hp"
      "state_nodes s' \<union> set gone = state_nodes ?s \<union> set ps" "state_nodes s' \<inter> set gone = {}"
      using d unfolding set_done_def by (elim conjE exE) (rule that)
    have "listed s' (((held w)((owner, kind) := os')) (ow, k)) ow k" for ow k
      using s'(2) listed_other [OF l [of ow k], of s'] d by (cases "ow = owner \<and> k = kind") (auto simp: set_done_def)
    then have "world_ok ?w"
      by (intro world_ok_after [OF w s'(1), of _ _ _ "set gone" "set ps"])
         (use d ps fresh_nodes [OF w ps(1)] in \<open>simp_all add: set_done_def fr\<close>)
    moreover have "lock_step (Lock_set owner kind pid start stop type) w = Some (True, ?w)" using run by simp
    ultimately show ?thesis using d by (auto simp: set_done_def after_call_def)
  qed
qed

lemma release_step:
  assumes w: "world_ok w"
  shows "\<exists>w'. lock_step (Lock_release owner kind) w = Some (True, w') \<and> world_ok w' \<and>
    world_claims w' = lock_meaning (Lock_release owner kind) (world_claims w)"
proof -
  let ?s = "inode w" and ?os = "held w (owner, kind)" and ?hp = "heap_now w"
  have s: "state_ok ?s" and l: "\<And>ow k. listed ?s (held w (ow, k)) ow k" using w by (simp_all add: world_ok_def)
  have fr: "freed ?hp = []" by (simp add: heap_now_def)
  obtain s' os' hp' gone where run: "kernel_record_lock_release ?s ?os ?hp True = Some (s', os', hp')"
    and s': "state_ok s'" "listed s' os' owner kind" "state_self s' = state_self ?s" "outcomes hp' = outcomes ?hp"
      "set (locks (root s')) = {x \<in> set (locks (root ?s)). \<not> mine owner kind x}" "set os' = {e \<in> set ?os. fst e \<noteq> state_self ?s}"
    and gone: "freed hp' = gone @ freed ?hp" "set gone = addr ` {x \<in> set (locks (root ?s)). mine owner kind x}"
    using release_spec [OF s l, of owner kind ?hp] by blast
  let ?w = "after_call w (owner, kind) s' os' hp'"
  have inj: "inj_on addr (set (locks (root ?s)))"
    using s tree_okD(4) [of "root ?s"] by (simp add: state_ok_def distinct_map)
  have "listed s' (((held w)((owner, kind) := os')) (ow, k)) ow k" for ow k
    using s'(2) listed_other [OF l [of ow k] s'(3)] s'(5) by (cases "ow = owner \<and> k = kind") auto
  moreover have "state_nodes s' \<union> set gone = state_nodes ?s" "state_nodes s' \<inter> set gone = {}"
    unfolding s'(5) gone(2) using inj by (auto dest: inj_onD)
  ultimately have "world_ok ?w"
    by (intro world_ok_after [OF w s'(1), of _ _ _ "set gone" "{}"]) (use s'(3,4,6) gone(1) in \<open>simp_all add: fr\<close>)
  moreover have "claims (set (locks (root s'))) = lock_meaning (Lock_release owner kind) (world_claims w)"
    unfolding s'(5) by (auto simp: claims_iff)
  ultimately show ?thesis using run by (auto simp: after_call_def)
qed

interpretation lworld: atomic_object world_ok world_claims lock_call_ok lock_step lock_meaning
proof
  fix w r
  assume w: "world_ok w" and r: "lock_call_ok r"
  show "\<exists>d w'. lock_step r w = Some (d, w') \<and> world_ok w' \<and> world_claims w' = (if d then lock_meaning r (world_claims w) else world_claims w)"
  proof (cases r)
    case (Lock_set owner kind pid start stop type)
    then show ?thesis using set_step [OF w r [unfolded Lock_set]] by (simp only: lock_meaning.simps)
  next
    case (Lock_release owner kind)
    then show ?thesis using release_step [OF w, of owner kind] by (intro exI [of _ True]) simp
  qed
qed

section \<open>Exclusion\<close>

lemma world_ok_exclusive:
  assumes "world_ok w" "(ow, k, b, F_WRLCK) \<in> world_claims w" "(ow', k', b, \<tau>) \<in> world_claims w"
  shows "ow' = ow \<and> k' = k"
proof (rule ccontr)
  assume ne: "\<not> (ow' = ow \<and> k' = k)"
  obtain x y where x: "x \<in> set (locks (root (inode w)))" "mine ow k x" "ltype x = F_WRLCK" "key x \<le> b" "b \<le> lend x"
    and y: "y \<in> set (locks (root (inode w)))" "mine ow' k' y" "key y \<le> b" "b \<le> lend y"
    using assms(2,3) unfolding claims_iff by blast
  have "locks_ok (set (locks (root (inode w))))" using assms(1) by (simp add: world_ok_def state_ok_def)
  then have "ltype x \<noteq> F_WRLCK" using locks_okD(3) [OF _ x(1) y(1)] ne x y by (auto simp: touching_def)
  then show False using x(3) by simp
qed

definition empty_world :: "ptr \<Rightarrow> (nat \<Rightarrow> ptr list \<Rightarrow> alloc_outcome list) \<Rightarrow> lock_world" where
  "empty_world p give = \<lparr>inode = kernel_record_lock_state_init p, held = (\<lambda>_. []), in_use = [], moment = 0, heap_give = give\<rparr>"

lemma empty_world_ok: "heap_sound give \<Longrightarrow> world_ok (empty_world p give)"
  by (simp add: world_ok_def empty_world_def kernel_record_lock_state_init_def state_ok_def tree_ok_def avl_ok_def
      locks_ok_def listed_def world_nodes_def foreign_nodes_def)

end
