(* ===== verification/Record_Lock_Wait.thy ===== *)
theory Record_Lock_Wait
  imports Record_Lock_Ops
begin

text \<open>
  The POSIX side of record locks, \<^verbatim>\<open>src/fs/files/locks.c\<close>: turning a \<^verbatim>\<open>struct flock\<close> into a byte range,
  and the search for a deadlock among the requests that are waiting.
\<close>

section \<open>Ranges\<close>

record linux_flock =
  fl_type :: int
  fl_whence :: int
  fl_start :: int
  fl_length :: int
  fl_pid :: int

abbreviation EINVAL :: int where "EINVAL \<equiv> 22"
abbreviation EOVERFLOW :: int where "EOVERFLOW \<equiv> 75"

text \<open>\<^verbatim>\<open>__builtin_add_overflow\<close> on \<^verbatim>\<open>int64_t\<close>: \<open>None\<close> when the sum does not fit.\<close>

definition add_overflow :: "int \<Rightarrow> int \<Rightarrow> int option" where
  "add_overflow a b = (if int64_min \<le> a + b \<and> a + b \<le> int64_max then Some (a + b) else None)"

text \<open>\<open>offset\<close> and \<open>fsize\<close> are the description's file offset and what \<^verbatim>\<open>kernel_open_file_size\<close> returns.\<close>

definition range_from_flock :: "linux_flock \<Rightarrow> u64 \<Rightarrow> u64 \<Rightarrow> int + int \<times> int" where
  "range_from_flock fl offset fsize =
     (case (if fl_whence fl = 0 then Inr 0
            else if fl_whence fl = 1 then
              (if int64_max < uint offset then Inl (- EOVERFLOW) else Inr (uint offset))
            else if fl_whence fl = 2 then
              (if int64_max < uint fsize then Inl (- EOVERFLOW) else Inr (uint fsize))
            else Inl (- EINVAL)) of
        Inl err \<Rightarrow> Inl err
      | Inr base \<Rightarrow>
          (case add_overflow base (fl_start fl) of
             None \<Rightarrow> Inl (- EOVERFLOW)
           | Some start \<Rightarrow>
               if start < 0 then Inl (- EINVAL)
               else if 0 < fl_length fl then
                 (case add_overflow start (fl_length fl - 1) of
                    None \<Rightarrow> Inl (- EOVERFLOW)
                  | Some stop \<Rightarrow> Inr (start, stop))
               else if fl_length fl < 0 then
                 (case add_overflow start (fl_length fl) of
                    None \<Rightarrow> Inl (- EINVAL)
                  | Some lower \<Rightarrow> if lower < 0 then Inl (- EINVAL) else Inr (lower, start - 1))
               else Inr (start, int64_max)))"

section \<open>Waiting requests\<close>

record lock_wait_edge =
  edge_self :: ptr
  edge_state :: ptr
  edge_owner :: ptr
  edge_blocker :: ptr
  edge_start :: int
  edge_end :: int
  edge_type :: int

definition no_conflict :: lock_conflict where
  "no_conflict = \<lparr>found_start = 0, found_end = 0, found_pid = 0, found_type = 0, found_kind = 0, found_owner = 0\<rparr>"

text \<open>The test on one edge: its blocker still holds the first lock in its way.\<close>

definition edge_live :: "(ptr \<Rightarrow> lock_state) \<Rightarrow> lock_wait_edge \<Rightarrow> bool" where
  "edge_live states e \<longleftrightarrow>
     (let current = kernel_record_lock_get (states (edge_state e)) (edge_owner e) 0
                      (edge_start e) (edge_end e) (edge_type e) no_conflict
      in found_kind current = 0 \<and> found_owner current = edge_blocker e)"

function deadlocked :: "(ptr \<Rightarrow> lock_state) \<Rightarrow> lock_wait_edge list \<Rightarrow> ptr \<Rightarrow> ptr \<Rightarrow> nat \<Rightarrow> bool" where
  "deadlocked states waiting_locks owner requester level =
     (if 10 \<le> level then False
      else list_ex (\<lambda>e. edge_owner e = owner \<and> edge_live states e \<and>
             (edge_blocker e = requester \<or>
              deadlocked states waiting_locks (edge_blocker e) requester (level + 1))) waiting_locks)"
  by pat_completeness auto
termination
  by (relation "measure (\<lambda>(states, ws, owner, requester, level). 10 - level)") auto

declare deadlocked.simps [simp del]

fun remove_wait_edge :: "ptr \<Rightarrow> lock_wait_edge list \<Rightarrow> lock_wait_edge list option" where
  "remove_wait_edge p [] = None"
| "remove_wait_edge p (e # es) =
     (if edge_self e = p then Some es else do { es' \<leftarrow> remove_wait_edge p es; Some (e # es') })"

section \<open>What they compute\<close>

lemma add_overflow_cases:
  "add_overflow a b = Some c \<longleftrightarrow> c = a + b \<and> int64_min \<le> a + b \<and> a + b \<le> int64_max"
  by (auto simp: add_overflow_def)

text \<open>The absolute position that a request counts from.\<close>

definition flock_base :: "linux_flock \<Rightarrow> u64 \<Rightarrow> u64 \<Rightarrow> int" where
  "flock_base fl offset fsize = (if fl_whence fl = 0 then 0 else if fl_whence fl = 1 then uint offset else uint fsize)"

lemma range_from_flock_spec:
  assumes "range_from_flock fl offset fsize = Inr (start, stop)"
  shows "0 \<le> start" "start \<le> stop" "stop \<le> int64_max"
    "let from = flock_base fl offset fsize + fl_start fl in
       fl_length fl > 0 \<and> start = from \<and> stop = from + fl_length fl - 1 \<or>
       fl_length fl < 0 \<and> start = from + fl_length fl \<and> stop = from - 1 \<or>
       fl_length fl = 0 \<and> start = from \<and> stop = int64_max"
  using assms unfolding range_from_flock_def flock_base_def
  by (auto simp: add_overflow_cases split: if_splits option.splits)

definition waits_for :: "(ptr \<Rightarrow> lock_state) \<Rightarrow> lock_wait_edge list \<Rightarrow> (ptr \<times> ptr) set" where
  "waits_for states es = {(edge_owner e, edge_blocker e) |e. e \<in> set es \<and> edge_live states e}"

lemma deadlocked_spec:
  "level + n = 10 \<Longrightarrow> deadlocked states es owner requester level \<longleftrightarrow>
     (\<exists>k. 0 < k \<and> k \<le> n \<and> (owner, requester) \<in> waits_for states es ^^ k)"
proof (induction n arbitrary: level owner)
  case 0
  then show ?case by (simp add: deadlocked.simps)
next
  case (Suc n)
  let ?R = "waits_for states es"
  have "deadlocked states es owner requester level \<longleftrightarrow>
      (\<exists>b. (owner, b) \<in> ?R \<and> (b = requester \<or> deadlocked states es b requester (level + 1)))"
    using Suc.prems by (subst deadlocked.simps) (auto simp: list_ex_iff waits_for_def)
  also have "\<dots> \<longleftrightarrow> (\<exists>b. (owner, b) \<in> ?R \<and> (\<exists>k \<le> n. (b, requester) \<in> ?R ^^ k))"
  proof -
    have "b = requester \<or> deadlocked states es b requester (level + 1) \<longleftrightarrow> (\<exists>k \<le> n. (b, requester) \<in> ?R ^^ k)" for b
      using Suc.IH [of "level + 1" b] Suc.prems by (auto intro: exI [of _ 0]) (metis bot_nat_0.not_eq_extremum relpow_0_E)
    then show ?thesis by simp
  qed
  also have "\<dots> \<longleftrightarrow> (\<exists>k. 0 < k \<and> k \<le> Suc n \<and> (owner, requester) \<in> ?R ^^ k)"
  proof
    assume "\<exists>k. 0 < k \<and> k \<le> Suc n \<and> (owner, requester) \<in> ?R ^^ k"
    then obtain k where "k \<le> n" "(owner, requester) \<in> ?R ^^ Suc k" by (metis Suc_le_mono gr0_implies_Suc)
    then show "\<exists>b. (owner, b) \<in> ?R \<and> (\<exists>k \<le> n. (b, requester) \<in> ?R ^^ k)" by (blast dest: relpow_Suc_D2)
  qed (auto simp: less_Suc_eq_le intro: relpow_Suc_I2)
  finally show ?case .
qed

lemma remove_wait_edge_spec:
  "remove_wait_edge p es = (if p \<in> edge_self ` set es then Some (takeWhile (\<lambda>e. edge_self e \<noteq> p) es @ tl (dropWhile (\<lambda>e. edge_self e \<noteq> p) es)) else None)"
  by (induction es) auto

end
