(* ===== verification/Record_Lock_Theorems.thy ===== *)
theory Record_Lock_Theorems
  imports Record_Lock_World Record_Lock_Wait
begin

text \<open>
  The properties of the search trees and of record locks.
\<close>

section \<open>A sample state\<close>

text \<open>Holder 100 has a write lock on bytes 0 to 9, holder 200 a read lock on bytes 20 to 29.\<close>

definition lock_a :: rlock where
  "lock_a = \<lparr>addr = 16, key = 0, lowner = 100, lend = 9, lpid = 7, ltype = 1, lkind = 0\<rparr>"

definition lock_b :: rlock where
  "lock_b = \<lparr>addr = 32, key = 20, lowner = 200, lend = 29, lpid = 8, ltype = 0, lkind = 0\<rparr>"

definition sample_state :: lock_state where
  "sample_state = \<lparr>state_self = 5, root = LNode LLeaf lock_a 29 2 (LNode LLeaf lock_b 29 1 LLeaf), waiters = [77]\<rparr>"

definition sample_lock_heap :: heap_view where
  "sample_lock_heap = \<lparr>outcomes = [Alloc 48, Alloc 64, Alloc 80, Alloc 96], freed = []\<rparr>"

lemmas sample_lock_defs = lock_a_def lock_b_def sample_state_def sample_lock_heap_def

lemma sample_state_ok: "state_ok sample_state"
  by (simp add: sample_lock_defs state_ok_def tree_ok_def avl_ok_def merged_end_def maximum_def kernel_avl_before_def
      locks_ok_def lock_wf_def separate_def touching_def)

lemma sample_listed: "listed sample_state [(5, lock_a)] 100 0"
  by (auto simp: sample_lock_defs listed_def)

lemma sample_heap_ready: "heap_ready sample_lock_heap {16, 32}"
  by (simp add: sample_lock_defs heap_ready_def)

text \<open>A heap of four nodes that hands out the first ones that are not in use.\<close>

definition sample_give :: "nat \<Rightarrow> ptr list \<Rightarrow> alloc_outcome list" where
  "sample_give n us = map Alloc (filter (\<lambda>p. p \<notin> set us) [48, 64, 80, 96])"

lemma sample_heap_sound: "heap_sound sample_give"
  by (auto simp: heap_sound_def heap_ready_def sample_give_def)

lemma sample_nodes: "state_nodes sample_state \<union> set (addresses [(5, lock_a)]) = {16, 32}"
  by (auto simp: sample_lock_defs)

definition sample_node :: "int avl_node" where
  "sample_node = \<lparr>addr = 32, key = 3\<rparr>"

definition sample_avl :: "(int, unit) atree" where
  "sample_avl = ANode ALeaf \<lparr>addr = 16, key = 3\<rparr> 1 ALeaf"

lemma sample_avl_ok: "avl_ok sample_avl" "avl_fresh sample_node sample_avl" "inorder sample_avl = [\<lparr>addr = 16, key = 3\<rparr>]"
  by (simp_all add: sample_avl_def sample_node_def avl_ok_def avl_fresh_def)

section \<open>Properties\<close>

text \<open>
  C1. Any interleaving of lock, unlock and release calls by any number of holders on one inode
  returns without trapping, keeps the tree, its augmentation and the owner lists well formed, and
  acts on the claims exactly as the calls that report success mean. The heap may refuse any
  allocation and may hand out nodes that were freed before; it is only assumed never to hand out a node that is
  in use. After every history the nodes in use are exactly those of the tree and the owner
  lists: none is leaked and none is used after it was freed.
\<close>

theorem lock_calls_refine:
  assumes "world_ok w" "list_all lock_call_ok rs"
  shows "\<exists>ds w'. run_all lock_step rs w = Some (ds, w') \<and> length ds = length rs \<and> world_ok w' \<and> set (in_use w') = world_nodes w' \<and>
    world_claims w' = replay lock_meaning rs ds (world_claims w)"
  using lworld.history_replays [OF assms] by (auto simp: world_ok_def)

text \<open>The node of the first lock is freed by the unlock and handed out again for the second one.\<close>

theorem lock_calls_refine_witness:
  "\<exists>w'. run_all lock_step [Lock_set 100 0 7 0 9 1, Lock_set 100 0 7 0 9 2, Lock_set 200 0 8 5 5 1] (empty_world 5 sample_give)
     = Some ([True, True, True], w') \<and> in_use w' = [48] \<and> world_ok w' \<and> world_claims w' = {(200, 0, 5, 1)}"
proof -
  let ?rs = "[Lock_set 100 0 7 0 9 1, Lock_set 100 0 7 0 9 2, Lock_set 200 0 8 5 5 1]" and ?w = "empty_world 5 sample_give"
  have ok: "list_all lock_call_ok ?rs" by simp
  have "map_option (map_prod id in_use) (run_all lock_step ?rs ?w) = Some ([True, True, True], [48])" by code_simp
  then obtain w' where w': "run_all lock_step ?rs ?w = Some ([True, True, True], w')" "in_use w' = [48]" by auto
  have c: "world_ok w'" "world_claims w' = replay lock_meaning ?rs [True, True, True] (world_claims ?w)"
    using lock_calls_refine [OF empty_world_ok [OF sample_heap_sound] ok, of 5] w'(1) by simp_all
  have "world_claims w' = {(200, 0, 5, 1)}"
    unfolding c(2) by (auto simp: reclaim_def empty_world_def kernel_record_lock_state_init_def claims_iff)
  then show ?thesis using w' c(1) by blast
qed

text \<open>
  C2. Mutual exclusion: after any interleaving of calls on a fresh inode, a byte that one holder
  has locked for writing is claimed by no other holder. The heap may reuse freed nodes; it is only assumed
  never to hand out a node that is in use.
\<close>

theorem write_locks_exclude:
  assumes "heap_sound give" "list_all lock_call_ok rs"
    and "run_all lock_step rs (empty_world p give) = Some (ds, w)"
    and "(owner, kind, b, F_WRLCK) \<in> world_claims w" "(owner', kind', b, \<tau>) \<in> world_claims w"
  shows "owner' = owner \<and> kind' = kind"
proof -
  have "world_ok w" using lworld.history_replays [OF empty_world_ok [OF assms(1)] assms(2), of p] assms(3) by auto
  then show ?thesis using assms(4,5) by (rule world_ok_exclusive)
qed

theorem write_locks_exclude_witness:
  "\<exists>w. run_all lock_step [Lock_set 200 0 8 0 9 1, Lock_release 200 0, Lock_set 100 0 7 0 9 1, Lock_set 200 0 8 5 5 0] (empty_world 5 sample_give)
       = Some ([True, True, True, False], w) \<and>
     (100, 0, 3, F_WRLCK) \<in> world_claims w \<and> (\<forall>ow k \<tau>. (ow, k, 3, \<tau>) \<in> world_claims w \<longrightarrow> ow = 100 \<and> k = 0)"
proof -
  let ?rs = "[Lock_set 200 0 8 0 9 1, Lock_release 200 0, Lock_set 100 0 7 0 9 1, Lock_set 200 0 8 5 5 0]" and ?w = "empty_world 5 sample_give"
  have ok: "list_all lock_call_ok ?rs" by simp
  have run: "map_option fst (run_all lock_step ?rs ?w) = Some [True, True, True, False]" by code_simp
  then obtain w where w: "run_all lock_step ?rs ?w = Some ([True, True, True, False], w)" by auto
  have "world_claims w = replay lock_meaning ?rs [True, True, True, False] (world_claims ?w)"
    using lworld.history_replays [OF empty_world_ok [OF sample_heap_sound] ok, of 5] w by simp
  then have "(100, 0, 3, F_WRLCK) \<in> world_claims w" by (simp add: reclaim_def)
  then show ?thesis using w write_locks_exclude [OF sample_heap_sound ok w] by blast
qed

text \<open>
  C3. Setting or clearing a range returns without trapping. It reports \<^verbatim>\<open>EAGAIN\<close> exactly if another
  holder has a lock in the range that excludes the request, and \<^verbatim>\<open>ENOLCK\<close> only if the heap ran empty;
  then state and owner list are unchanged and every node allocated on the way is freed again.
  Otherwise the holder's claims change on exactly the requested bytes, no other lock is touched,
  the waiters are woken, and every node is in the tree or freed, never both.
\<close>

theorem lock_set_outcome:
  assumes "state_ok s" "listed s os owner kind" "int64_min \<le> start" "start \<le> stop" "stop \<le> int64_max"
    and "heap_ready hp (state_nodes s \<union> set (addresses os))"
  shows "\<exists>r s' os' hp'. kernel_record_lock_set s os owner kind pid start stop type hp True = Some (r, s', os', hp') \<and>
    (r = - EAGAIN \<longleftrightarrow> type \<noteq> F_UNLCK \<and> (\<exists>x \<in> set (locks (root s)). touching x start stop \<and> excludes owner kind type x)) \<and>
    (r = - EAGAIN \<and> s' = s \<and> os' = os \<and> hp' = hp \<or>
     r = - ENOLCK \<and> s' = s \<and> os' = os \<and> (\<exists>ps rest. outcomes hp = map Alloc ps @ rest \<and>
       (rest = [] \<or> hd rest = Alloc_empty) \<and> hp' = hp\<lparr>outcomes := tl rest, freed := ps @ freed hp\<rparr>) \<or>
     r = 0 \<and> state_ok s' \<and> listed s' os' owner kind \<and> set_done s os owner kind start stop type hp s' os' hp')"
proof -
  have range: "plan_ok (start, stop, 0)" using assms(3-5) by (simp add: plan_ok_def)
  show ?thesis
  proof (rule set_spec [OF assms(1,2) range assms(6), of pid type])
    assume "kernel_record_lock_set s os owner kind pid start stop type hp True = Some (- EAGAIN, s, os, hp)"
      "type \<noteq> F_UNLCK" "\<exists>x \<in> set (locks (root s)). touching x start stop \<and> excludes owner kind type x"
    then show ?thesis by (intro exI conjI) auto
  next
    fix ps rest
    assume "outcomes hp = map Alloc ps @ rest" "rest = [] \<or> hd rest = Alloc_empty"
      "kernel_record_lock_set s os owner kind pid start stop type hp True
        = Some (- ENOLCK, s, os, hp\<lparr>outcomes := tl rest, freed := ps @ freed hp\<rparr>)"
      "type = F_UNLCK \<or> (\<forall>x \<in> set (locks (root s)). \<not> (touching x start stop \<and> excludes owner kind type x))"
    then show ?thesis by (intro exI conjI) auto
  next
    fix s' os' hp'
    assume "kernel_record_lock_set s os owner kind pid start stop type hp True = Some (0, s', os', hp')"
      "state_ok s'" "listed s' os' owner kind" "set_done s os owner kind start stop type hp s' os' hp'"
      "type = F_UNLCK \<or> (\<forall>x \<in> set (locks (root s)). \<not> (touching x start stop \<and> excludes owner kind type x))"
    then show ?thesis by (intro exI conjI) auto
  qed
qed

theorem lock_set_outcome_witness:
  "\<exists>s' os' hp'. kernel_record_lock_set sample_state [(5, lock_a)] 100 0 7 3 4 2 sample_lock_heap True = Some (0, s', os', hp') \<and>
     state_ok s' \<and> set_done sample_state [(5, lock_a)] 100 0 3 4 2 sample_lock_heap s' os' hp'"
proof -
  have "map_option fst (kernel_record_lock_set sample_state [(5, lock_a)] 100 0 7 3 4 2 sample_lock_heap True) = Some 0" by code_simp
  then show ?thesis
    using lock_set_outcome [OF sample_state_ok sample_listed, of 3 4 sample_lock_heap 7 2] sample_heap_ready
    unfolding sample_nodes by auto
qed

text \<open>
  C15. The pruned tree search behind a lock query finds what a scan of all locks in order finds: the
  first lock in the range that excludes the request. Without one the query reports the type
  \<^verbatim>\<open>F_UNLCK\<close> and no owner.
\<close>

theorem lock_get_scans:
  assumes "state_ok s"
  shows "kernel_record_lock_get s owner kind start stop type found =
    (case find (\<lambda>x. touching x start stop \<and> excludes owner kind type x) (locks (root s)) of
       None \<Rightarrow> found\<lparr>found_type := F_UNLCK, found_owner := 0, found_kind := 0\<rparr>
     | Some x \<Rightarrow> \<lparr>found_start = key x, found_end = lend x, found_pid = (if lkind x \<noteq> 0 then -1 else lpid x),
                 found_type = ltype x, found_kind = lkind x, found_owner = lowner x\<rparr>)"
proof -
  have "tree_ok (root s)" using assms by (simp add: state_ok_def)
  then show ?thesis by (simp add: kernel_record_lock_get_def conflict_spec tree_okD(1,3))
qed

theorem lock_get_scans_witness:
  "kernel_record_lock_get sample_state 100 0 0 25 1 no_conflict =
     \<lparr>found_start = 20, found_end = 29, found_pid = 8, found_type = 0, found_kind = 0, found_owner = 200\<rparr>"
  unfolding lock_get_scans [OF sample_state_ok] by (simp add: sample_lock_defs touching_def excludes_def)

text \<open>
  C16. Releasing an owner does not trap and removes exactly its locks on the inode from the tree
  and from its list; each removed node is freed once, its locks on other inodes stay listed, and
  the waiters are woken exactly if a lock went away.
\<close>

theorem lock_release_removes_owner:
  assumes "state_ok s" "listed s os owner kind"
  shows "\<exists>s' os' hp'. kernel_record_lock_release s os hp True = Some (s', os', hp') \<and>
    state_ok s' \<and> set (locks (root s')) = {x \<in> set (locks (root s)). \<not> mine owner kind x} \<and>
    set os' = {e \<in> set os. fst e \<noteq> state_self s} \<and>
    waiters s' = (if \<exists>x \<in> set (locks (root s)). mine owner kind x then [] else waiters s) \<and>
    (\<exists>gone. freed hp' = gone @ freed hp \<and> distinct gone \<and> set gone = addr ` {x \<in> set (locks (root s)). mine owner kind x})"
  using release_spec [OF assms, of hp] by blast

theorem lock_release_removes_owner_witness:
  "\<exists>s' os' hp'. kernel_record_lock_release sample_state [(5, lock_a)] sample_lock_heap True = Some (s', os', hp') \<and>
     set (locks (root s')) = {lock_b} \<and> waiters s' = []"
proof -
  have "{x \<in> set (locks (root sample_state)). \<not> mine 100 0 x} = {lock_b}" "\<exists>x \<in> set (locks (root sample_state)). mine 100 0 x"
    by (auto simp: sample_lock_defs)
  then show ?thesis using lock_release_removes_owner [OF sample_state_ok sample_listed, of sample_lock_heap] by fastforce
qed

text \<open>
  C17. A \<^verbatim>\<open>struct flock\<close> that is accepted denotes the bytes it describes, counted from the start, the
  file offset or the end of the file; the range is non-empty and non-negative, and lies in
  \<^verbatim>\<open>int64_t\<close>.
\<close>

theorem flock_range_exact:
  assumes "range_from_flock fl offset fsize = Inr (start, stop)"
  shows "0 \<le> start \<and> start \<le> stop \<and> stop \<le> int64_max \<and>
    (let from = flock_base fl offset fsize + fl_start fl in
       fl_length fl > 0 \<and> start = from \<and> stop = from + fl_length fl - 1 \<or>
       fl_length fl < 0 \<and> start = from + fl_length fl \<and> stop = from - 1 \<or>
       fl_length fl = 0 \<and> start = from \<and> stop = int64_max)"
  using range_from_flock_spec [OF assms] by blast

theorem flock_range_exact_witness:
  "range_from_flock \<lparr>fl_type = 1, fl_whence = 1, fl_start = 5, fl_length = -10, fl_pid = 0\<rparr> 100 0 = Inr (95, 104) \<and>
   (0 :: int) \<le> 95 \<and> (95 :: int) \<le> 104"
proof -
  have "range_from_flock \<lparr>fl_type = 1, fl_whence = 1, fl_start = 5, fl_length = -10, fl_pid = 0\<rparr> 100 0 = Inr (95, 104)"
    by (simp add: range_from_flock_def add_overflow_def)
  then show ?thesis using flock_range_exact by blast
qed

text \<open>
  C18. The deadlock search answers whether the requester is reached from the blocking owner through
  one to ten waiting requests, each still blocked by the owner it waits for.
\<close>

theorem deadlock_search_exact:
  "deadlocked states waiting_locks owner requester 0 \<longleftrightarrow>
     (\<exists>k. 0 < k \<and> k \<le> 10 \<and> (owner, requester) \<in> waits_for states waiting_locks ^^ k)"
  by (rule deadlocked_spec) simp

text \<open>
  C20. Inserting a fresh node into a search tree of \<^verbatim>\<open>kernel/avl.h\<close> and removing it again never follows a
  null link and restores the sequence of nodes.
\<close>

theorem avl_insert_remove_restores:
  assumes "avl_ok t" "avl_fresh x t"
  shows "\<exists>t' t''. kernel_avl_insert_node t x = Some t' \<and> kernel_avl_remove_node t' x = Some t'' \<and>
    avl_ok t'' \<and> inorder t'' = inorder t"
  using assms by (rule kavl.insert_delete_restores)

theorem avl_insert_remove_restores_witness:
  "\<exists>t' t''. kernel_avl_insert_node sample_avl sample_node = Some t' \<and> kernel_avl_remove_node t' sample_node = Some t'' \<and>
     inorder t'' = [\<lparr>addr = 16, key = 3\<rparr>]"
  using avl_insert_remove_restores [OF sample_avl_ok(1,2)] unfolding sample_avl_ok(3) by blast

text \<open>
  C21. The \<^verbatim>\<open>int8_t\<close> heights of a well-formed search tree are its real depths: a tree of nodes at
  distinct 64-bit addresses is at most 123 deep, and an insertion keeps it so.
\<close>

theorem avl_heights_fit:
  assumes "avl_ok t" "avl_fresh x t"
  shows "kernel_avl_height t = int (depth t) \<and> depth t \<le> 123 \<and>
    (\<exists>t'. kernel_avl_insert_node t x = Some t' \<and> kernel_avl_height t' = int (depth t') \<and> depth t' \<le> 123)"
proof -
  obtain t' where "kernel_avl_insert_node t x = Some t'" "avl_ok t'" using insert_node_ok [OF assms] by blast
  then show ?thesis using avl_ok_depth assms(1) by (auto simp: avl_ok_def)
qed

theorem avl_heights_fit_witness:
  "kernel_avl_height sample_avl = int (depth sample_avl) \<and> depth sample_avl \<le> 123 \<and>
   (\<exists>t'. kernel_avl_insert_node sample_avl sample_node = Some t' \<and> kernel_avl_height t' = int (depth t') \<and> depth t' \<le> 123)"
  by (rule avl_heights_fit [OF sample_avl_ok(1,2)])

end
