(* ===== verification/Pid_Allocator.thy ===== *)
theory Pid_Allocator
  imports Kernel_Prelude
begin

text \<open>
  The number allocator of \<^verbatim>\<open>src/kernel/pid.c\<close>: a bitmap of 64-bit words with a cursor. Pointers that the
  code checks against null are options; \<open>None\<close> as the result of a call is an access outside the bitmap.
  \<^verbatim>\<open>uint32_t\<close> values are natural numbers: a valid allocator has a limit of at most \<^verbatim>\<open>INT32_MAX\<close>, so no
  sum of the code wraps. The lemmas relate the bitmap to the set of numbers in use.
\<close>

section \<open>The code\<close>

datatype pid_status = PID_OK | PID_INVALID | PID_EXHAUSTED | PID_NOT_ALLOCATED | PID_STATE

record pid_allocator =
  bitmap :: "u64 list option"
  limit :: nat
  cursor :: nat
  allocated :: nat
  initialized :: nat

abbreviation pid_magic :: nat where
  "pid_magic \<equiv> 0x50494441"

abbreviation int32_max :: nat where
  "int32_max \<equiv> 2147483647"

definition pid_words :: "nat \<Rightarrow> nat" where
  "pid_words n = (n + 63) div 64"

definition valid_allocator :: "pid_allocator option \<Rightarrow> bool" where
  "valid_allocator a =
     (case a of None \<Rightarrow> False
      | Some al \<Rightarrow> initialized al = pid_magic \<and> bitmap al \<noteq> None \<and> limit al \<noteq> 0 \<and> limit al \<le> int32_max \<and>
          cursor al < limit al \<and> allocated al \<le> limit al)"

definition pid_mask :: "nat \<Rightarrow> u64" where
  "pid_mask index = push_bit (index mod 64) 1"

fun clear_words :: "u64 list \<Rightarrow> nat \<Rightarrow> u64 list option" where
  "clear_words bm 0 = Some bm"
| "clear_words [] (Suc n) = None"
| "clear_words (w # bm) (Suc n) = map_option ((#) 0) (clear_words bm n)"

definition kernel_pid_allocator_init ::
  "pid_allocator option \<Rightarrow> u64 list option \<Rightarrow> nat \<Rightarrow> (pid_status \<times> pid_allocator option) option" where
  "kernel_pid_allocator_init a bm lim =
     (case (a, bm) of
        (Some al, Some words) \<Rightarrow>
          if lim = 0 \<or> int32_max < lim then Some (PID_INVALID, a)
          else if initialized al \<noteq> 0 \<or> bitmap al \<noteq> None \<or> limit al \<noteq> 0 \<or> cursor al \<noteq> 0 \<or> allocated al \<noteq> 0
          then Some (PID_STATE, a)
          else do {
            cleared \<leftarrow> clear_words words (pid_words lim);
            Some (PID_OK, Some \<lparr>bitmap = Some cleared, limit = lim, cursor = 0, allocated = 0, initialized = pid_magic\<rparr>)
          }
      | _ \<Rightarrow> Some (PID_INVALID, a))"

text \<open>The result carries the number stored through \<^verbatim>\<open>pid\<close>, if one is; \<open>out\<close> says that this pointer is not null.\<close>

function allocate_scan :: "pid_allocator \<Rightarrow> u64 list \<Rightarrow> nat \<Rightarrow> (pid_status \<times> int option \<times> pid_allocator) option" where
  "allocate_scan al bm scanned =
     (if scanned < limit al then
        let raw = cursor al + scanned;
            index = (if limit al \<le> raw then raw - limit al else raw);
            wd = index div 64; mask = pid_mask index
        in if length bm \<le> wd then None
           else if bm ! wd AND mask \<noteq> 0 then allocate_scan al bm (scanned + 1)
           else Some (PID_OK, Some (int (index + 1)),
             al\<lparr>bitmap := Some (bm[wd := bm ! wd OR mask]), allocated := allocated al + 1,
                cursor := (if index + 1 = limit al then 0 else index + 1)\<rparr>)
      else Some (PID_STATE, None, al))"
  by pat_completeness auto
termination
  by (relation "measure (\<lambda>(al, bm, scanned). limit al - scanned)") auto

declare allocate_scan.simps [simp del]

definition kernel_pid_allocate ::
  "pid_allocator option \<Rightarrow> bool \<Rightarrow> (pid_status \<times> int option \<times> pid_allocator option) option" where
  "kernel_pid_allocate a out =
     (if \<not> out then Some (PID_INVALID, None, a)
      else if \<not> valid_allocator a then Some (PID_STATE, None, a)
      else if allocated (the a) = limit (the a) then Some (PID_EXHAUSTED, None, a)
      else do {
        (status, pid, al) \<leftarrow> allocate_scan (the a) (the (bitmap (the a))) 0;
        Some (status, pid, Some al)
      })"

definition kernel_pid_release :: "pid_allocator option \<Rightarrow> int \<Rightarrow> (pid_status \<times> pid_allocator option) option" where
  "kernel_pid_release a pid =
     (if pid \<le> 0 then Some (PID_INVALID, a)
      else if \<not> valid_allocator a then Some (PID_STATE, a)
      else
        let al = the a; bm = the (bitmap al); index = nat pid - 1; wd = index div 64; mask = pid_mask index
        in if limit al \<le> index then Some (PID_INVALID, a)
           else if length bm \<le> wd then None
           else if bm ! wd AND mask = 0 then Some (PID_NOT_ALLOCATED, a)
           else if allocated al = 0 then Some (PID_STATE, a)
           else Some (PID_OK, Some (al\<lparr>bitmap := Some (bm[wd := bm ! wd AND NOT mask]), allocated := allocated al - 1,
                cursor := (if index < cursor al then index else cursor al)\<rparr>)))"

section \<open>Numbers in use\<close>

definition in_use :: "u64 list \<Rightarrow> nat \<Rightarrow> bool" where
  "in_use bm i \<longleftrightarrow> bit (bm ! (i div 64)) (i mod 64)"

definition taken :: "pid_allocator \<Rightarrow> nat set" where
  "taken al = {i. i < limit al \<and> in_use (the (bitmap al)) i}"

definition alloc_ok :: "pid_allocator \<Rightarrow> bool" where
  "alloc_ok al \<longleftrightarrow> initialized al = pid_magic \<and> (\<exists>bm. bitmap al = Some bm \<and> pid_words (limit al) \<le> length bm) \<and>
     0 < limit al \<and> limit al \<le> int32_max \<and> cursor al < limit al \<and> allocated al = card (taken al)"

lemma taken_bounds: "taken al \<subseteq> {..<limit al}" "finite (taken al)" "card (taken al) \<le> limit al"
proof -
  show s: "taken al \<subseteq> {..<limit al}" by (auto simp: taken_def)
  show "finite (taken al)" using finite_subset [OF s] by simp
  show "card (taken al) \<le> limit al" using card_mono [OF _ s] by simp
qed

lemma alloc_ok_valid: "alloc_ok al \<Longrightarrow> valid_allocator (Some al)"
  using taken_bounds(3) [of al] by (auto simp: alloc_ok_def valid_allocator_def)

lemma word_in_bitmap: "i < n \<Longrightarrow> pid_words n \<le> k \<Longrightarrow> i div 64 < k"
  by (auto simp: pid_words_def less_mult_imp_div_less)

lemma bit_pid_mask: "n < 64 \<Longrightarrow> bit (pid_mask i) n \<longleftrightarrow> n = i mod 64"
  by (auto simp: pid_mask_def bit_exp_iff)

lemma and_pid_mask: "w AND pid_mask i = 0 \<longleftrightarrow> \<not> bit w (i mod 64)"
proof
  assume "w AND pid_mask i = 0"
  then have "\<not> bit (w AND pid_mask i) (i mod 64)" by simp
  then show "\<not> bit w (i mod 64)" by (simp add: bit_and_iff bit_pid_mask)
next
  assume "\<not> bit w (i mod 64)"
  then show "w AND pid_mask i = 0"
    by (intro bit_word_eqI) (auto simp: bit_and_iff bit_pid_mask)
qed

lemma same_bit: "i div 64 = j div 64 \<and> i mod 64 = j mod 64 \<longleftrightarrow> i = (j :: nat)"
  by (metis div_mult_mod_eq)

lemma in_use_set:
  assumes "i div 64 < length bm"
  shows "in_use (bm[i div 64 := bm ! (i div 64) OR pid_mask i]) j \<longleftrightarrow> in_use bm j \<or> j = i"
proof (cases "j div 64 = i div 64")
  case True
  then have "in_use (bm[i div 64 := bm ! (i div 64) OR pid_mask i]) j \<longleftrightarrow> in_use bm j \<or> j mod 64 = i mod 64"
    using assms by (simp add: in_use_def bit_or_iff bit_pid_mask)
  then show ?thesis using True same_bit by metis
next
  case False
  then show ?thesis using assms by (auto simp: in_use_def)
qed

lemma in_use_clear:
  assumes "i div 64 < length bm"
  shows "in_use (bm[i div 64 := bm ! (i div 64) AND NOT (pid_mask i)]) j \<longleftrightarrow> in_use bm j \<and> j \<noteq> i"
proof (cases "j div 64 = i div 64")
  case True
  then have "in_use (bm[i div 64 := bm ! (i div 64) AND NOT (pid_mask i)]) j \<longleftrightarrow> in_use bm j \<and> j mod 64 \<noteq> i mod 64"
    using assms by (simp add: in_use_def bit_and_iff bit_not_iff bit_pid_mask)
  then show ?thesis using True same_bit by metis
next
  case False
  then show ?thesis using assms by (auto simp: in_use_def)
qed

definition slot :: "pid_allocator \<Rightarrow> nat \<Rightarrow> nat" where
  "slot al k = (cursor al + k) mod limit al"

lemma slot_raw:
  "cursor al < limit al \<Longrightarrow> k < limit al \<Longrightarrow>
   slot al k = (if limit al \<le> cursor al + k then cursor al + k - limit al else cursor al + k)"
  by (simp add: slot_def le_mod_geq)

lemma slot_onto: "cursor al < limit al \<Longrightarrow> i < limit al \<Longrightarrow> \<exists>k<limit al. slot al k = i"
  by (rule exI [of _ "if cursor al \<le> i then i - cursor al else i + limit al - cursor al"]) (auto simp: slot_def)

text \<open>What taking the slot \<open>i\<close> does, and the outcome of the scan.\<close>

definition take_slot :: "pid_allocator \<Rightarrow> nat \<Rightarrow> pid_allocator" where
  "take_slot al i = al\<lparr>bitmap := Some ((the (bitmap al))[i div 64 := the (bitmap al) ! (i div 64) OR pid_mask i]),
     allocated := allocated al + 1, cursor := (if i + 1 = limit al then 0 else i + 1)\<rparr>"

lemma take_slot_ok:
  assumes "alloc_ok al" "i < limit al" "i \<notin> taken al"
  shows "alloc_ok (take_slot al i)" "taken (take_slot al i) = insert i (taken al)" "limit (take_slot al i) = limit al"
proof -
  obtain bm where bm: "bitmap al = Some bm" "pid_words (limit al) \<le> length bm" using assms(1) by (auto simp: alloc_ok_def)
  show t: "taken (take_slot al i) = insert i (taken al)"
    using assms(2) in_use_set [OF word_in_bitmap [OF assms(2) bm(2)]] by (auto simp: taken_def take_slot_def bm(1))
  show "limit (take_slot al i) = limit al" by (simp add: take_slot_def)
  have "card (taken (take_slot al i)) = allocated al + 1"
    using assms t taken_bounds(2) [of al] by (simp add: alloc_ok_def)
  then show "alloc_ok (take_slot al i)"
    using assms(1,2) bm by (auto simp: alloc_ok_def take_slot_def)
qed

lemma allocate_scan_spec:
  assumes ok: "alloc_ok al" and d: "d < limit al" "slot al d \<notin> taken al" "\<forall>k<d. slot al k \<in> taken al"
  shows "n \<le> d \<Longrightarrow> allocate_scan al (the (bitmap al)) n = Some (PID_OK, Some (int (slot al d + 1)), take_slot al (slot al d))"
proof (induction "d - n" arbitrary: n)
  case 0
  then have n: "n = d" by simp
  obtain bm where bm: "bitmap al = Some bm" "pid_words (limit al) \<le> length bm" using ok by (auto simp: alloc_ok_def)
  have c: "cursor al < limit al" using ok by (simp add: alloc_ok_def)
  have s: "slot al d < limit al" using c by (simp add: slot_def)
  have w: "slot al d div 64 < length bm" by (rule word_in_bitmap [OF s bm(2)])
  have f: "bm ! (slot al d div 64) AND pid_mask (slot al d) = 0"
    using d(2) s by (auto simp: taken_def bm(1) in_use_def and_pid_mask)
  show ?case
    using d(1) w f by (subst allocate_scan.simps) (simp add: n slot_raw [OF c d(1), symmetric] Let_def bm(1) take_slot_def)
next
  case (Suc m)
  then have n: "n < d" "m = d - Suc n" by simp_all
  then have lt: "n < limit al" using d(1) by simp
  obtain bm where bm: "bitmap al = Some bm" "pid_words (limit al) \<le> length bm" using ok by (auto simp: alloc_ok_def)
  have c: "cursor al < limit al" using ok by (simp add: alloc_ok_def)
  have s: "slot al n < limit al" using c by (simp add: slot_def)
  have w: "slot al n div 64 < length bm" by (rule word_in_bitmap [OF s bm(2)])
  have f: "bm ! (slot al n div 64) AND pid_mask (slot al n) \<noteq> 0"
    using d(3) n(1) by (auto simp: taken_def bm(1) in_use_def and_pid_mask)
  have "allocate_scan al bm n = allocate_scan al bm (n + 1)"
    using lt w f by (subst allocate_scan.simps) (simp add: slot_raw [OF c lt, symmetric] Let_def)
  then show ?case using Suc.hyps(1) [OF n(2)] n(1) by (simp add: bm(1))
qed

lemma allocate_full: "alloc_ok al \<Longrightarrow> taken al = {..<limit al} \<Longrightarrow> kernel_pid_allocate (Some al) True = Some (PID_EXHAUSTED, None, Some al)"
  using alloc_ok_valid [of al] by (simp add: kernel_pid_allocate_def alloc_ok_def)

lemma allocate_free:
  assumes ok: "alloc_ok al" and free: "taken al \<noteq> {..<limit al}"
  obtains d where "d < limit al" "slot al d \<notin> taken al" "\<forall>k<d. slot al k \<in> taken al"
    "kernel_pid_allocate (Some al) True = Some (PID_OK, Some (int (slot al d + 1)), Some (take_slot al (slot al d)))"
proof -
  obtain i where i: "i < limit al" "i \<notin> taken al" using free taken_bounds(1) [of al] by blast
  have c: "cursor al < limit al" using ok by (simp add: alloc_ok_def)
  define d where "d = (LEAST k. k < limit al \<and> slot al k \<notin> taken al)"
  obtain k where "k < limit al \<and> slot al k \<notin> taken al" using slot_onto [OF c i(1)] i(2) by blast
  then have d: "d < limit al \<and> slot al d \<notin> taken al" unfolding d_def by (rule LeastI)
  have m: "\<forall>k<d. slot al k \<in> taken al"
  proof (intro allI impI)
    fix k assume "k < d"
    then have "\<not> (k < limit al \<and> slot al k \<notin> taken al)" unfolding d_def by (rule not_less_Least)
    then show "slot al k \<in> taken al" using \<open>k < d\<close> d by auto
  qed
  have "card (taken al) < limit al" using psubset_card_mono [of "{..<limit al}" "taken al"] taken_bounds(1) [of al] free by auto
  then have "kernel_pid_allocate (Some al) True = Some (PID_OK, Some (int (slot al d + 1)), Some (take_slot al (slot al d)))"
    using alloc_ok_valid [OF ok] ok allocate_scan_spec [OF ok conjunct1 [OF d] conjunct2 [OF d] m, of 0]
    by (auto simp: kernel_pid_allocate_def alloc_ok_def)
  then show ?thesis using that d m by blast
qed

definition drop_slot :: "pid_allocator \<Rightarrow> nat \<Rightarrow> pid_allocator" where
  "drop_slot al i = al\<lparr>bitmap := Some ((the (bitmap al))[i div 64 := the (bitmap al) ! (i div 64) AND NOT (pid_mask i)]),
     allocated := allocated al - 1, cursor := min i (cursor al)\<rparr>"

lemma drop_slot_ok:
  assumes "alloc_ok al" "i \<in> taken al"
  shows "alloc_ok (drop_slot al i)" "taken (drop_slot al i) = taken al - {i}" "limit (drop_slot al i) = limit al"
    "kernel_pid_release (Some al) (int i + 1) = Some (PID_OK, Some (drop_slot al i))"
proof -
  obtain bm where bm: "bitmap al = Some bm" "pid_words (limit al) \<le> length bm" using assms(1) by (auto simp: alloc_ok_def)
  have i: "i < limit al" using assms(2) by (simp add: taken_def)
  have w: "i div 64 < length bm" by (rule word_in_bitmap [OF i bm(2)])
  show t: "taken (drop_slot al i) = taken al - {i}"
    using in_use_clear [OF w] by (auto simp: taken_def drop_slot_def bm(1))
  show "limit (drop_slot al i) = limit al" by (simp add: drop_slot_def)
  have "card (taken (drop_slot al i)) = allocated al - 1"
    using assms t taken_bounds(2) [of al] by (simp add: alloc_ok_def)
  then show "alloc_ok (drop_slot al i)" using assms(1) bm by (auto simp: alloc_ok_def drop_slot_def)
  have "bm ! (i div 64) AND pid_mask i \<noteq> 0" using assms(2) by (simp add: taken_def bm(1) in_use_def and_pid_mask)
  moreover have "allocated al \<noteq> 0" using assms taken_bounds(2) [of al] by (auto simp: alloc_ok_def)
  ultimately show "kernel_pid_release (Some al) (int i + 1) = Some (PID_OK, Some (drop_slot al i))"
    using alloc_ok_valid [OF assms(1)] i w
    by (simp add: kernel_pid_release_def Let_def bm(1) nat_add_distrib drop_slot_def min_def)
qed

lemma release_free:
  assumes "alloc_ok al" "p \<le> 0 \<or> nat p - 1 \<notin> taken al"
  shows "kernel_pid_release (Some al) p =
    Some (if p \<le> 0 \<or> limit al < nat p then PID_INVALID else PID_NOT_ALLOCATED, Some al)"
proof -
  obtain bm where bm: "bitmap al = Some bm" "pid_words (limit al) \<le> length bm" using assms(1) by (auto simp: alloc_ok_def)
  show ?thesis
  proof (cases "p \<le> 0 \<or> limit al < nat p")
    case True
    then show ?thesis using alloc_ok_valid [OF assms(1)] by (auto simp: kernel_pid_release_def Let_def)
  next
    case False
    then have i: "nat p - 1 < limit al" by linarith
    have w: "(nat p - 1) div 64 < length bm" by (rule word_in_bitmap [OF i bm(2)])
    have "bm ! ((nat p - 1) div 64) AND pid_mask (nat p - 1) = 0"
      using assms(2) False i by (simp add: taken_def bm(1) in_use_def and_pid_mask)
    then show ?thesis using alloc_ok_valid [OF assms(1)] i w False by (simp add: kernel_pid_release_def Let_def bm(1))
  qed
qed

lemma clear_words_spec: "n \<le> length bm \<Longrightarrow> clear_words bm n = Some (replicate n 0 @ drop n bm)"
  by (induction bm n rule: clear_words.induct) auto

lemma init_ok:
  assumes "0 < lim" "lim \<le> int32_max" "pid_words lim \<le> length words"
  obtains al where "kernel_pid_allocator_init (Some \<lparr>bitmap = None, limit = 0, cursor = 0, allocated = 0, initialized = 0\<rparr>) (Some words) lim =
    Some (PID_OK, Some al)" "alloc_ok al" "taken al = {}" "limit al = lim"
proof -
  define al where "al = \<lparr>bitmap = Some (replicate (pid_words lim) 0 @ drop (pid_words lim) words), limit = lim, cursor = 0,
    allocated = 0, initialized = pid_magic\<rparr>"
  have t: "taken al = {}" using word_in_bitmap [of _ lim "pid_words lim"] by (auto simp: taken_def al_def in_use_def nth_append)
  moreover have "alloc_ok al" unfolding alloc_ok_def t using assms by (simp add: al_def)
  moreover have "kernel_pid_allocator_init (Some \<lparr>bitmap = None, limit = 0, cursor = 0, allocated = 0, initialized = 0\<rparr>) (Some words) lim =
      Some (PID_OK, Some al)"
    using assms by (simp add: kernel_pid_allocator_init_def clear_words_spec al_def)
  ultimately show ?thesis using that by (simp add: al_def)
qed

end
