(* ===== verification/Pid_Registry.thy ===== *)
theory Pid_Registry
  imports Pid_Allocator
begin

text \<open>
  The identity registry of \<^verbatim>\<open>src/kernel/pid.c\<close> over the number allocator. The scheduler owns the only
  registry, so the registry pointer of an identity is a truth value, and the \<^verbatim>\<open>registry\<close> argument is
  the state \<open>pid_world\<close> itself: the allocator, the 256 hash buckets, the retired list, and the identity
  and member objects by address. The fixed arrays \<^verbatim>\<open>buckets\<close> and \<^verbatim>\<open>members\<close> are functions of the index,
  which the code keeps in range. \<open>None\<close> is a trap, the access to an address that holds no object, or a
  list walk that does not end.
\<close>

record kernel_pid =
  number :: int
  references :: nat
  generation :: u64
  published :: nat
  registry :: bool
  hash_next :: ptr
  members :: "nat \<Rightarrow> ptr"

record kernel_pid_member =
  identity :: ptr
  previous :: ptr
  next_member :: ptr
  task :: ptr
  role :: nat

record pid_world =
  numbers :: "pid_allocator option"
  buckets :: "nat \<Rightarrow> ptr"
  retired :: ptr
  next_generation :: u64
  pids :: "ptr \<rightharpoonup> kernel_pid"
  links :: "ptr \<rightharpoonup> kernel_pid_member"

abbreviation pid_roles :: nat where
  "pid_roles \<equiv> 4"

abbreviation generation_max :: u64 where
  "generation_max \<equiv> drop_bit 30 (- 1)"

definition bucket_of :: "int \<Rightarrow> nat" where
  "bucket_of n = nat n mod 256"

partial_function (option) find_loop :: "(ptr \<rightharpoonup> kernel_pid) \<Rightarrow> ptr \<Rightarrow> int \<Rightarrow> ptr option" where
  "find_loop h p n =
     (if p = 0 then Some 0
      else do {
        id \<leftarrow> h p;
        if number id = n then Some p else find_loop h (hash_next id) n
      })"

definition kernel_pid_find :: "pid_world \<Rightarrow> int \<Rightarrow> ptr option" where
  "kernel_pid_find w n = (if n \<le> 0 then Some 0 else find_loop (pids w) (buckets w (bucket_of n)) n)"

partial_function (option) lowest_bit :: "u64 \<Rightarrow> nat \<Rightarrow> nat option" where
  "lowest_bit low b = (if low AND 1 = 0 then lowest_bit (drop_bit 1 low) (b + 1) else Some b)"

partial_function (option) next_scan :: "pid_world \<Rightarrow> nat \<Rightarrow> u64 list \<Rightarrow> nat \<Rightarrow> u64 \<Rightarrow> ptr option" where
  "next_scan w lim bm wd bits =
     (if bits \<noteq> 0 then do {
        b \<leftarrow> lowest_bit bits 0;
        (let index = wd * 64 + b in
           if lim \<le> index then Some 0
           else do {
             p \<leftarrow> kernel_pid_find w (int (index + 1));
             if p \<noteq> 0 then Some p else next_scan w lim bm wd (bits AND (bits - 1))
           })
      }
      else if pid_words lim \<le> wd + 1 then Some 0
      else if length bm \<le> wd + 1 then None
      else next_scan w lim bm (wd + 1) (bm ! (wd + 1)))"

definition kernel_pid_next_published :: "pid_world \<Rightarrow> int \<Rightarrow> ptr option" where
  "kernel_pid_next_published w after =
     (if \<not> valid_allocator (numbers w) \<or> after < 0 \<or> limit (the (numbers w)) \<le> nat after then Some 0
      else
        let al = the (numbers w); bm = the (bitmap al); wd = nat after div 64
        in if length bm \<le> wd then None
           else next_scan w (limit al) bm wd (bm ! wd AND push_bit (nat after mod 64) (- 1)))"

section \<open>Reservation and publication\<close>

definition kernel_pid_reserve :: "pid_world \<Rightarrow> ptr \<Rightarrow> (pid_status \<times> pid_world) option" where
  "kernel_pid_reserve w prepared =
     (if prepared = 0 then Some (PID_STATE, w)
      else do {
        id \<leftarrow> pids w prepared;
        if registry id \<or> published id \<noteq> 0 \<or> next_generation w = 0 then Some (PID_STATE, w)
        else if generation_max < next_generation w then Some (PID_EXHAUSTED, w)
        else do {
          (status, n, al) \<leftarrow> kernel_pid_allocate (numbers w) True;
          if status \<noteq> PID_OK then Some (status, w\<lparr>numbers := al\<rparr>)
          else do {
            n \<leftarrow> n;
            Some (PID_OK, w\<lparr>numbers := al, next_generation := next_generation w + 1,
              pids := (pids w)(prepared \<mapsto> id\<lparr>number := n, generation := next_generation w, references := 1, registry := True\<rparr>)\<rparr>)
          }
        }
      })"

definition kernel_pid_publish_reserved :: "pid_world \<Rightarrow> ptr \<Rightarrow> (pid_status \<times> pid_world) option" where
  "kernel_pid_publish_reserved w prepared =
     (if prepared = 0 then Some (PID_STATE, w)
      else do {
        id \<leftarrow> pids w prepared;
        if \<not> registry id \<or> references id = 0 \<or> published id \<noteq> 0 then Some (PID_STATE, w)
        else do {
          found \<leftarrow> kernel_pid_find w (number id);
          if found \<noteq> 0 \<or> hash_next id \<noteq> 0 then None
          else Some (PID_OK, w\<lparr>
            pids := (pids w)(prepared \<mapsto> id\<lparr>hash_next := buckets w (bucket_of (number id)), published := 1\<rparr>),
            buckets := (buckets w)(bucket_of (number id) := prepared)\<rparr>)
        }
      })"

definition kernel_pid_publish :: "pid_world \<Rightarrow> ptr \<Rightarrow> (pid_status \<times> pid_world) option" where
  "kernel_pid_publish w prepared = do {
     (status, w1) \<leftarrow> kernel_pid_reserve w prepared;
     if status \<noteq> PID_OK then Some (status, w1) else kernel_pid_publish_reserved w1 prepared
   }"

section \<open>References\<close>

definition kernel_pid_get :: "pid_world \<Rightarrow> ptr \<Rightarrow> pid_world option" where
  "kernel_pid_get w p =
     (if p = 0 then None
      else do {
        id \<leftarrow> pids w p;
        if \<not> registry id \<or> 2 < published id \<or> references id = 0 \<or> references id = uint32_max then None
        else Some (w\<lparr>pids := (pids w)(p \<mapsto> id\<lparr>references := references id + 1\<rparr>)\<rparr>)
      })"

text \<open>The walk to the link that holds \<open>target\<close>: \<open>0\<close> is the bucket head, otherwise the preceding identity.\<close>

partial_function (option) find_link :: "(ptr \<rightharpoonup> kernel_pid) \<Rightarrow> ptr \<Rightarrow> ptr \<Rightarrow> ptr \<Rightarrow> ptr option" where
  "find_link h prev cur target =
     (if cur = 0 then None
      else if cur = target then Some prev
      else do { c \<leftarrow> h cur; find_link h cur (hash_next c) target })"

definition unlink_identity :: "pid_world \<Rightarrow> ptr \<Rightarrow> kernel_pid \<Rightarrow> pid_world option" where
  "unlink_identity w p e =
     (let b = bucket_of (number e) in do {
        prev \<leftarrow> find_link (pids w) 0 (buckets w b) p;
        if prev = 0 then Some (w\<lparr>buckets := (buckets w)(b := hash_next e)\<rparr>)
        else do {
          c \<leftarrow> pids w prev;
          Some (w\<lparr>pids := (pids w)(prev \<mapsto> c\<lparr>hash_next := hash_next e\<rparr>)\<rparr>)
        }
      })"

definition detach_number :: "pid_world \<Rightarrow> ptr \<Rightarrow> pid_world option" where
  "detach_number w p = do {
     id \<leftarrow> pids w p;
     w1 \<leftarrow> (if published id = 1 then unlink_identity w p id
            else if published id \<noteq> 0 \<or> hash_next id \<noteq> 0 then None else Some w);
     (status, al) \<leftarrow> kernel_pid_release (numbers w1) (number id);
     if status \<noteq> PID_OK then None
     else Some (w1\<lparr>numbers := al, pids := (pids w1)(p \<mapsto> id\<lparr>hash_next := 0, published := 2\<rparr>)\<rparr>)
   }"

definition kernel_pid_put :: "pid_world \<Rightarrow> ptr \<Rightarrow> pid_world option" where
  "kernel_pid_put w p =
     (if p = 0 then None
      else do {
        id \<leftarrow> pids w p;
        if \<not> registry id \<or> 2 < published id \<or> references id = 0 then None
        else
          let w1 = w\<lparr>pids := (pids w)(p \<mapsto> id\<lparr>references := references id - 1\<rparr>)\<rparr>
          in if references id - 1 \<noteq> 0 then Some w1
             else if list_ex (\<lambda>r. members id r \<noteq> 0) [0..<pid_roles] then None
             else do {
               w2 \<leftarrow> (if published id \<noteq> 2 then detach_number w1 p else Some w1);
               id2 \<leftarrow> pids w2 p;
               Some (w2\<lparr>pids := (pids w2)(p \<mapsto> id2\<lparr>published := 3, registry := False, hash_next := retired w2\<rparr>), retired := p\<rparr>)
             }
      })"

section \<open>Members\<close>

definition set_link :: "pid_world \<Rightarrow> ptr \<Rightarrow> (kernel_pid_member \<Rightarrow> kernel_pid_member) \<Rightarrow> pid_world option" where
  "set_link w m f = do { x \<leftarrow> links w m; Some (w\<lparr>links := (links w)(m \<mapsto> f x)\<rparr>) }"

definition set_pid :: "pid_world \<Rightarrow> ptr \<Rightarrow> (kernel_pid \<Rightarrow> kernel_pid) \<Rightarrow> pid_world option" where
  "set_pid w p f = do { x \<leftarrow> pids w p; Some (w\<lparr>pids := (pids w)(p \<mapsto> f x)\<rparr>) }"

definition kernel_pid_attach :: "pid_world \<Rightarrow> ptr \<Rightarrow> ptr \<Rightarrow> nat \<Rightarrow> ptr \<Rightarrow> pid_world option" where
  "kernel_pid_attach w m p r t =
     (if m = 0 then None
      else do {
        x \<leftarrow> links w m;
        if identity x \<noteq> 0 \<or> t = 0 \<or> pid_roles \<le> r \<or> p = 0 then None
        else do {
          id \<leftarrow> pids w p;
          if 1 < published id then None
          else do {
            w1 \<leftarrow> kernel_pid_get w p;
            id1 \<leftarrow> pids w1 p;
            w2 \<leftarrow> set_link w1 m (\<lambda>x. x\<lparr>identity := p, role := r, task := t, previous := 0, next_member := members id1 r\<rparr>);
            w3 \<leftarrow> (if members id1 r \<noteq> 0 then set_link w2 (members id1 r) (\<lambda>y. y\<lparr>previous := m\<rparr>) else Some w2);
            set_pid w3 p (\<lambda>id. id\<lparr>members := (members id)(r := m)\<rparr>)
          }
        }
      })"

definition kernel_pid_detach :: "pid_world \<Rightarrow> ptr \<Rightarrow> pid_world option" where
  "kernel_pid_detach w m =
     (if m = 0 then None
      else do {
        x \<leftarrow> links w m;
        if identity x = 0 then None
        else do {
          w1 \<leftarrow> (if previous x \<noteq> 0 then set_link w (previous x) (\<lambda>y. y\<lparr>next_member := next_member x\<rparr>)
                 else set_pid w (identity x) (\<lambda>id. id\<lparr>members := (members id)(role x := next_member x)\<rparr>));
          w2 \<leftarrow> (if next_member x \<noteq> 0 then set_link w1 (next_member x) (\<lambda>y. y\<lparr>previous := previous x\<rparr>) else Some w1);
          w3 \<leftarrow> set_link w2 m (\<lambda>y. y\<lparr>identity := 0, task := 0, next_member := 0, previous := 0\<rparr>);
          id \<leftarrow> pids w3 (identity x);
          w4 \<leftarrow> (if published id = 1 \<and> list_all (\<lambda>r. members id r = 0) [0..<pid_roles]
                 then detach_number w3 (identity x) else Some w3);
          kernel_pid_put w4 (identity x)
        }
      })"

definition kernel_pid_transfer :: "pid_world \<Rightarrow> ptr \<Rightarrow> ptr \<Rightarrow> ptr \<Rightarrow> pid_world option" where
  "kernel_pid_transfer w old replacement t =
     (if old = 0 \<or> replacement = 0 then None
      else do {
        x \<leftarrow> links w old;
        y \<leftarrow> links w replacement;
        if identity x = 0 \<or> identity y \<noteq> 0 \<or> t = 0 then None
        else do {
          w1 \<leftarrow> set_link w replacement (\<lambda>_. x\<lparr>task := t\<rparr>);
          w2 \<leftarrow> (if previous x \<noteq> 0 then set_link w1 (previous x) (\<lambda>z. z\<lparr>next_member := replacement\<rparr>)
                 else set_pid w1 (identity x) (\<lambda>id. id\<lparr>members := (members id)(role x := replacement)\<rparr>));
          w3 \<leftarrow> (if next_member x \<noteq> 0 then set_link w2 (next_member x) (\<lambda>z. z\<lparr>previous := replacement\<rparr>) else Some w2);
          set_link w3 old (\<lambda>z. z\<lparr>identity := 0, task := 0, next_member := 0, previous := 0\<rparr>)
        }
      })"

definition kernel_pid_take_retired :: "pid_world \<Rightarrow> (ptr \<times> pid_world) option" where
  "kernel_pid_take_retired w =
     (if retired w = 0 then Some (0, w)
      else do {
        id \<leftarrow> pids w (retired w);
        if published id \<noteq> 3 then None
        else Some (retired w, w\<lparr>retired := hash_next id, pids := (pids w)(retired w \<mapsto> id\<lparr>hash_next := 0, published := 0\<rparr>)\<rparr>)
      })"

end
