(* ===== verification/Pid_Chain.thy ===== *)
theory Pid_Chain
  imports Pid_Registry
begin

text \<open>
  The linked lists of the identity registry as lists of addresses: the hash chains and the retired
  list through \<^verbatim>\<open>hash_next\<close>, and the doubly linked member lists of an identity and role.
\<close>

section \<open>Singly linked chains\<close>

primrec chain :: "(ptr \<rightharpoonup> kernel_pid) \<Rightarrow> ptr \<Rightarrow> ptr list \<Rightarrow> bool" where
  "chain h p [] \<longleftrightarrow> p = 0"
| "chain h p (x # xs) \<longleftrightarrow> p = x \<and> x \<noteq> 0 \<and> (\<exists>e. h x = Some e \<and> chain h (hash_next e) xs)"

lemma chain_frame [simp]: "x \<notin> set xs \<Longrightarrow> chain (h(x \<mapsto> e)) p xs = chain h p xs"
  by (induction xs arbitrary: p) auto

lemma chain_same_next: "h x = Some e \<Longrightarrow> hash_next e' = hash_next e \<Longrightarrow> chain (h(x \<mapsto> e')) p xs = chain h p xs"
  by (induction xs arbitrary: p) auto

lemma chain_null [simp]: "chain h 0 xs \<longleftrightarrow> xs = []"
  by (cases xs) auto

lemma find_loop_chain:
  "chain h p xs \<Longrightarrow> find_loop h p n = Some (case find (\<lambda>x. number (the (h x)) = n) xs of None \<Rightarrow> 0 | Some x \<Rightarrow> x)"
proof (induction xs arbitrary: p)
  case Nil
  then show ?case by (subst find_loop.simps) simp
next
  case (Cons x xs)
  then obtain e where e: "p = x" "x \<noteq> 0" "h x = Some e" "chain h (hash_next e) xs" by auto
  show ?case using e Cons.IH [OF e(4)] by (subst find_loop.simps) simp
qed

lemma find_link_chain:
  "chain h p (as @ t # bs) \<Longrightarrow> t \<notin> set as \<Longrightarrow> find_link h prev p t = Some (last (prev # as))"
proof (induction as arbitrary: p prev)
  case Nil
  then show ?case by (subst find_link.simps) simp
next
  case (Cons x as)
  then obtain e where e: "p = x" "x \<noteq> 0" "h x = Some e" "chain h (hash_next e) (as @ t # bs)" by auto
  have "find_link h x (hash_next e) t = Some (last (x # as))" using Cons.IH [OF e(4)] Cons.prems by simp
  then show ?case using e Cons.prems(2) by (subst find_link.simps) auto
qed

lemma chain_unlink:
  assumes "chain h p (as @ t # bs)" "distinct (as @ t # bs)" "h t = Some e"
  shows "as = [] \<Longrightarrow> p = t \<and> chain h (hash_next e) bs"
    and "as \<noteq> [] \<Longrightarrow> h (last as) = Some c \<Longrightarrow> chain (h(last as \<mapsto> c\<lparr>hash_next := hash_next e\<rparr>)) p (as @ bs)"
proof -
  show "as = [] \<Longrightarrow> p = t \<and> chain h (hash_next e) bs" using assms by simp
  show "as \<noteq> [] \<Longrightarrow> h (last as) = Some c \<Longrightarrow> chain (h(last as \<mapsto> c\<lparr>hash_next := hash_next e\<rparr>)) p (as @ bs)"
    using assms(1,2)
  proof (induction as arbitrary: p)
    case (Cons x as)
    then obtain d where d: "p = x" "x \<noteq> 0" "h x = Some d" "chain h (hash_next d) (as @ t # bs)" by auto
    show ?case
    proof (cases "as = []")
      case True
      then have "x \<notin> set bs" "chain h (hash_next e) bs" using d assms(3) Cons.prems by auto
      then have "chain (h(x \<mapsto> c\<lparr>hash_next := hash_next e\<rparr>)) (hash_next e) bs" using chain_frame by blast
      then show ?thesis using d True by (simp del: fun_upd_apply add: fun_upd_same)
    next
      case False
      then have "chain (h(last as \<mapsto> c\<lparr>hash_next := hash_next e\<rparr>)) (hash_next d) (as @ bs)"
        using Cons.IH [OF False _ d(4)] Cons.prems False by (simp add: fun_upd_def)
      moreover have "last as \<noteq> x" using False Cons.prems(4) by (metis distinct.simps(2) last_in_set append_Cons in_set_conv_decomp append_is_Nil_conv UnI1 set_append)
      ultimately show ?thesis using d False by (simp add: fun_upd_def)
    qed
  qed simp
qed

section \<open>Doubly linked member lists\<close>

primrec dchain :: "(ptr \<rightharpoonup> kernel_pid_member) \<Rightarrow> ptr \<Rightarrow> nat \<Rightarrow> ptr \<Rightarrow> ptr \<Rightarrow> ptr list \<Rightarrow> bool" where
  "dchain l p r prev cur [] \<longleftrightarrow> cur = 0"
| "dchain l p r prev cur (m # ms) \<longleftrightarrow> cur = m \<and> m \<noteq> 0 \<and>
     (\<exists>x. l m = Some x \<and> identity x = p \<and> role x = r \<and> previous x = prev \<and> task x \<noteq> 0 \<and> dchain l p r m (next_member x) ms)"

lemma dchain_frame [simp]: "m \<notin> set ms \<Longrightarrow> dchain (l(m \<mapsto> x)) p r prev cur ms = dchain l p r prev cur ms"
  by (induction ms arbitrary: prev cur) auto

lemma dchain_cong: "(\<And>m. m \<in> set ms \<Longrightarrow> l' m = l m) \<Longrightarrow> dchain l' p r prev cur ms = dchain l p r prev cur ms"
  by (induction ms arbitrary: prev cur) auto

lemma dchain_ids: "dchain l p r prev cur ms \<Longrightarrow> m \<in> set ms \<Longrightarrow> \<exists>x. l m = Some x \<and> identity x = p \<and> role x = r"
  by (induction ms arbitrary: prev cur) auto

lemma dchain_null [simp]: "dchain l p r prev 0 ms \<longleftrightarrow> ms = []"
  by (cases ms) auto

text \<open>Pushing a member, unlinking one, and replacing one by another.\<close>

lemma dchain_push:
  assumes "dchain l p r 0 cur ms" "m \<notin> set ms" "m \<noteq> 0" "distinct ms" "identity x = p" "role x = r" "task x \<noteq> 0" "previous x = 0" "next_member x = cur"
  shows "cur = 0 \<Longrightarrow> dchain (l(m \<mapsto> x)) p r 0 m (m # ms)"
    and "l cur = Some y \<Longrightarrow> cur \<noteq> 0 \<Longrightarrow> dchain (l(m \<mapsto> x, cur \<mapsto> y\<lparr>previous := m\<rparr>)) p r 0 m (m # ms)"
proof -
  show "cur = 0 \<Longrightarrow> dchain (l(m \<mapsto> x)) p r 0 m (m # ms)" using assms by (cases ms) auto
  assume y: "l cur = Some y" "cur \<noteq> 0"
  then obtain ns where ns: "ms = cur # ns" using assms(1) by (cases ms) auto
  then show "dchain (l(m \<mapsto> x, cur \<mapsto> y\<lparr>previous := m\<rparr>)) p r 0 m (m # ms)" using assms y by auto
qed

text \<open>The map after a member \<open>m\<close> with contents \<open>x\<close> is taken out or replaced by \<open>q\<close>, apart from the head pointer.\<close>

definition bypass :: "(ptr \<rightharpoonup> kernel_pid_member) \<Rightarrow> kernel_pid_member \<Rightarrow> (ptr \<rightharpoonup> kernel_pid_member)" where
  "bypass l x =
     (let l1 = (if previous x \<noteq> 0 then l(previous x \<mapsto> (the (l (previous x)))\<lparr>next_member := next_member x\<rparr>) else l)
      in if next_member x \<noteq> 0 then l1(next_member x \<mapsto> (the (l1 (next_member x)))\<lparr>previous := previous x\<rparr>) else l1)"

lemma dchain_next: "dchain l p r prev cur (as @ m # bs) \<Longrightarrow> l m = Some x \<Longrightarrow> dchain l p r m (next_member x) bs"
  by (induction as arbitrary: prev cur) auto

lemma dchain_next_in: "dchain l p r prev cur (as @ m # bs) \<Longrightarrow> l m = Some x \<Longrightarrow> next_member x = 0 \<or> next_member x \<in> set bs"
  using dchain_next [of l p r prev cur as m bs x] by (cases bs) auto

lemma dchain_bypass:
  assumes "dchain l p r prev cur (as @ m # bs)" "distinct (as @ m # bs)" "prev \<notin> set (as @ m # bs)" "l m = Some x"
    "prev \<noteq> 0 \<Longrightarrow> l prev = Some z"
  shows "previous x = last (prev # as)"
    "dchain (bypass l x) p r prev (if as = [] then next_member x else cur) (as @ bs)"
  using assms
proof (induction as arbitrary: prev cur z)
  case Nil
  { case 1 then show ?case by auto }
  { case 2
    then have c: "previous x = prev" "dchain l p r m (next_member x) bs" "m \<notin> set bs" "prev \<notin> set bs" by auto
    show ?case
    proof (cases bs)
      case Nil
      then show ?thesis using c by simp
    next
      case (Cons n ns)
      then obtain y where y: "next_member x = n" "n \<noteq> 0" "l n = Some y" "dchain l p r n (next_member y) ns" "identity y = p" "role y = r" "task y \<noteq> 0"
        using c by auto
      have n: "n \<noteq> prev" "n \<notin> set ns" "prev \<notin> set ns" using Cons c(4) 2(2) by auto
      have b: "bypass l x n = Some (y\<lparr>previous := prev\<rparr>)" using y c(1) n(1) by (simp add: bypass_def Let_def)
      have "dchain (bypass l x) p r n (next_member y) ns = dchain l p r n (next_member y) ns"
        by (rule dchain_cong) (use y(1) c(1) n in \<open>auto simp: bypass_def Let_def\<close>)
      then show ?thesis using y b Cons by simp
    qed }
next
  case (Cons a as)
  { case 1
    then obtain y where y: "cur = a" "a \<noteq> 0" "l a = Some y" "dchain l p r a (next_member y) (as @ m # bs)" by auto
    show ?case using Cons.IH(1) [OF y(4)] 1 y by auto }
  { case 2
    then obtain y where y: "cur = a" "a \<noteq> 0" "l a = Some y" "identity y = p" "role y = r" "previous y = prev" "task y \<noteq> 0"
      "dchain l p r a (next_member y) (as @ m # bs)" by auto
    have px: "previous x = last (a # as)" and IH: "dchain (bypass l x) p r a (if as = [] then next_member x else next_member y) (as @ bs)"
      using Cons.IH [OF y(8)] 2 y by auto
    have nx: "next_member x \<noteq> a" using dchain_next_in [OF y(8) 2(4)] y(2) 2(2) by auto
    have "bypass l x a = Some (if as = [] then y\<lparr>next_member := next_member x\<rparr> else y)"
    proof (cases "as = []")
      case True then show ?thesis using px nx y(2,3) by (simp add: bypass_def Let_def)
    next
      case False
      then have "previous x \<noteq> a" using px 2(2) last_in_set [of as] by auto
      then show ?thesis using False nx y(3) by (simp add: bypass_def Let_def)
    qed
    then show ?case using IH y by auto }
qed

definition swap_link :: "(ptr \<rightharpoonup> kernel_pid_member) \<Rightarrow> kernel_pid_member \<Rightarrow> ptr \<Rightarrow> ptr \<Rightarrow> (ptr \<rightharpoonup> kernel_pid_member)" where
  "swap_link l x q t =
     (let l0 = l(q \<mapsto> x\<lparr>task := t\<rparr>);
          l1 = (if previous x \<noteq> 0 then l0(previous x \<mapsto> (the (l0 (previous x)))\<lparr>next_member := q\<rparr>) else l0)
      in if next_member x \<noteq> 0 then l1(next_member x \<mapsto> (the (l1 (next_member x)))\<lparr>previous := q\<rparr>) else l1)"

lemma dchain_swap:
  assumes "dchain l p r prev cur (as @ m # bs)" "distinct (as @ m # bs)" "prev \<notin> set (as @ m # bs)" "l m = Some x"
    "q \<notin> set (as @ m # bs)" "q \<noteq> prev" "q \<noteq> 0" "t \<noteq> 0"
  shows "dchain (swap_link l x q t) p r prev (if as = [] then q else cur) (as @ q # bs)"
  using assms
proof (induction as arbitrary: prev cur)
  case Nil
  then have c: "previous x = prev" "identity x = p" "role x = r" "dchain l p r m (next_member x) bs" "m \<notin> set bs" "prev \<notin> set bs" "q \<notin> set bs" by auto
  have nx: "next_member x \<noteq> q" using dchain_next_in [OF Nil(1) Nil(4)] c(7) Nil(7) by auto
  have sq: "swap_link l x q t q = Some (x\<lparr>task := t\<rparr>)" using nx c(1) Nil(6) by (simp add: swap_link_def Let_def)
  show ?case
  proof (cases bs)
    case Nil
    then show ?thesis using c sq assms(7,8) by simp
  next
    case (Cons n ns)
    then obtain y where y: "next_member x = n" "n \<noteq> 0" "l n = Some y" "dchain l p r n (next_member y) ns" "identity y = p" "role y = r" "task y \<noteq> 0"
      using c by auto
    have n: "n \<noteq> prev" "n \<notin> set ns" "prev \<notin> set ns" "n \<noteq> q" "q \<notin> set ns" using Cons c(6,7) Nil(2) by auto
    have b: "swap_link l x q t n = Some (y\<lparr>previous := q\<rparr>)" using y c(1) n by (simp add: swap_link_def Let_def)
    have "dchain (swap_link l x q t) p r n (next_member y) ns = dchain l p r n (next_member y) ns"
      by (rule dchain_cong) (use y(1) c(1) n in \<open>auto simp: swap_link_def Let_def\<close>)
    then show ?thesis using y b c sq Cons assms(7,8) by simp
  qed
next
  case (Cons a as)
  then obtain y where y: "cur = a" "a \<noteq> 0" "l a = Some y" "identity y = p" "role y = r" "previous y = prev" "task y \<noteq> 0"
    "dchain l p r a (next_member y) (as @ m # bs)" by auto
  have px: "previous x = last (a # as)"
    by (rule dchain_bypass(1) [OF y(8) _ _ Cons.prems(4) y(3)]) (use Cons.prems(2) in auto)
  have IH: "dchain (swap_link l x q t) p r a (if as = [] then q else next_member y) (as @ q # bs)"
    by (rule Cons.IH [OF y(8)]) (use Cons.prems in auto)
  have nx: "next_member x \<noteq> a" using dchain_next_in [OF y(8) Cons.prems(4)] y(2) Cons.prems(2) by auto
  have "swap_link l x q t a = Some (if as = [] then y\<lparr>next_member := q\<rparr> else y)"
  proof (cases "as = []")
    case True then show ?thesis using px nx y(2,3) Cons.prems(5) by (simp add: swap_link_def Let_def)
  next
    case False
    then have "previous x \<noteq> a" using px Cons.prems(2) last_in_set [of as] by auto
    then show ?thesis using False nx y(3) Cons.prems(5) by (simp add: swap_link_def Let_def)
  qed
  then show ?case using IH y by auto
qed

end
