(* ===== verification/Pid_Invariant.thy ===== *)
theory Pid_Invariant
  imports Pid_Chain
begin

text \<open>
  The invariant of the identity registry. The hash chains hold exactly the published identities, the
  retired list exactly the retired ones; the numbers in use are exactly those of the live identities,
  which do not share one; generations of registered identities are distinct and below the next one;
  and every member list of an identity is a well-linked list of the members that name it.
\<close>

definition kind_ok :: "kernel_pid \<Rightarrow> bool" where
  "kind_ok e \<longleftrightarrow> published e \<le> 3 \<and> (published e = 0 \<or> published e = 2 \<longrightarrow> hash_next e = 0) \<and>
     (published e = 1 \<or> published e = 2 \<longrightarrow> registry e) \<and> (published e = 3 \<longrightarrow> \<not> registry e)"

definition kinds :: "(ptr \<rightharpoonup> kernel_pid) \<Rightarrow> bool" where
  "kinds h \<longleftrightarrow> h 0 = None \<and> (\<forall>p e. h p = Some e \<longrightarrow> kind_ok e)"

definition hash_inv :: "(ptr \<rightharpoonup> kernel_pid) \<Rightarrow> (nat \<Rightarrow> ptr) \<Rightarrow> (nat \<Rightarrow> ptr list) \<Rightarrow> bool" where
  "hash_inv h bk C \<longleftrightarrow> (\<forall>b. chain h (bk b) (C b) \<and> distinct (C b) \<and>
     (\<forall>p. p \<in> set (C b) \<longleftrightarrow> (\<exists>e. h p = Some e \<and> published e = 1 \<and> bucket_of (number e) = b)))"

definition retired_inv :: "(ptr \<rightharpoonup> kernel_pid) \<Rightarrow> ptr \<Rightarrow> ptr list \<Rightarrow> bool" where
  "retired_inv h rt R \<longleftrightarrow> chain h rt R \<and> distinct R \<and> (\<forall>p. p \<in> set R \<longleftrightarrow> (\<exists>e. h p = Some e \<and> published e = 3))"

definition live :: "kernel_pid \<Rightarrow> bool" where
  "live e \<longleftrightarrow> registry e \<and> published e < 2"

definition number_inv :: "(ptr \<rightharpoonup> kernel_pid) \<Rightarrow> pid_allocator \<Rightarrow> bool" where
  "number_inv h al \<longleftrightarrow> alloc_ok al \<and>
     (\<forall>p e. h p = Some e \<longrightarrow> live e \<longrightarrow> 0 < number e \<and> nat (number e) - 1 \<in> taken al) \<and>
     (\<forall>p q e f. h p = Some e \<longrightarrow> h q = Some f \<longrightarrow> live e \<longrightarrow> live f \<longrightarrow> number e = number f \<longrightarrow> p = q) \<and>
     (\<forall>i\<in>taken al. \<exists>p e. h p = Some e \<and> live e \<and> number e = int i + 1)"

definition gen_inv :: "(ptr \<rightharpoonup> kernel_pid) \<Rightarrow> u64 \<Rightarrow> bool" where
  "gen_inv h g \<longleftrightarrow> g \<noteq> 0 \<and> g \<le> generation_max + 1 \<and>
     (\<forall>p e. h p = Some e \<longrightarrow> registry e \<longrightarrow> generation e < g) \<and>
     (\<forall>p q e f. h p = Some e \<longrightarrow> h q = Some f \<longrightarrow> registry e \<longrightarrow> registry f \<longrightarrow> generation e = generation f \<longrightarrow> p = q)"

definition fam :: "(ptr \<rightharpoonup> kernel_pid_member) \<Rightarrow> ptr \<Rightarrow> ptr set" where
  "fam l p = {m. \<exists>x. l m = Some x \<and> identity x = p}"

definition sibs :: "(ptr \<rightharpoonup> kernel_pid_member) \<Rightarrow> ptr \<Rightarrow> nat \<Rightarrow> ptr set" where
  "sibs l p r = {m. \<exists>x. l m = Some x \<and> identity x = p \<and> role x = r}"

definition member_inv :: "(ptr \<rightharpoonup> kernel_pid) \<Rightarrow> (ptr \<rightharpoonup> kernel_pid_member) \<Rightarrow> (ptr \<Rightarrow> nat \<Rightarrow> ptr list) \<Rightarrow> bool" where
  "member_inv h l M \<longleftrightarrow> l 0 = None \<and>
     (\<forall>p e r. h p = Some e \<longrightarrow> r < pid_roles \<longrightarrow>
        dchain l p r 0 (members e r) (M p r) \<and> distinct (M p r) \<and> set (M p r) = sibs l p r) \<and>
     (\<forall>m x. l m = Some x \<longrightarrow> identity x \<noteq> 0 \<longrightarrow> identity x \<in> dom h \<and> role x < pid_roles) \<and>
     (\<forall>p e. h p = Some e \<longrightarrow> card (fam l p) \<le> references e \<and> (\<not> live e \<longrightarrow> fam l p = {}))"

text \<open>The part that also holds while the last reference is being dropped, and the whole.\<close>

definition pid_core :: "pid_world \<Rightarrow> bool" where
  "pid_core w \<longleftrightarrow> (\<exists>al C R M. numbers w = Some al \<and> kinds (pids w) \<and> hash_inv (pids w) (buckets w) C \<and>
     retired_inv (pids w) (retired w) R \<and> number_inv (pids w) al \<and> gen_inv (pids w) (next_generation w) \<and>
     member_inv (pids w) (links w) M)"

definition pid_ok :: "pid_world \<Rightarrow> bool" where
  "pid_ok w \<longleftrightarrow> pid_core w \<and> (\<forall>p e. pids w p = Some e \<longrightarrow> registry e \<longrightarrow> 0 < references e)"

lemma pid_coreI:
  "numbers w = Some al \<Longrightarrow> kinds (pids w) \<Longrightarrow> hash_inv (pids w) (buckets w) C \<Longrightarrow> retired_inv (pids w) (retired w) R \<Longrightarrow>
   number_inv (pids w) al \<Longrightarrow> gen_inv (pids w) (next_generation w) \<Longrightarrow> member_inv (pids w) (links w) M \<Longrightarrow> pid_core w"
  unfolding pid_core_def by blast

lemma pid_coreE:
  assumes "pid_core w"
  obtains al C R M where "numbers w = Some al" "kinds (pids w)" "hash_inv (pids w) (buckets w) C" "retired_inv (pids w) (retired w) R"
    "number_inv (pids w) al" "gen_inv (pids w) (next_generation w)" "member_inv (pids w) (links w) M"
  using assms unfolding pid_core_def by (elim exE conjE) (rule that)

lemma pid_okD: "pid_ok w \<Longrightarrow> pid_core w" "pid_ok w \<Longrightarrow> pids w p = Some e \<Longrightarrow> registry e \<Longrightarrow> 0 < references e"
  unfolding pid_ok_def by blast+

section \<open>Updates that leave a part alone\<close>

lemma kinds_upd: "kinds h \<Longrightarrow> p \<noteq> 0 \<Longrightarrow> kind_ok e' \<Longrightarrow> kinds (h(p \<mapsto> e'))"
  by (simp add: kinds_def)

lemma kindsD: "kinds h \<Longrightarrow> h p = Some e \<Longrightarrow> kind_ok e \<and> p \<noteq> 0"
  unfolding kinds_def by (metis option.distinct(1))

lemma chain_cong: "(\<And>x. x \<in> set xs \<Longrightarrow> map_option hash_next (h' x) = map_option hash_next (h x)) \<Longrightarrow> chain h' p xs = chain h p xs"
proof (induction xs arbitrary: p)
  case (Cons x xs)
  have "chain h' q xs = chain h q xs" for q by (rule Cons.IH) (use Cons.prems in auto)
  moreover have "map_option hash_next (h' x) = map_option hash_next (h x)" using Cons.prems by simp
  ultimately show ?case by (cases "h x"; cases "h' x") auto
qed simp

lemma hash_upd:
  assumes "hash_inv h bk C" "h p = Some e"
    "published e = 1 \<and> published e' = 1 \<and> hash_next e' = hash_next e \<and> number e' = number e \<or> published e \<noteq> 1 \<and> published e' \<noteq> 1"
  shows "hash_inv (h(p \<mapsto> e')) bk C"
  unfolding hash_inv_def
proof (intro allI conjI)
  fix b
  have o: "chain h (bk b) (C b)" "distinct (C b)" "\<And>p. p \<in> set (C b) \<longleftrightarrow> (\<exists>e. h p = Some e \<and> published e = 1 \<and> bucket_of (number e) = b)"
    using assms(1) unfolding hash_inv_def by blast+
  have "chain (h(p \<mapsto> e')) (bk b) (C b) = chain h (bk b) (C b)"
    by (rule chain_cong) (use o(3) assms(2,3) in auto)
  then show "chain (h(p \<mapsto> e')) (bk b) (C b)" using o(1) by blast
  show "distinct (C b)" by (rule o(2))
  show "q \<in> set (C b) \<longleftrightarrow> (\<exists>e. (h(p \<mapsto> e')) q = Some e \<and> published e = 1 \<and> bucket_of (number e) = b)" for q
    using o(3) [of q] assms(2,3) by (cases "q = p") auto
qed

lemma retired_upd:
  assumes "retired_inv h rt R" "h p = Some e" "published e \<noteq> 3" "published e' \<noteq> 3"
  shows "retired_inv (h(p \<mapsto> e')) rt R"
  unfolding retired_inv_def
proof (intro allI conjI)
  have o: "chain h rt R" "distinct R" "\<And>p. p \<in> set R \<longleftrightarrow> (\<exists>e. h p = Some e \<and> published e = 3)"
    using assms(1) unfolding retired_inv_def by blast+
  have "p \<notin> set R" using o(3) assms(2,3) by auto
  then show "chain (h(p \<mapsto> e')) rt R" using o(1) by simp
  show "distinct R" by (rule o(2))
  show "q \<in> set R \<longleftrightarrow> (\<exists>e. (h(p \<mapsto> e')) q = Some e \<and> published e = 3)" for q
    using o(3) [of q] assms(2-4) by (cases "q = p") auto
qed

lemma number_upd:
  assumes "number_inv h al" "h p = Some e" "live e' = live e" "live e \<longrightarrow> number e' = number e"
  shows "number_inv (h(p \<mapsto> e')) al"
  unfolding number_inv_def
proof (intro conjI allI impI ballI)
  have o: "alloc_ok al" "\<And>q f. h q = Some f \<Longrightarrow> live f \<Longrightarrow> 0 < number f \<and> nat (number f) - 1 \<in> taken al"
    "\<And>q r f g. h q = Some f \<Longrightarrow> h r = Some g \<Longrightarrow> live f \<Longrightarrow> live g \<Longrightarrow> number f = number g \<Longrightarrow> q = r"
    "\<And>i. i \<in> taken al \<Longrightarrow> \<exists>p e. h p = Some e \<and> live e \<and> number e = int i + 1"
    using assms(1) unfolding number_inv_def by blast+
  show "alloc_ok al" by (rule o(1))
  show "0 < number f" "nat (number f) - 1 \<in> taken al" if "(h(p \<mapsto> e')) q = Some f" "live f" for q f
    using that o(2) [OF assms(2)] o(2) [of q f] assms(3,4) by (auto split: if_splits)
  show "q = r" if "(h(p \<mapsto> e')) q = Some f" "(h(p \<mapsto> e')) r = Some g" "live f" "live g" "number f = number g" for q r f g
    using that o(3) [of q f r g] o(3) [OF assms(2), of r g] o(3) [OF _ assms(2), of q f] assms(3,4) by (auto split: if_splits)
  show "\<exists>q f. (h(p \<mapsto> e')) q = Some f \<and> live f \<and> number f = int i + 1" if i: "i \<in> taken al" for i
  proof -
    obtain q f where q: "h q = Some f" "live f" "number f = int i + 1" using o(4) [OF i] by blast
    show ?thesis
    proof (cases "q = p")
      case True then show ?thesis using q assms(2-4) by (intro exI [of _ p] exI [of _ e']) auto
    next
      case False then show ?thesis using q by (intro exI [of _ q] exI [of _ f]) auto
    qed
  qed
qed

lemma gen_upd:
  assumes "gen_inv h g" "h p = Some e" "registry e' \<longrightarrow> registry e \<and> generation e' = generation e"
  shows "gen_inv (h(p \<mapsto> e')) g"
  unfolding gen_inv_def
proof (intro conjI allI impI)
  have o: "g \<noteq> 0" "g \<le> generation_max + 1" "\<And>q f. h q = Some f \<Longrightarrow> registry f \<Longrightarrow> generation f < g"
    "\<And>q r f k. h q = Some f \<Longrightarrow> h r = Some k \<Longrightarrow> registry f \<Longrightarrow> registry k \<Longrightarrow> generation f = generation k \<Longrightarrow> q = r"
    using assms(1) unfolding gen_inv_def by blast+
  show "g \<noteq> 0" "g \<le> generation_max + 1" by (rule o)+
  show "generation f < g" if "(h(p \<mapsto> e')) q = Some f" "registry f" for q f
    using that o(3) [of q f] o(3) [OF assms(2)] assms(3) by (auto split: if_splits)
  show "q = r" if "(h(p \<mapsto> e')) q = Some f" "(h(p \<mapsto> e')) r = Some k" "registry f" "registry k" "generation f = generation k" for q r f k
    using that o(4) [of q f r k] o(4) [OF assms(2), of r k] o(4) [OF _ assms(2), of q f] assms(3) by (auto split: if_splits)
qed

lemma member_upd:
  assumes "member_inv h l M" "h p = Some e" "members e' = members e" "card (fam l p) \<le> references e'" "\<not> live e' \<longrightarrow> fam l p = {}"
  shows "member_inv (h(p \<mapsto> e')) l M"
  unfolding member_inv_def
proof (intro conjI allI impI)
  have o: "l 0 = None" "\<And>p e r. h p = Some e \<Longrightarrow> r < pid_roles \<Longrightarrow>
        dchain l p r 0 (members e r) (M p r) \<and> distinct (M p r) \<and> set (M p r) = sibs l p r"
     "\<And>m x. l m = Some x \<Longrightarrow> identity x \<noteq> 0 \<Longrightarrow> identity x \<in> dom h \<and> role x < pid_roles"
     "\<And>p e. h p = Some e \<Longrightarrow> card (fam l p) \<le> references e \<and> (\<not> live e \<longrightarrow> fam l p = {})"
    using assms(1) unfolding member_inv_def by blast+
  show "l 0 = None" by (rule o)
  show "dchain l q r 0 (members f r) (M q r)" "distinct (M q r)" "set (M q r) = sibs l q r"
    if "(h(p \<mapsto> e')) q = Some f" "r < pid_roles" for q f r
    using that o(2) [of q f r] o(2) [OF assms(2), of r] assms(3) by (auto split: if_splits)
  show "identity x \<in> dom (h(p \<mapsto> e'))" "role x < pid_roles" if "l m = Some x" "identity x \<noteq> 0" for m x
    using o(3) [OF that] by auto
  show "card (fam l q) \<le> references f" if "(h(p \<mapsto> e')) q = Some f" for q f
    using that o(4) [of q f] assms(4) by (auto split: if_splits)
  show "fam l q = {}" if "(h(p \<mapsto> e')) q = Some f" "\<not> live f" for q f
    using that o(4) [of q f] assms(5) by (auto split: if_splits)
qed

section \<open>Reading the invariant\<close>

lemma fam_finite:
  assumes "member_inv h l M" "h p = Some e" "p \<noteq> 0"
  shows "fam l p = (\<Union>r<pid_roles. set (M p r))" "finite (fam l p)"
proof -
  have a: "\<And>r. r < pid_roles \<Longrightarrow> set (M p r) = sibs l p r" "\<And>m x. l m = Some x \<Longrightarrow> identity x \<noteq> 0 \<Longrightarrow> role x < pid_roles"
    using assms(1,2) unfolding member_inv_def by blast+
  show "fam l p = (\<Union>r<pid_roles. set (M p r))" using a assms(3) by (fastforce simp: fam_def sibs_def)
  then show "finite (fam l p)" by simp
qed

lemma no_members:
  assumes "member_inv h l M" "h p = Some e" "p \<noteq> 0"
  shows "(\<forall>r<pid_roles. members e r = 0) \<longleftrightarrow> fam l p = {}"
proof -
  have "members e r = 0 \<longleftrightarrow> M p r = []" if r: "r < pid_roles" for r
  proof -
    have "dchain l p r 0 (members e r) (M p r)" using assms(1,2) r unfolding member_inv_def by blast
    then show ?thesis by (cases "M p r") auto
  qed
  then show ?thesis unfolding fam_finite(1) [OF assms] by auto
qed

lemma find_published:
  assumes "hash_inv (pids w) (buckets w) C" "kinds (pids w)" "0 < n"
  obtains p where "kernel_pid_find w n = Some p"
    "p = 0 \<longrightarrow> (\<forall>q e. pids w q = Some e \<longrightarrow> published e = 1 \<longrightarrow> number e \<noteq> n)"
    "p \<noteq> 0 \<Longrightarrow> \<exists>e. pids w p = Some e \<and> published e = 1 \<and> number e = n"
proof -
  let ?b = "bucket_of n"
  have o: "chain (pids w) (buckets w ?b) (C ?b)"
    "\<And>p. p \<in> set (C ?b) \<longleftrightarrow> (\<exists>e. pids w p = Some e \<and> published e = 1 \<and> bucket_of (number e) = ?b)"
    using assms(1) unfolding hash_inv_def by blast+
  have f: "kernel_pid_find w n = Some (case find (\<lambda>x. number (the (pids w x)) = n) (C ?b) of None \<Rightarrow> 0 | Some x \<Rightarrow> x)"
    using find_loop_chain [OF o(1)] assms(3) by (simp add: kernel_pid_find_def)
  show ?thesis
  proof (cases "find (\<lambda>x. number (the (pids w x)) = n) (C ?b)")
    case None
    have "number e \<noteq> n" if "pids w q = Some e" "published e = 1" for q e
    proof
      assume "number e = n"
      then have "q \<in> set (C ?b)" using o(2) that by blast
      then show False using None that \<open>number e = n\<close> by (auto simp: find_None_iff)
    qed
    then show ?thesis using that [of 0] f None by auto
  next
    case (Some x)
    then have x: "x \<in> set (C ?b)" "number (the (pids w x)) = n" by (auto simp: find_Some_iff)
    then obtain e where e: "pids w x = Some e" "published e = 1" using o(2) by blast
    then have "x \<noteq> 0" using kindsD [OF assms(2)] by blast
    then show ?thesis using that [of x] f Some x e by auto
  qed
qed

end
