(* ===== verification/Pid_Ops.thy ===== *)
theory Pid_Ops
  imports Pid_Invariant
begin

text \<open>
  Every operation of the identity registry keeps its invariant and does not trap when its caller
  keeps the contract of the header: a reference is put by one who holds it, a member is detached
  when it is attached, and so on.
\<close>

section \<open>Reservation\<close>

lemma number_reserve:
  assumes "number_inv h al" "i < limit al" "i \<notin> taken al" "h p = Some e" "\<not> live e" "live e'" "number e' = int i + 1"
  shows "number_inv (h(p \<mapsto> e')) (take_slot al i)"
  unfolding number_inv_def
proof (intro conjI allI impI ballI)
  have o: "alloc_ok al" "\<And>q f. h q = Some f \<Longrightarrow> live f \<Longrightarrow> 0 < number f \<and> nat (number f) - 1 \<in> taken al"
    "\<And>q r f g. h q = Some f \<Longrightarrow> h r = Some g \<Longrightarrow> live f \<Longrightarrow> live g \<Longrightarrow> number f = number g \<Longrightarrow> q = r"
    "\<And>i. i \<in> taken al \<Longrightarrow> \<exists>p e. h p = Some e \<and> live e \<and> number e = int i + 1"
    using assms(1) unfolding number_inv_def by blast+
  note t = take_slot_ok [OF o(1) assms(2,3)]
  show "alloc_ok (take_slot al i)" by (rule t(1))
  show "0 < number f" "nat (number f) - 1 \<in> taken (take_slot al i)" if "(h(p \<mapsto> e')) q = Some f" "live f" for q f
    using that o(2) [of q f] assms(7) by (auto simp: t(2) split: if_splits)
  have fresh: "number f \<noteq> int i + 1" if "h q = Some f" "live f" for q f
    using o(2) [OF that] assms(3) by (auto simp: nat_add_distrib)
  show "q = r" if a: "(h(p \<mapsto> e')) q = Some f" "(h(p \<mapsto> e')) r = Some g" "live f" "live g" "number f = number g" for q r f g
  proof (cases "q = p"; cases "r = p")
    assume "q = p" "r \<noteq> p" then show ?thesis using a fresh [of r g] assms(7) by auto
  next
    assume "q \<noteq> p" "r = p" then show ?thesis using a fresh [of q f] assms(7) by auto
  next
    assume "q \<noteq> p" "r \<noteq> p" then show ?thesis using a o(3) [of q f r g] by auto
  qed auto
  show "\<exists>q f. (h(p \<mapsto> e')) q = Some f \<and> live f \<and> number f = int j + 1" if j: "j \<in> taken (take_slot al i)" for j
  proof (cases "j = i")
    case True then show ?thesis using assms(6,7) by (intro exI [of _ p] exI [of _ e']) simp
  next
    case False
    then obtain q f where q: "h q = Some f" "live f" "number f = int j + 1" using o(4) [of j] j t(2) by auto
    then have "q \<noteq> p" using assms(4,5) by auto
    then show ?thesis using q by (intro exI [of _ q] exI [of _ f]) simp
  qed
qed

lemma gen_reserve:
  assumes "gen_inv h g" "g \<le> generation_max" "h p = Some e" "generation e' = g"
  shows "gen_inv (h(p \<mapsto> e')) (g + 1)"
proof -
  have o: "\<And>q f. h q = Some f \<Longrightarrow> registry f \<Longrightarrow> generation f < g"
    "\<And>q r f k. h q = Some f \<Longrightarrow> h r = Some k \<Longrightarrow> registry f \<Longrightarrow> registry k \<Longrightarrow> generation f = generation k \<Longrightarrow> q = r"
    using assms(1) unfolding gen_inv_def by blast+
  have m: "generation_max = (17179869183 :: u64)" by (simp add: drop_bit_eq_div)
  have g: "unat g \<le> 17179869183" using assms(2) m by (simp add: word_le_nat_alt)
  have s: "unat (g + 1) = Suc (unat g)" using g by (simp add: unat_word_ariths)
  have lt: "x < g + 1 \<longleftrightarrow> x \<le> g" for x using s by (simp add: word_less_nat_alt word_le_nat_alt less_Suc_eq_le)
  show ?thesis
    unfolding gen_inv_def
  proof (intro conjI allI impI)
    show "g + 1 \<noteq> 0" using s by (metis nat.distinct(1) unat_0)
    show "g + 1 \<le> generation_max + 1" using s g m by (simp add: word_le_nat_alt)
    show "generation f < g + 1" if "(h(p \<mapsto> e')) q = Some f" "registry f" for q f
      unfolding lt using that o(1) [of q f] assms(4) by (auto split: if_splits)
    show "q = r" if "(h(p \<mapsto> e')) q = Some f" "(h(p \<mapsto> e')) r = Some k" "registry f" "registry k" "generation f = generation k" for q r f k
      using that o(1) [of q f] o(1) [of r k] o(2) [of q f r k] assms(4) by (auto split: if_splits)
  qed
qed

lemma fam_dead: "member_inv h l M \<Longrightarrow> h p = Some e \<Longrightarrow> \<not> live e \<Longrightarrow> fam l p = {}"
  unfolding member_inv_def by blast

lemma reserve_ok:
  assumes ok: "pid_ok w" and p: "p \<noteq> 0" "pids w p = Some e"
  obtains st w' where "kernel_pid_reserve w p = Some (st, w')" "pid_ok w'"
    "st \<noteq> PID_OK \<Longrightarrow> w' = w"
    "st = PID_OK \<Longrightarrow> \<not> registry e \<and> published e = 0 \<and> (\<exists>n. pids w' = (pids w)(p \<mapsto> e\<lparr>number := n, generation := next_generation w, references := 1, registry := True\<rparr>))"
proof (cases "registry e \<or> published e \<noteq> 0 \<or> next_generation w = 0 \<or> generation_max < next_generation w")
  case True
  then have "kernel_pid_reserve w p = Some (PID_STATE, w) \<or> kernel_pid_reserve w p = Some (PID_EXHAUSTED, w)"
    using p by (auto simp: kernel_pid_reserve_def)
  then show ?thesis
  proof
    assume "kernel_pid_reserve w p = Some (PID_STATE, w)"
    then show ?thesis by (rule that [OF _ ok]) simp_all
  next
    assume "kernel_pid_reserve w p = Some (PID_EXHAUSTED, w)"
    then show ?thesis by (rule that [OF _ ok]) simp_all
  qed
next
  case False
  then have e: "\<not> registry e" "published e = 0" "next_generation w \<noteq> 0" "next_generation w \<le> generation_max" by auto
  obtain al C R M where i: "numbers w = Some al" "kinds (pids w)" "hash_inv (pids w) (buckets w) C" "retired_inv (pids w) (retired w) R"
    "number_inv (pids w) al" "gen_inv (pids w) (next_generation w)" "member_inv (pids w) (links w) M"
    by (rule pid_coreE [OF pid_okD(1) [OF ok]])
  have al: "alloc_ok al" using i(5) by (simp add: number_inv_def)
  show ?thesis
  proof (cases "taken al = {..<limit al}")
    case True
    have w: "w\<lparr>numbers := Some al\<rparr> = w" using i(1) by simp
    have "kernel_pid_reserve w p = Some (PID_EXHAUSTED, w)"
      using allocate_full [OF al True] p e i(1) w by (simp add: kernel_pid_reserve_def not_less)
    then show ?thesis by (rule that [OF _ ok]) simp_all
  next
    case False
    obtain d where d: "d < limit al" "slot al d \<notin> taken al"
      "kernel_pid_allocate (Some al) True = Some (PID_OK, Some (int (slot al d + 1)), Some (take_slot al (slot al d)))"
      by (rule allocate_free [OF al False])
    have sl: "slot al d < limit al" using al by (simp add: slot_def alloc_ok_def)
    define e' where "e' = e\<lparr>number := int (slot al d + 1), generation := next_generation w, references := 1, registry := True\<rparr>"
    define w' where "w' = w\<lparr>numbers := Some (take_slot al (slot al d)), next_generation := next_generation w + 1, pids := (pids w)(p \<mapsto> e')\<rparr>"
    have f: "numbers w' = Some (take_slot al (slot al d))" "pids w' = (pids w)(p \<mapsto> e')" "buckets w' = buckets w" "retired w' = retired w"
      "next_generation w' = next_generation w + 1" "links w' = links w" by (simp_all add: w'_def)
    have run: "kernel_pid_reserve w p = Some (PID_OK, w')"
      using d(3) p e i(1) by (simp add: kernel_pid_reserve_def not_less w'_def e'_def)
    have dead: "fam (links w) p = {}" by (rule fam_dead [OF i(7) p(2)]) (simp add: live_def e(1))
    have k: "kind_ok e" using kindsD [OF i(2) p(2)] by blast
    have "pid_core w'"
    proof (rule pid_coreI)
      show "numbers w' = Some (take_slot al (slot al d))" by (simp add: w'_def)
      show "kinds (pids w')" unfolding f
        by (rule kinds_upd [OF i(2) p(1)]) (use k e in \<open>simp add: kind_ok_def e'_def\<close>)
      show "hash_inv (pids w') (buckets w') C" unfolding f
        by (rule hash_upd [OF i(3) p(2)]) (simp add: e'_def e(2))
      show "retired_inv (pids w') (retired w') R" unfolding f
        by (rule retired_upd [OF i(4) p(2)]) (simp_all add: e'_def e(2))
      show "number_inv (pids w') (take_slot al (slot al d))" unfolding f
        by (rule number_reserve [OF i(5) sl d(2) p(2)]) (simp_all add: e'_def live_def e)
      show "gen_inv (pids w') (next_generation w')" unfolding f
        by (rule gen_reserve [OF i(6) e(4) p(2)]) (simp add: e'_def)
      show "member_inv (pids w') (links w') M" unfolding f
        by (rule member_upd [OF i(7) p(2)]) (simp_all add: e'_def dead)
    qed
    moreover have "0 < references f" if "pids w' q = Some f" "registry f" for q f
      using that pid_okD(2) [OF ok, of q f] by (auto simp: w'_def e'_def split: if_splits)
    ultimately have "pid_ok w'" by (simp add: pid_ok_def)
    moreover have "\<exists>n. pids w' = (pids w)(p \<mapsto> e\<lparr>number := n, generation := next_generation w, references := 1, registry := True\<rparr>)"
      by (rule exI [of _ "int (slot al d + 1)"]) (simp add: w'_def e'_def)
    ultimately show ?thesis using that [OF run] e(1,2) by blast
  qed
qed

section \<open>Publication\<close>

lemma hash_publish:
  assumes "hash_inv h bk C" "kinds h" "h p = Some e" "published e \<noteq> 1" "b = bucket_of (number e)"
    "published e' = 1" "hash_next e' = bk b" "number e' = number e"
  shows "hash_inv (h(p \<mapsto> e')) (bk(b := p)) (C(b := p # C b))"
  unfolding hash_inv_def
proof (intro allI conjI)
  fix c
  have o: "chain h (bk c) (C c)" "distinct (C c)" "\<And>p. p \<in> set (C c) \<longleftrightarrow> (\<exists>e. h p = Some e \<and> published e = 1 \<and> bucket_of (number e) = c)" for c
    using assms(1) unfolding hash_inv_def by blast+
  have n: "p \<notin> set (C c)" for c using o(3) assms(3,4) by auto
  have fr: "chain (h(p \<mapsto> e')) q (C c) = chain h q (C c)" for q c by (rule chain_frame [OF n])
  have p0: "p \<noteq> 0" using kindsD [OF assms(2,3)] by blast
  have head: "chain (h(p \<mapsto> e')) p (p # C b)" using p0 fr [of "bk b" b] o(1) [of b] assms(7) by (simp del: fun_upd_apply add: fun_upd_same)
  show "chain (h(p \<mapsto> e')) ((bk(b := p)) c) ((C(b := p # C b)) c)"
  proof (cases "c = b")
    case True then show ?thesis using head by (simp del: fun_upd_apply add: fun_upd_same)
  next
    case False then show ?thesis using fr [of "bk c" c] o(1) [of c] by (simp del: fun_upd_apply add: fun_upd_other)
  qed
  show "distinct ((C(b := p # C b)) c)" using n o(2) by simp
  show "q \<in> set ((C(b := p # C b)) c) \<longleftrightarrow> (\<exists>e. (h(p \<mapsto> e')) q = Some e \<and> published e = 1 \<and> bucket_of (number e) = c)" for q
    using o(3) [of q c] n [of c] assms(5,6,8) by (cases "q = p"; cases "c = b") auto
qed

lemma publish_reserved_ok:
  assumes ok: "pid_ok w" and p: "p \<noteq> 0" "pids w p = Some e"
  obtains st w' where "kernel_pid_publish_reserved w p = Some (st, w')" "pid_ok w'"
    "st = PID_OK \<longleftrightarrow> registry e \<and> published e = 0" "st \<noteq> PID_OK \<Longrightarrow> w' = w"
    "st = PID_OK \<Longrightarrow> \<exists>f. pids w' p = Some f \<and> published f = 1 \<and> number f = number e"
proof (cases "\<not> registry e \<or> published e \<noteq> 0")
  case True
  then have "kernel_pid_publish_reserved w p = Some (PID_STATE, w)"
    using p by (auto simp: kernel_pid_publish_reserved_def)
  then show ?thesis by (rule that [OF _ ok]) (use True in simp_all)
next
  case False
  then have e: "registry e" "published e = 0" by auto
  obtain al C R M where i: "numbers w = Some al" "kinds (pids w)" "hash_inv (pids w) (buckets w) C" "retired_inv (pids w) (retired w) R"
    "number_inv (pids w) al" "gen_inv (pids w) (next_generation w)" "member_inv (pids w) (links w) M"
    by (rule pid_coreE [OF pid_okD(1) [OF ok]])
  have k: "kind_ok e" using kindsD [OF i(2) p(2)] by blast
  have r: "0 < references e" by (rule pid_okD(2) [OF ok p(2) e(1)])
  have lv: "live e" by (simp add: live_def e)
  have num: "0 < number e" "\<And>q f. pids w q = Some f \<Longrightarrow> live f \<Longrightarrow> number f = number e \<Longrightarrow> q = p"
    using i(5) p(2) lv unfolding number_inv_def by blast+
  obtain q where q: "kernel_pid_find w (number e) = Some q" "q \<noteq> 0 \<Longrightarrow> \<exists>f. pids w q = Some f \<and> published f = 1 \<and> number f = number e"
    by (rule find_published [OF i(3,2) num(1)]) blast
  have "q = 0"
  proof (rule ccontr)
    assume "q \<noteq> 0"
    then obtain f where f: "pids w q = Some f" "published f = 1" "number f = number e" using q(2) by blast
    then have "live f" using kindsD [OF i(2) f(1)] by (simp add: kind_ok_def live_def)
    then show False using num(2) [OF f(1) _ f(3)] f p(2) e(2) by auto
  qed
  define e' where "e' = e\<lparr>hash_next := buckets w (bucket_of (number e)), published := 1\<rparr>"
  define w' where "w' = w\<lparr>pids := (pids w)(p \<mapsto> e'), buckets := (buckets w)(bucket_of (number e) := p)\<rparr>"
  have f: "numbers w' = Some al" "pids w' = (pids w)(p \<mapsto> e')" "buckets w' = (buckets w)(bucket_of (number e) := p)" "retired w' = retired w"
    "next_generation w' = next_generation w" "links w' = links w" by (simp_all add: w'_def i(1))
  have run: "kernel_pid_publish_reserved w p = Some (PID_OK, w')"
    using q(1) \<open>q = 0\<close> p e r k by (simp add: kernel_pid_publish_reserved_def kind_ok_def w'_def e'_def)
  have "pid_core w'"
  proof (rule pid_coreI)
    show "numbers w' = Some al" by (simp add: w'_def i(1))
    show "kinds (pids w')" unfolding f
      by (rule kinds_upd [OF i(2) p(1)]) (use e in \<open>simp add: kind_ok_def e'_def\<close>)
    show "hash_inv (pids w') (buckets w') (C(bucket_of (number e) := p # C (bucket_of (number e))))" unfolding f
      by (rule hash_publish [OF i(3,2) p(2) _ refl]) (simp_all add: e'_def e(2))
    show "retired_inv (pids w') (retired w') R" unfolding f
      by (rule retired_upd [OF i(4) p(2)]) (simp_all add: e'_def e(2))
    show "number_inv (pids w') al" unfolding f
      by (rule number_upd [OF i(5) p(2)]) (simp_all add: e'_def live_def e)
    show "gen_inv (pids w') (next_generation w')" unfolding f
      by (rule gen_upd [OF i(6) p(2)]) (simp add: e'_def e)
    show "member_inv (pids w') (links w') M" unfolding f
      by (rule member_upd [OF i(7) p(2)]) (use i(7) p(2) lv in \<open>auto simp: e'_def live_def e member_inv_def\<close>)
  qed
  moreover have "0 < references f" if "pids w' q = Some f" "registry f" for q f
    using that pid_okD(2) [OF ok, of q f] r by (auto simp: w'_def e'_def split: if_splits)
  ultimately have "pid_ok w'" by (simp add: pid_ok_def)
  moreover have "pids w' p = Some e'" "published e' = 1" "number e' = number e" by (simp_all add: w'_def e'_def)
  ultimately show ?thesis using that [OF run] e by blast
qed

end
