(* ===== verification/Pid_Put.thy ===== *)
theory Pid_Put
  imports Pid_Ops
begin

text \<open>
  References, the removal of an identity from its hash chain, retirement, and the reuse of retired storage.
\<close>

lemma get_ok:
  assumes ok: "pid_ok w" and e: "pids w p = Some e" "registry e" "references e < uint32_max"
  shows "kernel_pid_get w p = Some (w\<lparr>pids := (pids w)(p \<mapsto> e\<lparr>references := references e + 1\<rparr>)\<rparr>)"
    "pid_ok (w\<lparr>pids := (pids w)(p \<mapsto> e\<lparr>references := references e + 1\<rparr>)\<rparr>)"
proof -
  define e' where "e' = e\<lparr>references := references e + 1\<rparr>"
  define w' where "w' = w\<lparr>pids := (pids w)(p \<mapsto> e')\<rparr>"
  obtain al C R M where i: "numbers w = Some al" "kinds (pids w)" "hash_inv (pids w) (buckets w) C" "retired_inv (pids w) (retired w) R"
    "number_inv (pids w) al" "gen_inv (pids w) (next_generation w)" "member_inv (pids w) (links w) M"
    by (rule pid_coreE [OF pid_okD(1) [OF ok]])
  have k: "kind_ok e" "p \<noteq> 0" using kindsD [OF i(2) e(1)] by blast+
  have r: "0 < references e" by (rule pid_okD(2) [OF ok e(1,2)])
  have p3: "published e \<noteq> 3" "published e \<le> 3" using k(1) e(2) by (auto simp: kind_ok_def)
  show "kernel_pid_get w p = Some (w\<lparr>pids := (pids w)(p \<mapsto> e\<lparr>references := references e + 1\<rparr>)\<rparr>)"
    using e k(2) r p3 by (simp add: kernel_pid_get_def)
  have c: "card (fam (links w) p) \<le> references e \<and> (\<not> live e \<longrightarrow> fam (links w) p = {})"
    using i(7) e(1) unfolding member_inv_def by blast
  have f: "numbers w' = Some al" "pids w' = (pids w)(p \<mapsto> e')" "buckets w' = buckets w" "retired w' = retired w"
    "next_generation w' = next_generation w" "links w' = links w" by (simp_all add: w'_def i(1))
  have "pid_core w'"
  proof (rule pid_coreI)
    show "numbers w' = Some al" by (rule f)
    show "kinds (pids w')" unfolding f by (rule kinds_upd [OF i(2) k(2)]) (use k in \<open>simp add: kind_ok_def e'_def\<close>)
    show "hash_inv (pids w') (buckets w') C" unfolding f by (rule hash_upd [OF i(3) e(1)]) (simp add: e'_def)
    show "retired_inv (pids w') (retired w') R" unfolding f by (rule retired_upd [OF i(4) e(1)]) (use p3 in \<open>simp_all add: e'_def\<close>)
    show "number_inv (pids w') al" unfolding f by (rule number_upd [OF i(5) e(1)]) (simp_all add: e'_def live_def)
    show "gen_inv (pids w') (next_generation w')" unfolding f by (rule gen_upd [OF i(6) e(1)]) (simp add: e'_def)
    show "member_inv (pids w') (links w') M" unfolding f
      by (rule member_upd [OF i(7) e(1)]) (use c in \<open>simp_all add: e'_def live_def\<close>)
  qed
  moreover have "0 < references g" if "pids w' q = Some g" "registry g" for q g
    using that pid_okD(2) [OF ok, of q g] by (auto simp: w'_def e'_def split: if_splits)
  ultimately have "pid_ok w'" by (simp add: pid_ok_def)
  then show "pid_ok (w\<lparr>pids := (pids w)(p \<mapsto> e\<lparr>references := references e + 1\<rparr>)\<rparr>)" by (simp add: w'_def e'_def)
qed

section \<open>Leaving the hash table\<close>

lemma unlink_hash:
  assumes inv: "hash_inv (pids w) (buckets w) C" and k: "kinds (pids w)" and p: "pids w p = Some e" "published e = 1"
  obtains h bk C' where "unlink_identity w p e = Some (w\<lparr>pids := h, buckets := bk\<rparr>)"
    "h = pids w \<or> (\<exists>q c n. pids w q = Some c \<and> published c = 1 \<and> q \<noteq> p \<and> h = (pids w)(q \<mapsto> c\<lparr>hash_next := n\<rparr>))"
    "\<And>e'. published e' \<noteq> 1 \<Longrightarrow> hash_inv (h(p \<mapsto> e')) bk C'"
proof -
  let ?h = "pids w" and ?b = "bucket_of (number e)"
  have o: "chain ?h (buckets w c) (C c)" "distinct (C c)"
    "\<And>p. p \<in> set (C c) \<longleftrightarrow> (\<exists>e. ?h p = Some e \<and> published e = 1 \<and> bucket_of (number e) = c)" for c
    using inv unfolding hash_inv_def by blast+
  have "p \<in> set (C ?b)" using o(3) p by blast
  then obtain as bs where C: "C ?b = as @ p # bs" by (meson split_list)
  have pn: "p \<notin> set as" "p \<notin> set bs" "distinct (as @ bs)" using o(2) [of ?b] C by auto
  have fl: "find_link ?h 0 (buckets w ?b) p = Some (last (0 # as))"
    by (rule find_link_chain [OF _ pn(1)]) (use o(1) [of ?b] C in simp)
  have others: "q \<in> set (C c) \<Longrightarrow> c \<noteq> ?b \<Longrightarrow> q \<notin> set (C ?b)" for q c using o(3) by auto
  note ul = chain_unlink [OF o(1) [of ?b, unfolded C] o(2) [of ?b, unfolded C] p(1)]
  show ?thesis
  proof (cases "as = []")
    case True
    define bk where "bk = (buckets w)(?b := hash_next e)"
    have run: "unlink_identity w p e = Some (w\<lparr>pids := ?h, buckets := bk\<rparr>)"
      using fl True by (simp add: unlink_identity_def bk_def)
    have ch: "chain ?h (hash_next e) bs" using ul(1) True by blast
    have "hash_inv (?h(p \<mapsto> e')) bk (C(?b := bs))" if e': "published e' \<noteq> 1" for e'
      unfolding hash_inv_def
    proof (intro allI conjI)
      fix c
      show "chain (?h(p \<mapsto> e')) (bk c) ((C(?b := bs)) c)"
      proof (cases "c = ?b")
        case True then show ?thesis using chain_frame [OF pn(2)] ch by (simp add: bk_def del: fun_upd_apply) (simp add: fun_upd_def)
      next
        case False
        then have "p \<notin> set (C c)" using others [of p c] C by auto
        then have "chain (?h(p \<mapsto> e')) (buckets w c) (C c)" using chain_frame o(1) by blast
        then show ?thesis using False by (simp add: bk_def fun_upd_def)
      qed
      show "distinct ((C(?b := bs)) c)" using o(2) pn(3) by simp
      show "q \<in> set ((C(?b := bs)) c) \<longleftrightarrow> (\<exists>e. (?h(p \<mapsto> e')) q = Some e \<and> published e = 1 \<and> bucket_of (number e) = c)" for q
        using o(3) [of q c] e' pn(2) C True others [of p c] o(3) [of p c] p(1) by (cases "q = p"; cases "c = ?b") auto
    qed
    then show ?thesis using that [OF run] by blast
  next
    case False
    let ?l = "last as"
    have l: "?l \<in> set as" using False by simp
    then have lC: "?l \<in> set (C ?b)" using C by simp
    then obtain c where c: "?h ?l = Some c" "published c = 1" "bucket_of (number c) = ?b" using o(3) [of ?l ?b] by blast
    have l0: "?l \<noteq> 0" "?l \<noteq> p" using kindsD [OF k c(1)] l pn(1) by auto
    define h where "h = ?h(?l \<mapsto> c\<lparr>hash_next := hash_next e\<rparr>)"
    have run: "unlink_identity w p e = Some (w\<lparr>pids := h, buckets := buckets w\<rparr>)"
      using fl False l0 c(1) by (simp add: unlink_identity_def h_def)
    have ch: "chain h (buckets w ?b) (as @ bs)" unfolding h_def by (rule ul(2) [OF False c(1)])
    have "hash_inv (h(p \<mapsto> e')) (buckets w) (C(?b := as @ bs))" if e': "published e' \<noteq> 1" for e'
      unfolding hash_inv_def
    proof (intro allI conjI)
      fix a
      show "chain (h(p \<mapsto> e')) (buckets w a) ((C(?b := as @ bs)) a)"
      proof (cases "a = ?b")
        case True
        have "chain (h(p \<mapsto> e')) (buckets w ?b) (as @ bs)" using chain_frame [of p "as @ bs"] pn ch by auto
        then show ?thesis using True by (simp add: fun_upd_def)
      next
        case False
        then have n: "p \<notin> set (C a)" "?l \<notin> set (C a)" using others [of p a] others [of ?l a] lC C by auto
        then have "chain (h(p \<mapsto> e')) (buckets w a) (C a)" unfolding h_def using chain_frame o(1) by blast
        then show ?thesis using False by (simp add: fun_upd_def)
      qed
      show "distinct ((C(?b := as @ bs)) a)" using o(2) pn(3) by simp
      have hq: "h q = (if q = ?l then Some (c\<lparr>hash_next := hash_next e\<rparr>) else ?h q)" for q by (simp add: h_def)
      show "q \<in> set ((C(?b := as @ bs)) a) \<longleftrightarrow> (\<exists>e. (h(p \<mapsto> e')) q = Some e \<and> published e = 1 \<and> bucket_of (number e) = a)" for q
      proof (cases "q = p")
        case True
        then show ?thesis using e' pn o(3) [of p a] p(1) by (cases "a = ?b") auto
      next
        case False
        then have "q \<in> set ((C(?b := as @ bs)) a) \<longleftrightarrow> q \<in> set (C a)" using C by auto
        also have "\<dots> \<longleftrightarrow> (\<exists>e. ?h q = Some e \<and> published e = 1 \<and> bucket_of (number e) = a)" by (rule o(3))
        also have "\<dots> \<longleftrightarrow> (\<exists>e. (h(p \<mapsto> e')) q = Some e \<and> published e = 1 \<and> bucket_of (number e) = a)"
          using False hq [of q] c by (cases "q = ?l") auto
        finally show ?thesis .
      qed
    qed
    moreover have "\<exists>q c n. pids w q = Some c \<and> published c = 1 \<and> q \<noteq> p \<and> h = (pids w)(q \<mapsto> c\<lparr>hash_next := n\<rparr>)"
      using c l0(2) h_def by blast
    ultimately show ?thesis using that [OF run] by blast
  qed
qed

lemma number_detach:
  assumes "number_inv h al" "h p = Some e" "live e" "\<not> live e'"
  shows "number_inv (h(p \<mapsto> e')) (drop_slot al (nat (number e) - 1))"
    "kernel_pid_release (Some al) (number e) = Some (PID_OK, Some (drop_slot al (nat (number e) - 1)))"
proof -
  have o: "alloc_ok al" "\<And>q f. h q = Some f \<Longrightarrow> live f \<Longrightarrow> 0 < number f \<and> nat (number f) - 1 \<in> taken al"
    "\<And>q r f g. h q = Some f \<Longrightarrow> h r = Some g \<Longrightarrow> live f \<Longrightarrow> live g \<Longrightarrow> number f = number g \<Longrightarrow> q = r"
    "\<And>i. i \<in> taken al \<Longrightarrow> \<exists>p e. h p = Some e \<and> live e \<and> number e = int i + 1"
    using assms(1) unfolding number_inv_def by blast+
  let ?i = "nat (number e) - 1"
  have i: "?i \<in> taken al" "0 < number e" using o(2) [OF assms(2,3)] by blast+
  have ne: "int ?i + 1 = number e" using i(2) by simp
  note d = drop_slot_ok [OF o(1) i(1)]
  show "kernel_pid_release (Some al) (number e) = Some (PID_OK, Some (drop_slot al ?i))" using d(4) ne by simp
  show "number_inv (h(p \<mapsto> e')) (drop_slot al ?i)"
    unfolding number_inv_def
  proof (intro conjI allI impI ballI)
    show "alloc_ok (drop_slot al ?i)" by (rule d(1))
    have q: "h q = Some f \<and> q \<noteq> p" if "(h(p \<mapsto> e')) q = Some f" "live f" for q f
      using that assms(4) by (auto split: if_splits)
    show "0 < number f" if "(h(p \<mapsto> e')) q = Some f" "live f" for q f
      using q [OF that] o(2) that(2) by blast
    show "nat (number f) - 1 \<in> taken (drop_slot al ?i)" if a: "(h(p \<mapsto> e')) q = Some f" "live f" for q f
    proof -
      have f: "h q = Some f" "q \<noteq> p" using q [OF a] by blast+
      have t: "nat (number f) - 1 \<in> taken al" "0 < number f" using o(2) [OF f(1) a(2)] by blast+
      have "number f \<noteq> number e" using o(3) [OF f(1) assms(2) a(2) assms(3)] f(2) by blast
      then have "nat (number f) - 1 \<noteq> ?i" using t(2) i(2) by linarith
      then show ?thesis using t(1) d(2) by simp
    qed
    show "q = r" if "(h(p \<mapsto> e')) q = Some f" "(h(p \<mapsto> e')) r = Some g" "live f" "live g" "number f = number g" for q r f g
      using q [OF that(1,3)] q [OF that(2,4)] o(3) that(3-5) by blast
    show "\<exists>q f. (h(p \<mapsto> e')) q = Some f \<and> live f \<and> number f = int j + 1" if j: "j \<in> taken (drop_slot al ?i)" for j
    proof -
      have j': "j \<in> taken al" "j \<noteq> ?i" using j d(2) by auto
      obtain q f where f: "h q = Some f" "live f" "number f = int j + 1" using o(4) [OF j'(1)] by blast
      then have "q \<noteq> p" using j'(2) assms(2) ne by auto
      then show ?thesis using f by (intro exI [of _ q] exI [of _ f]) simp
    qed
  qed
qed

lemma relink_parts:
  assumes "kinds h" "retired_inv h rt R" "number_inv h al" "gen_inv h g" "member_inv h l M" "h q = Some c" "published c = 1"
  shows "kinds (h(q \<mapsto> c\<lparr>hash_next := n\<rparr>))" "retired_inv (h(q \<mapsto> c\<lparr>hash_next := n\<rparr>)) rt R" "number_inv (h(q \<mapsto> c\<lparr>hash_next := n\<rparr>)) al"
    "gen_inv (h(q \<mapsto> c\<lparr>hash_next := n\<rparr>)) g" "member_inv (h(q \<mapsto> c\<lparr>hash_next := n\<rparr>)) l M"
proof -
  have k: "kind_ok c" "q \<noteq> 0" using kindsD [OF assms(1,6)] by blast+
  have m: "card (fam l q) \<le> references c \<and> (\<not> live c \<longrightarrow> fam l q = {})" using assms(5,6) unfolding member_inv_def by blast
  show "kinds (h(q \<mapsto> c\<lparr>hash_next := n\<rparr>))" by (rule kinds_upd [OF assms(1) k(2)]) (use k(1) assms(7) in \<open>simp add: kind_ok_def\<close>)
  show "retired_inv (h(q \<mapsto> c\<lparr>hash_next := n\<rparr>)) rt R" by (rule retired_upd [OF assms(2,6)]) (use assms(7) in simp_all)
  show "number_inv (h(q \<mapsto> c\<lparr>hash_next := n\<rparr>)) al" by (rule number_upd [OF assms(3,6)]) (simp_all add: live_def)
  show "gen_inv (h(q \<mapsto> c\<lparr>hash_next := n\<rparr>)) g" by (rule gen_upd [OF assms(4,6)]) simp
  show "member_inv (h(q \<mapsto> c\<lparr>hash_next := n\<rparr>)) l M" by (rule member_upd [OF assms(5,6)]) (use m in \<open>simp_all add: live_def\<close>)
qed

text \<open>Both ways to lose the number: out of the hash chain, or straight from a reservation.\<close>

lemma detach_number_ok:
  assumes core: "pid_core w" and p: "pids w p = Some e" "live e" and none: "fam (links w) p = {}"
  obtains w' where "detach_number w p = Some w'" "pid_core w'" "links w' = links w"
    "pids w' p = Some (e\<lparr>hash_next := 0, published := 2\<rparr>)"
    "\<And>q f. q \<noteq> p \<Longrightarrow> pids w' q = Some f \<Longrightarrow> \<exists>g. pids w q = Some g \<and> references f = references g \<and> registry f = registry g"
proof -
  define e' where "e' = e\<lparr>hash_next := 0, published := 2\<rparr>"
  obtain al C R M where i: "numbers w = Some al" "kinds (pids w)" "hash_inv (pids w) (buckets w) C" "retired_inv (pids w) (retired w) R"
    "number_inv (pids w) al" "gen_inv (pids w) (next_generation w)" "member_inv (pids w) (links w) M"
    by (rule pid_coreE [OF core])
  have k: "kind_ok e" "p \<noteq> 0" using kindsD [OF i(2) p(1)] by blast+
  have cs: "published e = 1 \<or> published e = 0" "registry e" using p(2) by (auto simp: live_def)
  have "\<exists>h bk C'. (if published e = 1 then unlink_identity w p e
      else if published e \<noteq> 0 \<or> hash_next e \<noteq> 0 then None else Some w) = Some (w\<lparr>pids := h, buckets := bk\<rparr>) \<and>
      (h = pids w \<or> (\<exists>q c n. pids w q = Some c \<and> published c = 1 \<and> q \<noteq> p \<and> h = (pids w)(q \<mapsto> c\<lparr>hash_next := n\<rparr>))) \<and>
      hash_inv (h(p \<mapsto> e')) bk C'"
  proof (cases "published e = 1")
    case True
    obtain h bk C' where u: "unlink_identity w p e = Some (w\<lparr>pids := h, buckets := bk\<rparr>)"
      "h = pids w \<or> (\<exists>q c n. pids w q = Some c \<and> published c = 1 \<and> q \<noteq> p \<and> h = (pids w)(q \<mapsto> c\<lparr>hash_next := n\<rparr>))"
      "\<And>e'. published e' \<noteq> 1 \<Longrightarrow> hash_inv (h(p \<mapsto> e')) bk C'"
      by (rule unlink_hash [OF i(3,2) p(1) True]) (rule that)
    have "hash_inv (h(p \<mapsto> e')) bk C'" by (rule u(3)) (simp add: e'_def)
    then show ?thesis using u(1,2) True by (intro exI [of _ h] exI [of _ bk] exI [of _ C']) simp
  next
    case False
    then have "hash_next e = 0" using cs k(1) by (simp add: kind_ok_def)
    moreover have "hash_inv ((pids w)(p \<mapsto> e')) (buckets w) C" by (rule hash_upd [OF i(3) p(1)]) (use False in \<open>simp add: e'_def\<close>)
    ultimately show ?thesis using False cs by (intro exI [of _ "pids w"] exI [of _ "buckets w"] exI [of _ C]) simp
  qed
  then obtain h bk C' where u: "(if published e = 1 then unlink_identity w p e
      else if published e \<noteq> 0 \<or> hash_next e \<noteq> 0 then None else Some w) = Some (w\<lparr>pids := h, buckets := bk\<rparr>)"
      "h = pids w \<or> (\<exists>q c n. pids w q = Some c \<and> published c = 1 \<and> q \<noteq> p \<and> h = (pids w)(q \<mapsto> c\<lparr>hash_next := n\<rparr>))"
      "hash_inv (h(p \<mapsto> e')) bk C'" by (elim exE conjE) (rule that)
  have parts: "kinds h \<and> retired_inv h (retired w) R \<and> number_inv h al \<and> gen_inv h (next_generation w) \<and> member_inv h (links w) M \<and> h p = Some e"
    using u(2)
  proof
    assume "\<exists>q c n. pids w q = Some c \<and> published c = 1 \<and> q \<noteq> p \<and> h = (pids w)(q \<mapsto> c\<lparr>hash_next := n\<rparr>)"
    then obtain q c n where q: "pids w q = Some c" "published c = 1" "q \<noteq> p" "h = (pids w)(q \<mapsto> c\<lparr>hash_next := n\<rparr>)" by (elim exE conjE) (rule that)
    have "h p = Some e" using q p(1) by simp
    then show ?thesis unfolding q(4) using relink_parts [OF i(2,4-7) q(1,2)] by blast
  qed (use i p(1) in blast)
  then have ph: "kinds h" "retired_inv h (retired w) R" "number_inv h al" "gen_inv h (next_generation w)" "member_inv h (links w) M"
    and hp: "h p = Some e" by blast+
  have dead: "\<not> live e'" by (simp add: e'_def live_def)
  let ?al = "drop_slot al (nat (number e) - 1)"
  have nd: "number_inv (h(p \<mapsto> e')) ?al" "kernel_pid_release (Some al) (number e) = Some (PID_OK, Some ?al)"
    using number_detach [OF ph(3) hp p(2) dead] by blast+
  define w' where "w' = w\<lparr>pids := h(p \<mapsto> e'), buckets := bk, numbers := Some ?al\<rparr>"
  have f: "numbers w' = Some ?al" "pids w' = h(p \<mapsto> e')" "buckets w' = bk" "retired w' = retired w"
    "next_generation w' = next_generation w" "links w' = links w" by (simp_all add: w'_def)
  have run: "detach_number w p = Some w'"
    unfolding detach_number_def p(1) using u(1) i(1) nd(2) by (simp add: w'_def e'_def)
  have "pid_core w'"
  proof (rule pid_coreI)
    show "numbers w' = Some ?al" by (rule f)
    show "kinds (pids w')" unfolding f by (rule kinds_upd [OF ph(1) k(2)]) (use cs(2) in \<open>simp add: kind_ok_def e'_def\<close>)
    show "hash_inv (pids w') (buckets w') C'" unfolding f by (rule u(3))
    show "retired_inv (pids w') (retired w') R" unfolding f by (rule retired_upd [OF ph(2) hp]) (use cs(1) in \<open>auto simp: e'_def\<close>)
    show "number_inv (pids w') ?al" unfolding f by (rule nd)
    show "gen_inv (pids w') (next_generation w')" unfolding f by (rule gen_upd [OF ph(4) hp]) (simp add: e'_def)
    show "member_inv (pids w') (links w') M" unfolding f by (rule member_upd [OF ph(5) hp]) (use none in \<open>simp_all add: e'_def\<close>)
  qed
  moreover have "\<exists>g. pids w q = Some g \<and> references x = references g \<and> registry x = registry g" if "q \<noteq> p" "pids w' q = Some x" for q x
    using that u(2) unfolding f by (auto split: if_splits)
  ultimately show ?thesis using that [OF run] f e'_def by simp
qed

section \<open>Dropping references\<close>

lemma retired_push:
  assumes "retired_inv h rt R" "p \<noteq> 0" "h p = Some e" "published e \<noteq> 3" "published e' = 3" "hash_next e' = rt"
  shows "retired_inv (h(p \<mapsto> e')) p (p # R)"
  unfolding retired_inv_def
proof (intro conjI allI)
  have o: "chain h rt R" "distinct R" "\<And>p. p \<in> set R \<longleftrightarrow> (\<exists>e. h p = Some e \<and> published e = 3)"
    using assms(1) unfolding retired_inv_def by blast+
  have n: "p \<notin> set R" using o(3) assms(3,4) by auto
  have "chain (h(p \<mapsto> e')) rt R" using chain_frame [OF n] o(1) by blast
  then show "chain (h(p \<mapsto> e')) p (p # R)" using assms(2,6) by (simp del: fun_upd_apply add: fun_upd_same)
  show "distinct (p # R)" using n o(2) by simp
  show "q \<in> set (p # R) \<longleftrightarrow> (\<exists>e. (h(p \<mapsto> e')) q = Some e \<and> published e = 3)" for q
    using o(3) [of q] assms(5) by (cases "q = p") auto
qed

text \<open>Giving up one reference of an identity that keeps its place.\<close>

lemma deref_core:
  assumes core: "pid_core w" and p: "pids w p = Some e" "registry e" and c: "card (fam (links w) p) \<le> n"
  shows "pid_core (w\<lparr>pids := (pids w)(p \<mapsto> e\<lparr>references := n\<rparr>)\<rparr>)"
proof -
  define e' where "e' = e\<lparr>references := n\<rparr>"
  define w' where "w' = w\<lparr>pids := (pids w)(p \<mapsto> e')\<rparr>"
  obtain al C R M where i: "numbers w = Some al" "kinds (pids w)" "hash_inv (pids w) (buckets w) C" "retired_inv (pids w) (retired w) R"
    "number_inv (pids w) al" "gen_inv (pids w) (next_generation w)" "member_inv (pids w) (links w) M"
    by (rule pid_coreE [OF core])
  have k: "kind_ok e" "p \<noteq> 0" using kindsD [OF i(2) p(1)] by blast+
  have p3: "published e \<noteq> 3" using k(1) p(2) by (auto simp: kind_ok_def)
  have m: "\<not> live e \<longrightarrow> fam (links w) p = {}" using i(7) p(1) unfolding member_inv_def by blast
  have f: "numbers w' = Some al" "pids w' = (pids w)(p \<mapsto> e')" "buckets w' = buckets w" "retired w' = retired w"
    "next_generation w' = next_generation w" "links w' = links w" by (simp_all add: w'_def i(1))
  have "pid_core w'"
  proof (rule pid_coreI)
    show "numbers w' = Some al" by (rule f)
    show "kinds (pids w')" unfolding f by (rule kinds_upd [OF i(2) k(2)]) (use k in \<open>simp add: kind_ok_def e'_def\<close>)
    show "hash_inv (pids w') (buckets w') C" unfolding f by (rule hash_upd [OF i(3) p(1)]) (simp add: e'_def)
    show "retired_inv (pids w') (retired w') R" unfolding f by (rule retired_upd [OF i(4) p(1)]) (use p3 in \<open>simp_all add: e'_def\<close>)
    show "number_inv (pids w') al" unfolding f by (rule number_upd [OF i(5) p(1)]) (simp_all add: e'_def live_def)
    show "gen_inv (pids w') (next_generation w')" unfolding f by (rule gen_upd [OF i(6) p(1)]) (simp add: e'_def)
    show "member_inv (pids w') (links w') M" unfolding f by (rule member_upd [OF i(7) p(1)]) (use c m in \<open>simp_all add: e'_def live_def\<close>)
  qed
  then show ?thesis by (simp add: w'_def e'_def)
qed

lemma retire_core:
  assumes core: "pid_core w" and p: "pids w p = Some e" "published e = 2" and none: "fam (links w) p = {}"
  shows "pid_core (w\<lparr>pids := (pids w)(p \<mapsto> e\<lparr>published := 3, registry := False, hash_next := retired w\<rparr>), retired := p\<rparr>)"
proof -
  define e' where "e' = e\<lparr>published := 3, registry := False, hash_next := retired w\<rparr>"
  define w' where "w' = w\<lparr>pids := (pids w)(p \<mapsto> e'), retired := p\<rparr>"
  obtain al C R M where i: "numbers w = Some al" "kinds (pids w)" "hash_inv (pids w) (buckets w) C" "retired_inv (pids w) (retired w) R"
    "number_inv (pids w) al" "gen_inv (pids w) (next_generation w)" "member_inv (pids w) (links w) M"
    by (rule pid_coreE [OF core])
  have k: "kind_ok e" "p \<noteq> 0" using kindsD [OF i(2) p(1)] by blast+
  have f: "numbers w' = Some al" "pids w' = (pids w)(p \<mapsto> e')" "buckets w' = buckets w" "retired w' = p"
    "next_generation w' = next_generation w" "links w' = links w" by (simp_all add: w'_def i(1))
  have "pid_core w'"
  proof (rule pid_coreI)
    show "numbers w' = Some al" by (rule f)
    show "kinds (pids w')" unfolding f by (rule kinds_upd [OF i(2) k(2)]) (simp add: kind_ok_def e'_def)
    show "hash_inv (pids w') (buckets w') C" unfolding f by (rule hash_upd [OF i(3) p(1)]) (simp add: e'_def p(2))
    show "retired_inv (pids w') (retired w') (p # R)" unfolding f
      by (rule retired_push [OF i(4) k(2) p(1)]) (simp_all add: e'_def p(2))
    show "number_inv (pids w') al" unfolding f by (rule number_upd [OF i(5) p(1)]) (simp_all add: e'_def live_def p(2))
    show "gen_inv (pids w') (next_generation w')" unfolding f by (rule gen_upd [OF i(6) p(1)]) (simp add: e'_def)
    show "member_inv (pids w') (links w') M" unfolding f by (rule member_upd [OF i(7) p(1)]) (simp_all add: e'_def none)
  qed
  then show ?thesis by (simp add: w'_def e'_def)
qed

lemma put_core:
  assumes core: "pid_core w" and refs: "\<And>q f. pids w q = Some f \<Longrightarrow> registry f \<Longrightarrow> 0 < references f"
    and p: "pids w p = Some e" "registry e" and own: "card (fam (links w) p) < references e"
  obtains w' where "kernel_pid_put w p = Some w'" "pid_ok w'" "links w' = links w"
proof -
  obtain al C R M where i: "numbers w = Some al" "kinds (pids w)" "hash_inv (pids w) (buckets w) C" "retired_inv (pids w) (retired w) R"
    "number_inv (pids w) al" "gen_inv (pids w) (next_generation w)" "member_inv (pids w) (links w) M"
    by (rule pid_coreE [OF core])
  have k: "kind_ok e" "p \<noteq> 0" using kindsD [OF i(2) p(1)] by blast+
  have pub: "published e \<le> 2" using k(1) p(2) by (auto simp: kind_ok_def le_Suc_eq numeral_3_eq_3)
  define e1 where "e1 = e\<lparr>references := references e - 1\<rparr>"
  define w1 where "w1 = w\<lparr>pids := (pids w)(p \<mapsto> e1)\<rparr>"
  have core1: "pid_core w1" unfolding w1_def e1_def by (rule deref_core [OF core p]) (use own in simp)
  have f1: "pids w1 = (pids w)(p \<mapsto> e1)" "links w1 = links w" "pids w1 p = Some e1" by (simp_all add: w1_def)
  show ?thesis
  proof (cases "references e - 1 = 0")
    case False
    have "kernel_pid_put w p = Some w1" using k(2) p pub own False by (simp add: kernel_pid_put_def Let_def w1_def e1_def)
    moreover have "0 < references g" if "pids w1 q = Some g" "registry g" for q g
      using that refs [of q g] False by (auto simp: f1 e1_def split: if_splits)
    then have "pid_ok w1" using core1 by (simp add: pid_ok_def)
    ultimately show ?thesis using that f1(2) by blast
  next
    case True
    then have "card (fam (links w) p) = 0" using own by simp
    then have none: "fam (links w) p = {}" using fam_finite(2) [OF i(7) p(1) k(2)] by simp
    have mem: "\<forall>r<pid_roles. members e r = 0" using no_members [OF i(7) p(1) k(2)] none by blast
    have "\<exists>w2 e2. (if published e \<noteq> 2 then detach_number w1 p else Some w1) = Some w2 \<and> pid_core w2 \<and> links w2 = links w \<and>
        pids w2 p = Some e2 \<and> published e2 = 2 \<and>
        (\<forall>q f. q \<noteq> p \<longrightarrow> pids w2 q = Some f \<longrightarrow> (\<exists>g. pids w q = Some g \<and> references f = references g \<and> registry f = registry g))"
    proof (cases "published e = 2")
      case True
      then show ?thesis using core1 f1 by (intro exI [of _ w1] exI [of _ e1]) (auto simp: e1_def)
    next
      case False
      then have lv: "live e1" using pub p(2) by (simp add: live_def e1_def)
      have none1: "fam (links w1) p = {}" using none f1(2) by simp
      obtain w2 where d: "detach_number w1 p = Some w2" "pid_core w2" "links w2 = links w1"
        "pids w2 p = Some (e1\<lparr>hash_next := 0, published := 2\<rparr>)"
        "\<And>q f. q \<noteq> p \<Longrightarrow> pids w2 q = Some f \<Longrightarrow> \<exists>g. pids w1 q = Some g \<and> references f = references g \<and> registry f = registry g"
        by (rule detach_number_ok [OF core1 f1(3) lv none1]) (rule that)
      have "\<exists>g. pids w q = Some g \<and> references f = references g \<and> registry f = registry g" if "q \<noteq> p" "pids w2 q = Some f" for q f
        using d(5) [OF that] that(1) f1(1) by auto
      then show ?thesis using d(1-4) False f1(2) by (intro exI [of _ w2] exI [of _ "e1\<lparr>hash_next := 0, published := 2\<rparr>"]) auto
    qed
    then obtain w2 e2 where d: "(if published e \<noteq> 2 then detach_number w1 p else Some w1) = Some w2" "pid_core w2" "links w2 = links w"
      "pids w2 p = Some e2" "published e2 = 2"
      "\<forall>q f. q \<noteq> p \<longrightarrow> pids w2 q = Some f \<longrightarrow> (\<exists>g. pids w q = Some g \<and> references f = references g \<and> registry f = registry g)"
      by (elim exE conjE) (rule that)
    define w3 where "w3 = w2\<lparr>pids := (pids w2)(p \<mapsto> e2\<lparr>published := 3, registry := False, hash_next := retired w2\<rparr>), retired := p\<rparr>"
    have run: "kernel_pid_put w p = Some w3"
    proof -
      have "\<not> list_ex (\<lambda>r. members e r \<noteq> 0) [0..<pid_roles]" using mem by (simp add: list_ex_iff)
      then have "kernel_pid_put w p = do {
          w2 \<leftarrow> (if published e \<noteq> 2 then detach_number w1 p else Some w1);
          id2 \<leftarrow> pids w2 p;
          Some (w2\<lparr>pids := (pids w2)(p \<mapsto> id2\<lparr>published := 3, registry := False, hash_next := retired w2\<rparr>), retired := p\<rparr>)
        }"
        using k(2) p pub own True unfolding kernel_pid_put_def w1_def e1_def by (simp add: Let_def)
      then show ?thesis unfolding d(1) by (simp add: d(4) w3_def)
    qed
    have core3: "pid_core w3" unfolding w3_def by (rule retire_core [OF d(2,4,5)]) (simp add: d(3) none)
    have "0 < references g" if g: "pids w3 q = Some g" "registry g" for q g
    proof (cases "q = p")
      case True then show ?thesis using that by (auto simp: w3_def)
    next
      case False
      then obtain g' where "pids w q = Some g'" "references g = references g'" "registry g = registry g'"
        using d(6) [rule_format, of q g] g(1) by (auto simp: w3_def)
      then show ?thesis using refs g(2) by simp
    qed
    then have "pid_ok w3" using core3 by (simp add: pid_ok_def)
    moreover have "links w3 = links w" by (simp add: w3_def d(3))
    ultimately show ?thesis using that run by blast
  qed
qed

lemma take_retired_ok:
  assumes ok: "pid_ok w"
  obtains p w' where "kernel_pid_take_retired w = Some (p, w')" "pid_ok w'" "links w' = links w"
proof (cases "retired w = 0")
  case True
  then show ?thesis using that [of 0 w] ok by (simp add: kernel_pid_take_retired_def)
next
  case False
  obtain al C R M where i: "numbers w = Some al" "kinds (pids w)" "hash_inv (pids w) (buckets w) C" "retired_inv (pids w) (retired w) R"
    "number_inv (pids w) al" "gen_inv (pids w) (next_generation w)" "member_inv (pids w) (links w) M"
    by (rule pid_coreE [OF pid_okD(1) [OF ok]])
  let ?p = "retired w"
  have o: "chain (pids w) ?p R" "distinct R" "\<And>p. p \<in> set R \<longleftrightarrow> (\<exists>e. pids w p = Some e \<and> published e = 3)"
    using i(4) unfolding retired_inv_def by blast+
  obtain e R' where R: "R = ?p # R'" "pids w ?p = Some e" "chain (pids w) (hash_next e) R'" using o(1) False by (cases R) auto
  have e: "published e = 3" using o(3) [of ?p] R by auto
  have k: "kind_ok e" using kindsD [OF i(2) R(2)] by blast
  have none: "fam (links w) ?p = {}" by (rule fam_dead [OF i(7) R(2)]) (simp add: live_def e)
  define e' where "e' = e\<lparr>hash_next := 0, published := 0\<rparr>"
  define w' where "w' = w\<lparr>retired := hash_next e, pids := (pids w)(?p \<mapsto> e')\<rparr>"
  have run: "kernel_pid_take_retired w = Some (?p, w')" using False R(2) e by (simp add: kernel_pid_take_retired_def w'_def e'_def)
  have f: "numbers w' = Some al" "pids w' = (pids w)(?p \<mapsto> e')" "buckets w' = buckets w" "retired w' = hash_next e"
    "next_generation w' = next_generation w" "links w' = links w" by (simp_all add: w'_def i(1))
  have "pid_core w'"
  proof (rule pid_coreI)
    show "numbers w' = Some al" by (rule f)
    show "kinds (pids w')" unfolding f by (rule kinds_upd [OF i(2) False]) (use k e in \<open>simp add: kind_ok_def e'_def\<close>)
    show "hash_inv (pids w') (buckets w') C" unfolding f by (rule hash_upd [OF i(3) R(2)]) (simp add: e'_def e)
    show "retired_inv (pids w') (retired w') R'" unfolding f retired_inv_def
    proof (intro conjI allI)
      have n: "?p \<notin> set R'" "distinct R'" using o(2) R(1) by auto
      show "chain ((pids w)(?p \<mapsto> e')) (hash_next e) R'" using chain_frame [OF n(1)] R(3) by blast
      show "distinct R'" by (rule n)
      show "q \<in> set R' \<longleftrightarrow> (\<exists>e. ((pids w)(?p \<mapsto> e')) q = Some e \<and> published e = 3)" for q
        using o(3) [of q] R(1) n(1) by (cases "q = ?p") (auto simp: e'_def)
    qed
    show "number_inv (pids w') al" unfolding f by (rule number_upd [OF i(5) R(2)]) (use k e in \<open>simp_all add: e'_def live_def kind_ok_def\<close>)
    show "gen_inv (pids w') (next_generation w')" unfolding f by (rule gen_upd [OF i(6) R(2)]) (simp add: e'_def)
    show "member_inv (pids w') (links w') M" unfolding f by (rule member_upd [OF i(7) R(2)]) (simp_all add: e'_def none)
  qed
  moreover have "0 < references g" if "pids w' q = Some g" "registry g" for q g
    using that pid_okD(2) [OF ok, of q g] k e by (auto simp: w'_def e'_def kind_ok_def split: if_splits)
  ultimately have "pid_ok w'" by (simp add: pid_ok_def)
  then show ?thesis using that run f(6) by blast
qed

end
