(* ===== verification/Pid_Member.thy ===== *)
theory Pid_Member
  imports Pid_Put
begin

text \<open>
  The member lists: attaching a member, detaching one, and handing its place to another. All three
  rebuild the list of one identity and role and leave every other list alone; \<open>member_change\<close> is that
  step once and for all.
\<close>

lemma fam_sibs: "fam l p = (\<Union>r. sibs l p r)"
  by (auto simp: fam_def sibs_def)

lemma member_change:
  assumes inv: "member_inv h l M" and k: "kinds h" and p: "h p = Some e" "r < pid_roles"
    and null: "l' 0 = None"
    and frame: "\<And>q s m. q \<noteq> 0 \<Longrightarrow> (q, s) \<noteq> (p, r) \<Longrightarrow> m \<in> sibs l q s \<Longrightarrow> l' m = l m"
    and same: "\<And>q s. q \<noteq> 0 \<Longrightarrow> (q, s) \<noteq> (p, r) \<Longrightarrow> sibs l' q s = sibs l q s"
    and new: "dchain l' p r 0 hd' ms" "distinct ms" "set ms = sibs l' p r"
    and e': "members e' = (members e)(r := hd')" "card (fam l' p) \<le> references e'" "\<not> live e' \<longrightarrow> fam l' p = {}"
  shows "member_inv (h(p \<mapsto> e')) l' (M(p := (M p)(r := ms)))"
  unfolding member_inv_def
proof (intro conjI allI impI)
  have o: "\<And>p e r. h p = Some e \<Longrightarrow> r < pid_roles \<Longrightarrow>
        dchain l p r 0 (members e r) (M p r) \<and> distinct (M p r) \<and> set (M p r) = sibs l p r"
     "\<And>m x. l m = Some x \<Longrightarrow> identity x \<noteq> 0 \<Longrightarrow> identity x \<in> dom h \<and> role x < pid_roles"
     "\<And>p e. h p = Some e \<Longrightarrow> card (fam l p) \<le> references e \<and> (\<not> live e \<longrightarrow> fam l p = {})"
    using inv unfolding member_inv_def by blast+
  have nz: "q \<noteq> 0" if "h q = Some f" for q f using kindsD [OF k that] by blast
  show "l' 0 = None" by (rule null)
  show "identity x \<in> dom (h(p \<mapsto> e'))" "role x < pid_roles" if x: "l' m = Some x" "identity x \<noteq> 0" for m x
  proof -
    have m: "m \<in> sibs l' (identity x) (role x)" using x by (simp add: sibs_def)
    have "identity x \<in> dom (h(p \<mapsto> e')) \<and> role x < pid_roles"
    proof (cases "(identity x, role x) = (p, r)")
      case True then show ?thesis using p by auto
    next
      case False
      then have "m \<in> sibs l (identity x) (role x)" using same [OF x(2)] m by blast
      then obtain y where "l m = Some y" "identity y = identity x" "role y = role x" by (auto simp: sibs_def)
      then show ?thesis using o(2) [of m y] x(2) by auto
    qed
    then show "identity x \<in> dom (h(p \<mapsto> e'))" "role x < pid_roles" by blast+
  qed
  fix q f s assume q: "(h(p \<mapsto> e')) q = Some f" and s: "s < pid_roles"
  have A: "dchain l' q s 0 (members f s) ((M(p := (M p)(r := ms))) q s) \<and> distinct ((M(p := (M p)(r := ms))) q s) \<and>
      set ((M(p := (M p)(r := ms))) q s) = sibs l' q s"
  proof (cases "(q, s) = (p, r)")
    case True then show ?thesis using q new e'(1) by auto
  next
    case False
    obtain g where g: "h q = Some g" "members f s = members g s" using q False p e'(1) by (auto split: if_splits)
    have old: "dchain l q s 0 (members g s) (M q s)" "distinct (M q s)" "set (M q s) = sibs l q s" using o(1) [OF g(1) s] by blast+
    have "dchain l' q s 0 (members g s) (M q s) = dchain l q s 0 (members g s) (M q s)"
      by (rule dchain_cong) (use frame [OF nz [OF g(1)] False] old(3) in auto)
    moreover have "(M(p := (M p)(r := ms))) q s = M q s" using False by auto
    ultimately show ?thesis using old g(2) same [OF nz [OF g(1)] False] by simp
  qed
  show "dchain l' q s 0 (members f s) ((M(p := (M p)(r := ms))) q s)" "distinct ((M(p := (M p)(r := ms))) q s)"
    "set ((M(p := (M p)(r := ms))) q s) = sibs l' q s" using A by blast+
next
  have o: "\<And>p e. h p = Some e \<Longrightarrow> card (fam l p) \<le> references e \<and> (\<not> live e \<longrightarrow> fam l p = {})"
    using inv unfolding member_inv_def by blast
  fix q f assume q: "(h(p \<mapsto> e')) q = Some f"
  have "card (fam l' q) \<le> references f \<and> (\<not> live f \<longrightarrow> fam l' q = {})"
  proof (cases "q = p")
    case True then show ?thesis using q e' by auto
  next
    case False
    then have hq: "h q = Some f" using q by simp
    have "fam l' q = fam l q" unfolding fam_sibs using same [of q] kindsD [OF k hq] False by auto
    then show ?thesis using o [OF hq] by simp
  qed
  then show "card (fam l' q) \<le> references f" "\<not> live f \<Longrightarrow> fam l' q = {}" by blast+
qed

section \<open>Attach\<close>

lemma attach_ok:
  assumes ok: "pid_ok w" and m: "m \<noteq> 0" "links w m = Some x" "identity x = 0" and t: "t \<noteq> 0" and r: "r < pid_roles"
    and p: "pids w p = Some e" "live e" "references e < uint32_max"
  obtains w' where "kernel_pid_attach w m p r t = Some w'" "pid_ok w'"
proof -
  obtain al C R M where i: "numbers w = Some al" "kinds (pids w)" "hash_inv (pids w) (buckets w) C" "retired_inv (pids w) (retired w) R"
    "number_inv (pids w) al" "gen_inv (pids w) (next_generation w)" "member_inv (pids w) (links w) M"
    by (rule pid_coreE [OF pid_okD(1) [OF ok]])
  have k: "kind_ok e" "p \<noteq> 0" using kindsD [OF i(2) p(1)] by blast+
  have e: "registry e" "published e < 2" using p(2) by (auto simp: live_def)
  let ?l = "links w" and ?c = "members e r"
  have ms: "dchain ?l p r 0 ?c (M p r)" "distinct (M p r)" "set (M p r) = sibs ?l p r" using i(7) p(1) r unfolding member_inv_def by blast+
  have mn: "m \<notin> sibs ?l q s" if "q \<noteq> 0" for q s using m(2,3) that by (auto simp: sibs_def)
  have mM: "m \<notin> set (M p r)" using mn [OF k(2)] ms(3) by blast
  define x' where "x' = x\<lparr>identity := p, role := r, task := t, previous := 0, next_member := ?c\<rparr>"
  define l' where "l' = (if ?c \<noteq> 0 then ?l(m \<mapsto> x', ?c \<mapsto> (the (?l ?c))\<lparr>previous := m\<rparr>) else ?l(m \<mapsto> x'))"
  define e' where "e' = e\<lparr>references := references e + 1, members := (members e)(r := m)\<rparr>"
  define w' where "w' = w\<lparr>pids := (pids w)(p \<mapsto> e'), links := l'\<rparr>"
  have cM: "?c \<in> set (M p r) \<and> (\<exists>y. ?l ?c = Some y \<and> identity y = p \<and> role y = r)" if "?c \<noteq> 0"
  proof -
    have "?c \<in> set (M p r)" using ms(1) that by (cases "M p r") auto
    then show ?thesis using dchain_ids [OF ms(1)] by blast
  qed
  have cm: "?c \<noteq> m" if "?c \<noteq> 0" using cM [OF that] mM by blast
  have x': "identity x' = p" "role x' = r" "task x' \<noteq> 0" "previous x' = 0" "next_member x' = ?c" by (simp_all add: x'_def t)
  have run: "kernel_pid_attach w m p r t = Some w'"
    using m t r k(2) p(1,3) e cM cm pid_okD(2) [OF ok p(1) e(1)]
    by (auto simp: kernel_pid_attach_def kernel_pid_get_def set_link_def set_pid_def w'_def l'_def e'_def x'_def)
  have new: "dchain l' p r 0 m (m # M p r)"
    using dchain_push [OF ms(1) mM m(1) ms(2) x'] cM by (cases "?c = 0") (auto simp: l'_def simp del: fun_upd_apply dchain.simps)
  have sib: "n \<in> sibs l' q s \<longleftrightarrow> n \<in> sibs ?l q s \<or> (n, q, s) = (m, p, r)" if "q \<noteq> 0" for n q s
  proof (cases "n = m")
    case True
    then show ?thesis using mn [OF that] cm x' by (cases "?c = 0") (auto simp: sibs_def l'_def)
  next
    case False
    have ex: "\<exists>y'. l' n = Some y' \<and> identity y' = identity y \<and> role y' = role y" if "?l n = Some y" for y
      using that False cM by (auto simp: l'_def)
    have ex': "\<exists>y. ?l n = Some y \<and> identity y = identity y' \<and> role y = role y'" if "l' n = Some y'" for y'
      using that False cM by (auto simp: l'_def split: if_splits)
    show ?thesis using False ex ex' by (auto simp: sibs_def)
  qed
  have fm: "fam l' p = insert m (fam ?l p)" unfolding fam_sibs using sib [OF k(2)] by auto
  have fin: "finite (fam ?l p)" by (rule fam_finite(2) [OF i(7) p(1) k(2)])
  have cd: "card (fam ?l p) \<le> references e" using i(7) p(1) unfolding member_inv_def by blast
  have f: "numbers w' = Some al" "pids w' = (pids w)(p \<mapsto> e')" "buckets w' = buckets w" "retired w' = retired w"
    "next_generation w' = next_generation w" "links w' = l'" by (simp_all add: w'_def i(1))
  have "pid_core w'"
  proof (rule pid_coreI)
    show "numbers w' = Some al" by (rule f)
    show "kinds (pids w')" unfolding f by (rule kinds_upd [OF i(2) k(2)]) (use k in \<open>simp add: kind_ok_def e'_def\<close>)
    show "hash_inv (pids w') (buckets w') C" unfolding f by (rule hash_upd [OF i(3) p(1)]) (simp add: e'_def)
    show "retired_inv (pids w') (retired w') R" unfolding f by (rule retired_upd [OF i(4) p(1)]) (use e(2) in \<open>simp_all add: e'_def\<close>)
    show "number_inv (pids w') al" unfolding f by (rule number_upd [OF i(5) p(1)]) (simp_all add: e'_def live_def)
    show "gen_inv (pids w') (next_generation w')" unfolding f by (rule gen_upd [OF i(6) p(1)]) (simp add: e'_def)
    show "member_inv (pids w') (links w') (M(p := (M p)(r := m # M p r)))" unfolding f
    proof (rule member_change [OF i(7,2) p(1) r _ _ _ new])
      show "l' 0 = None" using i(7) m(1) by (auto simp: l'_def member_inv_def)
      show "l' n = ?l n" if "q \<noteq> 0" "(q, s) \<noteq> (p, r)" "n \<in> sibs ?l q s" for q s n
        using that mn [OF that(1), of s] cM by (auto simp: l'_def sibs_def)
      show "sibs l' q s = sibs ?l q s" if "q \<noteq> 0" "(q, s) \<noteq> (p, r)" for q s using sib [OF that(1)] that(2) by blast
      show "distinct (m # M p r)" using mM ms(2) by simp
      show "set (m # M p r) = sibs l' p r" using sib [OF k(2)] ms(3) by auto
      show "members e' = (members e)(r := m)" by (simp add: e'_def)
      show "card (fam l' p) \<le> references e'" using fm fin cd by (simp add: e'_def card_insert_if)
      show "\<not> live e' \<longrightarrow> fam l' p = {}" using p(2) by (simp add: e'_def live_def)
    qed
  qed
  moreover have "0 < references g" if "pids w' q = Some g" "registry g" for q g
    using that pid_okD(2) [OF ok, of q g] by (auto simp: w'_def e'_def split: if_splits)
  ultimately have "pid_ok w'" by (simp add: pid_ok_def)
  then show ?thesis using that run by blast
qed

section \<open>Detach and transfer\<close>

text \<open>An attached member sits in the list of its identity and role.\<close>

lemma member_place:
  assumes inv: "member_inv h l M" and k: "kinds h" and m: "l m = Some x" "identity x \<noteq> 0"
  obtains e as bs where "h (identity x) = Some e" "role x < pid_roles" "M (identity x) (role x) = as @ m # bs"
    "dchain l (identity x) (role x) 0 (members e (role x)) (as @ m # bs)" "distinct (as @ m # bs)"
    "set (as @ m # bs) = sibs l (identity x) (role x)" "live e" "0 \<notin> set (as @ m # bs)"
    "previous x = last (0 # as)" "next_member x = (case bs of [] \<Rightarrow> 0 | n # _ \<Rightarrow> n)"
proof -
  let ?p = "identity x" and ?r = "role x"
  have d: "?p \<in> dom h" "?r < pid_roles" "l 0 = None" using inv m unfolding member_inv_def by blast+
  then obtain e where e: "h ?p = Some e" by auto
  have ms: "dchain l ?p ?r 0 (members e ?r) (M ?p ?r)" "distinct (M ?p ?r)" "set (M ?p ?r) = sibs l ?p ?r"
    using inv e d(2) unfolding member_inv_def by blast+
  have mi: "m \<in> sibs l ?p ?r" using m by (simp add: sibs_def)
  then obtain as bs where M: "M ?p ?r = as @ m # bs" using ms(3) by (metis split_list)
  have z: "0 \<notin> set (as @ m # bs)" using dchain_ids [OF ms(1), of 0] d(3) M by (metis option.distinct(1))
  have "fam l ?p \<noteq> {}" using m by (auto simp: fam_def)
  then have lv: "live e" using inv e unfolding member_inv_def by blast
  have pv: "previous x = last (0 # as)"
    by (rule dchain_bypass(1) [OF ms(1) [unfolded M] ms(2) [unfolded M] z m(1)]) simp
  have "dchain l ?p ?r m (next_member x) bs" by (rule dchain_next [OF ms(1) [unfolded M] m(1)])
  then have "next_member x = (case bs of [] \<Rightarrow> 0 | n # _ \<Rightarrow> n)" by (cases bs) auto
  then show ?thesis using that [OF e d(2) M] ms M lv z pv by simp
qed

text \<open>The two ways to leave the list: \<open>ms\<close> is the list that remains, \<open>hd'\<close> its head.\<close>

lemma last_link:
  assumes "0 \<notin> set (as @ (m :: nat) # bs)" "pv = last (0 # as)"
  shows "pv \<noteq> 0 \<longleftrightarrow> as \<noteq> []" "pv \<noteq> 0 \<Longrightarrow> pv \<in> set as"
proof -
  have "last as \<in> set as" if "as \<noteq> []" using that by simp
  then have "last as \<noteq> 0" if "as \<noteq> []" using assms(1) that by (metis Un_iff set_append)
  then show "pv \<noteq> 0 \<longleftrightarrow> as \<noteq> []" using assms(2) by auto
  then show "pv \<noteq> 0 \<Longrightarrow> pv \<in> set as" using assms(2) by auto
qed

lemma member_leave:
  assumes inv: "member_inv h l M" and k: "kinds h" and m: "l m = Some x" "identity x \<noteq> 0" and e: "h (identity x) = Some e" "role x < pid_roles"
    and l1: "\<And>n. n \<notin> sibs l (identity x) (role x) \<Longrightarrow> n \<notin> N \<Longrightarrow> l1 n = l n"
      "\<And>n y. l n = Some y \<Longrightarrow> n \<notin> N \<Longrightarrow> \<exists>y'. l1 n = Some y' \<and> identity y' = identity y \<and> role y' = role y"
      "\<And>n y'. l1 n = Some y' \<Longrightarrow> n \<notin> N \<Longrightarrow> \<exists>y. l n = Some y \<and> identity y' = identity y \<and> role y' = role y"
    and N: "\<And>n. n \<in> N \<Longrightarrow> n \<noteq> 0 \<and> n \<noteq> m \<and> (\<exists>y. l n = Some y \<and> identity y = 0) \<and>
        (\<exists>y. l1 n = Some y \<and> identity y = identity x \<and> role y = role x)"
    and new: "dchain l1 (identity x) (role x) 0 hd' ms" "distinct ms" "set ms = sibs l (identity x) (role x) - {m} \<union> N"
    and x': "identity x' = 0"
    and e': "members e' = (members e)(role x := hd')" "card (fam l (identity x) - {m} \<union> N) \<le> references e'" "live e'"
  shows "member_inv (h(identity x \<mapsto> e')) (l1(m \<mapsto> x')) (M(identity x := (M (identity x))(role x := ms))) \<and>
    fam (l1(m \<mapsto> x')) (identity x) = fam l (identity x) - {m} \<union> N"
proof (intro conjI)
  let ?p = "identity x" and ?r = "role x" and ?l = "l1(m \<mapsto> x')"
  have l0: "l 0 = None" using inv unfolding member_inv_def by blast
  have m0: "m \<noteq> 0" using m(1) l0 by (metis option.distinct(1))
  have z: "l1 0 = None" using l1(1) [of 0] N [of 0] l0 by (auto simp: sibs_def)
  have NN: "n \<notin> sibs l q s" if "n \<in> N" "q \<noteq> 0" for n q s using N [OF that(1)] that(2) by (auto simp: sibs_def)
  have sib: "n \<in> sibs ?l q s \<longleftrightarrow> n \<in> sibs l q s - {m} \<or> n \<in> N \<and> (q, s) = (?p, ?r)" if "q \<noteq> 0" for n q s
  proof -
    consider "n = m" | "n \<noteq> m" "n \<in> N" | "n \<noteq> m" "n \<notin> N" by blast
    then show ?thesis
    proof cases
      case 1 then show ?thesis using x' that N [of m] by (auto simp: sibs_def)
    next
      case 2
      then obtain y where y: "l1 n = Some y" "identity y = ?p" "role y = ?r" using N by blast
      then show ?thesis using 2 NN [OF 2(2) that] by (auto simp: sibs_def)
    next
      case 3
      have "n \<in> sibs ?l q s \<longleftrightarrow> n \<in> sibs l q s"
      proof
        assume "n \<in> sibs ?l q s"
        then obtain y' where y': "l1 n = Some y'" "identity y' = q" "role y' = s" using 3 by (auto simp: sibs_def)
        obtain y where "l n = Some y \<and> identity y' = identity y \<and> role y' = role y" using l1(3) [OF y'(1) 3(2)] by (rule exE)
        then show "n \<in> sibs l q s" using y' by (simp add: sibs_def)
      next
        assume "n \<in> sibs l q s"
        then obtain y where y: "l n = Some y" "identity y = q" "role y = s" by (auto simp: sibs_def)
        obtain y' where "l1 n = Some y' \<and> identity y' = identity y \<and> role y' = role y" using l1(2) [OF y(1) 3(2)] by (rule exE)
        then show "n \<in> sibs ?l q s" using y 3(1) by (simp add: sibs_def)
      qed
      then show ?thesis using 3 by simp
    qed
  qed
  show fm: "fam ?l ?p = fam l ?p - {m} \<union> N" unfolding fam_sibs using sib [OF m(2)] by auto
  show "member_inv (h(?p \<mapsto> e')) ?l (M(?p := (M ?p)(?r := ms)))"
  proof (rule member_change [OF inv k e])
    show "?l 0 = None" using z m0 by simp
    show "?l n = l n" if "q \<noteq> 0" "(q, s) \<noteq> (?p, ?r)" "n \<in> sibs l q s" for q s n
    proof -
      have "n \<notin> sibs l ?p ?r" using that(2,3) by (auto simp: sibs_def)
      moreover have "n \<noteq> m" using m(1) that(2,3) by (auto simp: sibs_def)
      ultimately show ?thesis using l1(1) NN that(1,3) by auto
    qed
    show "sibs ?l q s = sibs l q s" if "q \<noteq> 0" "(q, s) \<noteq> (?p, ?r)" for q s
    proof -
      have "m \<notin> sibs l q s" using m(1) that(2) by (auto simp: sibs_def)
      then show ?thesis using sib [OF that(1)] that(2) by blast
    qed
    have "m \<notin> set ms" using new(3) N [of m] by auto
    then show "dchain ?l ?p ?r 0 hd' ms" using new(1) dchain_frame by blast
    show "distinct ms" by (rule new(2))
    show "set ms = sibs ?l ?p ?r" using sib [OF m(2)] new(3) by auto
    show "members e' = (members e)(?r := hd')" by (rule e')
    show "card (fam ?l ?p) \<le> references e'" using fm e'(2) by simp
    show "\<not> live e' \<longrightarrow> fam ?l ?p = {}" using e'(3) by blast
  qed
qed

lemma bypass_keeps:
  assumes "previous x \<noteq> 0 \<Longrightarrow> l (previous x) \<noteq> None" "next_member x \<noteq> 0 \<Longrightarrow> l (next_member x) \<noteq> None"
  obtains g where "bypass l x n = map_option g (l n)" "\<And>y. identity (g y) = identity y" "\<And>y. role (g y) = role y"
proof -
  define g1 where "g1 = (\<lambda>y :: kernel_pid_member. if previous x \<noteq> 0 \<and> n = previous x then y\<lparr>next_member := next_member x\<rparr> else y)"
  define g2 where "g2 = (\<lambda>y :: kernel_pid_member. if next_member x \<noteq> 0 \<and> n = next_member x then y\<lparr>previous := previous x\<rparr> else y)"
  have "bypass l x n = map_option (g2 \<circ> g1) (l n)"
    using assms by (cases "previous x = 0"; cases "next_member x = 0"; cases "l n") (auto simp: bypass_def Let_def g1_def g2_def)
  moreover have "identity ((g2 \<circ> g1) y) = identity y" "role ((g2 \<circ> g1) y) = role y" for y by (simp_all add: g1_def g2_def)
  ultimately show ?thesis using that by blast
qed

lemma swap_keeps:
  assumes "previous x \<noteq> 0 \<Longrightarrow> l (previous x) \<noteq> None" "next_member x \<noteq> 0 \<Longrightarrow> l (next_member x) \<noteq> None" "n \<noteq> q"
  obtains g where "swap_link l x q t n = map_option g (l n)" "\<And>y. identity (g y) = identity y" "\<And>y. role (g y) = role y"
proof -
  define g1 where "g1 = (\<lambda>y :: kernel_pid_member. if previous x \<noteq> 0 \<and> n = previous x then y\<lparr>next_member := q\<rparr> else y)"
  define g2 where "g2 = (\<lambda>y :: kernel_pid_member. if next_member x \<noteq> 0 \<and> n = next_member x then y\<lparr>previous := q\<rparr> else y)"
  have "swap_link l x q t n = map_option (g2 \<circ> g1) (l n)"
    using assms by (cases "previous x = 0"; cases "next_member x = 0"; cases "l n") (auto simp: swap_link_def Let_def g1_def g2_def)
  moreover have "identity ((g2 \<circ> g1) y) = identity y" "role ((g2 \<circ> g1) y) = role y" for y by (simp_all add: g1_def g2_def)
  ultimately show ?thesis using that by blast
qed

lemma detach_unlinks:
  assumes core: "pid_core w" and m: "links w m = Some x" "identity x \<noteq> 0"
  obtains w3 e e3 where "pids w (identity x) = Some e" "live e" "e3 = e\<lparr>members := members e3\<rparr>"
    "pids w3 = (pids w)(identity x \<mapsto> e3)" "pid_core w3" "fam (links w3) (identity x) = fam (links w) (identity x) - {m}" "m \<noteq> 0"
    "kernel_pid_detach w m = do {
       w4 \<leftarrow> (if published e3 = 1 \<and> list_all (\<lambda>r. members e3 r = 0) [0..<pid_roles] then detach_number w3 (identity x) else Some w3);
       kernel_pid_put w4 (identity x)
     }"
proof -
  obtain al C R M where i: "numbers w = Some al" "kinds (pids w)" "hash_inv (pids w) (buckets w) C" "retired_inv (pids w) (retired w) R"
    "number_inv (pids w) al" "gen_inv (pids w) (next_generation w)" "member_inv (pids w) (links w) M"
    by (rule pid_coreE [OF core])
  let ?p = "identity x" and ?r = "role x" and ?l = "links w"
  obtain e as bs where e: "pids w ?p = Some e" "?r < pid_roles" "M ?p ?r = as @ m # bs"
    "dchain ?l ?p ?r 0 (members e ?r) (as @ m # bs)" "distinct (as @ m # bs)" "set (as @ m # bs) = sibs ?l ?p ?r" "live e"
    "0 \<notin> set (as @ m # bs)" "previous x = last (0 # as)" "next_member x = (case bs of [] \<Rightarrow> 0 | n # _ \<Rightarrow> n)"
    by (rule member_place [OF i(7,2) m])
  have k: "kind_ok e" "?p \<noteq> 0" using kindsD [OF i(2) e(1)] by blast+
  note pv = last_link [OF e(8,9)]
  have nx: "next_member x \<noteq> 0 \<Longrightarrow> next_member x \<in> set bs" using e(10) by (cases bs) auto
  have dom: "n \<in> set (as @ m # bs) \<Longrightarrow> \<exists>y. ?l n = Some y" for n using e(6) by (auto simp: sibs_def)
  have pd: "previous x \<noteq> 0 \<Longrightarrow> ?l (previous x) \<noteq> None" "next_member x \<noteq> 0 \<Longrightarrow> ?l (next_member x) \<noteq> None"
    using dom [of "previous x"] dom [of "next_member x"] pv(2) nx by auto
  have pm: "previous x \<noteq> m" "next_member x \<noteq> m" using pv nx e(5,8) by auto
  define hd' where "hd' = (if as = [] then next_member x else members e ?r)"
  define l1 where "l1 = bypass ?l x"
  define x' where "x' = x\<lparr>identity := 0, task := 0, next_member := 0, previous := 0\<rparr>"
  define e3 where "e3 = e\<lparr>members := (members e)(?r := hd')\<rparr>"
  define w3 where "w3 = w\<lparr>pids := (pids w)(?p \<mapsto> e3), links := l1(m \<mapsto> x')\<rparr>"
  have lm: "l1 m = Some x" using pm m(1) by (simp add: l1_def bypass_def Let_def)
  have e3': "e3 = e\<lparr>members := members e3\<rparr>" by (simp add: e3_def)
  have fin: "finite (fam ?l ?p)" by (rule fam_finite(2) [OF i(7) e(1) k(2)])
  have cd: "card (fam ?l ?p) \<le> references e" using i(7) e(1) unfolding member_inv_def by blast
  have ch: "dchain l1 ?p ?r 0 hd' (as @ bs)" unfolding l1_def hd'_def
    by (rule dchain_bypass(2) [OF e(4,5,8) m(1)]) simp
  have "member_inv ((pids w)(?p \<mapsto> e3)) (l1(m \<mapsto> x')) (M(?p := (M ?p)(?r := as @ bs))) \<and>
    fam (l1(m \<mapsto> x')) ?p = fam ?l ?p - {m} \<union> {}"
  proof (rule member_leave [OF i(7,2) m e(1,2), where N = "{}"], goal_cases)
    case (1 n)
    then have "n \<noteq> previous x \<or> previous x = 0" "n \<noteq> next_member x \<or> next_member x = 0" using pv nx e(6) by auto
    then show ?case by (auto simp: l1_def bypass_def Let_def)
  next
    case (2 n y)
    obtain g where "bypass ?l x n = map_option g (?l n)" "\<And>y. identity (g y) = identity y" "\<And>y. role (g y) = role y"
      by (rule bypass_keeps [OF pd, of n]) (assumption, assumption, rule that)
    then show ?case using 2 by (simp add: l1_def)
  next
    case (3 n y')
    obtain g where "bypass ?l x n = map_option g (?l n)" "\<And>y. identity (g y) = identity y" "\<And>y. role (g y) = role y"
      by (rule bypass_keeps [OF pd, of n]) (assumption, assumption, rule that)
    then show ?case using 3 by (cases "?l n") (auto simp: l1_def)
  qed (use ch e(5,6,7) fin cd card_mono [of "fam ?l ?p" "fam ?l ?p - {m}"] in \<open>auto simp: x'_def e3_def live_def\<close>)
  note lv = conjunct1 [OF this] conjunct2 [OF this]
  have f: "numbers w3 = Some al" "pids w3 = (pids w)(?p \<mapsto> e3)" "buckets w3 = buckets w" "retired w3 = retired w"
    "next_generation w3 = next_generation w" "links w3 = l1(m \<mapsto> x')" by (simp_all add: w3_def i(1))
  have "pid_core w3"
  proof (rule pid_coreI)
    show "numbers w3 = Some al" by (rule f)
    show "kinds (pids w3)" unfolding f by (rule kinds_upd [OF i(2) k(2)]) (use k in \<open>simp add: kind_ok_def e3_def\<close>)
    show "hash_inv (pids w3) (buckets w3) C" unfolding f by (rule hash_upd [OF i(3) e(1)]) (simp add: e3_def)
    show "retired_inv (pids w3) (retired w3) R" unfolding f by (rule retired_upd [OF i(4) e(1)]) (use e(7) in \<open>simp_all add: e3_def live_def\<close>)
    show "number_inv (pids w3) al" unfolding f by (rule number_upd [OF i(5) e(1)]) (simp_all add: e3_def live_def)
    show "gen_inv (pids w3) (next_generation w3)" unfolding f by (rule gen_upd [OF i(6) e(1)]) (simp add: e3_def)
    show "member_inv (pids w3) (links w3) (M(?p := (M ?p)(?r := as @ bs)))" unfolding f by (rule lv)
  qed
  have m0: "m \<noteq> 0" using e(8) by (metis in_set_conv_decomp)
  define wa where "wa = (if previous x \<noteq> 0 then w\<lparr>links := ?l(previous x \<mapsto> (the (?l (previous x)))\<lparr>next_member := next_member x\<rparr>)\<rparr>
    else w\<lparr>pids := (pids w)(?p \<mapsto> e3)\<rparr>)"
  have ea: "(pids w)(?p \<mapsto> e3) = pids w" if "previous x \<noteq> 0"
    using that pv(1) e(1) by (auto simp: e3_def hd'_def fun_eq_iff)
  have sa: "(if previous x \<noteq> 0 then set_link w (previous x) (\<lambda>y. y\<lparr>next_member := next_member x\<rparr>)
      else set_pid w ?p (\<lambda>id. id\<lparr>members := (members id)(?r := next_member x)\<rparr>)) = Some wa"
    using pd(1) e(1) pv(1) by (cases "previous x = 0") (auto simp: wa_def set_link_def set_pid_def e3_def hd'_def)
  have sb: "(if next_member x \<noteq> 0 then set_link wa (next_member x) (\<lambda>y. y\<lparr>previous := previous x\<rparr>) else Some wa) =
      Some (wa\<lparr>links := l1\<rparr>)"
    using pd by (cases "previous x = 0"; cases "next_member x = 0") (auto simp: wa_def set_link_def l1_def bypass_def Let_def)
  have sc: "set_link (wa\<lparr>links := l1\<rparr>) m (\<lambda>y. y\<lparr>identity := 0, task := 0, next_member := 0, previous := 0\<rparr>) = Some w3"
    using lm ea by (cases "previous x = 0") (auto simp: set_link_def wa_def w3_def x'_def)
  have "kernel_pid_detach w m = do {
       w4 \<leftarrow> (if published e3 = 1 \<and> list_all (\<lambda>r. members e3 r = 0) [0..<pid_roles] then detach_number w3 ?p else Some w3);
       kernel_pid_put w4 ?p
     }"
    unfolding kernel_pid_detach_def using m0 m(1,2) by (simp only: sa sb sc f(2) if_False bind.bind_lunit fun_upd_same)
  then show ?thesis using that [OF e(1,7) e3' f(2) \<open>pid_core w3\<close> _ m0] lv(2) f(6) by simp
qed

lemma detach_ok:
  assumes ok: "pid_ok w" and m: "links w m = Some x" "identity x \<noteq> 0"
  obtains w' where "kernel_pid_detach w m = Some w'" "pid_ok w'"
proof -
  let ?p = "identity x"
  obtain w3 e e3 where d: "pids w ?p = Some e" "live e" "e3 = e\<lparr>members := members e3\<rparr>"
    "pids w3 = (pids w)(?p \<mapsto> e3)" "pid_core w3" "fam (links w3) ?p = fam (links w) ?p - {m}" "m \<noteq> 0"
    "kernel_pid_detach w m = do {
       w4 \<leftarrow> (if published e3 = 1 \<and> list_all (\<lambda>r. members e3 r = 0) [0..<pid_roles] then detach_number w3 ?p else Some w3);
       kernel_pid_put w4 ?p
     }" by (rule detach_unlinks [OF pid_okD(1) [OF ok] m])
  have e3: "registry e3" "references e3 = references e" "live e3" using d(2,3) by (metis kernel_pid.select_convs kernel_pid.surjective kernel_pid.update_convs(7) live_def)+
  obtain al C R M where i: "kinds (pids w)" "member_inv (pids w) (links w) M"
    by (rule pid_coreE [OF pid_okD(1) [OF ok]])
  obtain M3 where i3: "kinds (pids w3)" "member_inv (pids w3) (links w3) M3"
    by (rule pid_coreE [OF d(5)])
  have p0: "?p \<noteq> 0" by (rule m(2))
  have h3: "pids w3 ?p = Some e3" by (simp add: d(4))
  have mf: "m \<in> fam (links w) ?p" using m by (simp add: fam_def)
  have "card (fam (links w3) ?p) < card (fam (links w) ?p)"
    unfolding d(6) by (rule card_Diff1_less [OF fam_finite(2) [OF i(2) d(1) p0] mf])
  also have "\<dots> \<le> references e" using i(2) d(1) unfolding member_inv_def by blast
  finally have own: "card (fam (links w3) ?p) < references e3" using e3(2) by simp
  have refs: "0 < references f" if "pids w3 q = Some f" "registry f" for q f
    using that pid_okD(2) [OF ok, of q f] own by (auto simp: d(4) split: if_splits)
  show ?thesis
  proof (cases "published e3 = 1 \<and> list_all (\<lambda>r. members e3 r = 0) [0..<pid_roles]")
    case False
    obtain w' where "kernel_pid_put w3 ?p = Some w'" "pid_ok w'" by (rule put_core [OF d(5) refs h3 e3(1) own])
    then show ?thesis using that d(8) False by auto
  next
    case True
    then have none: "fam (links w3) ?p = {}" using no_members [OF i3(2) h3 p0] by (simp add: list_all_iff)
    obtain w4 where w4: "detach_number w3 ?p = Some w4" "pid_core w4" "links w4 = links w3"
      "pids w4 ?p = Some (e3\<lparr>hash_next := 0, published := 2\<rparr>)"
      "\<And>q f. q \<noteq> ?p \<Longrightarrow> pids w4 q = Some f \<Longrightarrow> \<exists>g. pids w3 q = Some g \<and> references f = references g \<and> registry f = registry g"
      by (rule detach_number_ok [OF d(5) h3 e3(3) none]) (rule that)
    have "0 < references f" if f: "pids w4 q = Some f" "registry f" for q f
    proof (cases "q = ?p")
      case True then show ?thesis using f w4(4) own by auto
    next
      case False
      obtain g where "pids w3 q = Some g \<and> references f = references g \<and> registry f = registry g" using w4(5) [OF False f(1)] by (rule exE)
      then show ?thesis using refs [of q g] f(2) by simp
    qed
    then obtain w' where "kernel_pid_put w4 ?p = Some w'" "pid_ok w'"
      by (rule put_core [OF w4(2) _ w4(4)]) (use e3 own w4(3) in auto)
    then show ?thesis using that d(8) True w4(1) by auto
  qed
qed

lemma transfer_ok:
  assumes ok: "pid_ok w" and m: "links w m = Some x" "identity x \<noteq> 0" and q: "links w q = Some y" "identity y = 0" and t: "t \<noteq> 0"
  obtains w' where "kernel_pid_transfer w m q t = Some w'" "pid_ok w'"
proof -
  obtain al C R M where i: "numbers w = Some al" "kinds (pids w)" "hash_inv (pids w) (buckets w) C" "retired_inv (pids w) (retired w) R"
    "number_inv (pids w) al" "gen_inv (pids w) (next_generation w)" "member_inv (pids w) (links w) M"
    by (rule pid_coreE [OF pid_okD(1) [OF ok]])
  let ?p = "identity x" and ?r = "role x" and ?l = "links w"
  obtain e as bs where e: "pids w ?p = Some e" "?r < pid_roles" "M ?p ?r = as @ m # bs"
    "dchain ?l ?p ?r 0 (members e ?r) (as @ m # bs)" "distinct (as @ m # bs)" "set (as @ m # bs) = sibs ?l ?p ?r" "live e"
    "0 \<notin> set (as @ m # bs)" "previous x = last (0 # as)" "next_member x = (case bs of [] \<Rightarrow> 0 | n # _ \<Rightarrow> n)"
    by (rule member_place [OF i(7,2) m])
  have k: "kind_ok e" "?p \<noteq> 0" using kindsD [OF i(2) e(1)] by blast+
  note pv = last_link [OF e(8,9)]
  have nx: "next_member x \<noteq> 0 \<Longrightarrow> next_member x \<in> set bs" using e(10) by (cases bs) auto
  have dom: "n \<in> set (as @ m # bs) \<Longrightarrow> \<exists>y. ?l n = Some y" for n using e(6) by (auto simp: sibs_def)
  have pd: "previous x \<noteq> 0 \<Longrightarrow> ?l (previous x) \<noteq> None" "next_member x \<noteq> 0 \<Longrightarrow> ?l (next_member x) \<noteq> None"
    using dom [of "previous x"] dom [of "next_member x"] pv(2) nx by auto
  have l0: "?l 0 = None" using i(7) unfolding member_inv_def by blast
  have q0: "q \<noteq> 0" "m \<noteq> 0" using q(1) m(1) l0 by (metis option.distinct(1))+
  have qn: "q \<notin> set (as @ m # bs)" using e(6) q m(2) by (auto simp: sibs_def)
  have pm: "previous x \<noteq> m" "next_member x \<noteq> m" "previous x \<noteq> q" "next_member x \<noteq> q" "q \<noteq> m"
    using pv nx e(5,8) qn q0 by auto
  define hd' where "hd' = (if as = [] then q else members e ?r)"
  define l1 where "l1 = swap_link ?l x q t"
  define x' where "x' = x\<lparr>identity := 0, task := 0, next_member := 0, previous := 0\<rparr>"
  define e3 where "e3 = e\<lparr>members := (members e)(?r := hd')\<rparr>"
  define w3 where "w3 = w\<lparr>pids := (pids w)(?p \<mapsto> e3), links := l1(m \<mapsto> x')\<rparr>"
  have lm: "l1 m = Some x" "l1 q = Some (x\<lparr>task := t\<rparr>)" using pm m(1) by (simp_all add: l1_def swap_link_def Let_def)
  have fin: "finite (fam ?l ?p)" by (rule fam_finite(2) [OF i(7) e(1) k(2)])
  have mf: "m \<in> fam ?l ?p" "q \<notin> fam ?l ?p" using m q by (auto simp: fam_def)
  have cd: "card (fam ?l ?p) \<le> references e" using i(7) e(1) unfolding member_inv_def by blast
  have cd': "card (fam ?l ?p - {m} \<union> {q}) = card (fam ?l ?p)"
    using fin mf card_Suc_Diff1 [OF fin mf(1)] by simp
  have ch: "dchain l1 ?p ?r 0 hd' (as @ q # bs)" unfolding l1_def hd'_def
    by (rule dchain_swap [OF e(4,5,8) m(1) qn q0(1) q0(1) t])
  have st: "set (as @ q # bs) = sibs ?l ?p ?r - {m} \<union> {q}" using e(5,6) by auto
  have "member_inv ((pids w)(?p \<mapsto> e3)) (l1(m \<mapsto> x')) (M(?p := (M ?p)(?r := as @ q # bs))) \<and>
    fam (l1(m \<mapsto> x')) ?p = fam ?l ?p - {m} \<union> {q}"
  proof (rule member_leave [OF i(7,2) m e(1,2), where N = "{q}"], goal_cases)
    case (1 n)
    then have "n \<noteq> previous x \<or> previous x = 0" "n \<noteq> next_member x \<or> next_member x = 0" "n \<noteq> q" using pv nx e(6) by auto
    then show ?case by (auto simp: l1_def swap_link_def Let_def)
  next
    case (2 n y)
    then have "n \<noteq> q" by simp
    obtain g where "swap_link ?l x q t n = map_option g (?l n)" "\<And>y. identity (g y) = identity y" "\<And>y. role (g y) = role y"
      by (rule swap_keeps [OF pd \<open>n \<noteq> q\<close>, of t]) (assumption, assumption, rule that)
    then show ?case using 2 by (simp add: l1_def)
  next
    case (3 n y')
    then have "n \<noteq> q" by simp
    obtain g where "swap_link ?l x q t n = map_option g (?l n)" "\<And>y. identity (g y) = identity y" "\<And>y. role (g y) = role y"
      by (rule swap_keeps [OF pd \<open>n \<noteq> q\<close>, of t]) (assumption, assumption, rule that)
    then show ?case using 3 by (cases "?l n") (auto simp: l1_def)
  next
    case 10 then show ?case using cd cd' by (simp add: e3_def)
  qed (use ch e(5,7) st q q0 pm lm qn in \<open>auto simp: x'_def e3_def live_def\<close>)
  note lv = conjunct1 [OF this]
  have f: "numbers w3 = Some al" "pids w3 = (pids w)(?p \<mapsto> e3)" "buckets w3 = buckets w" "retired w3 = retired w"
    "next_generation w3 = next_generation w" "links w3 = l1(m \<mapsto> x')" by (simp_all add: w3_def i(1))
  have "pid_core w3"
  proof (rule pid_coreI)
    show "numbers w3 = Some al" by (rule f)
    show "kinds (pids w3)" unfolding f by (rule kinds_upd [OF i(2) k(2)]) (use k in \<open>simp add: kind_ok_def e3_def\<close>)
    show "hash_inv (pids w3) (buckets w3) C" unfolding f by (rule hash_upd [OF i(3) e(1)]) (simp add: e3_def)
    show "retired_inv (pids w3) (retired w3) R" unfolding f by (rule retired_upd [OF i(4) e(1)]) (use e(7) in \<open>simp_all add: e3_def live_def\<close>)
    show "number_inv (pids w3) al" unfolding f by (rule number_upd [OF i(5) e(1)]) (simp_all add: e3_def live_def)
    show "gen_inv (pids w3) (next_generation w3)" unfolding f by (rule gen_upd [OF i(6) e(1)]) (simp add: e3_def)
    show "member_inv (pids w3) (links w3) (M(?p := (M ?p)(?r := as @ q # bs)))" unfolding f by (rule lv)
  qed
  moreover have "0 < references g" if "pids w3 a = Some g" "registry g" for a g
    using that pid_okD(2) [OF ok, of a g] pid_okD(2) [OF ok e(1)] by (auto simp: f(2) e3_def split: if_splits)
  ultimately have okw: "pid_ok w3" by (simp add: pid_ok_def)
  define w0 where "w0 = w\<lparr>links := ?l(q \<mapsto> x\<lparr>task := t\<rparr>)\<rparr>"
  define wa where "wa = (if previous x \<noteq> 0 then w0\<lparr>links := (links w0)(previous x \<mapsto> (the (links w0 (previous x)))\<lparr>next_member := q\<rparr>)\<rparr>
    else w0\<lparr>pids := (pids w)(?p \<mapsto> e3)\<rparr>)"
  have ea: "(pids w)(?p \<mapsto> e3) = pids w" if "previous x \<noteq> 0"
    using that pv(1) e(1) by (auto simp: e3_def hd'_def fun_eq_iff)
  have s0: "set_link w q (\<lambda>_. x\<lparr>task := t\<rparr>) = Some w0" using q(1) by (simp add: set_link_def w0_def)
  have sa: "(if previous x \<noteq> 0 then set_link w0 (previous x) (\<lambda>z. z\<lparr>next_member := q\<rparr>)
      else set_pid w0 ?p (\<lambda>id. id\<lparr>members := (members id)(?r := q)\<rparr>)) = Some wa"
    using pd(1) e(1) pv(1) pm by (cases "previous x = 0") (auto simp: wa_def w0_def set_link_def set_pid_def e3_def hd'_def)
  have sb: "(if next_member x \<noteq> 0 then set_link wa (next_member x) (\<lambda>z. z\<lparr>previous := q\<rparr>) else Some wa) =
      Some (wa\<lparr>links := l1\<rparr>)"
    using pd pm by (cases "previous x = 0"; cases "next_member x = 0") (auto simp: wa_def w0_def set_link_def l1_def swap_link_def Let_def)
  have sc: "set_link (wa\<lparr>links := l1\<rparr>) m (\<lambda>y. y\<lparr>identity := 0, task := 0, next_member := 0, previous := 0\<rparr>) = Some w3"
    using lm ea by (cases "previous x = 0") (auto simp: set_link_def wa_def w0_def w3_def x'_def)
  have "kernel_pid_transfer w m q t = Some w3"
    unfolding kernel_pid_transfer_def using q0 m q t by (simp only: s0 sa sb sc bind.bind_lunit if_False simp_thms)
  then show ?thesis using that okw by blast
qed

end
