(* ===== verification/Pid_World.thy ===== *)
theory Pid_World
  imports Pid_Member
begin

text \<open>
  Histories of registry calls. A call is allowed when its caller keeps the contract of the header;
  from a fresh registry every allowed call returns, and the invariant holds throughout.
\<close>

datatype pid_call =
    Reserve ptr
  | Publish_reserved ptr
  | Publish ptr
  | Get ptr
  | Put ptr
  | Attach ptr ptr nat ptr
  | Detach ptr
  | Transfer ptr ptr ptr
  | Take_retired

fun pid_run :: "pid_call \<Rightarrow> pid_world \<Rightarrow> pid_world option" where
  "pid_run (Reserve p) w = map_option snd (kernel_pid_reserve w p)"
| "pid_run (Publish_reserved p) w = map_option snd (kernel_pid_publish_reserved w p)"
| "pid_run (Publish p) w = map_option snd (kernel_pid_publish w p)"
| "pid_run (Get p) w = kernel_pid_get w p"
| "pid_run (Put p) w = kernel_pid_put w p"
| "pid_run (Attach m p r t) w = kernel_pid_attach w m p r t"
| "pid_run (Detach m) w = kernel_pid_detach w m"
| "pid_run (Transfer m q t) w = kernel_pid_transfer w m q t"
| "pid_run Take_retired w = map_option snd (kernel_pid_take_retired w)"

text \<open>
  The contract: the objects exist; a reference is taken only of a registered identity and below the
  counter's limit; it is dropped only by a holder, so the count exceeds the attached members.
\<close>

definition allowed_on :: "pid_world \<Rightarrow> ptr \<Rightarrow> (kernel_pid \<Rightarrow> bool) \<Rightarrow> bool" where
  "allowed_on w p P = (case pids w p of None \<Rightarrow> False | Some e \<Rightarrow> P e)"

definition linked :: "pid_world \<Rightarrow> ptr \<Rightarrow> bool" where
  "linked w m = (case links w m of None \<Rightarrow> False | Some x \<Rightarrow> identity x \<noteq> 0)"

definition unlinked :: "pid_world \<Rightarrow> ptr \<Rightarrow> bool" where
  "unlinked w m = (case links w m of None \<Rightarrow> False | Some x \<Rightarrow> identity x = 0)"

fun allowed :: "pid_call \<Rightarrow> pid_world \<Rightarrow> bool" where
  "allowed (Reserve p) w = allowed_on w p (\<lambda>_. True)"
| "allowed (Publish_reserved p) w = allowed_on w p (\<lambda>_. True)"
| "allowed (Publish p) w = allowed_on w p (\<lambda>_. True)"
| "allowed (Get p) w = allowed_on w p (\<lambda>e. registry e \<and> references e < uint32_max)"
| "allowed (Put p) w = allowed_on w p (\<lambda>e. registry e \<and> card (fam (links w) p) < references e)"
| "allowed (Attach m p r t) w = (unlinked w m \<and> t \<noteq> 0 \<and> r < pid_roles \<and> allowed_on w p (\<lambda>e. live e \<and> references e < uint32_max))"
| "allowed (Detach m) w = linked w m"
| "allowed (Transfer m q t) w = (linked w m \<and> unlinked w q \<and> t \<noteq> 0)"
| "allowed Take_retired w = True"

lemma linkedD: "linked w m \<Longrightarrow> \<exists>x. links w m = Some x \<and> identity x \<noteq> 0" "unlinked w m \<Longrightarrow> \<exists>x. links w m = Some x \<and> identity x = 0"
  by (auto simp: linked_def unlinked_def split: option.splits)

lemma allowed_onD: "allowed_on w p P \<Longrightarrow> \<exists>e. pids w p = Some e \<and> P e"
  by (auto simp: allowed_on_def split: option.splits)

lemma nonnull:
  assumes "pid_ok w"
  shows "pids w p = Some e \<Longrightarrow> p \<noteq> 0" "links w m = Some x \<Longrightarrow> m \<noteq> 0"
proof -
  obtain al C R M where i: "kinds (pids w)" "member_inv (pids w) (links w) M" by (rule pid_coreE [OF pid_okD(1) [OF assms]])
  show "pids w p = Some e \<Longrightarrow> p \<noteq> 0" using kindsD [OF i(1)] by blast
  show "links w m = Some x \<Longrightarrow> m \<noteq> 0" using i(2) unfolding member_inv_def by (metis option.distinct(1))
qed

lemma pid_run_ok:
  assumes ok: "pid_ok w" and c: "allowed c w"
  shows "\<exists>w'. pid_run c w = Some w' \<and> pid_ok w'"
proof (cases c)
  case (Reserve p)
  then obtain e where e: "pids w p = Some e" using c allowed_onD by force
  obtain st w' where "kernel_pid_reserve w p = Some (st, w')" "pid_ok w'" by (rule reserve_ok [OF ok nonnull(1) [OF ok e] e])
  then show ?thesis using Reserve by simp
next
  case (Publish_reserved p)
  then obtain e where e: "pids w p = Some e" using c allowed_onD by force
  obtain st w' where "kernel_pid_publish_reserved w p = Some (st, w')" "pid_ok w'"
    by (rule publish_reserved_ok [OF ok nonnull(1) [OF ok e] e])
  then show ?thesis using Publish_reserved by simp
next
  case (Publish p)
  then obtain e where e: "pids w p = Some e" using c allowed_onD by force
  note p0 = nonnull(1) [OF ok e]
  obtain st w1 where r: "kernel_pid_reserve w p = Some (st, w1)" "pid_ok w1"
    "st = PID_OK \<Longrightarrow> \<not> registry e \<and> published e = 0 \<and>
      (\<exists>n. pids w1 = (pids w)(p \<mapsto> e\<lparr>number := n, generation := next_generation w, references := 1, registry := True\<rparr>))"
    by (rule reserve_ok [OF ok p0 e]) (rule that)
  show ?thesis
  proof (cases "st = PID_OK")
    case True
    then obtain f where f: "pids w1 p = Some f" using r(3) by auto
    obtain st' w' where "kernel_pid_publish_reserved w1 p = Some (st', w')" "pid_ok w'"
      by (rule publish_reserved_ok [OF r(2) p0 f])
    then show ?thesis using Publish r(1) True by (simp add: kernel_pid_publish_def)
  next
    case False
    then show ?thesis using Publish r(1,2) by (simp add: kernel_pid_publish_def)
  qed
next
  case (Get p)
  then obtain e where e: "pids w p = Some e" "registry e" "references e < uint32_max" using c allowed_onD by force
  then show ?thesis using get_ok [OF ok e] Get by simp
next
  case (Put p)
  then obtain e where e: "pids w p = Some e" "registry e" "card (fam (links w) p) < references e" using c allowed_onD by force
  obtain w' where "kernel_pid_put w p = Some w'" "pid_ok w'"
    by (rule put_core [OF pid_okD(1) [OF ok] pid_okD(2) [OF ok] e])
  then show ?thesis using Put by simp
next
  case (Attach m p r t)
  then have a: "unlinked w m" "t \<noteq> 0" "r < pid_roles" "allowed_on w p (\<lambda>e. live e \<and> references e < uint32_max)" using c by auto
  obtain x where x: "links w m = Some x" "identity x = 0" using linkedD(2) [OF a(1)] by blast
  obtain e where e: "pids w p = Some e" "live e" "references e < uint32_max" using allowed_onD [OF a(4)] by blast
  obtain w' where "kernel_pid_attach w m p r t = Some w'" "pid_ok w'"
    by (rule attach_ok [OF ok nonnull(2) [OF ok x(1)] x a(2,3) e])
  then show ?thesis using Attach by simp
next
  case (Detach m)
  then obtain x where x: "links w m = Some x" "identity x \<noteq> 0" using linkedD(1) [of w m] c by auto
  obtain w' where "kernel_pid_detach w m = Some w'" "pid_ok w'" by (rule detach_ok [OF ok x])
  then show ?thesis using Detach by simp
next
  case (Transfer m q t)
  then have a: "linked w m" "unlinked w q" "t \<noteq> 0" using c by auto
  obtain x where x: "links w m = Some x" "identity x \<noteq> 0" using linkedD(1) [OF a(1)] by blast
  obtain y where y: "links w q = Some y" "identity y = 0" using linkedD(2) [OF a(2)] by blast
  obtain w' where "kernel_pid_transfer w m q t = Some w'" "pid_ok w'" by (rule transfer_ok [OF ok x y a(3)])
  then show ?thesis using Transfer by simp
next
  case Take_retired
  obtain p w' where "kernel_pid_take_retired w = Some (p, w')" "pid_ok w'" by (rule take_retired_ok [OF ok])
  then show ?thesis using Take_retired by simp
qed

section \<open>Histories\<close>

text \<open>A registry over a fresh allocator, with zeroed identity and member objects.\<close>

definition zeroed :: "kernel_pid \<Rightarrow> bool" where
  "zeroed e \<longleftrightarrow> published e = 0 \<and> \<not> registry e \<and> hash_next e = 0 \<and> members e = (\<lambda>_. 0)"

definition pid_start :: "pid_world \<Rightarrow> bool" where
  "pid_start w \<longleftrightarrow> (\<exists>al. numbers w = Some al \<and> alloc_ok al \<and> taken al = {}) \<and> buckets w = (\<lambda>_. 0) \<and> retired w = 0 \<and>
     next_generation w = 1 \<and> pids w 0 = None \<and> links w 0 = None \<and>
     (\<forall>p e. pids w p = Some e \<longrightarrow> zeroed e) \<and> (\<forall>m x. links w m = Some x \<longrightarrow> identity x = 0)"

inductive pid_reach :: "pid_world \<Rightarrow> pid_world \<Rightarrow> bool" where
  reach_start: "pid_start w \<Longrightarrow> pid_reach w w"
| reach_call: "pid_reach w v \<Longrightarrow> allowed c v \<Longrightarrow> pid_run c v = Some u \<Longrightarrow> pid_reach w u"

lemma start_ok: "pid_start w \<Longrightarrow> pid_ok w"
proof -
  assume s: "pid_start w"
  then obtain al where al: "numbers w = Some al" "alloc_ok al" "taken al = {}" by (auto simp: pid_start_def)
  have z: "buckets w = (\<lambda>_. 0)" "retired w = 0" "next_generation w = 1" "pids w 0 = None" "links w 0 = None"
    using s by (auto simp: pid_start_def)
  have e: "zeroed e" if "pids w p = Some e" for p e using s that unfolding pid_start_def by blast
  have x: "identity x = 0" if "links w m = Some x" for m x using s that unfolding pid_start_def by blast
  have fm: "fam (links w) p = {}" "sibs (links w) p r = {}" if "p \<noteq> 0" for p r using that x by (auto simp: fam_def sibs_def)
  have nz: "p \<noteq> 0" if "pids w p = Some e" for p e using that z(4) by (metis option.distinct(1))
  have "pid_core w"
  proof (rule pid_coreI [OF al(1), where C = "\<lambda>_. []" and R = "[]" and M = "\<lambda>_ _. []"])
    show "kinds (pids w)" using e z(4) by (auto simp: kinds_def kind_ok_def zeroed_def)
    show "hash_inv (pids w) (buckets w) (\<lambda>_. [])" using e by (auto simp: hash_inv_def z(1) zeroed_def)
    show "retired_inv (pids w) (retired w) []" using e by (auto simp: retired_inv_def z(2) zeroed_def)
    show "number_inv (pids w) al" using e al by (auto simp: number_inv_def live_def zeroed_def)
    show "gen_inv (pids w) (next_generation w)" 
    proof -
      have "(1 :: u64) \<le> generation_max + 1" by (simp add: drop_bit_eq_div word_le_nat_alt)
      then show ?thesis using e unfolding gen_inv_def z(3) by (auto simp: zeroed_def)
    qed
    show "member_inv (pids w) (links w) (\<lambda>_ _. [])" using e x z(5) fm nz by (auto simp: member_inv_def zeroed_def)
  qed
  then show "pid_ok w" using e by (auto simp: pid_ok_def zeroed_def)
qed

lemma reach_ok: "pid_reach w v \<Longrightarrow> pid_ok v"
proof (induction rule: pid_reach.induct)
  case (reach_start w) then show ?case by (rule start_ok)
next
  case (reach_call w v c u) then show ?case using pid_run_ok [of v c] by auto
qed

text \<open>What a consistent registry answers: a lookup finds the published identity of a number, if any.\<close>

lemma lookup_exact:
  assumes "pid_ok w" "0 < n"
  shows "\<exists>p. kernel_pid_find w n = Some p \<and>
    (\<forall>q. q \<noteq> 0 \<longrightarrow> (q = p \<longleftrightarrow> (\<exists>e. pids w q = Some e \<and> published e = 1 \<and> number e = n)))"
proof -
  obtain al C R M where i: "kinds (pids w)" "hash_inv (pids w) (buckets w) C" "number_inv (pids w) al"
    by (rule pid_coreE [OF pid_okD(1) [OF assms(1)]])
  obtain p where p: "kernel_pid_find w n = Some p" "p = 0 \<longrightarrow> (\<forall>q e. pids w q = Some e \<longrightarrow> published e = 1 \<longrightarrow> number e \<noteq> n)"
    "p \<noteq> 0 \<Longrightarrow> \<exists>e. pids w p = Some e \<and> published e = 1 \<and> number e = n"
    by (rule find_published [OF i(2,1) assms(2)]) (rule that)
  have u: "q = p" if "pids w q = Some f" "published f = 1" "number f = n" for q f
  proof -
    have "p \<noteq> 0" using p(2) that by blast
    then obtain e where e: "pids w p = Some e" "published e = 1" "number e = n" using p(3) by blast
    have "live e" "live f" using kindsD [OF i(1) e(1)] kindsD [OF i(1) that(1)] e(2) that(2) by (auto simp: kind_ok_def live_def)
    then show ?thesis using i(3) that e unfolding number_inv_def by metis
  qed
  show ?thesis using p u by (intro exI [of _ p]) auto
qed

end
