(* ===== verification/Word_Bits.thy ===== *)
theory Word_Bits
  imports Kernel_Prelude
begin

text \<open>
  Bit lemmas that several components share: the lowest set bit of a word and its removal by
  \<^verbatim>\<open>x & (x - 1)\<close>, powers of two, masks of low bits, and the
  values of widened words and of the complement \<^verbatim>\<open>UINT64_MAX - b\<close>.
\<close>

lemma clear_lowest:
  assumes "bit (w :: u64) k" "\<forall>j<k. \<not> bit w j"
  shows "bit (w AND (w - 1)) j \<longleftrightarrow> bit w j \<and> j \<noteq> k"
proof -
  have k: "k < 64" using bit_imp_le_length [OF assms(1)] by simp
  define z where "z = w AND NOT (2 ^ k)"
  have b2: "bit (2 ^ k :: u64) j \<longleftrightarrow> j = k" for j using k by (auto simp: bit_exp_iff)
  have bz: "bit z j \<longleftrightarrow> bit w j \<and> j \<noteq> k" for j
    using b2 bit_imp_le_length [of w j] by (auto simp: z_def bit_and_iff bit_not_iff)
  have "z + 2 ^ k = z OR 2 ^ k"
    by (rule disjunctive_add_eq_or, rule bit_word_eqI) (auto simp: bit_and_iff bz b2)
  also have "\<dots> = w" by (rule bit_word_eqI) (auto simp: bit_or_iff bz b2 assms(1))
  finally have "w - 1 = z + mask k" by (auto simp: mask_eq_decr_exp)
  also have "\<dots> = z OR mask k"
    by (rule disjunctive_add_eq_or, rule bit_word_eqI) (use assms(2) in \<open>auto simp: bit_and_iff bz bit_mask_iff\<close>)
  finally show ?thesis using assms(2) by (auto simp: bit_and_iff bit_or_iff bz bit_mask_iff)
qed

lemma lowest_exists:
  assumes "w \<noteq> (0 :: u64)"
  obtains k where "bit w k" "\<forall>j<k. \<not> bit w j" "k < 64"
proof -
  have "\<exists>k. bit w k" using assms by (metis bit_eq_iff bit_0_eq bot_apply bot_bool_def)
  then obtain k where k: "bit w k" "\<forall>j<k. \<not> bit w j" using exists_least_iff [of "bit w"] by blast
  then show ?thesis using that bit_imp_le_length [OF k(1)] by simp
qed

lemma power_of_two_test:
  assumes "w \<noteq> (0 :: u64)" "w AND (w - 1) = 0"
  obtains k where "k < 64" "w = 2 ^ k"
proof -
  obtain k where k: "bit w k" "\<forall>j<k. \<not> bit w j" "k < 64" by (rule lowest_exists [OF assms(1)])
  have "bit w j \<longleftrightarrow> j = k" for j using clear_lowest [OF k(1,2), of j] assms(2) k(1) by auto
  then have "w = 2 ^ k" by (intro bit_word_eqI) (auto simp: bit_exp_iff)
  then show ?thesis using that k(3) by blast
qed

lemma and_low_mask: "k < 64 \<Longrightarrow> (x :: u64) AND (2 ^ k - 1) = x mod 2 ^ k"
  by (simp add: mask_eq_exp_minus_1 [symmetric] take_bit_eq_mask [symmetric] take_bit_eq_mod)

lemma unat_ucast_up16: "unat (ucast (x :: u16) :: u32) = unat x"
proof -
  have "unat x < 2 ^ LENGTH(16)" by (rule unsigned_less)
  then show ?thesis by (simp add: unsigned_ucast_eq take_bit_nat_eq_self)
qed

lemma unat_ucast_up32: "unat (ucast (x :: u32) :: u64) = unat x"
proof -
  have "unat x < 2 ^ LENGTH(32)" by (rule unsigned_less)
  then show ?thesis by (simp add: unsigned_ucast_eq take_bit_nat_eq_self)
qed

lemma unat_max_minus: "unat (- 1 - b :: u64) = 2 ^ 64 - 1 - unat b"
  by (simp add: unat_sub unsigned_minus_1_eq_mask mask_eq_exp_minus_1)

end
