(* ===== verification/Pid_Walk.thy ===== *)
theory Pid_Walk
  imports Pid_Invariant Word_Bits
begin

text \<open>
  The enumeration of the published identities in the order of their numbers. The walk looks only at
  numbers whose bit is set, clears the lowest bit of a word at a time, and skips reservations.
\<close>

section \<open>The lowest bit of a word\<close>

lemma and_one_zero: "w AND 1 = 0 \<longleftrightarrow> \<not> bit (w :: u64) 0"
  by (simp add: and_one_eq even_iff_mod_2_eq_zero [symmetric] bit_0)

lemma lowest_bit_spec: "bit w k \<Longrightarrow> \<forall>j<k. \<not> bit w j \<Longrightarrow> lowest_bit w b = Some (b + k)"
proof (induction k arbitrary: w b)
  case 0
  then show ?case by (subst lowest_bit.simps) (simp add: and_one_zero)
next
  case (Suc k)
  have "lowest_bit (drop_bit 1 w) (b + 1) = Some (b + 1 + k)"
    by (rule Suc.IH) (use Suc.prems in \<open>auto simp: bit_drop_bit_eq\<close>)
  then show ?case using Suc.prems by (subst lowest_bit.simps) (simp add: and_one_zero)
qed

section \<open>The walk\<close>

definition published_at :: "pid_world \<Rightarrow> nat \<Rightarrow> ptr \<Rightarrow> bool" where
  "published_at w i p \<longleftrightarrow> (\<exists>e. pids w p = Some e \<and> published e = 1 \<and> number e = int i + 1)"

text \<open>The first published identity among the candidates \<open>S\<close>, or null.\<close>

definition first_published :: "pid_world \<Rightarrow> nat set \<Rightarrow> ptr \<Rightarrow> bool" where
  "first_published w S p \<longleftrightarrow>
     (if p = 0 then \<forall>i\<in>S. \<forall>q. \<not> published_at w i q
      else \<exists>i\<in>S. published_at w i p \<and> (\<forall>j\<in>S. j < i \<longrightarrow> (\<forall>q. \<not> published_at w j q)))"

lemma first_published_mono:
  assumes "first_published w S p" "S \<subseteq> T" "\<And>i q. i \<in> T \<Longrightarrow> published_at w i q \<Longrightarrow> i \<in> S"
  shows "first_published w T p"
proof (cases "p = 0")
  case True
  then show ?thesis using assms by (simp add: first_published_def) blast
next
  case False
  then obtain i where "i \<in> S" "published_at w i p" "\<forall>j\<in>S. j < i \<longrightarrow> (\<forall>q. \<not> published_at w j q)"
    using assms(1) by (auto simp: first_published_def)
  then show ?thesis using False assms(2,3) by (auto simp: first_published_def intro!: bexI [of _ i])
qed

definition candidates :: "nat \<Rightarrow> u64 list \<Rightarrow> nat \<Rightarrow> u64 \<Rightarrow> nat set" where
  "candidates lim bm wd bits = {i. i < lim \<and> (i div 64 = wd \<and> bit bits (i mod 64) \<or> wd < i div 64 \<and> in_use bm i)}"

lemma candidates_next: "candidates lim bm (wd + 1) (bm ! (wd + 1)) = candidates lim bm wd 0"
proof -
  have "(i div 64 = wd + 1 \<and> bit (bm ! (wd + 1)) (i mod 64) \<or> wd + 1 < i div 64 \<and> in_use bm i) \<longleftrightarrow> wd < i div 64 \<and> in_use bm i" for i
    by (cases "i div 64 = wd + 1") (auto simp: in_use_def)
  then show ?thesis by (simp add: candidates_def)
qed

lemma candidates_end: "pid_words lim \<le> wd + 1 \<Longrightarrow> candidates lim bm wd 0 = {}"
proof -
  assume "pid_words lim \<le> wd + 1"
  then have "lim \<le> (wd + 1) * 64" by (simp add: pid_words_def)
  then have "\<not> (i < lim \<and> wd < i div 64)" for i :: nat
    using less_mult_imp_div_less [of i "wd + 1" 64] by auto
  then show ?thesis by (auto simp: candidates_def)
qed

lemma candidates_lowest:
  assumes "bit bits b" "\<forall>j<b. \<not> bit bits j" "b < 64" "i \<in> candidates lim bm wd bits"
  shows "wd * 64 + b \<le> i" "i \<noteq> wd * 64 + b \<Longrightarrow> i \<in> candidates lim bm wd (bits AND (bits - 1))"
proof -
  have i: "i div 64 = wd \<and> bit bits (i mod 64) \<or> wd < i div 64 \<and> in_use bm i" "i < lim" using assms(4) by (auto simp: candidates_def)
  have s: "i = i div 64 * 64 + i mod 64" by simp
  show "wd * 64 + b \<le> i"
  proof (cases "i div 64 = wd")
    case True
    then have "bit bits (i mod 64)" using i(1) by auto
    then have "b \<le> i mod 64" using assms(2) by (meson not_le)
    then show ?thesis using True s by linarith
  next
    case False
    then have "wd + 1 \<le> i div 64" using i(1) by auto
    then have "(wd + 1) * 64 \<le> i div 64 * 64" by (rule mult_right_mono) simp
    also have "\<dots> \<le> i" by (rule div_times_less_eq_dividend)
    finally show ?thesis using assms(3) by simp
  qed
  assume ne: "i \<noteq> wd * 64 + b"
  then have "i div 64 = wd \<Longrightarrow> i mod 64 \<noteq> b" using s by auto
  then show "i \<in> candidates lim bm wd (bits AND (bits - 1))"
    using i clear_lowest [OF assms(1,2)] by (auto simp: candidates_def)
qed

lemma candidates_sub:
  assumes "bit bits b" "\<forall>j<b. \<not> bit bits j"
  shows "candidates lim bm wd (bits AND (bits - 1)) \<subseteq> candidates lim bm wd bits"
  using clear_lowest [OF assms] by (auto simp: candidates_def)

lemma next_scan_spec:
  assumes inv: "hash_inv (pids w) (buckets w) C" "kinds (pids w)" and bm: "pid_words lim \<le> length bm"
  shows "\<exists>p. next_scan w lim bm wd bits = Some p \<and> first_published w (candidates lim bm wd bits) p"
proof (induction "(wd, bits)" arbitrary: wd bits
    rule: wf_induct [OF wf_measures [of "[\<lambda>(wd, bits). pid_words lim - wd, \<lambda>(wd, bits). card {b. bit bits b}]"]])
  case 1
  show ?case
  proof (cases "bits = 0")
    case True
    show ?thesis
    proof (cases "pid_words lim \<le> wd + 1")
      case stop: True
      have "next_scan w lim bm wd bits = Some 0" using True stop by (subst next_scan.simps) simp
      then show ?thesis using candidates_end [OF stop, of bm] True by (simp add: first_published_def)
    next
      case False
      have step: "next_scan w lim bm wd bits = next_scan w lim bm (wd + 1) (bm ! (wd + 1))"
        using True False bm by (subst next_scan.simps) simp
      have "\<exists>p. next_scan w lim bm (wd + 1) (bm ! (wd + 1)) = Some p \<and> first_published w (candidates lim bm (wd + 1) (bm ! (wd + 1))) p"
        by (rule 1 [rule_format, OF _ refl]) (use False in auto)
      then show ?thesis using True step candidates_next by metis
    qed
  next
    case False
    obtain b where b: "bit bits b" "\<forall>j<b. \<not> bit bits j" "b < 64" by (rule lowest_exists [OF False])
    have lb: "lowest_bit bits 0 = Some b" using lowest_bit_spec [OF b(1,2), of 0] by simp
    let ?i = "wd * 64 + b" and ?bits = "bits AND (bits - 1)"
    note low = candidates_lowest [OF b, of _ lim bm wd]
    show ?thesis
    proof (cases "lim \<le> ?i")
      case True
      have "candidates lim bm wd bits = {}" using low(1) True by (fastforce simp: candidates_def)
      moreover have "next_scan w lim bm wd bits = Some 0" using False lb True by (subst next_scan.simps) simp
      ultimately show ?thesis by (simp add: first_published_def)
    next
      case lt: False
      have ic: "?i \<in> candidates lim bm wd bits" using lt b by (simp add: candidates_def)
      obtain p where p: "kernel_pid_find w (int (?i + 1)) = Some p"
        "p = 0 \<longrightarrow> (\<forall>q e. pids w q = Some e \<longrightarrow> published e = 1 \<longrightarrow> number e \<noteq> int (?i + 1))"
        "p \<noteq> 0 \<Longrightarrow> \<exists>e. pids w p = Some e \<and> published e = 1 \<and> number e = int (?i + 1)"
        by (rule find_published [OF inv, of "int (?i + 1)"]) (simp, rule that)
      have nx: "next_scan w lim bm wd bits = (if p \<noteq> 0 then Some p else next_scan w lim bm wd ?bits)"
        using False lb lt p(1) by (subst next_scan.simps) (simp add: Let_def)
      show ?thesis
      proof (cases "p = 0")
        case False
        have "published_at w ?i p" using p(3) [OF False] by (auto simp: published_at_def)
        then have "first_published w (candidates lim bm wd bits) p"
          unfolding first_published_def using False ic low(1) by (auto intro!: bexI [of _ ?i]) (metis not_le)
        then show ?thesis using nx False by simp
      next
        case True
        have none: "\<not> published_at w ?i q" for q
          using p(2) True by (auto simp: published_at_def add.commute)
        have "{j. bit ?bits j} = {j. bit bits j} - {b}" using clear_lowest [OF b(1,2)] by auto
        moreover have "finite {j. bit bits j}" by (rule finite_subset [of _ "{..<64}"]) (auto dest: bit_imp_le_length)
        ultimately have "card {j. bit ?bits j} < card {j. bit bits j}"
          using card_Diff1_less [of "{j. bit bits j}" b] b(1) by simp
        then have "\<exists>p. next_scan w lim bm wd ?bits = Some p \<and> first_published w (candidates lim bm wd ?bits) p"
          by (intro 1 [rule_format, OF _ refl]) auto
        then obtain p' where p': "next_scan w lim bm wd ?bits = Some p'" "first_published w (candidates lim bm wd ?bits) p'" by blast
        have "j \<in> candidates lim bm wd ?bits \<or> j = ?i" if "j \<in> candidates lim bm wd bits" for j using low(2) [OF that] by blast
        then have "first_published w (candidates lim bm wd bits) p'"
          by (intro first_published_mono [OF p'(2) candidates_sub [OF b(1,2)]]) (use none in blast)
        then show ?thesis using nx True p'(1) by simp
      qed
    qed
  qed
qed

lemma octet_order: "a \<le> (i :: nat) \<longleftrightarrow> a div 64 < i div 64 \<or> i div 64 = a div 64 \<and> a mod 64 \<le> i mod 64"
proof -
  have "a = 64 * (a div 64) + a mod 64" "i = 64 * (i div 64) + i mod 64" "a mod 64 < 64" "i mod 64 < 64" by simp_all
  then show ?thesis by linarith
qed

lemma next_published_first:
  assumes core: "pid_core w" and n: "numbers w = Some al" and a: "0 \<le> after"
  shows "\<exists>p. kernel_pid_next_published w after = Some p \<and> first_published w {i. nat after \<le> i} p"
proof -
  obtain al' C R M where i: "numbers w = Some al'" "kinds (pids w)" "hash_inv (pids w) (buckets w) C" "number_inv (pids w) al'"
    by (rule pid_coreE [OF core])
  have al: "al' = al" "alloc_ok al" using i(1,4) n by (auto simp: number_inv_def)
  obtain bm where bm: "bitmap al = Some bm" "pid_words (limit al) \<le> length bm" using al(2) by (auto simp: alloc_ok_def)
  have used: "i < limit al \<and> in_use bm i" if u: "published_at w i q" for i q
  proof -
    obtain e where e: "pids w q = Some e" "published e = 1" "number e = int i + 1" using u by (auto simp: published_at_def)
    have "live e" using kindsD [OF i(2) e(1)] e(2) by (simp add: kind_ok_def live_def)
    then have "nat (number e) - 1 \<in> taken al" using i(4) e(1) al(1) unfolding number_inv_def by blast
    then show ?thesis using e(3) by (simp add: taken_def bm(1) nat_add_distrib)
  qed
  show ?thesis
  proof (cases "limit al \<le> nat after")
    case True
    have "first_published w {i. nat after \<le> i} 0" using used True by (fastforce simp: first_published_def)
    moreover have "kernel_pid_next_published w after = Some 0" using True n by (simp add: kernel_pid_next_published_def)
    ultimately show ?thesis by blast
  next
    case False
    let ?wd = "nat after div 64" and ?k = "nat after mod 64"
    let ?bits = "bm ! ?wd AND push_bit ?k (- 1)"
    have w: "?wd < length bm" by (rule word_in_bitmap [OF _ bm(2)]) (use False in simp)
    have b: "bit ?bits j \<longleftrightarrow> bit (bm ! ?wd) j \<and> ?k \<le> j" if "j < 64" for j using that by (auto simp: bit_and_iff bit_not_iff bit_mask_iff)
    have c: "i \<in> candidates (limit al) bm ?wd ?bits \<longleftrightarrow> i < limit al \<and> in_use bm i \<and> nat after \<le> i" for i
    proof -
      have "nat after \<le> i \<longleftrightarrow> ?wd < i div 64 \<or> i div 64 = ?wd \<and> ?k \<le> i mod 64"
        by (rule octet_order)
      then show ?thesis using b [of "i mod 64"] by (auto simp: candidates_def in_use_def)
    qed
    have run: "kernel_pid_next_published w after = next_scan w (limit al) bm ?wd ?bits"
      using False a w alloc_ok_valid [OF al(2)] n bm(1) by (simp add: kernel_pid_next_published_def Let_def)
    obtain p where p: "next_scan w (limit al) bm ?wd ?bits = Some p" "first_published w (candidates (limit al) bm ?wd ?bits) p"
      using next_scan_spec [OF i(3,2) bm(2)] by blast
    have cand: "i \<in> candidates (limit al) bm ?wd ?bits" if "nat after \<le> i" "published_at w i q" for i q
      using used [OF that(2)] c [of i] that(1) by blast
    have "first_published w {i. nat after \<le> i} p"
      by (rule first_published_mono [OF p(2)]) (use c cand in blast)+
    then show ?thesis using run p(1) by simp
  qed
qed

end
