(* ===== verification/Pid_Theorems.thy ===== *)
theory Pid_Theorems
  imports Pid_World Pid_Walk
begin

text \<open>
  The properties of process identities (\<^verbatim>\<open>src/kernel/pid.c\<close>), each followed by its witness. The
  witnesses run on a registry of 64 numbers with one identity and one member object.
\<close>

definition small_allocator :: pid_allocator where
  "small_allocator = \<lparr>bitmap = Some [0], limit = 64, cursor = 0, allocated = 0, initialized = pid_magic\<rparr>"

definition small_registry :: pid_world where
  "small_registry = \<lparr>numbers = Some small_allocator, buckets = (\<lambda>_. 0), retired = 0, next_generation = 1,
     pids = [10 \<mapsto> \<lparr>number = 0, references = 0, generation = 0, published = 0, registry = False, hash_next = 0, members = (\<lambda>_. 0)\<rparr>],
     links = [20 \<mapsto> \<lparr>identity = 0, previous = 0, next_member = 0, task = 0, role = 0\<rparr>]\<rparr>"

lemma small_allocator_ok: "alloc_ok small_allocator" "taken small_allocator = {}"
proof -
  have "i div 64 = 0" if "i < 64" for i :: nat using that by simp
  then show t: "taken small_allocator = {}" by (auto simp: taken_def small_allocator_def in_use_def)
  show "alloc_ok small_allocator" unfolding alloc_ok_def t by (simp add: small_allocator_def pid_words_def)
qed

lemma small_registry_start: "pid_start small_registry"
  using small_allocator_ok by (auto simp: pid_start_def small_registry_def zeroed_def split: if_splits)

text \<open>
  C4. In every history of calls that keep the contract of the header, from a fresh registry, no call
  traps or walks a broken list, and a lookup returns exactly the published identity of the number.
\<close>

theorem pid_registry_safe:
  assumes "pid_reach w v" "allowed c v"
  shows "(\<exists>u. pid_run c v = Some u) \<and>
    (\<forall>n>0. \<exists>p. kernel_pid_find v n = Some p \<and>
       (\<forall>q. q \<noteq> 0 \<longrightarrow> (q = p \<longleftrightarrow> (\<exists>e. pids v q = Some e \<and> published e = 1 \<and> number e = n))))"
proof (intro conjI allI impI)
  have ok: "pid_ok v" by (rule reach_ok [OF assms(1)])
  show "\<exists>u. pid_run c v = Some u" using pid_run_ok [OF ok assms(2)] by blast
  show "\<exists>p. kernel_pid_find v n = Some p \<and>
      (\<forall>q. q \<noteq> 0 \<longrightarrow> (q = p \<longleftrightarrow> (\<exists>e. pids v q = Some e \<and> published e = 1 \<and> number e = n)))" if "0 < n" for n
    by (rule lookup_exact [OF ok that])
qed

theorem pid_registry_safe_witness:
  "\<exists>u. pid_run (Publish 10) small_registry = Some u"
  using conjunct1 [OF pid_registry_safe [OF reach_start [OF small_registry_start], of "Publish 10"]]
  by (simp add: allowed_on_def small_registry_def)

text \<open>
  C22. Throughout such a history the numbers marked in the bitmap are exactly those of the live
  identities, two live identities never share a number, and two registered ones never a generation.
\<close>

theorem pid_numbers_consistent:
  assumes "pid_reach w v"
  shows "\<exists>al. numbers v = Some al \<and>
    {int i + 1 |i. i \<in> taken al} = {number e |p e. pids v p = Some e \<and> live e} \<and>
    (\<forall>p q e f. pids v p = Some e \<and> pids v q = Some f \<and> p \<noteq> q \<longrightarrow>
       (live e \<and> live f \<longrightarrow> number e \<noteq> number f) \<and> (registry e \<and> registry f \<longrightarrow> generation e \<noteq> generation f))"
proof -
  obtain al C R M where i: "numbers v = Some al" "number_inv (pids v) al" "gen_inv (pids v) (next_generation v)"
    by (rule pid_coreE [OF pid_okD(1) [OF reach_ok [OF assms]]])
  have n: "\<And>p e. pids v p = Some e \<Longrightarrow> live e \<Longrightarrow> 0 < number e \<and> nat (number e) - 1 \<in> taken al"
    "\<And>i. i \<in> taken al \<Longrightarrow> \<exists>p e. pids v p = Some e \<and> live e \<and> number e = int i + 1"
    using i(2) unfolding number_inv_def by blast+
  have "{int i + 1 |i. i \<in> taken al} = {number e |p e. pids v p = Some e \<and> live e}"
  proof (intro equalityI subsetI)
    fix z assume "z \<in> {number e |p e. pids v p = Some e \<and> live e}"
    then obtain p e where e: "z = number e" "pids v p = Some e" "live e" by blast
    then have "z = int (nat (number e) - 1) + 1" "nat (number e) - 1 \<in> taken al" using n(1) [OF e(2,3)] by (auto simp: of_nat_diff)
    then show "z \<in> {int i + 1 |i. i \<in> taken al}" by blast
  qed (use n(2) in force)
  then show ?thesis using i unfolding number_inv_def gen_inv_def by (intro exI [of _ al]) blast
qed

theorem pid_numbers_consistent_witness:
  "\<exists>al. numbers small_registry = Some al \<and>
    {int i + 1 |i. i \<in> taken al} = {number e |p e. pids small_registry p = Some e \<and> live e}"
  using pid_numbers_consistent [OF reach_start [OF small_registry_start]] by blast

text \<open>
  C23. Enumeration: for a non-negative \<open>after\<close> the walk over the bitmap ends and returns the published
  identity with the least number above \<open>after\<close>, or null when there is none; reservations are skipped.
\<close>

theorem pid_enumeration:
  assumes "pid_reach w v" "0 \<le> after"
  shows "\<exists>p. kernel_pid_next_published v after = Some p \<and>
    (if p = 0 then \<forall>q e. pids v q = Some e \<and> published e = 1 \<longrightarrow> number e \<le> after
     else \<exists>e. pids v p = Some e \<and> published e = 1 \<and> after < number e \<and>
       (\<forall>q f. pids v q = Some f \<and> published f = 1 \<and> after < number f \<longrightarrow> number e \<le> number f))"
proof -
  have core: "pid_core v" by (rule pid_okD(1) [OF reach_ok [OF assms(1)]])
  obtain al C R M where i: "numbers v = Some al" "kinds (pids v)" "number_inv (pids v) al" by (rule pid_coreE [OF core])
  obtain p where p: "kernel_pid_next_published v after = Some p" "first_published v {i. nat after \<le> i} p"
    using next_published_first [OF core i(1) assms(2)] by blast
  have pa: "published_at v (nat (number f) - 1) q \<and> 0 < number f" if "pids v q = Some f" "published f = 1" for q f
  proof -
    have "live f" using kindsD [OF i(2) that(1)] that(2) by (simp add: kind_ok_def live_def)
    then have "0 < number f" using i(3) that(1) unfolding number_inv_def by blast
    then show ?thesis using that by (auto simp: published_at_def)
  qed
  show ?thesis
  proof (cases "p = 0")
    case True
    have "number e \<le> after" if "pids v q = Some e" "published e = 1" for q e
    proof -
      have "\<not> nat after \<le> nat (number e) - 1" using p(2) True pa [OF that] by (auto simp: first_published_def)
      then show ?thesis using assms(2) by linarith
    qed
    then have "\<forall>q e. pids v q = Some e \<and> published e = 1 \<longrightarrow> number e \<le> after" by blast
    then show ?thesis using True p(1) by (intro exI [of _ p]) simp
  next
    case False
    then obtain i where i: "nat after \<le> i" "published_at v i p" "\<forall>j. nat after \<le> j \<longrightarrow> j < i \<longrightarrow> (\<forall>q. \<not> published_at v j q)"
      using p(2) by (auto simp: first_published_def)
    obtain e where e: "pids v p = Some e" "published e = 1" "number e = int i + 1" using i(2) by (auto simp: published_at_def)
    have "number e \<le> number f" if f: "pids v q = Some f" "published f = 1" "after < number f" for q f
    proof -
      have "nat after \<le> nat (number f) - 1" using f(3) assms(2) by linarith
      then have "\<not> nat (number f) - 1 < i" using i(3) pa [OF f(1,2)] by blast
      then show ?thesis using e(3) pa [OF f(1,2)] by linarith
    qed
    moreover have "after < number e" using i(1) e(3) by linarith
    ultimately show ?thesis using p(1) False e by (intro exI [of _ p]) auto
  qed
qed

theorem pid_enumeration_witness:
  "kernel_pid_next_published small_registry 0 = Some 0"
proof -
  obtain p where p: "kernel_pid_next_published small_registry 0 = Some p"
    "if p = 0 then \<forall>q e. pids small_registry q = Some e \<and> published e = 1 \<longrightarrow> number e \<le> 0
     else \<exists>e. pids small_registry p = Some e \<and> published e = 1 \<and> 0 < number e \<and>
       (\<forall>q f. pids small_registry q = Some f \<and> published f = 1 \<and> 0 < number f \<longrightarrow> number e \<le> number f)"
    using pid_enumeration [OF reach_start [OF small_registry_start] order_refl] by blast
  have "p = 0" using p(2) by (auto simp: small_registry_def split: if_splits)
  then show ?thesis using p(1) by simp
qed

text \<open>
  C24. Allocation succeeds exactly when a number is free, and then takes the first free one at or
  after the cursor, cyclically; a full allocator reports exhaustion and does not change. Releasing
  the number makes exactly it free again, and releasing a free number is refused.
\<close>

theorem pid_allocation_exact:
  assumes "alloc_ok al"
  shows "(taken al = {..<limit al} \<longrightarrow> kernel_pid_allocate (Some al) True = Some (PID_EXHAUSTED, None, Some al)) \<and>
    (taken al \<noteq> {..<limit al} \<longrightarrow>
      (\<exists>d<limit al. \<exists>al'. (\<forall>k<d. (cursor al + k) mod limit al \<in> taken al) \<and> (cursor al + d) mod limit al \<notin> taken al \<and>
        kernel_pid_allocate (Some al) True = Some (PID_OK, Some (int ((cursor al + d) mod limit al) + 1), Some al') \<and>
        alloc_ok al' \<and> limit al' = limit al \<and> taken al' = insert ((cursor al + d) mod limit al) (taken al))) \<and>
    (\<forall>i. i \<in> taken al \<longrightarrow> (\<exists>al'. kernel_pid_release (Some al) (int i + 1) = Some (PID_OK, Some al') \<and>
        alloc_ok al' \<and> taken al' = taken al - {i})) \<and>
    (\<forall>i. i \<notin> taken al \<longrightarrow> (\<exists>st. st \<noteq> PID_OK \<and> kernel_pid_release (Some al) (int i + 1) = Some (st, Some al)))"
proof (intro conjI impI allI)
  show "kernel_pid_allocate (Some al) True = Some (PID_EXHAUSTED, None, Some al)" if "taken al = {..<limit al}"
    by (rule allocate_full [OF assms that])
  show "\<exists>d<limit al. \<exists>al'. (\<forall>k<d. (cursor al + k) mod limit al \<in> taken al) \<and> (cursor al + d) mod limit al \<notin> taken al \<and>
        kernel_pid_allocate (Some al) True = Some (PID_OK, Some (int ((cursor al + d) mod limit al) + 1), Some al') \<and>
        alloc_ok al' \<and> limit al' = limit al \<and> taken al' = insert ((cursor al + d) mod limit al) (taken al)"
    if free: "taken al \<noteq> {..<limit al}"
  proof -
    obtain d where d: "d < limit al" "slot al d \<notin> taken al" "\<forall>k<d. slot al k \<in> taken al"
      "kernel_pid_allocate (Some al) True = Some (PID_OK, Some (int (slot al d + 1)), Some (take_slot al (slot al d)))"
      by (rule allocate_free [OF assms free])
    have "slot al d < limit al" using d(1) by (simp add: slot_def)
    note t = take_slot_ok [OF assms this d(2)]
    have "kernel_pid_allocate (Some al) True = Some (PID_OK, Some (int (slot al d) + 1), Some (take_slot al (slot al d)))" using d(4) by (simp add: add.commute)
    then show ?thesis using d(1-3) t unfolding slot_def by blast
  qed
  show "\<exists>al'. kernel_pid_release (Some al) (int i + 1) = Some (PID_OK, Some al') \<and> alloc_ok al' \<and> taken al' = taken al - {i}"
    if "i \<in> taken al" for i using drop_slot_ok [OF assms that] by blast
  show "\<exists>st. st \<noteq> PID_OK \<and> kernel_pid_release (Some al) (int i + 1) = Some (st, Some al)" if "i \<notin> taken al" for i
    using release_free [OF assms, of "int i + 1"] that by (auto simp: nat_add_distrib)
qed

theorem pid_allocation_exact_witness:
  "\<exists>al'. kernel_pid_allocate (Some small_allocator) True = Some (PID_OK, Some 1, Some al')"
proof -
  have "0 \<in> {..<limit small_allocator}" by (simp add: small_allocator_def)
  then have "taken small_allocator \<noteq> {..<limit small_allocator}" unfolding small_allocator_ok(2) by blast
  then obtain d al' where d: "d < limit small_allocator" "\<forall>k<d. (cursor small_allocator + k) mod limit small_allocator \<in> taken small_allocator"
    "kernel_pid_allocate (Some small_allocator) True = Some (PID_OK, Some (int ((cursor small_allocator + d) mod limit small_allocator) + 1), Some al')"
    using pid_allocation_exact [OF small_allocator_ok(1)] by blast
  have "d = 0" using d(2) by (cases d) (auto simp: small_allocator_ok)
  then show ?thesis using d(3) by (simp add: small_allocator_def)
qed

end
