(* ===== verification/String_Lib.thy ===== *)
theory String_Lib
  imports Kernel_Prelude
begin

text \<open>
  \<^verbatim>\<open>src/lib/string.c\<close>: the memory and string routines of the freestanding kernel. Memory is a function
  from addresses to bytes; objects do not wrap around the end of the address space, so an address
  is a natural number. \<^verbatim>\<open>memory_word\<close> is the 64-bit little-endian word of both targets; an access to it
  reads or writes its eight bytes at once. A byte loop is a recursion on the remaining size; the
  batches that read four words before they write any are kept as such, since overlapping moves
  depend on it.
\<close>

type_synonym memory = "nat \<Rightarrow> u8"

text \<open>Little-endian assembly of \<open>k\<close> bytes, and word accesses.\<close>

definition gather :: "memory \<Rightarrow> nat \<Rightarrow> nat \<Rightarrow> u64" where
  "gather m a k = fold (\<lambda>i w. w OR push_bit (8 * i) (ucast (m (a + i)))) [0..<k] 0"

definition load_word :: "memory \<Rightarrow> nat \<Rightarrow> u64" where
  "load_word m a = gather m a 8"

definition store_word :: "memory \<Rightarrow> nat \<Rightarrow> u64 \<Rightarrow> memory" where
  "store_word m a w = (\<lambda>x. if a \<le> x \<and> x < a + 8 then ucast (drop_bit (8 * (x - a)) w) else m x)"

abbreviation aligned :: "nat \<Rightarrow> bool" where
  "aligned p \<equiv> p mod 8 = 0"

section \<open>Forward copy\<close>

fun head_loop :: "memory \<Rightarrow> nat \<Rightarrow> nat \<Rightarrow> nat \<Rightarrow> memory \<times> nat \<times> nat \<times> nat" where
  "head_loop m dst src 0 = (m, dst, src, 0)"
| "head_loop m dst src (Suc n) =
     (if \<not> aligned dst then head_loop (m(dst := m src)) (dst + 1) (src + 1) n else (m, dst, src, Suc n))"

function quad_loop :: "memory \<Rightarrow> nat \<Rightarrow> nat \<Rightarrow> nat \<Rightarrow> memory \<times> nat \<times> nat \<times> nat" where
  "quad_loop m dst src n =
     (if 32 \<le> n then
        let a = load_word m src; b = load_word m (src + 8); c = load_word m (src + 16); d = load_word m (src + 24);
            m1 = store_word (store_word (store_word (store_word m dst a) (dst + 8) b) (dst + 16) c) (dst + 24) d
        in quad_loop m1 (dst + 32) (src + 32) (n - 32)
      else (m, dst, src, n))"
  by pat_completeness auto
termination
  by (relation "measure (\<lambda>(m, dst, src, n). n)") auto

function word_loop :: "memory \<Rightarrow> nat \<Rightarrow> nat \<Rightarrow> nat \<Rightarrow> memory \<times> nat \<times> nat \<times> nat" where
  "word_loop m dst src n =
     (if 8 \<le> n then word_loop (store_word m dst (load_word m src)) (dst + 8) (src + 8) (n - 8) else (m, dst, src, n))"
  by pat_completeness auto
termination
  by (relation "measure (\<lambda>(m, dst, src, n). n)") auto

text \<open>The source is not aligned with the destination: \<open>low\<close> holds the \<open>pre\<close> bytes before the next source word.\<close>

function shift_loop ::
  "memory \<Rightarrow> nat \<Rightarrow> nat \<Rightarrow> nat \<Rightarrow> nat \<Rightarrow> u64 \<Rightarrow> memory \<times> nat \<times> nat \<times> nat" where
  "shift_loop m dst src n pre low =
     (if 8 + pre \<le> n then
        let high = load_word m (src + pre);
            m1 = store_word m dst (low OR push_bit (8 * pre) high)
        in shift_loop m1 (dst + 8) (src + 8) (n - 8) pre (drop_bit (8 * (8 - pre)) high)
      else (m, dst, src, n))"
  by pat_completeness auto
termination
  by (relation "measure (\<lambda>(m, dst, src, n, pre, low). n)") auto

fun byte_loop :: "memory \<Rightarrow> nat \<Rightarrow> nat \<Rightarrow> nat \<Rightarrow> memory" where
  "byte_loop m dst src 0 = m"
| "byte_loop m dst src (Suc n) = byte_loop (m(dst := m src)) (dst + 1) (src + 1) n"

declare quad_loop.simps [simp del] word_loop.simps [simp del] shift_loop.simps [simp del]

definition copy_forward :: "memory \<Rightarrow> nat \<Rightarrow> nat \<Rightarrow> nat \<Rightarrow> memory" where
  "copy_forward m destination source n =
     (if n = 0 then m
      else case head_loop m destination source n of (m1, dst, src, n1) \<Rightarrow>
        if n1 = 0 then m1
        else if aligned src then
          (case quad_loop m1 dst src n1 of (m2, dst2, src2, n2) \<Rightarrow>
             case word_loop m2 dst2 src2 n2 of (m3, dst3, src3, n3) \<Rightarrow> byte_loop m3 dst3 src3 n3)
        else if 16 \<le> n1 then
          (let pre = 8 - src mod 8 in
             case shift_loop m1 dst src n1 pre (gather m1 src pre) of (m2, dst2, src2, n2) \<Rightarrow>
               byte_loop m2 dst2 src2 n2)
        else byte_loop m1 dst src n1)"

section \<open>memcpy and memmove\<close>

definition memcpy :: "memory \<Rightarrow> nat \<Rightarrow> nat \<Rightarrow> nat \<Rightarrow> memory" where
  "memcpy m destination source n = copy_forward m destination source n"

text \<open>The backward loops hold the ends of the ranges.\<close>

fun head_down :: "memory \<Rightarrow> nat \<Rightarrow> nat \<Rightarrow> nat \<Rightarrow> memory \<times> nat \<times> nat \<times> nat" where
  "head_down m dst src 0 = (m, dst, src, 0)"
| "head_down m dst src (Suc n) =
     (if \<not> aligned dst then head_down (m(dst - 1 := m (src - 1))) (dst - 1) (src - 1) n else (m, dst, src, Suc n))"

function quad_down :: "memory \<Rightarrow> nat \<Rightarrow> nat \<Rightarrow> nat \<Rightarrow> memory \<times> nat \<times> nat \<times> nat" where
  "quad_down m dst src n =
     (if 32 \<le> n then
        let a = load_word m (src - 8); b = load_word m (src - 16); c = load_word m (src - 24); d = load_word m (src - 32);
            m1 = store_word (store_word (store_word (store_word m (dst - 8) a) (dst - 16) b) (dst - 24) c) (dst - 32) d
        in quad_down m1 (dst - 32) (src - 32) (n - 32)
      else (m, dst, src, n))"
  by pat_completeness auto
termination
  by (relation "measure (\<lambda>(m, dst, src, n). n)") auto

function word_down :: "memory \<Rightarrow> nat \<Rightarrow> nat \<Rightarrow> nat \<Rightarrow> memory \<times> nat \<times> nat \<times> nat" where
  "word_down m dst src n =
     (if 8 \<le> n then word_down (store_word m (dst - 8) (load_word m (src - 8))) (dst - 8) (src - 8) (n - 8) else (m, dst, src, n))"
  by pat_completeness auto
termination
  by (relation "measure (\<lambda>(m, dst, src, n). n)") auto

text \<open>\<open>high\<close> holds the \<open>suf\<close> bytes after the next source word, in its upper bytes.\<close>

function shift_down ::
  "memory \<Rightarrow> nat \<Rightarrow> nat \<Rightarrow> nat \<Rightarrow> nat \<Rightarrow> u64 \<Rightarrow> memory \<times> nat \<times> nat \<times> nat" where
  "shift_down m dst src n suf high =
     (if 8 + suf \<le> n then
        let low = load_word m (src - suf - 8);
            m1 = store_word m (dst - 8) (high OR drop_bit (8 * suf) low)
        in shift_down m1 (dst - 8) (src - 8) (n - 8) suf (push_bit (8 * (8 - suf)) low)
      else (m, dst, src, n))"
  by pat_completeness auto
termination
  by (relation "measure (\<lambda>(m, dst, src, n, suf, high). n)") auto

fun byte_down :: "memory \<Rightarrow> nat \<Rightarrow> nat \<Rightarrow> nat \<Rightarrow> memory" where
  "byte_down m dst src 0 = m"
| "byte_down m dst src (Suc n) = byte_down (m(dst - 1 := m (src - 1))) (dst - 1) (src - 1) n"

declare quad_down.simps [simp del] word_down.simps [simp del] shift_down.simps [simp del]

definition gather_high :: "memory \<Rightarrow> nat \<Rightarrow> nat \<Rightarrow> u64" where
  "gather_high m src suf = fold (\<lambda>i w. w OR push_bit (8 * (8 - suf + i)) (ucast (m (src - suf + i)))) [0..<suf] 0"

definition copy_backward :: "memory \<Rightarrow> nat \<Rightarrow> nat \<Rightarrow> nat \<Rightarrow> memory" where
  "copy_backward m dst0 src0 n =
     (case head_down m dst0 src0 n of (m1, dst, src, n1) \<Rightarrow>
        if n1 = 0 then m1
        else if aligned src then
          (case quad_down m1 dst src n1 of (m2, dst2, src2, n2) \<Rightarrow>
             case word_down m2 dst2 src2 n2 of (m3, dst3, src3, n3) \<Rightarrow> byte_down m3 dst3 src3 n3)
        else if 16 \<le> n1 then
          (let suf = src mod 8 in
             case shift_down m1 dst src n1 suf (gather_high m1 src suf) of (m2, dst2, src2, n2) \<Rightarrow>
               byte_down m2 dst2 src2 n2)
        else byte_down m1 dst src n1)"

definition memmove :: "memory \<Rightarrow> nat \<Rightarrow> nat \<Rightarrow> nat \<Rightarrow> memory" where
  "memmove m destination source n =
     (if n = 0 \<or> destination = source then m
      else if destination < source \<or> n \<le> destination - source then copy_forward m destination source n
      else copy_backward m (destination + n) (source + n) n)"

section \<open>memcmp\<close>

text \<open>\<open>Inl d\<close> is the early return of the head loop; \<open>Inr\<close> carries the pointers and the remaining size.\<close>

fun compare_head :: "memory \<Rightarrow> nat \<Rightarrow> nat \<Rightarrow> nat \<Rightarrow> int + nat \<times> nat \<times> nat" where
  "compare_head m left right 0 = Inr (left, right, 0)"
| "compare_head m left right (Suc n) =
     (if aligned left then Inr (left, right, Suc n)
      else if m left \<noteq> m right then Inl (uint (m left) - uint (m right))
      else compare_head m (left + 1) (right + 1) n)"

function compare_words :: "memory \<Rightarrow> nat \<Rightarrow> nat \<Rightarrow> nat \<Rightarrow> nat \<times> nat \<times> nat" where
  "compare_words m left right n =
     (if 8 \<le> n \<and> load_word m left = load_word m right then compare_words m (left + 8) (right + 8) (n - 8)
      else (left, right, n))"
  by pat_completeness auto
termination
  by (relation "measure (\<lambda>(m, left, right, n). n)") auto

declare compare_words.simps [simp del]

fun compare_bytes :: "memory \<Rightarrow> nat \<Rightarrow> nat \<Rightarrow> nat \<Rightarrow> int" where
  "compare_bytes m left right 0 = 0"
| "compare_bytes m left right (Suc n) =
     (if m left \<noteq> m right then uint (m left) - uint (m right) else compare_bytes m (left + 1) (right + 1) n)"

definition memcmp :: "memory \<Rightarrow> nat \<Rightarrow> nat \<Rightarrow> nat \<Rightarrow> int" where
  "memcmp m left right n =
     (case compare_head m left right n of
        Inl d \<Rightarrow> d
      | Inr (l, r, n1) \<Rightarrow>
          (case (if aligned r then compare_words m l r n1 else (l, r, n1)) of (l2, r2, n2) \<Rightarrow> compare_bytes m l2 r2 n2))"

section \<open>memset\<close>

fun set_head :: "memory \<Rightarrow> nat \<Rightarrow> u8 \<Rightarrow> nat \<Rightarrow> memory \<times> nat \<times> nat" where
  "set_head m dst b 0 = (m, dst, 0)"
| "set_head m dst b (Suc n) = (if \<not> aligned dst then set_head (m(dst := b)) (dst + 1) b n else (m, dst, Suc n))"

function set_quads :: "memory \<Rightarrow> nat \<Rightarrow> u64 \<Rightarrow> nat \<Rightarrow> memory \<times> nat \<times> nat" where
  "set_quads m dst pat n =
     (if 32 \<le> n then
        set_quads (store_word (store_word (store_word (store_word m dst pat) (dst + 8) pat) (dst + 16) pat) (dst + 24) pat)
          (dst + 32) pat (n - 32)
      else (m, dst, n))"
  by pat_completeness auto
termination
  by (relation "measure (\<lambda>(m, dst, pat, n). n)") auto

function set_words :: "memory \<Rightarrow> nat \<Rightarrow> u64 \<Rightarrow> nat \<Rightarrow> memory \<times> nat \<times> nat" where
  "set_words m dst pat n =
     (if 8 \<le> n then set_words (store_word m dst pat) (dst + 8) pat (n - 8) else (m, dst, n))"
  by pat_completeness auto
termination
  by (relation "measure (\<lambda>(m, dst, pat, n). n)") auto

declare set_quads.simps [simp del] set_words.simps [simp del]

fun set_bytes :: "memory \<Rightarrow> nat \<Rightarrow> u8 \<Rightarrow> nat \<Rightarrow> memory" where
  "set_bytes m dst b 0 = m"
| "set_bytes m dst b (Suc n) = set_bytes (m(dst := b)) (dst + 1) b n"

definition memset :: "memory \<Rightarrow> nat \<Rightarrow> int \<Rightarrow> nat \<Rightarrow> memory" where
  "memset m destination v n =
     (let b = word_of_int v :: u8 in
        case set_head m destination b n of (m1, dst, n1) \<Rightarrow>
          if n1 = 0 then m1
          else
            (let pat = (- 1 div 255) * ucast b :: u64 in
               case set_quads m1 dst pat n1 of (m2, dst2, n2) \<Rightarrow>
                 case set_words m2 dst2 pat n2 of (m3, dst3, n3) \<Rightarrow> set_bytes m3 dst3 b n3))"

section \<open>Strings\<close>

text \<open>The unbounded loops are partial: a string that is never terminated gives \<open>None\<close>.\<close>

partial_function (option) strcmp :: "memory \<Rightarrow> nat \<Rightarrow> nat \<Rightarrow> int option" where
  "strcmp m left right =
     (if m left \<noteq> 0 \<and> m left = m right then strcmp m (left + 1) (right + 1)
      else Some (uint (m left) - uint (m right)))"

partial_function (option) strcpy :: "memory \<Rightarrow> nat \<Rightarrow> nat \<Rightarrow> memory option" where
  "strcpy m destination source =
     (let m1 = m(destination := m source) in
        if m1 source \<noteq> 0 then strcpy m1 (destination + 1) (source + 1) else Some m1)"

partial_function (option) strlen_loop :: "memory \<Rightarrow> nat \<Rightarrow> nat \<Rightarrow> nat option" where
  "strlen_loop m txt len = (if m (txt + len) \<noteq> 0 then strlen_loop m txt (len + 1) else Some len)"

definition strlen :: "memory \<Rightarrow> nat \<Rightarrow> nat option" where
  "strlen m txt = strlen_loop m txt 0"

fun strncmp :: "memory \<Rightarrow> nat \<Rightarrow> nat \<Rightarrow> nat \<Rightarrow> int" where
  "strncmp m left right 0 = 0"
| "strncmp m left right (Suc n) =
     (if m left \<noteq> m right then uint (m left) - uint (m right)
      else if m left = 0 then 0
      else strncmp m (left + 1) (right + 1) n)"

fun strncpy_copy :: "memory \<Rightarrow> nat \<Rightarrow> nat \<Rightarrow> nat \<Rightarrow> memory \<times> nat \<times> nat" where
  "strncpy_copy m dst src 0 = (m, dst, 0)"
| "strncpy_copy m dst src (Suc n) =
     (if m src \<noteq> 0 then strncpy_copy (m(dst := m src)) (dst + 1) (src + 1) n else (m, dst, Suc n))"

definition strncpy :: "memory \<Rightarrow> nat \<Rightarrow> nat \<Rightarrow> nat \<Rightarrow> memory" where
  "strncpy m destination source n =
     (case strncpy_copy m destination source n of (m1, dst, n1) \<Rightarrow> set_bytes m1 dst 0 n1)"

end
