(* ===== verification/String_Copy.thy ===== *)
theory String_Copy
  imports String_Lib
begin

text \<open>
  What the routines of \<^verbatim>\<open>src/lib/string.c\<close> compute. \<open>moved m d s n\<close> is the memory in which the \<open>n\<close>
  bytes at \<open>d\<close> are those that were at \<open>s\<close>; every loop of a forward copy produces it for the part it
  handles, and \<open>moved_moved\<close> joins the parts when the copy does not run into its own source.
\<close>

section \<open>Bytes of words\<close>

definition byte_of :: "u64 \<Rightarrow> nat \<Rightarrow> u8" where
  "byte_of w i = ucast (drop_bit (8 * i) w)"

lemma bit_byte_of: "bit (byte_of w i) n \<longleftrightarrow> n < 8 \<and> bit w (8 * i + n)"
  by (auto simp: byte_of_def bit_simps add.commute dest: bit_imp_le_length)

lemma bit_push_byte: "p + 8 \<le> 64 \<Longrightarrow> bit (push_bit p (ucast (x :: u8)) :: u64) n \<longleftrightarrow> p \<le> n \<and> n < p + 8 \<and> bit x (n - p)"
  using bit_imp_le_length [of x "n - p"] by (auto simp: bit_simps)

lemma octet_split: "8 * q \<le> n \<Longrightarrow> n < 8 * q + 8 \<Longrightarrow> n div 8 = q \<and> n mod 8 = n - 8 * (q :: nat)"
proof -
  assume "8 * q \<le> n" "n < 8 * q + 8"
  then obtain r where "n = 8 * q + r" "r < 8" by (metis add_diff_inverse_nat nat_add_left_cancel_less not_le)
  then show ?thesis by simp
qed

lemma bit_gather: "k \<le> 8 \<Longrightarrow> bit (gather m a k) n \<longleftrightarrow> n < 8 * k \<and> bit (m (a + n div 8)) (n mod 8)"
proof (induction k)
  case 0 then show ?case by (simp add: gather_def)
next
  case (Suc k)
  have g: "gather m a (Suc k) = gather m a k OR push_bit (8 * k) (ucast (m (a + k)))" by (simp add: gather_def)
  have b: "bit (push_bit (8 * k) (ucast (m (a + k)) :: u64)) n \<longleftrightarrow> 8 * k \<le> n \<and> n < 8 * Suc k \<and> bit (m (a + k)) (n - 8 * k)"
    using Suc.prems by (simp add: bit_push_byte add.commute)
  show ?case
  proof (cases "8 * k \<le> n \<and> n < 8 * Suc k")
    case True
    then have "n div 8 = k \<and> n mod 8 = n - 8 * k" by (intro octet_split) auto
    then show ?thesis using True Suc b by (simp add: g bit_or_iff)
  next
    case False
    then show ?thesis using Suc b by (auto simp: g bit_or_iff)
  qed
qed

lemma byte_gather: "k \<le> 8 \<Longrightarrow> i < 8 \<Longrightarrow> byte_of (gather m a k) i = (if i < k then m (a + i) else 0)"
  by (rule bit_word_eqI) (auto simp: bit_byte_of bit_gather)

lemma byte_load [simp]: "i < 8 \<Longrightarrow> byte_of (load_word m a) i = m (a + i)"
  by (simp add: load_word_def byte_gather)

lemma byte_or [simp]: "byte_of (v OR w) i = byte_of v i OR byte_of w i"
  by (rule bit_word_eqI) (auto simp: bit_byte_of bit_or_iff)

lemma byte_push: "i < 8 \<Longrightarrow> byte_of (push_bit (8 * k) w) i = (if k \<le> i then byte_of w (i - k) else 0)"
proof (rule bit_word_eqI)
  fix n assume i: "i < 8" and n: "n < LENGTH(8)"
  show "bit (byte_of (push_bit (8 * k) w) i) n = bit (if k \<le> i then byte_of w (i - k) else 0) n"
  proof (cases "k \<le> i")
    case True
    then have "8 * i + n - 8 * k = 8 * (i - k) + n" by (simp add: diff_mult_distrib2)
    then show ?thesis using True i n by (auto simp: bit_byte_of bit_push_bit_iff)
  next
    case False
    then have "\<not> 8 * k \<le> 8 * i + n" using n by simp
    then show ?thesis using False by (simp add: bit_byte_of bit_push_bit_iff)
  qed
qed

lemma byte_drop: "i < 8 \<Longrightarrow> byte_of (drop_bit (8 * k) w) i = (if i + k < 8 then byte_of w (i + k) else 0)"
  by (rule bit_word_eqI) (auto simp: bit_byte_of bit_drop_bit_eq algebra_simps dest: bit_imp_le_length)

lemma store_word_byte: "store_word m a w x = (if a \<le> x \<and> x < a + 8 then byte_of w (x - a) else m x)"
  by (simp add: store_word_def byte_of_def)

lemma store_load: "store_word m d (load_word m' s) x = (if d \<le> x \<and> x < d + 8 then m' (s + (x - d)) else m x)"
proof (cases "d \<le> x \<and> x < d + 8")
  case True
  then have "x - d < 8" by linarith
  then show ?thesis using True by (simp only: store_word_byte byte_load if_True simp_thms)
qed (auto simp: store_word_byte)

lemma load_word_eq_iff: "load_word m a = load_word m b \<longleftrightarrow> (\<forall>i<8. m (a + i) = m (b + i))"
proof
  assume "load_word m a = load_word m b"
  then show "\<forall>i<8. m (a + i) = m (b + i)" by (metis byte_load)
next
  assume *: "\<forall>i<8. m (a + i) = m (b + i)"
  show "load_word m a = load_word m b"
    by (rule bit_word_eqI) (use * in \<open>simp add: load_word_def bit_gather less_mult_imp_div_less\<close>)
qed

section \<open>Moves\<close>

definition moved :: "memory \<Rightarrow> nat \<Rightarrow> nat \<Rightarrow> nat \<Rightarrow> memory" where
  "moved m d s n = (\<lambda>a. if d \<le> a \<and> a < d + n then m (s + (a - d)) else m a)"

lemma moved_0 [simp]: "moved m d s 0 = m"
  by (rule ext) (auto simp: moved_def)

lemma moved_1: "moved m d s (Suc 0) = m(d := m s)"
  by (rule ext) (auto simp: moved_def le_less_Suc_eq)

lemma moved_word: "store_word m d (load_word m s) = moved m d s 8"
  by (rule ext) (simp only: store_load moved_def)

lemma moved_quad:
  "store_word (store_word (store_word (store_word m d (load_word m s)) (d + 8) (load_word m (s + 8)))
     (d + 16) (load_word m (s + 16))) (d + 24) (load_word m (s + 24)) = moved m d s 32"
  by (rule ext) (auto simp: store_load moved_def intro!: arg_cong [of _ _ m])

text \<open>A copy upwards is safe when it stays behind its source or ends before the destination.\<close>

definition ahead :: "nat \<Rightarrow> nat \<Rightarrow> nat \<Rightarrow> bool" where
  "ahead d s n \<longleftrightarrow> d \<le> s \<or> s + n \<le> d"

lemma moved_moved: "ahead d s (j + k) \<Longrightarrow> moved (moved m d s j) (d + j) (s + j) k = moved m d s (j + k)"
  by (rule ext) (auto simp: moved_def ahead_def)

lemma ahead_later: "ahead d s n \<Longrightarrow> j \<le> n \<Longrightarrow> ahead (d + j) (s + j) (n - j)"
  by (auto simp: ahead_def)

text \<open>What each forward loop promises: it moved a prefix and stands at its end.\<close>

definition forward :: "memory \<Rightarrow> nat \<Rightarrow> nat \<Rightarrow> nat \<Rightarrow> memory \<times> nat \<times> nat \<times> nat \<Rightarrow> bool" where
  "forward m d s n r \<longleftrightarrow> (\<exists>j\<le>n. r = (moved m d s j, d + j, s + j, n - j))"

lemma forward_refl: "forward m d s n (m, d, s, n)"
  unfolding forward_def by (rule exI [of _ 0]) simp

lemma forward_trans:
  assumes "ahead d s n" "k \<le> n" "forward (moved m d s k) (d + k) (s + k) (n - k) r"
  shows "forward m d s n r"
proof -
  obtain j where j: "j \<le> n - k" "r = (moved (moved m d s k) (d + k) (s + k) j, d + k + j, s + k + j, n - k - j)"
    using assms(3) unfolding forward_def by blast
  have "ahead d s (k + j)" using assms(1) j(1) assms(2) by (auto simp: ahead_def)
  then show ?thesis
    unfolding forward_def using j assms(2) by (intro exI [of _ "k + j"]) (simp add: moved_moved)
qed

lemma head_loop_forward: "ahead d s n \<Longrightarrow> forward m d s n (head_loop m d s n)"
proof (induction m d s n rule: head_loop.induct)
  case (2 m dst src n)
  show ?case
  proof (cases "aligned dst")
    case False
    have "ahead (dst + 1) (src + 1) n" using ahead_later [OF 2(2), of 1] by simp
    then have "forward (m(dst := m src)) (dst + 1) (src + 1) n (head_loop (m(dst := m src)) (dst + 1) (src + 1) n)"
      using 2(1) False by (simp add: fun_upd_def)
    then show ?thesis using forward_trans [OF 2(2), of 1] False by (simp add: moved_1)
  qed (simp add: forward_refl)
qed (simp add: forward_refl)

lemma quad_loop_forward: "ahead d s n \<Longrightarrow> forward m d s n (quad_loop m d s n)"
proof (induction m d s n rule: quad_loop.induct)
  case (1 m dst src n)
  show ?case
  proof (cases "32 \<le> n")
    case True
    have "quad_loop m dst src n = quad_loop (moved m dst src 32) (dst + 32) (src + 32) (n - 32)"
      using True by (subst quad_loop.simps) (simp add: Let_def moved_quad)
    moreover have "forward (moved m dst src 32) (dst + 32) (src + 32) (n - 32)
        (quad_loop (moved m dst src 32) (dst + 32) (src + 32) (n - 32))"
      using 1(1) [OF True refl refl refl refl refl ahead_later [OF 1(2) True]] by (simp add: moved_quad)
    ultimately show ?thesis using forward_trans [OF 1(2) True] by simp
  qed (simp add: forward_refl quad_loop.simps)
qed

lemma word_loop_forward: "ahead d s n \<Longrightarrow> forward m d s n (word_loop m d s n)"
proof (induction m d s n rule: word_loop.induct)
  case (1 m dst src n)
  show ?case
  proof (cases "8 \<le> n")
    case True
    then have "word_loop m dst src n = word_loop (moved m dst src 8) (dst + 8) (src + 8) (n - 8)"
      by (subst word_loop.simps) (simp add: moved_word)
    then show ?thesis using forward_trans [OF 1(2) True] 1(1) [OF True ahead_later [OF 1(2) True]] by (simp add: moved_word)
  qed (simp add: forward_refl word_loop.simps)
qed

lemma byte_loop_moved: "ahead d s n \<Longrightarrow> byte_loop m d s n = moved m d s n"
proof (induction m d s n rule: byte_loop.induct)
  case (2 m dst src n)
  have "ahead (dst + 1) (src + 1) n" using ahead_later [OF 2(2), of 1] by simp
  then show ?case using 2(1) moved_moved [of dst src 1 n m] 2(2) by (simp add: moved_1 fun_upd_def)
qed simp

text \<open>The shifted loop keeps in \<open>low\<close> the source bytes it has read ahead.\<close>

definition carried :: "memory \<Rightarrow> nat \<Rightarrow> nat \<Rightarrow> u64 \<Rightarrow> bool" where
  "carried m src pre low \<longleftrightarrow> (\<forall>i<8. byte_of low i = (if i < pre then m (src + i) else 0))"

lemma shift_store:
  assumes "carried m src pre low" "pre \<le> 8"
  shows "store_word m dst (low OR push_bit (8 * pre) (load_word m (src + pre))) = moved m dst src 8"
proof (rule ext)
  fix x
  show "store_word m dst (low OR push_bit (8 * pre) (load_word m (src + pre))) x = moved m dst src 8 x"
  proof (cases "dst \<le> x \<and> x < dst + 8")
    case True
    then have i: "x - dst < 8" by linarith
    then show ?thesis
      using assms True by (auto simp: store_word_byte moved_def carried_def byte_push intro!: arg_cong [of _ _ m])
  qed (auto simp: store_word_byte moved_def)
qed

lemma shift_loop_forward:
  "ahead d s n \<Longrightarrow> pre \<le> 8 \<Longrightarrow> carried m s pre low \<Longrightarrow> forward m d s n (shift_loop m d s n pre low)"
proof (induction m d s n pre low rule: shift_loop.induct)
  case (1 m dst src n pre low)
  show ?case
  proof (cases "8 + pre \<le> n")
    case True
    let ?m = "moved m dst src 8" and ?low = "drop_bit (8 * (8 - pre)) (load_word m (src + pre))"
    have eq: "store_word m dst (low OR push_bit (8 * pre) (load_word m (src + pre))) = ?m" by (rule shift_store [OF 1(4) 1(3)])
    have n: "8 \<le> n" using True by simp
    have unread: "?m (src + 8 + i) = m (src + 8 + i)" if "i < pre" for i
      using 1(2) True that by (auto simp: moved_def ahead_def)
    have "carried ?m (src + 8) pre ?low"
      unfolding carried_def using 1(3) unread by (auto simp: byte_drop ac_simps)
    then have "forward ?m (dst + 8) (src + 8) (n - 8) (shift_loop ?m (dst + 8) (src + 8) (n - 8) pre ?low)"
      using 1(1) [OF True refl refl] eq ahead_later [OF 1(2) n] 1(3) by simp
    moreover have "shift_loop m dst src n pre low = shift_loop ?m (dst + 8) (src + 8) (n - 8) pre ?low"
      using True by (subst shift_loop.simps) (simp add: Let_def eq)
    ultimately show ?thesis using forward_trans [OF 1(2) n] by simp
  qed (simp add: forward_refl shift_loop.simps)
qed

lemma forward_byte_loop:
  assumes "ahead d s n" "forward m d s n (m', d', s', n')"
  shows "byte_loop m' d' s' n' = moved m d s n"
proof -
  obtain j where j: "j \<le> n" "m' = moved m d s j" "d' = d + j" "s' = s + j" "n' = n - j"
    using assms(2) unfolding forward_def by blast
  then show ?thesis
    using byte_loop_moved [OF ahead_later [OF assms(1) j(1)]] moved_moved [of d s j "n - j" m] assms(1) by simp
qed

lemma forward_then:
  assumes "ahead d s n" "forward m d s n (m', d', s', n')" "ahead d' s' n' \<Longrightarrow> forward m' d' s' n' r"
  shows "forward m d s n r"
proof -
  obtain j where j: "j \<le> n" "m' = moved m d s j" "d' = d + j" "s' = s + j" "n' = n - j"
    using assms(2) unfolding forward_def by blast
  then show ?thesis using forward_trans [OF assms(1) j(1)] assms(3) ahead_later [OF assms(1) j(1)] by simp
qed

lemma carried_gather: "pre \<le> 8 \<Longrightarrow> carried m src pre (gather m src pre)"
  by (simp add: carried_def byte_gather)

lemma copy_forward_moved:
  assumes "ahead d s n"
  shows "copy_forward m d s n = moved m d s n"
proof -
  obtain m1 d1 s1 n1 where h: "head_loop m d s n = (m1, d1, s1, n1)" by (cases "head_loop m d s n")
  have f1: "forward m d s n (m1, d1, s1, n1)" using head_loop_forward [OF assms, of m] h by simp
  obtain m2 d2 s2 n2 where q: "quad_loop m1 d1 s1 n1 = (m2, d2, s2, n2)" by (cases "quad_loop m1 d1 s1 n1")
  obtain m3 d3 s3 n3 where w: "word_loop m2 d2 s2 n2 = (m3, d3, s3, n3)" by (cases "word_loop m2 d2 s2 n2")
  define pre where "pre = 8 - s1 mod 8"
  obtain m4 d4 s4 n4 where g: "shift_loop m1 d1 s1 n1 pre (gather m1 s1 pre) = (m4, d4, s4, n4)"
    by (cases "shift_loop m1 d1 s1 n1 pre (gather m1 s1 pre)")
  have "forward m d s n (m2, d2, s2, n2)" by (rule forward_then [OF assms f1]) (use quad_loop_forward [of d1 s1 n1 m1] q in simp)
  then have f3: "forward m d s n (m3, d3, s3, n3)" by (rule forward_then [OF assms]) (use word_loop_forward [of d2 s2 n2 m2] w in simp)
  have f4: "forward m d s n (m4, d4, s4, n4)"
    by (rule forward_then [OF assms f1])
      (use shift_loop_forward [of d1 s1 n1 pre m1 "gather m1 s1 pre"] carried_gather [of pre m1 s1] g in \<open>simp add: pre_def\<close>)
  have z: "n1 = 0 \<Longrightarrow> m1 = moved m d s n" using forward_byte_loop [OF assms f1] by simp
  show ?thesis
    using h q w g f1 z forward_byte_loop [OF assms f1] forward_byte_loop [OF assms f3] forward_byte_loop [OF assms f4]
    by (simp add: copy_forward_def pre_def [symmetric])
qed

section \<open>Moves downwards\<close>

definition behind :: "nat \<Rightarrow> nat \<Rightarrow> nat \<Rightarrow> bool" where
  "behind d s n \<longleftrightarrow> n \<le> s \<and> s \<le> d"

lemma moved_down:
  "behind d s (j + k) \<Longrightarrow> moved (moved m (d - j) (s - j) j) (d - (j + k)) (s - (j + k)) k = moved m (d - (j + k)) (s - (j + k)) (j + k)"
  by (rule ext) (auto simp: moved_def behind_def intro!: arg_cong [of _ _ m])

lemma behind_later: "behind d s n \<Longrightarrow> j \<le> n \<Longrightarrow> behind (d - j) (s - j) (n - j)"
  by (auto simp: behind_def)

definition backward :: "memory \<Rightarrow> nat \<Rightarrow> nat \<Rightarrow> nat \<Rightarrow> memory \<times> nat \<times> nat \<times> nat \<Rightarrow> bool" where
  "backward m d s n r \<longleftrightarrow> (\<exists>j\<le>n. r = (moved m (d - j) (s - j) j, d - j, s - j, n - j))"

lemma backward_refl: "backward m d s n (m, d, s, n)"
  unfolding backward_def by (rule exI [of _ 0]) simp

lemma backward_trans:
  assumes "behind d s n" "k \<le> n" "backward (moved m (d - k) (s - k) k) (d - k) (s - k) (n - k) r"
  shows "backward m d s n r"
proof -
  obtain j where j: "j \<le> n - k"
      "r = (moved (moved m (d - k) (s - k) k) (d - k - j) (s - k - j) j, d - k - j, s - k - j, n - k - j)"
    using assms(3) unfolding backward_def by blast
  have "behind d s (k + j)" using assms(1) j(1) assms(2) by (auto simp: behind_def)
  then show ?thesis
    unfolding backward_def using j assms(2) by (intro exI [of _ "k + j"]) (simp add: moved_down)
qed

lemma backward_then:
  assumes "behind d s n" "backward m d s n (m', d', s', n')" "behind d' s' n' \<Longrightarrow> backward m' d' s' n' r"
  shows "backward m d s n r"
proof -
  obtain j where j: "j \<le> n" "m' = moved m (d - j) (s - j) j" "d' = d - j" "s' = s - j" "n' = n - j"
    using assms(2) unfolding backward_def by blast
  then show ?thesis using backward_trans [OF assms(1) j(1)] assms(3) behind_later [OF assms(1) j(1)] by simp
qed

lemma moved_quad_down:
  "32 \<le> s \<Longrightarrow> s \<le> d \<Longrightarrow>
   store_word (store_word (store_word (store_word m (d - 8) (load_word m (s - 8))) (d - 16) (load_word m (s - 16)))
     (d - 24) (load_word m (s - 24))) (d - 32) (load_word m (s - 32)) = moved m (d - 32) (s - 32) 32"
  by (rule ext) (auto simp: store_load moved_def intro!: arg_cong [of _ _ m])

lemma head_down_backward: "behind d s n \<Longrightarrow> backward m d s n (head_down m d s n)"
proof (induction m d s n rule: head_down.induct)
  case (2 m dst src n)
  show ?case
  proof (cases "aligned dst")
    case False
    have "behind (dst - 1) (src - 1) n" using behind_later [OF 2(2), of 1] by simp
    then have "backward (m(dst - 1 := m (src - 1))) (dst - 1) (src - 1) n
        (head_down (m(dst - 1 := m (src - 1))) (dst - 1) (src - 1) n)"
      using 2(1) False by (simp add: fun_upd_def)
    then show ?thesis using backward_trans [OF 2(2), of 1] False by (simp add: moved_1)
  qed (simp add: backward_refl)
qed (simp add: backward_refl)

lemma quad_down_backward: "behind d s n \<Longrightarrow> backward m d s n (quad_down m d s n)"
proof (induction m d s n rule: quad_down.induct)
  case (1 m dst src n)
  show ?case
  proof (cases "32 \<le> n")
    case True
    have b: "32 \<le> src" "src \<le> dst" using 1(2) True by (auto simp: behind_def)
    have "quad_down m dst src n = quad_down (moved m (dst - 32) (src - 32) 32) (dst - 32) (src - 32) (n - 32)"
      using True by (subst quad_down.simps) (simp add: Let_def moved_quad_down [OF b])
    moreover have "backward (moved m (dst - 32) (src - 32) 32) (dst - 32) (src - 32) (n - 32)
        (quad_down (moved m (dst - 32) (src - 32) 32) (dst - 32) (src - 32) (n - 32))"
      using 1(1) [OF True refl refl refl refl refl behind_later [OF 1(2) True]] by (simp add: moved_quad_down [OF b])
    ultimately show ?thesis using backward_trans [OF 1(2) True] by simp
  qed (simp add: backward_refl quad_down.simps)
qed

lemma word_down_backward: "behind d s n \<Longrightarrow> backward m d s n (word_down m d s n)"
proof (induction m d s n rule: word_down.induct)
  case (1 m dst src n)
  show ?case
  proof (cases "8 \<le> n")
    case True
    then have "word_down m dst src n = word_down (moved m (dst - 8) (src - 8) 8) (dst - 8) (src - 8) (n - 8)"
      by (subst word_down.simps) (simp add: moved_word)
    then show ?thesis using backward_trans [OF 1(2) True] 1(1) [OF True behind_later [OF 1(2) True]] by (simp add: moved_word)
  qed (simp add: backward_refl word_down.simps)
qed

lemma byte_down_moved: "behind d s n \<Longrightarrow> byte_down m d s n = moved m (d - n) (s - n) n"
proof (induction m d s n rule: byte_down.induct)
  case (2 m dst src n)
  have "behind (dst - 1) (src - 1) n" using behind_later [OF 2(2), of 1] by simp
  then show ?case using 2(1) moved_down [of dst src 1 n m] 2(2) by (simp add: moved_1 fun_upd_def)
qed simp

definition carried_high :: "memory \<Rightarrow> nat \<Rightarrow> nat \<Rightarrow> u64 \<Rightarrow> bool" where
  "carried_high m src suf high \<longleftrightarrow> (\<forall>i<8. byte_of high i = (if 8 - suf \<le> i then m (src + i - 8) else 0))"

lemma shift_store_down:
  assumes "carried_high m src suf high" "suf < 8" "8 + suf \<le> src" "src \<le> dst"
  shows "store_word m (dst - 8) (high OR drop_bit (8 * suf) (load_word m (src - suf - 8))) = moved m (dst - 8) (src - 8) 8"
proof (rule ext)
  fix x
  show "store_word m (dst - 8) (high OR drop_bit (8 * suf) (load_word m (src - suf - 8))) x = moved m (dst - 8) (src - 8) 8 x"
  proof (cases "dst - 8 \<le> x \<and> x < dst - 8 + 8")
    case True
    then have i: "x - (dst - 8) < 8" by linarith
    have b: "byte_of high (x - (dst - 8)) = (if 8 - suf \<le> x - (dst - 8) then m (src - 8 + (x - (dst - 8))) else 0)"
      using assms(1,3) i unfolding carried_high_def by simp
    have c: "byte_of (drop_bit (8 * suf) (load_word m (src - suf - 8))) (x - (dst - 8)) =
        (if x - (dst - 8) + suf < 8 then m (src - 8 + (x - (dst - 8))) else 0)"
      using assms(2,3) by (auto simp: byte_drop [OF i] intro!: arg_cong [of _ _ m])
    have "store_word m (dst - 8) (high OR drop_bit (8 * suf) (load_word m (src - suf - 8))) x = m (src - 8 + (x - (dst - 8)))"
      using True b c assms(2) by (simp add: store_word_byte) linarith
    then show ?thesis using True by (simp add: moved_def)
  qed (auto simp: store_word_byte moved_def)
qed

lemma shift_down_backward:
  "behind d s n \<Longrightarrow> suf < 8 \<Longrightarrow> carried_high m s suf high \<Longrightarrow> backward m d s n (shift_down m d s n suf high)"
proof (induction m d s n suf high rule: shift_down.induct)
  case (1 m dst src n suf high)
  show ?case
  proof (cases "8 + suf \<le> n")
    case True
    let ?m = "moved m (dst - 8) (src - 8) 8" and ?high = "push_bit (8 * (8 - suf)) (load_word m (src - suf - 8))"
    have b: "8 + suf \<le> src" "src \<le> dst" using True 1(2) by (auto simp: behind_def)
    have eq: "store_word m (dst - 8) (high OR drop_bit (8 * suf) (load_word m (src - suf - 8))) = ?m"
      by (rule shift_store_down [OF 1(4) 1(3) b])
    have n: "8 \<le> n" using True by simp
    have "carried_high ?m (src - 8) suf ?high"
      unfolding carried_high_def
    proof (intro allI impI)
      fix i :: nat assume i: "i < 8"
      have "byte_of ?high i = (if 8 - suf \<le> i then m (src - suf - 8 + (i - (8 - suf))) else 0)"
        using i 1(3) by (simp add: byte_push)
      moreover have "m (src - suf - 8 + (i - (8 - suf))) = ?m (src - 8 + i - 8)" if "8 - suf \<le> i"
        using b that i 1(3) by (auto simp: moved_def intro!: arg_cong [of _ _ m])
      ultimately show "byte_of ?high i = (if 8 - suf \<le> i then ?m (src - 8 + i - 8) else 0)" by simp
    qed
    then have "backward ?m (dst - 8) (src - 8) (n - 8) (shift_down ?m (dst - 8) (src - 8) (n - 8) suf ?high)"
      using 1(1) [OF True refl refl] eq behind_later [OF 1(2) n] 1(3) by simp
    moreover have "shift_down m dst src n suf high = shift_down ?m (dst - 8) (src - 8) (n - 8) suf ?high"
      using True by (subst shift_down.simps) (simp only: Let_def eq if_True)
    ultimately show ?thesis using backward_trans [OF 1(2) n] by simp
  qed (simp add: backward_refl shift_down.simps)
qed

lemma backward_byte_down:
  assumes "behind d s n" "backward m d s n (m', d', s', n')"
  shows "byte_down m' d' s' n' = moved m (d - n) (s - n) n"
proof -
  obtain j where j: "j \<le> n" "m' = moved m (d - j) (s - j) j" "d' = d - j" "s' = s - j" "n' = n - j"
    using assms(2) unfolding backward_def by blast
  then show ?thesis
    using byte_down_moved [OF behind_later [OF assms(1) j(1)]] moved_down [of d s j "n - j" m] assms(1) by simp
qed

lemma bit_gather_high:
  fixes m :: memory
  shows
  "suf \<le> 8 \<Longrightarrow> k \<le> suf \<Longrightarrow>
   bit (fold (\<lambda>i w. w OR push_bit (8 * (8 - suf + i)) (ucast (m (src - suf + i)))) [0..<k] (0 :: u64)) n \<longleftrightarrow>
     8 * (8 - suf) \<le> n \<and> n < 8 * (8 - suf + k) \<and> bit (m (src - suf + (n div 8 - (8 - suf)))) (n mod 8)"
proof (induction k)
  case (Suc k)
  let ?b = "8 * (8 - suf + k)"
  have b: "bit (push_bit ?b (ucast (m (src - suf + k)) :: u64)) n \<longleftrightarrow> ?b \<le> n \<and> n < ?b + 8 \<and> bit (m (src - suf + k)) (n - ?b)"
    by (rule bit_push_byte) (use Suc.prems in simp)
  have IH: "bit (fold (\<lambda>i w. w OR push_bit (8 * (8 - suf + i)) (ucast (m (src - suf + i)))) [0..<k] (0 :: u64)) n \<longleftrightarrow>
      8 * (8 - suf) \<le> n \<and> n < ?b \<and> bit (m (src - suf + (n div 8 - (8 - suf)))) (n mod 8)"
    using Suc by simp
  show ?case
  proof (cases "?b \<le> n \<and> n < ?b + 8")
    case True
    then have "n div 8 = 8 - suf + k \<and> n mod 8 = n - ?b" by (intro octet_split) blast+
    then show ?thesis using True IH b by (simp add: bit_or_iff)
  next
    case False
    then show ?thesis using IH b by (auto simp: bit_or_iff)
  qed
qed simp

lemma carried_gather_high: "suf < 8 \<Longrightarrow> suf \<le> src \<Longrightarrow> carried_high m src suf (gather_high m src suf)"
  unfolding carried_high_def
proof (intro allI impI)
  fix i :: nat assume s: "suf < 8" "suf \<le> src" and i: "i < 8"
  have e: "src - suf + (i - (8 - suf)) = src + i - 8" if "8 - suf \<le> i" using that s by auto
  show "byte_of (gather_high m src suf) i = (if 8 - suf \<le> i then m (src + i - 8) else 0)"
  proof (rule bit_word_eqI)
    fix n assume n: "n < LENGTH(8)"
    have "bit (gather_high m src suf) (8 * i + n) \<longleftrightarrow>
        8 * (8 - suf) \<le> 8 * i + n \<and> 8 * i + n < 8 * (8 - suf + suf) \<and>
        bit (m (src - suf + ((8 * i + n) div 8 - (8 - suf)))) ((8 * i + n) mod 8)"
      unfolding gather_high_def by (rule bit_gather_high) (use s in auto)
    moreover have "8 * (8 - suf) \<le> 8 * i + n \<longleftrightarrow> 8 - suf \<le> i" using n by simp linarith
    moreover have "(8 * i + n) div 8 = i" "(8 * i + n) mod 8 = n" using n by simp_all
    ultimately show "bit (byte_of (gather_high m src suf) i) n = bit (if 8 - suf \<le> i then m (src + i - 8) else 0) n"
      using s i n e by (simp add: bit_byte_of)
  qed
qed

lemma copy_backward_moved:
  assumes "behind d s n"
  shows "copy_backward m d s n = moved m (d - n) (s - n) n"
proof -
  obtain m1 d1 s1 n1 where h: "head_down m d s n = (m1, d1, s1, n1)" by (cases "head_down m d s n")
  have f1: "backward m d s n (m1, d1, s1, n1)" using head_down_backward [OF assms, of m] h by simp
  obtain m2 d2 s2 n2 where q: "quad_down m1 d1 s1 n1 = (m2, d2, s2, n2)" by (cases "quad_down m1 d1 s1 n1")
  obtain m3 d3 s3 n3 where w: "word_down m2 d2 s2 n2 = (m3, d3, s3, n3)" by (cases "word_down m2 d2 s2 n2")
  define suf where "suf = s1 mod 8"
  have suf: "suf < 8" "suf \<le> s1" by (simp_all add: suf_def)
  obtain m4 d4 s4 n4 where g: "shift_down m1 d1 s1 n1 suf (gather_high m1 s1 suf) = (m4, d4, s4, n4)"
    by (cases "shift_down m1 d1 s1 n1 suf (gather_high m1 s1 suf)")
  have "backward m d s n (m2, d2, s2, n2)" by (rule backward_then [OF assms f1]) (use quad_down_backward [of d1 s1 n1 m1] q in simp)
  then have f3: "backward m d s n (m3, d3, s3, n3)" by (rule backward_then [OF assms]) (use word_down_backward [of d2 s2 n2 m2] w in simp)
  have f4: "backward m d s n (m4, d4, s4, n4)"
    by (rule backward_then [OF assms f1])
      (use shift_down_backward [OF _ suf(1) carried_gather_high [OF suf, of m1], of d1 n1] g in simp)
  have z: "n1 = 0 \<Longrightarrow> m1 = moved m (d - n) (s - n) n" using backward_byte_down [OF assms f1] by simp
  show ?thesis
    using h q w g f1 z backward_byte_down [OF assms f1] backward_byte_down [OF assms f3] backward_byte_down [OF assms f4]
    by (simp add: copy_backward_def suf_def [symmetric])
qed

lemma memmove_moved: "memmove m d s n = moved m d s n"
proof -
  consider "n = 0 \<or> d = s" | "\<not> (n = 0 \<or> d = s)" "d < s \<or> n \<le> d - s" | "\<not> (n = 0 \<or> d = s)" "\<not> (d < s \<or> n \<le> d - s)" by blast
  then show ?thesis
  proof cases
    case 1 then show ?thesis by (intro ext) (auto simp: memmove_def moved_def)
  next
    case 2
    then have "ahead d s n" by (auto simp: ahead_def)
    then show ?thesis using 2 copy_forward_moved by (simp add: memmove_def)
  next
    case 3
    then have "behind (d + n) (s + n) n" by (auto simp: behind_def)
    then show ?thesis using 3 copy_backward_moved [of "d + n" "s + n" n m] by (simp add: memmove_def)
  qed
qed

section \<open>memset\<close>

definition filled :: "memory \<Rightarrow> nat \<Rightarrow> u8 \<Rightarrow> nat \<Rightarrow> memory" where
  "filled m d b n = (\<lambda>a. if d \<le> a \<and> a < d + n then b else m a)"

lemma filled_0 [simp]: "filled m d b 0 = m"
  by (rule ext) (auto simp: filled_def)

lemma filled_1: "filled m d b (Suc 0) = m(d := b)"
  by (rule ext) (auto simp: filled_def)

lemma filled_filled: "filled (filled m d b j) (d + j) b k = filled m d b (j + k)"
  by (rule ext) (auto simp: filled_def)

definition spread :: "u64 \<Rightarrow> u8 \<Rightarrow> bool" where
  "spread pat b \<longleftrightarrow> (\<forall>i<8. byte_of pat i = b)"

lemma filled_word: "spread pat b \<Longrightarrow> store_word m d pat = filled m d b 8"
  by (rule ext) (auto simp: store_word_byte filled_def spread_def less_diff_conv2)

lemma set_bytes_filled: "set_bytes m d b n = filled m d b n"
proof (induction m d b n rule: set_bytes.induct)
  case (2 m dst b n)
  then show ?case using filled_filled [of m dst b 1 n] by (simp add: filled_1 fun_upd_def)
qed simp

lemma set_head_filled: "\<exists>j\<le>n. set_head m d b n = (filled m d b j, d + j, n - j)"
proof (induction m d b n rule: set_head.induct)
  case (2 m dst b n)
  show ?case
  proof (cases "aligned dst")
    case True then show ?thesis by (intro exI [of _ 0]) simp
  next
    case False
    then obtain j where "j \<le> n" "set_head (m(dst := b)) (dst + 1) b n = (filled (m(dst := b)) (dst + 1) b j, dst + 1 + j, n - j)"
      using 2 by blast
    then show ?thesis using False filled_filled [of m dst b 1 j] by (intro exI [of _ "Suc j"]) (simp add: filled_1)
  qed
qed simp

lemma set_quads_filled: "spread pat b \<Longrightarrow> \<exists>j\<le>n. set_quads m d pat n = (filled m d b j, d + j, n - j)"
proof (induction m d pat n rule: set_quads.induct)
  case (1 m dst pat n)
  have q: "store_word (store_word (store_word (store_word m dst pat) (dst + 8) pat) (dst + 16) pat) (dst + 24) pat = filled m dst b 32"
    by (rule ext) (auto simp: filled_word [OF 1(2)] filled_def)
  show ?case
  proof (cases "32 \<le> n")
    case True
    then obtain j where j: "j \<le> n - 32" "set_quads (filled m dst b 32) (dst + 32) pat (n - 32) =
        (filled (filled m dst b 32) (dst + 32) b j, dst + 32 + j, n - 32 - j)"
      using 1 q by auto
    then show ?thesis
      using True filled_filled [of m dst b 32 j] by (intro exI [of _ "32 + j"]) (subst set_quads.simps, simp add: q)
  next
    case False then show ?thesis by (intro exI [of _ 0]) (simp add: set_quads.simps)
  qed
qed

lemma set_words_filled: "spread pat b \<Longrightarrow> \<exists>j\<le>n. set_words m d pat n = (filled m d b j, d + j, n - j)"
proof (induction m d pat n rule: set_words.induct)
  case (1 m dst pat n)
  show ?case
  proof (cases "8 \<le> n")
    case True
    then obtain j where j: "j \<le> n - 8" "set_words (filled m dst b 8) (dst + 8) pat (n - 8) =
        (filled (filled m dst b 8) (dst + 8) b j, dst + 8 + j, n - 8 - j)"
      using 1 filled_word [OF 1(2)] by auto
    then show ?thesis
      using True filled_filled [of m dst b 8 j]
      by (intro exI [of _ "8 + j"]) (subst set_words.simps, simp add: filled_word [OF 1(2)])
  next
    case False then show ?thesis by (intro exI [of _ 0]) (simp add: set_words.simps)
  qed
qed

lemma unat_byte_of: "unat (byte_of w i) = unat w div 2 ^ (8 * i) mod 256"
  by (simp add: byte_of_def unsigned_ucast_eq unat_drop_bit_eq) (simp add: take_bit_eq_mod drop_bit_eq_div)

lemma repeated_octet:
  fixes x :: nat
  assumes "x < 256" "i < 8"
  shows "72340172838076673 * x div 2 ^ (8 * i) mod 256 = x"
proof -
  have split: "(x * (h * 256 + 1) * p + x * l) div p mod 256 = x" if "255 * l < p" for h p l :: nat
  proof -
    have "x * l \<le> 255 * l" using assms(1) by (intro mult_right_mono) simp_all
    then have "x * l < p" using that by linarith
    then have "(x * (h * 256 + 1) * p + x * l) div p = x * (h * 256 + 1)" by simp
    also have "\<dots> = x + 256 * (x * h)" by (simp add: algebra_simps)
    finally show ?thesis using assms(1) by simp
  qed
  consider "i = 0" | "i = 1" | "i = 2" | "i = 3" | "i = 4" | "i = 5" | "i = 6" | "i = 7" using assms(2) by linarith
  then show ?thesis
  proof cases
    case 1 then show ?thesis using split [of 0 1 282578800148737] by (simp add: mult.commute)
  next
    case 2 then show ?thesis using split [of 1 256 1103823438081] by simp
  next
    case 3 then show ?thesis using split [of 257 65536 4311810305] by simp
  next
    case 4 then show ?thesis using split [of 65793 16777216 16843009] by simp
  next
    case 5 then show ?thesis using split [of 16843009 4294967296 65793] by simp
  next
    case 6 then show ?thesis using split [of 4311810305 1099511627776 257] by simp
  next
    case 7 then show ?thesis using split [of 1103823438081 281474976710656 1] by simp
  next
    case 8 then show ?thesis using split [of 282578800148737 72057594037927936 0] by simp
  qed
qed

lemma spread_pattern: "spread ((- 1 div 255) * ucast b) b"
proof -
  let ?p = "72340172838076673 * ucast b :: u64"
  have c: "(- 1 div 255 :: u64) = 72340172838076673" by (simp add: word_div_def uint_word_ariths)
  have x: "unat b < 256" using unsigned_less [of b] by simp
  have "unat ?p = 72340172838076673 * unat b" using x by (simp add: unat_word_ariths unsigned_ucast_eq take_bit_eq_mod)
  then have "byte_of ?p i = b" if "i < 8" for i
    using repeated_octet [OF x that] by (simp add: word_unat_eq_iff unat_byte_of)
  then show ?thesis using c by (simp add: spread_def)
qed

lemma memset_filled: "memset m d v n = filled m d (word_of_int v) n"
proof -
  let ?b = "word_of_int v :: u8" and ?p = "(- 1 div 255) * ucast (word_of_int v :: u8) :: u64"
  obtain j where j: "j \<le> n" "set_head m d ?b n = (filled m d ?b j, d + j, n - j)" using set_head_filled by blast
  obtain k where k: "k \<le> n - j"
      "set_quads (filled m d ?b j) (d + j) ?p (n - j) = (filled (filled m d ?b j) (d + j) ?b k, d + j + k, n - j - k)"
    using set_quads_filled [OF spread_pattern] by blast
  obtain l where l: "l \<le> n - j - k" "set_words (filled m d ?b (j + k)) (d + j + k) ?p (n - j - k) =
      (filled (filled m d ?b (j + k)) (d + j + k) ?b l, d + j + k + l, n - j - k - l)"
    using set_words_filled [OF spread_pattern] by blast
  show ?thesis
  proof (cases "n = j")
    case True
    then show ?thesis using j by (simp add: memset_def)
  next
    case False
    then show ?thesis
      using j k l filled_filled [of m d ?b "j + k" l] filled_filled [of m d ?b "j + k + l" "n - j - k - l"]
      by (simp add: memset_def Let_def filled_filled set_bytes_filled add.assoc)
  qed
qed

section \<open>Comparisons\<close>

text \<open>The first difference of the two ranges decides.\<close>

lemma compare_bytes_same: "(\<And>i. i < k \<Longrightarrow> m (l + i) = m (r + i)) \<Longrightarrow> k \<le> n \<Longrightarrow>
    compare_bytes m l r n = compare_bytes m (l + k) (r + k) (n - k)"
proof (induction k arbitrary: l r n)
  case (Suc k)
  then obtain n' where n: "n = Suc n'" by (cases n) auto
  have eq: "m l = m r" using Suc.prems(1) [of 0] by simp
  have "compare_bytes m (l + 1) (r + 1) n' = compare_bytes m (l + 1 + k) (r + 1 + k) (n' - k)"
    using Suc.prems n by (intro Suc.IH) (use Suc.prems(1) [of "Suc _"] in auto)
  then show ?case using n eq by simp
qed simp

lemma compare_head_bytes:
  "(case compare_head m l r n of Inl d \<Rightarrow> d | Inr (l1, r1, n1) \<Rightarrow> compare_bytes m l1 r1 n1) = compare_bytes m l r n"
  by (induction m l r n rule: compare_head.induct) auto

lemma compare_words_bytes:
  "(case compare_words m l r n of (l1, r1, n1) \<Rightarrow> compare_bytes m l1 r1 n1) = compare_bytes m l r n"
proof (induction m l r n rule: compare_words.induct)
  case (1 m l r n)
  show ?case
  proof (cases "8 \<le> n \<and> load_word m l = load_word m r")
    case True
    then have "compare_bytes m l r n = compare_bytes m (l + 8) (r + 8) (n - 8)"
      by (intro compare_bytes_same) (auto simp: load_word_eq_iff)
    then show ?thesis using 1 True by (simp add: compare_words.simps [of m l r n])
  qed (auto simp: compare_words.simps [of m l r n])
qed

lemma memcmp_bytes: "memcmp m l r n = compare_bytes m l r n"
proof -
  consider d where "compare_head m l r n = Inl d" | l1 r1 n1 where "compare_head m l r n = Inr (l1, r1, n1)"
    by (cases "compare_head m l r n") auto
  then show ?thesis
  proof cases
    case 1 then show ?thesis using compare_head_bytes [of m l r n] by (simp add: memcmp_def)
  next
    case (2 l1 r1 n1)
    then show ?thesis using compare_head_bytes [of m l r n] compare_words_bytes [of m l1 r1 n1] by (simp add: memcmp_def)
  qed
qed

lemma compare_bytes_zero_iff: "compare_bytes m l r n = 0 \<longleftrightarrow> (\<forall>i<n. m (l + i) = m (r + i))"
proof (induction m l r n rule: compare_bytes.induct)
  case (2 m l r n)
  have "(\<forall>i<Suc n. m (l + i) = m (r + i)) \<longleftrightarrow> m l = m r \<and> (\<forall>i<n. m (l + 1 + i) = m (r + 1 + i))"
    by (auto simp: less_Suc_eq_0_disj)
  then show ?case using 2 by (simp add: word_uint_eq_iff)
qed simp

lemma compare_bytes_first:
  "i < n \<Longrightarrow> (\<forall>j<i. m (l + j) = m (r + j)) \<Longrightarrow> m (l + i) \<noteq> m (r + i) \<Longrightarrow>
   compare_bytes m l r n = uint (m (l + i)) - uint (m (r + i))"
  by (cases "n - i") (auto simp: compare_bytes_same [of i m l r n])

section \<open>Terminated strings\<close>

text \<open>\<open>cstring m p n\<close>: at \<open>p\<close> stands a string of length \<open>n\<close> with its terminator.\<close>

definition cstring :: "memory \<Rightarrow> nat \<Rightarrow> nat \<Rightarrow> bool" where
  "cstring m p n \<longleftrightarrow> m (p + n) = 0 \<and> (\<forall>i<n. m (p + i) \<noteq> 0)"

lemma cstring_0: "cstring m p 0 \<longleftrightarrow> m p = 0"
  by (simp add: cstring_def)

lemma cstring_Suc: "cstring m p (Suc n) \<longleftrightarrow> m p \<noteq> 0 \<and> cstring m (p + 1) n"
  by (auto simp: cstring_def less_Suc_eq_0_disj)

lemma cstring_unique: "cstring m p a \<Longrightarrow> cstring m p b \<Longrightarrow> a = b"
  unfolding cstring_def by (metis linorder_neqE_nat)

lemma strlen_loop_spec: "cstring m (p + k) n \<Longrightarrow> strlen_loop m p k = Some (k + n)"
  by (induction n arbitrary: k) (subst strlen_loop.simps, simp add: cstring_0 cstring_Suc)+

lemma strlen_spec: "cstring m p n \<Longrightarrow> strlen m p = Some n"
  using strlen_loop_spec [of m p 0 n] by (simp add: strlen_def)

lemma strcpy_spec:
  "cstring m s n \<Longrightarrow> s + n < d \<or> d \<le> s \<Longrightarrow> strcpy m d s = Some (moved m d s (Suc n))"
proof (induction n arbitrary: m d s)
  case 0
  then show ?case by (subst strcpy.simps) (auto simp: cstring_0 moved_1 Let_def)
next
  case (Suc n)
  let ?m = "moved m d s 1"
  have c: "cstring ?m (s + 1) n"
    using Suc.prems by (auto simp: cstring_Suc cstring_def moved_def)
  have "strcpy ?m (d + 1) (s + 1) = Some (moved ?m (d + 1) (s + 1) (Suc n))"
    using Suc.prems(2) by (intro Suc.IH [OF c]) auto
  moreover have "moved ?m (d + 1) (s + 1) (Suc n) = moved m d s (Suc (Suc n))"
    using moved_moved [of d s 1 "Suc n" m] Suc.prems(2) by (auto simp: ahead_def)
  moreover have "?m s \<noteq> 0" using Suc.prems(1) by (auto simp: cstring_Suc moved_def)
  ultimately show ?case by (subst strcpy.simps) (simp add: moved_1 Let_def)
qed

text \<open>Both comparisons agree with a byte comparison that covers the shorter string and its terminator.\<close>

lemma strcmp_spec:
  "cstring m l a \<Longrightarrow> strcmp m l r = Some (compare_bytes m l r (Suc a))"
proof (induction a arbitrary: l r)
  case 0
  then show ?case by (subst strcmp.simps) (simp add: cstring_0)
next
  case (Suc a)
  then show ?case by (subst strcmp.simps) (simp add: cstring_Suc)
qed

lemma strncmp_spec: "cstring m l a \<Longrightarrow> strncmp m l r n = compare_bytes m l r (min n (Suc a))"
proof (induction a arbitrary: l r n)
  case 0
  then show ?case by (cases n) (auto simp: cstring_0)
next
  case (Suc a)
  then show ?case by (cases n) (auto simp: cstring_Suc)
qed

lemma strncpy_copy_spec:
  "cstring m s a \<Longrightarrow> s + a < d \<or> d \<le> s \<Longrightarrow>
   strncpy_copy m d s n = (moved m d s (min n a), d + min n a, n - min n a)"
proof (induction a arbitrary: m d s n)
  case 0
  then show ?case by (cases n) (auto simp: cstring_0)
next
  case (Suc a)
  show ?case
  proof (cases n)
    case (Suc k)
    let ?m = "moved m d s 1"
    have c: "cstring ?m (s + 1) a"
      using Suc.prems by (auto simp: cstring_Suc cstring_def moved_def)
    have "strncpy_copy ?m (d + 1) (s + 1) k = (moved ?m (d + 1) (s + 1) (min k a), d + 1 + min k a, k - min k a)"
      using Suc.prems(2) by (intro Suc.IH [OF c]) auto
    moreover have "moved ?m (d + 1) (s + 1) (min k a) = moved m d s (Suc (min k a))"
      using moved_moved [of d s 1 "min k a" m] Suc.prems(2) by (auto simp: ahead_def)
    ultimately show ?thesis using Suc Suc.prems(1) by (simp add: moved_1 cstring_Suc)
  qed simp
qed

end
