(* ===== verification/Qsort.thy ===== *)
theory Qsort
  imports Kernel_Prelude
begin

text \<open>
  \<^verbatim>\<open>src/lib/qsort.c\<close>: heap sort over an array of \<^verbatim>\<open>count\<close> elements of \<^verbatim>\<open>size\<close> bytes, the \<open>width\<close> below. The model works on the
  flat array of bytes, as the code does; \<open>compare\<close> stands for the caller's comparison of two elements, which reads the bytes of the elements only.
\<close>

section \<open>The code\<close>

function swap_loop :: "u8 list \<Rightarrow> nat \<Rightarrow> nat \<Rightarrow> nat \<Rightarrow> nat \<Rightarrow> u8 list" where
  "swap_loop bytes left right width index =
     (if index < width then
        let temporary = bytes ! (left + index)
        in swap_loop (bytes[left + index := bytes ! (right + index), right + index := temporary]) left right width (index + 1)
      else bytes)"
  by pat_completeness auto
termination
  by (relation "measure (\<lambda>(bytes, left, right, width, index). width - index)") auto

declare swap_loop.simps [simp del]

definition swap_elements :: "u8 list \<Rightarrow> nat \<Rightarrow> nat \<Rightarrow> nat \<Rightarrow> u8 list" where
  "swap_elements bytes left right width = swap_loop bytes left right width 0"

abbreviation element :: "u8 list \<Rightarrow> nat \<Rightarrow> nat \<Rightarrow> u8 list" where
  "element bytes width i \<equiv> take width (drop (i * width) bytes)"

definition pick_child ::
  "u8 list \<Rightarrow> nat \<Rightarrow> nat \<Rightarrow> nat \<Rightarrow> (u8 list \<Rightarrow> u8 list \<Rightarrow> int) \<Rightarrow> nat" where
  "pick_child bytes root count width compare =
     (let child = root * 2 + 1;
          candidate = (if child < count \<and> compare (element bytes width root) (element bytes width child) < 0
                       then child else root)
      in if child + 1 < count \<and> compare (element bytes width candidate) (element bytes width (child + 1)) < 0
         then child + 1 else candidate)"

lemma pick_child_bounds: "pick_child bytes root count width compare \<noteq> root \<Longrightarrow>
    root < pick_child bytes root count width compare \<and> pick_child bytes root count width compare < count"
  by (auto simp: pick_child_def Let_def split: if_splits)

function sift_down ::
  "u8 list \<Rightarrow> nat \<Rightarrow> nat \<Rightarrow> nat \<Rightarrow> (u8 list \<Rightarrow> u8 list \<Rightarrow> int) \<Rightarrow> u8 list" where
  "sift_down bytes root count width compare =
     (if (count - 1) div 2 < root then bytes
      else
        let candidate = pick_child bytes root count width compare
        in if candidate = root then bytes
           else sift_down (swap_elements bytes (root * width) (candidate * width) width) candidate count width compare)"
  by pat_completeness auto
termination
  by (relation "measure (\<lambda>(bytes, root, count, width, compare). count - root)") (auto dest: pick_child_bounds)

declare sift_down.simps [simp del]

fun build_loop :: "u8 list \<Rightarrow> nat \<Rightarrow> nat \<Rightarrow> nat \<Rightarrow> (u8 list \<Rightarrow> u8 list \<Rightarrow> int) \<Rightarrow> u8 list" where
  "build_loop bytes 0 count width compare = bytes"
| "build_loop bytes (Suc index) count width compare =
     build_loop (sift_down bytes index count width compare) index count width compare"

fun drain_loop :: "u8 list \<Rightarrow> nat \<Rightarrow> nat \<Rightarrow> (u8 list \<Rightarrow> u8 list \<Rightarrow> int) \<Rightarrow> u8 list" where
  "drain_loop bytes 0 width compare = bytes"
| "drain_loop bytes (Suc index) width compare =
     (if 0 < index
      then drain_loop (sift_down (swap_elements bytes 0 (index * width) width) 0 index width compare) index width compare
      else bytes)"

definition qsort :: "u8 list \<Rightarrow> nat \<Rightarrow> nat \<Rightarrow> (u8 list \<Rightarrow> u8 list \<Rightarrow> int) option \<Rightarrow> u8 list" where
  "qsort bytes count width compare =
     (case compare of
        None \<Rightarrow> bytes
      | Some cmp \<Rightarrow>
          if count < 2 \<or> width = 0 then bytes
          else drain_loop (build_loop bytes (count div 2) count width cmp) count width cmp)"

end
