(* ===== verification/Qsort_Sort.thy ===== *)
theory Qsort_Sort
  imports Qsort "HOL-Library.Multiset"
begin

text \<open>
  Heap sort on lists of elements: sifting restores the heap order, and building and draining the
  heap sort the list. The code on the flat array of bytes computes the same.
\<close>

section \<open>Heap sort on lists of elements\<close>

definition swapped :: "nat \<Rightarrow> nat \<Rightarrow> 'a list \<Rightarrow> 'a list" where
  "swapped i j xs = xs[i := xs ! j, j := xs ! i]"

lemma length_swapped [simp]: "length (swapped i j xs) = length xs"
  by (simp add: swapped_def)

lemma mset_swapped: "i < length xs \<Longrightarrow> j < length xs \<Longrightarrow> mset (swapped i j xs) = mset xs"
  by (simp add: swapped_def mset_swap)

lemma nth_swapped: "i < length xs \<Longrightarrow> j < length xs \<Longrightarrow> k < length xs \<Longrightarrow>
    swapped i j xs ! k = (if k = i then xs ! j else if k = j then xs ! i else xs ! k)"
  by (auto simp: swapped_def nth_list_update)

definition list_child :: "('a \<Rightarrow> 'a \<Rightarrow> int) \<Rightarrow> nat \<Rightarrow> nat \<Rightarrow> 'a list \<Rightarrow> nat" where
  "list_child cmp n r xs =
     (let c = r * 2 + 1; d = (if c < n \<and> cmp (xs ! r) (xs ! c) < 0 then c else r)
      in if c + 1 < n \<and> cmp (xs ! d) (xs ! (c + 1)) < 0 then c + 1 else d)"

lemma list_child_bounds: "list_child cmp n r xs \<noteq> r \<Longrightarrow> r < list_child cmp n r xs \<and> list_child cmp n r xs < n"
  by (auto simp: list_child_def Let_def split: if_splits)

function list_sift :: "('a \<Rightarrow> 'a \<Rightarrow> int) \<Rightarrow> nat \<Rightarrow> nat \<Rightarrow> 'a list \<Rightarrow> 'a list" where
  "list_sift cmp n r xs =
     (if (n - 1) div 2 < r then xs
      else let c = list_child cmp n r xs in if c = r then xs else list_sift cmp n c (swapped r c xs))"
  by pat_completeness auto
termination
  by (relation "measure (\<lambda>(cmp, n, r, xs). n - r)") (auto dest: list_child_bounds)

declare list_sift.simps [simp del]

text \<open>A comparison that orders the elements: \<open>cmp x y \<le> 0\<close> is total and transitive.\<close>

definition orders :: "('a \<Rightarrow> 'a \<Rightarrow> int) \<Rightarrow> bool" where
  "orders cmp \<longleftrightarrow> (\<forall>x y. cmp x y < 0 \<longrightarrow> cmp y x > 0) \<and> (\<forall>x y. cmp x y \<ge> 0 \<longrightarrow> cmp y x \<le> 0) \<and>
     (\<forall>x y z. cmp x y \<le> 0 \<longrightarrow> cmp y z \<le> 0 \<longrightarrow> cmp x z \<le> 0)"

text \<open>Every parent from \<open>i\<close> on, except \<open>r\<close>, is at least its children, and so is the parent of \<open>r\<close> over the children of \<open>r\<close>.\<close>

definition heap_but :: "('a \<Rightarrow> 'a \<Rightarrow> int) \<Rightarrow> nat \<Rightarrow> nat \<Rightarrow> nat \<Rightarrow> 'a list \<Rightarrow> bool" where
  "heap_but cmp n i r xs \<longleftrightarrow>
     (\<forall>c. 0 < c \<and> c < n \<and> i \<le> (c - 1) div 2 \<and> (c - 1) div 2 \<noteq> r \<longrightarrow> cmp (xs ! c) (xs ! ((c - 1) div 2)) \<le> 0) \<and>
     (\<forall>c. 0 < c \<and> c < n \<and> (c - 1) div 2 = r \<and> 0 < r \<and> i \<le> (r - 1) div 2 \<longrightarrow> cmp (xs ! c) (xs ! ((r - 1) div 2)) \<le> 0)"

definition heap_from :: "('a \<Rightarrow> 'a \<Rightarrow> int) \<Rightarrow> nat \<Rightarrow> nat \<Rightarrow> 'a list \<Rightarrow> bool" where
  "heap_from cmp n i xs \<longleftrightarrow> (\<forall>c. 0 < c \<and> c < n \<and> i \<le> (c - 1) div 2 \<longrightarrow> cmp (xs ! c) (xs ! ((c - 1) div 2)) \<le> 0)"

lemma ordersD:
  assumes "orders cmp"
  shows "\<not> cmp x y < 0 \<Longrightarrow> cmp y x \<le> 0" "cmp x y \<le> 0 \<Longrightarrow> cmp y z \<le> 0 \<Longrightarrow> cmp x z \<le> 0" "cmp x x \<le> 0"
proof -
  show o: "cmp y x \<le> 0" if "\<not> cmp x y < 0" for x y using assms that by (auto simp: orders_def)
  show "cmp x z \<le> 0" if "cmp x y \<le> 0" "cmp y z \<le> 0" using assms that unfolding orders_def by blast
  show "cmp x x \<le> 0" using o [of x x] by (cases "cmp x x < 0") auto
qed

lemma choose_max:
  assumes "orders cmp" "d = (if P \<and> cmp (xs ! r) (xs ! c) < 0 then c else r)"
  shows "cmp (xs ! r) (xs ! d) \<le> 0" "P \<Longrightarrow> cmp (xs ! c) (xs ! d) \<le> 0"
  using assms(2) ordersD(1,3) [OF assms(1)] by (auto simp: not_less)

lemma list_child_max:
  assumes "orders cmp" "list_child cmp n r xs = e"
  shows "cmp (xs ! r) (xs ! e) \<le> 0" "c = 2 * r + 1 \<or> c = 2 * r + 2 \<Longrightarrow> c < n \<Longrightarrow> cmp (xs ! c) (xs ! e) \<le> 0"
proof -
  define d where "d = (if r * 2 + 1 < n \<and> cmp (xs ! r) (xs ! (r * 2 + 1)) < 0 then r * 2 + 1 else r)"
  have e: "e = (if r * 2 + 1 + 1 < n \<and> cmp (xs ! d) (xs ! (r * 2 + 1 + 1)) < 0 then r * 2 + 1 + 1 else d)"
    unfolding assms(2) [symmetric] list_child_def Let_def d_def ..
  note first = choose_max [OF assms(1) d_def] and second = choose_max [OF assms(1) e]
  show "cmp (xs ! r) (xs ! e) \<le> 0" using ordersD(2) [OF assms(1) first(1) second(1)] .
  show "cmp (xs ! c) (xs ! e) \<le> 0" if "c = 2 * r + 1 \<or> c = 2 * r + 2" "c < n"
    using that ordersD(2) [OF assms(1) first(2) second(1)] second(2) by (auto simp: mult.commute)
qed

lemma list_child_cases: "list_child cmp n r xs = r \<or> list_child cmp n r xs = 2 * r + 1 \<or> list_child cmp n r xs = 2 * r + 2"
  by (auto simp: list_child_def Let_def)

lemma child_iff: "0 < (c :: nat) \<Longrightarrow> (c - 1) div 2 = r \<longleftrightarrow> c = 2 * r + 1 \<or> c = 2 * r + 2"
  by presburger

lemma sift_step:
  assumes cmp: "orders cmp" and n: "n \<le> length xs" and h: "heap_but cmp n i r xs" and i: "i \<le> r"
    and c: "list_child cmp n r xs = c" "c \<noteq> r"
  shows "heap_but cmp n i c (swapped r c xs)"
proof -
  have b: "r < c" "c < n" "c = 2 * r + 1 \<or> c = 2 * r + 2" using list_child_bounds list_child_cases c by metis+
  have pc: "(c - 1) div 2 = r" using child_iff [of c r] b by simp
  have nth: "swapped r c xs ! k = (if k = r then xs ! c else if k = c then xs ! r else xs ! k)" if "k < n" for k
    using nth_swapped [of r xs c k] n b that by simp
  note heap = h [unfolded heap_but_def]
  have up: "cmp (swapped r c xs ! k) (swapped r c xs ! ((k - 1) div 2)) \<le> 0"
    if k: "0 < k" "k < n" "i \<le> (k - 1) div 2" "(k - 1) div 2 \<noteq> c" for k
  proof -
    let ?p = "(k - 1) div 2"
    have p: "?p < k" "?p < n" using k by auto
    consider "?p = r" "k = c" | "?p = r" "k \<noteq> c" | "k = r" "?p \<noteq> r" | "?p \<noteq> r" "k \<noteq> r" "k \<noteq> c"
      using pc by blast
    then show ?thesis
    proof cases
      case 1
      then show ?thesis using nth [OF k(2)] nth [OF p(2)] list_child_max(1) [OF cmp c(1)] b by simp
    next
      case 2
      have "cmp (xs ! k) (xs ! c) \<le> 0" using list_child_max(2) [OF cmp c(1), of k] child_iff [OF k(1), of r] 2 k(2) by simp
      then show ?thesis using 2 nth [OF k(2)] nth [OF p(2)] p by simp
    next
      case 3
      then have "cmp (xs ! c) (xs ! ?p) \<le> 0" using heap b pc k by auto
      then show ?thesis using 3 nth [OF k(2)] nth [OF p(2)] k(4) by simp
    next
      case 4
      then show ?thesis using heap k nth [OF k(2)] nth [OF p(2)] by simp
    qed
  qed
  moreover have "cmp (swapped r c xs ! k) (swapped r c xs ! ((c - 1) div 2)) \<le> 0"
    if k: "0 < k" "k < n" "(k - 1) div 2 = c" for k
  proof -
    have "c < k" using k by auto
    then have "cmp (xs ! k) (xs ! c) \<le> 0" using heap [THEN conjunct1, THEN spec, of k] k i b(1) by simp
    then show ?thesis unfolding pc using nth [OF k(2)] nth [of r] b \<open>c < k\<close> by simp
  qed
  ultimately show ?thesis unfolding heap_but_def by blast
qed

lemma list_sift_spec:
  assumes "orders cmp" "n \<le> length xs" "heap_but cmp n i r xs" "i \<le> r"
  shows "heap_from cmp n i (list_sift cmp n r xs)"
    and "mset (list_sift cmp n r xs) = mset xs" and "drop n (list_sift cmp n r xs) = drop n xs"
proof -
  have "heap_from cmp n i (list_sift cmp n r xs) \<and> mset (list_sift cmp n r xs) = mset xs \<and> drop n (list_sift cmp n r xs) = drop n xs"
    using assms
  proof (induction cmp n r xs rule: list_sift.induct)
    case (1 cmp n r xs)
    let ?c = "list_child cmp n r xs"
    consider "(n - 1) div 2 < r" | "\<not> (n - 1) div 2 < r" "?c = r" | "\<not> (n - 1) div 2 < r" "?c \<noteq> r" by blast
    then show ?case
    proof cases
      case 1
      then have "list_sift cmp n r xs = xs" by (simp add: list_sift.simps)
      moreover have "(c - 1) div 2 \<noteq> r" if "0 < c" "c < n" for c using that 1 child_iff [of c r] by auto
      ultimately show ?thesis using \<open>heap_but cmp n i r xs\<close> by (auto simp: heap_from_def heap_but_def)
    next
      case 2
      then have "list_sift cmp n r xs = xs" by (simp add: list_sift.simps)
      moreover have "cmp (xs ! c) (xs ! r) \<le> 0" if "0 < c" "c < n" "(c - 1) div 2 = r" for c
        using list_child_max(2) [OF \<open>orders cmp\<close> 2(2), of c] that child_iff by simp
      ultimately show ?thesis using \<open>heap_but cmp n i r xs\<close> by (auto simp: heap_from_def heap_but_def)
    next
      case 3
      have b: "r < ?c" "?c < n" using list_child_bounds [OF 3(2)] by auto
      have "list_sift cmp n r xs = list_sift cmp n ?c (swapped r ?c xs)" using 3 by (subst list_sift.simps) (simp add: Let_def)
      moreover have "heap_but cmp n i ?c (swapped r ?c xs)" using sift_step 1(2-5) 3(2) by blast
      moreover have "mset (swapped r ?c xs) = mset xs" "drop n (swapped r ?c xs) = drop n xs"
        using mset_swapped [of r xs ?c] b 1(3) by (simp_all add: swapped_def)
      ultimately show ?thesis using 1(1) [OF 3(1) refl 3(2)] 1(2-5) b by simp
    qed
  qed
  then show "heap_from cmp n i (list_sift cmp n r xs)" "mset (list_sift cmp n r xs) = mset xs"
    "drop n (list_sift cmp n r xs) = drop n xs" by blast+
qed

fun list_build :: "('a \<Rightarrow> 'a \<Rightarrow> int) \<Rightarrow> nat \<Rightarrow> nat \<Rightarrow> 'a list \<Rightarrow> 'a list" where
  "list_build cmp n 0 xs = xs"
| "list_build cmp n (Suc i) xs = list_build cmp n i (list_sift cmp n i xs)"

fun list_drain :: "('a \<Rightarrow> 'a \<Rightarrow> int) \<Rightarrow> nat \<Rightarrow> 'a list \<Rightarrow> 'a list" where
  "list_drain cmp 0 xs = xs"
| "list_drain cmp (Suc k) xs = (if 0 < k then list_drain cmp k (list_sift cmp k 0 (swapped 0 k xs)) else xs)"

lemma list_build_spec:
  "orders cmp \<Longrightarrow> n \<le> length xs \<Longrightarrow> heap_from cmp n i xs \<Longrightarrow>
   heap_from cmp n 0 (list_build cmp n i xs) \<and> mset (list_build cmp n i xs) = mset xs"
proof (induction i arbitrary: xs)
  case (Suc i)
  have "(i - 1) div 2 < i" if "0 < i" using that by simp
  then have "heap_but cmp n i i xs" using Suc.prems(3) by (auto simp: heap_from_def heap_but_def)
  note sift = list_sift_spec [OF Suc.prems(1,2) this order_refl]
  have "length (list_sift cmp n i xs) = length xs" using sift(2) by (rule mset_eq_length)
  then show ?case using Suc.IH [OF Suc.prems(1) _ sift(1)] Suc.prems(2) sift(2) by simp
qed simp

lemma heap_from_half: "heap_from cmp n (n div 2) xs"
  by (auto simp: heap_from_def)

lemma heap_max:
  assumes "orders cmp" "heap_from cmp n 0 xs" "j < n"
  shows "cmp (xs ! j) (xs ! 0) \<le> 0"
  using assms(3)
proof (induction j rule: less_induct)
  case (less j)
  show ?case
  proof (cases "j = 0")
    case True
    then show ?thesis using ordersD(3) [OF assms(1)] by simp
  next
    case False
    then have "cmp (xs ! j) (xs ! ((j - 1) div 2)) \<le> 0" using assms(2) less.prems by (simp add: heap_from_def)
    moreover have "cmp (xs ! ((j - 1) div 2)) (xs ! 0) \<le> 0" using less.IH [of "(j - 1) div 2"] less.prems False by simp
    ultimately show ?thesis by (rule ordersD(2) [OF assms(1)])
  qed
qed

definition draining :: "('a \<Rightarrow> 'a \<Rightarrow> int) \<Rightarrow> nat \<Rightarrow> 'a list \<Rightarrow> bool" where
  "draining cmp m xs \<longleftrightarrow> m \<le> length xs \<and> heap_from cmp m 0 xs \<and> sorted_wrt (\<lambda>a b. cmp a b \<le> 0) (drop m xs) \<and>
     (\<forall>a \<in> set (take m xs). \<forall>b \<in> set (drop m xs). cmp a b \<le> 0)"

lemma drain_step:
  assumes cmp: "orders cmp" and d: "draining cmp (Suc k) xs" and k: "0 < k"
  shows "draining cmp k (list_sift cmp k 0 (swapped 0 k xs))" "mset (list_sift cmp k 0 (swapped 0 k xs)) = mset xs"
proof -
  let ?ys = "swapped 0 k xs" and ?zs = "list_sift cmp k 0 (swapped 0 k xs)"
  have len: "Suc k \<le> length xs" and heap: "heap_from cmp (Suc k) 0 xs" using d by (simp_all add: draining_def)
  have nth: "?ys ! j = (if j = 0 then xs ! k else if j = k then xs ! 0 else xs ! j)" if "j < length xs" for j
    by (rule nth_swapped) (use len that in auto)
  have "heap_but cmp k 0 0 ?ys" using heap nth len by (auto simp: heap_but_def heap_from_def)
  note sift = list_sift_spec [OF cmp _ this order_refl]
  have z: "heap_from cmp k 0 ?zs" "mset ?zs = mset ?ys" "drop k ?zs = drop k ?ys" using sift len by simp_all
  have mset: "mset ?ys = mset xs" by (rule mset_swapped) (use len in auto)
  then show "mset ?zs = mset xs" using z(2) by simp
  have lenz: "length ?zs = length xs" using mset_eq_length [OF z(2)] by simp
  have "drop k ?ys = ?ys ! k # drop (Suc k) ?ys" using len by (simp add: Cons_nth_drop_Suc)
  moreover have "drop (Suc k) ?ys = drop (Suc k) xs" using k by (simp add: swapped_def)
  ultimately have drop: "drop k ?zs = xs ! 0 # drop (Suc k) xs" using z(3) nth [of k] len k by simp
  have "mset (take k ?zs) + mset (drop k ?zs) = mset (take (Suc k) xs) + mset (drop (Suc k) xs)"
    using z(2) mset by (metis append_take_drop_id mset_append)
  then have take: "set (take k ?zs) \<subseteq> set (take (Suc k) xs)"
    unfolding drop by (simp flip: set_mset_mset) (metis set_mset_add_mset_insert subset_insertI)
  have top: "cmp a (xs ! 0) \<le> 0" if "a \<in> set (take (Suc k) xs)" for a
    using that heap_max [OF cmp heap] by (auto simp: in_set_conv_nth)
  have x0: "xs ! 0 \<in> set (take (Suc k) xs)" using len by (auto simp: in_set_conv_nth intro!: exI [of _ 0])
  show "draining cmp k ?zs" unfolding draining_def drop
    using z(1) len lenz d take top x0 by (auto simp: draining_def)
qed

lemma list_drain_spec:
  "orders cmp \<Longrightarrow> draining cmp m xs \<Longrightarrow>
   sorted_wrt (\<lambda>a b. cmp a b \<le> 0) (list_drain cmp m xs) \<and> mset (list_drain cmp m xs) = mset xs"
proof (induction m arbitrary: xs)
  case 0
  then show ?case by (simp add: draining_def)
next
  case (Suc k)
  show ?case
  proof (cases "0 < k")
    case True
    then show ?thesis using Suc.IH drain_step [OF Suc.prems True] Suc.prems(1) by simp
  next
    case False
    then obtain a ys where "xs = a # ys" using Suc.prems(2) by (cases xs) (auto simp: draining_def)
    then show ?thesis using False Suc.prems(2) by (simp add: draining_def)
  qed
qed

lemma list_sort_spec:
  assumes "orders cmp"
  shows "sorted_wrt (\<lambda>a b. cmp a b \<le> 0) (list_drain cmp (length xs) (list_build cmp (length xs) (length xs div 2) xs))"
    "mset (list_drain cmp (length xs) (list_build cmp (length xs) (length xs div 2) xs)) = mset xs"
proof -
  have b: "heap_from cmp (length xs) 0 (list_build cmp (length xs) (length xs div 2) xs)"
    "mset (list_build cmp (length xs) (length xs div 2) xs) = mset xs"
    using list_build_spec [OF assms order_refl heap_from_half] by blast+
  moreover have "length (list_build cmp (length xs) (length xs div 2) xs) = length xs" using b(2) by (rule mset_eq_length)
  ultimately have "draining cmp (length xs) (list_build cmp (length xs) (length xs div 2) xs)" by (simp add: draining_def)
  then show "sorted_wrt (\<lambda>a b. cmp a b \<le> 0) (list_drain cmp (length xs) (list_build cmp (length xs) (length xs div 2) xs))"
    "mset (list_drain cmp (length xs) (list_build cmp (length xs) (length xs div 2) xs)) = mset xs"
    using list_drain_spec [OF assms] b(2) by auto
qed

section \<open>The array of bytes\<close>

lemma swap_loop_spec:
  "left + width \<le> length bytes \<Longrightarrow> right + width \<le> length bytes \<Longrightarrow>
   left + width \<le> right \<or> right + width \<le> left \<Longrightarrow>
   length (swap_loop bytes left right width index) = length bytes \<and>
   (\<forall>p < length bytes. swap_loop bytes left right width index ! p =
     (if left + index \<le> p \<and> p < left + width then bytes ! (right + (p - left))
      else if right + index \<le> p \<and> p < right + width then bytes ! (left + (p - right)) else bytes ! p))"
proof (induction bytes left right width index rule: swap_loop.induct)
  case (1 bytes left right width index)
  show ?case
  proof (cases "index < width")
    case True
    let ?b = "bytes[left + index := bytes ! (right + index), right + index := bytes ! (left + index)]"
    have step: "swap_loop bytes left right width index = swap_loop ?b left right width (index + 1)"
      using True by (subst swap_loop.simps) (simp add: Let_def)
    have len: "length ?b = length bytes" by simp
    have b: "?b ! p = (if p = left + index then bytes ! (right + index) else if p = right + index then bytes ! (left + index) else bytes ! p)"
      if "p < length bytes" for p using that 1(2-4) True by (auto simp: nth_list_update)
    note ih = 1(1) [OF True refl, unfolded len, OF 1(2-4)]
    have "swap_loop bytes left right width index ! p =
        (if left + index \<le> p \<and> p < left + width then bytes ! (right + (p - left))
         else if right + index \<le> p \<and> p < right + width then bytes ! (left + (p - right)) else bytes ! p)"
      if p: "p < length bytes" for p
    proof -
      have eq: "swap_loop bytes left right width index ! p =
        (if left + (index + 1) \<le> p \<and> p < left + width then ?b ! (right + (p - left))
         else if right + (index + 1) \<le> p \<and> p < right + width then ?b ! (left + (p - right)) else ?b ! p)"
        using ih p unfolding step by blast
      consider (l) "left + (index + 1) \<le> p" "p < left + width" | (r) "right + (index + 1) \<le> p" "p < right + width"
        | (li) "p = left + index" | (ri) "p = right + index"
        | (out) "\<not> (left + index \<le> p \<and> p < left + width)" "\<not> (right + index \<le> p \<and> p < right + width)" by linarith
      then show ?thesis
      proof cases
        case l
        then show ?thesis using eq b [of "right + (p - left)"] 1(2-4) by auto
      next
        case r
        then have "\<not> p < left + width \<or> \<not> left \<le> p" using 1(4) by linarith
        then show ?thesis using r eq b [of "left + (p - right)"] 1(2-4) by auto
      next
        case li
        then have no: "\<not> (left + (index + 1) \<le> p \<and> p < left + width)" "\<not> (right + (index + 1) \<le> p \<and> p < right + width)"
          using 1(4) True by linarith+
        show ?thesis unfolding eq if_not_P [OF no(1)] if_not_P [OF no(2)] b [OF p] using li True by simp
      next
        case ri
        then have no: "\<not> (left + (index + 1) \<le> p \<and> p < left + width)" "\<not> (right + (index + 1) \<le> p \<and> p < right + width)"
          "\<not> (left + index \<le> p \<and> p < left + width)" "p \<noteq> left + index" using 1(4) True by linarith+
        show ?thesis unfolding eq if_not_P [OF no(1)] if_not_P [OF no(2)] if_not_P [OF no(3)] b [OF p] using ri no(4) True by simp
      next
        case out
        then have no: "\<not> (left + (index + 1) \<le> p \<and> p < left + width)" "\<not> (right + (index + 1) \<le> p \<and> p < right + width)"
          "p \<noteq> left + index" "p \<noteq> right + index" using True by linarith+
        show ?thesis unfolding eq if_not_P [OF no(1)] if_not_P [OF no(2)] if_not_P [OF out(1)] if_not_P [OF out(2)] b [OF p]
          using no(3,4) by simp
      qed
    qed
    then show ?thesis using ih unfolding step by blast
  next
    case False
    then have "swap_loop bytes left right width index = bytes" by (simp add: swap_loop.simps)
    then show ?thesis using False by auto
  qed
qed

definition elements :: "nat \<Rightarrow> nat \<Rightarrow> u8 list \<Rightarrow> u8 list list" where
  "elements n width bytes = map (element bytes width) [0..<n]"

lemma elements_simps [simp]:
  "length (elements n width bytes) = n" "i < n \<Longrightarrow> elements n width bytes ! i = element bytes width i"
  by (simp_all add: elements_def)

lemma element_eqI:
  assumes "length b = n * width" "length c = n * width" "i < n" "j < n" "\<And>p. p < width \<Longrightarrow> b ! (i * width + p) = c ! (j * width + p)"
  shows "element b width i = element c width j"
proof (rule nth_equalityI)
  have "Suc k * width \<le> n * width" if "k < n" for k using that by (intro mult_le_mono1) simp
  then have fit: "i * width + width \<le> n * width" "j * width + width \<le> n * width" using assms(3,4) by (simp_all add: add.commute)
  then show "length (element b width i) = length (element c width j)" using assms(1,2) by simp
  show "element b width i ! p = element c width j ! p" if "p < length (element b width i)" for p
    using that assms fit by (simp add: add.commute)
qed

lemma swap_elements_spec:
  assumes "length bytes = n * width" "i < n" "j < n" "i \<noteq> j"
  shows "length (swap_elements bytes (i * width) (j * width) width) = n * width"
    and "elements n width (swap_elements bytes (i * width) (j * width) width) = swapped i j (elements n width bytes)"
proof -
  let ?b = "swap_elements bytes (i * width) (j * width) width"
  have fit: "k * width + width \<le> n * width" if "k < n" for k
    using mult_le_mono1 [of "Suc k" n width] that by (simp add: add.commute)
  have apart: "k * width + width \<le> l * width" if "k < l" for k l
    using mult_le_mono1 [of "Suc k" l width] that by (simp add: add.commute)
  have disj: "i * width + width \<le> j * width \<or> j * width + width \<le> i * width" using assms(4) apart [of i j] apart [of j i] by linarith
  note spec = swap_loop_spec [of "i * width" width bytes "j * width" 0, unfolded assms(1), OF fit [OF assms(2)] fit [OF assms(3)] disj]
  show len: "length ?b = n * width" using spec by (simp add: swap_elements_def)
  have nth: "?b ! p = (if i * width \<le> p \<and> p < i * width + width then bytes ! (j * width + (p - i * width))
      else if j * width \<le> p \<and> p < j * width + width then bytes ! (i * width + (p - j * width)) else bytes ! p)"
    if "p < n * width" for p using spec that by (simp add: swap_elements_def)
  have "element ?b width k = (if k = i then element bytes width j else if k = j then element bytes width i else element bytes width k)"
    if k: "k < n" for k
  proof -
    have p: "k * width + q < n * width" if "q < width" for q using fit [OF k] that by simp
    have far: "\<not> (l * width \<le> k * width + q \<and> k * width + q < l * width + width)" if "q < width" "k \<noteq> l" for q l
      using that apart [of k l] apart [of l k] by (cases "k < l") auto
    consider "k = i" | "k = j" "k \<noteq> i" | "k \<noteq> i" "k \<noteq> j" by blast
    then show ?thesis
    proof cases
      case 1
      have "?b ! (k * width + q) = bytes ! (j * width + q)" if q: "q < width" for q
        unfolding nth [OF p [OF q]] using 1 q by simp
      then show ?thesis using element_eqI [OF len assms(1) k assms(3)] 1 by simp
    next
      case 2
      have "?b ! (k * width + q) = bytes ! (i * width + q)" if q: "q < width" for q
        unfolding nth [OF p [OF q]] if_not_P [OF far [OF q 2(2)]] using 2 q by simp
      then show ?thesis using element_eqI [OF len assms(1) k assms(2)] 2 by simp
    next
      case 3
      have "?b ! (k * width + q) = bytes ! (k * width + q)" if q: "q < width" for q
        unfolding nth [OF p [OF q]] if_not_P [OF far [OF q 3(1)]] if_not_P [OF far [OF q 3(2)]] ..
      then show ?thesis using element_eqI [OF len assms(1) k k] 3 by simp
    qed
  qed
  then show "elements n width ?b = swapped i j (elements n width bytes)"
    using assms by (intro nth_equalityI) (simp_all add: nth_swapped)
qed

lemma pick_child_elements:
  assumes "n \<le> m" "root < m"
  shows "pick_child bytes root n width cmp = list_child cmp n root (elements m width bytes)"
  using assms by (auto simp: pick_child_def list_child_def Let_def)

lemma sift_down_elements:
  "length bytes = m * width \<Longrightarrow> n \<le> m \<Longrightarrow> root < m \<Longrightarrow>
   length (sift_down bytes root n width cmp) = m * width \<and>
   elements m width (sift_down bytes root n width cmp) = list_sift cmp n root (elements m width bytes)"
proof (induction bytes root n width cmp rule: sift_down.induct)
  case (1 bytes root n width cmp)
  have pick: "pick_child bytes root n width cmp = list_child cmp n root (elements m width bytes)"
    using pick_child_elements 1(3,4) by blast
  let ?c = "list_child cmp n root (elements m width bytes)"
  show ?case
  proof (cases "(n - 1) div 2 < root \<or> ?c = root")
    case True
    then have "sift_down bytes root n width cmp = bytes" "list_sift cmp n root (elements m width bytes) = elements m width bytes"
      using pick by (auto simp: sift_down.simps [of bytes] list_sift.simps [of cmp n root])
    then show ?thesis using 1(2) by simp
  next
    case False
    let ?b = "swap_elements bytes (root * width) (?c * width) width"
    have c: "root < ?c" "?c < n" using list_child_bounds [of cmp n root "elements m width bytes"] False by blast+
    have b: "length ?b = m * width" "elements m width ?b = swapped root ?c (elements m width bytes)"
      using swap_elements_spec [OF 1(2), of root ?c] c 1(3,4) by simp_all
    have "sift_down bytes root n width cmp = sift_down ?b ?c n width cmp"
      using False pick by (subst sift_down.simps) (simp add: Let_def)
    moreover have "list_sift cmp n root (elements m width bytes) = list_sift cmp n ?c (elements m width ?b)"
      unfolding b(2) using False by (subst list_sift.simps) (simp add: Let_def)
    ultimately show ?thesis using 1(1) [OF _ refl, unfolded pick, OF _ _ b(1) 1(3)] False c 1(3) by simp
  qed
qed

lemma build_loop_elements:
  "length bytes = n * width \<Longrightarrow> i \<le> n \<Longrightarrow>
   length (build_loop bytes i n width cmp) = n * width \<and>
   elements n width (build_loop bytes i n width cmp) = list_build cmp n i (elements n width bytes)"
  by (induction i arbitrary: bytes) (simp_all add: sift_down_elements)

lemma drain_loop_elements:
  "length bytes = n * width \<Longrightarrow> m \<le> n \<Longrightarrow>
   length (drain_loop bytes m width cmp) = n * width \<and>
   elements n width (drain_loop bytes m width cmp) = list_drain cmp m (elements n width bytes)"
proof (induction m arbitrary: bytes)
  case (Suc k)
  show ?case
  proof (cases "0 < k")
    case True
    let ?b = "swap_elements bytes 0 (k * width) width"
    have b: "length ?b = n * width" "elements n width ?b = swapped 0 k (elements n width bytes)"
      using swap_elements_spec [OF Suc.prems(1), of 0 k] True Suc.prems(2) by simp_all
    have "length (sift_down ?b 0 k width cmp) = n * width"
      "elements n width (sift_down ?b 0 k width cmp) = list_sift cmp k 0 (swapped 0 k (elements n width bytes))"
      using sift_down_elements [OF b(1), of k 0 cmp] Suc.prems(2) True b(2) by simp_all
    then show ?thesis using Suc.IH Suc.prems(2) True by simp
  qed (use Suc.prems in simp)
qed simp

lemma qsort_spec:
  assumes "orders cmp" "length bytes = n * width" "0 < width"
  shows "length (qsort bytes n width (Some cmp)) = n * width"
    and "sorted_wrt (\<lambda>a b. cmp a b \<le> 0) (elements n width (qsort bytes n width (Some cmp)))"
    and "mset (elements n width (qsort bytes n width (Some cmp))) = mset (elements n width bytes)"
proof -
  have "length (qsort bytes n width (Some cmp)) = n * width \<and>
    sorted_wrt (\<lambda>a b. cmp a b \<le> 0) (elements n width (qsort bytes n width (Some cmp))) \<and>
    mset (elements n width (qsort bytes n width (Some cmp))) = mset (elements n width bytes)"
  proof (cases "n < 2")
    case True
    then have "elements n width bytes = [] \<or> (\<exists>a. elements n width bytes = [a])"
      by (cases "elements n width bytes" rule: remdups_adj.cases) (auto dest: arg_cong [of _ _ length])
    then show ?thesis using True assms(2) by (auto simp: qsort_def)
  next
    case False
    let ?b = "build_loop bytes (n div 2) n width cmp"
    have b: "length ?b = n * width" "elements n width ?b = list_build cmp n (n div 2) (elements n width bytes)"
      using build_loop_elements [OF assms(2), of "n div 2" cmp] by simp_all
    have "qsort bytes n width (Some cmp) = drain_loop ?b n width cmp" using False assms(3) by (simp add: qsort_def)
    then show ?thesis
      using drain_loop_elements [OF b(1) order_refl, of cmp] list_sort_spec [OF assms(1), of "elements n width bytes"] b(2) by simp
  qed
  then show "length (qsort bytes n width (Some cmp)) = n * width"
    "sorted_wrt (\<lambda>a b. cmp a b \<le> 0) (elements n width (qsort bytes n width (Some cmp)))"
    "mset (elements n width (qsort bytes n width (Some cmp))) = mset (elements n width bytes)" by blast+
qed

end
