(* ===== verification/Library_Theorems.thy ===== *)
theory Library_Theorems
  imports String_Copy Qsort_Sort
begin

text \<open>
  The properties of the freestanding library: \<^verbatim>\<open>src/lib/string.c\<close> over byte memory and
  \<^verbatim>\<open>src/lib/qsort.c\<close> over flat arrays, each followed by its witness where it has hypotheses.
\<close>

text \<open>
  C30. Whatever the alignment of the two ranges and however they overlap, \<open>memmove\<close> leaves in the
  destination the bytes the source had before the call, and every other byte of memory as it was;
  its word, batch and shifted paths, upwards and downwards, all compute this.
\<close>

theorem memmove_exact:
  "memmove m destination source n =
     (\<lambda>a. if destination \<le> a \<and> a < destination + n then m (source + (a - destination)) else m a)"
  by (simp add: memmove_moved moved_def)

text \<open>\<open>memcpy\<close> is the same function wherever the forward copy is safe.\<close>

lemma memcpy_is_memmove:
  assumes "destination \<le> source \<or> source + n \<le> destination"
  shows "memcpy m destination source n = memmove m destination source n"
  using assms copy_forward_moved by (simp add: memcpy_def memmove_moved ahead_def)

text \<open>
  \<open>memset\<close> stores the low byte of its value argument in exactly the \<open>n\<close> bytes from the destination on,
  for every alignment: the word pattern it multiplies out repeats that byte.
\<close>

theorem memset_exact:
  "memset m destination v n =
     (\<lambda>a. if destination \<le> a \<and> a < destination + n then word_of_int v else m a)"
  by (simp add: memset_filled filled_def)

text \<open>
  C31. \<open>memcmp\<close> orders ranges as unsigned bytes: it is zero exactly when the ranges are equal, and
  otherwise the difference of the first pair of bytes that differ, although it compares whole
  little-endian words where the alignment allows.
\<close>

theorem memcmp_lexicographic:
  "(memcmp m left right n = 0 \<longleftrightarrow> (\<forall>i<n. m (left + i) = m (right + i))) \<and>
   (\<forall>i<n. (\<forall>j<i. m (left + j) = m (right + j)) \<and> m (left + i) \<noteq> m (right + i) \<longrightarrow>
      memcmp m left right n = uint (m (left + i)) - uint (m (right + i)))"
  by (simp add: memcmp_bytes compare_bytes_zero_iff compare_bytes_first)

theorem memcmp_lexicographic_witness:
  "memcmp (\<lambda>a. if a = 9 then 7 else 1) 0 8 4 = - 6"
  using conjunct2 [OF memcmp_lexicographic [of "\<lambda>a. if a = 9 then 7 else 1" 0 8 4], rule_format, of 1]
  by simp

text \<open>
  C33. On terminated strings the unbounded loops end, with the expected results: \<open>strlen\<close> returns the
  length, \<open>strcmp\<close> the byte comparison up to and including the terminator, and \<open>strcpy\<close> moves the
  string with its terminator when it does not run into its own source.
\<close>

theorem string_loops_return:
  assumes "cstring m text n"
  shows "strlen m text = Some n \<and>
    strcmp m text other = Some (memcmp m text other (n + 1)) \<and>
    (destination \<le> text \<or> text + n < destination \<longrightarrow>
       strcpy m destination text = Some (memmove m destination text (n + 1)))"
  using assms strlen_spec strcmp_spec strcpy_spec [OF assms] by (auto simp: memcmp_bytes memmove_moved)

theorem string_loops_return_witness:
  "strlen (\<lambda>a. if a < 12 then 65 else 0) 10 = Some 2"
  using string_loops_return [of "\<lambda>a. if a < 12 then 65 else 0" 10 2 0 0]
  by (simp add: cstring_def)

text \<open>
  \<open>strncpy\<close> writes exactly \<open>n\<close> bytes: the string cut off at \<open>n\<close>, padded with zeros; \<open>strncmp\<close> compares
  at most \<open>n\<close> bytes and stops at the terminator.
\<close>

theorem bounded_strings_exact:
  assumes "cstring m text k" "destination \<le> text \<or> text + k < destination"
  shows "strncpy m destination text n =
      (\<lambda>a. if destination \<le> a \<and> a < destination + n
           then (if a - destination < k then m (text + (a - destination)) else 0) else m a) \<and>
    strncmp m text other n = memcmp m text other (min n (k + 1))"
proof -
  have "strncpy m destination text n = filled (moved m destination text (min n k)) (destination + min n k) 0 (n - min n k)"
    using strncpy_copy_spec [OF assms(1), of destination n] assms(2) by (auto simp: strncpy_def set_bytes_filled)
  then show ?thesis
    using strncmp_spec [OF assms(1)] by (auto simp: memcmp_bytes filled_def moved_def fun_eq_iff)
qed

theorem bounded_strings_exact_witness:
  "strncpy (\<lambda>a. if a < 12 then 65 else 0) 20 10 4 21 = 65 \<and> strncpy (\<lambda>a. if a < 12 then 65 else 0) 20 10 4 23 = 0"
  using conjunct1 [OF bounded_strings_exact [of "\<lambda>a. if a < 12 then 65 else 0" 10 2 20 4 0]]
  by (simp add: cstring_def)

text \<open>
  C36. \<open>qsort\<close> sorts: for every element width and every comparison that is a total preorder, the bytes it
  leaves are the same elements in ascending order, in an array of the same size.
\<close>

theorem qsort_sorts:
  assumes "orders compare" "length bytes = n * width" "0 < width"
  shows "length (qsort bytes n width (Some compare)) = n * width \<and>
    sorted_wrt (\<lambda>a b. compare a b \<le> 0) (elements n width (qsort bytes n width (Some compare))) \<and>
    mset (elements n width (qsort bytes n width (Some compare))) = mset (elements n width bytes)"
  using qsort_spec [OF assms] by blast

theorem qsort_sorts_witness:
  "sorted_wrt (\<lambda>a b. uint (hd a) - uint (hd b) \<le> 0)
     (elements 3 2 (qsort [9, 0, 4, 1, 6, 2] 3 2 (Some (\<lambda>a b. uint (hd a) - uint (hd b)))))"
  using qsort_sorts [of "\<lambda>a b. uint (hd a) - uint (hd b)" "[9, 0, 4, 1, 6, 2]" 3 2]
  by (simp add: orders_def)

end
