(* ===== verification/Elf64.thy ===== *)
theory Elf64
  imports Kernel_Prelude
begin

text \<open>
  The executable reader \<^verbatim>\<open>src/kernel/elf64.c\<close> over the byte sources of \<^verbatim>\<open>src/kernel/read_source.c\<close>. A source
  is its size and its \<^verbatim>\<open>read_at\<close> callback with the context bound: a function of offset and length that
  gives an error code (\<open>Inl\<close>) or the bytes read (\<open>Inr\<close>). Pointers that the code checks against null are
  options or truth values. The fields keep their widths.
\<close>

section \<open>Byte sources\<close>

record read_source =
  src_size :: u64
  read_at :: "(nat \<Rightarrow> nat \<Rightarrow> int + u8 list) option"

abbreviation EINVAL :: int where
  "EINVAL \<equiv> 22"

definition memory_read_at :: "u8 list \<Rightarrow> nat \<Rightarrow> nat \<Rightarrow> int + u8 list" where
  "memory_read_at bytes offset n = Inr (map (\<lambda>index. bytes ! (offset + index)) [0..<n])"

definition kernel_read_source_read_exact :: "read_source \<Rightarrow> u64 \<Rightarrow> nat \<Rightarrow> int + u8 list" where
  "kernel_read_source_read_exact src offset n =
     (case read_at src of
        None \<Rightarrow> Inl (- EINVAL)
      | Some f \<Rightarrow>
          if src_size src < offset \<or> src_size src - offset < word_of_nat n then Inl (- EINVAL)
          else if n = 0 then Inr []
          else f (unat offset) n)"

definition kernel_read_source_from_memory :: "u8 list option \<Rightarrow> u64 \<Rightarrow> int + read_source" where
  "kernel_read_source_from_memory bytes n =
     (case bytes of None \<Rightarrow> Inl (- EINVAL) | Some bs \<Rightarrow> Inr \<lparr>src_size = n, read_at = Some (memory_read_at bs)\<rparr>)"

section \<open>Decoding\<close>

datatype elf64_status = ELF_OK | ELF_INVALID_ARGUMENT | ELF_TRUNCATED | ELF_MALFORMED | ELF_UNSUPPORTED | ELF_IO

record elf64_header =
  etype :: u16
  machine :: u16
  entry :: u64
  phoff :: u64
  phnum :: u16

record elf64_program_header =
  ptype :: u32
  pflags :: u32
  offset :: u64
  virtual_address :: u64
  physical_address :: u64
  file_size :: u64
  memory_size :: u64
  alignment :: u64

record elf64_image =
  source :: read_source
  header :: elf64_header

definition read_u16 :: "u8 list \<Rightarrow> u16" where
  "read_u16 bytes = ucast (bytes ! 0) OR push_bit 8 (ucast (bytes ! 1))"

definition read_u32 :: "u8 list \<Rightarrow> u32" where
  "read_u32 bytes = ucast (bytes ! 0) OR push_bit 8 (ucast (bytes ! 1)) OR push_bit 16 (ucast (bytes ! 2)) OR
     push_bit 24 (ucast (bytes ! 3))"

definition read_u64 :: "u8 list \<Rightarrow> u64" where
  "read_u64 bytes = fold (\<lambda>index v. v OR push_bit (index * 8) (ucast (bytes ! index))) [0..<8] 0"

definition range_within :: "u64 \<Rightarrow> u64 \<Rightarrow> u64 \<Rightarrow> bool" where
  "range_within n off len \<longleftrightarrow> off \<le> n \<and> len \<le> n - off"

definition decode_program_header :: "u8 list \<Rightarrow> elf64_program_header" where
  "decode_program_header bytes =
     \<lparr>ptype = read_u32 bytes, pflags = read_u32 (drop 4 bytes), offset = read_u64 (drop 8 bytes),
      virtual_address = read_u64 (drop 16 bytes), physical_address = read_u64 (drop 24 bytes),
      file_size = read_u64 (drop 32 bytes), memory_size = read_u64 (drop 40 bytes), alignment = read_u64 (drop 48 bytes)\<rparr>"

definition validate_load_segment :: "elf64_program_header \<Rightarrow> u64 \<Rightarrow> elf64_status" where
  "validate_load_segment h image_size =
     (if memory_size h < file_size h then ELF_MALFORMED
      else if \<not> range_within image_size (offset h) (file_size h) then ELF_TRUNCATED
      else if - 1 - virtual_address h < memory_size h then ELF_MALFORMED
      else if 1 < alignment h \<and>
        (alignment h AND (alignment h - 1) \<noteq> 0 \<or>
         memory_size h \<noteq> 0 \<and> virtual_address h AND (alignment h - 1) \<noteq> offset h AND (alignment h - 1))
      then ELF_MALFORMED
      else ELF_OK)"

section \<open>Opening\<close>

text \<open>The loop over the program headers; the list is what has been stored in the cache so far, in order.\<close>

fun header_loop :: "read_source \<Rightarrow> u64 \<Rightarrow> nat \<Rightarrow> nat \<Rightarrow> elf64_status \<times> elf64_program_header list" where
  "header_loop src table index 0 = (ELF_OK, [])"
| "header_loop src table index (Suc left) =
     (case kernel_read_source_read_exact src (table + word_of_nat index * 56) 56 of
        Inl _ \<Rightarrow> (ELF_IO, [])
      | Inr data \<Rightarrow>
          let h = decode_program_header data;
              status = (if ptype h \<noteq> 1 then ELF_OK else validate_load_segment h (src_size src))
          in if status \<noteq> ELF_OK then (status, [h])
             else case header_loop src table (index + 1) left of (st, hs) \<Rightarrow> (st, h # hs))"

definition decode_header :: "u8 list \<Rightarrow> elf64_header" where
  "decode_header data = \<lparr>etype = read_u16 (drop 16 data), machine = read_u16 (drop 18 data), entry = read_u64 (drop 24 data),
     phoff = read_u64 (drop 32 data), phnum = read_u16 (drop 56 data)\<rparr>"

text \<open>\<open>out\<close> says that the image pointer is not null, \<open>cached\<close> that the header cache is not null.\<close>

definition kernel_elf64_open_internal ::
  "read_source option \<Rightarrow> bool \<Rightarrow> bool \<Rightarrow> u16 \<Rightarrow> elf64_status \<times> elf64_image option \<times> elf64_program_header list" where
  "kernel_elf64_open_internal src out cached capacity =
     (case src of
        None \<Rightarrow> (ELF_INVALID_ARGUMENT, None, [])
      | Some s \<Rightarrow>
        if read_at s = None \<or> \<not> out then (ELF_INVALID_ARGUMENT, None, [])
        else if (\<not> cached) \<noteq> (capacity = 0) then (ELF_INVALID_ARGUMENT, None, [])
        else if src_size s < 64 then (ELF_TRUNCATED, None, [])
        else case kernel_read_source_read_exact s 0 64 of
          Inl _ \<Rightarrow> (ELF_IO, None, [])
        | Inr data \<Rightarrow>
          if data ! 0 \<noteq> 0x7f \<or> data ! 1 \<noteq> 0x45 \<or> data ! 2 \<noteq> 0x4c \<or> data ! 3 \<noteq> 0x46 then (ELF_MALFORMED, None, [])
          else if data ! 4 \<noteq> 2 \<or> data ! 5 \<noteq> 1 \<or> data ! 6 \<noteq> 1 \<or> read_u32 (drop 20 data) \<noteq> 1 then (ELF_UNSUPPORTED, None, [])
          else if read_u16 (drop 52 data) \<noteq> 64 \<or> read_u16 (drop 54 data) \<noteq> 56 then (ELF_MALFORMED, None, [])
          else
            let h = decode_header data
            in if phnum h = 0 then (ELF_MALFORMED, None, [])
               else if 128 < phnum h then (ELF_UNSUPPORTED, None, [])
               else if cached \<and> capacity < phnum h then (ELF_INVALID_ARGUMENT, None, [])
               else if phoff h < 64 then (ELF_MALFORMED, None, [])
               else if \<not> range_within (src_size s) (phoff h) (ucast (phnum h) * 56) then (ELF_TRUNCATED, None, [])
               else case header_loop s (phoff h) 0 (unat (phnum h)) of (st, hs) \<Rightarrow>
                 (st, if st = ELF_OK then Some \<lparr>source = s, header = h\<rparr> else None, if cached then hs else []))"

definition kernel_elf64_open :: "read_source option \<Rightarrow> bool \<Rightarrow> elf64_status \<times> elf64_image option" where
  "kernel_elf64_open src out = (case kernel_elf64_open_internal src out False 0 of (st, img, _) \<Rightarrow> (st, img))"

definition kernel_elf64_open_cached ::
  "read_source option \<Rightarrow> bool \<Rightarrow> bool \<Rightarrow> u16 \<Rightarrow> elf64_status \<times> elf64_image option \<times> elf64_program_header list" where
  "kernel_elf64_open_cached src out cached capacity =
     (if \<not> cached \<or> capacity = 0 then (ELF_INVALID_ARGUMENT, None, [])
      else kernel_elf64_open_internal src out cached capacity)"

definition kernel_elf64_read_program_header ::
  "elf64_image option \<Rightarrow> u16 \<Rightarrow> bool \<Rightarrow> elf64_status \<times> elf64_program_header option" where
  "kernel_elf64_read_program_header opened index out =
     (case opened of
        None \<Rightarrow> (ELF_INVALID_ARGUMENT, None)
      | Some img \<Rightarrow>
        if \<not> out \<or> read_at (source img) = None \<or> phnum (header img) \<le> index then (ELF_INVALID_ARGUMENT, None)
        else
          let rel = ucast index * 56 :: u64
          in if - 1 - rel < phoff (header img) then (ELF_TRUNCATED, None)
             else if \<not> range_within (src_size (source img)) (phoff (header img) + rel) 56 then (ELF_TRUNCATED, None)
             else case kernel_read_source_read_exact (source img) (phoff (header img) + rel) 56 of
                    Inl _ \<Rightarrow> (ELF_IO, None)
                  | Inr data \<Rightarrow> (ELF_OK, Some (decode_program_header data)))"

end
