(* ===== verification/Elf64_Valid.thy ===== *)
theory Elf64_Valid
  imports Elf64 Word_Bits
begin

text \<open>
  What the executable reader guarantees of an image it opened, and that it reads back what a well-formed
  image contains.
\<close>

section \<open>Accepted segments\<close>

text \<open>The conditions on a loadable segment, over the integers: nothing wraps.\<close>

definition segment_ok :: "nat \<Rightarrow> elf64_program_header \<Rightarrow> bool" where
  "segment_ok n h \<longleftrightarrow> unat (file_size h) \<le> unat (memory_size h) \<and> unat (offset h) + unat (file_size h) \<le> n \<and>
     unat (virtual_address h) + unat (memory_size h) < 2 ^ 64 \<and>
     (1 < alignment h \<longrightarrow> (\<exists>k<64. alignment h = 2 ^ k \<and>
        (memory_size h \<noteq> 0 \<longrightarrow> unat (virtual_address h) mod 2 ^ k = unat (offset h) mod 2 ^ k)))"

lemma range_within_unat: "range_within n off len \<longleftrightarrow> unat off + unat len \<le> unat n"
proof -
  have "unat (n - off) = unat n - unat off" if "off \<le> n" using that by (simp add: unat_sub)
  then show ?thesis by (auto simp: range_within_def word_le_nat_alt)
qed

lemma top_minus: "unat (- 1 - x :: u64) = 2 ^ 64 - 1 - unat x"
proof -
  have "unat (- 1 :: u64) = 2 ^ 64 - 1" by (simp add: unsigned_minus_1_eq_mask mask_eq_exp_minus_1)
  then show ?thesis by (subst unat_sub) simp_all
qed

lemma unat_mod_power: "k < 64 \<Longrightarrow> unat (x mod 2 ^ k :: u64) = unat x mod 2 ^ k"
  by (simp only: take_bit_eq_mod [symmetric] unsigned_take_bit_eq)

lemma validate_ok:
  assumes "validate_load_segment h n = ELF_OK"
  shows "segment_ok (unat n) h"
proof -
  have c: "\<not> memory_size h < file_size h" "range_within n (offset h) (file_size h)" "\<not> - 1 - virtual_address h < memory_size h"
    "1 < alignment h \<Longrightarrow> alignment h AND (alignment h - 1) = 0"
    "1 < alignment h \<Longrightarrow> memory_size h \<noteq> 0 \<Longrightarrow> virtual_address h AND (alignment h - 1) = offset h AND (alignment h - 1)"
    using assms by (auto simp: validate_load_segment_def split: if_splits)
  have "unat (memory_size h) \<le> 2 ^ 64 - 1 - unat (virtual_address h)" using c(3) top_minus [of "virtual_address h"] by (simp add: word_less_nat_alt)
  moreover have "unat (virtual_address h) < 2 ^ 64" using unsigned_less [of "virtual_address h"] by simp
  ultimately have "unat (virtual_address h) + unat (memory_size h) < 2 ^ 64" by linarith
  moreover have "\<exists>k<64. alignment h = 2 ^ k \<and>
      (memory_size h \<noteq> 0 \<longrightarrow> unat (virtual_address h) mod 2 ^ k = unat (offset h) mod 2 ^ k)" if a: "1 < alignment h"
  proof -
    have "alignment h \<noteq> 0" using a by auto
    then obtain k where k: "k < 64" "alignment h = 2 ^ k" by (rule power_of_two_test [OF _ c(4) [OF a]])
    have "virtual_address h mod 2 ^ k = offset h mod 2 ^ k" if "memory_size h \<noteq> 0"
      using c(5) [OF a that] and_low_mask [OF k(1)] k(2) by simp
    then have "unat (virtual_address h) mod 2 ^ k = unat (offset h) mod 2 ^ k" if "memory_size h \<noteq> 0"
      using that by (metis unat_mod_power [OF k(1)])
    then show ?thesis using k by blast
  qed
  ultimately show ?thesis using c(1,2) by (simp add: segment_ok_def range_within_unat not_less word_le_nat_alt)
qed

section \<open>The header table\<close>

lemma header_loop_reads:
  "header_loop src table i n = (ELF_OK, hs) \<Longrightarrow>
   length hs = n \<and> (\<forall>j<n. \<exists>data. kernel_read_source_read_exact src (table + word_of_nat (i + j) * 56) 56 = Inr data \<and>
     hs ! j = decode_program_header data \<and> (ptype (hs ! j) = 1 \<longrightarrow> segment_ok (unat (src_size src)) (hs ! j)))"
proof (induction n arbitrary: i hs)
  case (Suc n)
  obtain data where d: "kernel_read_source_read_exact src (table + word_of_nat i * 56) 56 = Inr data"
    using Suc.prems by (auto split: sum.splits)
  let ?h = "decode_program_header data"
  obtain hs' where h: "hs = ?h # hs'" "header_loop src table (i + 1) n = (ELF_OK, hs')"
    "ptype ?h = 1 \<longrightarrow> validate_load_segment ?h (src_size src) = ELF_OK"
    using Suc.prems d by (auto simp: Let_def split: if_splits prod.splits)
  have IH: "length hs' = n \<and> (\<forall>j<n. \<exists>data. kernel_read_source_read_exact src (table + word_of_nat (i + 1 + j) * 56) 56 = Inr data \<and>
     hs' ! j = decode_program_header data \<and> (ptype (hs' ! j) = 1 \<longrightarrow> segment_ok (unat (src_size src)) (hs' ! j)))"
    by (rule Suc.IH [OF h(2)])
  show ?case
  proof (intro conjI allI impI)
    show "length hs = Suc n" using IH h(1) by simp
    fix j assume j: "j < Suc n"
    show "\<exists>data. kernel_read_source_read_exact src (table + word_of_nat (i + j) * 56) 56 = Inr data \<and>
       hs ! j = decode_program_header data \<and> (ptype (hs ! j) = 1 \<longrightarrow> segment_ok (unat (src_size src)) (hs ! j))"
    proof (cases j)
      case 0
      then show ?thesis using d h(1,3) validate_ok by auto
    next
      case (Suc k)
      then show ?thesis using IH j h(1) by (auto simp: add.assoc)
    qed
  qed
qed simp

lemma open_internal_ok:
  assumes "kernel_elf64_open_internal src out cached capacity = (ELF_OK, img, hs)"
  obtains s h hs' where "src = Some s" "read_at s \<noteq> None" "img = Some \<lparr>source = s, header = h\<rparr>" "64 \<le> phoff h"
    "unat (phnum h) \<le> 128" "range_within (src_size s) (phoff h) (ucast (phnum h) * 56)"
    "header_loop s (phoff h) 0 (unat (phnum h)) = (ELF_OK, hs')" "hs = (if cached then hs' else [])"
  using assms
  by (auto simp: kernel_elf64_open_internal_def Let_def word_le_nat_alt word_less_nat_alt
      split: option.splits if_splits sum.splits prod.splits)

lemma table_bytes: "unat c \<le> 128 \<Longrightarrow> unat (ucast (c :: u16) * 56 :: u64) = unat c * 56"
  by (simp add: unat_word_ariths unsigned_ucast_eq take_bit_eq_mod)

lemma opened_headers:
  assumes run: "kernel_elf64_open_internal src out cached capacity = (ELF_OK, Some img, hs)" and i: "i < unat (phnum (header img))"
  obtains h where "kernel_elf64_read_program_header (Some img) (word_of_nat i) True = (ELF_OK, Some h)"
    "ptype h = 1 \<Longrightarrow> segment_ok (unat (src_size (source img))) h" "cached \<Longrightarrow> i < length hs \<and> hs ! i = h"
proof -
  obtain s hd hs' where o: "src = Some s" "read_at s \<noteq> None" "Some img = Some \<lparr>source = s, header = hd\<rparr>" "64 \<le> phoff hd"
    "unat (phnum hd) \<le> 128" "range_within (src_size s) (phoff hd) (ucast (phnum hd) * 56)"
    "header_loop s (phoff hd) 0 (unat (phnum hd)) = (ELF_OK, hs')" "hs = (if cached then hs' else [])"
    by (rule open_internal_ok [OF run])
  have i': "i < unat (phnum hd)" using i o(3) by simp
  obtain data where d: "kernel_read_source_read_exact s (phoff hd + word_of_nat i * 56) 56 = Inr data" "hs' ! i = decode_program_header data"
    "ptype (hs' ! i) = 1 \<longrightarrow> segment_ok (unat (src_size s)) (hs' ! i)" "length hs' = unat (phnum hd)"
    using header_loop_reads [OF o(7)] i' by auto
  let ?w = "word_of_nat i :: u16"
  have w: "unat ?w = i" using i' o(5) by (simp add: unat_of_nat)
  have rel: "ucast ?w * 56 = (word_of_nat i * 56 :: u64)"
  proof -
    have "ucast ?w = (word_of_nat i :: u64)"
      using w i' o(5) by (simp add: word_unat_eq_iff unsigned_ucast_eq take_bit_eq_mod unat_of_nat)
    then show ?thesis by simp
  qed
  have ri: "unat (word_of_nat i * 56 :: u64) = i * 56" using i' o(5) by (simp add: unat_word_ariths unat_of_nat)
  have fit: "unat (phoff hd) + unat (phnum hd) * 56 \<le> unat (src_size s)" using o(6) table_bytes [OF o(5)] by (simp add: range_within_unat)
  moreover have "i * 56 + 56 \<le> unat (phnum hd) * 56" using i' by (metis add.commute mult_Suc Suc_leI mult_le_mono1)
  ultimately have fit': "unat (phoff hd) + i * 56 + 56 \<le> unat (src_size s)" by linarith
  have lt: "unat (src_size s) < 2 ^ 64" using unsigned_less [of "src_size s"] by simp
  have sum: "unat (phoff hd + word_of_nat i * 56) = unat (phoff hd) + i * 56"
    using fit' lt ri by (simp add: unat_plus_simple word_le_nat_alt unat_word_ariths)
  have "\<not> - 1 - word_of_nat i * 56 < phoff hd" using fit' lt ri top_minus [of "word_of_nat i * 56"] by (simp add: word_less_nat_alt)
  moreover have "range_within (src_size s) (phoff hd + word_of_nat i * 56) 56" using fit' sum by (simp add: range_within_unat)
  moreover have "\<not> phnum hd \<le> ?w" using i' w by (simp add: word_le_nat_alt)
  ultimately have "kernel_elf64_read_program_header (Some img) ?w True = (ELF_OK, Some (hs' ! i))"
    using o(2,3) d(1,2) rel by (simp add: kernel_elf64_read_program_header_def Let_def)
  then show ?thesis using that d(3,4) o(3,8) i' by auto
qed

end
