(* ===== verification/Elf64_Codec.thy ===== *)
theory Elf64_Codec
  imports Elf64_Valid String_Copy
begin

text \<open>
  An encoder for ELF images, as the reference for the decoder: opening the encoding of a header and of
  program headers gives them back.
\<close>

section \<open>Little-endian fields\<close>

definition le :: "nat \<Rightarrow> 'a :: len word \<Rightarrow> u8 list" where
  "le k w = map (\<lambda>i. ucast (drop_bit (8 * i) w)) [0..<k]"

lemma length_le [simp]: "length (le k w) = k"
  by (simp add: le_def)

lemma nth_le: "i < k \<Longrightarrow> (le k w @ rest) ! i = ucast (drop_bit (8 * i) w)"
  by (simp add: le_def nth_append)

lemma read_u16_le [simp]: "read_u16 (le 2 w @ rest) = w"
  by (rule bit_word_eqI) (auto simp: read_u16_def nth_le bit_simps)

lemma read_u32_le [simp]: "read_u32 (le 4 w @ rest) = w"
proof (rule bit_word_eqI)
  fix n assume n: "n < LENGTH(32)"
  consider "n < 8" | "8 \<le> n" "n < 16" | "16 \<le> n" "n < 24" | "24 \<le> n" "n < 32" using n by fastforce
  then show "bit (read_u32 (le 4 w @ rest)) n \<longleftrightarrow> bit w n"
    by cases (auto simp: read_u32_def nth_le bit_simps)
qed

lemma read_u64_le [simp]: "read_u64 (le 8 w @ rest) = w"
proof (rule bit_word_eqI)
  fix n assume n: "n < LENGTH(64)"
  have "read_u64 (le 8 w @ rest) = gather (\<lambda>i. (le 8 w @ rest) ! i) 0 8" by (simp add: read_u64_def gather_def mult.commute)
  then have "bit (read_u64 (le 8 w @ rest)) n \<longleftrightarrow> n < 64 \<and> bit ((le 8 w @ rest) ! (n div 8)) (n mod 8)" by (simp add: bit_gather)
  also have "\<dots> \<longleftrightarrow> bit w n" using n by (simp add: nth_le bit_simps div_less_iff_less_mult)
  finally show "bit (read_u64 (le 8 w @ rest)) n \<longleftrightarrow> bit w n" .
qed

lemma read_le_alone [simp]: "read_u16 (le 2 v) = v" "read_u32 (le 4 x) = x" "read_u64 (le 8 y) = y"
  using read_u16_le [of v "[]"] read_u32_le [of x "[]"] read_u64_le [of y "[]"] by simp_all

section \<open>Images\<close>

definition encode_program_header :: "elf64_program_header \<Rightarrow> u8 list" where
  "encode_program_header h = le 4 (ptype h) @ le 4 (pflags h) @ le 8 (offset h) @ le 8 (virtual_address h) @
     le 8 (physical_address h) @ le 8 (file_size h) @ le 8 (memory_size h) @ le 8 (alignment h)"

definition encode_header :: "elf64_header \<Rightarrow> u8 list" where
  "encode_header h = [0x7f, 0x45, 0x4c, 0x46, 2, 1, 1] @ replicate 9 0 @ le 2 (etype h) @ le 2 (machine h) @ le 4 (1 :: u32) @
     le 8 (entry h) @ le 8 (phoff h) @ replicate 12 0 @ le 2 (64 :: u16) @ le 2 (56 :: u16) @ le 2 (phnum h) @ replicate 6 0"

definition encode_image :: "elf64_header \<Rightarrow> elf64_program_header list \<Rightarrow> u8 list \<Rightarrow> u8 list" where
  "encode_image h hs body = encode_header h @ concat (map encode_program_header hs) @ body"

lemma length_encode [simp]: "length (encode_header h) = 64" "length (encode_program_header p) = 56"
  by (simp_all add: encode_header_def encode_program_header_def)

lemma length_table [simp]: "length (concat (map encode_program_header hs)) = length hs * 56"
  by (induction hs) simp_all

lemma decode_encode [simp]: "decode_program_header (encode_program_header h) = h"
  by (simp add: decode_program_header_def encode_program_header_def drop_append)

lemma decode_encode_header [simp]: "decode_header (encode_header h) = h"
  by (simp add: decode_header_def encode_header_def drop_append)

lemma encoded_marks:
  "encode_header h ! 0 = 0x7f" "encode_header h ! 1 = 0x45" "encode_header h ! 2 = 0x4c" "encode_header h ! 3 = 0x46"
  "encode_header h ! 4 = 2" "encode_header h ! 5 = 1" "encode_header h ! 6 = 1"
  "read_u32 (drop 20 (encode_header h)) = 1" "read_u16 (drop 52 (encode_header h)) = 64" "read_u16 (drop 54 (encode_header h)) = 56"
  by (simp_all add: encode_header_def drop_append)

lemma memory_read_take: "off + n \<le> length bytes \<Longrightarrow> memory_read_at bytes off n = Inr (take n (drop off bytes))"
  by (auto simp: memory_read_at_def intro: nth_equalityI)

lemma table_entry:
  "i < length hs \<Longrightarrow> take 56 (drop (64 + i * 56) (encode_image h hs body)) = encode_program_header (hs ! i)"
proof -
  have "take 56 (drop (i * 56) (concat (map encode_program_header hs) @ body)) = encode_program_header (hs ! i)" if "i < length hs"
    using that
  proof (induction hs arbitrary: i)
    case (Cons p hs)
    show ?case
    proof (cases i)
      case 0 then show ?thesis by simp
    next
      case (Suc k)
      then have "drop (i * 56) (encode_program_header p @ concat (map encode_program_header hs) @ body) =
          drop (k * 56) (concat (map encode_program_header hs) @ body)" by (simp add: drop_append)
      then show ?thesis using Cons Suc by simp
    qed
  qed simp
  moreover have "drop (64 + i * 56) (encode_image h hs body) = drop (i * 56) (concat (map encode_program_header hs) @ body)"
    by (simp add: encode_image_def drop_append)
  ultimately show "i < length hs \<Longrightarrow> ?thesis" by simp
qed


end
