(* ===== verification/Elf64_Theorems.thy ===== *)
theory Elf64_Theorems
  imports Elf64_Codec
begin

text \<open>
  The properties of the executable reader, each followed by its witness.
\<close>

lemma memory_read_exact:
  assumes "src_size s = word_of_nat (length bytes)" "read_at s = Some (memory_read_at bytes)" "length bytes < 2 ^ 64"
    "off + n \<le> length bytes" "0 < n"
  shows "kernel_read_source_read_exact s (word_of_nat off) n = Inr (take n (drop off bytes))"
proof -
  have u: "unat (word_of_nat off :: u64) = off" "unat (word_of_nat n :: u64) = n" "unat (word_of_nat (length bytes) :: u64) = length bytes"
    using assms(3,4) by (simp_all add: unat_of_nat)
  have le: "(word_of_nat off :: u64) \<le> word_of_nat (length bytes)" using u assms(4) by (simp add: word_le_nat_alt)
  then have "unat (word_of_nat (length bytes) - word_of_nat off :: u64) = length bytes - off" using u by (simp add: unat_sub)
  then have "\<not> (word_of_nat (length bytes) - word_of_nat off :: u64) < word_of_nat n" using u assms(4) by (simp add: word_less_nat_alt)
  then show ?thesis using le assms u by (simp add: kernel_read_source_read_exact_def memory_read_take not_less)
qed

lemma header_loop_table:
  assumes s: "src_size s = word_of_nat (length (encode_image h hs body))" "read_at s = Some (memory_read_at (encode_image h hs body))"
    and fit: "length (encode_image h hs body) < 2 ^ 64"
    and valid: "\<And>p. p \<in> set hs \<Longrightarrow> ptype p = 1 \<Longrightarrow> validate_load_segment p (src_size s) = ELF_OK"
  shows "i + n = length hs \<Longrightarrow> header_loop s 64 i n = (ELF_OK, drop i hs)"
proof (induction n arbitrary: i)
  case (Suc n)
  then have i: "i < length hs" by simp
  have b: "(64 + i * 56) + 56 \<le> length (encode_image h hs body)"
  proof -
    have "i * 56 + 56 \<le> length hs * 56" using i by (metis add.commute mult_Suc Suc_leI mult_le_mono1)
    then show ?thesis by (simp add: encode_image_def)
  qed
  have "kernel_read_source_read_exact s (word_of_nat (64 + i * 56)) 56 = Inr (encode_program_header (hs ! i))"
    using memory_read_exact [OF s fit b] table_entry [OF i] by simp
  then have r: "kernel_read_source_read_exact s (64 + word_of_nat i * 56) 56 = Inr (encode_program_header (hs ! i))" by simp
  have v: "ptype (hs ! i) = 1 \<Longrightarrow> validate_load_segment (hs ! i) (src_size s) = ELF_OK" using valid i by simp
  have d: "drop i hs = hs ! i # drop (i + 1) hs" using i by (simp add: Cons_nth_drop_Suc)
  show ?case using r v Suc.IH [of "i + 1"] Suc.prems by (simp add: Let_def d)
qed simp

lemma open_encoded:
  assumes "phoff h = 64" "unat (phnum h) = length hs" "0 < length hs" "length hs \<le> 128" "length hs \<le> unat capacity"
    and "length (encode_image h hs body) < 2 ^ 64"
    and "kernel_read_source_from_memory (Some (encode_image h hs body)) (word_of_nat (length (encode_image h hs body))) = Inr s"
    and "\<And>p. p \<in> set hs \<Longrightarrow> ptype p = 1 \<Longrightarrow> validate_load_segment p (src_size s) = ELF_OK"
  shows "kernel_elf64_open_cached (Some s) True True capacity = (ELF_OK, Some \<lparr>source = s, header = h\<rparr>, hs)"
proof -
  let ?b = "encode_image h hs body"
  have s: "src_size s = word_of_nat (length ?b)" "read_at s = Some (memory_read_at ?b)"
    using assms(7) by (auto simp: kernel_read_source_from_memory_def)
  have len: "length ?b = 64 + length hs * 56 + length body" by (simp add: encode_image_def)
  have us: "unat (src_size s) = length ?b" using s(1) assms(6) by (simp add: unat_of_nat)
  have "take 64 ?b = encode_header h" by (simp add: encode_image_def)
  then have hd: "kernel_read_source_read_exact s 0 64 = Inr (encode_header h)"
    using memory_read_exact [OF s assms(6), of 0 64] len by simp
  have c: "capacity \<noteq> 0" "\<not> capacity < phnum h" "phnum h \<noteq> 0" "\<not> 128 < phnum h" "\<not> src_size s < 64"
    using assms(2-5) us len by (auto simp: word_less_nat_alt)
  have "unat (ucast (phnum h) * 56 :: u64) = length hs * 56" using table_bytes [of "phnum h"] assms(2,4) by simp
  then have rw: "range_within (src_size s) 64 (ucast (phnum h) * 56)" using us len by (simp add: range_within_unat)
  have "header_loop s 64 0 (length hs) = (ELF_OK, hs)"
    using header_loop_table [OF s assms(6) assms(8), of 0 "length hs"] by simp
  then show ?thesis
    using c hd rw assms(1,2) s(2)
    by (simp add: kernel_elf64_open_cached_def kernel_elf64_open_internal_def Let_def encoded_marks encoded_marks(2) [unfolded One_nat_def])
qed

definition sample_header :: elf64_header where
  "sample_header = \<lparr>etype = 2, machine = 243, entry = 4096, phoff = 64, phnum = 1\<rparr>"

definition sample_segment :: elf64_program_header where
  "sample_segment = \<lparr>ptype = 1, pflags = 5, offset = 0, virtual_address = 4096, physical_address = 0, file_size = 120,
     memory_size = 4096, alignment = 4096\<rparr>"

definition sample_source :: read_source where
  "sample_source = \<lparr>src_size = 120, read_at = Some (memory_read_at (encode_image sample_header [sample_segment] []))\<rparr>"

lemma sample_facts:
  "length (encode_image sample_header [sample_segment] []) = 120" "validate_load_segment sample_segment 120 = ELF_OK"
  "kernel_read_source_from_memory (Some (encode_image sample_header [sample_segment] []))
     (word_of_nat (length (encode_image sample_header [sample_segment] []))) = Inr sample_source"
proof -
  show l: "length (encode_image sample_header [sample_segment] []) = 120" by (simp add: encode_image_def)
  show "validate_load_segment sample_segment 120 = ELF_OK"
    by (simp add: validate_load_segment_def sample_segment_def range_within_def)
  show "kernel_read_source_from_memory (Some (encode_image sample_header [sample_segment] []))
     (word_of_nat (length (encode_image sample_header [sample_segment] []))) = Inr sample_source"
    unfolding l by (simp add: kernel_read_source_from_memory_def sample_source_def)
qed

lemma sample_opens:
  "kernel_elf64_open_cached (Some sample_source) True True 1 =
     (ELF_OK, Some \<lparr>source = sample_source, header = sample_header\<rparr>, [sample_segment])"
  by (rule open_encoded [where body = "[]", OF _ _ _ _ _ _ sample_facts(3)])
    (use sample_facts in \<open>simp_all add: sample_header_def sample_source_def\<close>)

text \<open>
  C37. Opening an image that succeeds makes every program header readable: reading header \<open>i\<close> below the
  count succeeds and gives what was validated (and cached), and each loadable segment lies inside the
  image, does not wrap in memory, is no longer in the file than in memory, and is congruent modulo its
  alignment, which is a power of two.
\<close>

theorem elf_opened_segments_valid:
  assumes "kernel_elf64_open_internal src out cached capacity = (ELF_OK, Some img, hs)" "i < unat (phnum (header img))"
  shows "\<exists>h. kernel_elf64_read_program_header (Some img) (word_of_nat i) True = (ELF_OK, Some h) \<and>
    (cached \<longrightarrow> i < length hs \<and> hs ! i = h) \<and>
    (ptype h = 1 \<longrightarrow> segment_ok (unat (src_size (source img))) h)"
  by (rule opened_headers [OF assms]) blast

theorem elf_opened_segments_valid_witness:
  "\<exists>h. kernel_elf64_read_program_header (Some \<lparr>source = sample_source, header = sample_header\<rparr>) 0 True = (ELF_OK, Some h) \<and>
     sample_segment = h \<and> segment_ok 120 h"
proof -
  have o: "kernel_elf64_open_internal (Some sample_source) True True 1 =
      (ELF_OK, Some \<lparr>source = sample_source, header = sample_header\<rparr>, [sample_segment])"
    using sample_opens by (simp add: kernel_elf64_open_cached_def)
  show ?thesis
    using elf_opened_segments_valid [OF o, of 0] by (auto simp: sample_header_def sample_source_def) (auto simp: sample_segment_def)
qed

text \<open>
  C38. Decoding inverts encoding: opening, from memory, the encoding of a header and of up to 128 program
  headers whose loadable segments are valid succeeds and returns that header and those program headers.
\<close>

theorem elf_open_reads_encoding:
  assumes "phoff h = 64" "unat (phnum h) = length hs" "0 < length hs" "length hs \<le> 128" "length hs \<le> unat capacity"
    and "length (encode_image h hs body) < 2 ^ 64"
    and "kernel_read_source_from_memory (Some (encode_image h hs body)) (word_of_nat (length (encode_image h hs body))) = Inr s"
    and "\<And>p. p \<in> set hs \<Longrightarrow> ptype p = 1 \<Longrightarrow> validate_load_segment p (src_size s) = ELF_OK"
  shows "kernel_elf64_open_cached (Some s) True True capacity = (ELF_OK, Some \<lparr>source = s, header = h\<rparr>, hs)"
  using assms by (rule open_encoded)

theorem elf_open_reads_encoding_witness:
  "kernel_elf64_open_cached (Some sample_source) True True 1 =
     (ELF_OK, Some \<lparr>source = sample_source, header = sample_header\<rparr>, [sample_segment])"
  by (rule elf_open_reads_encoding [where body = "[]", OF _ _ _ _ _ _ sample_facts(3)])
    (use sample_facts in \<open>simp_all add: sample_header_def sample_source_def\<close>)

end
