(* ===== verification/Sched_Policy.thy ===== *)
theory Sched_Policy
  imports Kernel_Prelude
begin

text \<open>
  Scheduling policies and the real-time bandwidth limit of \<^verbatim>\<open>src/kernel/sched/policy.c\<close>. C \<^verbatim>\<open>int\<close> and
  \<^verbatim>\<open>int64_t\<close> values are integers, the nanosecond counters are 64-bit words; a time that runs backwards
  traps (\<open>None\<close>), and so does the remainder by a zero period, which the invariant excludes.
\<close>

section \<open>Policies\<close>

record sched_policy =
  policy :: int
  priority :: int
  reset_on_fork :: nat
  rr_remaining_ns :: u64

abbreviation (input) SCHED_OTHER :: int where "SCHED_OTHER \<equiv> 0"
abbreviation (input) SCHED_FIFO :: int where "SCHED_FIFO \<equiv> 1"
abbreviation (input) SCHED_RR :: int where "SCHED_RR \<equiv> 2"
abbreviation (input) SCHED_RESET_ON_FORK :: int where "SCHED_RESET_ON_FORK \<equiv> 0x40000000"
abbreviation (input) SCHED_RR_NS :: u64 where "SCHED_RR_NS \<equiv> 100000000"
abbreviation (input) SCHED_EINVAL :: int where "SCHED_EINVAL \<equiv> 22"

definition kernel_sched_policy_set :: "sched_policy \<Rightarrow> int \<Rightarrow> int \<Rightarrow> bool \<Rightarrow> int \<times> sched_policy" where
  "kernel_sched_policy_set state p prio keep =
     (let reset = (if keep then reset_on_fork state else if p AND SCHED_RESET_ON_FORK \<noteq> 0 then 1 else 0);
          q = (if keep then policy state else p AND NOT SCHED_RESET_ON_FORK)
      in if q \<noteq> SCHED_OTHER \<and> q \<noteq> SCHED_FIFO \<and> q \<noteq> SCHED_RR then (- SCHED_EINVAL, state)
         else if prio < 0 \<or> 99 < prio \<or> (q = SCHED_OTHER) \<noteq> (prio = 0) then (- SCHED_EINVAL, state)
         else (0, state\<lparr>rr_remaining_ns := (if rr_remaining_ns state = 0 \<and> q = SCHED_RR then SCHED_RR_NS else rr_remaining_ns state),
                  policy := q, priority := prio, reset_on_fork := reset\<rparr>))"

definition kernel_sched_policy_fork :: "sched_policy \<Rightarrow> sched_policy" where
  "kernel_sched_policy_fork parent =
     (let child = parent\<lparr>rr_remaining_ns := SCHED_RR_NS\<rparr>
      in if reset_on_fork child \<noteq> 0 then child\<lparr>policy := SCHED_OTHER, priority := 0, reset_on_fork := 0\<rparr> else child)"

definition kernel_sched_policy_charge :: "sched_policy \<Rightarrow> u64 \<Rightarrow> sched_policy" where
  "kernel_sched_policy_charge state delta =
     (if policy state \<noteq> SCHED_RR then state
      else state\<lparr>rr_remaining_ns := (if rr_remaining_ns state \<le> delta then 0 else rr_remaining_ns state - delta)\<rparr>)"

definition kernel_sched_policy_rotate :: "sched_policy \<Rightarrow> sched_policy" where
  "kernel_sched_policy_rotate state = (if policy state = SCHED_RR then state\<lparr>rr_remaining_ns := SCHED_RR_NS\<rparr> else state)"

definition kernel_sched_policy_expired :: "sched_policy \<Rightarrow> bool" where
  "kernel_sched_policy_expired state \<longleftrightarrow> policy state = SCHED_RR \<and> rr_remaining_ns state = 0"

section \<open>Real-time bandwidth\<close>

record rt_bandwidth =
  period_ns :: u64
  period_start_ns :: u64
  consumed_ns :: u64
  last_account_ns :: u64
  runtime_ns :: int

definition kernel_rt_bandwidth_init :: "u64 \<Rightarrow> rt_bandwidth" where
  "kernel_rt_bandwidth_init now =
     \<lparr>period_ns = 1000000000, period_start_ns = now, consumed_ns = 0, last_account_ns = now, runtime_ns = 950000000\<rparr>"

definition kernel_rt_bandwidth_account :: "rt_bandwidth \<Rightarrow> u64 \<Rightarrow> bool \<Rightarrow> rt_bandwidth option" where
  "kernel_rt_bandwidth_account state now running =
     (if now < last_account_ns state then None
      else
        let delta = now - last_account_ns state;
            since = now - period_start_ns state
        in if period_ns state \<le> since \<and> period_ns state = 0 then None
           else
             let start = (if period_ns state \<le> since then now - since mod period_ns state else period_start_ns state);
                 consumed = (if period_ns state \<le> since then 0 else consumed_ns state);
                 delta = (if period_ns state \<le> since \<and> last_account_ns state < start then now - start else delta)
             in Some (state\<lparr>period_start_ns := start,
                  consumed_ns := (if running then (if - 1 - consumed < delta then - 1 else consumed + delta) else consumed),
                  last_account_ns := now\<rparr>))"

definition kernel_rt_bandwidth_eligible :: "rt_bandwidth \<Rightarrow> bool" where
  "kernel_rt_bandwidth_eligible state \<longleftrightarrow> runtime_ns state < 0 \<or> consumed_ns state < word_of_int (runtime_ns state)"

definition kernel_rt_bandwidth_set ::
  "rt_bandwidth \<Rightarrow> bool \<Rightarrow> int \<Rightarrow> u64 \<Rightarrow> bool \<Rightarrow> (int \<times> rt_bandwidth) option" where
  "kernel_rt_bandwidth_set state runtime_field value_us now running = do {
     s \<leftarrow> kernel_rt_bandwidth_account state now running;
     if runtime_field \<and> value_us < - 1 \<or> \<not> runtime_field \<and> value_us \<le> 0 \<or> 2147483647 < value_us then Some (- SCHED_EINVAL, s)
     else
       let period = (if runtime_field then period_ns s else word_of_int value_us * 1000);
           runtime = (if runtime_field then (if value_us < 0 then - 1 else value_us * 1000) else runtime_ns s)
       in if 0 \<le> runtime \<and> period < word_of_int runtime then Some (- SCHED_EINVAL, s)
          else Some (0, s\<lparr>period_start_ns := (if period \<noteq> period_ns s then now else period_start_ns s),
                 period_ns := period, runtime_ns := runtime\<rparr>)
   }"

definition kernel_rt_bandwidth_delay :: "rt_bandwidth \<Rightarrow> bool \<Rightarrow> bool \<Rightarrow> u64" where
  "kernel_rt_bandwidth_delay state running queued =
     (if runtime_ns state \<le> 0 then 0
      else
        let period_left = period_ns state - (last_account_ns state - period_start_ns state)
        in if \<not> kernel_rt_bandwidth_eligible state then (if queued \<or> running then period_left else 0)
           else if \<not> running then 0
           else let budget_left = word_of_int (runtime_ns state) - consumed_ns state
                in if budget_left < period_left then budget_left else period_left)"

section \<open>Well-formed states\<close>

definition policy_ok :: "sched_policy \<Rightarrow> bool" where
  "policy_ok s \<longleftrightarrow> policy s \<in> {SCHED_OTHER, SCHED_FIFO, SCHED_RR} \<and> 0 \<le> priority s \<and> priority s \<le> 99 \<and>
     (policy s = SCHED_OTHER \<longleftrightarrow> priority s = 0)"

definition bandwidth_ok :: "rt_bandwidth \<Rightarrow> bool" where
  "bandwidth_ok s \<longleftrightarrow> 0 < period_ns s \<and> period_start_ns s \<le> last_account_ns s \<and>
     last_account_ns s - period_start_ns s < period_ns s \<and> - 1 \<le> runtime_ns s \<and> runtime_ns s \<le> uint (period_ns s)"

lemma elapsed_nat: "a \<le> (b :: u64) \<Longrightarrow> unat (b - a) = unat b - unat a"
  by (rule unat_sub)

lemma account_ok:
  assumes "bandwidth_ok s" "last_account_ns s \<le> now"
  obtains s' where "kernel_rt_bandwidth_account s now running = Some s'" "bandwidth_ok s'" "last_account_ns s' = now"
    "period_ns s' = period_ns s" "runtime_ns s' = runtime_ns s"
proof -
  have b: "0 < period_ns s" "period_start_ns s \<le> last_account_ns s" "- 1 \<le> runtime_ns s" "runtime_ns s \<le> uint (period_ns s)"
    using assms(1) by (auto simp: bandwidth_ok_def)
  let ?since = "now - period_start_ns s"
  have p0: "period_ns s \<noteq> 0" using b(1) by auto
  have "\<exists>s'. kernel_rt_bandwidth_account s now running = Some s'"
    unfolding kernel_rt_bandwidth_account_def Let_def using assms(2) p0 by (simp only: not_less [symmetric] if_False simp_thms) blast
  then obtain s' where run: "kernel_rt_bandwidth_account s now running = Some s'" ..
  have f: "last_account_ns s' = now" "period_ns s' = period_ns s" "runtime_ns s' = runtime_ns s"
    "period_start_ns s' = (if period_ns s \<le> ?since then now - ?since mod period_ns s else period_start_ns s)"
    using run by (auto simp: kernel_rt_bandwidth_account_def Let_def split: if_splits)
  have le: "period_start_ns s \<le> now" using b(2) assms(2) by (rule order_trans)
  have "?since mod period_ns s \<le> ?since" by (simp add: word_le_nat_alt unat_mod)
  also have "?since \<le> now" using elapsed_nat [OF le] by (simp add: word_le_nat_alt)
  finally have m: "?since mod period_ns s \<le> now" .
  have "period_start_ns s' \<le> now \<and> now - period_start_ns s' < period_ns s"
  proof (cases "period_ns s \<le> ?since")
    case True
    have "unat (?since mod period_ns s) < unat (period_ns s)" using b(1) by (simp add: unat_mod word_less_nat_alt)
    then show ?thesis using True m elapsed_nat [OF m] by (simp add: f(4) word_le_nat_alt word_less_nat_alt)
  next
    case False
    then show ?thesis using le by (simp add: f(4))
  qed
  then have "bandwidth_ok s'" using b f by (simp add: bandwidth_ok_def)
  then show ?thesis using that run f by blast
qed

lemma account_in_window:
  assumes "bandwidth_ok s" "last_account_ns s \<le> now" "unat now < unat (period_start_ns s) + unat (period_ns s)"
  shows "kernel_rt_bandwidth_account s now running = Some (s\<lparr>
    consumed_ns := (if running then (if - 1 - consumed_ns s < now - last_account_ns s then - 1
       else consumed_ns s + (now - last_account_ns s)) else consumed_ns s),
    last_account_ns := now\<rparr>)"
proof -
  have "period_start_ns s \<le> now" using assms(1,2) by (auto simp: bandwidth_ok_def)
  then have "\<not> period_ns s \<le> now - period_start_ns s"
    using assms(3) elapsed_nat [of "period_start_ns s" now] by (simp add: word_le_nat_alt)
  then show ?thesis using assms(2) by (simp add: kernel_rt_bandwidth_account_def Let_def not_less)
qed

lemma set_ok:
  assumes "bandwidth_ok s" "last_account_ns s \<le> now"
  obtains r s' where "kernel_rt_bandwidth_set s field v now running = Some (r, s')" "bandwidth_ok s'"
proof -
  obtain a where a: "kernel_rt_bandwidth_account s now running = Some a" "bandwidth_ok a" "last_account_ns a = now"
    "period_ns a = period_ns s" "runtime_ns a = runtime_ns s" by (rule account_ok [OF assms])
  have b: "0 < period_ns a" "period_start_ns a \<le> now" "now - period_start_ns a < period_ns a" "- 1 \<le> runtime_ns a" "runtime_ns a \<le> uint (period_ns a)"
    using a(2,3) by (auto simp: bandwidth_ok_def)
  define period where "period = (if field then period_ns a else word_of_int v * 1000)"
  define runtime where "runtime = (if field then (if v < 0 then - 1 else v * 1000) else runtime_ns a)"
  define bad where "bad \<longleftrightarrow> field \<and> v < - 1 \<or> \<not> field \<and> v \<le> 0 \<or> 2147483647 < v"
  have eq: "kernel_rt_bandwidth_set s field v now running = (if bad then Some (- SCHED_EINVAL, a)
      else if 0 \<le> runtime \<and> period < word_of_int runtime then Some (- SCHED_EINVAL, a)
      else Some (0, a\<lparr>period_start_ns := (if period \<noteq> period_ns a then now else period_start_ns a),
                 period_ns := period, runtime_ns := runtime\<rparr>))"
    unfolding kernel_rt_bandwidth_set_def a(1) bad_def period_def runtime_def Let_def by (simp only: bind.bind_lunit)
  show ?thesis
  proof (cases "bad \<or> 0 \<le> runtime \<and> period < word_of_int runtime")
    case True
    then have "kernel_rt_bandwidth_set s field v now running = Some (- SCHED_EINVAL, a)"
      unfolding eq by auto
    then show ?thesis using that a(2) by blast
  next
    case False
    define s' where "s' = a\<lparr>period_start_ns := (if period \<noteq> period_ns a then now else period_start_ns a),
                 period_ns := period, runtime_ns := runtime\<rparr>"
    have run: "kernel_rt_bandwidth_set s field v now running = Some (0, s')"
      unfolding eq s'_def using False by auto
    have v: "0 < v \<or> field" "v \<le> 2147483647" "- 1 \<le> v \<or> \<not> field" using False by (auto simp: bad_def)
    have up: "uint (word_of_int v * 1000 :: u64) = v * 1000" if "0 < v" using that v(2) by (simp add: uint_word_ariths uint_word_of_int_eq take_bit_eq_mod)
    have pp: "0 < period"
    proof (cases field)
      case True then show ?thesis using b(1) by (simp add: period_def)
    next
      case False
      then have "0 < v" using v(1) by simp
      then show ?thesis using up False by (simp add: period_def word_less_alt)
    qed
    have rt: "- 1 \<le> runtime" using v(3) b(4) by (auto simp: runtime_def)
    have "runtime < 2 ^ 64"
    proof (cases field)
      case True then show ?thesis using v(2) by (simp add: runtime_def)
    next
      case False then show ?thesis using b(5) uint_lt2p [of "period_ns a"] by (simp add: runtime_def)
    qed
    then have "runtime \<le> uint period" if "0 \<le> runtime"
      using that False by (simp add: word_less_alt uint_word_of_int_eq take_bit_eq_mod not_less)
    then have le: "runtime \<le> uint period" using uint_ge_0 [of period] by linarith
    have "bandwidth_ok s'"
      using pp rt le b(2,3) a(3) by (auto simp: bandwidth_ok_def s'_def)
    then show ?thesis using that run by blast
  qed
qed

end
