(* ===== verification/Runqueue.thy ===== *)
theory Runqueue
  imports Kernel_Prelude
begin

text \<open>
  The run queue of \<^verbatim>\<open>src/kernel/sched/runqueue.c\<close>: one intrusive doubly linked list in descending priority,
  with the first and the last node of each of the 100 priorities. Nodes live in a store by address;
  the two arrays are functions of the priority, whose index the code checks. \<open>None\<close> is a trap or the
  access to an address that holds no node.
\<close>

record sched_node =
  nnext :: ptr
  nprev :: ptr
  nowner :: ptr
  nprio :: nat
  queued :: bool

record runqueue =
  first :: ptr
  last_node :: ptr
  heads :: "nat \<Rightarrow> ptr"
  tails :: "nat \<Rightarrow> ptr"
  nodes :: "ptr \<rightharpoonup> sched_node"

definition set_node :: "runqueue \<Rightarrow> ptr \<Rightarrow> (sched_node \<Rightarrow> sched_node) \<Rightarrow> runqueue option" where
  "set_node q n f = do { e \<leftarrow> nodes q n; Some (q\<lparr>nodes := (nodes q)(n \<mapsto> f e)\<rparr>) }"

text \<open>The neighbours between which a node of the given priority goes.\<close>

definition find_place :: "runqueue \<Rightarrow> nat \<Rightarrow> bool \<Rightarrow> (ptr \<times> ptr) option" where
  "find_place q prio at_head =
     (if heads q prio \<noteq> 0 then
        if at_head then do { e \<leftarrow> nodes q (heads q prio); Some (nprev e, heads q prio) }
        else do { e \<leftarrow> nodes q (tails q prio); Some (tails q prio, nnext e) }
      else if last_node q = 0 then Some (0, 0)
      else do {
        l \<leftarrow> nodes q (last_node q);
        if prio < nprio l then Some (last_node q, 0)
        else
          let prev = (case find (\<lambda>p. tails q p \<noteq> 0) [prio + 1..<100] of None \<Rightarrow> 0 | Some p \<Rightarrow> tails q p)
          in if prev \<noteq> 0 then do { e \<leftarrow> nodes q prev; Some (prev, nnext e) } else Some (0, first q)
      })"

definition kernel_sched_enqueue :: "runqueue \<Rightarrow> ptr \<Rightarrow> ptr \<Rightarrow> nat \<Rightarrow> bool \<Rightarrow> runqueue option" where
  "kernel_sched_enqueue q n owner prio at_head =
     (if n = 0 then None
      else do {
        e \<leftarrow> nodes q n;
        if queued e \<or> owner = 0 \<or> 99 < prio then None
        else do {
          (prev, nxt) \<leftarrow> find_place q prio at_head;
          q1 \<leftarrow> set_node q n (\<lambda>e. e\<lparr>nnext := nxt, nprev := prev, nowner := owner, nprio := prio, queued := True\<rparr>);
          q2 \<leftarrow> (if prev \<noteq> 0 then set_node q1 prev (\<lambda>e. e\<lparr>nnext := n\<rparr>) else Some (q1\<lparr>first := n\<rparr>));
          q3 \<leftarrow> (if nxt \<noteq> 0 then set_node q2 nxt (\<lambda>e. e\<lparr>nprev := n\<rparr>) else Some (q2\<lparr>last_node := n\<rparr>));
          (let q4 = (if heads q3 prio = 0 \<or> at_head then q3\<lparr>heads := (heads q3)(prio := n)\<rparr> else q3)
           in Some (if tails q4 prio = 0 \<or> \<not> at_head then q4\<lparr>tails := (tails q4)(prio := n)\<rparr> else q4))
        }
      })"

definition neighbour_of :: "runqueue \<Rightarrow> ptr \<Rightarrow> nat \<Rightarrow> ptr option" where
  "neighbour_of q m p = (if m = 0 then Some 0 else do { e \<leftarrow> nodes q m; Some (if nprio e = p then m else 0) })"

definition kernel_sched_dequeue :: "runqueue \<Rightarrow> ptr \<Rightarrow> runqueue option" where
  "kernel_sched_dequeue q n =
     (if n = 0 then None
      else do {
        e \<leftarrow> nodes q n;
        if \<not> queued e then None
        else do {
          q1 \<leftarrow> (if heads q (nprio e) = n
                 then do { m \<leftarrow> neighbour_of q (nnext e) (nprio e); Some (q\<lparr>heads := (heads q)(nprio e := m)\<rparr>) } else Some q);
          q2 \<leftarrow> (if tails q1 (nprio e) = n
                 then do { m \<leftarrow> neighbour_of q1 (nprev e) (nprio e); Some (q1\<lparr>tails := (tails q1)(nprio e := m)\<rparr>) } else Some q1);
          q3 \<leftarrow> (if nprev e \<noteq> 0 then set_node q2 (nprev e) (\<lambda>x. x\<lparr>nnext := nnext e\<rparr>) else Some (q2\<lparr>first := nnext e\<rparr>));
          q4 \<leftarrow> (if nnext e \<noteq> 0 then set_node q3 (nnext e) (\<lambda>x. x\<lparr>nprev := nprev e\<rparr>) else Some (q3\<lparr>last_node := nprev e\<rparr>));
          set_node q4 n (\<lambda>x. x\<lparr>nnext := 0, nprev := 0, queued := False\<rparr>)
        }
      })"

definition kernel_sched_pick :: "runqueue \<Rightarrow> bool \<Rightarrow> ptr" where
  "kernel_sched_pick q rt_eligible = (if rt_eligible then first q else heads q 0)"

end
