(* ===== verification/Runqueue_Order.thy ===== *)
theory Runqueue_Order
  imports Runqueue
begin

text \<open>
  The run queue as a list of nodes in descending priority, first come first served within a priority.
  The neighbours, the ends and the per-priority heads and tails are all determined by that list, and
  enqueue, dequeue and pick are list operations on it.
\<close>

section \<open>Doubly linked lists\<close>

definition hd0 :: "ptr list \<Rightarrow> ptr \<Rightarrow> ptr" where
  "hd0 xs z = (case xs of [] \<Rightarrow> z | x # _ \<Rightarrow> x)"

abbreviation last0 :: "ptr list \<Rightarrow> ptr" where
  "last0 xs \<equiv> last (0 # xs)"

lemma hd0_simps [simp]: "hd0 [] z = z" "hd0 (x # xs) z = x"
  by (simp_all add: hd0_def)

lemma hd0_append: "hd0 (as @ bs) z = hd0 as (hd0 bs z)"
  by (cases as) simp_all

primrec dl :: "(ptr \<rightharpoonup> sched_node) \<Rightarrow> ptr \<Rightarrow> ptr list \<Rightarrow> ptr \<Rightarrow> bool" where
  "dl h prev [] nxt \<longleftrightarrow> True"
| "dl h prev (x # xs) nxt \<longleftrightarrow> (\<exists>e. h x = Some e \<and> nprev e = prev \<and> nnext e = hd0 xs nxt \<and> dl h x xs nxt)"

lemma dl_append: "dl h prev (as @ bs) nxt \<longleftrightarrow> dl h prev as (hd0 bs nxt) \<and> dl h (last (prev # as)) bs nxt"
  by (induction as arbitrary: prev) (auto simp: hd0_append)

lemma dl_dom: "dl h prev xs nxt \<Longrightarrow> x \<in> set xs \<Longrightarrow> h x \<noteq> None"
  by (induction xs arbitrary: prev) auto

lemma dl_ends:
  assumes "dl h 0 (as @ bs) 0"
  shows "bs \<noteq> [] \<Longrightarrow> \<exists>e. h (hd bs) = Some e \<and> nprev e = last0 as"
    and "as \<noteq> [] \<Longrightarrow> \<exists>e. h (last as) = Some e \<and> nnext e = hd0 bs 0"
proof -
  show "bs \<noteq> [] \<Longrightarrow> \<exists>e. h (hd bs) = Some e \<and> nprev e = last0 as" using assms by (cases bs) (auto simp: dl_append)
  assume "as \<noteq> []"
  then obtain cs l where as: "as = cs @ [l]" by (metis rev_exhaust)
  show "\<exists>e. h (last as) = Some e \<and> nnext e = hd0 bs 0" using assms unfolding as by (auto simp: dl_append)
qed

lemma dl_cong: "(\<And>x. x \<in> set xs \<Longrightarrow> h' x = h x) \<Longrightarrow> dl h' prev xs nxt = dl h prev xs nxt"
  by (induction xs arbitrary: prev) auto

lemma dl_new_end:
  assumes "dl h prev as nxt" "distinct as" "\<And>x. x \<in> set as \<Longrightarrow> x \<noteq> last as \<Longrightarrow> h' x = h x"
    "as \<noteq> [] \<Longrightarrow> h' (last as) = Some ((the (h (last as)))\<lparr>nnext := nxt'\<rparr>)"
  shows "dl h' prev as nxt'"
  using assms
proof (induction as arbitrary: prev)
  case (Cons a as)
  show ?case
  proof (cases "as = []")
    case True then show ?thesis using Cons.prems by auto
  next
    case False
    have "last as \<noteq> a" using False Cons.prems(2) last_in_set [OF False] by auto
    then have ha: "h' a = h a" using Cons.prems(3) [of a] False by simp
    have "dl h' a as nxt'"
      by (rule Cons.IH) (use Cons.prems False in auto)
    moreover have "hd0 as nxt' = hd0 as nxt" using False by (cases as) auto
    ultimately show ?thesis using Cons.prems(1) ha by auto
  qed
qed simp

lemma dl_new_begin:
  assumes "dl h prev bs nxt" "distinct bs" "\<And>x. x \<in> set bs \<Longrightarrow> x \<noteq> hd bs \<Longrightarrow> h' x = h x"
    "bs \<noteq> [] \<Longrightarrow> h' (hd bs) = Some ((the (h (hd bs)))\<lparr>nprev := prev'\<rparr>)"
  shows "dl h' prev' bs nxt"
proof (cases bs)
  case (Cons b cs)
  have "dl h' b cs nxt = dl h b cs nxt" by (rule dl_cong) (use assms(2,3) Cons in auto)
  then show ?thesis using assms(1,4) Cons by auto
qed simp

text \<open>Both updates at the seam of \<open>as\<close> and \<open>bs\<close>.\<close>

definition seam :: "(ptr \<rightharpoonup> sched_node) \<Rightarrow> ptr \<Rightarrow> ptr \<Rightarrow> ptr \<Rightarrow> ptr \<Rightarrow> (ptr \<rightharpoonup> sched_node)" where
  "seam h l n l' n' =
     (let h1 = (if l \<noteq> 0 then h(l \<mapsto> (the (h l))\<lparr>nnext := n'\<rparr>) else h)
      in if n \<noteq> 0 then h1(n \<mapsto> (the (h1 n))\<lparr>nprev := l'\<rparr>) else h1)"

lemma seam_dl:
  assumes "dl h p as z" "dl h q bs 0" "distinct (as @ bs)" "h 0 = None" "l = last0 as" "n = hd0 bs 0"
  shows "dl (seam h l n l' n') p as n'" "dl (seam h l n l' n') l' bs 0"
proof -
  have nz: "x \<noteq> 0" if "x \<in> set as \<or> x \<in> set bs" for x
    using that dl_dom [OF assms(1)] dl_dom [OF assms(2)] assms(4) by metis
  have l: "l \<noteq> 0 \<longleftrightarrow> as \<noteq> []" "as \<noteq> [] \<Longrightarrow> l = last as \<and> l \<in> set as"
    using assms(5) nz [of "last as"] last_in_set [of as] by auto
  have n: "n \<noteq> 0 \<longleftrightarrow> bs \<noteq> []" "bs \<noteq> [] \<Longrightarrow> n = hd bs \<and> n \<in> set bs"
    using assms(6) nz [of "hd bs"] by (cases bs; auto)+
  have ln: "l \<noteq> n" if "as \<noteq> [] \<or> bs \<noteq> []" using that l n assms(3) by (metis disjoint_iff distinct_append)
  show "dl (seam h l n l' n') p as n'"
  proof (rule dl_new_end [OF assms(1)])
    show "distinct as" using assms(3) by simp
    show "seam h l n l' n' x = h x" if "x \<in> set as" "x \<noteq> last as" for x
      using that l n assms(3) by (auto simp: seam_def Let_def)
    show "seam h l n l' n' (last as) = Some ((the (h (last as)))\<lparr>nnext := n'\<rparr>)" if "as \<noteq> []"
      using that l ln by (auto simp: seam_def Let_def)
  qed
  show "dl (seam h l n l' n') l' bs 0"
  proof (rule dl_new_begin [OF assms(2)])
    show "distinct bs" using assms(3) by simp
    show "seam h l n l' n' x = h x" if "x \<in> set bs" "x \<noteq> hd bs" for x
      using that l n assms(3) by (auto simp: seam_def Let_def)
    show "seam h l n l' n' (hd bs) = Some ((the (h (hd bs)))\<lparr>nprev := l'\<rparr>)" if "bs \<noteq> []"
      using that n ln by (auto simp: seam_def Let_def)
  qed
qed

lemma seam_prio:
  assumes "l \<noteq> 0 \<Longrightarrow> h l \<noteq> None" "n \<noteq> 0 \<Longrightarrow> h n \<noteq> None"
  shows "map_option nprio (seam h l n l' n' x) = map_option nprio (h x)" "map_option queued (seam h l n l' n' x) = map_option queued (h x)"
  using assms by (cases "l = 0"; cases "n = 0"; auto simp: seam_def Let_def)+

section \<open>Lists in descending priority\<close>

definition upper :: "('a \<Rightarrow> nat) \<Rightarrow> bool \<Rightarrow> nat \<Rightarrow> 'a list \<Rightarrow> 'a list" where
  "upper pr at_head p xs = takeWhile (\<lambda>x. if at_head then p < pr x else p \<le> pr x) xs"

definition lower :: "('a \<Rightarrow> nat) \<Rightarrow> bool \<Rightarrow> nat \<Rightarrow> 'a list \<Rightarrow> 'a list" where
  "lower pr at_head p xs = dropWhile (\<lambda>x. if at_head then p < pr x else p \<le> pr x) xs"

definition level :: "('a \<Rightarrow> nat) \<Rightarrow> nat \<Rightarrow> 'a list \<Rightarrow> 'a list" where
  "level pr p xs = filter (\<lambda>x. pr x = p) xs"

abbreviation descending :: "('a \<Rightarrow> nat) \<Rightarrow> 'a list \<Rightarrow> bool" where
  "descending pr xs \<equiv> sorted_wrt (\<lambda>x y. pr y \<le> pr x) xs"

lemma upper_lower: "upper pr ah p xs @ lower pr ah p xs = xs"
  by (simp add: upper_def lower_def)

lemma upper_bound: "x \<in> set (upper pr ah p xs) \<Longrightarrow> if ah then p < pr x else p \<le> pr x"
  unfolding upper_def by (rule set_takeWhileD [THEN conjunct2])

lemma lower_bound:
  assumes "descending pr xs" "x \<in> set (lower pr ah p xs)"
  shows "if ah then pr x \<le> p else pr x < p"
proof -
  let ?P = "\<lambda>x. if ah then p < pr x else p \<le> pr x" and ?l = "lower pr ah p xs"
  have ne: "?l \<noteq> []" using assms(2) by auto
  then have h: "\<not> ?P (hd ?l)" unfolding lower_def by (rule hd_dropWhile)
  have "descending pr ?l" using assms(1) upper_lower [of pr ah p xs] by (metis sorted_wrt_append)
  then have "x = hd ?l \<or> pr x \<le> pr (hd ?l)" using assms(2) by (cases ?l) auto
  then show ?thesis using h by (auto split: if_splits)
qed

lemma level_empty: "level pr p xs = [] \<longleftrightarrow> (\<forall>x\<in>set xs. pr x \<noteq> p)"
  by (auto simp: level_def filter_empty_conv)

lemma level_parts:
  assumes "descending pr xs"
  shows "level pr p (upper pr True p xs) = []" "level pr p (lower pr False p xs) = []"
  using upper_bound [of _ pr True p xs] lower_bound [OF assms, of _ False p] by (auto simp: level_empty)

text \<open>The run of priority \<open>p\<close> begins the lower part and ends the upper part.\<close>

lemma head_run:
  assumes "descending pr xs" "level pr p xs \<noteq> []"
  shows "lower pr True p xs \<noteq> []" "hd (level pr p xs) = hd (lower pr True p xs)"
proof -
  let ?l = "lower pr True p xs"
  have "level pr p xs = level pr p (upper pr True p xs) @ level pr p ?l"
    using upper_lower [of pr True p xs] unfolding level_def by (metis filter_append)
  then have e: "level pr p xs = level pr p ?l" using level_parts(1) [OF assms(1)] by simp
  then show ne: "?l \<noteq> []" using assms(2) by (auto simp: level_def)
  have "descending pr ?l" using assms(1) upper_lower [of pr True p xs] by (metis sorted_wrt_append)
  moreover have "\<exists>x\<in>set ?l. pr x = p" using assms(2) e by (simp add: level_empty)
  ultimately have "p \<le> pr (hd ?l)" using ne by (cases ?l) auto
  moreover have "pr (hd ?l) \<le> p" using lower_bound [OF assms(1), of "hd ?l" True p] ne by simp
  ultimately show "hd (level pr p xs) = hd ?l" unfolding e using ne by (cases ?l) (auto simp: level_def)
qed

lemma tail_run:
  assumes "descending pr xs" "level pr p xs \<noteq> []"
  shows "upper pr False p xs \<noteq> []" "last (level pr p xs) = last (upper pr False p xs)"
proof -
  let ?u = "upper pr False p xs"
  have "level pr p xs = level pr p ?u @ level pr p (lower pr False p xs)"
    using upper_lower [of pr False p xs] unfolding level_def by (metis filter_append)
  then have e: "level pr p xs = level pr p ?u" using level_parts(2) [OF assms(1)] by simp
  then show ne: "?u \<noteq> []" using assms(2) by (auto simp: level_def)
  obtain cs l where u: "?u = cs @ [l]" using ne by (metis rev_exhaust)
  have "descending pr ?u" using assms(1) upper_lower [of pr False p xs] by (metis sorted_wrt_append)
  then have "pr l \<le> pr x" if "x \<in> set ?u" for x using that u by (auto simp: sorted_wrt_append)
  moreover have "\<exists>x\<in>set ?u. pr x = p" using assms(2) e by (simp add: level_empty)
  ultimately have "pr l \<le> p" by metis
  moreover have "p \<le> pr l" using upper_bound [of l pr False p xs] u by simp
  ultimately show "last (level pr p xs) = last ?u" unfolding e u by (simp add: level_def)
qed

lemma splits_agree:
  assumes "level pr p xs = []"
  shows "upper pr False p xs = upper pr True p xs" "lower pr False p xs = lower pr True p xs"
proof -
  have "(p \<le> pr x) = (p < pr x)" if "x \<in> set xs" for x using assms that by (auto simp: level_empty)
  then show "upper pr False p xs = upper pr True p xs" "lower pr False p xs = lower pr True p xs"
    by (auto simp: upper_def lower_def intro: takeWhile_cong dropWhile_cong)
qed

lemma find_upt:
  assumes "a \<le> k" "k < b" "P k" "\<And>j. a \<le> j \<Longrightarrow> j < k \<Longrightarrow> \<not> P j"
  shows "find P [a..<b] = Some k"
proof -
  have "[a..<b] = [a..<k] @ k # [Suc k..<b]" using assms(1,2) by (metis less_imp_le upt_add_eq_append upt_conv_Cons le_add_diff_inverse)
  moreover have "find P [a..<k] = None" using assms(4) by (auto simp: find_None_iff)
  ultimately show ?thesis using assms(3) by (simp add: find_append) 
qed

end
