(* ===== verification/Runqueue_Refine.thy ===== *)
theory Runqueue_Refine
  imports Runqueue_Order
begin

text \<open>
  The run queue against its list: the invariant \<open>run_order\<close>, the place the code finds, and what enqueue,
  dequeue and pick do to the list.
\<close>

definition prio_of :: "runqueue \<Rightarrow> ptr \<Rightarrow> nat" where
  "prio_of q n = (case nodes q n of None \<Rightarrow> 0 | Some e \<Rightarrow> nprio e)"

definition run_order :: "runqueue \<Rightarrow> ptr list \<Rightarrow> bool" where
  "run_order q xs \<longleftrightarrow> nodes q 0 = None \<and> dl (nodes q) 0 xs 0 \<and> distinct xs \<and>
     first q = hd0 xs 0 \<and> last_node q = last0 xs \<and>
     (\<forall>n e. nodes q n = Some e \<longrightarrow> queued e = (n \<in> set xs)) \<and>
     descending (prio_of q) xs \<and> (\<forall>x\<in>set xs. prio_of q x \<le> 99) \<and>
     (\<forall>p. heads q p = hd0 (level (prio_of q) p xs) 0 \<and> tails q p = last0 (level (prio_of q) p xs))"

lemma run_orderD:
  assumes "run_order q xs"
  shows "nodes q 0 = None" "dl (nodes q) 0 xs 0" "distinct xs" "first q = hd0 xs 0" "last_node q = last0 xs"
    "nodes q n = Some e \<Longrightarrow> queued e = (n \<in> set xs)" "descending (prio_of q) xs" "x \<in> set xs \<Longrightarrow> prio_of q x \<le> 99"
    "heads q p = hd0 (level (prio_of q) p xs) 0" "tails q p = last0 (level (prio_of q) p xs)"
  using assms unfolding run_order_def by blast+

lemma run_order_nonzero: "run_order q xs \<Longrightarrow> x \<in> set xs \<Longrightarrow> x \<noteq> 0"
  using run_orderD(1,2) dl_dom by metis

lemma level_ends:
  assumes "run_order q xs"
  shows "heads q p \<noteq> 0 \<longleftrightarrow> level (prio_of q) p xs \<noteq> []" "tails q p \<noteq> 0 \<longleftrightarrow> level (prio_of q) p xs \<noteq> []"
proof -
  have "x \<noteq> 0" if "x \<in> set (level (prio_of q) p xs)" for x
    using that run_order_nonzero [OF assms] by (auto simp: level_def)
  then show "heads q p \<noteq> 0 \<longleftrightarrow> level (prio_of q) p xs \<noteq> []" "tails q p \<noteq> 0 \<longleftrightarrow> level (prio_of q) p xs \<noteq> []"
    unfolding run_orderD(9,10) [OF assms] by (cases "level (prio_of q) p xs"; auto)+
qed

section \<open>Finding the place\<close>

lemma new_level_place:
  assumes "run_order q xs" "p \<le> 99" "level (prio_of q) p xs = []"
  shows "find_place q p ah = Some (last0 (upper (prio_of q) True p xs), hd0 (lower (prio_of q) True p xs) 0)"
proof -
  note D = run_orderD [OF assms(1)]
  let ?pr = "prio_of q" let ?u = "upper ?pr True p xs" and ?l = "lower ?pr True p xs"
  have h: "heads q p = 0" using level_ends(1) [OF assms(1)] assms(3) by metis
  have xs: "?u @ ?l = xs" by (rule upper_lower)
  show ?thesis
  proof (cases "xs = []")
    case True
    then show ?thesis using h D(5) by (simp add: find_place_def upper_def lower_def)
  next
    case False
    have lx: "last_node q = last xs" "last xs \<noteq> 0" using D(5) False run_order_nonzero [OF assms(1)] by auto
    obtain e where e: "nodes q (last xs) = Some e" using dl_ends(2) [of "nodes q" xs "[]"] D(2) False by auto
    have pe: "nprio e = ?pr (last xs)" using e by (simp add: prio_of_def)
    show ?thesis
    proof (cases "p < ?pr (last xs)")
      case True
      have "p < ?pr x" if "x \<in> set xs" for x
      proof -
        obtain cs where c: "xs = cs @ [last xs]" using False by (metis append_butlast_last_id)
        have "descending ?pr (cs @ [last xs])" using D(7) c by simp
        then have "x \<in> set cs \<longrightarrow> ?pr (last xs) \<le> ?pr x" by (simp add: sorted_wrt_append)
        moreover have "x \<in> set cs \<or> x = last xs" using that by (subst (asm) c) auto
        ultimately show ?thesis using True by auto
      qed
      then have u: "?u = xs" "?l = []" by (auto simp: upper_def lower_def takeWhile_eq_all_conv)
      show ?thesis unfolding u using h lx e pe True False by (simp add: find_place_def)
    next
      case nl: False
      define prev where "prev = (case find (\<lambda>p. tails q p \<noteq> 0) [p + 1..<100] of None \<Rightarrow> 0 | Some p \<Rightarrow> tails q p)"
      have fp: "find_place q p ah = (if prev \<noteq> 0 then do { e \<leftarrow> nodes q prev; Some (prev, nnext e) } else Some (0, first q))"
        using h lx e pe nl by (simp add: find_place_def prev_def Let_def)
      have gt: "p < ?pr x" if "x \<in> set ?u" for x using upper_bound [OF that] by simp
      have le: "?pr x \<le> p" if "x \<in> set ?l" for x using lower_bound [OF D(7) that] by simp
      show ?thesis
      proof (cases "?u = []")
        case True
        then have l: "?l = xs" using xs by simp
        have "tails q j = 0" if "p < j" for j
          using level_ends(2) [OF assms(1), of j] le that unfolding l by (fastforce simp: level_empty)
        then have "prev = 0" unfolding prev_def by (auto split: option.splits simp: find_Some_iff)
        then show ?thesis unfolding fp True l by (simp add: D(4))
      next
        case ne: False
        let ?z = "last ?u"
        have zi: "?z \<in> set ?u" using ne by simp
        have zx: "?z \<in> set xs" using zi xs by (metis Un_iff set_append)
        obtain cs where c: "?u = cs @ [?z]" using ne by (metis append_butlast_last_id)
        have du: "descending ?pr ?u" using D(7) xs by (metis sorted_wrt_append)
        then have "descending ?pr (cs @ [?z])" using c by simp
        then have low: "?pr ?z \<le> ?pr x" if "x \<in> set ?u" for x using that by (subst (asm) c) (auto simp: sorted_wrt_append)
        have zb: "p < ?pr ?z" "?pr ?z < 100" using gt [OF zi] D(8) [OF zx] by auto
        have lev: "last (level ?pr (?pr ?z) xs) = ?z" "level ?pr (?pr ?z) xs \<noteq> []"
        proof -
          have "level ?pr (?pr ?z) ?l = []" using le zb(1) by (fastforce simp: level_empty)
          moreover have "level ?pr (?pr ?z) xs = level ?pr (?pr ?z) ?u @ level ?pr (?pr ?z) ?l"
            using xs unfolding level_def by (metis filter_append)
          moreover have "level ?pr (?pr ?z) ?u = level ?pr (?pr ?z) cs @ [?z]"
            by (subst (2) c) (simp add: level_def)
          ultimately have f: "level ?pr (?pr ?z) xs = level ?pr (?pr ?z) cs @ [?z]" by simp
          show "last (level ?pr (?pr ?z) xs) = ?z" unfolding f by simp
          show "level ?pr (?pr ?z) xs \<noteq> []" unfolding f by simp
        qed
        have "find (\<lambda>p. tails q p \<noteq> 0) [p + 1..<100] = Some (?pr ?z)"
        proof (rule find_upt)
          show "p + 1 \<le> ?pr ?z" "?pr ?z < 100" using zb by auto
          show "tails q (?pr ?z) \<noteq> 0" using level_ends(2) [OF assms(1)] lev(2) by blast
          show "\<not> tails q j \<noteq> 0" if "p + 1 \<le> j" "j < ?pr ?z" for j
          proof -
            have "?pr x \<noteq> j" if "x \<in> set xs" for x
            proof -
              have "x \<in> set ?u \<or> x \<in> set ?l" using that xs by (metis Un_iff set_append)
              then show ?thesis using low [of x] le [of x] \<open>p + 1 \<le> j\<close> \<open>j < ?pr ?z\<close> by auto
            qed
            then show ?thesis using level_ends(2) [OF assms(1), of j] by (simp add: level_empty)
          qed
        qed
        then have pz: "prev = ?z" unfolding prev_def using D(10) [of "?pr ?z"] lev by simp
        have z0: "?z \<noteq> 0" by (rule run_order_nonzero [OF assms(1) zx])
        obtain ez where "nodes q ?z = Some ez" "nnext ez = hd0 ?l 0" using dl_ends(2) [of "nodes q" ?u ?l] D(2) xs ne by auto
        then show ?thesis unfolding fp pz using z0 ne by simp
      qed
    qed
  qed
qed

lemma find_place_spec:
  assumes "run_order q xs" "p \<le> 99"
  shows "find_place q p ah = Some (last0 (upper (prio_of q) ah p xs), hd0 (lower (prio_of q) ah p xs) 0)"
proof (cases "level (prio_of q) p xs = []")
  case True
  then show ?thesis using new_level_place [OF assms True] splits_agree [OF True] by (cases ah) simp_all
next
  case False
  note D = run_orderD [OF assms(1)]
  let ?pr = "prio_of q" let ?u = "upper ?pr ah p xs" and ?l = "lower ?pr ah p xs"
  have h: "heads q p \<noteq> 0" "tails q p \<noteq> 0" using level_ends [OF assms(1)] False by blast+
  have d: "dl (nodes q) 0 (?u @ ?l) 0" using D(2) by (simp add: upper_lower)
  show ?thesis
  proof (cases ah)
    case True
    have l: "?l \<noteq> []" "heads q p = hd ?l" using head_run [OF D(7) False] D(9) [of p] True False
      by (auto simp: hd0_def split: list.splits)
    obtain e where e: "nodes q (hd ?l) = Some e" "nprev e = last0 ?u" using dl_ends(1) [OF d l(1)] by blast
    have "hd0 ?l 0 = hd ?l" using l(1) by (cases ?l) auto
    then show ?thesis using h e l True by (simp add: find_place_def)
  next
    case nah: False
    have u: "?u \<noteq> []" "tails q p = last ?u" using tail_run [OF D(7) False] D(10) [of p] nah False by auto
    obtain e where e: "nodes q (last ?u) = Some e" "nnext e = hd0 ?l 0" using dl_ends(2) [OF d u(1)] by blast
    show ?thesis using h e u nah by (simp add: find_place_def)
  qed
qed

end
