(* ===== verification/Runqueue_Steps.thy ===== *)
theory Runqueue_Steps
  imports Runqueue_Refine
begin

text \<open>
  Enqueue inserts below the nodes of higher priority (at the head of its own level, or behind it),
  dequeue removes, and neither traps on a queue that has a run order.
\<close>

lemma prio_of_cong: "map_option nprio (nodes q x) = map_option nprio (nodes q' x) \<Longrightarrow> prio_of q x = prio_of q' x"
  by (auto simp: prio_of_def split: option.splits)

lemma set_node_some: "nodes q n = Some e \<Longrightarrow> set_node q n f = Some (q\<lparr>nodes := (nodes q)(n \<mapsto> f e)\<rparr>)"
  by (simp add: set_node_def)

lemma last0_in: "xs \<noteq> [] \<Longrightarrow> last0 xs \<in> set xs" "xs = [] \<Longrightarrow> last0 xs = 0"
  by simp_all

lemma hd0_in: "xs \<noteq> [] \<Longrightarrow> hd0 xs z \<in> set xs" "xs = [] \<Longrightarrow> hd0 xs z = z"
  by (cases xs; simp)+

lemma level_append: "level pr r (as @ bs) = level pr r as @ level pr r bs"
  by (simp add: level_def)

lemma level_Cons: "level pr r (x # xs) = (if pr x = r then [x] else []) @ level pr r xs"
  by (simp add: level_def)

lemma level_upd: "n \<notin> set xs \<Longrightarrow> level (pr(n := p)) r xs = level pr r xs"
  by (induction xs) (auto simp: level_def)

lemma descending_upd: "n \<notin> set xs \<Longrightarrow> descending (pr(n := p)) xs = descending pr xs"
  by (induction xs) auto

section \<open>Enqueue\<close>

definition enter :: "runqueue \<Rightarrow> nat \<Rightarrow> bool \<Rightarrow> ptr \<Rightarrow> ptr list \<Rightarrow> ptr list" where
  "enter q p ah n xs = upper (prio_of q) ah p xs @ n # lower (prio_of q) ah p xs"

lemma enqueue_run:
  assumes "run_order q xs" "nodes q n = Some e" "\<not> queued e" "owner \<noteq> 0" "p \<le> 99"
    "l = last0 (upper (prio_of q) ah p xs)" "m = hd0 (lower (prio_of q) ah p xs) 0"
  shows "kernel_sched_enqueue q n owner p ah = Some (q\<lparr>
     nodes := seam ((nodes q)(n \<mapsto> e\<lparr>nnext := m, nprev := l, nowner := owner, nprio := p, queued := True\<rparr>)) l m n n,
     first := (if l \<noteq> 0 then first q else n), last_node := (if m \<noteq> 0 then last_node q else n),
     heads := (if heads q p = 0 \<or> ah then (heads q)(p := n) else heads q),
     tails := (if tails q p = 0 \<or> \<not> ah then (tails q)(p := n) else tails q)\<rparr>)"
proof -
  note D = run_orderD [OF assms(1)]
  have n0: "n \<noteq> 0" using assms(2) D(1) by (metis option.distinct(1))
  have nx: "n \<notin> set xs" using D(6) assms(2,3) by blast
  have d: "dl (nodes q) 0 (upper (prio_of q) ah p xs @ lower (prio_of q) ah p xs) 0" using D(2) by (simp add: upper_lower)
  have inx: "x \<in> set xs" if "x \<in> set (upper (prio_of q) ah p xs) \<union> set (lower (prio_of q) ah p xs)" for x
    using that upper_lower [of "prio_of q" ah p xs] by (metis set_append)
  have l: "\<exists>a. nodes q l = Some a" "l \<noteq> n" "l \<in> set (upper (prio_of q) ah p xs)" if "l \<noteq> 0"
  proof -
    have u: "upper (prio_of q) ah p xs \<noteq> []" "l = last (upper (prio_of q) ah p xs)" using that assms(6) by (auto split: if_splits)
    show "\<exists>a. nodes q l = Some a" using dl_ends(2) [OF d u(1)] u(2) by auto
    show "l \<in> set (upper (prio_of q) ah p xs)" using u by simp
    then show "l \<noteq> n" using inx nx by blast
  qed
  have m: "\<exists>a. nodes q m = Some a" "m \<noteq> n" "m \<in> set (lower (prio_of q) ah p xs)" if "m \<noteq> 0"
  proof -
    have u: "lower (prio_of q) ah p xs \<noteq> []" "m = hd (lower (prio_of q) ah p xs)" using that assms(7) by (auto simp: hd0_def split: list.splits)
    show "\<exists>a. nodes q m = Some a" using dl_ends(1) [OF d u(1)] u(2) by auto
    show "m \<in> set (lower (prio_of q) ah p xs)" using u by simp
    then show "m \<noteq> n" using inx nx by blast
  qed
  have lm: "l \<noteq> m" if "l \<noteq> 0" "m \<noteq> 0"
    using l(3) [OF that(1)] m(3) [OF that(2)] D(3) upper_lower [of "prio_of q" ah p xs] by (metis disjoint_iff distinct_append)
  have fp: "find_place q p ah = Some (l, m)" using find_place_spec [OF assms(1,5)] assms(6,7) by simp
  let ?e = "e\<lparr>nnext := m, nprev := l, nowner := owner, nprio := p, queued := True\<rparr>"
  let ?h = "(nodes q)(n \<mapsto> ?e)"
  let ?h1 = "if l \<noteq> 0 then ?h(l \<mapsto> (the (?h l))\<lparr>nnext := n\<rparr>) else ?h"
  define q1 where "q1 = q\<lparr>nodes := ?h\<rparr>"
  define q2 where "q2 = (if l \<noteq> 0 then q1\<lparr>nodes := ?h1\<rparr> else q1\<lparr>first := n\<rparr>)"
  define q3 where "q3 = (if m \<noteq> 0 then q2\<lparr>nodes := seam ?h l m n n\<rparr> else q2\<lparr>last_node := n\<rparr>)"
  have s1: "set_node q n (\<lambda>e. e\<lparr>nnext := m, nprev := l, nowner := owner, nprio := p, queued := True\<rparr>) = Some q1"
    using set_node_some [OF assms(2)] by (simp add: q1_def)
  have s2: "(if l \<noteq> 0 then set_node q1 l (\<lambda>e. e\<lparr>nnext := n\<rparr>) else Some (q1\<lparr>first := n\<rparr>)) = Some q2"
    using l by (auto simp: set_node_def q1_def q2_def)
  have s3: "(if m \<noteq> 0 then set_node q2 m (\<lambda>e. e\<lparr>nprev := n\<rparr>) else Some (q2\<lparr>last_node := n\<rparr>)) = Some q3"
    using l m lm by (auto simp: set_node_def q1_def q2_def q3_def seam_def)
  have f3: "nodes q3 = seam ?h l m n n" "heads q3 = heads q" "tails q3 = tails q"
    "first q3 = (if l \<noteq> 0 then first q else n)" "last_node q3 = (if m \<noteq> 0 then last_node q else n)"
    by (auto simp: q1_def q2_def q3_def seam_def)
  have "kernel_sched_enqueue q n owner p ah =
     (let q4 = (if heads q3 p = 0 \<or> ah then q3\<lparr>heads := (heads q3)(p := n)\<rparr> else q3)
      in Some (if tails q4 p = 0 \<or> \<not> ah then q4\<lparr>tails := (tails q4)(p := n)\<rparr> else q4))"
    unfolding kernel_sched_enqueue_def using n0 assms(2,3,4,5) fp s1 s2 s3 by (simp del: not_gr_zero neq0_conv)
  also have "\<dots> = Some (q\<lparr>nodes := nodes q3, first := first q3, last_node := last_node q3,
     heads := (if heads q p = 0 \<or> ah then (heads q)(p := n) else heads q),
     tails := (if tails q p = 0 \<or> \<not> ah then (tails q)(p := n) else tails q)\<rparr>)"
    using f3(2,3) by (cases q3; cases q; simp add: Let_def)
  finally show ?thesis unfolding f3 .
qed

lemma enqueue_order:
  assumes "run_order q xs" "nodes q n = Some e" "\<not> queued e" "owner \<noteq> 0" "p \<le> 99"
  obtains q' where "kernel_sched_enqueue q n owner p ah = Some q'" "run_order q' (enter q p ah n xs)"
    "prio_of q' = (prio_of q)(n := p)"
proof -
  note D = run_orderD [OF assms(1)]
  let ?pr = "prio_of q" let ?u = "upper ?pr ah p xs" and ?l = "lower ?pr ah p xs"
  define l m where "l = last0 ?u" and "m = hd0 ?l 0"
  define h where "h = (nodes q)(n \<mapsto> e\<lparr>nnext := m, nprev := l, nowner := owner, nprio := p, queued := True\<rparr>)"
  define q' where "q' = q\<lparr>nodes := seam h l m n n,
     first := (if l \<noteq> 0 then first q else n), last_node := (if m \<noteq> 0 then last_node q else n),
     heads := (if heads q p = 0 \<or> ah then (heads q)(p := n) else heads q),
     tails := (if tails q p = 0 \<or> \<not> ah then (tails q)(p := n) else tails q)\<rparr>"
  have run: "kernel_sched_enqueue q n owner p ah = Some q'"
    using enqueue_run [OF assms l_def m_def] by (simp add: q'_def h_def)
  have f: "nodes q' = seam h l m n n" "first q' = (if l \<noteq> 0 then first q else n)" "last_node q' = (if m \<noteq> 0 then last_node q else n)"
    "heads q' = (if heads q p = 0 \<or> ah then (heads q)(p := n) else heads q)"
    "tails q' = (if tails q p = 0 \<or> \<not> ah then (tails q)(p := n) else tails q)" by (simp_all add: q'_def)
  have n0: "n \<noteq> 0" using assms(2) D(1) by (metis option.distinct(1))
  have nx: "n \<notin> set xs" using D(6) assms(2,3) by blast
  have xs: "?u @ ?l = xs" by (rule upper_lower)
  have sx: "set ?u \<union> set ?l = set xs" using xs by (metis set_append)
  have dist: "distinct (?u @ ?l)" using D(3) xs by simp
  have d: "dl (nodes q) 0 ?u m" "dl (nodes q) l ?l 0" using D(2) xs unfolding l_def m_def by (metis dl_append)+
  have hx: "h x = nodes q x" if "x \<in> set xs" for x using that nx by (auto simp: h_def)
  have "dl h 0 ?u m = dl (nodes q) 0 ?u m" "dl h l ?l 0 = dl (nodes q) l ?l 0"
    by (rule dl_cong; use hx sx in blast)+
  then have dh: "dl h 0 ?u m" "dl h l ?l 0" using d by simp_all
  have h0: "h 0 = None" using D(1) n0 by (simp add: h_def)
  have lu: "?u \<noteq> [] \<Longrightarrow> l \<in> set ?u" "?u = [] \<Longrightarrow> l = 0" unfolding l_def by (simp_all add: last0_in)
  have ml: "?l \<noteq> [] \<Longrightarrow> m \<in> set ?l" "?l = [] \<Longrightarrow> m = 0" unfolding m_def by (simp_all add: hd0_in)
  have z: "x \<in> set ?u \<or> x \<in> set ?l \<Longrightarrow> x \<noteq> 0 \<and> x \<noteq> n" for x using run_order_nonzero [OF assms(1)] sx nx by blast
  have l0: "l \<noteq> 0 \<longleftrightarrow> ?u \<noteq> []" "m \<noteq> 0 \<longleftrightarrow> ?l \<noteq> []" using lu ml z by metis+
  have ln: "l \<noteq> n" "m \<noteq> n" using n0 lu ml z by metis+
  have hl: "l \<noteq> 0 \<Longrightarrow> h l \<noteq> None" "m \<noteq> 0 \<Longrightarrow> h m \<noteq> None"
    using dl_dom [OF dh(1)] dl_dom [OF dh(2)] l0 lu(1) ml(1) by blast+
  have pr: "prio_of q' = ?pr(n := p)"
  proof
    fix x
    have "map_option nprio (nodes q' x) = map_option nprio (h x)" unfolding f by (rule seam_prio(1) [OF hl])
    then show "prio_of q' x = (?pr(n := p)) x" by (auto simp: prio_of_def h_def split: option.splits if_splits)
  qed
  have "run_order q' (enter q p ah n xs)"
    unfolding run_order_def
  proof (intro conjI allI impI ballI)
    have hn: "seam h l m n n n = h n" using ln by (auto simp: seam_def)
    have "dl (seam h l m n n) n ?l 0" "dl (seam h l m n n) 0 ?u n"
      using seam_dl [OF dh dist h0 l_def m_def] by blast+
    then show "dl (nodes q') 0 (enter q p ah n xs) 0"
      unfolding f enter_def dl_append using hn by (simp add: h_def l_def m_def)
    show "nodes q' 0 = None" unfolding f using h0 by (simp add: seam_def)
    show "distinct (enter q p ah n xs)" using dist nx sx by (auto simp: enter_def)
    show "first q' = hd0 (enter q p ah n xs) 0"
      unfolding f l0 enter_def hd0_append D(4) using xs by (cases ?u) (auto simp: hd0_def split: list.splits)
    have "last0 (?u @ ?l) = (if ?l = [] then last0 ?u else last ?l)" by (simp add: last_append)
    then have lx: "last0 xs = (if ?l = [] then last0 ?u else last ?l)" unfolding xs .
    show "last_node q' = last0 (enter q p ah n xs)"
      unfolding f l0 enter_def D(5) lx by simp
    show "queued a = (x \<in> set (enter q p ah n xs))" if "nodes q' x = Some a" for x a
    proof -
      have "map_option queued (nodes q' x) = map_option queued (h x)" unfolding f by (rule seam_prio(2) [OF hl])
      then show ?thesis using that D(6) [of x] sx by (cases "nodes q x") (auto simp: h_def enter_def split: if_splits)
    qed
    have "descending ?pr (?u @ ?l)" using D(7) xs by simp
    moreover have "x \<in> set ?u \<Longrightarrow> p \<le> ?pr x" for x using upper_bound [of x ?pr ah p xs] by (auto split: if_splits)
    moreover have "x \<in> set ?l \<Longrightarrow> ?pr x \<le> p" for x using lower_bound [OF D(7), of x ah p] by (auto split: if_splits)
    moreover have nu: "n \<notin> set ?u" "n \<notin> set ?l" using nx sx by auto
    ultimately show "descending (prio_of q') (enter q p ah n xs)"
      unfolding pr enter_def sorted_wrt_append sorted_wrt.simps descending_upd [OF nu(1)] descending_upd [OF nu(2)] by auto
    show "prio_of q' x \<le> 99" if "x \<in> set (enter q p ah n xs)" for x
      using that D(8) sx assms(5) unfolding pr enter_def by auto
    fix r
    have lv: "level (prio_of q') r (enter q p ah n xs) = level ?pr r ?u @ (if r = p then [n] else []) @ level ?pr r ?l"
      unfolding pr enter_def using nu by (simp add: level_append level_Cons level_upd)
    have lx: "level ?pr r xs = level ?pr r ?u @ level ?pr r ?l" using xs by (metis level_append)
    have em: "ah \<Longrightarrow> level ?pr p ?u = []" "\<not> ah \<Longrightarrow> level ?pr p ?l = []" using level_parts [OF D(7)] by auto
    have hp: "heads q p = 0 \<longleftrightarrow> level ?pr p xs = []" "tails q p = 0 \<longleftrightarrow> level ?pr p xs = []" using level_ends [OF assms(1)] by blast+
    show "heads q' r = hd0 (level (prio_of q') r (enter q p ah n xs)) 0"
      unfolding lv f hp using D(9) [of r] lx em by (cases "level ?pr r ?u") auto
    show "tails q' r = last0 (level (prio_of q') r (enter q p ah n xs))"
      unfolding lv f hp using D(10) [of r] lx em by (cases "level ?pr r ?l") (auto simp: last_append)
  qed
  with that run pr show ?thesis by blast
qed

section \<open>Dequeue\<close>

lemma level_next:
  assumes "descending pr (n # bs)"
  shows "hd0 (level pr (pr n) bs) 0 = (if bs \<noteq> [] \<and> pr (hd bs) = pr n then hd bs else 0)"
proof (cases bs)
  case (Cons b cs)
  have "level pr (pr n) cs = []" if "pr b \<noteq> pr n" using that assms Cons by (fastforce simp: level_empty)
  then show ?thesis using Cons by (simp add: level_Cons)
qed (simp add: level_def)

lemma level_prev:
  assumes "descending pr (as @ [n])"
  shows "last0 (level pr (pr n) as) = (if as \<noteq> [] \<and> pr (last as) = pr n then last as else 0)"
proof (cases as rule: rev_cases)
  case (snoc cs b)
  have "level pr (pr n) cs = []" if "pr b \<noteq> pr n" using that assms snoc by (fastforce simp: level_empty sorted_wrt_append)
  then show ?thesis using snoc by (simp add: level_append level_Cons level_def)
qed (simp add: level_def)

lemma neighbour_some:
  assumes "m \<noteq> 0 \<Longrightarrow> nodes q m \<noteq> None"
  shows "neighbour_of q m p = Some (if m \<noteq> 0 \<and> prio_of q m = p then m else 0)"
  using assms by (auto simp: neighbour_of_def prio_of_def)

definition unlinked :: "runqueue \<Rightarrow> ptr \<Rightarrow> sched_node \<Rightarrow> runqueue" where
  "unlinked q n e =
     (let l = nprev e; m = nnext e; p = nprio e
      in q\<lparr>heads := (if heads q p = n then (heads q)(p := if m \<noteq> 0 \<and> prio_of q m = p then m else 0) else heads q),
           tails := (if tails q p = n then (tails q)(p := if l \<noteq> 0 \<and> prio_of q l = p then l else 0) else tails q),
           first := (if l \<noteq> 0 then first q else m), last_node := (if m \<noteq> 0 then last_node q else l),
           nodes := (seam (nodes q) l m l m)(n \<mapsto> e\<lparr>nnext := 0, nprev := 0, queued := False\<rparr>)\<rparr>)"

lemma dequeue_run:
  assumes "nodes q n = Some e" "queued e" "n \<noteq> 0" "nprev e \<noteq> n" "nnext e \<noteq> n" "nprev e \<noteq> 0 \<Longrightarrow> nprev e \<noteq> nnext e"
    "nprev e \<noteq> 0 \<Longrightarrow> nodes q (nprev e) \<noteq> None" "nnext e \<noteq> 0 \<Longrightarrow> nodes q (nnext e) \<noteq> None"
  shows "kernel_sched_dequeue q n = Some (unlinked q n e)"
proof -
  let ?l = "nprev e" and ?m = "nnext e" and ?p = "nprio e"
  let ?H = "if heads q ?p = n then (heads q)(?p := if ?m \<noteq> 0 \<and> prio_of q ?m = ?p then ?m else 0) else heads q"
  let ?T = "if tails q ?p = n then (tails q)(?p := if ?l \<noteq> 0 \<and> prio_of q ?l = ?p then ?l else 0) else tails q"
  let ?h1 = "if ?l \<noteq> 0 then (nodes q)(?l \<mapsto> (the (nodes q ?l))\<lparr>nnext := ?m\<rparr>) else nodes q"
  define q1 where "q1 = q\<lparr>heads := ?H\<rparr>"
  define q2 where "q2 = q1\<lparr>tails := ?T\<rparr>"
  define q3 where "q3 = (if ?l \<noteq> 0 then q2\<lparr>nodes := ?h1\<rparr> else q2\<lparr>first := ?m\<rparr>)"
  define q4 where "q4 = (if ?m \<noteq> 0 then q3\<lparr>nodes := seam (nodes q) ?l ?m ?l ?m\<rparr> else q3\<lparr>last_node := ?l\<rparr>)"
  have nb: "neighbour_of q ?m ?p = Some (if ?m \<noteq> 0 \<and> prio_of q ?m = ?p then ?m else 0)"
    "neighbour_of q1 ?l ?p = Some (if ?l \<noteq> 0 \<and> prio_of q ?l = ?p then ?l else 0)"
    using neighbour_some [OF assms(8)] neighbour_some [of ?l q1 ?p] assms(7) by (simp_all add: q1_def prio_of_def)
  have s1: "(if heads q ?p = n then do { m \<leftarrow> neighbour_of q ?m ?p; Some (q\<lparr>heads := (heads q)(?p := m)\<rparr>) } else Some q) = Some q1"
    by (simp add: nb q1_def)
  have s2: "(if tails q1 ?p = n then do { m \<leftarrow> neighbour_of q1 ?l ?p; Some (q1\<lparr>tails := (tails q1)(?p := m)\<rparr>) } else Some q1) = Some q2"
    unfolding nb by (simp add: q1_def q2_def)
  have s3: "(if ?l \<noteq> 0 then set_node q2 ?l (\<lambda>x. x\<lparr>nnext := ?m\<rparr>) else Some (q2\<lparr>first := ?m\<rparr>)) = Some q3"
    using assms(7) by (auto simp: set_node_def q1_def q2_def q3_def)
  have s4: "(if ?m \<noteq> 0 then set_node q3 ?m (\<lambda>x. x\<lparr>nprev := ?l\<rparr>) else Some (q3\<lparr>last_node := ?l\<rparr>)) = Some q4"
    using assms(6,8) by (auto simp: set_node_def q1_def q2_def q3_def q4_def seam_def)
  have f4: "nodes q4 = seam (nodes q) ?l ?m ?l ?m" by (simp add: q1_def q2_def q3_def q4_def seam_def)
  have "nodes q4 n = Some e" unfolding f4 using assms(1,4,5) by (simp add: seam_def Let_def)
  then have s5: "set_node q4 n (\<lambda>x. x\<lparr>nnext := 0, nprev := 0, queued := False\<rparr>)
      = Some (q4\<lparr>nodes := (nodes q4)(n \<mapsto> e\<lparr>nnext := 0, nprev := 0, queued := False\<rparr>)\<rparr>)" by (rule set_node_some)
  have "kernel_sched_dequeue q n = Some (q4\<lparr>nodes := (nodes q4)(n \<mapsto> e\<lparr>nnext := 0, nprev := 0, queued := False\<rparr>)\<rparr>)"
    unfolding kernel_sched_dequeue_def assms(1) bind.bind_lunit s1 s2 s3 s4 s5 using assms(2,3) by simp
  also have "q4\<lparr>nodes := (nodes q4)(n \<mapsto> e\<lparr>nnext := 0, nprev := 0, queued := False\<rparr>)\<rparr> = unlinked q n e"
    unfolding f4 unlinked_def Let_def q4_def q3_def q2_def q1_def by (cases q) (simp add: seam_def Let_def)
  finally show ?thesis .
qed

lemma dequeue_order:
  assumes "run_order q (as @ n # bs)"
  obtains q' where "kernel_sched_dequeue q n = Some q'" "run_order q' (as @ bs)" "prio_of q' = prio_of q"
proof -
  note D = run_orderD [OF assms]
  let ?pr = "prio_of q"
  obtain e where e: "nodes q n = Some e" "nprev e = last0 as" "nnext e = hd0 bs 0"
    and da: "dl (nodes q) 0 as n" and db: "dl (nodes q) n bs 0"
    using D(2) unfolding dl_append by auto
  define l m where "l = last0 as" and "m = hd0 bs 0"
  have p: "nprio e = ?pr n" using e(1) by (simp add: prio_of_def)
  have dist: "distinct (as @ bs)" and na: "n \<notin> set as" "n \<notin> set bs" using D(3) by auto
  have n0: "n \<noteq> 0" using run_order_nonzero [OF assms] by auto
  have lu: "as \<noteq> [] \<Longrightarrow> l \<in> set as" "as = [] \<Longrightarrow> l = 0" unfolding l_def by (simp_all add: last0_in)
  have mu: "bs \<noteq> [] \<Longrightarrow> m \<in> set bs" "bs = [] \<Longrightarrow> m = 0" unfolding m_def by (simp_all add: hd0_in)
  have z: "x \<in> set as \<or> x \<in> set bs \<Longrightarrow> x \<noteq> 0 \<and> x \<noteq> n" for x using run_order_nonzero [OF assms, of x] na by auto
  have l0: "l \<noteq> 0 \<longleftrightarrow> as \<noteq> []" "m \<noteq> 0 \<longleftrightarrow> bs \<noteq> []" using lu mu z by metis+
  have ln: "l \<noteq> n" "m \<noteq> n" using n0 lu mu z by metis+
  have lm: "l \<noteq> 0 \<Longrightarrow> l \<noteq> m" using l0 lu mu dist by (metis disjoint_iff distinct_append)
  have hl: "l \<noteq> 0 \<Longrightarrow> nodes q l \<noteq> None" "m \<noteq> 0 \<Longrightarrow> nodes q m \<noteq> None"
    using dl_dom [OF da] dl_dom [OF db] l0 lu(1) mu(1) by blast+
  define q' where "q' = unlinked q n e"
  have run: "kernel_sched_dequeue q n = Some q'" unfolding q'_def
    by (rule dequeue_run [OF e(1)]) (use D(6) [OF e(1)] n0 ln lm hl e(2,3) in \<open>simp_all add: l_def m_def\<close>)
  have f: "nodes q' = (seam (nodes q) l m l m)(n \<mapsto> e\<lparr>nnext := 0, nprev := 0, queued := False\<rparr>)"
    "first q' = (if l \<noteq> 0 then first q else m)" "last_node q' = (if m \<noteq> 0 then last_node q else l)"
    "heads q' = (if heads q (?pr n) = n then (heads q)(?pr n := if m \<noteq> 0 \<and> ?pr m = ?pr n then m else 0) else heads q)"
    "tails q' = (if tails q (?pr n) = n then (tails q)(?pr n := if l \<noteq> 0 \<and> ?pr l = ?pr n then l else 0) else tails q)"
    unfolding q'_def unlinked_def Let_def e(2,3) p l_def [symmetric] m_def [symmetric] by simp_all
  have pr: "prio_of q' = ?pr"
  proof
    fix x
    have "map_option nprio (seam (nodes q) l m l m x) = map_option nprio (nodes q x)" by (rule seam_prio(1) [OF hl])
    then have "map_option nprio (nodes q' x) = map_option nprio (nodes q x)" unfolding f using e(1) by simp
    then show "prio_of q' x = ?pr x" by (rule prio_of_cong)
  qed
  have "run_order q' (as @ bs)"
    unfolding run_order_def pr
  proof (intro conjI allI impI ballI)
    have "dl (seam (nodes q) l m l m) 0 as m" "dl (seam (nodes q) l m l m) l bs 0"
      using seam_dl [OF da db dist D(1) l_def m_def] by blast+
    then have "dl (seam (nodes q) l m l m) 0 (as @ bs) 0" unfolding dl_append l_def m_def by simp
    moreover have "dl (nodes q') 0 (as @ bs) 0 = dl (seam (nodes q) l m l m) 0 (as @ bs) 0"
      by (rule dl_cong) (use na f(1) in auto)
    ultimately show "dl (nodes q') 0 (as @ bs) 0" by simp
    show "nodes q' 0 = None" unfolding f using D(1) n0 by (simp add: seam_def Let_def)
    show "distinct (as @ bs)" by (rule dist)
    show "first q' = hd0 (as @ bs) 0" unfolding f l0 D(4) hd0_append m_def by (cases as) simp_all
    show "last_node q' = last0 (as @ bs)" unfolding f l0 D(5) l_def by simp
    show "queued a = (x \<in> set (as @ bs))" if "nodes q' x = Some a" for x a
    proof (cases "x = n")
      case True then show ?thesis using that f(1) na by auto
    next
      case False
      have "map_option queued (seam (nodes q) l m l m x) = map_option queued (nodes q x)" by (rule seam_prio(2) [OF hl])
      then show ?thesis using that False D(6) [of x] f(1) by (cases "nodes q x") auto
    qed
    show "descending ?pr (as @ bs)" using D(7) by (auto simp: sorted_wrt_append)
    show "?pr x \<le> 99" if "x \<in> set (as @ bs)" for x using that D(8) by auto
    fix r
    have d: "descending ?pr (n # bs)" "descending ?pr (as @ [n])" using D(7) by (auto simp: sorted_wrt_append)
    have nx: "hd0 (level ?pr (?pr n) bs) 0 = (if m \<noteq> 0 \<and> ?pr m = ?pr n then m else 0)"
      unfolding level_next [OF d(1)] l0 m_def by (cases bs) simp_all
    have pv: "last0 (level ?pr (?pr n) as) = (if l \<noteq> 0 \<and> ?pr l = ?pr n then l else 0)"
      unfolding level_prev [OF d(2)] l0 l_def by simp
    have la: "n \<notin> set (level ?pr r as)" "n \<notin> set (level ?pr r bs)" for r using na by (auto simp: level_def)
    have lv: "level ?pr r (as @ n # bs) = level ?pr r as @ (if ?pr n = r then [n] else []) @ level ?pr r bs"
      "level ?pr r (as @ bs) = level ?pr r as @ level ?pr r bs" for r by (simp_all add: level_append level_Cons)
    have H: "heads q (?pr n) = n \<longleftrightarrow> level ?pr (?pr n) as = []" unfolding D(9) lv
      using la(1) [of "?pr n"] by (cases "level ?pr (?pr n) as") auto
    have T: "tails q (?pr n) = n \<longleftrightarrow> level ?pr (?pr n) bs = []" unfolding D(10) lv
      using la(2) [of "?pr n"] by (cases "level ?pr (?pr n) bs" rule: rev_cases) auto
    show "heads q' r = hd0 (level ?pr r (as @ bs)) 0"
      unfolding f H nx [symmetric] lv using D(9) [of r] lv(1) [of r] by (cases "level ?pr r as") (auto simp: hd0_append)
    show "tails q' r = last0 (level ?pr r (as @ bs))"
      unfolding f T pv [symmetric] lv using D(10) [of r] lv(1) [of r] by (cases "level ?pr r bs") (auto simp: last_append)
  qed
  with that run pr show ?thesis by blast
qed

section \<open>Pick\<close>

lemma pick_order:
  assumes "run_order q xs"
  shows "kernel_sched_pick q eligible = hd0 (if eligible then xs else level (prio_of q) 0 xs) 0"
  using run_orderD(4,9) [OF assms] by (simp add: kernel_sched_pick_def)

end
