(* ===== verification/Sched_Theorems.thy ===== *)
theory Sched_Theorems
  imports Sched_Policy Runqueue_Steps Word_Bits
begin

text \<open>
  The properties of the scheduler's two pure components: the run queue as a priority-ordered list, the
  policies a task can have, and the real-time throttle.
\<close>

section \<open>The throttle\<close>










section \<open>The properties\<close>

text \<open>C32. The run queue is a list of the queued tasks in descending priority, first come first served within
  a priority (\<open>run_order\<close>), and its operations never trap on such a queue: enqueueing a free node with a
  priority up to 99 puts it behind every task of higher priority and, as asked, before or behind the
  tasks of its own; dequeueing a queued node takes exactly that node out; pick returns the head of
  the whole list, a task no queued task outranks, or the first task of priority 0 when real-time tasks are throttled.\<close>

theorem runqueue_refines_list:
  assumes "run_order q xs"
  shows "(\<forall>n e owner p ah. nodes q n = Some e \<and> \<not> queued e \<and> owner \<noteq> 0 \<and> p \<le> 99 \<longrightarrow>
       (\<exists>q'. kernel_sched_enqueue q n owner p ah = Some q' \<and> prio_of q' = (prio_of q)(n := p) \<and>
          run_order q' (takeWhile (\<lambda>x. if ah then p < prio_of q x else p \<le> prio_of q x) xs @ n #
                        dropWhile (\<lambda>x. if ah then p < prio_of q x else p \<le> prio_of q x) xs))) \<and>
     (\<forall>n\<in>set xs. \<exists>q'. kernel_sched_dequeue q n = Some q' \<and> prio_of q' = prio_of q \<and> run_order q' (remove1 n xs)) \<and>
     (xs \<noteq> [] \<longrightarrow> kernel_sched_pick q True = hd xs \<and> (\<forall>x\<in>set xs. prio_of q x \<le> prio_of q (kernel_sched_pick q True))) \<and>
     kernel_sched_pick q False = (case filter (\<lambda>x. prio_of q x = 0) xs of [] \<Rightarrow> 0 | x # _ \<Rightarrow> x)"
proof (intro conjI allI ballI impI; (elim conjE)?)
  fix n e ah and owner p :: nat
  assume "nodes q n = Some e" "\<not> queued e" "owner \<noteq> 0" "p \<le> 99"
  then obtain q' where "kernel_sched_enqueue q n owner p ah = Some q'" "run_order q' (enter q p ah n xs)"
    "prio_of q' = (prio_of q)(n := p)" by (rule enqueue_order [OF assms])
  then show "\<exists>q'. kernel_sched_enqueue q n owner p ah = Some q' \<and> prio_of q' = (prio_of q)(n := p) \<and>
          run_order q' (takeWhile (\<lambda>x. if ah then p < prio_of q x else p \<le> prio_of q x) xs @ n #
                        dropWhile (\<lambda>x. if ah then p < prio_of q x else p \<le> prio_of q x) xs)"
    unfolding enter_def upper_def lower_def by blast
next
  fix n assume "n \<in> set xs"
  then obtain as bs where xs: "xs = as @ n # bs" "n \<notin> set as" using split_list_first by metis
  obtain q' where "kernel_sched_dequeue q n = Some q'" "run_order q' (as @ bs)" "prio_of q' = prio_of q"
    by (rule dequeue_order [OF assms [unfolded xs(1)]])
  then show "\<exists>q'. kernel_sched_dequeue q n = Some q' \<and> prio_of q' = prio_of q \<and> run_order q' (remove1 n xs)"
    using xs by (simp add: remove1_append)
next
  assume ne: "xs \<noteq> []"
  then show "kernel_sched_pick q True = hd xs" using pick_order [OF assms, of True] by (cases xs) simp_all
  then show "prio_of q x \<le> prio_of q (kernel_sched_pick q True)" if "x \<in> set xs" for x
    using that ne run_orderD(7) [OF assms] by (cases xs) auto
next
  show "kernel_sched_pick q False = (case filter (\<lambda>x. prio_of q x = 0) xs of [] \<Rightarrow> 0 | x # _ \<Rightarrow> x)"
    using pick_order [OF assms, of False] by (simp add: hd0_def level_def)
qed

definition idle_node :: sched_node where
  "idle_node = \<lparr>nnext = 0, nprev = 0, nowner = 0, nprio = 0, queued = False\<rparr>"

definition ready_node :: sched_node where
  "ready_node = \<lparr>nnext = 0, nprev = 0, nowner = 7, nprio = 5, queued = True\<rparr>"

definition one_task_queue :: runqueue where
  "one_task_queue = \<lparr>first = 1, last_node = 1, heads = (\<lambda>_. 0)(5 := 1), tails = (\<lambda>_. 0)(5 := 1),
     nodes = [1 \<mapsto> ready_node, 2 \<mapsto> idle_node]\<rparr>"

lemma one_task_order: "run_order one_task_queue [1]"
  by (auto simp: run_order_def one_task_queue_def ready_node_def idle_node_def prio_of_def level_def split: if_splits)

theorem runqueue_refines_list_witness:
  "(\<exists>q'. kernel_sched_enqueue one_task_queue 2 8 9 False = Some q' \<and> run_order q' [2, 1]) \<and>
   (\<exists>q'. kernel_sched_dequeue one_task_queue 1 = Some q' \<and> run_order q' []) \<and> kernel_sched_pick one_task_queue True = 1"
proof -
  note t = runqueue_refines_list [OF one_task_order]
  have p: "prio_of one_task_queue 1 = 5" by (simp add: prio_of_def one_task_queue_def ready_node_def)
  have n: "nodes one_task_queue 2 = Some idle_node" "\<not> queued idle_node" by (simp_all add: one_task_queue_def idle_node_def)
  have "\<exists>q'. kernel_sched_enqueue one_task_queue 2 8 9 False = Some q' \<and> run_order q' [2, 1]"
    using t [THEN conjunct1, rule_format, of 2 idle_node 8 9 False] n p by auto
  moreover have "\<exists>q'. kernel_sched_dequeue one_task_queue 1 = Some q' \<and> run_order q' []"
    using t [THEN conjunct2, THEN conjunct1, rule_format, of 1] by auto
  moreover have "kernel_sched_pick one_task_queue True = 1" using t by simp
  ultimately show ?thesis by blast
qed

text \<open>C40. A task's scheduling parameters are always one of the three policies with a priority of 0 exactly for
  the time-sharing one and 1 to 99 otherwise: setting, forking, charging and rotating keep this. A
  setting that is refused leaves the task as it was, and a round-robin task expires exactly when
  its charges reach its remaining slice, until a rotation renews it.\<close>

theorem policies_well_formed:
  assumes "policy_ok s"
  shows "policy_ok (snd (kernel_sched_policy_set s p prio keep)) \<and>
     (fst (kernel_sched_policy_set s p prio keep) \<noteq> 0 \<longrightarrow> snd (kernel_sched_policy_set s p prio keep) = s) \<and>
     (fst (kernel_sched_policy_set s p prio keep) = 0 \<longleftrightarrow>
        (let q = if keep then policy s else p AND NOT SCHED_RESET_ON_FORK
         in q = SCHED_OTHER \<and> prio = 0 \<or> q \<in> {SCHED_FIFO, SCHED_RR} \<and> 1 \<le> prio \<and> prio \<le> 99)) \<and>
     policy_ok (kernel_sched_policy_fork s) \<and> policy_ok (kernel_sched_policy_charge s dt) \<and> policy_ok (kernel_sched_policy_rotate s) \<and>
     (kernel_sched_policy_expired (kernel_sched_policy_charge s dt) \<longleftrightarrow> policy s = SCHED_RR \<and> rr_remaining_ns s \<le> dt) \<and>
     \<not> kernel_sched_policy_expired (kernel_sched_policy_rotate s)"
proof (intro conjI)
  define q where "q = (if keep then policy s else p AND NOT SCHED_RESET_ON_FORK)"
  note set = kernel_sched_policy_set_def [of s p prio keep, unfolded Let_def, folded q_def]
  show "policy_ok (snd (kernel_sched_policy_set s p prio keep))"
    unfolding set using assms by (auto simp: policy_ok_def)
  show "fst (kernel_sched_policy_set s p prio keep) \<noteq> 0 \<longrightarrow> snd (kernel_sched_policy_set s p prio keep) = s"
    by (simp add: kernel_sched_policy_set_def Let_def)
  show "fst (kernel_sched_policy_set s p prio keep) = 0 \<longleftrightarrow>
        (let q = if keep then policy s else p AND NOT SCHED_RESET_ON_FORK
         in q = SCHED_OTHER \<and> prio = 0 \<or> q \<in> {SCHED_FIFO, SCHED_RR} \<and> 1 \<le> prio \<and> prio \<le> 99)"
    unfolding Let_def q_def [symmetric] set by auto
  show "policy_ok (kernel_sched_policy_fork s)" "policy_ok (kernel_sched_policy_charge s dt)" "policy_ok (kernel_sched_policy_rotate s)"
    using assms by (auto simp: policy_ok_def kernel_sched_policy_fork_def kernel_sched_policy_charge_def kernel_sched_policy_rotate_def Let_def)
  show "kernel_sched_policy_expired (kernel_sched_policy_charge s dt) \<longleftrightarrow> policy s = SCHED_RR \<and> rr_remaining_ns s \<le> dt"
    by (auto simp: kernel_sched_policy_expired_def kernel_sched_policy_charge_def)
  show "\<not> kernel_sched_policy_expired (kernel_sched_policy_rotate s)"
    by (simp add: kernel_sched_policy_expired_def kernel_sched_policy_rotate_def)
qed

theorem policies_well_formed_witness:
  "policy_ok (snd (kernel_sched_policy_set \<lparr>policy = 0, priority = 0, reset_on_fork = 0, rr_remaining_ns = 0\<rparr> 2 7 False))"
  by (rule policies_well_formed [THEN conjunct1]) (simp add: policy_ok_def)




end
