(* ===== verification/Boot_Memory.thy ===== *)
theory Boot_Memory
  imports Kernel_Prelude
begin

text \<open>
  The boot memory map of \<^verbatim>\<open>src/kernel/boot_memory.c\<close>: the firmware's reserved ranges, the kernel image and
  the device tree are clipped to the memory bank, sorted, merged, and the gaps become the usable
  ranges. Arrays are lists with the capacity of the C array: a store beyond it is \<open>None\<close>.
\<close>

datatype boot_status = BOOT_OK | BOOT_INVALID | BOOT_EMPTY

record mrange =
  rbase :: u64
  rsize :: u64

record boot_info =
  imemory :: mrange
  idtb_size :: u32
  ireserved_count :: nat
  ireserved :: "nat \<Rightarrow> mrange"

record boot_layout =
  lreserved :: "mrange list"
  lusable :: "mrange list"

abbreviation (input) DTB_MAX_RESERVED_RANGES :: nat where "DTB_MAX_RESERVED_RANGES \<equiv> 16"
abbreviation (input) BOOT_MEMORY_MAX_RESERVED_RANGES :: nat where "BOOT_MEMORY_MAX_RESERVED_RANGES \<equiv> 18"
abbreviation (input) BOOT_MEMORY_MAX_USABLE_RANGES :: nat where "BOOT_MEMORY_MAX_USABLE_RANGES \<equiv> 19"

definition put_range :: "nat \<Rightarrow> mrange list \<Rightarrow> mrange \<Rightarrow> mrange list option" where
  "put_range cap xs r = (if length xs < cap then Some (xs @ [r]) else None)"

definition range_end :: "u64 \<Rightarrow> u64 \<Rightarrow> u64 option" where
  "range_end b s = (if - 1 - b < s then None else Some (b + s))"

primrec insert_down :: "mrange list \<Rightarrow> mrange \<Rightarrow> nat \<Rightarrow> mrange list" where
  "insert_down xs cur 0 = xs[0 := cur]"
| "insert_down xs cur (Suc p) =
     (if rbase cur < rbase (xs ! p) then insert_down (xs[Suc p := xs ! p]) cur p else xs[Suc p := cur])"

definition sort_ranges :: "mrange list \<Rightarrow> mrange list" where
  "sort_ranges xs = fold (\<lambda>i ys. insert_down ys (ys ! i) i) [1..<length xs] xs"

definition append_clipped_range ::
  "mrange list \<Rightarrow> u64 \<Rightarrow> u64 \<Rightarrow> u64 \<Rightarrow> u64 \<Rightarrow> (boot_status \<times> mrange list) option" where
  "append_clipped_range xs memory_base memory_end b s =
     (if s = 0 then Some (BOOT_OK, xs)
      else case range_end b s of
        None \<Rightarrow> Some (BOOT_INVALID, xs)
      | Some e \<Rightarrow>
          if e \<le> memory_base \<or> memory_end \<le> b then Some (BOOT_OK, xs)
          else
            let b' = (if b < memory_base then memory_base else b);
                e' = (if memory_end < e then memory_end else e)
            in do { ys \<leftarrow> put_range BOOT_MEMORY_MAX_RESERVED_RANGES xs \<lparr>rbase = b', rsize = e' - b'\<rparr>; Some (BOOT_OK, ys) })"

text \<open>The calls in a row, the first status that is not OK ends the run.\<close>

primrec append_all :: "u64 \<Rightarrow> u64 \<Rightarrow> mrange list \<Rightarrow> mrange list \<Rightarrow> (boot_status \<times> mrange list) option" where
  "append_all mb me xs [] = Some (BOOT_OK, xs)"
| "append_all mb me xs (r # rs) = do {
     (status, ys) \<leftarrow> append_clipped_range xs mb me (rbase r) (rsize r);
     if status \<noteq> BOOT_OK then Some (status, ys) else append_all mb me ys rs
   }"

definition merge_range :: "mrange list \<Rightarrow> mrange \<Rightarrow> mrange list option" where
  "merge_range acc c =
     (if acc = [] then Some [c]
      else
        let previous = last acc;
            previous_end = rbase previous + rsize previous;
            current_end = rbase c + rsize c
        in if rbase c \<le> previous_end then
             Some (if previous_end < current_end then butlast acc @ [previous\<lparr>rsize := current_end - rbase previous\<rparr>] else acc)
           else put_range BOOT_MEMORY_MAX_RESERVED_RANGES acc c)"

primrec merge_reserved :: "mrange list \<Rightarrow> mrange list \<Rightarrow> mrange list option" where
  "merge_reserved acc [] = Some acc"
| "merge_reserved acc (c # cs) = do { acc' \<leftarrow> merge_range acc c; merge_reserved acc' cs }"

primrec carve_loop :: "u64 \<Rightarrow> mrange list \<Rightarrow> mrange list \<Rightarrow> (u64 \<times> mrange list) option" where
  "carve_loop cursor us [] = Some (cursor, us)"
| "carve_loop cursor us (r # rs) = do {
     us' \<leftarrow> (if cursor < rbase r then put_range BOOT_MEMORY_MAX_USABLE_RANGES us \<lparr>rbase = cursor, rsize = rbase r - cursor\<rparr> else Some us);
     carve_loop (rbase r + rsize r) us' rs
   }"

definition boot_memory_build ::
  "boot_info option \<Rightarrow> u64 \<Rightarrow> u64 \<Rightarrow> u64 \<Rightarrow> boot_layout option \<Rightarrow> (boot_status \<times> boot_layout option) option" where
  "boot_memory_build info kernel_start kernel_end dtb_address layout =
     (case (info, layout) of
        (Some i, Some _) \<Rightarrow>
          (if rsize (imemory i) = 0 \<or> DTB_MAX_RESERVED_RANGES < ireserved_count i then Some (BOOT_INVALID, layout)
           else case range_end (rbase (imemory i)) (rsize (imemory i)) of
             None \<Rightarrow> Some (BOOT_INVALID, layout)
           | Some memory_end \<Rightarrow>
               if kernel_end \<le> kernel_start \<or> kernel_start < rbase (imemory i) \<or> memory_end < kernel_end \<or> idtb_size i = 0
               then Some (BOOT_INVALID, layout)
               else case range_end dtb_address (ucast (idtb_size i)) of
                 None \<Rightarrow> Some (BOOT_INVALID, layout)
               | Some dtb_end \<Rightarrow> do {
                   (status, candidates) \<leftarrow> append_all (rbase (imemory i)) memory_end []
                     (map (ireserved i) [0..<ireserved_count i] @
                      [\<lparr>rbase = kernel_start, rsize = kernel_end - kernel_start\<rparr>, \<lparr>rbase = dtb_address, rsize = dtb_end - dtb_address\<rparr>]);
                   if status \<noteq> BOOT_OK then Some (status, layout)
                   else do {
                     reserved \<leftarrow> merge_reserved [] (sort_ranges candidates);
                     (cursor, us) \<leftarrow> carve_loop (rbase (imemory i)) [] reserved;
                     usable \<leftarrow> (if cursor < memory_end then put_range BOOT_MEMORY_MAX_USABLE_RANGES us \<lparr>rbase = cursor, rsize = memory_end - cursor\<rparr>
                                else Some us);
                     if usable = [] then Some (BOOT_EMPTY, layout)
                     else Some (BOOT_OK, Some \<lparr>lreserved = reserved, lusable = usable\<rparr>)
                   }
                 })
      | _ \<Rightarrow> Some (BOOT_INVALID, layout))"

end
