(* ===== verification/Boot_Memory_Cover.thy ===== *)
theory Boot_Memory_Cover
  imports Boot_Memory Word_Bits "HOL-Library.Multiset"
begin

text \<open>
  What the steps of the boot memory map do to the addresses covered: clipping, sorting, merging and
  carving, each as an exact statement over the half-open intervals \<open>[lo, hi)\<close>.
\<close>

definition lo :: "mrange \<Rightarrow> nat" where "lo r = unat (rbase r)"
definition hi :: "mrange \<Rightarrow> nat" where "hi r = unat (rbase r) + unat (rsize r)"

definition cover :: "mrange list \<Rightarrow> nat set" where
  "cover rs = (\<Union>r\<in>set rs. {lo r..<hi r})"

definition proper :: "nat \<Rightarrow> nat \<Rightarrow> mrange \<Rightarrow> bool" where
  "proper a b r \<longleftrightarrow> a \<le> lo r \<and> lo r < hi r \<and> hi r \<le> b"

abbreviation apart :: "mrange list \<Rightarrow> bool" where
  "apart \<equiv> sorted_wrt (\<lambda>r s. hi r < lo s)"

lemma cover_simps [simp]: "cover [] = {}" "cover (r # rs) = {lo r..<hi r} \<union> cover rs" "cover (rs @ ss) = cover rs \<union> cover ss"
  by (auto simp: cover_def)

lemma end_word: "hi r < 2 ^ 64 \<Longrightarrow> unat (rbase r + rsize r) = hi r"
  by (simp add: hi_def unat_word_ariths)

lemma range_end_some:
  "range_end b s = Some e \<longleftrightarrow> unat b + unat s < 2 ^ 64 \<and> e = b + s"
proof -
  have b: "unat b < 2 ^ 64" using unsigned_less [of b] by simp
  have "- 1 - b < s \<longleftrightarrow> \<not> unat b + unat s < 2 ^ 64" using b by (simp add: word_less_nat_alt unat_max_minus) linarith
  then show ?thesis by (auto simp: range_end_def)
qed

lemma range_end_unat: "range_end b s = Some e \<Longrightarrow> unat e = unat b + unat s"
  by (auto simp: range_end_some unat_word_ariths)

section \<open>Clipping\<close>

lemma append_clipped_ok:
  assumes "append_clipped_range xs mb me b s = Some (BOOT_OK, ys)" "mb < me" "\<forall>r\<in>set xs. proper (unat mb) (unat me) r"
  shows "cover ys = cover xs \<union> {unat b..<unat b + unat s} \<inter> {unat mb..<unat me}"
    "\<forall>r\<in>set ys. proper (unat mb) (unat me) r" "length ys \<le> Suc (length xs)" "unat b + unat s < 2 ^ 64"
proof -
  have "cover ys = cover xs \<union> {unat b..<unat b + unat s} \<inter> {unat mb..<unat me} \<and>
    (\<forall>r\<in>set ys. proper (unat mb) (unat me) r) \<and> length ys \<le> Suc (length xs) \<and> unat b + unat s < 2 ^ 64"
  proof (cases "s = 0")
    case True
    have "unat b < 2 ^ 64" using unsigned_less [of b] by simp
    then show ?thesis using True assms by (simp add: append_clipped_range_def)
  next
    case False
    then obtain e where e: "range_end b s = Some e" using assms(1) by (auto simp: append_clipped_range_def split: option.splits)
    note ue = range_end_unat [OF e]
    have sm: "unat b + unat s < 2 ^ 64" using e by (simp add: range_end_some)
    show ?thesis
    proof (cases "e \<le> mb \<or> me \<le> b")
      case True
      then have "ys = xs" using assms(1) False e by (simp add: append_clipped_range_def)
      then show ?thesis using True assms(3) sm ue by (auto simp: word_le_nat_alt)
    next
      case in_bank: False
      define b' e' where "b' = (if b < mb then mb else b)" and "e' = (if me < e then me else e)"
      have ys: "ys = xs @ [\<lparr>rbase = b', rsize = e' - b'\<rparr>]"
        using assms(1) False e in_bank by (auto simp: append_clipped_range_def b'_def e'_def Let_def put_range_def split: if_splits)
      have s0: "0 < unat s" using False by (simp add: unat_gt_0)
      have lt: "unat b' < unat e'" "unat mb \<le> unat b'" "unat e' \<le> unat me" "unat b' = max (unat b) (unat mb)" "unat e' = min (unat b + unat s) (unat me)"
        using in_bank assms(2) ue s0 unfolding b'_def e'_def by (auto simp: word_le_nat_alt word_less_nat_alt max_def min_def)
      have "unat (e' - b') = unat e' - unat b'" using lt(1) by (simp add: unat_sub word_le_nat_alt)
      then have r: "lo \<lparr>rbase = b', rsize = e' - b'\<rparr> = unat b'" "hi \<lparr>rbase = b', rsize = e' - b'\<rparr> = unat e'"
        using lt(1) by (simp_all add: lo_def hi_def)
      show ?thesis unfolding ys using assms(3) lt sm r by (auto simp: proper_def)
    qed
  qed
  then show "cover ys = cover xs \<union> {unat b..<unat b + unat s} \<inter> {unat mb..<unat me}"
    "\<forall>r\<in>set ys. proper (unat mb) (unat me) r" "length ys \<le> Suc (length xs)" "unat b + unat s < 2 ^ 64" by blast+
qed

lemma append_clipped_total:
  assumes "length xs < 18"
  shows "(\<exists>ys. append_clipped_range xs mb me b s = Some (BOOT_OK, ys)) \<and> unat b + unat s < 2 ^ 64
    \<or> append_clipped_range xs mb me b s = Some (BOOT_INVALID, xs) \<and> \<not> unat b + unat s < 2 ^ 64"
proof (cases "range_end b s")
  case None
  then have "\<not> unat b + unat s < 2 ^ 64" using range_end_some by (metis option.distinct(1))
  moreover have "s \<noteq> 0" using calculation unsigned_less [of b] by auto
  ultimately show ?thesis using None by (simp add: append_clipped_range_def)
next
  case (Some e)
  have "\<exists>ys. append_clipped_range xs mb me b s = Some (BOOT_OK, ys)"
    unfolding append_clipped_range_def Some using assms by (simp add: put_range_def Let_def)
  moreover have "unat b + unat s < 2 ^ 64" using Some by (simp add: range_end_some)
  ultimately show ?thesis by blast
qed

text \<open>A run of clipped appends: it fits the array, ends in INVALID exactly on a range that wraps, and covers
  what the ranges cover inside the bank.\<close>

lemma append_all_spec:
  assumes "mb < me" "\<forall>r\<in>set xs. proper (unat mb) (unat me) r" "length xs + length rs \<le> 18"
  shows "if \<forall>r\<in>set rs. hi r < 2 ^ 64
    then \<exists>ys. append_all mb me xs rs = Some (BOOT_OK, ys) \<and> cover ys = cover xs \<union> cover rs \<inter> {unat mb..<unat me} \<and>
      (\<forall>r\<in>set ys. proper (unat mb) (unat me) r) \<and> length ys \<le> length xs + length rs
    else \<exists>ys. append_all mb me xs rs = Some (BOOT_INVALID, ys)"
  using assms(2,3)
proof (induction rs arbitrary: xs)
  case (Cons r rs)
  have "length xs < 18" using Cons.prems(2) by simp
  note tot = append_clipped_total [OF this, of mb me "rbase r" "rsize r"]
  show ?case
  proof (cases "hi r < 2 ^ 64")
    case True
    then obtain ys where ys: "append_clipped_range xs mb me (rbase r) (rsize r) = Some (BOOT_OK, ys)"
      using tot by (auto simp: hi_def)
    note ok = append_clipped_ok [OF ys assms(1) Cons.prems(1)]
    have "length ys + length rs \<le> 18" using ok(3) Cons.prems(2) by simp
    note ih = Cons.IH [OF ok(2) this]
    have c: "cover ys = cover xs \<union> {lo r..<hi r} \<inter> {unat mb..<unat me}" using ok(1) by (simp add: lo_def hi_def)
    show ?thesis
    proof (cases "\<forall>r\<in>set rs. hi r < 2 ^ 64")
      case all: True
      then obtain zs where zs: "append_all mb me ys rs = Some (BOOT_OK, zs)" "cover zs = cover ys \<union> cover rs \<inter> {unat mb..<unat me}"
        "\<forall>r\<in>set zs. proper (unat mb) (unat me) r" "length zs \<le> length ys + length rs" using ih by auto
      have "append_all mb me xs (r # rs) = Some (BOOT_OK, zs)" using ys zs(1) by simp
      moreover have "cover zs = cover xs \<union> cover (r # rs) \<inter> {unat mb..<unat me}" unfolding zs(2) c by auto
      moreover have "length zs \<le> length xs + length (r # rs)" using zs(4) ok(3) by simp
      ultimately show ?thesis using True all zs(3) by auto
    next
      case False
      then obtain zs where "append_all mb me ys rs = Some (BOOT_INVALID, zs)" using ih unfolding if_not_P [OF False] by (elim exE)
      then have "append_all mb me xs (r # rs) = Some (BOOT_INVALID, zs)" using ys by simp
      then show ?thesis using False by auto
    qed
  next
    case False
    then have "append_clipped_range xs mb me (rbase r) (rsize r) = Some (BOOT_INVALID, xs)" using tot by (auto simp: hi_def)
    then show ?thesis using False by auto
  qed
qed auto

section \<open>Sorting\<close>

abbreviation ascending :: "mrange list \<Rightarrow> bool" where
  "ascending \<equiv> sorted_wrt (\<lambda>r s. lo r \<le> lo s)"

lemma insert_down_spec:
  assumes "p < length xs"
  shows "length (insert_down xs cur p) = length xs \<and> drop (Suc p) (insert_down xs cur p) = drop (Suc p) xs \<and>
     mset (take (Suc p) (insert_down xs cur p)) = add_mset cur (mset (take p xs)) \<and>
     (ascending (take p xs) \<longrightarrow> ascending (take (Suc p) (insert_down xs cur p)))"
  using assms
proof (induction p arbitrary: xs)
  case 0
  then show ?case by (cases xs) auto
next
  case (Suc p)
  have tk: "take (Suc p) xs = take p xs @ [xs ! p]" using Suc.prems by (simp add: take_Suc_conv_app_nth)
  show ?case
  proof (cases "rbase cur < rbase (xs ! p)")
    case False
    have "take (Suc (Suc p)) (xs[Suc p := cur]) = take (Suc p) xs @ [cur]"
      using Suc.prems by (simp add: take_Suc_conv_app_nth [of "Suc p"])
    moreover have "lo (xs ! p) \<le> lo cur" using False by (simp add: lo_def word_less_nat_alt)
    ultimately show ?thesis using False Suc.prems unfolding insert_down.simps tk by (auto simp: sorted_wrt_append)
  next
    case True
    define ys where "ys = xs[Suc p := xs ! p]"
    have ly: "p < length ys" "length ys = length xs" using Suc.prems by (simp_all add: ys_def)
    let ?res = "insert_down ys cur p"
    note ih = Suc.IH [OF ly(1)]
    have ty: "take p ys = take p xs" by (simp add: ys_def)
    have dy: "drop (Suc p) ?res = xs ! p # drop (Suc (Suc p)) xs"
    proof -
      have "drop (Suc p) ys = xs ! p # drop (Suc (Suc p)) xs"
        using Suc.prems by (simp add: ys_def Cons_nth_drop_Suc [symmetric])
      then show ?thesis using ih by simp
    qed
    have lr: "length ?res = length xs" using ih ly by simp
    have t2: "take (Suc (Suc p)) ?res = take (Suc p) ?res @ [xs ! p]"
    proof -
      have "?res ! Suc p = xs ! p" using dy lr Suc.prems by (metis hd_drop_conv_nth list.sel(1))
      then show ?thesis using lr Suc.prems by (simp add: take_Suc_conv_app_nth)
    qed
    have d2: "drop (Suc (Suc p)) ?res = drop (Suc (Suc p)) xs"
      using dy by (metis drop_Suc list.sel(3) tl_drop)
    have m: "mset (take (Suc p) ?res) = add_mset cur (mset (take p xs))" using ih ty by simp
    then have sr: "set (take (Suc p) ?res) = insert cur (set (take p xs))"
      by (metis set_mset_add_mset_insert set_mset_mset)
    have "ascending (take (Suc (Suc p)) ?res)" if "ascending (take (Suc p) xs)"
    proof -
      have a: "ascending (take p xs)" "\<forall>x\<in>set (take p xs). lo x \<le> lo (xs ! p)" using that unfolding tk by (auto simp: sorted_wrt_append)
      have "lo cur \<le> lo (xs ! p)" using True by (simp add: lo_def word_less_nat_alt)
      then show ?thesis unfolding t2 using ih a ty sr by (simp add: sorted_wrt_append)
    qed
    moreover have "insert_down xs cur (Suc p) = ?res" using True by (simp add: ys_def)
    ultimately show ?thesis using m t2 d2 lr tk by simp
  qed
qed

lemma sort_prefix:
  assumes "1 \<le> n" "n \<le> length xs"
  defines "ys \<equiv> fold (\<lambda>i ys. insert_down ys (ys ! i) i) [1..<n] xs"
  shows "length ys = length xs \<and> mset ys = mset xs \<and> ascending (take n ys)"
  using assms(1,2) unfolding ys_def
proof (induction n rule: nat_induct_at_least)
  case base
  then show ?case by (cases xs) auto
next
  case (Suc n)
  define ys where "ys = fold (\<lambda>i ys. insert_down ys (ys ! i) i) [1..<n] xs"
  have ih: "length ys = length xs" "mset ys = mset xs" "ascending (take n ys)" using Suc by (simp_all add: ys_def)
  have n: "n < length ys" using Suc.prems ih(1) by simp
  note sp = insert_down_spec [OF n, of "ys ! n"]
  let ?zs = "insert_down ys (ys ! n) n"
  have "mset ?zs = mset (take (Suc n) ?zs) + mset (drop (Suc n) ?zs)" by (metis append_take_drop_id mset_append)
  also have "\<dots> = add_mset (ys ! n) (mset (take n ys)) + mset (drop (Suc n) ys)" using sp by simp
  also have "\<dots> = mset (take n ys @ ys ! n # drop (Suc n) ys)" by simp
  also have "take n ys @ ys ! n # drop (Suc n) ys = ys" using n by (simp add: id_take_nth_drop [symmetric])
  finally have "mset ?zs = mset xs" using ih(2) by simp
  moreover have "fold (\<lambda>i ys. insert_down ys (ys ! i) i) [1..<Suc n] xs = ?zs"
    using Suc.hyps by (simp add: ys_def)
  ultimately show ?case using sp ih by simp
qed

lemma sort_ranges_spec: "mset (sort_ranges xs) = mset xs \<and> ascending (sort_ranges xs)"
proof (cases "xs = []")
  case False
  then have "1 \<le> length xs" by (simp add: Suc_le_eq)
  note sp = sort_prefix [OF this order_refl, folded sort_ranges_def]
  then have t: "take (length xs) (sort_ranges xs) = sort_ranges xs" by simp
  show ?thesis using sp unfolding t by blast
qed (simp add: sort_ranges_def)

section \<open>Merging\<close>

lemma hi_inside: "proper a b r \<Longrightarrow> b < 2 ^ 64 \<Longrightarrow> unat (rbase r + rsize r) = hi r"
  by (rule end_word) (simp add: proper_def)

lemma merge_range_spec:
  assumes "b < 2 ^ 64" "\<forall>r\<in>set acc. proper a b r" "proper a b c" "apart acc" "\<forall>r\<in>set acc. lo r \<le> lo c" "length acc < 18"
  obtains acc' where "merge_range acc c = Some acc'" "\<forall>r\<in>set acc'. proper a b r" "apart acc'" "\<forall>r\<in>set acc'. lo r \<le> lo c"
    "cover acc' = cover acc \<union> {lo c..<hi c}" "length acc' \<le> Suc (length acc)"
proof (cases acc rule: rev_cases)
  case Nil
  then show ?thesis using assms(3) by (intro that [of "[c]"]) (simp_all add: merge_range_def)
next
  case (snoc as p)
  have pp: "proper a b p" "lo p \<le> lo c" "lo p < hi p" "lo c < hi c" "\<forall>r\<in>set as. hi r < lo p" "apart as" "\<forall>r\<in>set as. lo r \<le> lo c" "\<forall>r\<in>set as. proper a b r"
    using assms snoc by (auto simp: proper_def sorted_wrt_append)
  have e: "unat (rbase p + rsize p) = hi p" "unat (rbase c + rsize c) = hi c" using hi_inside [OF _ assms(1)] pp(1) assms(3) by auto
  let ?p' = "p\<lparr>rsize := rbase c + rsize c - rbase p\<rparr>"
  show ?thesis
  proof (cases "lo c \<le> hi p")
    case touch: True
    then have t: "rbase c \<le> rbase p + rsize p" using e(1) by (simp add: lo_def word_le_nat_alt)
    show ?thesis
    proof (cases "hi p < hi c")
      case True
      then have w: "rbase p + rsize p < rbase c + rsize c" using e by (simp add: word_less_nat_alt)
      have "rbase p \<le> rbase c + rsize c" using pp(2,4) e(2) by (simp add: lo_def word_le_nat_alt)
      then have "unat (rbase c + rsize c - rbase p) = hi c - lo p" unfolding lo_def e(2) [symmetric] by (rule unat_sub)
      then have p': "lo ?p' = lo p" "hi ?p' = hi c" using pp(2,4) by (simp_all add: lo_def hi_def)
      have "proper a b ?p'" unfolding proper_def p' using pp assms(3) by (auto simp: proper_def)
      moreover have "merge_range acc c = Some (as @ [?p'])" unfolding snoc merge_range_def using t w by simp
      moreover have "cover (as @ [?p']) = cover acc \<union> {lo c..<hi c}" unfolding snoc using p' touch pp(2,3,4) True by auto
      moreover have "apart (as @ [?p'])" using pp(5,6) p' by (simp add: sorted_wrt_append)
      ultimately show ?thesis using pp p' snoc by (intro that [of "as @ [?p']"]) auto
    next
      case False
      then have w: "\<not> rbase p + rsize p < rbase c + rsize c" using e by (simp add: word_less_nat_alt)
      have "merge_range acc c = Some acc" unfolding snoc merge_range_def using t w by simp
      moreover have "cover acc = cover acc \<union> {lo c..<hi c}" unfolding snoc using touch pp(2,3,4) False by auto
      ultimately show ?thesis using assms by (intro that [of acc]) auto
    qed
  next
    case False
    then have t: "\<not> rbase c \<le> rbase p + rsize p" using e(1) by (simp add: lo_def word_le_nat_alt)
    have "merge_range acc c = Some (acc @ [c])" unfolding merge_range_def using t snoc assms(6) by (simp add: put_range_def)
    moreover have "apart (acc @ [c])" using assms(4) pp(3,5) False snoc by (auto simp: sorted_wrt_append)
    ultimately show ?thesis using assms by (intro that [of "acc @ [c]"]) auto
  qed
qed

lemma merge_reserved_spec:
  assumes "b < 2 ^ 64" "\<forall>r\<in>set acc. proper a b r" "\<forall>r\<in>set cs. proper a b r" "apart acc" "ascending cs"
    "\<forall>r\<in>set acc. \<forall>c\<in>set cs. lo r \<le> lo c" "length acc + length cs \<le> 18"
  shows "\<exists>rs. merge_reserved acc cs = Some rs \<and> (\<forall>r\<in>set rs. proper a b r) \<and> apart rs \<and> cover rs = cover acc \<union> cover cs \<and> length rs \<le> length acc + length cs"
  using assms(2-7)
proof (induction cs arbitrary: acc)
  case (Cons c cs)
  obtain acc' where acc': "merge_range acc c = Some acc'" "\<forall>r\<in>set acc'. proper a b r" "apart acc'" "\<forall>r\<in>set acc'. lo r \<le> lo c"
    "cover acc' = cover acc \<union> {lo c..<hi c}" "length acc' \<le> Suc (length acc)"
    by (rule merge_range_spec [OF assms(1) Cons.prems(1), of c]) (use Cons.prems in auto)
  have "\<exists>rs. merge_reserved acc' cs = Some rs \<and> (\<forall>r\<in>set rs. proper a b r) \<and> apart rs \<and> cover rs = cover acc' \<union> cover cs \<and> length rs \<le> length acc' + length cs"
  proof (rule Cons.IH [OF acc'(2) _ acc'(3)])
    show "\<forall>r\<in>set acc'. \<forall>d\<in>set cs. lo r \<le> lo d" using acc'(4) Cons.prems(4) by fastforce
  qed (use Cons.prems acc'(6) in auto)
  then show ?case using acc'(1,5,6) by (auto simp: Un_assoc)
qed auto

section \<open>Carving\<close>

lemma gap_range:
  assumes "c < (e :: u64)"
  shows "lo \<lparr>rbase = c, rsize = e - c\<rparr> = unat c" "hi \<lparr>rbase = c, rsize = e - c\<rparr> = unat e"
proof -
  have "unat (e - c) = unat e - unat c" using assms by (intro unat_sub) simp
  then show "lo \<lparr>rbase = c, rsize = e - c\<rparr> = unat c" "hi \<lparr>rbase = c, rsize = e - c\<rparr> = unat e"
    using assms by (simp_all add: lo_def hi_def word_less_nat_alt)
qed

lemma carve_loop_spec:
  assumes "b < 2 ^ 64" "\<forall>r\<in>set rs. proper a b r \<and> unat c \<le> lo r" "apart rs" "apart us" "\<forall>u\<in>set us. lo u < hi u \<and> hi u < unat c \<and> a \<le> lo u"
    "length us + length rs \<le> 18" "a \<le> unat c" "unat c \<le> b"
  shows "\<exists>c' us'. carve_loop c us rs = Some (c', us') \<and> apart us' \<and> (\<forall>u\<in>set us'. lo u < hi u \<and> hi u < unat c' \<and> a \<le> lo u) \<and>
     unat c \<le> unat c' \<and> unat c' \<le> b \<and> cover rs \<subseteq> {unat c..<unat c'} \<and> cover us' = cover us \<union> ({unat c..<unat c'} - cover rs) \<and>
     length us' \<le> length us + length rs"
  using assms(2-8)
proof (induction rs arbitrary: c us)
  case (Cons r rs)
  have r: "proper a b r" "unat c \<le> lo r" "lo r < hi r" "hi r \<le> b" "\<forall>s\<in>set rs. hi r < lo s" "apart rs" "\<forall>s\<in>set rs. proper a b s"
    using Cons.prems by (auto simp: proper_def)
  have e: "unat (rbase r + rsize r) = hi r" by (rule hi_inside [OF r(1) assms(1)])
  define u where "u = \<lparr>rbase = c, rsize = rbase r - c\<rparr>"
  define us1 where "us1 = (if c < rbase r then us @ [u] else us)"
  have put: "(if c < rbase r then put_range 19 us u else Some us) = Some us1"
    using Cons.prems(5) by (simp add: us1_def put_range_def)
  have lc: "c < rbase r \<longleftrightarrow> unat c < lo r" by (simp add: lo_def word_less_nat_alt)
  have u: "lo u = unat c" "hi u = lo r" if "c < rbase r" using gap_range [OF that] by (simp_all add: u_def lo_def)
  have cov1: "cover us1 = cover us \<union> {unat c..<lo r}" using u lc by (auto simp: us1_def)
  have ap1: "apart us1" "\<forall>v\<in>set us1. lo v < hi v \<and> hi v < hi r \<and> a \<le> lo v" "length us1 \<le> Suc (length us)"
    using Cons.prems(3,4,6) u lc r(2,3) by (auto simp: us1_def sorted_wrt_append)
  have "\<exists>c' us'. carve_loop (rbase r + rsize r) us1 rs = Some (c', us') \<and> apart us' \<and> (\<forall>u\<in>set us'. lo u < hi u \<and> hi u < unat c' \<and> a \<le> lo u) \<and>
     unat (rbase r + rsize r) \<le> unat c' \<and> unat c' \<le> b \<and> cover rs \<subseteq> {unat (rbase r + rsize r)..<unat c'} \<and>
     cover us' = cover us1 \<union> ({unat (rbase r + rsize r)..<unat c'} - cover rs) \<and> length us' \<le> length us1 + length rs"
    by (rule Cons.IH) (use r e ap1 Cons.prems in \<open>auto simp: proper_def\<close>)
  then obtain c' us' where ih: "carve_loop (rbase r + rsize r) us1 rs = Some (c', us')" "apart us'" "\<forall>u\<in>set us'. lo u < hi u \<and> hi u < unat c' \<and> a \<le> lo u"
    "hi r \<le> unat c'" "unat c' \<le> b" "cover rs \<subseteq> {hi r..<unat c'}" "cover us' = cover us1 \<union> ({hi r..<unat c'} - cover rs)" "length us' \<le> length us1 + length rs"
    unfolding e by blast
  have "carve_loop c us (r # rs) = Some (c', us')" unfolding carve_loop.simps put [unfolded u_def] using ih(1) by simp
  moreover have "cover us' = cover us \<union> ({unat c..<unat c'} - cover (r # rs))"
    unfolding ih(7) cov1 using r(2,3) ih(4,6) by (auto simp: subset_iff)
  moreover have "cover (r # rs) \<subseteq> {unat c..<unat c'}" using r(2,3) ih(4,6) by (auto simp: subset_iff)
  ultimately show ?case using ih r(2,3) ap1(3) by auto
qed auto

end
