(* ===== verification/Boot_Memory_Theorems.thy ===== *)
theory Boot_Memory_Theorems
  imports Boot_Memory_Cover
begin

text \<open>The boot memory map divides the memory bank into reserved and usable ranges.\<close>

definition wanted :: "boot_info \<Rightarrow> u64 \<Rightarrow> u64 \<Rightarrow> u64 \<Rightarrow> nat set" where
  "wanted i ks ke dtb = cover (map (ireserved i) [0..<ireserved_count i]) \<union> {unat ks..<unat ke} \<union>
     {unat dtb..<unat dtb + unat (idtb_size i)}"

definition bank :: "boot_info \<Rightarrow> nat set" where
  "bank i = {lo (imemory i)..<hi (imemory i)}"

definition boot_request_ok :: "boot_info \<Rightarrow> u64 \<Rightarrow> u64 \<Rightarrow> u64 \<Rightarrow> bool" where
  "boot_request_ok i ks ke dtb \<longleftrightarrow> rsize (imemory i) \<noteq> 0 \<and> hi (imemory i) < 2 ^ 64 \<and> ireserved_count i \<le> 16 \<and>
     (\<forall>j<ireserved_count i. hi (ireserved i j) < 2 ^ 64) \<and> lo (imemory i) \<le> unat ks \<and> ks < ke \<and> unat ke \<le> hi (imemory i) \<and>
     idtb_size i \<noteq> 0 \<and> unat dtb + unat (idtb_size i) < 2 ^ 64"

definition requests :: "boot_info \<Rightarrow> u64 \<Rightarrow> u64 \<Rightarrow> u64 \<Rightarrow> mrange list" where
  "requests i ks ke dtb = map (ireserved i) [0..<ireserved_count i] @
     [\<lparr>rbase = ks, rsize = ke - ks\<rparr>, \<lparr>rbase = dtb, rsize = dtb + ucast (idtb_size i) - dtb\<rparr>]"

lemma build_unfolded:
  assumes "rsize (imemory i) \<noteq> 0" "ireserved_count i \<le> 16" "hi (imemory i) < 2 ^ 64" "lo (imemory i) \<le> unat ks" "ks < ke"
    "unat ke \<le> hi (imemory i)" "idtb_size i \<noteq> 0" "unat dtb + unat (idtb_size i) < 2 ^ 64"
  defines "me \<equiv> rbase (imemory i) + rsize (imemory i)"
  shows "boot_memory_build (Some i) ks ke dtb (Some old) = do {
       (status, candidates) \<leftarrow> append_all (rbase (imemory i)) me [] (requests i ks ke dtb);
       if status \<noteq> BOOT_OK then Some (status, Some old)
       else do {
         reserved \<leftarrow> merge_reserved [] (sort_ranges candidates);
         (cursor, us) \<leftarrow> carve_loop (rbase (imemory i)) [] reserved;
         usable \<leftarrow> (if cursor < me then put_range 19 us \<lparr>rbase = cursor, rsize = me - cursor\<rparr> else Some us);
         if usable = [] then Some (BOOT_EMPTY, Some old) else Some (BOOT_OK, Some \<lparr>lreserved = reserved, lusable = usable\<rparr>)
       }
     }"
proof -
  have m: "range_end (rbase (imemory i)) (rsize (imemory i)) = Some me"
    using assms(3) by (simp add: range_end_some me_def hi_def)
  have d: "range_end dtb (ucast (idtb_size i)) = Some (dtb + ucast (idtb_size i))"
    using assms(8) by (simp add: range_end_some unat_ucast_up32)
  have ume: "unat me = hi (imemory i)" unfolding me_def by (rule end_word [OF assms(3)])
  have g: "\<not> ke \<le> ks" "\<not> ks < rbase (imemory i)" "\<not> me < ke" "\<not> 16 < ireserved_count i"
    using assms(2,4,5,6) ume by (simp_all add: lo_def word_less_nat_alt not_le)
  show ?thesis unfolding boot_memory_build_def prod.case option.case m d requests_def using g assms(1,7) by simp
qed

lemma build_refused:
  assumes "\<not> (rsize (imemory i) \<noteq> 0 \<and> ireserved_count i \<le> 16 \<and> hi (imemory i) < 2 ^ 64 \<and> lo (imemory i) \<le> unat ks \<and> ks < ke \<and>
    unat ke \<le> hi (imemory i) \<and> idtb_size i \<noteq> 0 \<and> unat dtb + unat (idtb_size i) < 2 ^ 64)"
  shows "boot_memory_build (Some i) ks ke dtb (Some old) = Some (BOOT_INVALID, Some old)"
proof (cases "range_end (rbase (imemory i)) (rsize (imemory i))")
  case None
  then show ?thesis by (simp add: boot_memory_build_def)
next
  case (Some me)
  have h: "hi (imemory i) < 2 ^ 64" using Some by (simp add: range_end_some hi_def)
  have ume: "unat me = hi (imemory i)" using range_end_unat [OF Some] by (simp add: hi_def)
  show ?thesis
  proof (cases "range_end dtb (ucast (idtb_size i))")
    case None
    then show ?thesis using Some by (simp add: boot_memory_build_def)
  next
    case d: (Some de)
    have "unat dtb + unat (idtb_size i) < 2 ^ 64" using d by (simp add: range_end_some unat_ucast_up32)
    then have "rsize (imemory i) = 0 \<or> 16 < ireserved_count i \<or> ke \<le> ks \<or> ks < rbase (imemory i) \<or> me < ke \<or> idtb_size i = 0"
      using assms h ume by (auto simp: lo_def word_less_nat_alt word_le_nat_alt)
    then show ?thesis using Some by (auto simp: boot_memory_build_def)
  qed
qed

lemma requests_spec:
  assumes "ks < ke" "unat dtb + unat (idtb_size i) < 2 ^ 64"
  shows "cover (requests i ks ke dtb) = wanted i ks ke dtb" "length (requests i ks ke dtb) = ireserved_count i + 2"
    "(\<forall>r\<in>set (requests i ks ke dtb). hi r < 2 ^ 64) \<longleftrightarrow> (\<forall>j<ireserved_count i. hi (ireserved i j) < 2 ^ 64)"
proof -
  have k: "lo \<lparr>rbase = ks, rsize = ke - ks\<rparr> = unat ks" "hi \<lparr>rbase = ks, rsize = ke - ks\<rparr> = unat ke" by (rule gap_range [OF assms(1)])+
  have "dtb + ucast (idtb_size i) - dtb = (ucast (idtb_size i) :: u64)" by simp
  then have d: "lo \<lparr>rbase = dtb, rsize = dtb + ucast (idtb_size i) - dtb\<rparr> = unat dtb"
    "hi \<lparr>rbase = dtb, rsize = dtb + ucast (idtb_size i) - dtb\<rparr> = unat dtb + unat (idtb_size i)"
    by (simp_all add: lo_def hi_def unat_ucast_up32)
  show "cover (requests i ks ke dtb) = wanted i ks ke dtb" unfolding requests_def wanted_def cover_simps k d by auto
  show "length (requests i ks ke dtb) = ireserved_count i + 2" by (simp add: requests_def)
  have "unat ke < 2 ^ 64" using unsigned_less [of ke] by simp
  then show "(\<forall>r\<in>set (requests i ks ke dtb). hi r < 2 ^ 64) \<longleftrightarrow> (\<forall>j<ireserved_count i. hi (ireserved i j) < 2 ^ 64)"
    using assms(2) k(2) d(2) by (auto simp: requests_def)
qed

text \<open>From the candidates to the layout.\<close>

lemma layout_from_candidates:
  assumes "\<forall>r\<in>set cs. proper (unat mb) (unat me) r" "length cs \<le> 18" "mb < me"
  obtains reserved c us where "merge_reserved [] (sort_ranges cs) = Some reserved" "carve_loop mb [] reserved = Some (c, us)"
    "cover reserved = cover cs" "apart reserved" "apart us" "\<forall>r\<in>set reserved. lo r < hi r" "\<forall>u\<in>set us. lo u < hi u \<and> hi u < unat c"
    "unat mb \<le> unat c" "unat c \<le> unat me" "length us \<le> 18" "cover us = {unat mb..<unat c} - cover cs" "cover cs \<subseteq> {unat mb..<unat c}"
proof -
  have me: "unat me < 2 ^ 64" using unsigned_less [of me] by simp
  have ss: "mset (sort_ranges cs) = mset cs" "ascending (sort_ranges cs)" using sort_ranges_spec by blast+
  have sets: "set (sort_ranges cs) = set cs" "length (sort_ranges cs) = length cs"
    using ss(1) by (metis set_mset_mset, metis size_mset)
  have "\<exists>rs. merge_reserved [] (sort_ranges cs) = Some rs \<and> (\<forall>r\<in>set rs. proper (unat mb) (unat me) r) \<and> apart rs \<and>
      cover rs = cover [] \<union> cover (sort_ranges cs) \<and> length rs \<le> length ([] :: mrange list) + length (sort_ranges cs)"
    by (rule merge_reserved_spec [OF me]) (use assms sets ss in simp_all)
  then obtain rs where rs: "merge_reserved [] (sort_ranges cs) = Some rs" "\<forall>r\<in>set rs. proper (unat mb) (unat me) r" "apart rs"
    "cover rs = cover (sort_ranges cs)" "length rs \<le> length cs" using sets(2) by auto
  have cov: "cover rs = cover cs" using rs(4) sets(1) by (simp add: cover_def)
  have "\<exists>c' us'. carve_loop mb [] rs = Some (c', us') \<and> apart us' \<and> (\<forall>u\<in>set us'. lo u < hi u \<and> hi u < unat c' \<and> unat mb \<le> lo u) \<and>
     unat mb \<le> unat c' \<and> unat c' \<le> unat me \<and> cover rs \<subseteq> {unat mb..<unat c'} \<and>
     cover us' = cover [] \<union> ({unat mb..<unat c'} - cover rs) \<and> length us' \<le> length ([] :: mrange list) + length rs"
    by (rule carve_loop_spec [OF me]) (use rs assms(2,3) in \<open>auto simp: proper_def word_less_nat_alt\<close>)
  then obtain c us where "carve_loop mb [] rs = Some (c, us)" "apart us" "\<forall>u\<in>set us. lo u < hi u \<and> hi u < unat c \<and> unat mb \<le> lo u"
    "unat mb \<le> unat c" "unat c \<le> unat me" "cover rs \<subseteq> {unat mb..<unat c}" "cover us = {unat mb..<unat c} - cover rs" "length us \<le> length rs" by auto
  then show ?thesis using rs cov assms(2) by (intro that [of rs c us]) (auto simp: proper_def)
qed

text \<open>A request that is not in order is refused, and one that is in order gives the layout.\<close>

lemma build_invalid:
  assumes "\<not> boot_request_ok i ks ke dtb"
  shows "boot_memory_build (Some i) ks ke dtb (Some old) = Some (BOOT_INVALID, Some old)"
proof (cases "rsize (imemory i) \<noteq> 0 \<and> ireserved_count i \<le> 16 \<and> hi (imemory i) < 2 ^ 64 \<and> lo (imemory i) \<le> unat ks \<and> ks < ke \<and>
    unat ke \<le> hi (imemory i) \<and> idtb_size i \<noteq> 0 \<and> unat dtb + unat (idtb_size i) < 2 ^ 64")
  case False
  then show ?thesis by (rule build_refused)
next
  case True
  then have g: "rsize (imemory i) \<noteq> 0" "ireserved_count i \<le> 16" "hi (imemory i) < 2 ^ 64" "lo (imemory i) \<le> unat ks" "ks < ke"
    "unat ke \<le> hi (imemory i)" "idtb_size i \<noteq> 0" "unat dtb + unat (idtb_size i) < 2 ^ 64" by blast+
  let ?mb = "rbase (imemory i)" let ?me = "?mb + rsize (imemory i)"
  note rq = requests_spec [OF g(5,8)]
  have "unat ?me = hi (imemory i)" by (rule end_word [OF g(3)])
  then have lt: "?mb < ?me" using g(1) by (simp add: word_less_nat_alt hi_def unat_gt_0)
  have "\<not> (\<forall>r\<in>set (requests i ks ke dtb). hi r < 2 ^ 64)" unfolding rq(3) using assms True by (auto simp: boot_request_ok_def)
  then have "\<exists>ys. append_all ?mb ?me [] (requests i ks ke dtb) = Some (BOOT_INVALID, ys)"
    using append_all_spec [OF lt, of "[]" "requests i ks ke dtb"] g(2) rq(2) by (simp split: if_splits)
  then show ?thesis using build_unfolded [OF g] by auto
qed

lemma build_layout:
  assumes rok: "boot_request_ok i ks ke dtb"
  shows "(bank i \<subseteq> wanted i ks ke dtb \<longrightarrow> boot_memory_build (Some i) ks ke dtb (Some old) = Some (BOOT_EMPTY, Some old)) \<and>
    (\<not> bank i \<subseteq> wanted i ks ke dtb \<longrightarrow>
      (\<exists>lay. boot_memory_build (Some i) ks ke dtb (Some old) = Some (BOOT_OK, Some lay) \<and>
         cover (lreserved lay) = bank i \<inter> wanted i ks ke dtb \<and> cover (lusable lay) = bank i - wanted i ks ke dtb \<and>
         sorted_wrt (\<lambda>r s. hi r < lo s) (lreserved lay) \<and> sorted_wrt (\<lambda>r s. hi r < lo s) (lusable lay) \<and>
         (\<forall>r\<in>set (lreserved lay) \<union> set (lusable lay). lo r < hi r)))"
proof -
  have g: "rsize (imemory i) \<noteq> 0" "ireserved_count i \<le> 16" "hi (imemory i) < 2 ^ 64" "lo (imemory i) \<le> unat ks" "ks < ke"
    "unat ke \<le> hi (imemory i)" "idtb_size i \<noteq> 0" "unat dtb + unat (idtb_size i) < 2 ^ 64" using rok by (auto simp: boot_request_ok_def)
  let ?mb = "rbase (imemory i)" let ?me = "?mb + rsize (imemory i)" let ?W = "wanted i ks ke dtb"
  note build = build_unfolded [OF g] and rq = requests_spec [OF g(5,8)]
  have ume: "unat ?me = hi (imemory i)" by (rule end_word [OF g(3)])
  have lt: "?mb < ?me" using ume g(1) by (simp add: word_less_nat_alt hi_def unat_gt_0)
  have bank: "bank i = {unat ?mb..<unat ?me}" by (simp add: bank_def ume lo_def)
  have ok: "\<forall>r\<in>set (requests i ks ke dtb). hi r < 2 ^ 64"
    unfolding rq(3) using rok by (simp add: boot_request_ok_def)
  note app = append_all_spec [OF lt, of "[]" "requests i ks ke dtb"]
  obtain cs where cs: "append_all ?mb ?me [] (requests i ks ke dtb) = Some (BOOT_OK, cs)" "cover cs = ?W \<inter> bank i"
    "\<forall>r\<in>set cs. proper (unat ?mb) (unat ?me) r" "length cs \<le> 18"
    using app g(2) ok rq(1,2) bank by auto
  obtain reserved c us where L: "merge_reserved [] (sort_ranges cs) = Some reserved" "carve_loop ?mb [] reserved = Some (c, us)"
    "cover reserved = cover cs" "apart reserved" "apart us" "\<forall>r\<in>set reserved. lo r < hi r" "\<forall>u\<in>set us. lo u < hi u \<and> hi u < unat c"
    "unat ?mb \<le> unat c" "unat c \<le> unat ?me" "length us \<le> 18" "cover us = {unat ?mb..<unat c} - cover cs" "cover cs \<subseteq> {unat ?mb..<unat c}"
    by (rule layout_from_candidates [OF cs(3,4) lt])
  define u where "u = \<lparr>rbase = c, rsize = ?me - c\<rparr>"
  define usable where "usable = (if c < ?me then us @ [u] else us)"
  have put: "(if c < ?me then put_range 19 us \<lparr>rbase = c, rsize = ?me - c\<rparr> else Some us) = Some usable"
    using L(10) by (simp add: usable_def put_range_def u_def)
  have lu: "lo u = unat c" "hi u = unat ?me" if "c < ?me" using gap_range [OF that] by (simp_all add: u_def)
  have lc: "c < ?me \<longleftrightarrow> unat c < unat ?me" by (simp add: word_less_nat_alt)
  have cu: "cover usable = bank i - ?W"
  proof -
    have "cover usable = {unat ?mb..<unat ?me} - cover cs" using lu lc L(8,9,11,12) by (auto simp: usable_def)
    then show ?thesis unfolding cs(2) bank by auto
  qed
  have au: "apart usable" "\<forall>r\<in>set usable. lo r < hi r" using L(5,7) lu lc by (auto simp: usable_def sorted_wrt_append)
  have run: "boot_memory_build (Some i) ks ke dtb (Some old) =
      (if usable = [] then Some (BOOT_EMPTY, Some old) else Some (BOOT_OK, Some \<lparr>lreserved = reserved, lusable = usable\<rparr>))"
    unfolding build cs(1) bind.bind_lunit prod.case L(1,2) put by simp
  have "usable = [] \<longleftrightarrow> bank i \<subseteq> ?W"
    using cu au(2) by (cases usable) (auto simp: cover_def)
  moreover have "cover reserved = bank i \<inter> ?W" using L(3) cs(2) by auto
  ultimately show ?thesis using run cu au L(4,6) by auto
qed

text \<open>C25. The boot memory map is an exact partition. A request is refused exactly when the bank is empty or wraps,
  there are more reserved ranges than the array holds, a reserved range or the device tree wraps, or the kernel is not
  a non-empty range inside the bank. Otherwise the reserved ranges of the layout cover exactly the
  addresses of the bank that the firmware, the kernel image or the device tree claim, the usable ones
  exactly the rest; both are sorted, non-empty and separated; no fixed array overflows; and the
  layout is written unless nothing is usable.\<close>

theorem boot_memory_partitions:
  "(\<not> boot_request_ok i ks ke dtb \<longrightarrow> boot_memory_build (Some i) ks ke dtb (Some old) = Some (BOOT_INVALID, Some old)) \<and>
   (boot_request_ok i ks ke dtb \<and> bank i \<subseteq> wanted i ks ke dtb \<longrightarrow>
      boot_memory_build (Some i) ks ke dtb (Some old) = Some (BOOT_EMPTY, Some old)) \<and>
   (boot_request_ok i ks ke dtb \<and> \<not> bank i \<subseteq> wanted i ks ke dtb \<longrightarrow>
      (\<exists>lay. boot_memory_build (Some i) ks ke dtb (Some old) = Some (BOOT_OK, Some lay) \<and>
         cover (lreserved lay) = bank i \<inter> wanted i ks ke dtb \<and> cover (lusable lay) = bank i - wanted i ks ke dtb \<and>
         sorted_wrt (\<lambda>r s. hi r < lo s) (lreserved lay) \<and> sorted_wrt (\<lambda>r s. hi r < lo s) (lusable lay) \<and>
         (\<forall>r\<in>set (lreserved lay) \<union> set (lusable lay). lo r < hi r)))"
  using build_invalid [of i ks ke dtb old] build_layout [of i ks ke dtb old] by blast

definition sample_boot_info :: boot_info where
  "sample_boot_info = \<lparr>imemory = \<lparr>rbase = 0x1000, rsize = 0x9000\<rparr>, idtb_size = 0x100, ireserved_count = 1,
     ireserved = (\<lambda>_. \<lparr>rbase = 0, rsize = 0x1800\<rparr>)\<rparr>"

theorem boot_memory_partitions_witness:
  "\<exists>lay. boot_memory_build (Some sample_boot_info) 0x2000 0x3000 0x8000 (Some \<lparr>lreserved = [], lusable = []\<rparr>) = Some (BOOT_OK, Some lay) \<and>
     cover (lusable lay) = bank sample_boot_info - wanted sample_boot_info 0x2000 0x3000 0x8000"
proof -
  have ok: "boot_request_ok sample_boot_info 0x2000 0x3000 0x8000"
    by (simp add: boot_request_ok_def sample_boot_info_def hi_def lo_def)
  have "0x4000 \<in> bank sample_boot_info" "0x4000 \<notin> wanted sample_boot_info 0x2000 0x3000 0x8000"
    by (simp_all add: bank_def wanted_def sample_boot_info_def hi_def lo_def)
  then have "\<not> bank sample_boot_info \<subseteq> wanted sample_boot_info 0x2000 0x3000 0x8000" by blast
  with ok show ?thesis
    using boot_memory_partitions [of sample_boot_info "0x2000" "0x3000" "0x8000" "\<lparr>lreserved = [], lusable = []\<rparr>"] by blast
qed

end
