(* ===== verification/Split_Queue.thy ===== *)
theory Split_Queue
  imports Kernel_Prelude
begin

text \<open>
  The virtio split queue of \<^verbatim>\<open>src/drivers/virtio/split_queue.c\<close>. The descriptor table and the two rings are memory
  shared with the device: functions of an index, of which only the entries below the queue size
  exist. Pointers the code compares with null are options, tokens are addresses with 0 null. The
  barriers order the two ring writes and have no state. \<open>None\<close> is a shift by 64 or more.
\<close>

unbundle bit_operations_syntax

datatype virtio_status = VIRTIO_OK | VIRTIO_INVALID | VIRTIO_UNSUPPORTED | VIRTIO_NO_MEMORY | VIRTIO_DEVICE | VIRTIO_TIMEOUT
  | VIRTIO_STATE | VIRTIO_EMPTY | VIRTIO_FULL

datatype fault_reason = NO_FAULT | QUEUE_OVERFLOW | BAD_HEAD | BAD_LENGTH

record virtio_descriptor =
  daddress :: u64
  dlength :: u32
  dflags :: u16
  dnext :: u16

record virtio_fault =
  freason :: fault_reason
  fused_index :: u16
  fobserved_count :: u16
  fconsumed :: u16
  fhead :: u32
  flength :: u32

record virtio_completion =
  ctoken :: ptr
  chead :: u32
  clength :: u32

record queue_owner =
  token :: ptr
  omask :: u64
  min_length :: u32
  max_length :: u32

record virtio_transport =
  taddress :: ptr
  has_write :: bool
  features :: u64
  quiescent :: bool
  started :: bool

record split_queue =
  qtransport :: ptr
  descriptors_at :: u64
  available_at :: u64
  used_at :: u64
  descriptors :: "nat \<Rightarrow> virtio_descriptor"
  available_index :: u16
  available_ring :: "nat \<Rightarrow> u16"
  used_index :: u16
  used_ring :: "nat \<Rightarrow> u32 \<times> u32"
  qsize :: u16
  last_used :: u16
  next_available :: u16
  inflight :: u16
  claimed :: u64
  owners :: "nat \<Rightarrow> queue_owner"
  qfault :: virtio_fault

definition no_fault :: virtio_fault where
  "no_fault = \<lparr>freason = NO_FAULT, fused_index = 0, fobserved_count = 0, fconsumed = 0, fhead = 0, flength = 0\<rparr>"

definition no_owner :: queue_owner where
  "no_owner = \<lparr>token = 0, omask = 0, min_length = 0, max_length = 0\<rparr>"

section \<open>Initialisation\<close>

text \<open>\<open>virtio_split_initialize\<close>: the layout checks in the widths of the code: \<^verbatim>\<open>size_t\<close> capacities, 32-bit offsets.\<close>

definition layout_refused :: "u64 \<Rightarrow> u64 \<Rightarrow> u16 \<Rightarrow> u32 \<Rightarrow> u32 \<Rightarrow> bool" where
  "layout_refused memory capacity sz available used \<longleftrightarrow>
     memory = 0 \<or> memory AND 15 \<noteq> 0 \<or> sz = 0 \<or> 64 < sz \<or> sz AND (sz - 1) \<noteq> 0 \<or>
     available < 16 * ucast sz \<or> available AND 1 \<noteq> 0 \<or> used AND 3 \<noteq> 0 \<or>
     capacity < ucast available \<or> capacity - ucast available < ucast (6 + 2 * ucast sz :: u32) \<or>
     (ucast used :: u64) < ucast available + 6 + ucast (2 * ucast sz :: u32) \<or>
     capacity < ucast used \<or> capacity - ucast used < ucast (6 + 8 * ucast sz :: u32)"

definition fresh_queue :: "u64 \<Rightarrow> u16 \<Rightarrow> u32 \<Rightarrow> u32 \<Rightarrow> split_queue" where
  "fresh_queue memory sz available used =
     \<lparr>qtransport = 0, descriptors_at = memory, available_at = memory + ucast available, used_at = memory + ucast used,
      descriptors = (\<lambda>_. \<lparr>daddress = 0, dlength = 0, dflags = 0, dnext = 0\<rparr>),
      available_index = 0, available_ring = (\<lambda>_. 0), used_index = 0, used_ring = (\<lambda>_. (0, 0)),
      qsize = sz, last_used = 0, next_available = 0, inflight = 0, claimed = 0, owners = (\<lambda>_. no_owner), qfault = no_fault\<rparr>"

definition virtio_split_initialize ::
  "split_queue option \<Rightarrow> u64 \<Rightarrow> u64 \<Rightarrow> u16 \<Rightarrow> u32 \<Rightarrow> u32 \<Rightarrow> virtio_status \<times> split_queue option" where
  "virtio_split_initialize qo memory capacity sz available used =
     (case qo of None \<Rightarrow> (VIRTIO_INVALID, None)
      | Some q \<Rightarrow>
          if layout_refused memory capacity sz available used then (VIRTIO_INVALID, Some q)
          else if inflight q \<noteq> 0 \<or> qtransport q \<noteq> 0 then (VIRTIO_STATE, Some q)
          else (VIRTIO_OK, Some (fresh_queue memory sz available used)))"

section \<open>Enqueue\<close>

abbreviation (input) VIRTIO_DESC_NEXT :: u16 where "VIRTIO_DESC_NEXT \<equiv> 1"
abbreviation (input) VIRTIO_DESC_WRITE :: u16 where "VIRTIO_DESC_WRITE \<equiv> 2"
abbreviation (input) VIRTIO_DESC_INDIRECT :: u16 where "VIRTIO_DESC_INDIRECT \<equiv> 4"

text \<open>The walk over the chain from \<open>index\<close>, collecting the mask of its descriptors.\<close>

function descriptor_walk ::
  "(nat \<Rightarrow> virtio_descriptor) \<Rightarrow> u64 \<Rightarrow> u16 \<Rightarrow> u16 \<Rightarrow> u16 \<Rightarrow> u64 \<Rightarrow> (virtio_status + u64) option" where
  "descriptor_walk ds feats sz head index seen =
     (if sz \<le> index then Some (Inl VIRTIO_STATE)
      else if 64 \<le> unat index then None
      else if bit seen (unat index) then Some (Inl VIRTIO_STATE)
      else
        let d = ds (unat index); seen' = seen OR push_bit (unat index) 1
        in if - 1 - ucast (dlength d) < daddress d then Some (Inl VIRTIO_STATE)
           else if dflags d AND NOT (VIRTIO_DESC_NEXT OR VIRTIO_DESC_WRITE OR VIRTIO_DESC_INDIRECT) \<noteq> 0 then Some (Inl VIRTIO_STATE)
           else if dflags d AND VIRTIO_DESC_INDIRECT \<noteq> 0 then
             (if feats AND push_bit 28 1 = 0 then Some (Inl VIRTIO_UNSUPPORTED)
              else if index \<noteq> head \<or> dflags d \<noteq> VIRTIO_DESC_INDIRECT \<or> daddress d AND 15 \<noteq> 0 \<or> dlength d = 0 \<or> dlength d AND 15 \<noteq> 0
              then Some (Inl VIRTIO_STATE)
              else Some (Inr seen'))
           else if dflags d AND VIRTIO_DESC_NEXT = 0 then Some (Inr seen')
           else descriptor_walk ds feats sz head (dnext d) seen')"
  by pat_completeness auto

termination
proof (relation "measure (\<lambda>(ds, feats, sz, head, index, seen). card {i. i < 64 \<and> \<not> bit seen i})", simp)
  fix ds feats sz head x and index :: u16 and seen xa :: u64
  assume "\<not> 64 \<le> unat index" "\<not> bit seen (unat index)" and xa: "xa = seen OR push_bit (unat index) 1"
  then have "{i. i < 64 \<and> \<not> bit xa i} \<subset> {i. i < 64 \<and> \<not> bit seen i}"
    unfolding psubset_eq xa by (auto simp: bit_simps set_eq_iff intro!: exI [of _ "unat index"])
  then show "((ds, feats, sz, head, dnext x, xa), ds, feats, sz, head, index, seen)
      \<in> measure (\<lambda>(ds, feats, sz, head, index, seen). card {i. i < 64 \<and> \<not> bit seen i})"
    by (simp add: psubset_card_mono)
qed

declare descriptor_walk.simps [simp del]

definition virtio_split_enqueue ::
  "split_queue option \<Rightarrow> virtio_transport option \<Rightarrow> u16 \<Rightarrow> ptr \<Rightarrow> u32 \<Rightarrow> u32 \<Rightarrow> (virtio_status \<times> split_queue option) option" where
  "virtio_split_enqueue qo to head tok minl maxl =
     (case (qo, to) of
        (Some q, Some t) \<Rightarrow>
          if qsize q = 0 \<or> \<not> has_write t \<or> tok = 0 \<or> qsize q \<le> head \<or> maxl < minl then Some (VIRTIO_INVALID, qo)
          else if freason (qfault q) \<noteq> NO_FAULT \<or> \<not> started t \<or> quiescent t \<or> (qtransport q \<noteq> 0 \<and> qtransport q \<noteq> taddress t)
          then Some (VIRTIO_STATE, qo)
          else if inflight q = qsize q then Some (VIRTIO_FULL, qo)
          else do {
            w \<leftarrow> descriptor_walk (descriptors q) (features t) (qsize q) head head 0;
            (case w of
               Inl status \<Rightarrow> Some (status, qo)
             | Inr seen \<Rightarrow>
                 if seen AND claimed q \<noteq> 0 \<or> token (owners q (unat head)) \<noteq> 0 \<or> available_index q \<noteq> next_available q
                 then Some (VIRTIO_STATE, qo)
                 else Some (VIRTIO_OK, Some (q\<lparr>
                   qtransport := taddress t,
                   owners := (owners q)(unat head := \<lparr>token = tok, omask = seen, min_length = minl, max_length = maxl\<rparr>),
                   claimed := claimed q OR seen,
                   inflight := inflight q + 1,
                   available_ring := (available_ring q)(unat (next_available q mod qsize q) := head),
                   next_available := next_available q + 1,
                   available_index := next_available q + 1\<rparr>)))
          }
      | _ \<Rightarrow> Some (VIRTIO_INVALID, qo))"

text \<open>Notification writes the queue number to the device: the second component is the write, if any.\<close>

definition virtio_split_notify ::
  "split_queue option \<Rightarrow> virtio_transport option \<Rightarrow> u16 \<Rightarrow> virtio_status \<times> u16 option" where
  "virtio_split_notify qo to queue =
     (case (qo, to) of
        (Some q, Some t) \<Rightarrow>
          if qsize q = 0 \<or> \<not> has_write t then (VIRTIO_INVALID, None)
          else if freason (qfault q) \<noteq> NO_FAULT \<or> qtransport q \<noteq> taddress t \<or> \<not> started t \<or> quiescent t then (VIRTIO_STATE, None)
          else (VIRTIO_OK, Some queue)
      | _ \<Rightarrow> (VIRTIO_INVALID, None))"

definition virtio_split_publish ::
  "split_queue option \<Rightarrow> virtio_transport option \<Rightarrow> u16 \<Rightarrow> u16 \<Rightarrow> ptr \<Rightarrow> u32 \<Rightarrow> u32 \<Rightarrow> (virtio_status \<times> u16 option \<times> split_queue option) option" where
  "virtio_split_publish qo to queue head tok minl maxl = do {
     (status, q') \<leftarrow> virtio_split_enqueue qo to head tok minl maxl;
     Some (if status = VIRTIO_OK then (let (s, w) = virtio_split_notify q' to queue in (s, w, q')) else (status, None, q'))
   }"

section \<open>Completion and reset\<close>

definition fault :: "split_queue \<Rightarrow> fault_reason \<Rightarrow> u16 \<Rightarrow> u16 \<Rightarrow> u32 \<Rightarrow> u32 \<Rightarrow> split_queue" where
  "fault q reason observed count head len =
     q\<lparr>qfault := \<lparr>freason = reason, fused_index = observed, fobserved_count = count, fconsumed = last_used q, fhead = head, flength = len\<rparr>\<rparr>"

text \<open>The completion slot \<open>done\<close> is optional (null is refused) and written on success only.\<close>

definition virtio_split_take ::
  "split_queue option \<Rightarrow> virtio_completion option \<Rightarrow> virtio_status \<times> virtio_completion option \<times> split_queue option" where
  "virtio_split_take qo done =
     (case (qo, done) of
        (Some q, Some _) \<Rightarrow>
          if qsize q = 0 then (VIRTIO_INVALID, done, qo)
          else if freason (qfault q) \<noteq> NO_FAULT then (VIRTIO_STATE, done, qo)
          else
            let observed = used_index q; count = observed - last_used q
            in if qsize q < count then (VIRTIO_DEVICE, done, Some (fault q QUEUE_OVERFLOW observed count (- 1) 0))
               else if count = 0 then (VIRTIO_EMPTY, done, qo)
               else
                 let (item, len) = used_ring q (unat (last_used q mod qsize q));
                     q1 = q\<lparr>last_used := last_used q + 1\<rparr>;
                     o' = owners q1 (unat item)
                 in if ucast (qsize q1) \<le> item \<or> token o' = 0 then (VIRTIO_DEVICE, done, Some (fault q1 BAD_HEAD observed count item len))
                    else if len < min_length o' \<or> max_length o' < len
                    then (VIRTIO_DEVICE, done, Some (fault q1 BAD_LENGTH observed count item len))
                    else (VIRTIO_OK, Some \<lparr>ctoken = token o', chead = item, clength = len\<rparr>,
                      Some (q1\<lparr>claimed := claimed q1 AND NOT (omask o'), inflight := inflight q1 - 1,
                        owners := (owners q1)(unat item := o'\<lparr>token := 0, omask := 0\<rparr>)\<rparr>))
      | _ \<Rightarrow> (VIRTIO_INVALID, done, qo))"

definition virtio_split_reset :: "split_queue option \<Rightarrow> virtio_transport option \<Rightarrow> virtio_status \<times> split_queue option" where
  "virtio_split_reset qo to =
     (case (qo, to) of
        (Some q, Some t) \<Rightarrow>
          if qsize q = 0 then (VIRTIO_INVALID, qo)
          else if \<not> quiescent t \<or> started t \<or> (qtransport q \<noteq> 0 \<and> qtransport q \<noteq> taddress t) then (VIRTIO_STATE, qo)
          else (VIRTIO_OK, Some (q\<lparr>owners := (\<lambda>_. no_owner), inflight := 0, claimed := 0, last_used := 0, next_available := 0,
                 qtransport := 0, qfault := no_fault, available_index := 0, used_index := 0\<rparr>))
      | _ \<Rightarrow> (VIRTIO_INVALID, qo))"

end
