(* ===== verification/Split_Queue_Owner.thy ===== *)
theory Split_Queue_Owner
  imports Split_Queue
begin

text \<open>
  Descriptor ownership in the split queue. Every outstanding token owns the descriptors of its chain; the
  device may write anything to the used ring and the driver anything to the descriptor table between the calls.
\<close>

section \<open>Chains\<close>

text \<open>The descriptors a chain visits: it ends at a descriptor without a successor or at an indirect one.\<close>

primrec chain :: "(nat \<Rightarrow> virtio_descriptor) \<Rightarrow> u16 \<Rightarrow> u16 list \<Rightarrow> bool" where
  "chain ds i [] \<longleftrightarrow> False"
| "chain ds i (x # xs) \<longleftrightarrow> x = i \<and>
     (if dflags (ds (unat i)) AND 4 \<noteq> 0 \<or> dflags (ds (unat i)) AND 1 = 0 then xs = [] else chain ds (dnext (ds (unat i))) xs)"

lemma walk_total: "unat sz \<le> 64 \<Longrightarrow> descriptor_walk ds f sz head index seen \<noteq> None"
proof (induction ds f sz head index seen rule: descriptor_walk.induct)
  case (1 ds f sz head index seen)
  have "\<not> 64 \<le> unat index" if "\<not> sz \<le> index" using that 1(2) by (simp add: word_le_nat_alt)
  then show ?case using 1 by (subst descriptor_walk.simps) (simp add: Let_def)
qed

lemma walk_chain:
  assumes "descriptor_walk ds f sz head index seen = Some (Inr m)"
  shows "\<exists>path. chain ds index path \<and> distinct path \<and> (\<forall>x\<in>set path. x < sz \<and> unat x < 64 \<and> \<not> bit seen (unat x)) \<and>
     (\<forall>i. bit m i \<longleftrightarrow> bit seen i \<or> (\<exists>x\<in>set path. i = unat x))"
  using assms
proof (induction ds f sz head index seen rule: descriptor_walk.induct)
  case (1 ds f sz head index seen)
  let ?d = "ds (unat index)" and ?m = "seen OR push_bit (unat index) 1"
  have g: "\<not> sz \<le> index" "\<not> 64 \<le> unat index" "\<not> bit seen (unat index)" "\<not> - 1 - ucast (dlength ?d) < daddress ?d"
    "\<not> dflags ?d AND NOT (1 OR 2 OR 4) \<noteq> 0"
    using 1(2) by (subst (asm) descriptor_walk.simps; auto simp: Let_def split: if_splits)+
  have b: "bit ?m i \<longleftrightarrow> bit seen i \<or> i = unat index" for i using g(2) by (auto simp: bit_simps)
  show ?case
  proof (cases "dflags ?d AND 4 \<noteq> 0 \<or> dflags ?d AND 1 = 0")
    case True
    then have "m = ?m" using 1(2) by (subst (asm) descriptor_walk.simps) (auto simp: Let_def split: if_splits)
    then show ?thesis using True g b by (intro exI [of _ "[index]"]) auto
  next
    case False
    then have w: "descriptor_walk ds f sz head (dnext ?d) ?m = Some (Inr m)"
      using 1(2) g by (subst (asm) descriptor_walk.simps) (simp add: Let_def)
    obtain path where p: "chain ds (dnext ?d) path" "distinct path" "\<forall>x\<in>set path. x < sz \<and> unat x < 64 \<and> \<not> bit ?m (unat x)"
      "\<forall>i. bit m i \<longleftrightarrow> bit ?m i \<or> (\<exists>x\<in>set path. i = unat x)"
      using 1(1) [OF g(1,2,3) refl refl g(4,5) _ _ w] False by blast
    show ?thesis
    proof (intro exI [of _ "index # path"] conjI)
      show "chain ds index (index # path)" using False p(1) by simp
      show "distinct (index # path)" using p(2,3) b by auto
      show "\<forall>x\<in>set (index # path). x < sz \<and> unat x < 64 \<and> \<not> bit seen (unat x)"
        using p(3) b g(1-3) by auto
      show "\<forall>i. bit m i \<longleftrightarrow> bit seen i \<or> (\<exists>x\<in>set (index # path). i = unat x)" using p(4) b by auto
    qed
  qed
qed

lemma walk_status: "descriptor_walk ds f sz head index seen = Some (Inl s) \<Longrightarrow> s \<noteq> VIRTIO_OK"
proof (induction ds f sz head index seen rule: descriptor_walk.induct)
  case (1 ds f sz head index seen)
  show ?case using 1(2) by (subst (asm) descriptor_walk.simps) (auto simp: Let_def split: if_splits dest: 1(1))
qed

section \<open>The invariant\<close>

definition owned :: "split_queue \<Rightarrow> nat \<Rightarrow> bool" where
  "owned q h \<longleftrightarrow> token (owners q h) \<noteq> 0"

definition holds :: "split_queue \<Rightarrow> nat \<Rightarrow> nat \<Rightarrow> bool" where
  "holds q h i \<longleftrightarrow> owned q h \<and> bit (omask (owners q h)) i"

definition queue_ok :: "split_queue \<Rightarrow> bool" where
  "queue_ok q \<longleftrightarrow> unat (qsize q) \<le> 64 \<and>
     (\<forall>h. owned q h \<longrightarrow> h < unat (qsize q) \<and> holds q h h) \<and>
     (\<forall>h i. holds q h i \<longrightarrow> i < unat (qsize q)) \<and>
     (\<forall>h k i. holds q h i \<and> holds q k i \<longrightarrow> h = k) \<and>
     (\<forall>i. bit (claimed q) i \<longleftrightarrow> (\<exists>h. holds q h i)) \<and>
     unat (inflight q) = card {h. owned q h} \<and> available_index q = next_available q"

lemma queue_okD:
  assumes "queue_ok q"
  shows "unat (qsize q) \<le> 64" "owned q h \<Longrightarrow> h < unat (qsize q)" "owned q h \<Longrightarrow> holds q h h" "holds q h i \<Longrightarrow> i < unat (qsize q)"
    "holds q h i \<Longrightarrow> holds q k i \<Longrightarrow> h = k" "bit (claimed q) i \<longleftrightarrow> (\<exists>h. holds q h i)"
    "unat (inflight q) = card {h. owned q h}" "available_index q = next_available q" "finite {h. owned q h}"
proof -
  show "unat (qsize q) \<le> 64" "owned q h \<Longrightarrow> h < unat (qsize q)" "owned q h \<Longrightarrow> holds q h h" "holds q h i \<Longrightarrow> i < unat (qsize q)"
    "holds q h i \<Longrightarrow> holds q k i \<Longrightarrow> h = k" "bit (claimed q) i \<longleftrightarrow> (\<exists>h. holds q h i)"
    "unat (inflight q) = card {h. owned q h}" "available_index q = next_available q"
    using assms unfolding queue_ok_def by blast+
  show "finite {h. owned q h}" using assms unfolding queue_ok_def by (metis finite_nat_set_iff_bounded mem_Collect_eq)
qed

text \<open>Only the size, the owners, the claims, the count and the available index matter.\<close>

lemma queue_ok_cong:
  assumes "queue_ok q" "qsize q' = qsize q" "owners q' = owners q" "claimed q' = claimed q" "inflight q' = inflight q"
    "available_index q' = available_index q" "next_available q' = next_available q"
  shows "queue_ok q'"
  using assms(1) unfolding queue_ok_def holds_def owned_def assms(2-) .

lemma queue_ok_empty:
  assumes "unat (qsize q) \<le> 64" "\<And>h. \<not> owned q h" "claimed q = 0" "inflight q = 0" "available_index q = next_available q"
  shows "queue_ok q"
  using assms by (simp add: queue_ok_def holds_def)

section \<open>Enqueue\<close>

definition handed_over :: "split_queue \<Rightarrow> split_queue \<Rightarrow> u16 \<Rightarrow> ptr \<Rightarrow> u32 \<Rightarrow> u32 \<Rightarrow> bool" where
  "handed_over q q' head tok minl maxl \<longleftrightarrow> tok \<noteq> 0 \<and> head < qsize q \<and> \<not> owned q (unat head) \<and>
     (\<exists>path. chain (descriptors q) head path \<and> distinct path \<and> (\<forall>x\<in>set path. x < qsize q \<and> (\<nexists>h. holds q h (unat x))) \<and>
        (\<forall>i. holds q' (unat head) i \<longleftrightarrow> (\<exists>x\<in>set path. i = unat x))) \<and>
     token (owners q' (unat head)) = tok \<and> min_length (owners q' (unat head)) = minl \<and> max_length (owners q' (unat head)) = maxl \<and>
     (\<forall>h. h \<noteq> unat head \<longrightarrow> owners q' h = owners q h) \<and>
     available_ring q' (unat (next_available q mod qsize q)) = head \<and> available_index q' = available_index q + 1"

lemma enqueue_accepted:
  fixes q :: split_queue and head :: u16 and minl maxl :: u32 and a tok :: ptr
  assumes "queue_ok q" "tok \<noteq> 0" "\<not> qsize q \<le> head" "inflight q \<noteq> qsize q"
    "descriptor_walk (descriptors q) feats (qsize q) head head 0 = Some (Inr m)" "m AND claimed q = 0" "token (owners q (unat head)) = 0"
  defines "q' \<equiv> q\<lparr>qtransport := a, owners := (owners q)(unat head := \<lparr>token = tok, omask = m, min_length = minl, max_length = maxl\<rparr>),
     claimed := claimed q OR m, inflight := inflight q + 1,
     available_ring := (available_ring q)(unat (next_available q mod qsize q) := head),
     next_available := next_available q + 1, available_index := next_available q + 1\<rparr>"
  shows "queue_ok q' \<and> handed_over q q' head tok minl maxl"
proof -
  note D = queue_okD [OF assms(1)]
  obtain path where p: "chain (descriptors q) head path" "distinct path" "\<forall>x\<in>set path. x < qsize q \<and> unat x < 64"
    "\<And>i. bit m i \<longleftrightarrow> (\<exists>x\<in>set path. i = unat x)"
    using walk_chain [OF assms(5)] by auto
  have hp: "head \<in> set path" using p(1) by (cases path) auto
  have f: "qsize q' = qsize q" "owners q' = (owners q)(unat head := \<lparr>token = tok, omask = m, min_length = minl, max_length = maxl\<rparr>)"
    "claimed q' = claimed q OR m" "inflight q' = inflight q + 1" "available_index q' = next_available q + 1" "next_available q' = next_available q + 1"
    "available_ring q' = (available_ring q)(unat (next_available q mod qsize q) := head)" by (simp_all add: q'_def)
  have no: "\<not> owned q (unat head)" using assms(7) by (simp add: owned_def)
  have own: "owned q' h \<longleftrightarrow> h = unat head \<or> owned q h" for h using assms(2) by (simp add: owned_def f)
  have hold: "holds q' h i \<longleftrightarrow> (if h = unat head then bit m i else holds q h i)" for h i using assms(2) by (simp add: holds_def owned_def f)
  have free: "\<nexists>h. holds q h i" if "bit m i" for i
  proof -
    have "\<not> bit (claimed q) i" using assms(6) that by (metis bit_0_eq bit_and_iff bot_apply bot_bool_def)
    then show ?thesis using D(6) by blast
  qed
  have lt: "i < unat (qsize q)" if "bit m i" for i using that p(3,4) by (auto simp: word_less_nat_alt)
  have hd: "bit m (unat head)" using hp p(4) by blast
  have "queue_ok q'"
    unfolding queue_ok_def
  proof (intro conjI allI impI)
    show "unat (qsize q') \<le> 64" using D(1) f by simp
    show "h < unat (qsize q')" if "owned q' h" for h using that own D(2) lt [OF hd] f(1) by auto
    show "holds q' h h" if "owned q' h" for h using that own hold hd D(3) by auto
    show "i < unat (qsize q')" if "holds q' h i" for h i using that hold lt D(4) f(1) by (auto split: if_splits)
    show "h = k" if "holds q' h i \<and> holds q' k i" for h k i
      using that hold [of h i] hold [of k i] free [of i] D(5) [of h i k] by (cases "h = unat head"; cases "k = unat head") auto
    show "bit (claimed q') i \<longleftrightarrow> (\<exists>h. holds q' h i)" for i
    proof -
      have "(\<exists>h. holds q h i) \<longleftrightarrow> (\<exists>h. h \<noteq> unat head \<and> holds q h i)" using no unfolding holds_def by metis
      then show ?thesis unfolding f bit_or_iff D(6) using hold by metis
    qed
    show "unat (inflight q') = card {h. owned q' h}"
    proof -
      have s: "{h. owned q' h} = insert (unat head) {h. owned q h}" using own by auto
      have "{h. owned q h} \<subseteq> {..<unat (qsize q)}" using D(2) by auto
      then have "card {h. owned q h} \<le> unat (qsize q)" by (metis card_lessThan card_mono finite_lessThan)
      then have "unat (inflight q + 1) = unat (inflight q) + 1" using D(1,7) by (simp add: unat_word_ariths)
      then show ?thesis unfolding s f using D(7,9) no by simp
    qed
    show "available_index q' = next_available q'" using f by simp
  qed
  moreover have "handed_over q q' head tok minl maxl"
    unfolding handed_over_def
  proof (intro conjI)
    show "tok \<noteq> 0" "head < qsize q" "\<not> owned q (unat head)" using assms(2,3) no by simp_all
    show "\<exists>path. chain (descriptors q) head path \<and> distinct path \<and> (\<forall>x\<in>set path. x < qsize q \<and> (\<nexists>h. holds q h (unat x))) \<and>
        (\<forall>i. holds q' (unat head) i \<longleftrightarrow> (\<exists>x\<in>set path. i = unat x))"
      using p(1-3) p(4) free hold by (intro exI [of _ path]) auto
  qed (use f D(8) in simp_all)
  ultimately show ?thesis ..
qed

lemma enqueue_outcome:
  assumes "queue_ok q"
  shows "\<exists>s q'. virtio_split_enqueue (Some q) to head tok minl maxl = Some (s, Some q') \<and>
    (if s = VIRTIO_OK then queue_ok q' \<and> handed_over q q' head tok minl maxl else q' = q)"
proof (cases to)
  case None
  then show ?thesis by (simp add: virtio_split_enqueue_def)
next
  case (Some t)
  define bad where "bad \<longleftrightarrow> qsize q = 0 \<or> \<not> has_write t \<or> tok = 0 \<or> qsize q \<le> head \<or> maxl < minl"
  define stuck where "stuck \<longleftrightarrow> freason (qfault q) \<noteq> NO_FAULT \<or> \<not> started t \<or> quiescent t \<or> (qtransport q \<noteq> 0 \<and> qtransport q \<noteq> taddress t)"
  obtain w where w: "descriptor_walk (descriptors q) (features t) (qsize q) head head 0 = Some w"
    using walk_total [OF queue_okD(1) [OF assms]] by blast
  note eq = virtio_split_enqueue_def [of "Some q" "Some t", unfolded prod.case option.case, folded bad_def stuck_def]
  show ?thesis
  proof (cases "bad \<or> stuck \<or> inflight q = qsize q")
    case True
    then show ?thesis unfolding Some eq bad_def stuck_def by auto
  next
    case False
    then have run: "virtio_split_enqueue (Some q) to head tok minl maxl = (case w of
               Inl status \<Rightarrow> Some (status, Some q)
             | Inr m \<Rightarrow>
                 if m AND claimed q \<noteq> 0 \<or> token (owners q (unat head)) \<noteq> 0 \<or> available_index q \<noteq> next_available q
                 then Some (VIRTIO_STATE, Some q)
                 else Some (VIRTIO_OK, Some (q\<lparr>
                   qtransport := taddress t,
                   owners := (owners q)(unat head := \<lparr>token = tok, omask = m, min_length = minl, max_length = maxl\<rparr>),
                   claimed := claimed q OR m,
                   inflight := inflight q + 1,
                   available_ring := (available_ring q)(unat (next_available q mod qsize q) := head),
                   next_available := next_available q + 1,
                   available_index := next_available q + 1\<rparr>)))"
      unfolding Some virtio_split_enqueue_def prod.case option.case w bind.bind_lunit by (auto simp: bad_def stuck_def)
    show ?thesis
    proof (cases w)
      case (Inl s)
      have "s \<noteq> VIRTIO_OK" using walk_status [OF w [unfolded Inl]] .
      then show ?thesis using run Inl by auto
    next
      case (Inr m)
      show ?thesis
      proof (cases "m AND claimed q \<noteq> 0 \<or> token (owners q (unat head)) \<noteq> 0 \<or> available_index q \<noteq> next_available q")
        case True
        then show ?thesis using run Inr by auto
      next
        case ok: False
        have "m AND claimed q = 0" "token (owners q (unat head)) = 0" using ok by auto
        note acc = enqueue_accepted [OF assms _ _ _ w [unfolded Inr] this, of tok]
        show ?thesis using run Inr ok acc False by (simp add: bad_def)
      qed
    qed
  qed
qed

end
