(* ===== verification/Split_Queue_Theorems.thy ===== *)
theory Split_Queue_Theorems
  imports Split_Queue_Owner Word_Bits
begin

text \<open>
  The split queue with an arbitrary device on the other side: the reachable states of any sequence of calls and
  memory writes, and what the calls hand over and take back.
\<close>

section \<open>Taking a completion\<close>

definition taken_back :: "split_queue \<Rightarrow> split_queue \<Rightarrow> virtio_completion \<Rightarrow> bool" where
  "taken_back q q' c \<longleftrightarrow> owned q (unat (chead c)) \<and> ctoken c = token (owners q (unat (chead c))) \<and>
     min_length (owners q (unat (chead c))) \<le> clength c \<and> clength c \<le> max_length (owners q (unat (chead c))) \<and>
     \<not> owned q' (unat (chead c)) \<and> (\<forall>h. h \<noteq> unat (chead c) \<longrightarrow> owners q' h = owners q h) \<and> last_used q' = last_used q + 1"

lemma take_accepted:
  assumes "queue_ok q" "owned q (unat item)"
  defines "q' \<equiv> q\<lparr>last_used := last_used q + 1, claimed := claimed q AND NOT (omask (owners q (unat item))), inflight := inflight q - 1,
     owners := (owners q)(unat item := (owners q (unat item))\<lparr>token := 0, omask := 0\<rparr>)\<rparr>"
  shows "queue_ok q'"
proof -
  note D = queue_okD [OF assms(1)]
  let ?n = "unat item"
  have f: "qsize q' = qsize q" "owners q' = (owners q)(?n := (owners q ?n)\<lparr>token := 0, omask := 0\<rparr>)"
    "claimed q' = claimed q AND NOT (omask (owners q ?n))" "inflight q' = inflight q - 1" "available_index q' = available_index q"
    "next_available q' = next_available q" by (simp_all add: q'_def)
  have own: "owned q' h \<longleftrightarrow> h \<noteq> ?n \<and> owned q h" for h by (simp add: owned_def f)
  have hold: "holds q' h i \<longleftrightarrow> h \<noteq> ?n \<and> holds q h i" for h i by (simp add: holds_def owned_def f)
  show ?thesis
    unfolding queue_ok_def
  proof (intro conjI allI impI)
    show "unat (qsize q') \<le> 64" using D(1) f by simp
    show "h < unat (qsize q')" if "owned q' h" for h using that own D(2) f(1) by auto
    show "holds q' h h" if "owned q' h" for h using that own hold D(3) by auto
    show "i < unat (qsize q')" if "holds q' h i" for h i using that hold D(4) f(1) by auto
    show "h = k" if "holds q' h i \<and> holds q' k i" for h k i using that hold D(5) [of h i k] by blast
    show "bit (claimed q') i \<longleftrightarrow> (\<exists>h. holds q' h i)" for i
    proof (cases "i < 64")
      case True
      then have "bit (claimed q') i \<longleftrightarrow> (\<exists>h. holds q h i) \<and> \<not> holds q ?n i"
        unfolding f using assms(2) D(6) by (simp add: bit_and_iff bit_not_iff holds_def)
      also have "\<dots> \<longleftrightarrow> (\<exists>h. h \<noteq> ?n \<and> holds q h i)" using D(5) by metis
      finally show ?thesis using hold by simp
    next
      case False
      then have "\<not> bit (claimed q') i" using bit_imp_le_length [of "claimed q'" i] by auto
      moreover have "\<not> holds q h i" for h using False D(1) D(4) [of h i] by auto
      ultimately show ?thesis using hold by blast
    qed
    show "unat (inflight q') = card {h. owned q' h}"
    proof -
      have s: "{h. owned q' h} = {h. owned q h} - {?n}" using own by auto
      have "0 < card {h. owned q h}" using D(9) assms(2) by (auto simp: card_gt_0_iff)
      then have "1 \<le> inflight q" using D(7) by (simp add: word_le_nat_alt)
      then have "unat (inflight q - 1) = unat (inflight q) - 1" by (simp add: unat_sub)
      then show ?thesis unfolding s f using D(7,9) assms(2) by simp
    qed
    show "available_index q' = next_available q'" using f D(8) by simp
  qed
qed

lemma take_outcome:
  assumes "queue_ok q"
  shows "\<exists>s d' q'. virtio_split_take (Some q) d = (s, d', Some q') \<and> queue_ok q' \<and>
    (if s = VIRTIO_OK then \<exists>c. d' = Some c \<and> taken_back q q' c else d' = d \<and> owners q' = owners q \<and> claimed q' = claimed q)"
proof (cases d)
  case None
  then show ?thesis using assms by (simp add: virtio_split_take_def)
next
  case (Some d0)
  define obs cnt where "obs = used_index q" and "cnt = used_index q - last_used q"
  obtain item len where il: "used_ring q (unat (last_used q mod qsize q)) = (item, len)" by fastforce
  define q1 where "q1 = q\<lparr>last_used := last_used q + 1\<rparr>"
  have ok1: "queue_ok q1" by (rule queue_ok_cong [OF assms]) (simp_all add: q1_def)
  have f1: "owners q1 = owners q" "claimed q1 = claimed q" "qsize q1 = qsize q" "inflight q1 = inflight q" "last_used q1 = last_used q + 1"
    by (simp_all add: q1_def)
  have flt: "queue_ok (fault q0 r a b c e) \<and> owners (fault q0 r a b c e) = owners q0 \<and> claimed (fault q0 r a b c e) = claimed q0"
    if "queue_ok q0" for q0 r a b c e
    by (auto intro: queue_ok_cong [OF that] simp: fault_def)
  let ?o = "owners q (unat item)"
  consider (refused) "qsize q = 0 \<or> freason (qfault q) \<noteq> NO_FAULT"
    | (over) "qsize q \<noteq> 0" "freason (qfault q) = NO_FAULT" "qsize q < cnt"
    | (empty) "qsize q \<noteq> 0" "freason (qfault q) = NO_FAULT" "\<not> qsize q < cnt" "cnt = 0"
    | (head) "qsize q \<noteq> 0" "freason (qfault q) = NO_FAULT" "\<not> qsize q < cnt" "cnt \<noteq> 0" "ucast (qsize q) \<le> item \<or> token ?o = 0"
    | (len) "qsize q \<noteq> 0" "freason (qfault q) = NO_FAULT" "\<not> qsize q < cnt" "cnt \<noteq> 0" "\<not> ucast (qsize q) \<le> item" "token ?o \<noteq> 0"
        "len < min_length ?o \<or> max_length ?o < len"
    | (ok) "qsize q \<noteq> 0" "freason (qfault q) = NO_FAULT" "\<not> qsize q < cnt" "cnt \<noteq> 0" "\<not> ucast (qsize q) \<le> item" "token ?o \<noteq> 0"
        "min_length ?o \<le> len" "len \<le> max_length ?o"
    by (meson not_less)
  then show ?thesis
  proof cases
    case refused
    then show ?thesis using assms Some by (auto simp: virtio_split_take_def)
  next
    case over
    then have "virtio_split_take (Some q) d = (VIRTIO_DEVICE, d, Some (fault q QUEUE_OVERFLOW obs cnt (- 1) 0))"
      unfolding Some by (simp add: virtio_split_take_def Let_def obs_def cnt_def)
    then show ?thesis using flt [OF assms] by simp
  next
    case empty
    then have "virtio_split_take (Some q) d = (VIRTIO_EMPTY, d, Some q)"
      unfolding Some by (simp add: virtio_split_take_def Let_def cnt_def)
    then show ?thesis using assms by simp
  next
    case head
    then have "virtio_split_take (Some q) d = (VIRTIO_DEVICE, d, Some (fault q1 BAD_HEAD obs cnt item len))"
      unfolding Some by (simp add: virtio_split_take_def Let_def obs_def cnt_def il q1_def)
    then show ?thesis using flt [OF ok1] f1 by simp
  next
    case len
    then have "virtio_split_take (Some q) d = (VIRTIO_DEVICE, d, Some (fault q1 BAD_LENGTH obs cnt item len))"
      unfolding Some by (auto simp: virtio_split_take_def Let_def obs_def cnt_def il q1_def)
    then show ?thesis using flt [OF ok1] f1 by simp
  next
    case ok
    define q' where "q' = q\<lparr>last_used := last_used q + 1, claimed := claimed q AND NOT (omask ?o), inflight := inflight q - 1,
     owners := (owners q)(unat item := ?o\<lparr>token := 0, omask := 0\<rparr>)\<rparr>"
    have run: "virtio_split_take (Some q) d = (VIRTIO_OK, Some \<lparr>ctoken = token ?o, chead = item, clength = len\<rparr>, Some q')"
      using ok unfolding Some by (simp add: virtio_split_take_def Let_def cnt_def il q'_def not_less)
    have own: "owned q (unat item)" using ok(6) by (simp add: owned_def)
    have "queue_ok q'" unfolding q'_def by (rule take_accepted [OF assms own])
    moreover have "taken_back q q' \<lparr>ctoken = token ?o, chead = item, clength = len\<rparr>"
      using own ok(7,8) by (simp add: taken_back_def q'_def owned_def)
    ultimately show ?thesis using run by simp
  qed
qed

section \<open>Reachable queues\<close>

text \<open>A queue starts zeroed. The device may overwrite the used ring and the driver the descriptor table at any
  time; everything else is a call.\<close>

definition zero_queue :: split_queue where
  "zero_queue = (fresh_queue 0 0 0 0)"

inductive queue_step :: "split_queue \<Rightarrow> split_queue \<Rightarrow> bool" where
  device: "queue_step q (q\<lparr>used_index := i, used_ring := r\<rparr>)"
| driver: "queue_step q (q\<lparr>descriptors := ds\<rparr>)"
| initialize: "virtio_split_initialize (Some q) memory capacity sz available used = (s, Some q') \<Longrightarrow> queue_step q q'"
| enqueue: "virtio_split_enqueue (Some q) to head tok minl maxl = Some (s, Some q') \<Longrightarrow> queue_step q q'"
| publish: "virtio_split_publish (Some q) to queue head tok minl maxl = Some (s, w, Some q') \<Longrightarrow> queue_step q q'"
| take: "virtio_split_take (Some q) d = (s, d', Some q') \<Longrightarrow> queue_step q q'"
| reset: "virtio_split_reset (Some q) to = (s, Some q') \<Longrightarrow> queue_step q q'"

inductive queue_reach :: "split_queue \<Rightarrow> bool" where
  start: "queue_reach zero_queue"
| step: "queue_reach q \<Longrightarrow> queue_step q q' \<Longrightarrow> queue_reach q'"

lemma initialize_ok:
  assumes "queue_ok q" "virtio_split_initialize (Some q) memory capacity sz available used = (s, Some q')"
  shows "queue_ok q'"
proof (cases "s = VIRTIO_OK")
  case True
  then have q': "q' = fresh_queue memory sz available used" and "\<not> layout_refused memory capacity sz available used"
    using assms(2) by (auto simp: virtio_split_initialize_def split: if_splits)
  then have "unat sz \<le> 64" by (simp add: layout_refused_def word_le_nat_alt not_less)
  then show ?thesis unfolding q' by (intro queue_ok_empty) (simp_all add: fresh_queue_def owned_def no_owner_def)
next
  case False
  then show ?thesis using assms by (auto simp: virtio_split_initialize_def split: if_splits)
qed

lemma enqueue_ok:
  assumes "queue_ok q" "virtio_split_enqueue (Some q) to head tok minl maxl = Some (s, Some q')"
  shows "queue_ok q'"
proof -
  obtain s1 q1 where e: "virtio_split_enqueue (Some q) to head tok minl maxl = Some (s1, Some q1)"
    "if s1 = VIRTIO_OK then queue_ok q1 \<and> handed_over q q1 head tok minl maxl else q1 = q"
    using enqueue_outcome [OF assms(1)] by blast
  then show ?thesis using assms by (auto split: if_splits)
qed

lemma step_ok: "queue_step q q' \<Longrightarrow> queue_ok q \<Longrightarrow> queue_ok q'"
proof (induction rule: queue_step.induct)
  case (device q i r)
  then show ?case by (rule queue_ok_cong) simp_all
next
  case (driver q ds)
  then show ?case by (rule queue_ok_cong) simp_all
next
  case (initialize q memory capacity sz available used s q')
  then show ?case by (rule initialize_ok [rotated])
next
  case (enqueue q to head tok minl maxl s q')
  then show ?case by (rule enqueue_ok [rotated])
next
  case (publish q to queue head tok minl maxl s w q')
  then have "\<exists>s'. virtio_split_enqueue (Some q) to head tok minl maxl = Some (s', Some q')"
    by (auto simp: virtio_split_publish_def Let_def split: Option.bind_splits if_splits prod.splits)
  then show ?case using publish.prems enqueue_ok by blast
next
  case (take q d s d' q')
  then show ?case using take_outcome [of q d] by auto
next
  case (reset q to s q')
  show ?case
  proof (cases "s = VIRTIO_OK")
    case True
    then show ?thesis using reset queue_okD(1) [OF reset.prems]
      by (auto intro!: queue_ok_empty simp: virtio_split_reset_def owned_def no_owner_def split: option.splits if_splits)
  next
    case False
    then show ?thesis using reset by (auto simp: virtio_split_reset_def split: option.splits if_splits)
  qed
qed

lemma queue_reach_ok: "queue_reach q \<Longrightarrow> queue_ok q"
proof (induction rule: queue_reach.induct)
  case start
  show ?case by (rule queue_ok_empty) (simp_all add: zero_queue_def fresh_queue_def owned_def no_owner_def)
next
  case (step q q')
  then show ?case using step_ok by blast
qed

section \<open>The layout in memory\<close>

lemma layout_accepted:
  assumes "\<not> layout_refused memory capacity sz available used"
  shows "1 \<le> unat sz \<and> unat sz \<le> 64 \<and> 16 * unat sz \<le> unat available \<and> unat available + (6 + 2 * unat sz) \<le> unat used \<and>
    unat used + (6 + 8 * unat sz) \<le> unat capacity"
proof -
  have a: "unat sz \<le> 64" "sz \<noteq> 0" using assms by (auto simp: layout_refused_def word_le_nat_alt not_less)
  have p: "unat (16 * ucast sz :: u32) = 16 * unat sz" "unat (6 + 2 * ucast sz :: u32) = 6 + 2 * unat sz"
    "unat (2 * ucast sz :: u32) = 2 * unat sz" "unat (6 + 8 * ucast sz :: u32) = 6 + 8 * unat sz"
    using a(1) by (simp_all add: unat_word_ariths unat_ucast_up16)
  have av: "unat available < 2 ^ LENGTH(32)" "unat used < 2 ^ LENGTH(32)" by (rule unsigned_less)+
  have u: "unat (ucast available + 6 + ucast (2 * ucast sz :: u32) :: u64) = unat available + 6 + 2 * unat sz"
    using av(1) a(1) by (simp add: unat_word_ariths unat_ucast_up32 unat_ucast_up16)
  have c: "\<not> available < 16 * ucast sz" "\<not> (ucast used :: u64) < ucast available + 6 + ucast (2 * ucast sz :: u32)"
    "\<not> capacity < ucast used" "\<not> capacity - ucast used < ucast (6 + 8 * ucast sz :: u32)"
    using assms by (auto simp: layout_refused_def)
  have "unat (capacity - ucast used) = unat capacity - unat used" using c(3) by (simp add: unat_sub not_less unat_ucast_up32)
  then have "6 + 8 * unat sz \<le> unat capacity - unat used" using c(4) by (simp add: word_less_nat_alt unat_ucast_up32 p)
  moreover have "16 * unat sz \<le> unat available" "unat available + 6 + 2 * unat sz \<le> unat used" "unat used \<le> unat capacity"
    using c(1-3) u by (simp_all add: word_less_nat_alt unat_ucast_up32 p)
  moreover have "1 \<le> unat sz" using a(2) by (simp add: Suc_le_eq unat_gt_0)
  ultimately show ?thesis using a(1) by linarith
qed

section \<open>The properties\<close>

text \<open>C29. Descriptor ownership in a split queue, whatever the device writes to the used ring and the driver to
  the descriptor table between calls: every outstanding token owns a set of descriptors within the queue
  that contains its head, no descriptor is owned twice, the claim mask is exactly the union of these sets and the in-flight count the
  number of tokens, never above the queue size. An accepted memory layout keeps the descriptor
  table, the available ring and the used ring apart and inside the given memory.\<close>

theorem split_queue_ownership:
  assumes "queue_reach q"
  shows "(\<forall>h. token (owners q h) \<noteq> 0 \<longrightarrow> h < unat (qsize q) \<and> bit (omask (owners q h)) h \<and> (\<forall>i. bit (omask (owners q h)) i \<longrightarrow> i < unat (qsize q))) \<and>
     (\<forall>h k i. token (owners q h) \<noteq> 0 \<and> bit (omask (owners q h)) i \<and> token (owners q k) \<noteq> 0 \<and> bit (omask (owners q k)) i \<longrightarrow> h = k) \<and>
     (\<forall>i. bit (claimed q) i \<longleftrightarrow> (\<exists>h. token (owners q h) \<noteq> 0 \<and> bit (omask (owners q h)) i)) \<and>
     unat (inflight q) = card {h. token (owners q h) \<noteq> 0} \<and> inflight q \<le> qsize q \<and>
     (\<forall>q' memory capacity sz available used. virtio_split_initialize (Some q) memory capacity sz available used = (VIRTIO_OK, q') \<longrightarrow>
        1 \<le> unat sz \<and> unat sz \<le> 64 \<and> 16 * unat sz \<le> unat available \<and> unat available + (6 + 2 * unat sz) \<le> unat used \<and>
        unat used + (6 + 8 * unat sz) \<le> unat capacity)"
proof (intro conjI allI impI)
  note D = queue_okD [OF queue_reach_ok [OF assms], unfolded holds_def owned_def]
  show "h < unat (qsize q)" "bit (omask (owners q h)) h" if "token (owners q h) \<noteq> 0" for h using that D(2,3) by blast+
  show "i < unat (qsize q)" if "token (owners q h) \<noteq> 0" "bit (omask (owners q h)) i" for h i using that D(4) by blast
  show "h = k" if "token (owners q h) \<noteq> 0 \<and> bit (omask (owners q h)) i \<and> token (owners q k) \<noteq> 0 \<and> bit (omask (owners q k)) i" for h k i
    using that D(5) by blast
  show "bit (claimed q) i \<longleftrightarrow> (\<exists>h. token (owners q h) \<noteq> 0 \<and> bit (omask (owners q h)) i)" for i by (rule D(6))
  show c: "unat (inflight q) = card {h. token (owners q h) \<noteq> 0}" by (rule D(7))
  have "{h. token (owners q h) \<noteq> 0} \<subseteq> {..<unat (qsize q)}" using D(2) by auto
  then have "card {h. token (owners q h) \<noteq> 0} \<le> unat (qsize q)" by (metis card_lessThan card_mono finite_lessThan)
  then show "inflight q \<le> qsize q" using c by (simp add: word_le_nat_alt)
  fix q' memory capacity sz available used
  assume "virtio_split_initialize (Some q) memory capacity sz available used = (VIRTIO_OK, q')"
  then have "\<not> layout_refused memory capacity sz available used" by (auto simp: virtio_split_initialize_def split: if_splits)
  note L = layout_accepted [OF this]
  show "1 \<le> unat sz" "unat sz \<le> 64" "16 * unat sz \<le> unat available" "unat available + (6 + 2 * unat sz) \<le> unat used"
    "unat used + (6 + 8 * unat sz) \<le> unat capacity" using L by blast+
qed

definition sample_transport :: virtio_transport where
  "sample_transport = \<lparr>taddress = 9, has_write = True, features = 0, quiescent = False, started = True\<rparr>"

definition sample_queue :: split_queue where
  "sample_queue = fresh_queue 4096 2 32 44"

lemma sample_queue_reach: "queue_reach sample_queue"
proof (rule queue_reach.step [OF queue_reach.start], rule queue_step.initialize)
  show "virtio_split_initialize (Some zero_queue) 4096 4096 2 32 44 = (VIRTIO_OK, Some sample_queue)"
    by (simp add: virtio_split_initialize_def layout_refused_def zero_queue_def sample_queue_def fresh_queue_def)
qed

theorem split_queue_ownership_witness:
  "unat (inflight sample_queue) = card {h. token (owners sample_queue h) \<noteq> 0}"
  using split_queue_ownership [OF sample_queue_reach] by blast

text \<open>C12. The calls of a split queue transfer ownership exactly. Enqueueing returns in every reachable state; it either changes nothing or
  hands the whole descriptor chain of a free head, none of it owned by another token, to the device under the given token and
  publishes the head in the next slot of the available ring. Taking a completion either reports no
  token and leaves every owner in place, or returns the token of an owned head with a length in the
  bounds given at its enqueue and frees exactly that head's descriptors. So no forged, repeated or
  oversized completion of the device reaches the driver.\<close>

theorem split_queue_transfers:
  assumes "queue_reach q"
  shows "(\<exists>s q'. virtio_split_enqueue (Some q) to head tok minl maxl = Some (s, Some q') \<and>
       (if s = VIRTIO_OK then handed_over q q' head tok minl maxl else q' = q)) \<and>
     (\<exists>s d' q'. virtio_split_take (Some q) d = (s, d', Some q') \<and>
       (if s = VIRTIO_OK then \<exists>c. d' = Some c \<and> taken_back q q' c
        else d' = d \<and> owners q' = owners q \<and> claimed q' = claimed q))"
proof -
  note ok = queue_reach_ok [OF assms]
  show ?thesis using enqueue_outcome [OF ok, of to head tok minl maxl] take_outcome [OF ok, of d] by (metis (no_types, lifting))
qed

theorem split_queue_transfers_witness:
  "\<exists>q'. virtio_split_enqueue (Some sample_queue) (Some sample_transport) 1 7 0 512 = Some (VIRTIO_OK, Some q') \<and>
     handed_over sample_queue q' 1 7 0 512"
proof -
  have "\<exists>q'. virtio_split_enqueue (Some sample_queue) (Some sample_transport) 1 7 0 512 = Some (VIRTIO_OK, Some q')"
    by (simp add: virtio_split_enqueue_def descriptor_walk.simps sample_queue_def sample_transport_def fresh_queue_def no_owner_def no_fault_def
      word_le_nat_alt)
  then show ?thesis
    using split_queue_transfers [OF sample_queue_reach, of "Some sample_transport" 1 7 0 512] by auto
qed

end
