(* ===== verification/Credentials.thy ===== *)
theory Credentials
  imports Kernel_Prelude
begin

text \<open>
  Credentials: the identity and capability sets of a task (\<^verbatim>\<open>src/kernel/credentials.c\<close>) and the pure part of the
  calls that change them (\<^verbatim>\<open>src/kernel/syscall/credentials.c\<close>, \<^verbatim>\<open>src/kernel/exec_credentials.c\<close>). A published credential object is
  immutable, so it is a value here; its reference count and the heap it lives on are left out. The
  account of a user is named by the user id, of which the account table holds one entry each.
\<close>

unbundle bit_operations_syntax

record kernel_credentials =
  uid :: u32
  euid :: u32
  suid :: u32
  fsuid :: u32
  gid :: u32
  egid :: u32
  sgid :: u32
  fsgid :: u32
  groups :: "u32 list option"
  effective :: u64
  permitted :: u64
  inheritable :: u64
  bounding :: u64
  ambient :: u64
  securebits :: u32
  account :: u32

abbreviation (input) CAP_VALID_MASK :: u64 where "CAP_VALID_MASK \<equiv> 0x1FFFFFFFFFF"
abbreviation (input) CAP_LAST_CAP :: nat where "CAP_LAST_CAP \<equiv> 40"
abbreviation (input) CAP_SETGID :: nat where "CAP_SETGID \<equiv> 6"
abbreviation (input) CAP_SETUID :: nat where "CAP_SETUID \<equiv> 7"
abbreviation (input) CAP_SETPCAP :: nat where "CAP_SETPCAP \<equiv> 8"
abbreviation (input) CAP_SYS_ADMIN :: nat where "CAP_SYS_ADMIN \<equiv> 21"
abbreviation (input) CAP_SYS_RESOURCE :: nat where "CAP_SYS_RESOURCE \<equiv> 24"
abbreviation (input) SECBIT_NOROOT :: u32 where "SECBIT_NOROOT \<equiv> 1"
abbreviation (input) SECBIT_NO_SETUID_FIXUP :: u32 where "SECBIT_NO_SETUID_FIXUP \<equiv> 4"
abbreviation (input) SECBIT_KEEP_CAPS :: u32 where "SECBIT_KEEP_CAPS \<equiv> 16"
abbreviation (input) SECBIT_KEEP_CAPS_LOCKED :: u32 where "SECBIT_KEEP_CAPS_LOCKED \<equiv> 32"
abbreviation (input) SECBIT_NO_CAP_AMBIENT_RAISE :: u32 where "SECBIT_NO_CAP_AMBIENT_RAISE \<equiv> 64"
abbreviation (input) CAP_FS_SET :: u64 where "CAP_FS_SET \<equiv> 0x10800021F"
abbreviation (input) NO_ID :: u32 where "NO_ID \<equiv> - 1"

definition initial_credentials :: kernel_credentials where
  "initial_credentials =
     \<lparr>uid = 0, euid = 0, suid = 0, fsuid = 0, gid = 0, egid = 0, sgid = 0, fsgid = 0, groups = None,
      effective = CAP_VALID_MASK, permitted = CAP_VALID_MASK, inheritable = 0, bounding = CAP_VALID_MASK, ambient = 0,
      securebits = 0, account = 0\<rparr>"

definition capable :: "kernel_credentials \<Rightarrow> nat \<Rightarrow> bool" where
  "capable cred cap \<longleftrightarrow> cap \<le> CAP_LAST_CAP \<and> bit (effective cred) cap"

section \<open>Supplementary groups\<close>

function groups_sift :: "u32 list \<Rightarrow> nat \<Rightarrow> nat \<Rightarrow> u32 list" where
  "groups_sift a root count =
     (if root < count div 2 then
        let left = root * 2 + 1;
            child = (if left + 1 < count \<and> a ! left < a ! (left + 1) then left + 1 else left)
        in if a ! child \<le> a ! root then a
           else groups_sift (a[root := a ! child, child := a ! root]) child count
      else a)"
  by pat_completeness auto
termination
  by (relation "measure (\<lambda>(a, root, count). count - root)") (auto simp: Let_def split: if_splits)

declare groups_sift.simps [simp del]

primrec groups_heapify :: "u32 list \<Rightarrow> nat \<Rightarrow> u32 list" where
  "groups_heapify a 0 = a"
| "groups_heapify a (Suc i) = groups_heapify (groups_sift a i (length a)) i"

fun groups_drain :: "u32 list \<Rightarrow> nat \<Rightarrow> u32 list" where
  "groups_drain a 0 = a"
| "groups_drain a (Suc n) = (if 0 < n then groups_drain (groups_sift (a[0 := a ! n, n := a ! 0]) 0 n) n else a)"

definition credential_groups_sort :: "u32 list \<Rightarrow> u32 list" where
  "credential_groups_sort ids = groups_drain (groups_heapify ids (length ids div 2)) (length ids)"

function group_search :: "u32 list \<Rightarrow> u32 \<Rightarrow> nat \<Rightarrow> nat \<Rightarrow> bool" where
  "group_search ids g lo hi =
     (if lo < hi then
        let mid = lo + (hi - lo) div 2
        in if ids ! mid = g then True
           else if ids ! mid < g then group_search ids g (mid + 1) hi
           else group_search ids g lo mid
      else False)"
  by pat_completeness auto
termination
  by (relation "measure (\<lambda>(ids, g, lo, hi). hi - lo)") auto

declare group_search.simps [simp del]

definition in_group :: "kernel_credentials \<Rightarrow> u32 \<Rightarrow> bool" where
  "in_group cred g \<longleftrightarrow> fsgid cred = g \<or> (case groups cred of None \<Rightarrow> False | Some ids \<Rightarrow> group_search ids g 0 (length ids))"

section \<open>User id changes\<close>

definition uid_fixup :: "kernel_credentials \<Rightarrow> kernel_credentials \<Rightarrow> bool \<Rightarrow> kernel_credentials" where
  "uid_fixup candidate old filesystem =
     (if securebits old AND SECBIT_NO_SETUID_FIXUP \<noteq> 0 then candidate
      else if filesystem then
        let c1 = (if fsuid old = 0 \<and> fsuid candidate \<noteq> 0 then candidate\<lparr>effective := effective candidate AND NOT CAP_FS_SET\<rparr> else candidate)
        in if fsuid old \<noteq> 0 \<and> fsuid c1 = 0 then c1\<lparr>effective := effective c1 OR (permitted c1 AND CAP_FS_SET)\<rparr> else c1
      else
        let c1 = (if (uid old = 0 \<or> euid old = 0 \<or> suid old = 0) \<and> uid candidate \<noteq> 0 \<and> euid candidate \<noteq> 0 \<and> suid candidate \<noteq> 0
                  then (if securebits old AND SECBIT_KEEP_CAPS = 0 then candidate\<lparr>permitted := 0, effective := 0\<rparr> else candidate)\<lparr>ambient := 0\<rparr>
                  else candidate);
            c2 = (if euid old = 0 \<and> euid c1 \<noteq> 0 then c1\<lparr>effective := 0\<rparr> else c1)
        in if euid old \<noteq> 0 \<and> euid c2 = 0 then c2\<lparr>effective := permitted c2\<rparr> else c2)"

definition is_id :: "u32 \<Rightarrow> u32 \<Rightarrow> u32 \<Rightarrow> u32 \<Rightarrow> bool" where
  "is_id i a b c \<longleftrightarrow> i = a \<or> i = b \<or> i = c"

section \<open>Program execution\<close>

record exec_metadata =
  fmode :: u32
  fuid :: u32
  fgid :: u32
  filecap :: "u8 list"
  filecap_size :: nat
  filecap_present :: bool
  nosuid :: bool
  readable :: bool

definition little32 :: "u8 list \<Rightarrow> u32" where
  "little32 p = ucast (p ! 0) OR push_bit 8 (ucast (p ! 1)) OR push_bit 16 (ucast (p ! 2)) OR push_bit 24 (ucast (p ! 3))"

text \<open>The file capabilities: an error, none, or the effective flag with the two masked sets.\<close>

datatype filecaps = Bad_Filecap | No_Filecap | Filecap bool u64 u64

definition decode_filecap :: "exec_metadata \<Rightarrow> filecaps" where
  "decode_filecap f =
     (if nosuid f \<or> \<not> filecap_present f then No_Filecap
      else if filecap_size f < 4 then Bad_Filecap
      else
        let magic = little32 (filecap f); revision = drop_bit 24 magic;
            expected = (if revision = 1 then 12 else if revision = 2 then 20 else if revision = 3 then 24 else 0)
        in if expected = 0 \<or> expected \<noteq> filecap_size f then Bad_Filecap
           else if revision = 3 \<and> little32 (drop 20 (filecap f)) \<noteq> 0 then No_Filecap
           else
             let fp = ucast (little32 (drop 4 (filecap f))) :: u64; fi = ucast (little32 (drop 8 (filecap f))) :: u64;
                 fp' = (if revision \<noteq> 1 then fp OR push_bit 32 (ucast (little32 (drop 12 (filecap f)))) else fp);
                 fi' = (if revision \<noteq> 1 then fi OR push_bit 32 (ucast (little32 (drop 16 (filecap f)))) else fi)
             in Filecap (magic AND 1 \<noteq> 0) (fp' AND CAP_VALID_MASK) (fi' AND CAP_VALID_MASK))"

text \<open>From the file's capabilities on: the root rule, the downgrade, ambient merging and the two flags.\<close>

definition root_rule :: "kernel_credentials \<Rightarrow> kernel_credentials \<Rightarrow> bool \<Rightarrow> bool \<Rightarrow> kernel_credentials \<times> bool" where
  "root_rule next0 old has_filecap eff =
     (if securebits old AND SECBIT_NOROOT = 0 \<and> \<not> (has_filecap \<and> uid next0 \<noteq> 0 \<and> euid next0 = 0)
      then (if uid next0 = 0 \<or> euid next0 = 0 then next0\<lparr>permitted := bounding old OR inheritable old\<rparr> else next0,
            if euid next0 = 0 then True else eff)
      else (next0, eff))"

definition downgrade :: "kernel_credentials \<Rightarrow> kernel_credentials \<Rightarrow> bool \<Rightarrow> bool \<Rightarrow> bool \<Rightarrow> kernel_credentials" where
  "downgrade n old id_changed unsafe_fs no_new_privs =
     (if (id_changed \<or> permitted n AND NOT (permitted old) \<noteq> 0) \<and> (unsafe_fs \<or> no_new_privs)
      then (if \<not> capable old CAP_SETUID \<or> no_new_privs then n\<lparr>euid := uid n, egid := gid n\<rparr> else n)\<lparr>permitted := permitted n AND permitted old\<rparr>
      else n)"

definition merge_ambient :: "kernel_credentials \<Rightarrow> bool \<Rightarrow> bool \<Rightarrow> kernel_credentials" where
  "merge_ambient n clear_ambient eff =
     (let n1 = n\<lparr>suid := euid n, fsuid := euid n, sgid := egid n, fsgid := egid n\<rparr>;
          n2 = (if clear_ambient then n1\<lparr>ambient := 0\<rparr> else n1);
          n3 = n2\<lparr>permitted := permitted n2 OR ambient n2\<rparr>
      in n3\<lparr>effective := (if eff then permitted n3 else ambient n3), securebits := securebits n3 AND NOT SECBIT_KEEP_CAPS\<rparr>)"

definition exec_finish ::
  "kernel_credentials \<Rightarrow> kernel_credentials \<Rightarrow> exec_metadata \<Rightarrow> bool \<Rightarrow> bool \<Rightarrow> bool \<Rightarrow> bool \<Rightarrow> kernel_credentials \<times> bool \<times> bool" where
  "exec_finish next0 old f has_filecap eff0 unsafe_fs no_new_privs =
     (let (n1, eff) = root_rule next0 old has_filecap eff0;
          id_changed = (euid n1 \<noteq> euid old \<or> \<not> in_group old (egid n1));
          n = merge_ambient (downgrade n1 old id_changed unsafe_fs no_new_privs) (has_filecap \<or> id_changed) eff
      in (n,
          id_changed \<or> euid n \<noteq> uid old \<or> egid n \<noteq> gid old \<or> (uid n \<noteq> 0 \<and> (eff \<or> permitted n AND NOT (ambient n) \<noteq> 0)),
          readable f \<and> euid old = uid old \<and> egid old = gid old \<and> euid n = euid old \<and> egid n = egid old \<and>
            fsuid n = fsuid old \<and> fsgid n = fsgid old \<and> permitted n AND NOT (permitted old) = 0))"

text \<open>\<open>kernel_exec_credentials_prepare\<close> on a candidate: an error code, or the new credentials with the secure-execution and
  dumpable flags.\<close>

definition exec_credentials_prepare ::
  "kernel_credentials \<Rightarrow> kernel_credentials \<Rightarrow> exec_metadata \<Rightarrow> bool \<Rightarrow> bool \<Rightarrow> int + kernel_credentials \<times> bool \<times> bool" where
  "exec_credentials_prepare candidate old f unsafe_fs no_new_privs =
     (let n0 = candidate\<lparr>permitted := 0\<rparr>;
          n1 = (if \<not> nosuid f \<and> \<not> no_new_privs then
                  (let m = (if fmode f AND 0x800 \<noteq> 0 then n0\<lparr>euid := fuid f\<rparr> else n0)
                   in if fmode f AND 0x408 = 0x408 then m\<lparr>egid := fgid f\<rparr> else m)
                else n0)
      in case decode_filecap f of
           Bad_Filecap \<Rightarrow> Inl (- 22)
         | No_Filecap \<Rightarrow> Inr (exec_finish n1 old f False False unsafe_fs no_new_privs)
         | Filecap eff fp fi \<Rightarrow>
             let n2 = n1\<lparr>permitted := (bounding n1 AND fp) OR (inheritable n1 AND fi)\<rparr>
             in if eff \<and> fp AND NOT (permitted n2) \<noteq> 0 then Inl (- 1)
                else Inr (exec_finish n2 old f True eff unsafe_fs no_new_privs))"

end
