(* ===== verification/Cred_Sets.thy ===== *)
theory Cred_Sets
  imports Credentials Qsort_Sort
begin

text \<open>
  Credentials as values: the well-formedness of the capability sets, what one change may do to them
  (\<open>confined\<close>), and the supplementary groups as a sorted list with an exact membership test.
\<close>

section \<open>Groups\<close>

text \<open>The in-place heap sort of the groups is the list heap sort of \<open>qsort\<close> with the order of the ids.\<close>

definition id_order :: "u32 \<Rightarrow> u32 \<Rightarrow> int" where
  "id_order x y = (if x < y then - 1 else if x = y then 0 else 1)"

lemma id_order_orders: "orders id_order"
  unfolding orders_def id_order_def by (auto split: if_splits)

lemma id_order_less: "id_order x y < 0 \<longleftrightarrow> x < y"
  by (auto simp: id_order_def)

lemma id_order_le: "id_order x y \<le> 0 \<longleftrightarrow> x \<le> y"
  by (auto simp: id_order_def)

lemma groups_sift_list: "root < length a \<Longrightarrow> n \<le> length a \<Longrightarrow> groups_sift a root n = list_sift id_order n root a"
proof (induction a root n rule: groups_sift.induct)
  case (1 a root n)
  define left where "left = root * 2 + 1"
  define child where "child = (if left + 1 < n \<and> a ! left < a ! (left + 1) then left + 1 else left)"
  show ?case
  proof (cases "root < n div 2")
    case True
    have lc: "left < n" using True by (simp add: left_def)
    have cb: "child < n" "root < child" using lc by (auto simp: child_def left_def)
    have lch: "list_child id_order n root a = (if a ! child \<le> a ! root then root else child)"
      unfolding list_child_def Let_def id_order_less child_def left_def [symmetric] using lc by (auto split: if_splits)
    have unf: "groups_sift a root n = (if a ! child \<le> a ! root then a else groups_sift (a[root := a ! child, child := a ! root]) child n)"
      using groups_sift.simps [of a root n] True unfolding Let_def child_def left_def by simp
    have guard: "\<not> (n - 1) div 2 < root" using True by linarith
    show ?thesis
    proof (cases "a ! child \<le> a ! root")
      case stop: True
      then have "groups_sift a root n = a" using unf by simp
      moreover have "list_sift id_order n root a = a" using lch stop by (subst list_sift.simps) simp
      ultimately show ?thesis by simp
    next
      case go: False
      have "groups_sift a root n = groups_sift (a[root := a ! child, child := a ! root]) child n"
        using unf go by simp
      also have "\<dots> = list_sift id_order n child (a[root := a ! child, child := a ! root])"
        using 1(1) [OF True left_def child_def go] 1(2,3) cb by simp
      also have "\<dots> = list_sift id_order n root a"
        using guard lch go cb by (subst (2) list_sift.simps) (simp add: Let_def swapped_def)
      finally show ?thesis .
    qed
  next
    case False
    have nochild: "\<not> root * 2 + 1 < n" using False by linarith
    have "groups_sift a root n = a" using False by (subst groups_sift.simps) simp
    moreover have "list_child id_order n root a = root" using nochild by (simp add: list_child_def)
    then have "list_sift id_order n root a = a" by (subst list_sift.simps) simp
    ultimately show ?thesis by simp
  qed
qed

lemma list_sift_length: "length (list_sift cmp n r xs) = length xs"
  by (induction cmp n r xs rule: list_sift.induct) (subst list_sift.simps, simp add: Let_def)

lemma groups_heapify_list: "i \<le> length a \<Longrightarrow> groups_heapify a i = list_build id_order (length a) i a"
  by (induction i arbitrary: a) (simp_all add: groups_sift_list list_sift_length)

lemma groups_drain_list: "n \<le> length a \<Longrightarrow> groups_drain a n = list_drain id_order n a"
proof (induction n arbitrary: a)
  case (Suc n)
  show ?case
  proof (cases "0 < n")
    case True
    then have "0 < length a" using Suc.prems by linarith
    then have "groups_sift (a[0 := a ! n, n := a ! 0]) 0 n = list_sift id_order n 0 (swapped 0 n a)"
      using Suc.prems by (simp add: groups_sift_list swapped_def)
    then show ?thesis using True Suc by (simp add: list_sift_length)
  qed simp
qed simp

lemma list_build_length: "length (list_build cmp n i xs) = length xs"
  by (induction i arbitrary: xs) (simp_all add: list_sift_length)

lemma groups_sort_spec: "sorted (credential_groups_sort ids)" "mset (credential_groups_sort ids) = mset ids"
proof -
  have e: "credential_groups_sort ids = list_drain id_order (length ids) (list_build id_order (length ids) (length ids div 2) ids)"
    unfolding credential_groups_sort_def by (simp add: groups_heapify_list groups_drain_list list_build_length)
  show "sorted (credential_groups_sort ids)" "mset (credential_groups_sort ids) = mset ids"
    using list_sort_spec [OF id_order_orders, of ids] unfolding e id_order_le by simp_all
qed

lemma group_search_iff:
  "sorted ids \<Longrightarrow> hi \<le> length ids \<Longrightarrow> group_search ids g lo hi \<longleftrightarrow> (\<exists>i. lo \<le> i \<and> i < hi \<and> ids ! i = g)"
proof (induction ids g lo hi rule: group_search.induct)
  case (1 ids g lo hi)
  note so = 1(3) and le = 1(4)
  define mid where "mid = lo + (hi - lo) div 2"
  show ?case
  proof (cases "lo < hi")
    case True
    have m: "lo \<le> mid" "mid < hi" "mid < length ids" using True le by (auto simp: mid_def)
    have below: "ids ! i \<le> ids ! mid" if "i \<le> mid" for i by (rule sorted_nth_mono [OF so that m(3)])
    have above: "ids ! mid \<le> ids ! i" if "mid \<le> i" "i < hi" for i by (rule sorted_nth_mono [OF so that(1)]) (use that le in linarith)
    have unf: "group_search ids g lo hi \<longleftrightarrow> (if ids ! mid = g then True else if ids ! mid < g then group_search ids g (mid + 1) hi else group_search ids g lo mid)"
      using True by (subst group_search.simps) (simp add: Let_def mid_def)
    consider "ids ! mid = g" | "ids ! mid < g" | "ids ! mid \<noteq> g" "\<not> ids ! mid < g" by fastforce
    then show ?thesis
    proof cases
      case 1
      then show ?thesis using unf m by auto
    next
      case less: 2
      have "group_search ids g lo hi \<longleftrightarrow> (\<exists>i. mid + 1 \<le> i \<and> i < hi \<and> ids ! i = g)"
        using unf 1(1) [OF True mid_def _ less so le] less by auto
      moreover have "mid + 1 \<le> i" if "ids ! i = g" for i using below [of i] that less by (cases "i \<le> mid") auto
      ultimately show ?thesis using m(1) by (metis add_leD1 le_trans)
    next
      case more: 3
      have "group_search ids g lo hi \<longleftrightarrow> (\<exists>i. lo \<le> i \<and> i < mid \<and> ids ! i = g)"
        using unf 1(2) [OF True mid_def more so] m(3) more by auto
      moreover have "i < mid" if "i < hi" "ids ! i = g" for i using above [of i] that more by (cases "mid \<le> i") auto
      ultimately show ?thesis using m(2) by (metis less_trans)
    qed
  next
    case False
    then show ?thesis by (subst group_search.simps) auto
  qed
qed

lemma group_search_member: "sorted ids \<Longrightarrow> group_search ids g 0 (length ids) \<longleftrightarrow> g \<in> set ids"
  by (simp add: group_search_iff in_set_conv_nth)

section \<open>Capability sets\<close>

definition caps_in :: "u64 \<Rightarrow> u64 \<Rightarrow> bool" where
  "caps_in a b \<longleftrightarrow> (\<forall>i. bit a i \<longrightarrow> bit b i)"

lemma caps_in_simps [simp]: "caps_in a a" "caps_in 0 a"
  by (simp_all add: caps_in_def)

lemma caps_in_trans: "caps_in a b \<Longrightarrow> caps_in b c \<Longrightarrow> caps_in a c"
  by (simp add: caps_in_def)

lemma caps_in_test: "a AND NOT b = 0 \<longleftrightarrow> caps_in a b"
proof
  assume e: "a AND NOT b = 0"
  have "bit b i" if "bit a i" for i
  proof -
    have "i < 64" using that bit_imp_le_length by fastforce
    moreover have "\<not> bit (a AND NOT b) i" unfolding e by simp
    ultimately show ?thesis using that by (simp add: bit_simps)
  qed
  then show "caps_in a b" by (simp add: caps_in_def)
next
  assume "caps_in a b"
  then show "a AND NOT b = 0" by (intro bit_word_eqI) (auto simp: bit_simps caps_in_def)
qed

lemma caps_in_ops [simp]:
  "caps_in (a AND b) a" "caps_in (a AND b) b" "caps_in a (a OR b)" "caps_in b (a OR b)"
  "caps_in (a OR b) c \<longleftrightarrow> caps_in a c \<and> caps_in b c" "caps_in c (a AND b) \<longleftrightarrow> caps_in c a \<and> caps_in c b"
  by (auto simp: caps_in_def bit_simps)

lemma caps_in_and_left: "caps_in a c \<Longrightarrow> caps_in (a AND b) c"
  by (auto simp: caps_in_def bit_simps)

lemma caps_in_or_right: "caps_in a b \<Longrightarrow> caps_in a (b OR c)" "caps_in a c \<Longrightarrow> caps_in a (b OR c)"
  by (auto simp: caps_in_def bit_simps)

definition cred_ok :: "kernel_credentials \<Rightarrow> bool" where
  "cred_ok c \<longleftrightarrow> caps_in (effective c) (permitted c) \<and> caps_in (ambient c) (permitted c) \<and> caps_in (ambient c) (inheritable c) \<and>
     caps_in (permitted c) CAP_VALID_MASK \<and> caps_in (inheritable c) CAP_VALID_MASK \<and> caps_in (bounding c) CAP_VALID_MASK \<and>
     (case groups c of None \<Rightarrow> True | Some ids \<Rightarrow> sorted ids) \<and> account c = uid c"

text \<open>What a change may do to the privileges of a task without the help of another program.\<close>

definition uids :: "kernel_credentials \<Rightarrow> u32 set" where
  "uids c = {uid c, euid c, suid c, fsuid c}"

definition gids :: "kernel_credentials \<Rightarrow> u32 set" where
  "gids c = {gid c, egid c, sgid c, fsgid c}"

definition confined :: "kernel_credentials \<Rightarrow> kernel_credentials \<Rightarrow> bool" where
  "confined c c' \<longleftrightarrow> caps_in (permitted c') (permitted c) \<and> caps_in (bounding c') (bounding c) \<and>
     caps_in (inheritable c') (inheritable c OR bounding c) \<and>
     (\<not> bit (permitted c) CAP_SETUID \<longrightarrow> uids c' \<subseteq> uids c) \<and>
     (\<not> bit (permitted c) CAP_SETGID \<longrightarrow> gids c' \<subseteq> gids c \<and> groups c' = groups c)"

lemma confined_refl [simp]: "confined c c"
  by (simp add: confined_def)

lemma confined_trans:
  assumes "confined a b" "confined b c"
  shows "confined a c"
proof -
  have p: "caps_in (permitted c) (permitted a)" "caps_in (bounding c) (bounding a)"
    using assms caps_in_trans unfolding confined_def by blast+
  have "caps_in (inheritable c) (inheritable b OR bounding b)" "caps_in (inheritable b) (inheritable a OR bounding a)"
    "caps_in (bounding b) (bounding a)" using assms unfolding confined_def by blast+
  then have "caps_in (inheritable c) (inheritable a OR bounding a)" by (auto simp: caps_in_def bit_simps)
  moreover have "\<not> bit (permitted b) i" if "\<not> bit (permitted a) i" for i
    using that assms(1) by (auto simp: confined_def caps_in_def)
  ultimately show ?thesis using p assms unfolding confined_def by auto
qed

lemma capable_permitted: "cred_ok c \<Longrightarrow> capable c cap \<Longrightarrow> bit (permitted c) cap"
  by (simp add: cred_ok_def capable_def caps_in_def)

section \<open>The changes one by one\<close>

lemma uid_fixup_fields:
  "uid (uid_fixup c old fs) = uid c" "euid (uid_fixup c old fs) = euid c" "suid (uid_fixup c old fs) = suid c" "fsuid (uid_fixup c old fs) = fsuid c"
  "gid (uid_fixup c old fs) = gid c" "egid (uid_fixup c old fs) = egid c" "sgid (uid_fixup c old fs) = sgid c" "fsgid (uid_fixup c old fs) = fsgid c"
  "groups (uid_fixup c old fs) = groups c" "inheritable (uid_fixup c old fs) = inheritable c" "bounding (uid_fixup c old fs) = bounding c"
  "securebits (uid_fixup c old fs) = securebits c" "account (uid_fixup c old fs) = account c"
  by (simp_all add: uid_fixup_def Let_def)

lemma uid_fixup_caps:
  assumes "caps_in (effective c) (permitted c)" "caps_in (ambient c) (permitted c)"
  shows "caps_in (permitted (uid_fixup c old fs)) (permitted c)" "caps_in (effective (uid_fixup c old fs)) (permitted (uid_fixup c old fs))"
    "caps_in (ambient (uid_fixup c old fs)) (permitted (uid_fixup c old fs))" "caps_in (ambient (uid_fixup c old fs)) (ambient c)"
  using assms by (simp_all add: uid_fixup_def Let_def caps_in_and_left)

lemma uid_fixup_ok:
  assumes "cred_ok old" "caps_in (effective c) (permitted c)" "effective c = effective old" "permitted c = permitted old" "inheritable c = inheritable old"
    "bounding c = bounding old" "ambient c = ambient old" "groups c = groups old" "account c = uid c"
  shows "cred_ok (uid_fixup c old fs)" "caps_in (permitted (uid_fixup c old fs)) (permitted old)"
proof -
  have a: "caps_in (ambient c) (permitted c)" "caps_in (ambient c) (inheritable c)" "caps_in (permitted c) CAP_VALID_MASK"
    using assms by (simp_all add: cred_ok_def)
  note F = uid_fixup_caps [OF assms(2) a(1), of old fs]
  show "caps_in (permitted (uid_fixup c old fs)) (permitted old)" using F(1) assms(4) by simp
  show "cred_ok (uid_fixup c old fs)"
    unfolding cred_ok_def uid_fixup_fields using F a assms caps_in_trans [OF F(4) a(2)] caps_in_trans [OF F(1) a(3)]
    by (auto simp: cred_ok_def)
qed

text \<open>The three steps of an exec.\<close>

lemma root_rule_fields:
  assumes "root_rule n old has eff0 = (n1, eff)"
  shows "n1 = n\<lparr>permitted := permitted n1\<rparr>" "permitted n1 = permitted n \<or> permitted n1 = bounding old OR inheritable old"
  using assms by (auto simp: root_rule_def split: if_splits)

lemma downgrade_fields:
  "downgrade n old ch unsafe nnp = n\<lparr>permitted := permitted (downgrade n old ch unsafe nnp), euid := euid (downgrade n old ch unsafe nnp),
     egid := egid (downgrade n old ch unsafe nnp)\<rparr>"
  "caps_in (permitted (downgrade n old ch unsafe nnp)) (permitted n)"
  "nnp \<Longrightarrow> caps_in (permitted (downgrade n old ch unsafe nnp)) (permitted old)"
  "euid (downgrade n old ch unsafe nnp) = euid n \<or> euid (downgrade n old ch unsafe nnp) = uid n"
  "egid (downgrade n old ch unsafe nnp) = egid n \<or> egid (downgrade n old ch unsafe nnp) = gid n"
  by (simp_all add: downgrade_def caps_in_test)

lemma merge_ambient_fields:
  "uid (merge_ambient n cl eff) = uid n" "gid (merge_ambient n cl eff) = gid n" "euid (merge_ambient n cl eff) = euid n"
  "egid (merge_ambient n cl eff) = egid n" "suid (merge_ambient n cl eff) = euid n" "fsuid (merge_ambient n cl eff) = euid n"
  "sgid (merge_ambient n cl eff) = egid n" "fsgid (merge_ambient n cl eff) = egid n" "groups (merge_ambient n cl eff) = groups n"
  "inheritable (merge_ambient n cl eff) = inheritable n" "bounding (merge_ambient n cl eff) = bounding n" "account (merge_ambient n cl eff) = account n"
  "ambient (merge_ambient n cl eff) = (if cl then 0 else ambient n)"
  "permitted (merge_ambient n cl eff) = permitted n OR (if cl then 0 else ambient n)"
  "caps_in (effective (merge_ambient n cl eff)) (permitted (merge_ambient n cl eff))"
  by (simp_all add: merge_ambient_def Let_def)

lemma exec_finish_steps:
  obtains n1 n2 cl eff' where "fst (exec_finish n old f has eff unsafe nnp) = merge_ambient n2 cl eff'"
    "n1 = n\<lparr>permitted := permitted n1\<rparr>" "permitted n1 = permitted n \<or> permitted n1 = bounding old OR inheritable old"
    "n2 = n1\<lparr>permitted := permitted n2, euid := euid n2, egid := egid n2\<rparr>" "caps_in (permitted n2) (permitted n1)"
    "nnp \<longrightarrow> caps_in (permitted n2) (permitted old)" "euid n2 = euid n1 \<or> euid n2 = uid n1" "egid n2 = egid n1 \<or> egid n2 = gid n1"
proof -
  obtain n1 eff' where r: "root_rule n old has eff = (n1, eff')" by fastforce
  define ch where "ch = (euid n1 \<noteq> euid old \<or> \<not> in_group old (egid n1))"
  have "fst (exec_finish n old f has eff unsafe nnp) = merge_ambient (downgrade n1 old ch unsafe nnp) (has \<or> ch) eff'"
    by (simp add: exec_finish_def r ch_def Let_def)
  then show ?thesis
    by (rule that) (use root_rule_fields [OF r] downgrade_fields [where n = n1 and old = old and ch = ch and unsafe = unsafe and nnp = nnp] in auto)
qed

lemma exec_finish_ok:
  assumes "cred_ok old" "caps_in (permitted n) CAP_VALID_MASK" "inheritable n = inheritable old" "bounding n = bounding old" "ambient n = ambient old"
    "groups n = groups old" "account n = account old" "uid n = uid old" and r: "r = fst (exec_finish n old f has eff unsafe nnp)"
  shows "cred_ok r" "bounding r = bounding old" "inheritable r = inheritable old" "groups r = groups old" "uid r = uid old" "gid r = gid n"
    "suid r = euid r" "fsuid r = euid r" "sgid r = egid r" "fsgid r = egid r" "euid r = euid n \<or> euid r = uid old" "egid r = egid n \<or> egid r = gid n"
    "nnp \<Longrightarrow> caps_in (permitted r) (permitted old)"
proof -
  have c: "caps_in (inheritable old) CAP_VALID_MASK" "caps_in (bounding old) CAP_VALID_MASK" "caps_in (ambient old) (inheritable old)"
    "case groups old of None \<Rightarrow> True | Some ids \<Rightarrow> sorted ids" "account old = uid old" "caps_in (ambient old) (permitted old)"
    using assms(1) by (simp_all add: cred_ok_def)
  have av: "caps_in (ambient old) CAP_VALID_MASK" using caps_in_trans [OF c(3,1)] .
  obtain n1 n2 cl eff' where s: "r = merge_ambient n2 cl eff'"
    "n1 = n\<lparr>permitted := permitted n1\<rparr>" "permitted n1 = permitted n \<or> permitted n1 = bounding old OR inheritable old"
    "n2 = n1\<lparr>permitted := permitted n2, euid := euid n2, egid := egid n2\<rparr>" "caps_in (permitted n2) (permitted n1)"
    "nnp \<longrightarrow> caps_in (permitted n2) (permitted old)" "euid n2 = euid n1 \<or> euid n2 = uid n1" "egid n2 = egid n1 \<or> egid n2 = gid n1"
    unfolding r by (rule exec_finish_steps)
  have f1: "uid n1 = uid old" "euid n1 = euid n" "egid n1 = egid n" "gid n1 = gid n" "inheritable n1 = inheritable old" "bounding n1 = bounding old"
    "ambient n1 = ambient old" "groups n1 = groups old" "account n1 = account old" by (subst s(2); simp add: assms(3-8))+
  have f2: "uid n2 = uid old" "gid n2 = gid n" "inheritable n2 = inheritable old" "bounding n2 = bounding old"
    "ambient n2 = ambient old" "groups n2 = groups old" "account n2 = account old" by (subst s(4); simp add: f1)+
  note M = merge_ambient_fields [of n2 cl eff', folded s(1)]
  show R: "bounding r = bounding old" "inheritable r = inheritable old" "groups r = groups old" "uid r = uid old" "gid r = gid n"
    "suid r = euid r" "fsuid r = euid r" "sgid r = egid r" "fsgid r = egid r" using M f2 by simp_all
  show "euid r = euid n \<or> euid r = uid old" "egid r = egid n \<or> egid r = gid n" using M s(7,8) f1 by simp_all
  show "caps_in (permitted r) (permitted old)" if nnp using M(14) that s(6) c(6) f2(5) by simp
  have "caps_in (permitted n1) CAP_VALID_MASK" using s(3) assms(2) c(1,2) by auto
  then have "caps_in (permitted r) CAP_VALID_MASK" using M(14) caps_in_trans [OF s(5)] av f2(5) by simp
  moreover have "caps_in (ambient r) (permitted r)" "caps_in (ambient r) (inheritable r)" using M(13,14) R(2) c(3) f2(5) by simp_all
  moreover have "account r = account old" using M(12) f2(7) by simp
  ultimately show "cred_ok r" unfolding cred_ok_def R using M(15) c by simp
qed

end
