(* ===== verification/Cred_World.thy ===== *)
theory Cred_World
  imports Credentials
begin

text \<open>
  Tasks with their credentials, the process count of each user and the calls on them:
  \<^verbatim>\<open>src/kernel/rlimit.c\<close> (process limit), the publication of credentials in \<^verbatim>\<open>src/kernel/credentials.c\<close> and
  \<^verbatim>\<open>src/kernel/sched/process.c\<close>, and the system calls of \<^verbatim>\<open>src/kernel/syscall/credentials.c\<close> and \<^verbatim>\<open>src/kernel/syscall/capability.c\<close>.
  The execution security record of a task, shared by threads, is a store entry with its dumpable flag.
  What the surroundings decide in a call is its environment \<open>cred_env\<close>: whether the heap serves an allocation, what user memory holds and whether it can be written,
  and the task lookup. \<open>None\<close> is a trap or the access to a task that does not exist.
\<close>

section \<open>Tasks\<close>

record cred_task =
  credentials :: "kernel_credentials option"
  security :: ptr
  no_new_privs :: bool
  resource_flags :: u32
  nproc_limit :: u64
  tid :: int

record cred_world =
  tasks :: "ptr \<rightharpoonup> cred_task"
  processes :: "u32 \<Rightarrow> u64"
  dumpable :: "ptr \<rightharpoonup> u32"

record cred_env =
  clone_ok :: bool
  account_ok :: bool
  groups_ok :: bool
  mm_ok :: bool
  new_security :: ptr
  from_user :: "u64 \<Rightarrow> nat \<Rightarrow> u8 list option"
  to_user :: "u64 \<Rightarrow> u8 list \<Rightarrow> bool"
  find_by_tid :: "int \<Rightarrow> ptr"

abbreviation (input) NPROC_CHARGED :: u32 where "NPROC_CHARGED \<equiv> 1"
abbreviation (input) NPROC_EXCEEDED :: u32 where "NPROC_EXCEEDED \<equiv> 2"

definition task_credentials :: "cred_task \<Rightarrow> kernel_credentials" where
  "task_credentials t = (case credentials t of None \<Rightarrow> initial_credentials | Some c \<Rightarrow> c)"

definition set_task :: "cred_world \<Rightarrow> ptr \<Rightarrow> cred_task \<Rightarrow> cred_world" where
  "set_task w p t = w\<lparr>tasks := (tasks w)(p \<mapsto> t)\<rparr>"

section \<open>The process limit\<close>

definition nproc_acquire :: "cred_world \<Rightarrow> ptr \<Rightarrow> ptr \<Rightarrow> (int \<times> cred_world) option" where
  "nproc_acquire w p parent = do {
     t \<leftarrow> tasks w p;
     cred \<leftarrow> credentials t;
     limit \<leftarrow> (if parent \<noteq> 0 then map_option nproc_limit (tasks w parent) else Some (nproc_limit t));
     if resource_flags t AND NPROC_CHARGED \<noteq> 0 then None
     else if processes w (account cred) = - 1 then None
     else if limit \<le> processes w (account cred) \<and> uid cred \<noteq> 0 \<and> \<not> capable cred CAP_SYS_RESOURCE \<and> \<not> capable cred CAP_SYS_ADMIN
     then Some (- 11, w)
     else
       let w1 = w\<lparr>processes := (processes w)(account cred := processes w (account cred) + 1)\<rparr>
       in do {
         inherited \<leftarrow> (if parent \<noteq> 0 then map_option (\<lambda>q. resource_flags q AND NPROC_EXCEEDED) (tasks w1 parent) else Some 0);
         (let w2 = set_task w1 p (t\<lparr>resource_flags := resource_flags t OR (NPROC_CHARGED OR inherited)\<rparr>)
          in if parent \<noteq> 0
             then do { q \<leftarrow> tasks w2 parent; Some (0, set_task w2 parent (q\<lparr>resource_flags := resource_flags q AND NOT NPROC_EXCEEDED\<rparr>)) }
             else Some (0, w2))
       }
   }"

definition nproc_release_locked :: "cred_world \<Rightarrow> ptr \<Rightarrow> cred_world option" where
  "nproc_release_locked w p = do {
     t \<leftarrow> tasks w p;
     if resource_flags t AND NPROC_CHARGED = 0 then Some w
     else do {
       cred \<leftarrow> credentials t;
       if processes w (account cred) = 0 then None
       else Some (set_task (w\<lparr>processes := (processes w)(account cred := processes w (account cred) - 1)\<rparr>) p
              (t\<lparr>resource_flags := resource_flags t AND NOT NPROC_CHARGED\<rparr>))
     }
   }"

definition nproc_credentials_changed_locked ::
  "cred_world \<Rightarrow> ptr \<Rightarrow> kernel_credentials \<Rightarrow> kernel_credentials \<Rightarrow> cred_world option" where
  "nproc_credentials_changed_locked w p old replacement = do {
     t \<leftarrow> tasks w p;
     if account old = account replacement \<or> resource_flags t AND NPROC_CHARGED = 0 then Some w
     else
       let t1 = (if uid replacement \<noteq> 0 \<and> nproc_limit t < processes w (account replacement)
                 then t\<lparr>resource_flags := resource_flags t OR NPROC_EXCEEDED\<rparr>
                 else t\<lparr>resource_flags := resource_flags t AND NOT NPROC_EXCEEDED\<rparr>)
       in if processes w (account old) = 0 \<or> processes w (account replacement) = - 1 then None
          else
            let ps = (processes w)(account replacement := processes w (account replacement) + 1)
            in Some (set_task (w\<lparr>processes := ps(account old := ps (account old) - 1)\<rparr>) p t1)
   }"

definition nproc_exec :: "cred_world \<Rightarrow> ptr \<Rightarrow> (int \<times> cred_world) option" where
  "nproc_exec w p = do {
     t \<leftarrow> tasks w p;
     cred \<leftarrow> credentials t;
     if resource_flags t AND NPROC_EXCEEDED \<noteq> 0 \<and> nproc_limit t < processes w (account cred) then Some (- 11, w)
     else Some (0, set_task w p (t\<lparr>resource_flags := resource_flags t AND NOT NPROC_EXCEEDED\<rparr>))
   }"

section \<open>Publication\<close>

definition credentials_changed_locked ::
  "cred_world \<Rightarrow> ptr \<Rightarrow> kernel_credentials \<Rightarrow> kernel_credentials \<Rightarrow> cred_world option" where
  "credentials_changed_locked w p old replacement = do {
     w1 \<leftarrow> nproc_credentials_changed_locked w p old replacement;
     t \<leftarrow> tasks w1 p;
     Some (if security t \<noteq> 0 \<and>
              (euid old \<noteq> euid replacement \<or> egid old \<noteq> egid replacement \<or> fsuid old \<noteq> fsuid replacement \<or> fsgid old \<noteq> fsgid replacement \<or>
               permitted replacement AND NOT (permitted old) \<noteq> 0)
           then w1\<lparr>dumpable := (dumpable w1)(security t \<mapsto> 0)\<rparr> else w1)
   }"

definition credentials_publish :: "cred_world \<Rightarrow> ptr \<Rightarrow> kernel_credentials \<Rightarrow> cred_world option" where
  "credentials_publish w p candidate = do {
     t \<leftarrow> tasks w p;
     w1 \<leftarrow> credentials_changed_locked w p (task_credentials t) candidate;
     t1 \<leftarrow> tasks w1 p;
     Some (set_task w1 p (t1\<lparr>credentials := Some candidate\<rparr>))
   }"

definition credentials_set_account :: "cred_env \<Rightarrow> kernel_credentials \<Rightarrow> u32 \<Rightarrow> int \<times> kernel_credentials" where
  "credentials_set_account env cred u =
     (if account cred = u then (0, cred) else if \<not> account_ok env then (- 12, cred) else (0, cred\<lparr>account := u\<rparr>))"

section \<open>Setting ids\<close>

definition set_ids :: "cred_env \<Rightarrow> cred_world \<Rightarrow> ptr \<Rightarrow> nat \<Rightarrow> u32 \<Rightarrow> u32 \<Rightarrow> u32 \<Rightarrow> (int \<times> cred_world) option" where
  "set_ids env w p operation a b c = do {
     t \<leftarrow> tasks w p;
     (let old = task_credentials t;
          is_group = (operation = 143 \<or> operation = 144 \<or> operation = 149 \<or> operation = 152);
          filesystem = (operation = 151 \<or> operation = 152);
          single = (operation = 144 \<or> operation = 146);
          re = (operation = 143 \<or> operation = 145);
          r = (if is_group then gid old else uid old); e = (if is_group then egid old else euid old);
          s = (if is_group then sgid old else suid old); f = (if is_group then fsgid old else fsuid old);
          privileged = capable old (if is_group then CAP_SETGID else CAP_SETUID)
      in if single \<and> a = NO_ID then Some (- 22, w)
         else if filesystem \<and> a = NO_ID then Some (uint f, w)
         else if \<not> single \<and> \<not> re \<and> \<not> filesystem \<and> (a = NO_ID \<or> a = r) \<and> (b = NO_ID \<or> (b = e \<and> b = f)) \<and> (c = NO_ID \<or> c = s) then Some (0, w)
         else if \<not> single \<and> \<not> re \<and> \<not> filesystem \<and> \<not> privileged \<and>
            ((a \<noteq> NO_ID \<and> \<not> is_id a r e s) \<or> (b \<noteq> NO_ID \<and> \<not> is_id b r e s) \<or> (c \<noteq> NO_ID \<and> \<not> is_id c r e s)) then Some (- 1, w)
         else if \<not> clone_ok env then Some (if filesystem then uint f else - 12, w)
         else if filesystem then
           (if (\<not> is_id a r e s \<and> a \<noteq> f \<and> \<not> privileged) \<or> a = f then Some (uint f, w)
            else do {
              w' \<leftarrow> credentials_publish w p (if is_group then old\<lparr>fsgid := a\<rparr> else uid_fixup (old\<lparr>fsuid := a\<rparr>) old True);
              Some (uint f, w')
            })
         else if single \<and> \<not> privileged \<and> a \<noteq> r \<and> a \<noteq> s then Some (- 1, w)
         else if re \<and> ((a \<noteq> NO_ID \<and> a \<noteq> r \<and> a \<noteq> e \<and> \<not> privileged) \<or> (b \<noteq> NO_ID \<and> \<not> is_id b r e s \<and> \<not> privileged)) then Some (- 1, w)
         else
           let r' = (if single then (if privileged then a else r) else if a \<noteq> NO_ID then a else r);
               e' = (if single then a else if b \<noteq> NO_ID then b else e);
               s' = (if single then (if privileged then a else s)
                     else if re then (if a \<noteq> NO_ID \<or> (b \<noteq> NO_ID \<and> b \<noteq> r) then e' else s)
                     else if c \<noteq> NO_ID then c else s)
           in if is_group
              then do { w' \<leftarrow> credentials_publish w p (old\<lparr>gid := r', egid := e', sgid := s', fsgid := e'\<rparr>); Some (0, w') }
              else
                let (err, candidate) = credentials_set_account env (old\<lparr>uid := r', euid := e', suid := s', fsuid := e'\<rparr>) r'
                in if err \<noteq> 0 then Some (err, w)
                   else do { w' \<leftarrow> credentials_publish w p (uid_fixup candidate old False); Some (0, w') })
   }"

section \<open>User memory\<close>

definition fetch :: "cred_env \<Rightarrow> u64 \<Rightarrow> nat \<Rightarrow> u8 list option" where
  "fetch env address n = (case from_user env address n of None \<Rightarrow> None | Some bs \<Rightarrow> if length bs = n then Some bs else None)"

definition bytes32 :: "u32 \<Rightarrow> u8 list" where
  "bytes32 v = map (\<lambda>k. ucast (drop_bit (8 * k) v)) [0..<4]"

text \<open>The bytes a call writes to user memory, in order, up to the first write that fails.\<close>

primrec copy_out_ids :: "cred_env \<Rightarrow> (u64 \<times> u32) list \<Rightarrow> bool \<times> (u64 \<times> u8 list) list" where
  "copy_out_ids env [] = (True, [])"
| "copy_out_ids env (x # xs) =
     (if to_user env (fst x) (bytes32 (snd x))
      then let (ok, ws) = copy_out_ids env xs in (ok, (fst x, bytes32 (snd x)) # ws)
      else (False, []))"

section \<open>Groups\<close>

text \<open>Reading the ids of the new list: an error code or the list.\<close>

primrec read_ids :: "cred_env \<Rightarrow> u64 \<Rightarrow> nat \<Rightarrow> int + u32 list" where
  "read_ids env address 0 = Inr []"
| "read_ids env address (Suc n) =
     (case fetch env address 4 of
        None \<Rightarrow> Inl (- 14)
      | Some bs \<Rightarrow>
          if little32 bs = NO_ID then Inl (- 22)
          else (case read_ids env (address + 4) n of Inl err \<Rightarrow> Inl err | Inr ids \<Rightarrow> Inr (little32 bs # ids)))"

definition groups_call ::
  "cred_env \<Rightarrow> cred_world \<Rightarrow> ptr \<Rightarrow> nat \<Rightarrow> u64 \<Rightarrow> u64 \<Rightarrow> (int \<times> (u64 \<times> u8 list) list \<times> cred_world) option" where
  "groups_call env w p number arg0 address = do {
     t \<leftarrow> tasks w p;
     (let old = task_credentials t; sz = (ucast arg0 :: u32); ids = (case groups old of None \<Rightarrow> [] | Some ids \<Rightarrow> ids)
      in if number = 158 then
           (if sint sz < 0 then Some (- 22, [], w)
            else if sz = 0 then Some (int (length ids), [], w)
            else if unat sz < length ids then Some (- 22, [], w)
            else
              let (ok, ws) = copy_out_ids env (map (\<lambda>i. (address + of_nat i * 4, ids ! i)) [0..<length ids])
              in Some (if ok then int (length ids) else - 14, ws, w))
         else if \<not> capable old CAP_SETGID then Some (- 1, [], w)
         else if 65536 < sz then Some (- 22, [], w)
         else if \<not> groups_ok env then Some (- 12, [], w)
         else (case read_ids env address (unat sz) of
             Inl err \<Rightarrow> Some (err, [], w)
           | Inr new_ids \<Rightarrow>
               if \<not> clone_ok env then Some (- 12, [], w)
               else do {
                 w' \<leftarrow> credentials_publish w p (old\<lparr>groups := Some (credential_groups_sort new_ids)\<rparr>);
                 Some (0, [], w')
               }))
   }"

section \<open>The id calls\<close>

text \<open>The outer option is a trap; \<open>Inl ()\<close> is the status INVALID_ARGUMENT of the dispatcher.\<close>

definition handle_credentials ::
  "cred_env \<Rightarrow> cred_world \<Rightarrow> ptr \<Rightarrow> nat \<Rightarrow> (nat \<Rightarrow> u64) \<Rightarrow> (unit + int \<times> (u64 \<times> u8 list) list \<times> cred_world) option" where
  "handle_credentials env w p number args = do {
     t \<leftarrow> tasks w p;
     (let cred = task_credentials t
      in if number = 174 then Some (Inr (uint (uid cred), [], w))
         else if number = 175 then Some (Inr (uint (euid cred), [], w))
         else if number = 176 then Some (Inr (uint (gid cred), [], w))
         else if number = 177 then Some (Inr (uint (egid cred), [], w))
         else if number \<in> {143, 144, 145, 146, 147, 149, 151, 152} then
           do { (v, w') \<leftarrow> set_ids env w p number (ucast (args 0)) (ucast (args 1)) (ucast (args 2)); Some (Inr (v, [], w')) }
         else if number \<in> {148, 150, 158, 159} then
           (if \<not> mm_ok env then Some (Inl ())
            else if number = 158 \<or> number = 159 then map_option Inr (groups_call env w p number (args 0) (args 1))
            else
              let vs = (if number = 148 then [uid cred, euid cred, suid cred] else [gid cred, egid cred, sgid cred]);
                  (ok, ws) = copy_out_ids env [(args 0, vs ! 0), (args 1, vs ! 1), (args 2, vs ! 2)]
              in Some (Inr (if ok then 0 else - 14, ws, w)))
         else Some (Inl ()))
   }"

end
