(* ===== verification/Cred_Calls.thy ===== *)
theory Cred_Calls
  imports Cred_World
begin

text \<open>
  The calls that set capabilities and process attributes, the publication of an exec's credentials and
  the inheritance at clone.
\<close>

section \<open>prctl\<close>

text \<open>The first switch for the options that change credentials: the result when the call ends there.\<close>

definition prctl_refused :: "kernel_credentials \<Rightarrow> u32 \<Rightarrow> u64 \<Rightarrow> u64 \<Rightarrow> u64 \<Rightarrow> u64 \<Rightarrow> int option" where
  "prctl_refused old opt a b c d =
     (if opt = 7 then Some (if securebits old AND SECBIT_KEEP_CAPS \<noteq> 0 then 1 else 0)
      else if opt = 8 then
        (if 1 < a then Some (- 22) else if securebits old AND SECBIT_KEEP_CAPS_LOCKED \<noteq> 0 then Some (- 1) else None)
      else if opt = 23 then Some (if a \<le> 40 then (if bit (bounding old) (unat a) then 1 else 0) else - 22)
      else if opt = 24 then (if \<not> capable old CAP_SETPCAP then Some (- 1) else if 40 < a then Some (- 22) else None)
      else if opt = 27 then Some (uint (securebits old))
      else if opt = 28 then
        (let sb = (ucast (securebits old) :: u64); changed = sb XOR a
         in if drop_bit 1 (sb AND 0xAAA) AND changed \<noteq> 0 \<or> sb AND 0xAAA AND NOT a \<noteq> 0 \<or> a AND NOT 0xFFF \<noteq> 0 \<or>
               (\<not> capable old CAP_SETPCAP \<and> (changed = 0 \<or> changed AND NOT 0xF00 \<noteq> 0))
            then Some (- 1) else None)
      else if opt = 47 then
        (if a = 4 then (if b OR c OR d \<noteq> 0 then Some (- 22) else None)
         else if 40 < b \<or> c \<noteq> 0 \<or> d \<noteq> 0 then Some (- 22)
         else if a = 1 then Some (if bit (ambient old) (unat b) then 1 else 0)
         else if a \<noteq> 2 \<and> a \<noteq> 3 then Some (- 22)
         else if a = 2 \<and> (\<not> bit (permitted old) (unat b) \<or> \<not> bit (inheritable old) (unat b) \<or> securebits old AND SECBIT_NO_CAP_AMBIENT_RAISE \<noteq> 0)
         then Some (- 1)
         else None)
      else Some (- 22))"

text \<open>The second switch, on the candidate.\<close>

definition prctl_update :: "kernel_credentials \<Rightarrow> u32 \<Rightarrow> u64 \<Rightarrow> u64 \<Rightarrow> kernel_credentials" where
  "prctl_update cand opt a b =
     (if opt = 8 then cand\<lparr>securebits := (securebits cand AND NOT SECBIT_KEEP_CAPS) OR (if a \<noteq> 0 then SECBIT_KEEP_CAPS else 0)\<rparr>
      else if opt = 24 then cand\<lparr>bounding := bounding cand AND NOT (push_bit (unat a) 1)\<rparr>
      else if opt = 28 then cand\<lparr>securebits := ucast a\<rparr>
      else if opt = 47 then
        (if a = 4 then cand\<lparr>ambient := 0\<rparr>
         else if a = 2 then cand\<lparr>ambient := ambient cand OR push_bit (unat b) 1\<rparr>
         else cand\<lparr>ambient := ambient cand AND NOT (push_bit (unat b) 1)\<rparr>)
      else cand)"

definition handle_prctl :: "cred_env \<Rightarrow> cred_world \<Rightarrow> ptr \<Rightarrow> (nat \<Rightarrow> u64) \<Rightarrow> (int \<times> cred_world) option" where
  "handle_prctl env w p args = do {
     t \<leftarrow> tasks w p;
     (let old = task_credentials t; opt = (ucast (args 0) :: u32); a = args 1; b = args 2; c = args 3; d = args 4
      in if opt = 3 then (if security t = 0 then Some (0, w) else do { v \<leftarrow> dumpable w (security t); Some (uint v, w) })
         else if opt = 4 then
           (if a \<le> 1 then (if security t = 0 then None else Some (0, w\<lparr>dumpable := (dumpable w)(security t \<mapsto> ucast a)\<rparr>))
            else Some (- 22, w))
         else if opt = 38 then
           (if a \<noteq> 1 \<or> b \<noteq> 0 \<or> c \<noteq> 0 \<or> d \<noteq> 0 then Some (- 22, w) else Some (0, set_task w p (t\<lparr>no_new_privs := True\<rparr>)))
         else if opt = 39 then Some (if a OR b OR c OR d = 0 then (if no_new_privs t then 1 else 0) else - 22, w)
         else (case prctl_refused old opt a b c d of
             Some v \<Rightarrow> Some (v, w)
           | None \<Rightarrow>
               if \<not> clone_ok env then Some (- 12, w)
               else do { w' \<leftarrow> credentials_publish w p (prctl_update old opt a b); Some (0, w') }))
   }"

section \<open>Capability sets\<close>

abbreviation (input) CAPABILITY_VERSION_1 :: u32 where "CAPABILITY_VERSION_1 \<equiv> 0x19980330"
abbreviation (input) CAPABILITY_VERSION_2 :: u32 where "CAPABILITY_VERSION_2 \<equiv> 0x20071026"
abbreviation (input) CAPABILITY_VERSION_3 :: u32 where "CAPABILITY_VERSION_3 \<equiv> 0x20080522"

definition cap_words :: "u32 \<Rightarrow> nat" where
  "cap_words version =
     (if version = CAPABILITY_VERSION_1 then 1 else if version = CAPABILITY_VERSION_2 \<or> version = CAPABILITY_VERSION_3 then 2 else 0)"

definition cap_data :: "kernel_credentials \<Rightarrow> nat \<Rightarrow> u8 list" where
  "cap_data cred k = concat (map (\<lambda>s. bytes32 (ucast (drop_bit (32 * k) s))) [effective cred, permitted cred, inheritable cred])"

definition handle_capget ::
  "cred_env \<Rightarrow> cred_world \<Rightarrow> ptr \<Rightarrow> (nat \<Rightarrow> u64) \<Rightarrow> (unit + int \<times> (u64 \<times> u8 list) list) option" where
  "handle_capget env w p args =
     (let header = args 0; data = args 1
      in if \<not> mm_ok env then Some (Inl ())
         else case fetch env header 4 of
             None \<Rightarrow> Some (Inr (- 14, []))
           | Some vb \<Rightarrow>
               if cap_words (little32 vb) = 0 then
                 (if to_user env header (bytes32 CAPABILITY_VERSION_3)
                  then Some (Inr (if data \<noteq> 0 then - 22 else 0, [(header, bytes32 CAPABILITY_VERSION_3)]))
                  else Some (Inr (- 14, [])))
               else if data = 0 then Some (Inr (0, []))
               else case fetch env (header + 4) 4 of
                   None \<Rightarrow> Some (Inr (- 14, []))
                 | Some pb \<Rightarrow>
                     let pid = sint (little32 pb); target = (if pid \<noteq> 0 then find_by_tid env pid else 0)
                     in if pid < 0 then Some (Inr (- 22, []))
                        else if pid \<noteq> 0 \<and> target = 0 then Some (Inr (- 3, []))
                        else do {
                          t \<leftarrow> tasks w (if target \<noteq> 0 then target else p);
                          (let out = concat (map (cap_data (task_credentials t)) [0..<cap_words (little32 vb)])
                           in Some (Inr (if to_user env data out then (0, [(data, out)]) else (- 14, []))))
                        })"

text \<open>The three sets of a capset request from its 12 or 24 bytes; a missing second word is zero.\<close>

definition cap_input :: "u8 list \<Rightarrow> nat \<Rightarrow> u64" where
  "cap_input bs k =
     ((ucast (little32 (drop (4 * k) bs)) :: u64) OR
      (if length bs = 24 then push_bit 32 (ucast (little32 (drop (12 + 4 * k) bs))) else 0)) AND CAP_VALID_MASK"

definition capset_refused :: "kernel_credentials \<Rightarrow> u64 \<Rightarrow> u64 \<Rightarrow> u64 \<Rightarrow> bool" where
  "capset_refused old eff perm inh \<longleftrightarrow>
     (\<not> capable old CAP_SETPCAP \<and> inh AND NOT (inheritable old OR permitted old) \<noteq> 0) \<or>
     inh AND NOT (inheritable old OR bounding old) \<noteq> 0 \<or> perm AND NOT (permitted old) \<noteq> 0 \<or> eff AND NOT perm \<noteq> 0"

definition handle_capset ::
  "cred_env \<Rightarrow> cred_world \<Rightarrow> ptr \<Rightarrow> (nat \<Rightarrow> u64) \<Rightarrow> (unit + int \<times> (u64 \<times> u8 list) list \<times> cred_world) option" where
  "handle_capset env w p args = do {
     t \<leftarrow> tasks w p;
     (let header = args 0; data = args 1
      in if \<not> mm_ok env then Some (Inl ())
         else case fetch env header 4 of
             None \<Rightarrow> Some (Inr (- 14, [], w))
           | Some vb \<Rightarrow>
               let words = cap_words (little32 vb)
               in if words = 0 then
                    (if to_user env header (bytes32 CAPABILITY_VERSION_3)
                     then Some (Inr (- 22, [(header, bytes32 CAPABILITY_VERSION_3)], w))
                     else Some (Inr (- 14, [], w)))
                  else case fetch env (header + 4) 4 of
                      None \<Rightarrow> Some (Inr (- 14, [], w))
                    | Some pb \<Rightarrow>
                        if sint (little32 pb) \<noteq> 0 \<and> sint (little32 pb) \<noteq> tid t then Some (Inr (- 1, [], w))
                        else case fetch env data (words * 12) of
                            None \<Rightarrow> Some (Inr (- 14, [], w))
                          | Some bs \<Rightarrow>
                              let old = task_credentials t; eff = cap_input bs 0; perm = cap_input bs 1; inh = cap_input bs 2
                              in if \<not> clone_ok env then Some (Inr (- 12, [], w))
                                 else if capset_refused old eff perm inh then Some (Inr (- 1, [], w))
                                 else do {
                                   w' \<leftarrow> credentials_publish w p
                                     (old\<lparr>effective := eff, permitted := perm, inheritable := inh, ambient := ambient old AND (perm AND inh)\<rparr>);
                                   Some (Inr (0, [], w'))
                                 })
   }"

section \<open>Exec and clone\<close>

text \<open>The credential steps of an exec: the process limit and the candidate (\<open>exec.c\<close>), and the commit (\<open>sched/exec.c\<close>) that replaces credentials and security
  record. The file decides \<open>unsafe_fs\<close> and its metadata; a failed allocation ends the exec before the commit.\<close>

definition exec_credentials ::
  "cred_env \<Rightarrow> cred_world \<Rightarrow> ptr \<Rightarrow> exec_metadata \<Rightarrow> bool \<Rightarrow> (int \<times> cred_world) option" where
  "exec_credentials env w p f unsafe_fs = do {
     (limited, w1) \<leftarrow> nproc_exec w p;
     if limited \<noteq> 0 then Some (limited, w1)
     else do {
       t \<leftarrow> tasks w1 p;
       if \<not> clone_ok env then Some (- 12, w1)
       else (case exec_credentials_prepare (task_credentials t) (task_credentials t) f unsafe_fs (no_new_privs t) of
           Inl err \<Rightarrow> Some (err, w1)
         | Inr (cred, secureexec, dump) \<Rightarrow>
             if new_security env = 0 then Some (- 12, w1)
             else Some (0, set_task (w1\<lparr>dumpable := (dumpable w1)(new_security env \<mapsto> (if dump then 1 else 0))\<rparr>) p
                    (t\<lparr>credentials := Some cred, security := new_security env\<rparr>)))
     }
   }"

text \<open>The child of a clone (\<open>arch_process_clone_current\<close>) starts with its parent's credentials (shared by a thread, copied by a fork), takes a process charge, and then
  the parent's limits, its no-new-privileges flag and a security record, shared with the parent's address space or a new one with
  the same flag. A refused admission discards the child; \<open>rest\<close> is the outcome of the remaining preparation, whose
  failure, like that of the security record, returns the charge.\<close>

definition clone_credentials ::
  "cred_env \<Rightarrow> cred_world \<Rightarrow> ptr \<Rightarrow> ptr \<Rightarrow> bool \<Rightarrow> bool \<Rightarrow> int \<Rightarrow> int \<Rightarrow> (int \<times> cred_world) option" where
  "clone_credentials env w parent child thread_clone vfork new_tid rest = do {
     q \<leftarrow> tasks w parent;
     cred \<leftarrow> credentials q;
     if child = 0 \<or> tasks w child \<noteq> None then None
     else if \<not> thread_clone \<and> \<not> clone_ok env then Some (- 12, w)
     else do {
       (admitted, w1) \<leftarrow> nproc_acquire
         (set_task w child \<lparr>credentials = Some cred, security = 0, no_new_privs = False, resource_flags = 0, nproc_limit = 0, tid = new_tid\<rparr>)
         child parent;
       if admitted \<noteq> 0 then Some (admitted, w)
       else
         let sec = (if vfork \<or> thread_clone then security q else new_security env);
             failure = (if sec = 0 then - 12 else rest)
         in if failure \<noteq> 0 then do { w2 \<leftarrow> nproc_release_locked w1 child; Some (failure, w2\<lparr>tasks := (tasks w2)(child := None)\<rparr>) }
            else do {
              t \<leftarrow> tasks w1 child;
              flag \<leftarrow> (if security q = 0 then Some 0 else dumpable w1 (security q));
              Some (0, set_task (w1\<lparr>dumpable := (dumpable w1)(sec \<mapsto> flag)\<rparr>) child
                (t\<lparr>nproc_limit := nproc_limit q, no_new_privs := no_new_privs q, security := sec\<rparr>))
            }
     }
   }"

text \<open>The first user thread starts with the initial credentials, is charged without a parent (a refusal traps) and gets a security record with
  the dumpable flag set; without memory for its limits or the record it is retired again, which returns the charge.\<close>

definition first_user :: "cred_env \<Rightarrow> cred_world \<Rightarrow> ptr \<Rightarrow> u64 \<Rightarrow> bool \<Rightarrow> int \<Rightarrow> (bool \<times> cred_world) option" where
  "first_user env w p limit limits_ok new_tid =
     (if \<not> limits_ok then Some (False, w)
      else do {
        (admitted, w1) \<leftarrow> nproc_acquire
          (set_task w p \<lparr>credentials = Some initial_credentials, security = 0, no_new_privs = False, resource_flags = 0, nproc_limit = limit, tid = new_tid\<rparr>)
          p 0;
        if admitted \<noteq> 0 then None
        else if new_security env = 0 then do { w2 \<leftarrow> nproc_release_locked w1 p; Some (False, w2\<lparr>tasks := (tasks w2)(p := None)\<rparr>) }
        else do {
          t \<leftarrow> tasks w1 p;
          Some (True, set_task (w1\<lparr>dumpable := (dumpable w1)(new_security env \<mapsto> 1)\<rparr>) p (t\<lparr>security := new_security env\<rparr>))
        }
      })"

end
