(* ===== verification/Cred_Steps.thy ===== *)
theory Cred_Steps
  imports Cred_Sets Cred_Calls
begin

text \<open>
  The world of tasks: its invariant (well-formed credentials, exact process counts), and that every call keeps
  it, returns, and confines the privileges of its caller.
\<close>

section \<open>Exec\<close>

lemma exec_prepare_cases:
  assumes "exec_credentials_prepare old old f unsafe nnp = Inr (c, secure, dump)"
  obtains n has eff where "c = fst (exec_finish n old f has eff unsafe nnp)" "inheritable n = inheritable old" "bounding n = bounding old"
    "ambient n = ambient old" "groups n = groups old" "account n = account old" "uid n = uid old" "gid n = gid old"
    "nnp \<Longrightarrow> euid n = euid old \<and> egid n = egid old"
    "caps_in (permitted n) (bounding old OR inheritable old)"
proof -
  define n0 where "n0 = old\<lparr>permitted := 0\<rparr>"
  define n1 where "n1 = (if \<not> nosuid f \<and> \<not> nnp then
                  (let m = (if fmode f AND 0x800 \<noteq> 0 then n0\<lparr>euid := fuid f\<rparr> else n0)
                   in if fmode f AND 0x408 = 0x408 then m\<lparr>egid := fgid f\<rparr> else m)
                else n0)"
  have f1: "inheritable n1 = inheritable old" "bounding n1 = bounding old" "ambient n1 = ambient old" "groups n1 = groups old" "account n1 = account old"
    "uid n1 = uid old" "gid n1 = gid old" "nnp \<Longrightarrow> euid n1 = euid old \<and> egid n1 = egid old" "permitted n1 = 0"
    by (simp_all add: n1_def n0_def Let_def)
  note eq = exec_credentials_prepare_def [of old old f unsafe nnp, unfolded Let_def, folded n0_def, folded n1_def [unfolded Let_def]]
  show ?thesis
  proof (cases "decode_filecap f")
    case Bad_Filecap
    then show ?thesis using assms eq by simp
  next
    case No_Filecap
    then have "c = fst (exec_finish n1 old f False False unsafe nnp)" using assms eq by simp
    then show ?thesis using f1 by (intro that [of n1 False False]) simp_all
  next
    case (Filecap eff fp fi)
    let ?n2 = "n1\<lparr>permitted := (bounding n1 AND fp) OR (inheritable n1 AND fi)\<rparr>"
    have "c = fst (exec_finish ?n2 old f True eff unsafe nnp)" using assms eq Filecap by (simp split: if_splits)
    then show ?thesis using f1 by (intro that [of ?n2 True eff]) (simp_all add: caps_in_and_left caps_in_or_right)
  qed
qed

lemma exec_prepare_ok:
  assumes "cred_ok old" "exec_credentials_prepare old old f unsafe nnp = Inr (c, secure, dump)"
  shows "cred_ok c" "account c = account old" "nnp \<Longrightarrow> confined old c"
proof -
  obtain n has eff where n: "c = fst (exec_finish n old f has eff unsafe nnp)" "inheritable n = inheritable old" "bounding n = bounding old"
    "ambient n = ambient old" "groups n = groups old" "account n = account old" "uid n = uid old" "gid n = gid old"
    "nnp \<Longrightarrow> euid n = euid old \<and> egid n = egid old" "caps_in (permitted n) (bounding old OR inheritable old)"
    using exec_prepare_cases [OF assms(2)] by metis
  have "caps_in (bounding old OR inheritable old) CAP_VALID_MASK" using assms(1) by (simp add: cred_ok_def)
  then have v: "caps_in (permitted n) CAP_VALID_MASK" using n(10) caps_in_trans by blast
  note ok = exec_finish_ok [OF assms(1) v n(2-7) n(1)]
  show "cred_ok c" by (rule ok(1))
  then show "account c = account old" using ok(5) assms(1) by (simp add: cred_ok_def)
  assume nnp
  then have e: "euid n = euid old" "egid n = egid old" using n(9) by auto
  show "confined old c"
    unfolding confined_def uids_def gids_def using ok(2-13) e n(8) \<open>nnp\<close> by auto
qed

section \<open>The invariant of the world\<close>

definition charged :: "cred_task \<Rightarrow> bool" where
  "charged t \<longleftrightarrow> bit (resource_flags t) 0"

lemma charge_test: "x AND 1 = 0 \<longleftrightarrow> \<not> bit (x :: u32) 0"
  by (simp add: and_one_eq bit_0 even_iff_mod_2_eq_zero)

lemma charge_bits: "bit (x AND - 3 :: u32) 0 = bit x 0" "bit (x OR 2 :: u32) 0 = bit x 0" "\<not> bit (x AND - 2 :: u32) 0" "bit (x OR (1 OR y) :: u32) 0"
  by (simp_all add: bit_simps)

definition tally :: "cred_world \<Rightarrow> u32 \<Rightarrow> ptr set" where
  "tally w u = {p. \<exists>t. tasks w p = Some t \<and> charged t \<and> account (task_credentials t) = u}"

definition task_ok :: "cred_world \<Rightarrow> cred_task \<Rightarrow> bool" where
  "task_ok w t \<longleftrightarrow> (\<exists>c. credentials t = Some c \<and> cred_ok c) \<and> security t \<noteq> 0 \<and> dumpable w (security t) \<noteq> None"

definition world_ok :: "cred_world \<Rightarrow> bool" where
  "world_ok w \<longleftrightarrow> finite (dom (tasks w)) \<and> card (dom (tasks w)) < 2 ^ 63 \<and> tasks w 0 = None \<and>
     (\<forall>p t. tasks w p = Some t \<longrightarrow> task_ok w t) \<and> (\<forall>u. unat (processes w u) = card (tally w u))"

lemma world_okD:
  assumes "world_ok w"
  shows "finite (dom (tasks w))" "card (dom (tasks w)) < 2 ^ 63" "tasks w 0 = None" "tasks w p = Some t \<Longrightarrow> task_ok w t"
    "unat (processes w u) = card (tally w u)" "finite (tally w u)" "card (tally w u) < 2 ^ 63"
proof -
  show f: "finite (dom (tasks w))" and c: "card (dom (tasks w)) < 2 ^ 63" and "tasks w 0 = None" "tasks w p = Some t \<Longrightarrow> task_ok w t"
    "unat (processes w u) = card (tally w u)" using assms unfolding world_ok_def by blast+
  have "tally w u \<subseteq> dom (tasks w)" by (auto simp: tally_def)
  then show "finite (tally w u)" "card (tally w u) < 2 ^ 63" using f c by (auto intro: finite_subset le_less_trans [OF card_mono])
qed

lemma tally_set:
  assumes "tasks w' = (tasks w)(p \<mapsto> t')"
  shows "tally w' u = (if charged t' \<and> account (task_credentials t') = u then insert p (tally w u) else tally w u - {p})"
  unfolding tally_def assms by auto

lemma tally_drop:
  assumes "tasks w' = (tasks w)(p := None)"
  shows "tally w' u = tally w u - {p}"
  unfolding tally_def assms by auto

lemma tally_iff: "tasks w p = Some t \<Longrightarrow> p \<in> tally w u \<longleftrightarrow> charged t \<and> account (task_credentials t) = u"
  by (simp add: tally_def)

lemma world_ok_replace:
  assumes "world_ok w" "tasks w p = Some t" "tasks w' = (tasks w)(p \<mapsto> t')" "charged t' = charged t"
    "account (task_credentials t') = account (task_credentials t)" "processes w' = processes w" "task_ok w' t'"
    "\<And>s. dumpable w s \<noteq> None \<Longrightarrow> dumpable w' s \<noteq> None"
  shows "world_ok w'"
proof -
  note W = world_okD [OF assms(1)]
  have dom: "dom (tasks w') = dom (tasks w)" using assms(2,3) by auto
  have "tally w' u = tally w u" for u
    unfolding tally_set [OF assms(3)] using tally_iff [OF assms(2), of u] assms(4,5) by auto
  moreover have "task_ok w' s" if "tasks w' q = Some s" for q s
    using that W(4) [of q s] assms(3,7,8) by (auto simp: task_ok_def split: if_splits)
  moreover have "tasks w' 0 = None" using W(3) assms(2,3) by (cases "p = 0") auto
  ultimately show ?thesis unfolding world_ok_def dom using W(1,2,5) assms(6) by simp
qed

lemma task_cred: "credentials t = Some c \<Longrightarrow> task_credentials t = c"
  by (simp add: task_credentials_def)

lemma world_cred:
  assumes "world_ok w" "tasks w p = Some t"
  obtains c where "credentials t = Some c" "task_credentials t = c" "cred_ok c" "security t \<noteq> 0" "dumpable w (security t) \<noteq> None"
  using world_okD(4) [OF assms] by (auto simp: task_ok_def task_credentials_def)

section \<open>Publication\<close>

lemma nproc_changed_spec:
  assumes "world_ok w" "tasks w p = Some t"
  obtains w1 fl where "nproc_credentials_changed_locked w p (task_credentials t) c = Some w1"
    "tasks w1 = (tasks w)(p \<mapsto> t\<lparr>resource_flags := fl\<rparr>)" "bit fl 0 = bit (resource_flags t) 0" "dumpable w1 = dumpable w"
    "\<And>u. unat (processes w1 u) = card (if charged t \<and> account c = u then insert p (tally w u) else tally w u - {p})"
proof -
  note W = world_okD [OF assms(1)]
  let ?old = "task_credentials t"
  show ?thesis
  proof (cases "account ?old = account c \<or> \<not> charged t")
    case True
    then have run: "nproc_credentials_changed_locked w p ?old c = Some w"
      using assms(2) by (auto simp: nproc_credentials_changed_locked_def charge_test charged_def)
    have "(if charged t \<and> account c = u then insert p (tally w u) else tally w u - {p}) = tally w u" for u
      using True tally_iff [OF assms(2), of u] by auto
    then show ?thesis using W(5) assms(2) by (intro that [OF run, of "resource_flags t"]) auto
  next
    case False
    then have ne: "account ?old \<noteq> account c" and ch: "charged t" by auto
    have inold: "p \<in> tally w (account ?old)" and notnew: "p \<notin> tally w (account c)" using tally_iff [OF assms(2)] ch ne by auto
    have "0 < card (tally w (account ?old))" using inold W(6) by (auto simp: card_gt_0_iff)
    then have p0: "processes w (account ?old) \<noteq> 0" using W(5) [of "account ?old"] by auto
    have pm: "processes w (account c) \<noteq> - 1"
    proof
      assume "processes w (account c) = - 1"
      then have "unat (processes w (account c)) = 2 ^ 64 - 1" by (simp add: unsigned_minus_1_eq_mask mask_eq_exp_minus_1)
      then show False using W(5,7) [of "account c"] by simp
    qed
    define t1 where "t1 = (if uid c \<noteq> 0 \<and> nproc_limit t < processes w (account c)
                 then t\<lparr>resource_flags := resource_flags t OR 2\<rparr> else t\<lparr>resource_flags := resource_flags t AND NOT 2\<rparr>)"
    define ps where "ps = (processes w)(account c := processes w (account c) + 1, account ?old := processes w (account ?old) - 1)"
    have run: "nproc_credentials_changed_locked w p ?old c = Some (set_task (w\<lparr>processes := ps\<rparr>) p t1)"
      using assms(2) ne ch p0 pm by (simp add: nproc_credentials_changed_locked_def charge_test charged_def t1_def ps_def Let_def)
    define fl where "fl = resource_flags t1"
    have t1: "t1 = t\<lparr>resource_flags := fl\<rparr>" "bit fl 0 = bit (resource_flags t) 0" by (simp_all add: fl_def t1_def charge_bits)
    show ?thesis
    proof (rule that [OF run, of fl])
      show "tasks (set_task (w\<lparr>processes := ps\<rparr>) p t1) = (tasks w)(p \<mapsto> t\<lparr>resource_flags := fl\<rparr>)" using t1(1) by (simp add: set_task_def)
      show "bit fl 0 = bit (resource_flags t) 0" by (rule t1(2))
      show "dumpable (set_task (w\<lparr>processes := ps\<rparr>) p t1) = dumpable w" by (simp add: set_task_def)
      fix u
      have "unat (processes w (account c) + 1) = unat (processes w (account c)) + 1"
        using W(5,7) [of "account c"] by (simp add: unat_word_ariths)
      moreover have "unat (processes w (account ?old) - 1) = unat (processes w (account ?old)) - 1"
        using p0 by (simp add: unat_sub word_le_nat_alt Suc_le_eq unat_gt_0)
      ultimately show "unat (processes (set_task (w\<lparr>processes := ps\<rparr>) p t1) u) =
          card (if charged t \<and> account c = u then insert p (tally w u) else tally w u - {p})"
        using ne ch notnew inold W(5,6) tally_iff [OF assms(2), of u] by (auto simp: set_task_def ps_def)
    qed
  qed
qed

lemma publish_ok:
  assumes "world_ok w" "tasks w p = Some t" "cred_ok c"
  obtains w' fl where "credentials_publish w p c = Some w'" "tasks w' = (tasks w)(p \<mapsto> t\<lparr>resource_flags := fl, credentials := Some c\<rparr>)" "world_ok w'"
proof -
  note W = world_okD [OF assms(1)]
  obtain w1 fl where n: "nproc_credentials_changed_locked w p (task_credentials t) c = Some w1"
    "tasks w1 = (tasks w)(p \<mapsto> t\<lparr>resource_flags := fl\<rparr>)" "bit fl 0 = bit (resource_flags t) 0" "dumpable w1 = dumpable w"
    "\<And>u. unat (processes w1 u) = card (if charged t \<and> account c = u then insert p (tally w u) else tally w u - {p})"
    by (rule nproc_changed_spec [OF assms(1,2)]) (rule that)
  obtain w2 where ch: "credentials_changed_locked w p (task_credentials t) c = Some w2" and f2: "tasks w2 = tasks w1" "processes w2 = processes w1"
    "\<And>s. dumpable w s \<noteq> None \<Longrightarrow> dumpable w2 s \<noteq> None"
    using n(1,2,4) by (auto simp: credentials_changed_locked_def)
  define t' where "t' = t\<lparr>resource_flags := fl, credentials := Some c\<rparr>"
  define w' where "w' = set_task w2 p t'"
  have tw: "tasks w' = (tasks w)(p \<mapsto> t')" using f2(1) n(2) by (simp add: w'_def set_task_def)
  have run: "credentials_publish w p c = Some w'"
    using assms(2) ch f2(1) n(2) by (simp add: credentials_publish_def w'_def t'_def)
  have fields: "charged t' = charged t" "task_credentials t' = c" using n(3) by (simp_all add: t'_def charged_def task_credentials_def)
  have "world_ok w'"
    unfolding world_ok_def
  proof (intro conjI allI impI)
    have dom: "dom (tasks w') = dom (tasks w)" using tw assms(2) by auto
    show "finite (dom (tasks w'))" "card (dom (tasks w')) < 2 ^ 63" unfolding dom using W(1,2) by blast+
    show "tasks w' 0 = None" using W(3) assms(2) tw by (cases "p = 0") auto
    have old: "task_ok w t" by (rule W(4) [OF assms(2)])
    have dw: "dumpable w' s \<noteq> None" if "dumpable w s \<noteq> None" for s using f2(3) [OF that] by (simp add: w'_def set_task_def)
    show "task_ok w' s" if "tasks w' q = Some s" for q s
    proof (cases "q = p")
      case True
      then have "s = t'" using that tw by simp
      then show ?thesis using old dw assms(3) by (auto simp: task_ok_def t'_def)
    next
      case False
      then show ?thesis using that tw W(4) [of q s] dw by (auto simp: task_ok_def)
    qed
    show "unat (processes w' u) = card (tally w' u)" for u
      unfolding tally_set [OF tw] fields using n(5) f2(2) by (simp add: w'_def set_task_def)
  qed
  then show ?thesis using that run tw unfolding t'_def by blast
qed

section \<open>What a call may do\<close>

definition keeps :: "cred_world \<Rightarrow> ptr \<Rightarrow> cred_world \<Rightarrow> bool" where
  "keeps w p w' \<longleftrightarrow> world_ok w' \<and> (\<forall>q. q \<noteq> p \<longrightarrow> tasks w' q = tasks w q) \<and>
     (\<exists>t t'. tasks w p = Some t \<and> tasks w' p = Some t' \<and> confined (task_credentials t) (task_credentials t') \<and>
        (no_new_privs t \<longrightarrow> no_new_privs t'))"

text \<open>A call either leaves the world as it is or publishes well-formed credentials within the old ones.\<close>

definition published :: "cred_world \<Rightarrow> ptr \<Rightarrow> cred_task \<Rightarrow> cred_world option \<Rightarrow> bool" where
  "published w p t r \<longleftrightarrow> r = Some w \<or>
     (\<exists>c. cred_ok c \<and> confined (task_credentials t) c \<and> r = credentials_publish w p c)"

lemma published_keeps:
  assumes "world_ok w" "tasks w p = Some t" "published w p t r"
  obtains w' where "r = Some w'" "keeps w p w'"
proof (cases "r = Some w")
  case True
  then show ?thesis using that assms(1,2) by (auto simp: keeps_def)
next
  case False
  then obtain c where c: "cred_ok c" "confined (task_credentials t) c" "r = credentials_publish w p c" using assms(3) by (auto simp: published_def)
  obtain w' fl where "credentials_publish w p c = Some w'" "tasks w' = (tasks w)(p \<mapsto> t\<lparr>resource_flags := fl, credentials := Some c\<rparr>)" "world_ok w'"
    by (rule publish_ok [OF assms(1,2) c(1)])
  then show ?thesis using that c assms(2) by (auto simp: keeps_def task_credentials_def)
qed

lemma published_simps: "published w p t (Some w)"
  by (simp add: published_def)

lemma published_if: "(b \<Longrightarrow> published w p t (map_option snd x)) \<Longrightarrow> (\<not> b \<Longrightarrow> published w p t (map_option snd y)) \<Longrightarrow>
    published w p t (map_option snd (if b then x else y))"
  by simp

lemma published_let: "(\<And>x. x = e \<Longrightarrow> published w p t (map_option snd (f x))) \<Longrightarrow> published w p t (map_option snd (let x = e in f x))"
  by simp

lemma published_run: "cred_ok c \<Longrightarrow> confined (task_credentials t) c \<Longrightarrow>
    published w p t (map_option snd (do { w' \<leftarrow> credentials_publish w p c; Some (v, w') }))"
  by (cases "credentials_publish w p c") (auto simp: published_def)

lemma published_same: "published w p t (map_option snd (Some (v, w)))"
  by (simp add: published_def)

text \<open>The candidates of the id calls.\<close>

lemma gid_candidate:
  assumes "cred_ok old" "capable old CAP_SETGID \<or> {r, e, s, f} \<subseteq> gids old"
  shows "cred_ok (old\<lparr>gid := r, egid := e, sgid := s, fsgid := f\<rparr>)" "confined old (old\<lparr>gid := r, egid := e, sgid := s, fsgid := f\<rparr>)"
  using assms capable_permitted [OF assms(1)] by (auto simp: cred_ok_def confined_def gids_def uids_def)

lemma uid_candidate:
  assumes "cred_ok old" "capable old CAP_SETUID \<or> {r, e, s, f} \<subseteq> uids old"
  shows "cred_ok (uid_fixup (old\<lparr>uid := r, euid := e, suid := s, fsuid := f, account := r\<rparr>) old fs)"
    "confined old (uid_fixup (old\<lparr>uid := r, euid := e, suid := s, fsuid := f, account := r\<rparr>) old fs)"
proof -
  let ?c = "old\<lparr>uid := r, euid := e, suid := s, fsuid := f, account := r\<rparr>"
  have e: "caps_in (effective ?c) (permitted ?c)" using assms(1) by (simp add: cred_ok_def)
  note F = uid_fixup_ok [OF assms(1) e, of fs]
  show "cred_ok (uid_fixup ?c old fs)" by (rule F) simp_all
  have "caps_in (permitted (uid_fixup ?c old fs)) (permitted old)" by (rule F(2)) simp_all
  then show "confined old (uid_fixup ?c old fs)"
    using assms(2) capable_permitted [OF assms(1)] by (auto simp: confined_def gids_def uids_def uid_fixup_fields)
qed

end
