(* ===== verification/Cred_Confine.thy ===== *)
theory Cred_Confine
  imports Cred_Steps
begin

text \<open>Every system call on credentials either changes nothing or publishes credentials within the caller's old ones.\<close>

text \<open>Without privilege the three ids come from the old three.\<close>

lemma chosen_ids:
  assumes "\<not> privileged"
    "\<not> (\<not> single \<and> \<not> re \<and> \<not> filesystem \<and> \<not> privileged \<and>
        ((a \<noteq> - 1 \<and> \<not> is_id a r e s) \<or> (b \<noteq> - 1 \<and> \<not> is_id b r e s) \<or> (c \<noteq> - 1 \<and> \<not> is_id c r e s)))"
    "\<not> (single \<and> \<not> privileged \<and> a \<noteq> r \<and> a \<noteq> s)"
    "\<not> (re \<and> ((a \<noteq> - 1 \<and> a \<noteq> r \<and> a \<noteq> e \<and> \<not> privileged) \<or> (b \<noteq> - 1 \<and> \<not> is_id b r e s \<and> \<not> privileged)))"
    "\<not> filesystem"
    "r' = (if single then (if privileged then a else r) else if a \<noteq> - 1 then a else r)"
    "e' = (if single then a else if b \<noteq> - 1 then b else e)"
    "s' = (if single then (if privileged then a else s)
           else if re then (if a \<noteq> - 1 \<or> (b \<noteq> - 1 \<and> b \<noteq> r) then e' else s)
           else if c \<noteq> - 1 then c else s)"
  shows "{r', e', s', e'} \<subseteq> {r, e, s}"
proof -
  have r: "r' = r \<or> r' = e \<or> r' = s" using assms(1-6) by (auto simp: is_id_def split: if_splits)
  have e: "e' = r \<or> e' = e \<or> e' = s" using assms(1-5,7) by (auto simp: is_id_def split: if_splits)
  have "s' = e' \<or> s' = r \<or> s' = e \<or> s' = s" using assms(1-5,8) by (auto simp: is_id_def split: if_splits)
  then show ?thesis using r e by auto
qed

lemma set_ids_published:
  assumes "world_ok w" "tasks w p = Some t"
  shows "published w p t (map_option snd (set_ids env w p op a b c))"
proof -
  obtain c0 where ok: "cred_ok (task_credentials t)" using world_cred [OF assms] by metis
  have acc: "account (task_credentials t) = uid (task_credentials t)" using ok by (simp add: cred_ok_def)
  have fsg: "cred_ok ((task_credentials t)\<lparr>fsgid := x\<rparr>) \<and> confined (task_credentials t) ((task_credentials t)\<lparr>fsgid := x\<rparr>)"
    if "capable (task_credentials t) 6 \<or> x \<in> gids (task_credentials t)" for x
  proof -
    let ?o = "task_credentials t"
    have "?o\<lparr>fsgid := x\<rparr> = ?o\<lparr>gid := gid ?o, egid := egid ?o, sgid := sgid ?o, fsgid := x\<rparr>" by simp
    then show ?thesis using gid_candidate [OF ok, of "gid ?o" "egid ?o" "sgid ?o" x] that by (auto simp: gids_def)
  qed
  have fsu: "cred_ok (uid_fixup ((task_credentials t)\<lparr>fsuid := x\<rparr>) (task_credentials t) True) \<and>
      confined (task_credentials t) (uid_fixup ((task_credentials t)\<lparr>fsuid := x\<rparr>) (task_credentials t) True)"
    if "capable (task_credentials t) 7 \<or> x \<in> uids (task_credentials t)" for x
  proof -
    let ?o = "task_credentials t"
    have "?o\<lparr>fsuid := x\<rparr> = ?o\<lparr>uid := uid ?o, euid := euid ?o, suid := suid ?o, fsuid := x, account := uid ?o\<rparr>" using acc by simp
    then show ?thesis using uid_candidate [OF ok, of "uid ?o" "euid ?o" "suid ?o" x True] that by (auto simp: uids_def)
  qed
  have set_account: "credentials_set_account env ((task_credentials t)\<lparr>uid := r, euid := e, suid := s, fsuid := f\<rparr>) r = (err, cand) \<Longrightarrow> err = 0 \<Longrightarrow>
      cand = (task_credentials t)\<lparr>uid := r, euid := e, suid := s, fsuid := f, account := r\<rparr>" for r e s f err cand
    using acc by (auto simp: credentials_set_account_def split: if_splits)
  show ?thesis
    unfolding set_ids_def assms(2) bind.bind_lunit
  proof (intro published_let published_if published_same, goal_cases)
    case (1 old is_group filesystem single re r e s f privileged)
    have own: "privileged \<or> is_id a r e s \<or> a = f" using 1(17) by blast
    show ?case
    proof (rule published_run)
      show "cred_ok (if is_group then old\<lparr>fsgid := a\<rparr> else uid_fixup (old\<lparr>fsuid := a\<rparr>) old True)"
        "confined (task_credentials t) (if is_group then old\<lparr>fsgid := a\<rparr> else uid_fixup (old\<lparr>fsuid := a\<rparr>) old True)"
        using fsg [of a] fsu [of a] own 1(1,6-10) by (cases is_group; auto simp: is_id_def gids_def uids_def)+
    qed
  next
    case (2 old is_group filesystem single re r e s f privileged r' e' s')
    have "privileged \<or> {r', e', s', e'} \<subseteq> {r, e, s}"
      using chosen_ids [OF _ 2(14,17,18,16,19-21)] by blast
    then have "capable old 6 \<or> {r', e', s', e'} \<subseteq> gids old" using 2(6-10,22) by (auto simp: gids_def)
    then show ?case using gid_candidate [OF ok, of r' e' s' e'] 2(1) by (intro published_run) auto
  next
    case (3 old is_group filesystem single re r e s f privileged r' e' s' x)
    have "privileged \<or> {r', e', s', e'} \<subseteq> {r, e, s}"
      using chosen_ids [OF _ 3(14,17,18,16,19-21)] by blast
    then have "capable old 7 \<or> {r', e', s', e'} \<subseteq> uids old" using 3(6-10,22) by (auto simp: uids_def)
    note cand = uid_candidate [OF ok, of r' e' s' e' False, folded 3(1), OF this]
    obtain err candidate where x: "x = (err, candidate)" by fastforce
    show ?case
      unfolding x prod.case
    proof (intro published_if published_same published_run)
      assume "\<not> err \<noteq> 0"
      then have "candidate = old\<lparr>uid := r', euid := e', suid := s', fsuid := e', account := r'\<rparr>"
        using set_account [of e' s' e' r' err candidate] 3(1,23) x by simp
      then show "cred_ok (uid_fixup candidate old False)" "confined (task_credentials t) (uid_fixup candidate old False)"
        using cand 3(1) by simp_all
    qed
  qed
qed

section \<open>Groups\<close>

lemma groups_candidate:
  assumes "cred_ok old" "capable old CAP_SETGID" "sorted ids"
  shows "cred_ok (old\<lparr>groups := Some ids\<rparr>)" "confined old (old\<lparr>groups := Some ids\<rparr>)"
  using assms capable_permitted [OF assms(1,2)] by (auto simp: cred_ok_def confined_def gids_def uids_def)

lemma groups_call_keeps:
  assumes "world_ok w" "tasks w p = Some t"
  obtains v ws w' where "groups_call env w p n arg0 address = Some (v, ws, w')" "keeps w p w'"
proof -
  let ?old = "task_credentials t"
  have ok: "cred_ok ?old" using world_cred [OF assms] by metis
  define ids where "ids = (case groups ?old of None \<Rightarrow> [] | Some ids \<Rightarrow> ids)"
  have same: "keeps w p w" using assms by (auto simp: keeps_def)
  have get: "\<exists>v ws. groups_call env w p n arg0 address = Some (v, ws, w)" if "n = 158"
    using assms(2) that by (auto simp: groups_call_def Let_def split: prod.splits)
  have set: "(\<exists>v ws. groups_call env w p n arg0 address = Some (v, ws, w)) \<or>
      (\<exists>new. capable ?old 6 \<and> groups_call env w p n arg0 address =
         do { w' \<leftarrow> credentials_publish w p (?old\<lparr>groups := Some (credential_groups_sort new)\<rparr>); Some (0, [], w') })" if "n \<noteq> 158"
  proof (cases "read_ids env address (unat (ucast arg0 :: u32))")
    case (Inl err)
    then show ?thesis using assms(2) that by (auto simp: groups_call_def Let_def)
  next
    case (Inr new)
    then show ?thesis using assms(2) that by (auto simp: groups_call_def Let_def)
  qed
  show ?thesis
  proof (cases "\<exists>v ws. groups_call env w p n arg0 address = Some (v, ws, w)")
    case True
    then show ?thesis using that same by blast
  next
    case False
    then obtain new where n: "capable ?old 6" "groups_call env w p n arg0 address =
         do { w' \<leftarrow> credentials_publish w p (?old\<lparr>groups := Some (credential_groups_sort new)\<rparr>); Some (0, [], w') }"
      using get set by blast
    note c = groups_candidate [OF ok n(1) groups_sort_spec(1) [of new]]
    have "published w p t (credentials_publish w p (?old\<lparr>groups := Some (credential_groups_sort new)\<rparr>))"
      using c by (auto simp: published_def)
    then obtain w' where "credentials_publish w p (?old\<lparr>groups := Some (credential_groups_sort new)\<rparr>) = Some w'" "keeps w p w'"
      by (rule published_keeps [OF assms])
    then show ?thesis using that n(2) by simp
  qed
qed

lemma set_ids_keeps:
  assumes "world_ok w" "tasks w p = Some t"
  obtains v w' where "set_ids env w p op a b c = Some (v, w')" "keeps w p w'"
proof -
  obtain w' where "map_option snd (set_ids env w p op a b c) = Some w'" "keeps w p w'"
    by (rule published_keeps [OF assms set_ids_published [OF assms]])
  then show ?thesis using that by (cases "set_ids env w p op a b c") auto
qed

lemma handle_credentials_keeps:
  assumes "world_ok w" "tasks w p = Some t"
  shows "\<exists>r. handle_credentials env w p n args = Some r \<and> (\<forall>v ws w'. r = Inr (v, ws, w') \<longrightarrow> keeps w p w')"
proof -
  have same: "keeps w p w" using assms by (auto simp: keeps_def)
  obtain v w' where s: "set_ids env w p n (ucast (args 0)) (ucast (args 1)) (ucast (args 2)) = Some (v, w')" "keeps w p w'"
    by (rule set_ids_keeps [OF assms])
  obtain v2 ws2 w2 where g: "groups_call env w p n (args 0) (args 1) = Some (v2, ws2, w2)" "keeps w p w2"
    by (rule groups_call_keeps [OF assms])
  show ?thesis
    using assms(2) s g same by (auto simp: handle_credentials_def Let_def split: prod.splits)
qed

section \<open>prctl\<close>

lemma prctl_candidate:
  assumes "cred_ok old" "prctl_refused old opt a b c d = None"
  shows "cred_ok (prctl_update old opt a b)" "confined old (prctl_update old opt a b)"
proof -
  have o: "opt = 8 \<or> opt = 24 \<or> opt = 28 \<or> opt = 47" using assms(2) by (auto simp: prctl_refused_def split: if_splits)
  have amb: "bit (permitted old) (unat b) \<and> bit (inheritable old) (unat b)" if "opt = 47" "a = 2"
    using assms(2) that by (auto simp: prctl_refused_def split: if_splits)
  have raise: "caps_in (push_bit (unat b) 1) (permitted old)" "caps_in (push_bit (unat b) 1) (inheritable old)" if "opt = 47" "a = 2"
    using amb [OF that] by (auto simp: caps_in_def bit_simps)
  have bnd: "caps_in (bounding old AND NOT m) CAP_VALID_MASK" for m using assms(1) by (auto simp: cred_ok_def caps_in_and_left)
  show "cred_ok (prctl_update old opt a b)"
    using assms(1) o raise bnd unfolding cred_ok_def prctl_update_def by (auto simp: caps_in_and_left)
  show "confined old (prctl_update old opt a b)"
    unfolding confined_def prctl_update_def uids_def gids_def by (auto intro: caps_in_or_right)
qed

lemma keeps_task:
  assumes "world_ok w" "tasks w p = Some t" "tasks w' = (tasks w)(p \<mapsto> t')" "charged t' = charged t" "credentials t' = credentials t"
    "processes w' = processes w" "security t' = security t" "no_new_privs t \<longrightarrow> no_new_privs t'" "\<And>s. dumpable w s \<noteq> None \<Longrightarrow> dumpable w' s \<noteq> None"
  shows "keeps w p w'"
proof -
  have tc: "task_credentials t' = task_credentials t" using assms(5) by (simp add: task_credentials_def)
  have "world_ok w'"
    by (rule world_ok_replace [OF assms(1-4) _ assms(6) _ assms(9)])
       (use world_okD(4) [OF assms(1,2)] assms(5,7,9) tc in \<open>auto simp: task_ok_def\<close>)
  then show ?thesis using assms(2,3,8) tc by (auto simp: keeps_def)
qed

lemma handle_prctl_keeps:
  assumes "world_ok w" "tasks w p = Some t"
  obtains v w' where "handle_prctl env w p args = Some (v, w')" "keeps w p w'"
proof -
  let ?old = "task_credentials t"
  obtain c where c: "cred_ok ?old" "security t \<noteq> 0" "dumpable w (security t) \<noteq> None" using world_cred [OF assms] by metis
  have same: "keeps w p w" using assms by (auto simp: keeps_def)
  define opt a b c' d where "opt = (ucast (args 0) :: u32)" and "a = args 1" and "b = args 2" and "c' = args 3" and "d = args 4"
  note eq = handle_prctl_def [of env w p args, unfolded assms(2) bind.bind_lunit Let_def, folded opt_def a_def b_def c'_def d_def]
  have k1: "keeps w p (w\<lparr>dumpable := (dumpable w)(security t \<mapsto> x)\<rparr>)" for x
    by (rule keeps_task [OF assms, of _ t]) (use assms(2) in auto)
  have k2: "keeps w p (set_task w p (t\<lparr>no_new_privs := True\<rparr>))"
    by (rule keeps_task [OF assms, of _ "t\<lparr>no_new_privs := True\<rparr>"]) (auto simp: set_task_def charged_def)
  have k3: "\<exists>v w'. (case prctl_refused ?old opt a b c' d of
             Some v \<Rightarrow> Some (v, w)
           | None \<Rightarrow> if \<not> clone_ok env then Some (- 12, w)
               else do { w' \<leftarrow> credentials_publish w p (prctl_update ?old opt a b); Some (0, w') }) = Some (v, w') \<and> keeps w p w'"
  proof (cases "prctl_refused ?old opt a b c' d")
    case None
    have "published w p t (credentials_publish w p (prctl_update ?old opt a b))"
      using prctl_candidate [OF c(1) None] by (auto simp: published_def)
    then obtain w' where "credentials_publish w p (prctl_update ?old opt a b) = Some w'" "keeps w p w'"
      by (rule published_keeps [OF assms])
    then show ?thesis using None same by auto
  qed (use same in auto)
  obtain v3 w3 where k3': "(case prctl_refused ?old opt a b c' d of
             Some v \<Rightarrow> Some (v, w)
           | None \<Rightarrow> if \<not> clone_ok env then Some (- 12, w)
               else do { w' \<leftarrow> credentials_publish w p (prctl_update ?old opt a b); Some (0, w') }) = Some (v3, w3)" "keeps w p w3"
    using k3 by blast
  have "\<exists>v w'. handle_prctl env w p args = Some (v, w') \<and> keeps w p w'"
    unfolding eq k3'(1) using k1 k2 k3'(2) c(2,3) same by auto
  then show ?thesis using that by blast
qed

section \<open>capset\<close>

lemma capset_candidate:
  assumes "cred_ok old" "\<not> capset_refused old eff perm inh" "caps_in inh CAP_VALID_MASK"
  defines "c \<equiv> old\<lparr>effective := eff, permitted := perm, inheritable := inh, ambient := ambient old AND (perm AND inh)\<rparr>"
  shows "cred_ok c" "confined old c"
proof -
  have k: "caps_in inh (inheritable old OR bounding old)" "caps_in perm (permitted old)" "caps_in eff perm"
    using assms(2) unfolding capset_refused_def caps_in_test by blast+
  have "caps_in (ambient old AND (perm AND inh)) perm" "caps_in (ambient old AND (perm AND inh)) inh" by (auto simp: caps_in_def bit_simps)
  moreover have "caps_in perm CAP_VALID_MASK" using k(2) assms(1) caps_in_trans by (auto simp: cred_ok_def)
  ultimately show "cred_ok c" using assms(1,3) k(3) by (auto simp: c_def cred_ok_def)
  show "confined old c" using k by (auto simp: c_def confined_def uids_def gids_def)
qed

lemma cap_input_valid: "caps_in (cap_input bs k) CAP_VALID_MASK"
  unfolding cap_input_def by (rule caps_in_ops)

lemma handle_capset_keeps:
  assumes "world_ok w" "tasks w p = Some t"
  shows "\<exists>r. handle_capset env w p args = Some r \<and> (\<forall>v ws w'. r = Inr (v, ws, w') \<longrightarrow> keeps w p w')"
proof -
  let ?old = "task_credentials t"
  have ok: "cred_ok ?old" using world_cred [OF assms] by metis
  have same: "keeps w p w" using assms by (auto simp: keeps_def)
  have run: "\<exists>w'. credentials_publish w p (?old\<lparr>effective := cap_input bs 0, permitted := cap_input bs 1, inheritable := cap_input bs 2,
        ambient := ambient ?old AND (cap_input bs 1 AND cap_input bs 2)\<rparr>) = Some w' \<and> keeps w p w'"
    if "\<not> capset_refused ?old (cap_input bs 0) (cap_input bs 1) (cap_input bs 2)" for bs
  proof -
    note c = capset_candidate [OF ok that cap_input_valid]
    let ?c = "?old\<lparr>effective := cap_input bs 0, permitted := cap_input bs 1, inheritable := cap_input bs 2,
        ambient := ambient ?old AND (cap_input bs 1 AND cap_input bs 2)\<rparr>"
    have "published w p t (credentials_publish w p ?c)"
      using c by (auto simp: published_def)
    then obtain w' where "credentials_publish w p ?c = Some w'" "keeps w p w'" by (rule published_keeps [OF assms])
    then show ?thesis by blast
  qed
  have last: "\<exists>r. (do { w' \<leftarrow> credentials_publish w p (?old\<lparr>effective := cap_input bs 0, permitted := cap_input bs 1, inheritable := cap_input bs 2,
        ambient := ambient ?old AND (cap_input bs 1 AND cap_input bs 2)\<rparr>); Some (Inr (0, [], w')) }) = Some (r :: unit + int \<times> (u64 \<times> u8 list) list \<times> cred_world) \<and>
        (\<forall>v ws w'. r = Inr (v, ws, w') \<longrightarrow> keeps w p w')"
    if "\<not> capset_refused ?old (cap_input bs 0) (cap_input bs 1) (cap_input bs 2)" for bs
    using run [OF that] by auto
  show ?thesis
    unfolding handle_capset_def assms(2) bind.bind_lunit Let_def
    using same last by (auto split: option.splits)
qed

section \<open>exec\<close>

text \<open>A step is safe when it keeps the world well-formed and no task that renounced privileges gains any.\<close>

definition safe :: "cred_world \<Rightarrow> cred_world \<Rightarrow> bool" where
  "safe w w' \<longleftrightarrow> world_ok w' \<and> dom (tasks w') = dom (tasks w) \<and> (\<forall>q t'. tasks w' q = Some t' \<longrightarrow>
     (\<exists>t. tasks w q = Some t \<and> (no_new_privs t \<longrightarrow> no_new_privs t' \<and> confined (task_credentials t) (task_credentials t'))))"

lemma keeps_safe:
  assumes "keeps w p w'"
  shows "safe w w'"
  unfolding safe_def
proof (intro conjI allI impI)
  show "world_ok w'" using assms by (simp add: keeps_def)
  have "q \<in> dom (tasks w') \<longleftrightarrow> q \<in> dom (tasks w)" for q using assms unfolding keeps_def by (cases "q = p") (auto simp: domIff)
  then show "dom (tasks w') = dom (tasks w)" by blast
  fix q t' assume t': "tasks w' q = Some t'"
  show "\<exists>t. tasks w q = Some t \<and> (no_new_privs t \<longrightarrow> no_new_privs t' \<and> confined (task_credentials t) (task_credentials t'))"
  proof (cases "q = p")
    case True
    then show ?thesis using assms t' unfolding keeps_def by auto
  next
    case False
    then show ?thesis using assms t' unfolding keeps_def by auto
  qed
qed

lemma safe_task:
  assumes "world_ok w'" "tasks w p = Some t" "tasks w' = (tasks w)(p \<mapsto> t')"
    "no_new_privs t \<Longrightarrow> no_new_privs t' \<and> confined (task_credentials t) (task_credentials t')"
  shows "safe w w'"
  using assms unfolding safe_def by auto

lemma nproc_exec_ok:
  assumes "world_ok w" "tasks w p = Some t"
  obtains r fl where "nproc_exec w p = Some (r, set_task w p (t\<lparr>resource_flags := fl\<rparr>))" "bit fl 0 = bit (resource_flags t) 0"
proof -
  obtain c where c: "credentials t = Some c" using world_cred [OF assms] by metis
  have self: "set_task w p (t\<lparr>resource_flags := resource_flags t\<rparr>) = w" using assms(2) by (simp add: set_task_def map_upd_triv)
  show ?thesis
  proof (cases "resource_flags t AND 2 \<noteq> 0 \<and> nproc_limit t < processes w (account c)")
    case True
    then show ?thesis using c assms(2) self by (intro that [of "- 11" "resource_flags t"]) (auto simp: nproc_exec_def)
  next
    case False
    then show ?thesis using c assms(2) by (intro that [of 0 "resource_flags t AND NOT 2"]) (auto simp: nproc_exec_def charge_bits)
  qed
qed

lemma exec_credentials_safe:
  assumes "world_ok w" "tasks w p = Some t"
  obtains v w' where "exec_credentials env w p f unsafe_fs = Some (v, w')" "safe w w'"
proof -
  obtain c where c: "credentials t = Some c" "task_credentials t = c" "cred_ok c" "security t \<noteq> 0" "dumpable w (security t) \<noteq> None"
    by (rule world_cred [OF assms])
  obtain r fl where n: "nproc_exec w p = Some (r, set_task w p (t\<lparr>resource_flags := fl\<rparr>))" "bit fl 0 = bit (resource_flags t) 0"
    by (rule nproc_exec_ok [OF assms])
  let ?w1 = "set_task w p (t\<lparr>resource_flags := fl\<rparr>)"
  have s1: "safe w ?w1"
    by (rule keeps_safe, rule keeps_task [OF assms, of _ "t\<lparr>resource_flags := fl\<rparr>"]) (use n(2) in \<open>auto simp: set_task_def charged_def\<close>)
  have tc: "task_credentials (t\<lparr>resource_flags := fl\<rparr>) = c" using c(1) by (simp add: task_credentials_def)
  have s2: "safe w (set_task (?w1\<lparr>dumpable := (dumpable ?w1)(s \<mapsto> x)\<rparr>) p (t\<lparr>resource_flags := fl, credentials := Some cred, security := s\<rparr>))"
    if e: "exec_credentials_prepare c c f unsafe_fs (no_new_privs t) = Inr (cred, sec, dmp)" and s: "s \<noteq> 0" for cred sec dmp s x
  proof -
    note k = exec_prepare_ok [OF c(3) e]
    let ?t' = "t\<lparr>resource_flags := fl, credentials := Some cred, security := s\<rparr>"
    let ?w' = "set_task (?w1\<lparr>dumpable := (dumpable ?w1)(s \<mapsto> x)\<rparr>) p ?t'"
    have tw: "tasks ?w' = (tasks w)(p \<mapsto> ?t')" by (simp add: set_task_def)
    have tc': "task_credentials ?t' = cred" by (simp add: task_credentials_def)
    have "world_ok ?w'"
      by (rule world_ok_replace [OF assms tw]) (use n(2) k s c tc' in \<open>auto simp: set_task_def charged_def task_ok_def\<close>)
    then show ?thesis by (rule safe_task [OF _ assms(2) tw]) (use k(3) tc' c(2) in simp)
  qed
  have t1: "tasks ?w1 p = Some (t\<lparr>resource_flags := fl\<rparr>)" by (simp add: set_task_def)
  have "\<exists>v w'. exec_credentials env w p f unsafe_fs = Some (v, w') \<and> safe w w'"
  proof (cases "r \<noteq> 0 \<or> \<not> clone_ok env")
    case True
    then show ?thesis using s1 n(1) t1 by (auto simp: exec_credentials_def)
  next
    case False
    show ?thesis
    proof (cases "exec_credentials_prepare c c f unsafe_fs (no_new_privs t)")
      case (Inl err)
      then show ?thesis using False s1 n(1) t1 tc by (simp add: exec_credentials_def)
    next
      case (Inr res)
      obtain cred sec dmp where res: "res = (cred, sec, dmp)" by (cases res)
      show ?thesis
      proof (cases "new_security env = 0")
        case True
        then show ?thesis using False Inr res s1 n(1) t1 tc by (simp add: exec_credentials_def)
      next
        case s: False
        then show ?thesis using False Inr res n(1) t1 tc s2 [OF Inr [unfolded res] s] by (simp add: exec_credentials_def)
      qed
    qed
  qed
  then show ?thesis using that by blast
qed

section \<open>clone and exit\<close>

lemma processes_count:
  assumes "world_ok w"
  shows "processes w u \<noteq> - 1" "unat (processes w u + 1) = card (tally w u) + 1" "processes w u + 1 \<noteq> 0"
proof -
  note W = world_okD(5,7) [OF assms, of u]
  show "unat (processes w u + 1) = card (tally w u) + 1" using W by (simp add: unat_word_ariths)
  then show "processes w u + 1 \<noteq> 0" by auto
  show "processes w u \<noteq> - 1"
  proof
    assume "processes w u = - 1"
    then have "unat (processes w u) = 2 ^ 64 - 1" by (simp add: unsigned_minus_1_eq_mask mask_eq_exp_minus_1)
    then show False using W by simp
  qed
qed

lemma acquire_ok:
  assumes "world_ok w" "tasks w parent = Some q" "tasks w child = None" "credentials t = Some c" "resource_flags t = 0"
  obtains r where "nproc_acquire (set_task w child t) child parent = Some (r, set_task w child t)" "r \<noteq> 0"
  | fl pf where "bit fl 0" "bit pf 0 = bit (resource_flags q) 0"
      "nproc_acquire (set_task w child t) child parent =
         Some (0, w\<lparr>tasks := (tasks w)(child \<mapsto> t\<lparr>resource_flags := fl\<rparr>, parent \<mapsto> q\<lparr>resource_flags := pf\<rparr>),
                  processes := (processes w)(account c := processes w (account c) + 1)\<rparr>)"
proof -
  have ne: "child \<noteq> parent" "parent \<noteq> 0"
    using assms(2,3) world_okD(3) [OF assms(1)] by (auto intro: gr0I)
  note pc = processes_count [OF assms(1), of "account c"]
  show ?thesis
  proof (cases "nproc_limit q \<le> processes w (account c) \<and> uid c \<noteq> 0 \<and> \<not> capable c CAP_SYS_RESOURCE \<and> \<not> capable c CAP_SYS_ADMIN")
    case True
    then show ?thesis using assms ne pc by (intro that(1) [of "- 11"]) (auto simp: nproc_acquire_def set_task_def)
  next
    case False
    then show ?thesis using assms ne pc
      by (intro that(2) [of "1 OR (resource_flags q AND 2)" "resource_flags q AND NOT 2"])
         (auto simp: nproc_acquire_def set_task_def charge_bits bit_simps)
  qed
qed

lemma world_ok_clone:
  assumes "world_ok w" "card (dom (tasks w)) + 1 < 2 ^ 63" "tasks w parent = Some q" "tasks w child = None" "child \<noteq> 0"
    "tasks w' = (tasks w)(parent \<mapsto> q', child \<mapsto> t')" "charged q' = charged q" "task_credentials q' = task_credentials q"
    "task_ok w' q'" "task_ok w' t'" "charged t'" "u = account (task_credentials t')"
    "processes w' = (processes w)(u := processes w u + 1)" "\<And>s. dumpable w s \<noteq> None \<Longrightarrow> dumpable w' s \<noteq> None"
  shows "world_ok w'"
proof -
  note W = world_okD [OF assms(1)]
  have ne: "child \<noteq> parent" using assms(3,4) by auto
  have dom: "dom (tasks w') = insert child (dom (tasks w))" using assms(3,6) by auto
  have nin: "child \<notin> tally w v" for v using assms(4) by (simp add: tally_def)
  have tl: "tally w' v = (if v = u then insert child (tally w v) else tally w v)" for v
    using assms(3,4,6,7,8,11,12) ne unfolding tally_def by auto
  have "unat (processes w' v) = card (tally w' v)" for v
    unfolding tl assms(13) using processes_count(2) [OF assms(1), of v] W(5,6) [of v] nin [of v] by auto
  moreover have "task_ok w' s" if "tasks w' r = Some s" for r s
    using that W(4) [of r s] assms(6,9,10,14) by (auto simp: task_ok_def split: if_splits)
  moreover have "tasks w' 0 = None" using W(3) assms(3,5,6) by (cases "parent = 0") auto
  moreover have "finite (dom (tasks w'))" unfolding dom using W(1) by simp
  moreover have "card (dom (tasks w')) < 2 ^ 63" unfolding dom using W(1) assms(2,4) by (simp add: card_insert_if domIff)
  ultimately show ?thesis unfolding world_ok_def by blast
qed

lemma clone_safe:
  assumes "world_ok w" "card (dom (tasks w)) + 1 < 2 ^ 63" "tasks w parent = Some q" "tasks w child = None" "child \<noteq> 0"
  obtains v w' where "clone_credentials env w parent child thread_clone vfork new_tid rest = Some (v, w')"
    "safe w w' \<or> world_ok w' \<and> (\<exists>t t'. tasks w' = (tasks w)(parent \<mapsto> t, child \<mapsto> t') \<and> no_new_privs t = no_new_privs q \<and>
       task_credentials t = task_credentials q \<and> no_new_privs t' = no_new_privs q \<and> task_credentials t' = task_credentials q)"
proof -
  note W = world_okD [OF assms(1)]
  obtain c where c: "credentials q = Some c" "task_credentials q = c" "cred_ok c" "security q \<noteq> 0" "dumpable w (security q) \<noteq> None"
    by (rule world_cred [OF assms(1,3)])
  have same: "safe w w" unfolding safe_def using assms(1) by auto
  have ne: "child \<noteq> parent" using assms(3,4) by auto
  define t where "t = \<lparr>credentials = Some c, security = 0, no_new_privs = False, resource_flags = 0, nproc_limit = 0, tid = new_tid\<rparr>"
  have tf: "credentials t = Some c" "resource_flags t = 0" "task_credentials t = c" by (simp_all add: t_def task_credentials_def)
  note eq = clone_credentials_def [of env w parent child thread_clone vfork new_tid rest, unfolded assms(3) bind.bind_lunit c(1), folded t_def]
  have "\<exists>v w'. clone_credentials env w parent child thread_clone vfork new_tid rest = Some (v, w') \<and>
    (safe w w' \<or> world_ok w' \<and> (\<exists>t t'. tasks w' = (tasks w)(parent \<mapsto> t, child \<mapsto> t') \<and> no_new_privs t = no_new_privs q \<and>
       task_credentials t = task_credentials q \<and> no_new_privs t' = no_new_privs q \<and> task_credentials t' = task_credentials q))"
  proof (cases "\<not> thread_clone \<and> \<not> clone_ok env")
    case True
    then show ?thesis unfolding eq using assms(4,5) same by auto
  next
    case False
    show ?thesis
    proof (rule acquire_ok [OF assms(1,3,4) tf(1,2)])
      fix r assume "nproc_acquire (set_task w child t) child parent = Some (r, set_task w child t)" "r \<noteq> 0"
      then show ?thesis unfolding eq using assms(4,5) False same by auto
    next
      fix fl pf
      define w1 where "w1 = w\<lparr>tasks := (tasks w)(child \<mapsto> t\<lparr>resource_flags := fl\<rparr>, parent \<mapsto> q\<lparr>resource_flags := pf\<rparr>),
                  processes := (processes w)(account c := processes w (account c) + 1)\<rparr>"
      assume fl: "bit fl 0" and pf: "bit pf 0 = bit (resource_flags q) 0"
        and run: "nproc_acquire (set_task w child t) child parent =
         Some (0, w\<lparr>tasks := (tasks w)(child \<mapsto> t\<lparr>resource_flags := fl\<rparr>, parent \<mapsto> q\<lparr>resource_flags := pf\<rparr>),
                  processes := (processes w)(account c := processes w (account c) + 1)\<rparr>)"
      define sec where "sec = (if vfork \<or> thread_clone then security q else new_security env)"
      let ?q' = "q\<lparr>resource_flags := pf\<rparr>"
      have q': "charged ?q' = charged q" "task_credentials ?q' = task_credentials q" "no_new_privs ?q' = no_new_privs q"
        using pf by (simp_all add: charged_def task_credentials_def)
      show ?thesis
      proof (cases "(if sec = 0 then - 12 else rest) \<noteq> 0")
        case True
        let ?w' = "w\<lparr>tasks := (tasks w)(parent \<mapsto> ?q')\<rparr>"
        have rel: "nproc_release_locked w1 child =
            Some (set_task (w1\<lparr>processes := processes w\<rparr>) child (t\<lparr>resource_flags := fl AND NOT 1\<rparr>))"
          using fl ne tf processes_count(3) [OF assms(1), of "account c"]
          by (simp add: w1_def nproc_release_locked_def charge_test)
        have drop: "(set_task (w1\<lparr>processes := processes w\<rparr>) child (t\<lparr>resource_flags := fl AND NOT 1\<rparr>))
            \<lparr>tasks := (tasks (set_task (w1\<lparr>processes := processes w\<rparr>) child (t\<lparr>resource_flags := fl AND NOT 1\<rparr>)))(child := None)\<rparr> = ?w'"
          using ne assms(4) by (auto simp: w1_def set_task_def fun_eq_iff)
        have "keeps w parent ?w'" by (rule keeps_task [OF assms(1,3), of _ ?q']) (use q' in simp_all)
        then have "safe w ?w'" by (rule keeps_safe)
        moreover have "clone_credentials env w parent child thread_clone vfork new_tid rest = Some (if sec = 0 then - 12 else rest, ?w')"
          unfolding eq using assms(4,5) False True run rel drop by (auto simp: Let_def sec_def [symmetric] w1_def [symmetric])
        ultimately show ?thesis by blast
      next
        case sec: False
        then have s0: "sec \<noteq> 0" by (auto split: if_splits)
        obtain flag where flag: "dumpable w (security q) = Some flag" using c(5) by auto
        let ?t' = "t\<lparr>resource_flags := fl, nproc_limit := nproc_limit q, no_new_privs := no_new_privs q, security := sec\<rparr>"
        let ?w' = "set_task (w1\<lparr>dumpable := (dumpable w1)(sec \<mapsto> flag)\<rparr>) child ?t'"
        have t': "charged ?t'" "task_credentials ?t' = c" using fl by (simp_all add: charged_def task_credentials_def t_def)
        have tw: "tasks ?w' = (tasks w)(parent \<mapsto> ?q', child \<mapsto> ?t')" using ne by (auto simp: w1_def set_task_def)
        have "clone_credentials env w parent child thread_clone vfork new_tid rest = Some (0, ?w')"
          unfolding eq using assms(4,5) False sec run ne c(4) flag by (auto simp: Let_def sec_def [symmetric] w1_def)
        moreover have "world_ok ?w'"
          by (rule world_ok_clone [OF assms(1-5) tw q'(1,2)]) (use t' q' c s0 W(4) [OF assms(3)] in \<open>auto simp: w1_def set_task_def task_ok_def t_def\<close>)
        moreover have "\<exists>t t'. tasks ?w' = (tasks w)(parent \<mapsto> t, child \<mapsto> t') \<and> no_new_privs t = no_new_privs q \<and>
            task_credentials t = task_credentials q \<and> no_new_privs t' = no_new_privs q \<and> task_credentials t' = task_credentials q"
          by (intro exI [of _ ?q'] exI [of _ ?t'] conjI tw q'(2,3)) (use t'(2) c(2) in simp_all)
        ultimately show ?thesis by blast
      qed
    qed
  qed
  then show ?thesis using that by blast
qed

lemma release_safe:
  assumes "world_ok w" "tasks w p = Some t"
  obtains w' where "nproc_release_locked w p = Some w'" "safe w w'"
proof (cases "charged t")
  case False
  then show ?thesis using that [of w] assms by (auto simp: nproc_release_locked_def charge_test charged_def safe_def)
next
  case True
  note W = world_okD [OF assms(1)]
  obtain c where c: "credentials t = Some c" "task_credentials t = c" "cred_ok c" "security t \<noteq> 0" "dumpable w (security t) \<noteq> None"
    by (rule world_cred [OF assms])
  let ?t' = "t\<lparr>resource_flags := resource_flags t AND NOT 1\<rparr>"
  let ?w' = "set_task (w\<lparr>processes := (processes w)(account c := processes w (account c) - 1)\<rparr>) p ?t'"
  have t': "\<not> charged ?t'" "task_credentials ?t' = c" using c(1) by (simp_all add: charged_def task_credentials_def charge_bits)
  have mem: "p \<in> tally w u \<longleftrightarrow> account c = u" for u using True c(2) tally_iff [OF assms(2)] by simp
  have "0 < card (tally w (account c))" using mem W(6) by (auto simp: card_gt_0_iff)
  then have p0: "processes w (account c) \<noteq> 0" using W(5) [of "account c"] by auto
  have run: "nproc_release_locked w p = Some ?w'"
    using True c(1) assms(2) p0 by (simp add: nproc_release_locked_def charge_test charged_def)
  have tw: "tasks ?w' = (tasks w)(p \<mapsto> ?t')" by (simp add: set_task_def)
  have dom: "dom (tasks ?w') = dom (tasks w)" using tw assms(2) by auto
  have "unat (processes w (account c) - 1) = unat (processes w (account c)) - 1"
    using p0 by (simp add: unat_sub word_le_nat_alt Suc_le_eq unat_gt_0)
  then have "unat (processes ?w' u) = card (tally ?w' u)" for u
    unfolding tally_set [OF tw] using t' mem [of u] W(5,6) [of u] by (auto simp: set_task_def)
  moreover have "task_ok ?w' s" if "tasks ?w' r = Some s" for r s
    using that tw W(4) [of r s] W(4) [OF assms(2)] by (auto simp: task_ok_def set_task_def split: if_splits)
  moreover have "tasks ?w' 0 = None" using W(3) assms(2) tw by (cases "p = 0") auto
  ultimately have "world_ok ?w'" unfolding world_ok_def dom using W(1,2) by blast
  then have "safe w ?w'" by (rule safe_task [OF _ assms(2) tw]) (use t' c(2) in simp)
  then show ?thesis using that run by blast
qed

lemma retire_ok:
  assumes "world_ok w" "tasks w p = Some t" "\<not> charged t"
  shows "world_ok (w\<lparr>tasks := (tasks w)(p := None)\<rparr>)"
proof -
  note W = world_okD [OF assms(1)]
  let ?w' = "w\<lparr>tasks := (tasks w)(p := None)\<rparr>"
  have "tally ?w' u = tally w u" for u
    using tally_drop [of ?w' w p u] tally_iff [OF assms(2), of u] assms(3) by auto
  moreover have "dom (tasks ?w') = dom (tasks w) - {p}" by auto
  moreover have "card (dom (tasks w) - {p}) < 2 ^ 63" using W(1,2) by (auto intro: le_less_trans [OF card_Diff1_le])
  moreover have "task_ok ?w' s" if "tasks ?w' r = Some s" for r s
    using that W(4) [of r s] by (auto simp: task_ok_def split: if_splits)
  ultimately show ?thesis unfolding world_ok_def using W(1,3,5) by simp
qed

section \<open>Histories\<close>

text \<open>A history of calls from \<open>w0\<close> on, with the tasks descended from \<open>p\<close>: any task may issue any of the calls with any arguments,
  execute any file, create children and exit. The guard of a clone bounds the live tasks below the width of the process counters.\<close>

inductive lineage :: "cred_world \<Rightarrow> ptr \<Rightarrow> cred_world \<Rightarrow> ptr set \<Rightarrow> bool" for w0 p where
  start: "lineage w0 p w0 {p}"
| ids: "lineage w0 p w D \<Longrightarrow> handle_credentials env w q n args = Some (Inr (v, ws, w')) \<Longrightarrow> lineage w0 p w' D"
| prctl: "lineage w0 p w D \<Longrightarrow> handle_prctl env w q args = Some (v, w') \<Longrightarrow> lineage w0 p w' D"
| capset: "lineage w0 p w D \<Longrightarrow> handle_capset env w q args = Some (Inr (v, ws, w')) \<Longrightarrow> lineage w0 p w' D"
| exec: "lineage w0 p w D \<Longrightarrow> exec_credentials env w q f unsafe_fs = Some (v, w') \<Longrightarrow> lineage w0 p w' D"
| clone: "lineage w0 p w D \<Longrightarrow> card (dom (tasks w)) + 1 < 2 ^ 63 \<Longrightarrow>
    clone_credentials env w q child thread_clone vfork new_tid rest = Some (v, w') \<Longrightarrow>
    lineage w0 p w' (if q \<in> D \<and> tasks w' child \<noteq> None then insert child D else D)"
| release: "lineage w0 p w D \<Longrightarrow> nproc_release_locked w q = Some w' \<Longrightarrow> lineage w0 p w' D"
| retire: "lineage w0 p w D \<Longrightarrow> tasks w q = Some t \<Longrightarrow> resource_flags t AND NPROC_CHARGED = 0 \<Longrightarrow>
    lineage w0 p (w\<lparr>tasks := (tasks w)(q := None)\<rparr>) (D - {q})"

text \<open>The invariant of a history: a well-formed world in which every descendant renounced privileges and is confined.\<close>

definition descent :: "kernel_credentials \<Rightarrow> cred_world \<Rightarrow> ptr set \<Rightarrow> bool" where
  "descent c w D \<longleftrightarrow> D \<subseteq> dom (tasks w) \<and> (\<forall>q \<in> D. \<forall>t. tasks w q = Some t \<longrightarrow> no_new_privs t \<and> confined c (task_credentials t))"

lemma safe_descent:
  assumes "descent c w D" "safe w w'"
  shows "descent c w' D"
  unfolding descent_def
proof (intro conjI ballI allI impI)
  show "D \<subseteq> dom (tasks w')" using assms by (auto simp: descent_def safe_def)
  fix q t' assume q: "q \<in> D" and t': "tasks w' q = Some t'"
  obtain t where "tasks w q = Some t" "no_new_privs t \<longrightarrow> no_new_privs t' \<and> confined (task_credentials t) (task_credentials t')"
    using assms(2) t' unfolding safe_def by blast
  moreover from this have "no_new_privs t" "confined c (task_credentials t)" using assms(1) q unfolding descent_def by blast+
  ultimately show "no_new_privs t'" "confined c (task_credentials t')" using confined_trans by blast+
qed

lemma safe_world: "world_ok w \<and> descent c w D \<Longrightarrow> safe w w' \<Longrightarrow> world_ok w' \<and> descent c w' D"
  using safe_descent by (auto simp: safe_def)

text \<open>Every step of a history other than a retirement is safe or the creation of a child.\<close>

lemma safe_steps:
  assumes "world_ok w"
  shows "handle_credentials env w q n args = Some (Inr (v, ws, w')) \<Longrightarrow> safe w w'"
    "handle_prctl env w q args = Some (v, w') \<Longrightarrow> safe w w'"
    "handle_capset env w q args = Some (Inr (v, ws, w')) \<Longrightarrow> safe w w'"
    "exec_credentials env w q f unsafe_fs = Some (v, w') \<Longrightarrow> safe w w'"
    "nproc_release_locked w q = Some w' \<Longrightarrow> safe w w'"
proof -
  show "safe w w'" if r: "handle_credentials env w q n args = Some (Inr (v, ws, w'))"
  proof -
    obtain t where t: "tasks w q = Some t" using r by (cases "tasks w q") (auto simp: handle_credentials_def)
    show ?thesis by (rule keeps_safe) (use handle_credentials_keeps [OF assms t, of env n args] r in auto)
  qed
  show "safe w w'" if r: "handle_prctl env w q args = Some (v, w')"
  proof -
    obtain t where t: "tasks w q = Some t" using r by (cases "tasks w q") (auto simp: handle_prctl_def)
    show ?thesis by (rule handle_prctl_keeps [OF assms t, of env args]) (use r keeps_safe in auto)
  qed
  show "safe w w'" if r: "handle_capset env w q args = Some (Inr (v, ws, w'))"
  proof -
    obtain t where t: "tasks w q = Some t" using r by (cases "tasks w q") (auto simp: handle_capset_def)
    show ?thesis by (rule keeps_safe) (use handle_capset_keeps [OF assms t, of env args] r in auto)
  qed
  show "safe w w'" if r: "exec_credentials env w q f unsafe_fs = Some (v, w')"
  proof -
    obtain t where t: "tasks w q = Some t" using r by (cases "tasks w q") (auto simp: exec_credentials_def nproc_exec_def)
    show ?thesis by (rule exec_credentials_safe [OF assms t, of env f unsafe_fs]) (use r in auto)
  qed
  show "safe w w'" if r: "nproc_release_locked w q = Some w'"
  proof -
    obtain t where t: "tasks w q = Some t" using r by (cases "tasks w q") (auto simp: nproc_release_locked_def)
    show ?thesis by (rule release_safe [OF assms t]) (use r in auto)
  qed
qed

lemma clone_guard:
  assumes "clone_credentials env w q child thread_clone vfork new_tid rest = Some r"
  obtains t where "tasks w q = Some t" "child \<noteq> 0" "tasks w child = None"
  using assms by (cases "tasks w q"; cases "child = 0 \<or> tasks w child \<noteq> None") (auto simp: clone_credentials_def bind_eq_Some_conv)

lemma clone_descent:
  assumes "world_ok w" "descent c w D" "card (dom (tasks w)) + 1 < 2 ^ 63"
    "clone_credentials env w q child thread_clone vfork new_tid rest = Some (v, w')"
  shows "world_ok w' \<and> descent c w' (if q \<in> D \<and> tasks w' child \<noteq> None then insert child D else D)"
proof -
  obtain t where t: "tasks w q = Some t" "child \<noteq> 0" "tasks w child = None" by (rule clone_guard [OF assms(4)])
  have nD: "child \<notin> D" using assms(2) t(3) by (auto simp: descent_def)
  have "safe w w' \<or> world_ok w' \<and> (\<exists>s s'. tasks w' = (tasks w)(q \<mapsto> s, child \<mapsto> s') \<and> no_new_privs s = no_new_privs t \<and>
       task_credentials s = task_credentials t \<and> no_new_privs s' = no_new_privs t \<and> task_credentials s' = task_credentials t)"
    by (rule clone_safe [OF assms(1,3) t(1,3,2), of env thread_clone vfork new_tid rest]) (use assms(4) in auto)
  then show ?thesis
  proof
    assume s: "safe w w'"
    then have "tasks w' child = None" using t(3) by (auto simp: safe_def)
    then show ?thesis using s safe_descent [OF assms(2) s] by (simp add: safe_def)
  next
    assume "world_ok w' \<and> (\<exists>s s'. tasks w' = (tasks w)(q \<mapsto> s, child \<mapsto> s') \<and> no_new_privs s = no_new_privs t \<and>
       task_credentials s = task_credentials t \<and> no_new_privs s' = no_new_privs t \<and> task_credentials s' = task_credentials t)"
    then obtain s s' where w: "world_ok w'" and s: "tasks w' = (tasks w)(q \<mapsto> s, child \<mapsto> s')" "no_new_privs s = no_new_privs t"
       "task_credentials s = task_credentials t" "no_new_privs s' = no_new_privs t" "task_credentials s' = task_credentials t" by blast
    have "descent c w' (if q \<in> D then insert child D else D)"
      using assms(2) nD s t(1,3) unfolding descent_def by (auto split: if_splits)
    moreover have "tasks w' child \<noteq> None" using s(1) by simp
    ultimately show ?thesis using w by simp
  qed
qed

lemma lineage_descent:
  assumes "world_ok w0" "tasks w0 p = Some t0" "no_new_privs t0" "lineage w0 p w D"
  shows "world_ok w \<and> descent (task_credentials t0) w D"
  using assms(4)
proof induction
  case start
  then show ?case using assms(1-3) by (auto simp: descent_def)
next
  case (clone w D env q child thread_clone vfork new_tid rest v w')
  show ?case by (rule clone_descent [OF conjunct1 [OF clone.IH] conjunct2 [OF clone.IH] clone.hyps(2,3)])
next
  case (retire w D q t)
  then have "world_ok (w\<lparr>tasks := (tasks w)(q := None)\<rparr>)" using retire_ok by (auto simp: charge_test charged_def)
  then show ?case using retire.IH by (auto simp: descent_def)
next
  case (ids w D env q n args v ws w')
  have "safe w w'" by (rule safe_steps(1) [OF conjunct1 [OF ids.IH] ids.hyps(2)])
  then show ?case by (rule safe_world [OF ids.IH])
next
  case (prctl w D env q args v w')
  have "safe w w'" by (rule safe_steps(2) [OF conjunct1 [OF prctl.IH] prctl.hyps(2)])
  then show ?case by (rule safe_world [OF prctl.IH])
next
  case (capset w D env q args v ws w')
  have "safe w w'" by (rule safe_steps(3) [OF conjunct1 [OF capset.IH] capset.hyps(2)])
  then show ?case by (rule safe_world [OF capset.IH])
next
  case (exec w D env q f unsafe_fs v w')
  have "safe w w'" by (rule safe_steps(4) [OF conjunct1 [OF exec.IH] exec.hyps(2)])
  then show ?case by (rule safe_world [OF exec.IH])
next
  case (release w D q w')
  have "safe w w'" by (rule safe_steps(5) [OF conjunct1 [OF release.IH] release.hyps(2)])
  then show ?case by (rule safe_world [OF release.IH])
qed

end
