(* ===== verification/Cred_Theorems.thy ===== *)
theory Cred_Theorems imports Cred_Confine begin

text \<open>
  The properties of the credentials of a task. \<open>cred_boot\<close> is the kernel before its first user thread; every history starts with that thread.
\<close>

definition cred_boot :: cred_world where
  "cred_boot = \<lparr>tasks = (\<lambda>_. None), processes = (\<lambda>_. 0), dumpable = (\<lambda>_. None)\<rparr>"

lemma initial_ok: "cred_ok initial_credentials"
  by (simp add: cred_ok_def initial_credentials_def)

lemma first_user_ok:
  assumes "p \<noteq> 0" "first_user env cred_boot p limit limits_ok n = Some (True, w)"
  shows "world_ok w"
proof -
  have ok: "limits_ok" "new_security env \<noteq> 0" using assms(2) by (auto simp: first_user_def bind_eq_Some_conv split: if_splits)
  have w: "w = \<lparr>tasks = [p \<mapsto> \<lparr>credentials = Some initial_credentials, security = new_security env, no_new_privs = False,
              resource_flags = 1, nproc_limit = limit, tid = n\<rparr>],
            processes = (\<lambda>_. 0)(0 := 1), dumpable = [new_security env \<mapsto> 1]\<rparr>"
    using assms(2) ok by (auto simp: first_user_def cred_boot_def nproc_acquire_def set_task_def initial_credentials_def)
  have "tally w u = (if u = 0 then {p} else {})" for u
    by (auto simp: tally_def w charged_def task_credentials_def initial_credentials_def)
  then show ?thesis using assms(1) ok initial_ok by (auto simp: world_ok_def w task_ok_def)
qed

lemma safe_ok: "safe w w' \<Longrightarrow> world_ok w'"
  by (simp add: safe_def)

lemma lineage_world:
  assumes "world_ok w0" "lineage w0 p w D"
  shows "world_ok w"
  using assms(2)
proof induction
  case start
  show ?case by (rule assms(1))
next
  case (clone w D env q child thread_clone vfork new_tid rest v w')
  have "descent initial_credentials w {}" by (simp add: descent_def)
  then show ?case by (rule conjunct1 [OF clone_descent [OF clone.IH _ clone.hyps(2,3)]])
next
  case (retire w D q t)
  then show ?case using retire_ok by (auto simp: charge_test charged_def)
qed (blast dest: safe_steps safe_ok)+

section \<open>A concrete history\<close>

text \<open>The first thread gives up the root ids, sets no-new-privileges and executes a set-user-id root file.\<close>

definition sample_env :: cred_env where
  "sample_env = \<lparr>clone_ok = True, account_ok = True, groups_ok = True, mm_ok = True, new_security = 7,
     from_user = (\<lambda>_ _. None), to_user = (\<lambda>_ _. False), find_by_tid = (\<lambda>_. 0)\<rparr>"

definition sample_file :: exec_metadata where
  "sample_file = \<lparr>fmode = 0x9ED, fuid = 0, fgid = 0, filecap = [], filecap_size = 0, filecap_present = False, nosuid = False, readable = True\<rparr>"

definition sample_cred :: kernel_credentials where
  "sample_cred = initial_credentials\<lparr>uid := 1000, euid := 1000, suid := 1000, fsuid := 1000, effective := 0, permitted := 0, account := 1000\<rparr>"

definition sample_task :: "kernel_credentials \<Rightarrow> bool \<Rightarrow> cred_task" where
  "sample_task c nnp = \<lparr>credentials = Some c, security = 7, no_new_privs = nnp, resource_flags = 1, nproc_limit = 10, tid = 1\<rparr>"

definition sample_world :: "kernel_credentials \<Rightarrow> bool \<Rightarrow> u32 \<Rightarrow> cred_world" where
  "sample_world c nnp d = \<lparr>tasks = [1 \<mapsto> sample_task c nnp], processes = (\<lambda>_. 0)(account c := 1), dumpable = [7 \<mapsto> d]\<rparr>"

lemmas sample_defs = sample_world_def sample_task_def sample_env_def set_task_def

lemma sample_start_run: "first_user sample_env cred_boot 1 10 True 1 = Some (True, sample_world initial_credentials False 1)"
  by (simp add: first_user_def cred_boot_def nproc_acquire_def initial_credentials_def sample_defs)

lemma sample_user_run:
  "handle_credentials sample_env (sample_world initial_credentials False 1) 1 147 ((\<lambda>_. 0)(0 := 1000, 1 := 1000, 2 := 1000)) =
   Some (Inr (0, [], sample_world sample_cred False 0))"
  by (auto simp: handle_credentials_def set_ids_def task_credentials_def capable_def initial_credentials_def credentials_set_account_def
      credentials_publish_def credentials_changed_locked_def nproc_credentials_changed_locked_def uid_fixup_def sample_cred_def
      sample_defs Let_def)

lemma sample_flag_run:
  "handle_prctl sample_env (sample_world sample_cred False 0) 1 ((\<lambda>_. 0)(0 := 38, 1 := 1)) = Some (0, sample_world sample_cred True 0)"
  by (simp add: handle_prctl_def sample_defs)

lemma sample_exec_run:
  "exec_credentials sample_env (sample_world sample_cred True 0) 1 sample_file False = Some (0, sample_world sample_cred True 1)"
  by (simp add: exec_credentials_def nproc_exec_def exec_credentials_prepare_def exec_finish_def decode_filecap_def root_rule_def downgrade_def
      merge_ambient_def in_group_def task_credentials_def sample_cred_def initial_credentials_def sample_file_def sample_defs Let_def)

lemma sample_lineage:
  "lineage (sample_world initial_credentials False 1) 1 (sample_world sample_cred True 0) {1}"
  "lineage (sample_world sample_cred True 0) 1 (sample_world sample_cred True 1) {1}"
  by (rule lineage.prctl [OF lineage.ids [OF lineage.start sample_user_run] sample_flag_run],
      rule lineage.exec [OF lineage.start sample_exec_run])

section \<open>Properties\<close>

text \<open>C7. A task that set no-new-privileges cannot gain privileges, and neither can any of its descendants: whatever calls the tasks of
  the system make afterwards, in any order and with any arguments, and whatever files they execute (set-user-id, set-group-id or with file
  capabilities), every live descendant still has the flag, its permitted, effective and bounding sets lie within the permitted and
  bounding sets of that moment, and where the permitted set lacked CAP_SETUID (CAP_SETGID) its user ids (group ids and groups) are
  among those of that moment.\<close>

theorem no_new_privs_confines:
  assumes "p \<noteq> 0" "first_user env cred_boot p limit limits_ok n = Some (True, w0)" "lineage w0 p w1 D1"
    "tasks w1 q = Some t1" "no_new_privs t1" "lineage w1 q w2 D2" "r \<in> D2"
  shows "\<exists>t2. tasks w2 r = Some t2 \<and> no_new_privs t2 \<and>
    permitted (task_credentials t2) AND NOT (permitted (task_credentials t1)) = 0 \<and>
    effective (task_credentials t2) AND NOT (permitted (task_credentials t1)) = 0 \<and>
    bounding (task_credentials t2) AND NOT (bounding (task_credentials t1)) = 0 \<and>
    (bit (permitted (task_credentials t1)) CAP_SETUID \<or> uids (task_credentials t2) \<subseteq> uids (task_credentials t1)) \<and>
    (bit (permitted (task_credentials t1)) CAP_SETGID \<or>
       gids (task_credentials t2) \<subseteq> gids (task_credentials t1) \<and> groups (task_credentials t2) = groups (task_credentials t1))"
proof -
  have ok: "world_ok w1" by (rule lineage_world [OF first_user_ok [OF assms(1,2)] assms(3)])
  note d = lineage_descent [OF ok assms(4-6)]
  obtain t2 where t2: "tasks w2 r = Some t2" "no_new_privs t2" "confined (task_credentials t1) (task_credentials t2)"
    using d assms(7) unfolding descent_def by blast
  have "cred_ok (task_credentials t2)" by (rule world_cred [OF conjunct1 [OF d] t2(1)]) simp
  then have "caps_in (effective (task_credentials t2)) (permitted (task_credentials t1))"
    using t2(3) caps_in_trans by (auto simp: cred_ok_def confined_def)
  then show ?thesis using t2 unfolding confined_def by (intro exI [of _ t2]) (auto simp: caps_in_test)
qed

theorem no_new_privs_confines_witness:
  "\<exists>t2. tasks (sample_world sample_cred True 1) 1 = Some t2 \<and> permitted (task_credentials t2) AND NOT 0 = 0 \<and> uids (task_credentials t2) \<subseteq> {1000}"
proof -
  have t: "tasks (sample_world sample_cred True 0) 1 = Some (sample_task sample_cred True)" by (simp add: sample_world_def)
  have c: "task_credentials (sample_task sample_cred True) = sample_cred" by (simp add: sample_task_def task_credentials_def)
  show ?thesis
    using no_new_privs_confines [OF _ sample_start_run sample_lineage(1) t _ sample_lineage(2), of 1] unfolding c
    by (auto simp: sample_task_def sample_cred_def initial_credentials_def uids_def)
qed

text \<open>C19. In every state the system reaches the credentials of every task are well-formed (effective within permitted, ambient within
  permitted and inheritable, no bit beyond the last capability, supplementary groups sorted, the account that of the real user id), and the
  process count of every user is exactly the number of its charged tasks. Every credential call of a live task returns: the id,
  group, prctl and capset calls and the credential steps of an exec and of an exit reach no trap.\<close>

theorem credentials_well_formed:
  assumes "p \<noteq> 0" "first_user env cred_boot p limit limits_ok n = Some (True, w0)" "lineage w0 p w D" "tasks w q = Some t"
  shows "cred_ok (task_credentials t) \<and>
    unat (processes w u) = card {r. \<exists>s. tasks w r = Some s \<and> bit (resource_flags s) 0 \<and> account (task_credentials s) = u} \<and>
    handle_credentials e w q num args \<noteq> None \<and> handle_prctl e w q args \<noteq> None \<and> handle_capset e w q args \<noteq> None \<and>
    exec_credentials e w q f unsafe_fs \<noteq> None \<and> nproc_release_locked w q \<noteq> None"
proof (intro conjI)
  have ok: "world_ok w" by (rule lineage_world [OF first_user_ok [OF assms(1,2)] assms(3)])
  show "cred_ok (task_credentials t)" by (rule world_cred [OF ok assms(4)]) simp
  show "unat (processes w u) = card {r. \<exists>s. tasks w r = Some s \<and> bit (resource_flags s) 0 \<and> account (task_credentials s) = u}"
    using world_okD(5) [OF ok, of u] unfolding tally_def charged_def .
  show "handle_credentials e w q num args \<noteq> None" using handle_credentials_keeps [OF ok assms(4), of e num args] by auto
  show "handle_prctl e w q args \<noteq> None" by (rule handle_prctl_keeps [OF ok assms(4), of e args]) simp
  show "handle_capset e w q args \<noteq> None" using handle_capset_keeps [OF ok assms(4), of e args] by auto
  show "exec_credentials e w q f unsafe_fs \<noteq> None" by (rule exec_credentials_safe [OF ok assms(4), of e f unsafe_fs]) simp
  show "nproc_release_locked w q \<noteq> None" by (rule release_safe [OF ok assms(4)]) simp
qed

theorem credentials_well_formed_witness:
  "cred_ok sample_cred \<and>
   unat (processes (sample_world sample_cred True 0) 1000) =
     card {r. \<exists>s. tasks (sample_world sample_cred True 0) r = Some s \<and> bit (resource_flags s) 0 \<and> account (task_credentials s) = 1000} \<and>
   handle_prctl sample_env (sample_world sample_cred True 0) 1 (\<lambda>_. 0) \<noteq> None"
proof -
  have t: "tasks (sample_world sample_cred True 0) 1 = Some (sample_task sample_cred True)" by (simp add: sample_world_def)
  have c: "task_credentials (sample_task sample_cred True) = sample_cred" by (simp add: sample_task_def task_credentials_def)
  show ?thesis
    using credentials_well_formed [OF _ sample_start_run sample_lineage(1) t, of 1000 sample_env 0 "\<lambda>_. 0" sample_file False] unfolding c
    by simp
qed

text \<open>C35. The heap sort of a supplementary group list gives the sorted permutation of it, and the binary search of the membership test on
  the published list answers exactly whether the id is the filesystem group or was in the list given by the caller.\<close>

theorem groups_membership:
  "sorted (credential_groups_sort ids) \<and> mset (credential_groups_sort ids) = mset ids \<and>
   (in_group (c\<lparr>groups := Some (credential_groups_sort ids)\<rparr>) g \<longleftrightarrow> fsgid c = g \<or> g \<in> set ids)"
proof -
  note s = groups_sort_spec [of ids]
  have "set (credential_groups_sort ids) = set ids" using s(2) by (metis set_mset_mset)
  then show ?thesis using s group_search_member [OF s(1), of g] by (simp add: in_group_def)
qed

end
