(* ===== verification/Dtb_Read.thy ===== *)
theory Dtb_Read
  imports Boot_Memory
begin

text \<open>
  The readers that the device tree parser \<^verbatim>\<open>src/kernel/dtb.c\<close> is made of. The blob is the list of the bytes that can be read from the address
  passed to the parser on; a pointer into it is an offset and 0 is the null pointer. \<open>None\<close> is a read past the readable bytes.
  Sizes and positions are natural numbers below \<^verbatim>\<open>2^32\<close>, with the wrap-around of \<^verbatim>\<open>uint32_t\<close> written out; every subtraction
  is guarded in the code.
\<close>

datatype dtb_status = DTB_OK | DTB_INVALID | DTB_NOT_FOUND | DTB_UNSUPPORTED

record dtb_boot_info =
  dmemory :: mrange
  dmemories :: "mrange list"
  ddtb_size :: nat
  dtimebase_frequency :: nat
  dreserved :: "mrange list"
  dvirtio_mmio :: "mrange list"
  drng_seed :: "u8 list"

abbreviation (input) DTB_MAX_MEMORY_RANGES :: nat where "DTB_MAX_MEMORY_RANGES \<equiv> 16"
abbreviation (input) DTB_MAX_VIRTIO_MMIO_RANGES :: nat where "DTB_MAX_VIRTIO_MMIO_RANGES \<equiv> 16"
abbreviation (input) DTB_RNG_SEED_SIZE :: nat where "DTB_RNG_SEED_SIZE \<equiv> 32"

text \<open>A step that can read and can end the parse with a status.\<close>

type_synonym 'a parse = "(dtb_status + 'a) option"

definition andthen :: "'a parse \<Rightarrow> ('a \<Rightarrow> 'b parse) \<Rightarrow> 'b parse" where
  "andthen m f = do { r \<leftarrow> m; (case r of Inl status \<Rightarrow> Some (Inl status) | Inr x \<Rightarrow> f x) }"

definition fails :: "dtb_status \<Rightarrow> 'a parse" where
  "fails status = Some (Inl status)"

definition gives :: "'a \<Rightarrow> 'a parse" where
  "gives x = Some (Inr x)"

definition reads :: "'a option \<Rightarrow> 'a parse" where
  "reads m = map_option Inr m"

lemma andthen_mono [partial_function_mono]:
  assumes "mono_option B" "\<And>y. mono_option (\<lambda>f. C y f)"
  shows "mono_option (\<lambda>f. andthen (B f) (\<lambda>y. C y f))"
proof -
  have "mono_option (\<lambda>f. case r of Inl status \<Rightarrow> Some (Inl status) | Inr x \<Rightarrow> C x f)" for r
    using assms(2) by (cases r) (auto intro: monotoneI flat_ord_def [THEN iffD2] simp: monotone_def flat_ord_def)
  then show ?thesis unfolding andthen_def using assms(1) by (rule_tac bind_mono) auto
qed

definition add32 :: "nat \<Rightarrow> nat \<Rightarrow> nat" where
  "add32 x y = (x + y) mod 2 ^ 32"

section \<open>Bytes\<close>

definition byte_at :: "u8 list \<Rightarrow> nat \<Rightarrow> u8 option" where
  "byte_at blob i = (if i < length blob then Some (blob ! i) else None)"

definition read_be32 :: "u8 list \<Rightarrow> nat \<Rightarrow> u32 option" where
  "read_be32 blob i = do {
     a \<leftarrow> byte_at blob i; b \<leftarrow> byte_at blob (i + 1); c \<leftarrow> byte_at blob (i + 2); d \<leftarrow> byte_at blob (i + 3);
     Some (push_bit 24 (ucast a) OR push_bit 16 (ucast b) OR push_bit 8 (ucast c) OR ucast d)
   }"

definition read_be64 :: "u8 list \<Rightarrow> nat \<Rightarrow> u64 option" where
  "read_be64 blob i = do { h \<leftarrow> read_be32 blob i; l \<leftarrow> read_be32 blob (i + 4); Some (push_bit 32 (ucast h) OR ucast l) }"

text \<open>The same read used as a size or a position.\<close>

definition read_size :: "u8 list \<Rightarrow> nat \<Rightarrow> nat option" where
  "read_size blob i = map_option unat (read_be32 blob i)"

definition reserve_entry_is_terminator :: "u8 list \<Rightarrow> nat \<Rightarrow> bool option" where
  "reserve_entry_is_terminator blob i = do {
     a \<leftarrow> read_be32 blob i; b \<leftarrow> read_be32 blob (i + 4); c \<leftarrow> read_be32 blob (i + 8); d \<leftarrow> read_be32 blob (i + 12);
     Some (a = 0 \<and> b = 0 \<and> c = 0 \<and> d = 0)
   }"

definition range_is_inside :: "nat \<Rightarrow> nat \<Rightarrow> nat \<Rightarrow> bool" where
  "range_is_inside total_size offset sz \<longleftrightarrow> offset \<le> total_size \<and> sz \<le> total_size - offset"

text \<open>The aligned value; \<open>None\<close> is the result 0 of the function.\<close>

definition align_to_u32 :: "nat \<Rightarrow> nat option" where
  "align_to_u32 v = (if 2 ^ 32 - 1 - 3 < v then None else Some ((v + 3) div 4 * 4))"

section \<open>Strings\<close>

text \<open>The inner \<open>None\<close> is a string that does not end in the available bytes.\<close>

primrec bounded_string_length :: "u8 list \<Rightarrow> nat \<Rightarrow> nat \<Rightarrow> nat option option" where
  "bounded_string_length blob a 0 = Some None"
| "bounded_string_length blob a (Suc available) = do {
     b \<leftarrow> byte_at blob a;
     if b = 0 then Some (Some 0) else map_option (map_option Suc) (bounded_string_length blob (a + 1) available)
   }"

definition cstr :: "string \<Rightarrow> u8 list" where
  "cstr s = map of_char s"

primrec bytes_equal :: "u8 list \<Rightarrow> nat \<Rightarrow> nat \<Rightarrow> u8 list \<Rightarrow> bool option" where
  "bytes_equal blob a 0 expected = Some (expected = [])"
| "bytes_equal blob a (Suc len) expected =
     (case expected of
        [] \<Rightarrow> Some False
      | c # cs \<Rightarrow> do { b \<leftarrow> byte_at blob a; if b \<noteq> c then Some False else bytes_equal blob (a + 1) len cs })"

definition bytes_equal_string :: "u8 list \<Rightarrow> nat \<Rightarrow> nat \<Rightarrow> string \<Rightarrow> bool option" where
  "bytes_equal_string blob a len expected = bytes_equal blob a len (cstr expected)"

definition property_value_is_one_string :: "u8 list \<Rightarrow> nat \<Rightarrow> nat \<Rightarrow> bool option" where
  "property_value_is_one_string blob v len = do {
     n \<leftarrow> bounded_string_length blob v len;
     Some (case n of None \<Rightarrow> False | Some n \<Rightarrow> add32 n 1 = len)
   }"

primrec bytes_start :: "u8 list \<Rightarrow> nat \<Rightarrow> u8 list \<Rightarrow> bool option" where
  "bytes_start blob a [] = Some True"
| "bytes_start blob a (c # cs) = do { b \<leftarrow> byte_at blob a; if b \<noteq> c then Some False else bytes_start blob (a + 1) cs }"

definition classify_memory_node_name :: "u8 list \<Rightarrow> nat \<Rightarrow> nat \<Rightarrow> int option" where
  "classify_memory_node_name blob name len =
     (if len < 6 then Some 0
      else do {
        same \<leftarrow> bytes_start blob name (cstr ''memory'');
        if \<not> same then Some 0
        else if len = 6 then Some 1
        else do { b \<leftarrow> byte_at blob (name + 6); if b \<noteq> of_char CHR ''@'' then Some 0 else Some (if 7 < len then 1 else - 1) }
      })"

text \<open>A property name: its address and its length.\<close>

definition property_name :: "u8 list \<Rightarrow> nat \<Rightarrow> nat \<Rightarrow> nat \<Rightarrow> (nat \<times> nat) parse" where
  "property_name blob strings strings_size name_offset =
     (if strings_size \<le> name_offset then fails DTB_INVALID
      else do {
        n \<leftarrow> bounded_string_length blob (strings + name_offset) (strings_size - name_offset);
        (case n of None \<Rightarrow> fails DTB_INVALID | Some n \<Rightarrow> gives (strings + name_offset, n))
      })"

function string_list_loop :: "u8 list \<Rightarrow> nat \<Rightarrow> nat \<Rightarrow> string \<Rightarrow> bool \<Rightarrow> bool option option" where
  "string_list_loop blob v len expected result =
     (if len = 0 then Some (Some result)
      else do {
        n \<leftarrow> bounded_string_length blob v len;
        (case n of
           None \<Rightarrow> Some None
         | Some n \<Rightarrow>
             if n = 0 then Some None
             else do {
               same \<leftarrow> bytes_equal_string blob v n expected;
               string_list_loop blob (v + n + 1) (len - (n + 1)) expected (if same then True else result)
             })
      })"
  by pat_completeness auto
termination
  by (relation "measure (\<lambda>(blob, v, len, expected, result). len)") auto

declare string_list_loop.simps [simp del]

text \<open>Whether the list of strings contains the string; the inner \<open>None\<close> is a malformed list.\<close>

definition string_list_contains :: "u8 list \<Rightarrow> nat \<Rightarrow> nat \<Rightarrow> string \<Rightarrow> bool option option" where
  "string_list_contains blob v len expected = (if len = 0 then Some None else string_list_loop blob v len expected False)"

definition status_is_available :: "u8 list \<Rightarrow> nat \<Rightarrow> nat \<Rightarrow> bool option option" where
  "status_is_available blob v len = do {
     one \<leftarrow> property_value_is_one_string blob v len;
     if \<not> one \<or> len \<le> 1 then Some None
     else do {
       okay \<leftarrow> bytes_equal_string blob v (len - 1) ''okay'';
       ok \<leftarrow> (if okay then Some False else bytes_equal_string blob v (len - 1) ''ok'');
       Some (Some (okay \<or> ok))
     }
   }"

section \<open>Cells\<close>

primrec cells_loop :: "u8 list \<Rightarrow> nat \<Rightarrow> nat \<Rightarrow> u64 \<Rightarrow> u64 option" where
  "cells_loop blob v 0 result = Some result"
| "cells_loop blob v (Suc n) result = do { c \<leftarrow> read_be32 blob v; cells_loop blob (v + 4) n (push_bit 32 result + ucast c) }"

definition read_cells :: "u8 list \<Rightarrow> nat \<Rightarrow> nat \<Rightarrow> u64 option" where
  "read_cells blob v cell_count = cells_loop blob v cell_count 0"

text \<open>The loops over the tuples of a \<open>reg\<close> property, whose length is a multiple of the tuple size: \<open>n\<close> tuples are left at \<open>v\<close>.\<close>

primrec memory_loop :: "u8 list \<Rightarrow> nat \<Rightarrow> nat \<Rightarrow> nat \<Rightarrow> nat \<Rightarrow> nat \<Rightarrow> dtb_boot_info \<times> bool \<Rightarrow> (dtb_boot_info \<times> bool) parse" where
  "memory_loop blob ac sc tuple_size v 0 s = gives s"
| "memory_loop blob ac sc tuple_size v (Suc n) s = do {
     sz \<leftarrow> read_cells blob (v + ac * 4) sc;
     if sz \<noteq> 0 then do {
       base \<leftarrow> read_cells blob v ac;
       if - 1 - sz < base then fails DTB_INVALID
       else if length (dmemories (fst s)) = DTB_MAX_MEMORY_RANGES then fails DTB_UNSUPPORTED
       else
         let range = \<lparr>rbase = base, rsize = sz\<rparr>; i = (fst s)\<lparr>dmemories := dmemories (fst s) @ [range]\<rparr>
         in memory_loop blob ac sc tuple_size (v + tuple_size) n (if snd s then i else i\<lparr>dmemory := range\<rparr>, True)
     } else memory_loop blob ac sc tuple_size (v + tuple_size) n s
   }"

definition read_memory_reg :: "u8 list \<Rightarrow> nat \<Rightarrow> nat \<Rightarrow> nat \<Rightarrow> nat \<Rightarrow> dtb_boot_info \<times> bool \<Rightarrow> (dtb_boot_info \<times> bool) parse" where
  "read_memory_reg blob v len ac sc s =
     (let tuple_size = add32 ac sc * 4 mod 2 ^ 32
      in if tuple_size = 0 \<or> len = 0 \<or> len mod tuple_size \<noteq> 0 then fails DTB_INVALID
         else memory_loop blob ac sc tuple_size v (len div tuple_size) s)"

primrec reserved_loop :: "u8 list \<Rightarrow> nat \<Rightarrow> nat \<Rightarrow> nat \<Rightarrow> nat \<Rightarrow> nat \<Rightarrow> dtb_boot_info \<Rightarrow> dtb_boot_info parse" where
  "reserved_loop blob ac sc tuple_size v 0 i = gives i"
| "reserved_loop blob ac sc tuple_size v (Suc n) i = do {
     sz \<leftarrow> read_cells blob (v + ac * 4) sc;
     if sz = 0 then reserved_loop blob ac sc tuple_size (v + tuple_size) n i
     else if length (dreserved i) = DTB_MAX_RESERVED_RANGES then fails DTB_UNSUPPORTED
     else do {
       base \<leftarrow> read_cells blob v ac;
       reserved_loop blob ac sc tuple_size (v + tuple_size) n (i\<lparr>dreserved := dreserved i @ [\<lparr>rbase = base, rsize = sz\<rparr>]\<rparr>)
     }
   }"

definition append_reserved_reg :: "u8 list \<Rightarrow> nat \<Rightarrow> nat \<Rightarrow> nat \<Rightarrow> nat \<Rightarrow> dtb_boot_info \<Rightarrow> dtb_boot_info parse" where
  "append_reserved_reg blob v len ac sc i =
     (let tuple_size = add32 ac sc * 4 mod 2 ^ 32
      in if tuple_size = 0 \<or> len = 0 \<or> len mod tuple_size \<noteq> 0 then fails DTB_INVALID
         else reserved_loop blob ac sc tuple_size v (len div tuple_size) i)"

end
