(* ===== verification/Dtb.thy ===== *)
theory Dtb
  imports Dtb_Read
begin

text \<open>
  The device tree parser \<^verbatim>\<open>src/kernel/dtb.c\<close>: the validation of the blob and the boot information, and the discovery of the virtio devices.
  A record \<open>fdt\<close> holds the blob with the offsets and sizes of its structure and strings blocks.
\<close>

record fdt =
  fblob :: "u8 list"
  fstructure :: nat
  fstructure_size :: nat
  fstrings :: nat
  fstrings_size :: nat

section \<open>Tokens\<close>

text \<open>The name of a node, whose length and the position behind it are returned.\<close>

definition begin_node :: "fdt \<Rightarrow> nat \<Rightarrow> (nat \<times> nat) parse" where
  "begin_node d pos = andthen (reads (bounded_string_length (fblob d) (fstructure d + pos) (fstructure_size d - pos))) (\<lambda>n.
     case n of
       None \<Rightarrow> fails DTB_INVALID
     | Some n \<Rightarrow>
         (case align_to_u32 (add32 (add32 pos n) 1) of
            None \<Rightarrow> fails DTB_INVALID
          | Some next_position \<Rightarrow> if fstructure_size d < next_position then fails DTB_INVALID else gives (n, next_position)))"

text \<open>A property: its length, its value, the position behind it, and its name with the length of the name.\<close>

definition prop_header :: "fdt \<Rightarrow> nat \<Rightarrow> (nat \<times> nat \<times> nat \<times> nat \<times> nat) parse" where
  "prop_header d pos = andthen (reads (read_size (fblob d) (fstructure d + pos))) (\<lambda>len.
     andthen (reads (read_size (fblob d) (fstructure d + pos + 4))) (\<lambda>name_offset.
       let p = add32 pos 8
       in case align_to_u32 len of
            None \<Rightarrow> fails DTB_INVALID
          | Some padded \<Rightarrow>
              if fstructure_size d - p < padded then fails DTB_INVALID
              else andthen (property_name (fblob d) (fstrings d) (fstrings_size d) name_offset) (\<lambda>(name, name_length).
                gives (len, fstructure d + p, add32 p padded, name, name_length))))"

text \<open>The first of the names that the property has, compared in the order of the code.\<close>

primrec match_name :: "u8 list \<Rightarrow> nat \<Rightarrow> nat \<Rightarrow> string list \<Rightarrow> string option option" where
  "match_name blob name len [] = Some None"
| "match_name blob name len (s # ss) = do {
     same \<leftarrow> bytes_equal_string blob name len s;
     if same then Some (Some s) else match_name blob name len ss
   }"

section \<open>Bus addresses\<close>

record discovery_node =
  nranges :: nat
  nreg :: nat
  nranges_length :: nat
  nreg_length :: nat
  nchild_address_cells :: nat
  nchild_size_cells :: nat
  nparent_enabled :: bool
  nenabled :: bool
  nchildren_started :: bool
  naddress_cells_seen :: bool
  nsize_cells_seen :: bool
  nranges_seen :: bool
  nreg_seen :: bool
  ncompatible_seen :: bool
  ncompatible_virtio_mmio :: bool
  nstatus_seen :: bool

primrec range_loop :: "u8 list \<Rightarrow> discovery_node \<Rightarrow> nat \<Rightarrow> nat \<Rightarrow> nat \<Rightarrow> nat \<Rightarrow> u64 \<Rightarrow> u64 \<Rightarrow> u64 parse" where
  "range_loop blob bus pac tuple_size v 0 address sz = fails DTB_UNSUPPORTED"
| "range_loop blob bus pac tuple_size v (Suc n) address sz = do {
     child_base \<leftarrow> read_cells blob v (nchild_address_cells bus);
     parent_base \<leftarrow> read_cells blob (v + nchild_address_cells bus * 4) pac;
     range_size \<leftarrow> (if nchild_size_cells bus = 0 then Some (- 1)
                    else read_cells blob (v + (nchild_address_cells bus + pac) * 4) (nchild_size_cells bus));
     if address < child_base then range_loop blob bus pac tuple_size (v + tuple_size) n address sz
     else
       let offset = address - child_base
       in if range_size \<le> offset \<or> range_size - offset < sz then range_loop blob bus pac tuple_size (v + tuple_size) n address sz
          else if - 1 - parent_base < offset then fails DTB_INVALID
          else gives (parent_base + offset)
   }"

definition translate_bus_address :: "u8 list \<Rightarrow> discovery_node \<Rightarrow> nat \<Rightarrow> u64 \<Rightarrow> u64 \<Rightarrow> u64 parse" where
  "translate_bus_address blob bus pac address sz =
     (if \<not> nranges_seen bus then fails DTB_UNSUPPORTED
      else if nranges_length bus = 0 then gives address
      else if nchild_address_cells bus = 0 \<or> 2 < nchild_address_cells bus \<or> pac = 0 \<or> 2 < pac \<or> 2 < nchild_size_cells bus
      then fails DTB_UNSUPPORTED
      else
        let tuple_cells = add32 (add32 (nchild_address_cells bus) pac) (nchild_size_cells bus); tuple_size = tuple_cells * 4 mod 2 ^ 32
        in if tuple_cells = 0 \<or> (2 ^ 32 - 1) div 4 < tuple_cells then fails DTB_INVALID
           else if nranges_length bus mod tuple_size \<noteq> 0 then fails DTB_INVALID
           else range_loop blob bus pac tuple_size (nranges bus) (nranges_length bus div tuple_size) address sz)"

text \<open>The loop over the buses above the parent of the device, from the nearest one on.\<close>

primrec bus_loop :: "u8 list \<Rightarrow> discovery_node list \<Rightarrow> nat \<Rightarrow> u64 \<Rightarrow> u64 \<Rightarrow> u64 parse" where
  "bus_loop blob nodes 0 address sz = gives address"
| "bus_loop blob nodes (Suc b) address sz =
     andthen (translate_bus_address blob (nodes ! Suc b) (nchild_address_cells (nodes ! b)) address sz) (\<lambda>a. bus_loop blob nodes b a sz)"

section \<open>Virtio devices\<close>

primrec shift_up :: "mrange list \<Rightarrow> u64 \<Rightarrow> nat \<Rightarrow> mrange list \<times> nat" where
  "shift_up xs base 0 = (xs, 0)"
| "shift_up xs base (Suc p) = (if base < rbase (xs ! p) then shift_up (xs[Suc p := xs ! p]) base p else (xs, Suc p))"

text \<open>The slot behind the last range is still cleared when the ranges are moved up.\<close>

definition insert_virtio_mmio :: "mrange list \<Rightarrow> u64 \<Rightarrow> u64 \<Rightarrow> mrange list parse" where
  "insert_virtio_mmio xs base sz =
     (if sz = 0 \<or> - 1 - base < sz then fails DTB_INVALID
      else if length xs = DTB_MAX_VIRTIO_MMIO_RANGES then fails DTB_UNSUPPORTED
      else
        let (ys, p) = shift_up (xs @ [\<lparr>rbase = 0, rsize = 0\<rparr>]) base (length xs); zs = ys[p := \<lparr>rbase = base, rsize = sz\<rparr>]
        in if (0 < p \<and> base - rbase (zs ! (p - 1)) < rsize (zs ! (p - 1))) \<or> (p + 1 < length zs \<and> rbase (zs ! (p + 1)) - base < sz)
           then fails DTB_INVALID else gives zs)"

definition finish_discovery_node :: "u8 list \<Rightarrow> discovery_node list \<Rightarrow> dtb_boot_info \<Rightarrow> dtb_boot_info parse" where
  "finish_discovery_node blob nodes i =
     (let depth = length nodes; node = nodes ! (depth - 1)
      in if \<not> ncompatible_virtio_mmio node \<or> \<not> nenabled node then gives i
         else if depth < 2 \<or> \<not> nreg_seen node \<or> nreg node = 0 then fails DTB_INVALID
         else
           let ac = nchild_address_cells (nodes ! (depth - 2)); sc = nchild_size_cells (nodes ! (depth - 2))
           in if ac = 0 \<or> 2 < ac \<or> sc = 0 \<or> 2 < sc then fails DTB_UNSUPPORTED
              else if nreg_length node \<noteq> (ac + sc) * 4 then fails DTB_INVALID
              else andthen (reads (read_cells blob (nreg node) ac)) (\<lambda>address.
                andthen (reads (read_cells blob (nreg node + ac * 4) sc)) (\<lambda>sz.
                  if sz = 0 \<or> - 1 - address < sz then fails DTB_INVALID
                  else andthen (bus_loop blob nodes (depth - 2) address sz) (\<lambda>a.
                    andthen (insert_virtio_mmio (dvirtio_mmio i) a sz) (\<lambda>xs. gives (i\<lparr>dvirtio_mmio := xs\<rparr>))))))"

record discovery =
  vposition :: nat
  vnodes :: "discovery_node list"
  vsaw_root :: bool
  vinfo :: dtb_boot_info

abbreviation (input) DTB_DISCOVERY_MAX_DEPTH :: nat where "DTB_DISCOVERY_MAX_DEPTH \<equiv> 16"

definition discover_begin :: "fdt \<Rightarrow> discovery \<Rightarrow> discovery parse" where
  "discover_begin d s = andthen (begin_node d (vposition s)) (\<lambda>(name_length, next_position).
     if length (vnodes s) = DTB_DISCOVERY_MAX_DEPTH then fails DTB_UNSUPPORTED
     else if vnodes s = [] \<and> (vsaw_root s \<or> name_length \<noteq> 0) then fails DTB_INVALID
     else
       let started = (if vnodes s = [] then [] else (vnodes s)[length (vnodes s) - 1 := (last (vnodes s))\<lparr>nchildren_started := True\<rparr>]);
           on = (vnodes s = [] \<or> nenabled (last (vnodes s)))
       in gives (s\<lparr>vposition := next_position, vsaw_root := True,
            vnodes := started @ [\<lparr>nranges = 0, nreg = 0, nranges_length = 0, nreg_length = 0, nchild_address_cells = 2, nchild_size_cells = 1,
              nparent_enabled = on, nenabled = on, nchildren_started = False, naddress_cells_seen = False, nsize_cells_seen = False,
              nranges_seen = False, nreg_seen = False, ncompatible_seen = False, ncompatible_virtio_mmio = False, nstatus_seen = False\<rparr>]\<rparr>))"

definition discover_end :: "fdt \<Rightarrow> discovery \<Rightarrow> discovery parse" where
  "discover_end d s =
     (if vnodes s = [] then fails DTB_INVALID
      else andthen (finish_discovery_node (fblob d) (vnodes s) (vinfo s)) (\<lambda>i. gives (s\<lparr>vinfo := i, vnodes := butlast (vnodes s)\<rparr>)))"

text \<open>The change of the current node by a property.\<close>

definition discover_value :: "u8 list \<Rightarrow> string option \<Rightarrow> nat \<Rightarrow> nat \<Rightarrow> discovery_node \<Rightarrow> discovery_node parse" where
  "discover_value blob which len v node =
     (if which = Some ''#address-cells'' then
        (if naddress_cells_seen node \<or> len \<noteq> 4 then fails DTB_INVALID
         else andthen (reads (read_size blob v)) (\<lambda>c. gives (node\<lparr>naddress_cells_seen := True, nchild_address_cells := c\<rparr>)))
      else if which = Some ''#size-cells'' then
        (if nsize_cells_seen node \<or> len \<noteq> 4 then fails DTB_INVALID
         else andthen (reads (read_size blob v)) (\<lambda>c. gives (node\<lparr>nsize_cells_seen := True, nchild_size_cells := c\<rparr>)))
      else if which = Some ''ranges'' then
        (if nranges_seen node then fails DTB_INVALID else gives (node\<lparr>nranges_seen := True, nranges := v, nranges_length := len\<rparr>))
      else if which = Some ''reg'' then
        (if nreg_seen node then fails DTB_INVALID else gives (node\<lparr>nreg_seen := True, nreg := v, nreg_length := len\<rparr>))
      else if which = Some ''compatible'' then
        (if ncompatible_seen node then fails DTB_INVALID
         else andthen (reads (string_list_contains blob v len ''virtio,mmio'')) (\<lambda>c.
           case c of None \<Rightarrow> fails DTB_INVALID | Some c \<Rightarrow> gives (node\<lparr>ncompatible_seen := True, ncompatible_virtio_mmio := c\<rparr>)))
      else if which = Some ''status'' then
        (if nstatus_seen node then fails DTB_INVALID
         else andthen (reads (status_is_available blob v len)) (\<lambda>a.
           case a of None \<Rightarrow> fails DTB_INVALID | Some a \<Rightarrow> gives (node\<lparr>nstatus_seen := True, nenabled := nparent_enabled node \<and> a\<rparr>)))
      else gives node)"

definition discover_prop :: "fdt \<Rightarrow> discovery \<Rightarrow> discovery parse" where
  "discover_prop d s =
     (if vnodes s = [] \<or> fstructure_size d - vposition s < 8 then fails DTB_INVALID
      else if nchildren_started (last (vnodes s)) then fails DTB_INVALID
      else andthen (prop_header d (vposition s)) (\<lambda>(len, v, next_position, name, name_length).
        andthen (reads (match_name (fblob d) name name_length
            [''#address-cells'', ''#size-cells'', ''ranges'', ''reg'', ''compatible'', ''status''])) (\<lambda>which.
          andthen (discover_value (fblob d) which len v (last (vnodes s))) (\<lambda>node.
            gives (s\<lparr>vposition := next_position, vnodes := butlast (vnodes s) @ [node]\<rparr>)))))"

partial_function (option) discover_loop :: "fdt \<Rightarrow> discovery \<Rightarrow> dtb_boot_info parse" where
  "discover_loop d s =
     (if fstructure_size d \<le> vposition s \<or> fstructure_size d - vposition s < 4 then fails DTB_INVALID
      else andthen (reads (read_size (fblob d) (fstructure d + vposition s))) (\<lambda>token.
        let s1 = s\<lparr>vposition := add32 (vposition s) 4\<rparr>
        in if token = 1 then andthen (discover_begin d s1) (discover_loop d)
           else if token = 2 then andthen (discover_end d s1) (discover_loop d)
           else if token = 3 then andthen (discover_prop d s1) (discover_loop d)
           else if token = 4 then discover_loop d s1
           else if token = 9 then
             (if \<not> vsaw_root s1 \<or> vnodes s1 \<noteq> [] \<or> vposition s1 \<noteq> fstructure_size d then fails DTB_INVALID else gives (vinfo s1))
           else fails DTB_INVALID))"

definition discover_virtio_mmio :: "fdt \<Rightarrow> dtb_boot_info \<Rightarrow> dtb_boot_info parse" where
  "discover_virtio_mmio d i = discover_loop d \<lparr>vposition = 0, vnodes = [], vsaw_root = False, vinfo = i\<lparr>dvirtio_mmio := []\<rparr>\<rparr>"

end
