(* ===== verification/Dtb_Boot.thy ===== *)
theory Dtb_Boot
  imports Dtb
begin

text \<open>The boot information of \<^verbatim>\<open>src/kernel/dtb.c\<close>: \<^verbatim>\<open>dtb_read_boot_info\<close>.\<close>

record dtb_scan =
  position :: nat
  depth :: nat
  property_depth :: nat
  address_cells :: nat
  size_cells :: nat
  reserved_address_cells :: nat
  reserved_size_cells :: nat
  info :: dtb_boot_info
  saw_root :: bool
  address_cells_seen :: bool
  size_cells_seen :: bool
  memory_name :: bool
  memory_type :: bool
  memory_type_seen :: bool
  found :: bool
  memory_reg :: nat
  memory_reg_length :: nat
  memory_reg_seen :: bool
  reserved_node :: bool
  reserved_node_seen :: bool
  reserved_address_cells_seen :: bool
  reserved_size_cells_seen :: bool
  reserved_ranges_seen :: bool
  reserved_child :: bool
  reserved_reg :: nat
  reserved_reg_length :: nat
  reserved_reg_seen :: bool
  reserved_size_seen :: bool
  cpus_node :: bool
  chosen_node :: bool
  rng_seed_seen :: bool
  timebase_frequency_seen :: bool

section \<open>Nodes\<close>

text \<open>The start of a node directly below the root.\<close>

definition scan_child :: "u8 list \<Rightarrow> nat \<Rightarrow> nat \<Rightarrow> dtb_scan \<Rightarrow> dtb_scan parse" where
  "scan_child blob name len s =
     andthen (reads (bytes_equal_string blob name len ''cpus'')) (\<lambda>cpus.
     andthen (reads (bytes_equal_string blob name len ''chosen'')) (\<lambda>chosen.
     andthen (reads (classify_memory_node_name blob name len)) (\<lambda>memory.
       if memory < 0 then fails DTB_INVALID
       else andthen (reads (bytes_equal_string blob name len ''reserved-memory'')) (\<lambda>reserved.
         let s1 = s\<lparr>cpus_node := cpus, chosen_node := chosen, memory_name := memory \<noteq> 0, memory_type := False, memory_type_seen := False,
              memory_reg := 0, memory_reg_length := 0, memory_reg_seen := False, reserved_node := reserved\<rparr>
         in if \<not> reserved then gives s1
            else if reserved_node_seen s then fails DTB_INVALID
            else gives (s1\<lparr>reserved_node_seen := True, reserved_address_cells_seen := False, reserved_size_cells_seen := False,
                   reserved_ranges_seen := False\<rparr>)))))"

definition scan_begin :: "fdt \<Rightarrow> dtb_scan \<Rightarrow> dtb_scan parse" where
  "scan_begin d s = andthen (begin_node d (position s)) (\<lambda>(name_length, next_position).
     if depth s = 0 \<and> (saw_root s \<or> name_length \<noteq> 0) then fails DTB_INVALID
     else
       let deeper = add32 (depth s) 1;
           s1 = s\<lparr>saw_root := (if depth s = 0 then True else saw_root s), depth := deeper, property_depth := deeper, position := next_position\<rparr>
       in if deeper = 2 then scan_child (fblob d) (fstructure d + position s) name_length s1
          else if deeper = 3 \<and> reserved_node s then
            (if \<not> reserved_address_cells_seen s \<or> \<not> reserved_size_cells_seen s \<or> \<not> reserved_ranges_seen s then fails DTB_INVALID
             else gives (s1\<lparr>reserved_child := True, reserved_reg := 0, reserved_reg_length := 0, reserved_reg_seen := False,
                    reserved_size_seen := False\<rparr>))
          else gives s1)"

text \<open>The end of a memory node, of a reserved range and of the reserved-memory node.\<close>

definition end_memory :: "u8 list \<Rightarrow> dtb_scan \<Rightarrow> dtb_scan parse" where
  "end_memory blob s =
     (if depth s = 2 \<and> memory_name s then
        if \<not> memory_type_seen s \<or> \<not> memory_type s \<or> \<not> memory_reg_seen s \<or> memory_reg s = 0 then fails DTB_INVALID
        else andthen (read_memory_reg blob (memory_reg s) (memory_reg_length s) (address_cells s) (size_cells s) (info s, found s))
          (\<lambda>(i, f). gives (s\<lparr>info := i, found := f\<rparr>))
      else gives s)"

definition end_reserved :: "u8 list \<Rightarrow> dtb_scan \<Rightarrow> dtb_scan parse" where
  "end_reserved blob s =
     (if depth s = 3 \<and> reserved_child s then
        if reserved_reg_seen s \<and> reserved_size_seen s then fails DTB_INVALID
        else if \<not> reserved_reg_seen s then fails (if reserved_size_seen s then DTB_UNSUPPORTED else DTB_INVALID)
        else andthen (append_reserved_reg blob (reserved_reg s) (reserved_reg_length s) (reserved_address_cells s) (reserved_size_cells s) (info s))
          (\<lambda>i. gives (s\<lparr>info := i, reserved_child := False\<rparr>))
      else if depth s = 2 \<and> reserved_node s then
        if \<not> reserved_address_cells_seen s \<or> \<not> reserved_size_cells_seen s \<or> \<not> reserved_ranges_seen s \<or>
           reserved_address_cells s \<noteq> address_cells s \<or> reserved_size_cells s \<noteq> size_cells s
        then fails DTB_INVALID
        else gives (s\<lparr>reserved_node := False\<rparr>)
      else gives s)"

definition scan_end :: "fdt \<Rightarrow> dtb_scan \<Rightarrow> dtb_scan parse" where
  "scan_end d s =
     (if depth s = 0 then fails DTB_INVALID
      else andthen (end_memory (fblob d) s) (\<lambda>s1.
        andthen (end_reserved (fblob d) s1) (\<lambda>s2.
          let s3 = (if depth s2 = 2 then s2\<lparr>cpus_node := False, chosen_node := False\<rparr> else s2)
          in gives (s3\<lparr>property_depth := (if property_depth s3 = depth s3 then 0 else property_depth s3), depth := depth s3 - 1\<rparr>))))"

section \<open>Properties\<close>

text \<open>The names the code compares in the state, in its order.\<close>

definition watched :: "dtb_scan \<Rightarrow> string list" where
  "watched s = map snd (filter fst
     [((depth s = 2 \<and> (memory_name s \<or> reserved_node s)) \<or> (depth s = 3 \<and> reserved_child s), ''status''),
      (depth s = 2 \<and> cpus_node s, ''timebase-frequency''),
      (depth s = 2 \<and> chosen_node s, ''rng-seed''),
      (depth s = 1, ''#address-cells''),
      (depth s = 1, ''#size-cells''),
      (depth s = 2 \<and> reserved_node s, ''#address-cells''),
      (depth s = 2 \<and> reserved_node s, ''#size-cells''),
      (depth s = 2 \<and> reserved_node s, ''ranges''),
      (depth s = 3 \<and> reserved_child s, ''reg''),
      (depth s = 3 \<and> reserved_child s, ''size''),
      (depth s = 2 \<and> memory_name s, ''device_type''),
      (depth s = 2 \<and> memory_name s, ''reg'')])"

text \<open>A cell count: a single cell with the value 1 or 2.\<close>

definition cell_count :: "u8 list \<Rightarrow> bool \<Rightarrow> nat \<Rightarrow> nat \<Rightarrow> nat parse" where
  "cell_count blob seen len v =
     (if seen \<or> len \<noteq> 4 then fails DTB_INVALID
      else andthen (reads (read_size blob v)) (\<lambda>c. if c = 0 \<or> 2 < c then fails DTB_UNSUPPORTED else gives c))"

primrec copy_bytes :: "u8 list \<Rightarrow> nat \<Rightarrow> nat \<Rightarrow> u8 list option" where
  "copy_bytes blob v 0 = Some []"
| "copy_bytes blob v (Suc n) = do { b \<leftarrow> byte_at blob v; bs \<leftarrow> copy_bytes blob (v + 1) n; Some (b # bs) }"

definition scan_value :: "u8 list \<Rightarrow> string option \<Rightarrow> nat \<Rightarrow> nat \<Rightarrow> dtb_scan \<Rightarrow> dtb_scan parse" where
  "scan_value blob which len v s =
     (if which = Some ''status'' then fails DTB_UNSUPPORTED
      else if which = Some ''timebase-frequency'' then
        (if timebase_frequency_seen s \<or> len \<noteq> 4 then fails DTB_INVALID
         else andthen (reads (read_size blob v)) (\<lambda>f.
           if f = 0 then fails DTB_INVALID else gives (s\<lparr>info := (info s)\<lparr>dtimebase_frequency := f\<rparr>, timebase_frequency_seen := True\<rparr>)))
      else if which = Some ''rng-seed'' then
        (if rng_seed_seen s \<or> len < DTB_RNG_SEED_SIZE then fails (if len < DTB_RNG_SEED_SIZE then DTB_UNSUPPORTED else DTB_INVALID)
         else andthen (reads (copy_bytes blob v DTB_RNG_SEED_SIZE)) (\<lambda>bs.
           gives (s\<lparr>info := (info s)\<lparr>drng_seed := bs\<rparr>, rng_seed_seen := True\<rparr>)))
      else if which = Some ''#address-cells'' then
        (if depth s = 1 then andthen (cell_count blob (address_cells_seen s) len v) (\<lambda>c. gives (s\<lparr>address_cells_seen := True, address_cells := c\<rparr>))
         else andthen (cell_count blob (reserved_address_cells_seen s) len v) (\<lambda>c.
           gives (s\<lparr>reserved_address_cells_seen := True, reserved_address_cells := c\<rparr>)))
      else if which = Some ''#size-cells'' then
        (if depth s = 1 then andthen (cell_count blob (size_cells_seen s) len v) (\<lambda>c. gives (s\<lparr>size_cells_seen := True, size_cells := c\<rparr>))
         else andthen (cell_count blob (reserved_size_cells_seen s) len v) (\<lambda>c.
           gives (s\<lparr>reserved_size_cells_seen := True, reserved_size_cells := c\<rparr>)))
      else if which = Some ''ranges'' then
        (if reserved_ranges_seen s \<or> len \<noteq> 0 then fails DTB_INVALID else gives (s\<lparr>reserved_ranges_seen := True\<rparr>))
      else if which = Some ''reg'' \<and> depth s = 3 then
        (if reserved_reg_seen s then fails DTB_INVALID else gives (s\<lparr>reserved_reg_seen := True, reserved_reg := v, reserved_reg_length := len\<rparr>))
      else if which = Some ''size'' then
        (if reserved_size_seen s then fails DTB_INVALID else gives (s\<lparr>reserved_size_seen := True\<rparr>))
      else if which = Some ''device_type'' then
        (if memory_type_seen s then fails DTB_INVALID
         else andthen (reads (property_value_is_one_string blob v len)) (\<lambda>one.
           if \<not> one then fails DTB_INVALID
           else andthen (reads (bytes_equal_string blob v (len - 1) ''memory'')) (\<lambda>m. gives (s\<lparr>memory_type_seen := True, memory_type := m\<rparr>))))
      else if which = Some ''reg'' then
        (if memory_reg_seen s then fails DTB_INVALID else gives (s\<lparr>memory_reg_seen := True, memory_reg := v, memory_reg_length := len\<rparr>))
      else gives s)"

definition scan_prop :: "fdt \<Rightarrow> dtb_scan \<Rightarrow> dtb_scan parse" where
  "scan_prop d s =
     (if depth s = 0 \<or> property_depth s \<noteq> depth s \<or> fstructure_size d - position s < 8 then fails DTB_INVALID
      else andthen (prop_header d (position s)) (\<lambda>(len, v, next_position, name, name_length).
        andthen (reads (match_name (fblob d) name name_length (watched s))) (\<lambda>which.
          scan_value (fblob d) which len v (s\<lparr>position := next_position\<rparr>))))"

section \<open>The blob\<close>

partial_function (option) scan_loop :: "fdt \<Rightarrow> dtb_scan \<Rightarrow> dtb_boot_info parse" where
  "scan_loop d s =
     (if fstructure_size d \<le> position s \<or> fstructure_size d - position s < 4 then fails DTB_INVALID
      else andthen (reads (read_size (fblob d) (fstructure d + position s))) (\<lambda>token.
        let s1 = s\<lparr>position := add32 (position s) 4\<rparr>
        in if token = 1 then andthen (scan_begin d s1) (scan_loop d)
           else if token = 2 then andthen (scan_end d s1) (scan_loop d)
           else if token = 3 then andthen (scan_prop d s1) (scan_loop d)
           else if token = 4 then scan_loop d s1
           else if token = 9 then
             (if \<not> saw_root s1 \<or> depth s1 \<noteq> 0 \<or> position s1 \<noteq> fstructure_size d then fails DTB_INVALID
              else if \<not> found s1 then fails DTB_NOT_FOUND
              else discover_virtio_mmio d (info s1))
           else fails DTB_INVALID))"

text \<open>The memory reservation block, up to its terminator.\<close>

partial_function (option) reserve_loop :: "u8 list \<Rightarrow> nat \<Rightarrow> nat \<Rightarrow> dtb_boot_info \<Rightarrow> dtb_boot_info parse" where
  "reserve_loop blob structure_offset pos i =
     (if structure_offset < pos \<or> structure_offset - pos < 16 then fails DTB_INVALID
      else andthen (reads (reserve_entry_is_terminator blob pos)) (\<lambda>last.
        if last then gives i
        else andthen (reads (read_be64 blob (pos + 8))) (\<lambda>sz.
          if sz \<noteq> 0 then
            if length (dreserved i) = DTB_MAX_RESERVED_RANGES then fails DTB_UNSUPPORTED
            else andthen (reads (read_be64 blob pos)) (\<lambda>base.
              reserve_loop blob structure_offset (add32 pos 16) (i\<lparr>dreserved := dreserved i @ [\<lparr>rbase = base, rsize = sz\<rparr>]\<rparr>))
          else reserve_loop blob structure_offset (add32 pos 16) i)))"

text \<open>The header: an error, or the total size, the blocks and the offset of the reservation block.\<close>

definition read_header :: "u8 list \<Rightarrow> (nat \<times> fdt \<times> nat) parse" where
  "read_header blob = andthen (reads (read_size blob 0)) (\<lambda>magic.
     if magic \<noteq> 0xd00dfeed then fails DTB_INVALID
     else andthen (reads (read_size blob 4)) (\<lambda>total_size.
       if total_size < 40 then fails DTB_INVALID
       else andthen (reads (read_size blob 8)) (\<lambda>structure_offset.
         andthen (reads (read_size blob 12)) (\<lambda>strings_offset.
         andthen (reads (read_size blob 16)) (\<lambda>reserve_offset.
         andthen (reads (read_size blob 20)) (\<lambda>version.
         andthen (reads (read_size blob 24)) (\<lambda>last_compatible_version.
         andthen (reads (read_size blob 32)) (\<lambda>strings_size.
         andthen (reads (read_size blob 36)) (\<lambda>structure_size.
           if version < 17 \<or> 17 < last_compatible_version then fails DTB_UNSUPPORTED
           else if reserve_offset < 40 \<or> structure_offset < 40 \<or> strings_offset < 40 \<or> structure_offset < reserve_offset \<or>
                strings_offset < structure_offset \<or> structure_offset mod 4 \<noteq> 0 \<or> structure_size mod 4 \<noteq> 0 \<or> reserve_offset mod 8 \<noteq> 0 \<or>
                strings_offset - structure_offset < structure_size \<or> \<not> range_is_inside total_size strings_offset strings_size
           then fails DTB_INVALID
           else gives (total_size, \<lparr>fblob = blob, fstructure = structure_offset, fstructure_size = structure_size, fstrings = strings_offset,
                  fstrings_size = strings_size\<rparr>, reserve_offset))))))))))"

definition scan_start :: "dtb_boot_info \<Rightarrow> dtb_scan" where
  "scan_start i =
     \<lparr>position = 0, depth = 0, property_depth = 0, address_cells = 2, size_cells = 1, reserved_address_cells = 0, reserved_size_cells = 0,
      info = i, saw_root = False, address_cells_seen = False, size_cells_seen = False, memory_name = False, memory_type = False,
      memory_type_seen = False, found = False, memory_reg = 0, memory_reg_length = 0, memory_reg_seen = False, reserved_node = False,
      reserved_node_seen = False, reserved_address_cells_seen = False, reserved_size_cells_seen = False, reserved_ranges_seen = False,
      reserved_child = False, reserved_reg = 0, reserved_reg_length = 0, reserved_reg_seen = False, reserved_size_seen = False,
      cpus_node = False, chosen_node = False, rng_seed_seen = False, timebase_frequency_seen = False\<rparr>"

text \<open>The parser on a blob and an old value of the result, which a failure leaves alone. Both pointers may be null.\<close>

definition dtb_read_boot_info :: "u8 list option \<Rightarrow> dtb_boot_info option \<Rightarrow> (dtb_status \<times> dtb_boot_info option) option" where
  "dtb_read_boot_info dtb out =
     (case (dtb, out) of
        (Some blob, Some _) \<Rightarrow> do {
          r \<leftarrow> andthen (read_header blob) (\<lambda>(total_size, d, reserve_offset).
            andthen (reserve_loop blob (fstructure d) reserve_offset
                \<lparr>dmemory = \<lparr>rbase = 0, rsize = 0\<rparr>, dmemories = [], ddtb_size = total_size, dtimebase_frequency = 0, dreserved = [],
                 dvirtio_mmio = [], drng_seed = []\<rparr>)
              (\<lambda>i. scan_loop d (scan_start i)));
          Some (case r of Inl status \<Rightarrow> (status, out) | Inr i \<Rightarrow> (DTB_OK, Some i))
        }
      | _ \<Rightarrow> Some (DTB_INVALID, out))"

end
