(* ===== verification/Dtb_Cpu.thy ===== *)
theory Dtb_Cpu
  imports Dtb_Boot
begin

text \<open>
  The list of usable processors of \<^verbatim>\<open>src/kernel/dtb.c\<close>: \<^verbatim>\<open>dtb_read_cpu_info\<close>. This pass runs over a blob that the boot pass has accepted
  and checks no bounds of its own; \<open>None\<close> is again a read past the blob, or an access below the node stack.
\<close>

record cpu_node =
  caddress_cells :: nat
  cseen :: u32
  creg :: nat
  creg_length :: nat
  cenabled :: bool
  ccpus :: bool
  ccpu :: bool
  ccpu_named :: bool

record cpu_scan =
  cposition :: nat
  cstack :: "cpu_node list"
  ccpus_seen :: nat
  charts :: "u64 list"

abbreviation (input) DTB_MAX_CPUS :: nat where "DTB_MAX_CPUS \<equiv> 4"

text \<open>The length of the string at an address: a loop to the next zero byte.\<close>

function zero_offset :: "u8 list \<Rightarrow> nat \<Rightarrow> nat option" where
  "zero_offset blob a = (if a < length blob then (if blob ! a = 0 then Some 0 else map_option Suc (zero_offset blob (a + 1))) else None)"
  by pat_completeness auto
termination
  by (relation "measure (\<lambda>(blob, a). length blob - a)") auto

declare zero_offset.simps [simp del]

definition align4 :: "nat \<Rightarrow> nat" where
  "align4 v = v mod 2 ^ 32 div 4 * 4"

definition cpu_begin :: "u8 list \<Rightarrow> nat \<Rightarrow> cpu_scan \<Rightarrow> cpu_scan parse" where
  "cpu_begin blob structure s =
     (let name = structure + cposition s; depth = length (cstack s)
      in andthen (reads (zero_offset blob name)) (\<lambda>len.
        if depth = DTB_DISCOVERY_MAX_DEPTH then fails DTB_UNSUPPORTED
        else andthen (reads (if depth = 1 then bytes_equal_string blob name len ''cpus'' else Some False)) (\<lambda>cpus.
          andthen (reads (if depth = 2 \<and> ccpus (cstack s ! 1) \<and> 4 \<le> len then bytes_start blob name (cstr ''cpu@'') else Some False)) (\<lambda>named.
            if cpus \<and> ccpus_seen s \<noteq> 0 then fails DTB_INVALID
            else gives (s\<lparr>cposition := align4 (cposition s + len + 4), ccpus_seen := (if cpus then ccpus_seen s + 1 else ccpus_seen s),
                   cstack := cstack s @ [\<lparr>caddress_cells = 2, cseen = 0, creg = 0, creg_length = 0,
                     cenabled = (depth = 0 \<or> cenabled (last (cstack s))), ccpus = cpus, ccpu = False, ccpu_named = named\<rparr>]\<rparr>)))))"

text \<open>The effect of a property on its node, with the bit that marks the property as seen.\<close>

definition cpu_value :: "u8 list \<Rightarrow> string option \<Rightarrow> nat \<Rightarrow> nat \<Rightarrow> bool \<Rightarrow> cpu_node \<Rightarrow> (cpu_node \<times> u32) parse" where
  "cpu_value blob which len v parent_on node =
     (if which = Some ''#address-cells'' then
        (if len \<noteq> 4 then fails DTB_INVALID else andthen (reads (read_size blob v)) (\<lambda>c. gives (node\<lparr>caddress_cells := c\<rparr>, 1)))
      else if which = Some ''status'' then
        andthen (reads (status_is_available blob v len)) (\<lambda>a.
          case a of None \<Rightarrow> fails DTB_INVALID | Some a \<Rightarrow> gives (node\<lparr>cenabled := a \<and> parent_on\<rparr>, 2))
      else if which = Some ''device_type'' then
        (if len \<noteq> 4 then fails DTB_INVALID
         else andthen (reads (bytes_equal_string blob v 3 ''cpu'')) (\<lambda>same.
           if \<not> same then fails DTB_INVALID else gives (node\<lparr>ccpu := True\<rparr>, 4)))
      else if which = Some ''reg'' then gives (node\<lparr>creg := v, creg_length := len\<rparr>, 8)
      else gives (node, 0))"

definition cpu_prop :: "u8 list \<Rightarrow> nat \<Rightarrow> nat \<Rightarrow> cpu_scan \<Rightarrow> cpu_scan parse" where
  "cpu_prop blob structure strings s =
     (let p = structure + cposition s; depth = length (cstack s)
      in andthen (reads (read_size blob p)) (\<lambda>len.
        andthen (reads (read_size blob (p + 4))) (\<lambda>offset.
          andthen (reads (zero_offset blob (strings + offset))) (\<lambda>n.
            if depth = 0 then None
            else andthen (reads (match_name blob (strings + offset) n
                ([''#address-cells'', ''status''] @ (if depth = 3 \<and> ccpus (cstack s ! 1) then [''device_type''] else []) @ [''reg'']))) (\<lambda>which.
              andthen (cpu_value blob which len (p + 8) (depth = 1 \<or> cenabled (cstack s ! (depth - 2))) (last (cstack s))) (\<lambda>(node, b).
                if b \<noteq> 0 \<and> cseen node AND b \<noteq> 0 then fails DTB_INVALID
                else gives (s\<lparr>cposition := add32 (cposition s) (8 + align4 (len + 3)),
                       cstack := butlast (cstack s) @ [node\<lparr>cseen := cseen node OR b\<rparr>]\<rparr>)))))))"

definition cpu_end :: "u8 list \<Rightarrow> cpu_scan \<Rightarrow> cpu_scan parse" where
  "cpu_end blob s =
     (let depth = length (cstack s); node = last (cstack s)
      in if depth = 0 then None
         else if depth = 3 \<and> ccpus (cstack s ! 1) \<and> cenabled node \<and> (ccpu node \<or> ccpu_named node) then
           let ac = caddress_cells (cstack s ! 1)
           in if \<not> ccpu node \<or> creg node = 0 \<or> ac = 0 \<or> 2 < ac \<or> creg_length node \<noteq> ac * 4 then fails DTB_INVALID
              else andthen (reads (read_cells blob (creg node) ac)) (\<lambda>hart.
                if hart \<in> set (charts s) then fails DTB_INVALID
                else if length (charts s) = DTB_MAX_CPUS then fails DTB_UNSUPPORTED
                else gives (s\<lparr>charts := charts s @ [hart], cstack := butlast (cstack s)\<rparr>))
         else gives (s\<lparr>cstack := butlast (cstack s)\<rparr>))"

partial_function (option) cpu_loop :: "u8 list \<Rightarrow> nat \<Rightarrow> nat \<Rightarrow> cpu_scan \<Rightarrow> u64 list parse" where
  "cpu_loop blob structure strings s =
     andthen (reads (read_size blob (structure + cposition s))) (\<lambda>token.
       let s1 = s\<lparr>cposition := add32 (cposition s) 4\<rparr>
       in if token = 1 then andthen (cpu_begin blob structure s1) (cpu_loop blob structure strings)
          else if token = 3 then andthen (cpu_prop blob structure strings s1) (cpu_loop blob structure strings)
          else if token = 2 then andthen (cpu_end blob s1) (cpu_loop blob structure strings)
          else if token = 9 then gives (charts s1)
          else cpu_loop blob structure strings s1)"

section \<open>Order\<close>

text \<open>The boot processor is moved to the front, and the others are sorted by insertion; the last match is the one moved.\<close>

definition boot_index :: "u64 list \<Rightarrow> u64 \<Rightarrow> nat" where
  "boot_index hs boot = fold (\<lambda>i b. if hs ! i = boot then i else b) [0..<length hs] (length hs)"

primrec hart_down :: "u64 list \<Rightarrow> u64 \<Rightarrow> nat \<Rightarrow> u64 list" where
  "hart_down hs h 0 = hs[0 := h]"
| "hart_down hs h (Suc j) = (if 0 < j \<and> h < hs ! j then hart_down (hs[Suc j := hs ! j]) h j else hs[Suc j := h])"

definition order_harts :: "u64 list \<Rightarrow> u64 \<Rightarrow> nat \<Rightarrow> u64 list" where
  "order_harts hs boot b = fold (\<lambda>i xs. hart_down xs (xs ! i) i) [2..<length hs] (hs[b := hs ! 0, 0 := boot])"

definition dtb_read_cpu_info :: "u8 list option \<Rightarrow> u64 \<Rightarrow> u64 list option \<Rightarrow> (dtb_status \<times> u64 list option) option" where
  "dtb_read_cpu_info dtb boot_hart out =
     (case out of
        None \<Rightarrow> Some (DTB_INVALID, out)
      | Some _ \<Rightarrow> do {
          (status, _) \<leftarrow> dtb_read_boot_info dtb (Some \<lparr>dmemory = \<lparr>rbase = 0, rsize = 0\<rparr>, dmemories = [], ddtb_size = 0, dtimebase_frequency = 0,
            dreserved = [], dvirtio_mmio = [], drng_seed = []\<rparr>);
          if status \<noteq> DTB_OK then Some (status, out)
          else do {
            blob \<leftarrow> dtb;
            structure \<leftarrow> read_size blob 8;
            strings \<leftarrow> read_size blob 12;
            r \<leftarrow> cpu_loop blob structure strings \<lparr>cposition = 0, cstack = [], ccpus_seen = 0, charts = []\<rparr>;
            Some (case r of
                Inl status \<Rightarrow> (status, out)
              | Inr hs \<Rightarrow>
                  if boot_index hs boot_hart = length hs then (DTB_NOT_FOUND, out)
                  else (DTB_OK, Some (order_harts hs boot_hart (boot_index hs boot_hart))))
          }
        })"

end
