(* ===== verification/Dtb_Irq.thy ===== *)
theory Dtb_Irq
  imports Dtb_Cpu
begin

text \<open>
  The interrupt routes of \<^verbatim>\<open>src/kernel/dtb.c\<close>: \<^verbatim>\<open>dtb_read_irq_info\<close>. Two passes over a blob that the boot pass has accepted: the first finds
  the interrupt controllers, the second the devices, so that a provider may follow its consumers.
\<close>

record irq_node =
  ibus :: discovery_node
  iextended :: nat
  iextended_length :: nat
  iphandle :: nat
  iparent :: nat
  isource :: nat
  indev :: nat
  iintcells :: nat
  iclock :: nat
  ishift :: nat
  iwidth :: nat
  ilayout_seen :: u32
  icpu :: bool
  iintc :: bool
  iplic :: bool
  ivirtio :: bool
  iuart :: bool
  ibig_endian :: bool

record dtb_uart_info =
  uregisters :: mrange
  uclock :: nat
  usource :: nat
  ushift :: nat
  uwidth :: nat

record dtb_irq_info =
  qplic :: mrange
  qcontext :: nat
  qsource_count :: nat
  qroutes :: "(u64 \<times> nat) list"
  quart :: dtb_uart_info

record irq_scan =
  iposition :: nat
  istack :: "irq_node list"
  icpu_intc :: nat
  iplic_phandle :: nat
  icontext_found :: bool
  iout :: dtb_irq_info

definition empty_bus :: discovery_node where
  "empty_bus = \<lparr>nranges = 0, nreg = 0, nranges_length = 0, nreg_length = 0, nchild_address_cells = 0, nchild_size_cells = 0,
     nparent_enabled = False, nenabled = False, nchildren_started = False, naddress_cells_seen = False, nsize_cells_seen = False,
     nranges_seen = False, nreg_seen = False, ncompatible_seen = False, ncompatible_virtio_mmio = False, nstatus_seen = False\<rparr>"

definition irq_begin :: "u8 list \<Rightarrow> nat \<Rightarrow> irq_scan \<Rightarrow> irq_scan parse" where
  "irq_begin blob structure s = andthen (reads (zero_offset blob (structure + iposition s))) (\<lambda>len.
     if DTB_DISCOVERY_MAX_DEPTH \<le> length (istack s) then None
     else
       let top = (istack s = []);
           bus = empty_bus\<lparr>nenabled := top \<or> nenabled (ibus (last (istack s))), nchild_address_cells := 2, nchild_size_cells := 1\<rparr>
       in gives (s\<lparr>iposition := align4 (iposition s + len + 4),
            istack := istack s @ [\<lparr>ibus = bus, iextended = 0, iextended_length = 0, iphandle = 0,
              iparent = (if top then 0 else iparent (last (istack s))), isource = 0, indev = 0, iintcells = 0, iclock = 0, ishift = 0, iwidth = 1,
              ilayout_seen = 0, icpu = False, iintc = False, iplic = False, ivirtio = False, iuart = False, ibig_endian = False\<rparr>]\<rparr>))"

section \<open>Properties\<close>

definition irq_names :: "string list" where
  "irq_names = [''#address-cells'', ''clock-frequency'', ''reg-shift'', ''reg-io-width'', ''big-endian'', ''native-endian'', ''#size-cells'', ''ranges'', ''reg'',
     ''status'', ''device_type'', ''compatible'', ''interrupts-extended'', ''phandle'', ''linux,phandle'', ''interrupt-parent'', ''interrupts'', ''riscv,ndev'',
     ''#interrupt-cells'']"

text \<open>The register layout of a serial port, each property once.\<close>

definition irq_layout :: "u8 list \<Rightarrow> string \<Rightarrow> nat \<Rightarrow> nat \<Rightarrow> irq_node \<Rightarrow> irq_node parse" where
  "irq_layout blob which len v n =
     (let b = (if which = ''clock-frequency'' then 1 else if which = ''reg-shift'' then 2 else 4)
      in if len \<noteq> 4 then fails DTB_INVALID
         else if ilayout_seen n AND b \<noteq> 0 then fails DTB_INVALID
         else andthen (reads (read_size blob v)) (\<lambda>x.
           let n1 = n\<lparr>ilayout_seen := ilayout_seen n OR b\<rparr>
           in gives (if which = ''clock-frequency'' then n1\<lparr>iclock := x\<rparr> else if which = ''reg-shift'' then n1\<lparr>ishift := x\<rparr> else n1\<lparr>iwidth := x\<rparr>)))"

definition irq_compatible :: "u8 list \<Rightarrow> nat \<Rightarrow> nat \<Rightarrow> irq_node \<Rightarrow> irq_node parse" where
  "irq_compatible blob len v n =
     (let has_string = (\<lambda>e. andthen (reads (string_list_contains blob v len e)) (\<lambda>c. case c of None \<Rightarrow> fails DTB_INVALID | Some c \<Rightarrow> gives c))
      in andthen (has_string ''riscv,plic0'') (\<lambda>a. andthen (has_string ''sifive,plic-1.0.0'') (\<lambda>b.
         andthen (has_string ''ns16550a'') (\<lambda>c. andthen (has_string ''ns16550'') (\<lambda>e.
         andthen (has_string ''riscv,cpu-intc'') (\<lambda>i. andthen (has_string ''virtio,mmio'') (\<lambda>m.
           gives (n\<lparr>iplic := a \<or> b, iuart := c \<or> e, iintc := i, ivirtio := m\<rparr>))))))))"

text \<open>The single-cell properties of an interrupt provider or consumer.\<close>

definition irq_cell :: "u8 list \<Rightarrow> string \<Rightarrow> nat \<Rightarrow> nat \<Rightarrow> irq_node \<Rightarrow> irq_node parse" where
  "irq_cell blob which len v n =
     (if len \<noteq> 4 then fails DTB_UNSUPPORTED
      else andthen (reads (read_size blob v)) (\<lambda>x.
        if which = ''phandle'' \<or> which = ''linux,phandle'' then
          (if x = 0 \<or> (iphandle n \<noteq> 0 \<and> iphandle n \<noteq> x) then fails DTB_INVALID else gives (n\<lparr>iphandle := x\<rparr>))
        else if which = ''interrupt-parent'' then gives (n\<lparr>iparent := x\<rparr>)
        else if which = ''interrupts'' then gives (n\<lparr>isource := x\<rparr>)
        else if which = ''riscv,ndev'' then gives (n\<lparr>indev := x\<rparr>)
        else gives (n\<lparr>iintcells := x\<rparr>)))"

definition irq_value :: "u8 list \<Rightarrow> string option \<Rightarrow> nat \<Rightarrow> nat \<Rightarrow> bool \<Rightarrow> irq_node \<Rightarrow> irq_node parse" where
  "irq_value blob which len v parent_on n =
     (case which of
        None \<Rightarrow> gives n
      | Some w \<Rightarrow>
          if w = ''#address-cells'' then andthen (reads (read_size blob v)) (\<lambda>c. gives (n\<lparr>ibus := (ibus n)\<lparr>nchild_address_cells := c\<rparr>\<rparr>))
          else if w = ''clock-frequency'' \<or> w = ''reg-shift'' \<or> w = ''reg-io-width'' then irq_layout blob w len v n
          else if w = ''big-endian'' \<or> w = ''native-endian'' then gives (n\<lparr>ibig_endian := True\<rparr>)
          else if w = ''#size-cells'' then andthen (reads (read_size blob v)) (\<lambda>c. gives (n\<lparr>ibus := (ibus n)\<lparr>nchild_size_cells := c\<rparr>\<rparr>))
          else if w = ''ranges'' then gives (n\<lparr>ibus := (ibus n)\<lparr>nranges_seen := True, nranges := v, nranges_length := len\<rparr>\<rparr>)
          else if w = ''reg'' then gives (n\<lparr>ibus := (ibus n)\<lparr>nreg := v, nreg_length := len\<rparr>\<rparr>)
          else if w = ''status'' then
            andthen (reads (status_is_available blob v len)) (\<lambda>a.
              case a of None \<Rightarrow> fails DTB_INVALID | Some a \<Rightarrow> gives (n\<lparr>ibus := (ibus n)\<lparr>nenabled := a \<and> parent_on\<rparr>\<rparr>))
          else if w = ''device_type'' then
            andthen (reads (if len = 4 then bytes_equal_string blob v 3 ''cpu'' else Some False)) (\<lambda>c. gives (n\<lparr>icpu := c\<rparr>))
          else if w = ''compatible'' then irq_compatible blob len v n
          else if w = ''interrupts-extended'' then gives (n\<lparr>iextended := v, iextended_length := len\<rparr>)
          else irq_cell blob w len v n)"

definition irq_prop :: "u8 list \<Rightarrow> nat \<Rightarrow> nat \<Rightarrow> irq_scan \<Rightarrow> irq_scan parse" where
  "irq_prop blob structure strings s =
     (let p = structure + iposition s; depth = length (istack s)
      in andthen (reads (read_size blob p)) (\<lambda>len.
        andthen (reads (read_size blob (p + 4))) (\<lambda>offset.
          andthen (reads (zero_offset blob (strings + offset))) (\<lambda>n.
            if depth = 0 then None
            else andthen (reads (match_name blob (strings + offset) n irq_names)) (\<lambda>which.
              andthen (irq_value blob which len (p + 8) (depth = 1 \<or> nenabled (ibus (istack s ! (depth - 2)))) (last (istack s))) (\<lambda>node.
                gives (s\<lparr>iposition := add32 (iposition s) (8 + align4 (len + 3)), istack := butlast (istack s) @ [node]\<rparr>)))))))"

section \<open>Nodes\<close>

text \<open>The interrupt controller of the processor \<open>hart\<close>.\<close>

definition irq_end_cpu :: "u8 list \<Rightarrow> u64 \<Rightarrow> bool \<Rightarrow> irq_scan \<Rightarrow> irq_scan parse" where
  "irq_end_cpu blob hart second s =
     (let depth = length (istack s); n = last (istack s)
      in if nenabled (ibus n) \<and> iintc n \<and> 3 \<le> depth \<and> icpu (istack s ! (depth - 2)) then
           let cpu = ibus (istack s ! (depth - 2)); ac = nchild_address_cells (ibus (istack s ! (depth - 3)))
           in if ac = 0 \<or> 2 < ac \<or> nreg_length cpu \<noteq> 4 * ac \<or> iintcells n \<noteq> 1 then fails DTB_UNSUPPORTED
              else andthen (reads (read_cells blob (nreg cpu) ac)) (\<lambda>h.
                if h = hart \<and> \<not> second then
                  (if icpu_intc s \<noteq> 0 \<or> iphandle n = 0 then fails DTB_INVALID else gives (s\<lparr>icpu_intc := iphandle n\<rparr>))
                else gives s)
         else gives s)"

text \<open>The context of the processor among the targets of the platform controller: \<open>left\<close> pairs of cells are left.\<close>

primrec context_loop :: "u8 list \<Rightarrow> nat \<Rightarrow> nat \<Rightarrow> nat \<Rightarrow> irq_scan \<Rightarrow> irq_scan parse" where
  "context_loop blob v i 0 s = gives s"
| "context_loop blob v i (Suc left) s =
     andthen (reads (read_size blob (v + 8 * i))) (\<lambda>target.
       andthen (reads (if target = icpu_intc s then map_option (\<lambda>x. x = 9) (read_size blob (v + 8 * i + 4)) else Some False)) (\<lambda>hit.
         if hit \<and> icontext_found s then fails DTB_INVALID
         else context_loop blob v (i + 1) left (if hit then s\<lparr>iout := (iout s)\<lparr>qcontext := i\<rparr>, icontext_found := True\<rparr> else s)))"

definition irq_plic :: "u8 list \<Rightarrow> bool \<Rightarrow> irq_node \<Rightarrow> u64 \<Rightarrow> u64 \<Rightarrow> irq_scan \<Rightarrow> irq_scan parse" where
  "irq_plic blob second n address sz s =
     (if iphandle n = 0 \<or> indev n = 0 \<or> iintcells n \<noteq> 1 \<or> iextended_length n mod 8 \<noteq> 0 then fails DTB_INVALID
      else if \<not> second then
        (if iplic_phandle s \<noteq> 0 then fails DTB_UNSUPPORTED
         else gives (s\<lparr>iplic_phandle := iphandle n, iout := (iout s)\<lparr>qplic := \<lparr>rbase = address, rsize = sz\<rparr>, qsource_count := indev n\<rparr>\<rparr>))
      else context_loop blob (iextended n) 0 (iextended_length n div 8) s)"

definition irq_device :: "irq_node \<Rightarrow> u64 \<Rightarrow> u64 \<Rightarrow> irq_scan \<Rightarrow> irq_scan parse" where
  "irq_device n address sz s =
     (if iparent n \<noteq> iplic_phandle s \<or> isource n = 0 \<or> qsource_count (iout s) < isource n then fails DTB_UNSUPPORTED
      else if iuart n then
        (if rsize (uregisters (quart (iout s))) \<noteq> 0 then fails DTB_UNSUPPORTED
         else if ibig_endian n \<or> iclock n = 0 \<or> 4 < ishift n \<or> (iwidth n \<noteq> 1 \<and> iwidth n \<noteq> 4) \<or> sz < push_bit (ishift n) 7 + of_nat (iwidth n) \<or>
              (iwidth n = 4 \<and> (ishift n < 2 \<or> address AND 3 \<noteq> 0))
         then fails DTB_UNSUPPORTED
         else gives (s\<lparr>iout := (iout s)\<lparr>quart := \<lparr>uregisters = \<lparr>rbase = address, rsize = sz\<rparr>, uclock = iclock n, usource = isource n,
                ushift = ishift n, uwidth = iwidth n\<rparr>\<rparr>\<rparr>))
      else if length (qroutes (iout s)) = DTB_MAX_VIRTIO_MMIO_RANGES then fails DTB_UNSUPPORTED
      else gives (s\<lparr>iout := (iout s)\<lparr>qroutes := qroutes (iout s) @ [(address, isource n)]\<rparr>\<rparr>))"

definition irq_end_device :: "u8 list \<Rightarrow> bool \<Rightarrow> irq_scan \<Rightarrow> irq_scan parse" where
  "irq_end_device blob second s =
     (let depth = length (istack s); n = last (istack s)
      in if nenabled (ibus n) \<and> (iplic n \<or> ivirtio n \<or> iuart n) then
           if depth < 2 then fails DTB_INVALID
           else
             let ac = nchild_address_cells (ibus (istack s ! (depth - 2))); sc = nchild_size_cells (ibus (istack s ! (depth - 2)))
             in if ac = 0 \<or> 2 < ac \<or> sc = 0 \<or> 2 < sc \<or> nreg_length (ibus n) \<noteq> 4 * (ac + sc) then fails DTB_UNSUPPORTED
                else andthen (reads (read_cells blob (nreg (ibus n)) ac)) (\<lambda>a.
                  andthen (reads (read_cells blob (nreg (ibus n) + 4 * ac) sc)) (\<lambda>sz.
                    if sz = 0 \<or> - 1 - sz < a then fails DTB_INVALID
                    else andthen (bus_loop blob (map ibus (istack s)) (depth - 2) a sz) (\<lambda>address.
                      if iplic n then irq_plic blob second n address sz s
                      else if second then irq_device n address sz s
                      else gives s)))
         else gives s)"

definition irq_end :: "u8 list \<Rightarrow> u64 \<Rightarrow> bool \<Rightarrow> irq_scan \<Rightarrow> irq_scan parse" where
  "irq_end blob hart second s =
     (if istack s = [] then None
      else andthen (irq_end_cpu blob hart second s) (\<lambda>s1.
        andthen (irq_end_device blob second s1) (\<lambda>s2. gives (s2\<lparr>istack := butlast (istack s2)\<rparr>))))"

partial_function (option) irq_loop :: "u8 list \<Rightarrow> nat \<Rightarrow> nat \<Rightarrow> u64 \<Rightarrow> bool \<Rightarrow> irq_scan \<Rightarrow> irq_scan parse" where
  "irq_loop blob structure strings hart second s =
     andthen (reads (read_size blob (structure + iposition s))) (\<lambda>token.
       let s1 = s\<lparr>iposition := add32 (iposition s) 4\<rparr>
       in if token = 1 then andthen (irq_begin blob structure s1) (irq_loop blob structure strings hart second)
          else if token = 3 then andthen (irq_prop blob structure strings s1) (irq_loop blob structure strings hart second)
          else if token = 2 then andthen (irq_end blob hart second s1) (irq_loop blob structure strings hart second)
          else if token = 9 then gives s1
          else irq_loop blob structure strings hart second s1)"

definition empty_irq :: dtb_irq_info where
  "empty_irq = \<lparr>qplic = \<lparr>rbase = 0, rsize = 0\<rparr>, qcontext = 0, qsource_count = 0, qroutes = [],
     quart = \<lparr>uregisters = \<lparr>rbase = 0, rsize = 0\<rparr>, uclock = 0, usource = 0, ushift = 0, uwidth = 0\<rparr>\<rparr>"

definition irq_pass :: "u8 list \<Rightarrow> nat \<Rightarrow> nat \<Rightarrow> u64 \<Rightarrow> bool \<Rightarrow> irq_scan \<Rightarrow> irq_scan parse" where
  "irq_pass blob structure strings hart second s =
     andthen (irq_loop blob structure strings hart second (s\<lparr>iposition := 0, istack := []\<rparr>)) (\<lambda>s1.
       if icpu_intc s1 = 0 \<or> iplic_phandle s1 = 0 then fails DTB_NOT_FOUND else gives s1)"

definition irq_discover :: "u8 list \<Rightarrow> u64 \<Rightarrow> dtb_irq_info parse" where
  "irq_discover blob hart =
     andthen (reads (read_size blob 8)) (\<lambda>structure. andthen (reads (read_size blob 12)) (\<lambda>strings.
       andthen (irq_pass blob structure strings hart False
           \<lparr>iposition = 0, istack = [], icpu_intc = 0, iplic_phandle = 0, icontext_found = False, iout = empty_irq\<rparr>) (\<lambda>s1.
         andthen (irq_pass blob structure strings hart True s1) (\<lambda>s2.
           if icontext_found s2 then gives (iout s2) else fails DTB_NOT_FOUND))))"

definition dtb_read_irq_info :: "u8 list option \<Rightarrow> u64 \<Rightarrow> dtb_irq_info option \<Rightarrow> (dtb_status \<times> dtb_irq_info option) option" where
  "dtb_read_irq_info dtb boot_hart out =
     (case out of
        None \<Rightarrow> Some (DTB_INVALID, out)
      | Some _ \<Rightarrow> do {
          (status, _) \<leftarrow> dtb_read_boot_info dtb (Some \<lparr>dmemory = \<lparr>rbase = 0, rsize = 0\<rparr>, dmemories = [], ddtb_size = 0, dtimebase_frequency = 0,
            dreserved = [], dvirtio_mmio = [], drng_seed = []\<rparr>);
          if status \<noteq> DTB_OK then Some (status, out)
          else do {
            blob \<leftarrow> dtb;
            r \<leftarrow> irq_discover blob boot_hart;
            Some (case r of Inl status \<Rightarrow> (status, out) | Inr i \<Rightarrow> (DTB_OK, Some i))
          }
        })"

section \<open>The serial driver\<close>

text \<open>The conditions on the port under which the serial driver refuses it (\<^verbatim>\<open>ns16550_start\<close> of \<^verbatim>\<open>src/drivers/serial/ns16550.c\<close>); \<open>mapping\<close> is the address
  its registers are mapped at.\<close>

definition ns16550_refuses :: "dtb_uart_info \<Rightarrow> u64 \<Rightarrow> bool" where
  "ns16550_refuses port mapping \<longleftrightarrow> usource port = 0 \<or> uclock port = 0 \<or> 4 < ushift port \<or> (uwidth port \<noteq> 1 \<and> uwidth port \<noteq> 4) \<or>
     rsize (uregisters port) < push_bit (ushift port) 7 + of_nat (uwidth port) \<or>
     (uwidth port = 4 \<and> (ushift port < 2 \<or> mapping AND 3 \<noteq> 0))"

end
