(* ===== verification/Dtb_Safe.thy ===== *)
theory Dtb_Safe
  imports Dtb_Boot Boot_Memory_Cover Word_Bits
begin

text \<open>
  The device tree parser reads only inside the blob, whatever the blob contains: each reader with the bytes it needs, and what it
  returns. \<open>has m P\<close> says that a read succeeds with a result in \<open>P\<close>, \<open>sat m P\<close> that a parse step reads safely and either ends
  with an error status or goes on with a result in \<open>P\<close>.
\<close>

definition has :: "'a option \<Rightarrow> ('a \<Rightarrow> bool) \<Rightarrow> bool" where
  "has m P \<longleftrightarrow> (\<exists>x. m = Some x \<and> P x)"

definition sat :: "'a parse \<Rightarrow> ('a \<Rightarrow> bool) \<Rightarrow> bool" where
  "sat m P \<longleftrightarrow> (\<exists>r. m = Some r \<and> (case r of Inl status \<Rightarrow> status \<noteq> DTB_OK | Inr x \<Rightarrow> P x))"

lemma has_Some [simp]: "has (Some x) P \<longleftrightarrow> P x"
  by (simp add: has_def)

lemma has_mono: "has m P \<Longrightarrow> (\<And>x. P x \<Longrightarrow> Q x) \<Longrightarrow> has m Q"
  by (auto simp: has_def)

lemma has_bind: "has m P \<Longrightarrow> (\<And>x. P x \<Longrightarrow> has (f x) Q) \<Longrightarrow> has (Option.bind m f) Q"
  by (auto simp: has_def)

lemma has_map: "has m (\<lambda>x. P (f x)) \<Longrightarrow> has (map_option f m) P"
  by (auto simp: has_def)

lemma sat_gives [simp]: "sat (gives x) P \<longleftrightarrow> P x"
  by (simp add: sat_def gives_def)

lemma sat_fails [simp]: "sat (fails e) P \<longleftrightarrow> e \<noteq> DTB_OK"
  by (simp add: sat_def fails_def)

lemma sat_mono: "sat m P \<Longrightarrow> (\<And>x. P x \<Longrightarrow> Q x) \<Longrightarrow> sat m Q"
  by (auto simp: sat_def split: sum.splits)

lemma sat_andthen:
  assumes "sat m P" "\<And>x. P x \<Longrightarrow> sat (f x) Q"
  shows "sat (andthen m f) Q"
proof -
  obtain r where r: "m = Some r" "case r of Inl status \<Rightarrow> status \<noteq> DTB_OK | Inr x \<Rightarrow> P x" using assms(1) by (auto simp: sat_def)
  show ?thesis
  proof (cases r)
    case (Inl status)
    then show ?thesis using r by (simp add: andthen_def sat_def)
  next
    case (Inr x)
    then show ?thesis using r assms(2) [of x] by (simp add: andthen_def)
  qed
qed

lemma sat_reads: "has m P \<Longrightarrow> (\<And>x. P x \<Longrightarrow> sat (f x) Q) \<Longrightarrow> sat (andthen (reads m) f) Q"
  by (auto simp: has_def sat_def andthen_def reads_def)

lemma sat_bind: "has m P \<Longrightarrow> (\<And>x. P x \<Longrightarrow> sat (f x) Q) \<Longrightarrow> sat (Option.bind m f) Q"
  by (auto simp: has_def)

lemma sat_if: "(b \<Longrightarrow> sat x P) \<Longrightarrow> (\<not> b \<Longrightarrow> sat y P) \<Longrightarrow> sat (if b then x else y) P"
  by simp

section \<open>Bytes, strings and cells\<close>

lemma byte_has: "i < length blob \<Longrightarrow> has (byte_at blob i) (\<lambda>b. b = blob ! i)"
  by (simp add: byte_at_def)

lemma be32_has: "i + 4 \<le> length blob \<Longrightarrow> has (read_be32 blob i) (\<lambda>_. True)"
  by (simp add: read_be32_def byte_at_def)

lemma be64_has: "i + 8 \<le> length blob \<Longrightarrow> has (read_be64 blob i) (\<lambda>_. True)"
  by (simp add: read_be64_def read_be32_def byte_at_def)

lemma size_has: "i + 4 \<le> length blob \<Longrightarrow> has (read_size blob i) (\<lambda>v. v < 2 ^ 32 \<and> read_size blob i = Some v)"
proof -
  assume a: "i + 4 \<le> length blob"
  obtain x where x: "read_be32 blob i = Some x" using be32_has [OF a] by (auto simp: has_def)
  have "unat x < 2 ^ LENGTH(32)" by (rule unsigned_less)
  then show ?thesis using x by (simp add: read_size_def)
qed

lemma terminator_has: "i + 16 \<le> length blob \<Longrightarrow> has (reserve_entry_is_terminator blob i) (\<lambda>_. True)"
  by (simp add: reserve_entry_is_terminator_def read_be32_def byte_at_def)

text \<open>A terminated string at an address.\<close>

definition cstring_at :: "u8 list \<Rightarrow> nat \<Rightarrow> nat \<Rightarrow> bool" where
  "cstring_at blob a n \<longleftrightarrow> a + n < length blob \<and> blob ! (a + n) = 0 \<and> (\<forall>j < n. blob ! (a + j) \<noteq> 0)"

lemma string_length_has:
  "a + k \<le> length blob \<Longrightarrow> has (bounded_string_length blob a k) (\<lambda>r. \<forall>n. r = Some n \<longrightarrow> n < k \<and> cstring_at blob a n)"
proof (induction k arbitrary: a)
  case (Suc k)
  have lt: "a < length blob" using Suc.prems by simp
  have IH: "has (bounded_string_length blob (a + 1) k) (\<lambda>r. \<forall>n. r = Some n \<longrightarrow> n < k \<and> cstring_at blob (a + 1) n)"
    by (rule Suc.IH) (use Suc.prems in simp)
  show ?case
  proof (cases "blob ! a = 0")
    case True
    then show ?thesis using lt by (simp add: byte_at_def cstring_at_def)
  next
    case False
    obtain r where r: "bounded_string_length blob (a + 1) k = Some r" "\<And>n. r = Some n \<Longrightarrow> n < k \<and> cstring_at blob (a + 1) n"
      using IH by (auto simp: has_def)
    have "cstring_at blob a (Suc n)" if "cstring_at blob (a + 1) n" for n
      using that False lt by (auto simp: cstring_at_def less_Suc_eq_0_disj)
    then show ?thesis using r lt False by (auto simp: byte_at_def has_def)
  qed
qed simp

lemma bytes_equal_has: "a + k \<le> length blob \<Longrightarrow> has (bytes_equal blob a k e) (\<lambda>_. True)"
proof (induction k arbitrary: a e)
  case (Suc k)
  show ?case
  proof (cases e)
    case (Cons c cs)
    have "has (bytes_equal blob (a + 1) k cs) (\<lambda>_. True)" by (rule Suc.IH) (use Suc.prems in simp)
    then show ?thesis using Cons Suc.prems by (simp add: byte_at_def)
  qed simp
qed simp

lemma equal_string_has: "a + k \<le> length blob \<Longrightarrow> has (bytes_equal_string blob a k e) (\<lambda>_. True)"
  unfolding bytes_equal_string_def by (rule bytes_equal_has)

lemma one_string_has: "v + len \<le> length blob \<Longrightarrow> len < 2 ^ 32 \<Longrightarrow>
    has (property_value_is_one_string blob v len) (\<lambda>one. one \<longrightarrow> 0 < len)"
  unfolding property_value_is_one_string_def
  by (rule has_bind [OF string_length_has]) (auto split: option.splits simp: add32_def)

lemma bytes_start_has: "a + length cs \<le> length blob \<Longrightarrow> has (bytes_start blob a cs) (\<lambda>_. True)"
  by (induction cs arbitrary: a) (simp_all add: byte_at_def)

lemma classify_has: "a + len \<le> length blob \<Longrightarrow> has (classify_memory_node_name blob a len) (\<lambda>_. True)"
proof (cases "len < 6")
  case True
  then show ?thesis by (simp add: classify_memory_node_name_def)
next
  case False
  assume a: "a + len \<le> length blob"
  have "has (bytes_start blob a (cstr ''memory'')) (\<lambda>_. True)" by (rule bytes_start_has) (use a False in \<open>simp add: cstr_def\<close>)
  then show ?thesis using False a by (auto simp: classify_memory_node_name_def has_def byte_at_def)
qed

lemma string_list_has: "v + len \<le> length blob \<Longrightarrow> has (string_list_loop blob v len e r) (\<lambda>_. True)"
proof (induction blob v len e r rule: string_list_loop.induct)
  case (1 blob v len e r)
  show ?case
  proof (cases "len = 0")
    case True
    then show ?thesis by (subst string_list_loop.simps) simp
  next
    case False
    obtain n where n: "bounded_string_length blob v len = Some n" "\<And>k. n = Some k \<Longrightarrow> k < len"
      using string_length_has [OF "1.prems"] by (auto simp: has_def)
    show ?thesis
    proof (cases "n = None \<or> n = Some 0")
      case True
      then show ?thesis using False n(1) by (subst string_list_loop.simps) auto
    next
      case k: False
      then obtain k where k: "n = Some k" "k \<noteq> 0" by auto
      have lt: "k < len" by (rule n(2) [OF k(1)])
      obtain same where same: "bytes_equal_string blob v k e = Some same"
        using equal_string_has [of v k blob e] lt "1.prems" by (auto simp: has_def)
      have "has (string_list_loop blob (v + k + 1) (len - (k + 1)) e (if same then True else r)) (\<lambda>_. True)"
        by (rule "1.IH" [OF False _ k(1)]) (use n k lt same "1.prems" in \<open>auto simp: has_def\<close>)
      then show ?thesis using False n(1) k same by (subst string_list_loop.simps) simp
    qed
  qed
qed

lemma contains_has: "v + len \<le> length blob \<Longrightarrow> has (string_list_contains blob v len e) (\<lambda>_. True)"
  unfolding string_list_contains_def using string_list_has by auto

lemma available_has:
  assumes "v + len \<le> length blob" "len < 2 ^ 32"
  shows "has (status_is_available blob v len) (\<lambda>_. True)"
proof -
  obtain one where one: "property_value_is_one_string blob v len = Some one" using one_string_has [OF assms] by (auto simp: has_def)
  have le: "v + (len - 1) \<le> length blob" using assms(1) by linarith
  obtain a where a: "bytes_equal_string blob v (len - 1) ''okay'' = Some a"
    using equal_string_has [OF le, of "''okay''"] by (auto simp: has_def)
  obtain b where b: "bytes_equal_string blob v (len - 1) ''ok'' = Some b"
    using equal_string_has [OF le, of "''ok''"] by (auto simp: has_def)
  show ?thesis unfolding status_is_available_def one bind.bind_lunit a b by simp
qed

lemma cells_has: "v + n * 4 \<le> length blob \<Longrightarrow> has (cells_loop blob v n r) (\<lambda>_. True)"
proof (induction n arbitrary: v r)
  case (Suc n)
  have "has (read_be32 blob v) (\<lambda>_. True)" by (rule be32_has) (use Suc.prems in simp)
  then show ?case unfolding cells_loop.simps by (rule has_bind) (rule Suc.IH, use Suc.prems in simp)
qed simp

lemma read_cells_has: "v + n * 4 \<le> length blob \<Longrightarrow> has (read_cells blob v n) (\<lambda>_. True)"
  unfolding read_cells_def by (rule cells_has)

lemma match_name_has: "a + k \<le> length blob \<Longrightarrow> has (match_name blob a k ss) (\<lambda>w. \<forall>x. w = Some x \<longrightarrow> x \<in> set ss)"
proof (induction ss)
  case (Cons s ss)
  have "has (bytes_equal_string blob a k s) (\<lambda>_. True)" by (rule equal_string_has) (rule Cons.prems)
  then show ?case unfolding match_name.simps by (rule has_bind) (use Cons.IH [OF Cons.prems] in \<open>auto elim: has_mono\<close>)
qed simp

section \<open>Ranges\<close>

text \<open>A range of addresses that is not empty and does not wrap.\<close>

definition range_ok :: "mrange \<Rightarrow> bool" where
  "range_ok r \<longleftrightarrow> rsize r \<noteq> 0 \<and> hi r < 2 ^ 64"

lemma range_okI: "sz \<noteq> 0 \<Longrightarrow> \<not> - 1 - sz < base \<Longrightarrow> range_ok \<lparr>rbase = base, rsize = sz\<rparr>"
proof -
  assume a: "sz \<noteq> 0" "\<not> - 1 - sz < base"
  have "unat base \<le> unat (- 1 - sz)" using a(2) by (simp add: word_le_nat_alt not_less)
  moreover have "unat sz < 2 ^ LENGTH(64)" by (rule unsigned_less)
  ultimately have "unat base + unat sz < 2 ^ 64" using unat_max_minus [of sz] by simp
  then show ?thesis using a(1) by (simp add: range_ok_def hi_def)
qed

definition memories_ok :: "dtb_boot_info \<Rightarrow> bool \<Rightarrow> bool" where
  "memories_ok i f \<longleftrightarrow> length (dmemories i) \<le> 16 \<and> (\<forall>r \<in> set (dmemories i). range_ok r) \<and>
     (if f then dmemories i \<noteq> [] \<and> dmemory i = hd (dmemories i) else dmemories i = [])"

lemma memory_loop_sat:
  assumes "v + n * tuple_size \<le> length blob" "(ac + sc) * 4 \<le> tuple_size" "memories_ok (fst s) (snd s)"
  shows "sat (memory_loop blob ac sc tuple_size v n s) (\<lambda>s'. memories_ok (fst s') (snd s') \<and>
    fst s' = (fst s)\<lparr>dmemories := dmemories (fst s'), dmemory := dmemory (fst s')\<rparr>)"
  using assms(1,3)
proof (induction n arbitrary: v s)
  case (Suc n)
  have le: "v + ac * 4 + sc * 4 \<le> length blob" "v + ac * 4 \<le> length blob" "v + tuple_size + n * tuple_size \<le> length blob"
    using Suc.prems(1) assms(2) by simp_all
  obtain sz where sz: "read_cells blob (v + ac * 4) sc = Some sz" using read_cells_has [OF le(1)] by (auto simp: has_def)
  obtain base where base: "read_cells blob v ac = Some base" using read_cells_has [OF le(2)] by (auto simp: has_def)
  let ?P = "\<lambda>s0 s'. memories_ok (fst s') (snd s') \<and> fst s' = (fst s0)\<lparr>dmemories := dmemories (fst s'), dmemory := dmemory (fst s')\<rparr>"
  have skip: "sat (memory_loop blob ac sc tuple_size (v + tuple_size) n s) (?P s)" by (rule Suc.IH [OF le(3) Suc.prems(2)])
  show ?case
  proof (cases "sz = 0 \<or> - 1 - sz < base \<or> length (dmemories (fst s)) = 16")
    case True
    then show ?thesis using sz base skip by auto
  next
    case False
    let ?r = "\<lparr>rbase = base, rsize = sz\<rparr>"
    let ?i = "(fst s)\<lparr>dmemories := dmemories (fst s) @ [?r]\<rparr>"
    let ?s = "(if snd s then ?i else ?i\<lparr>dmemory := ?r\<rparr>, True)"
    have "range_ok ?r" using False by (intro range_okI) auto
    then have "memories_ok (fst ?s) (snd ?s)" using Suc.prems(2) False by (auto simp: memories_ok_def)
    then have "sat (memory_loop blob ac sc tuple_size (v + tuple_size) n ?s) (?P ?s)" by (rule Suc.IH [OF le(3)])
    then have "sat (memory_loop blob ac sc tuple_size (v + tuple_size) n ?s) (?P s)" by (rule sat_mono) (auto split: if_splits)
    then show ?thesis using False sz base by (simp add: Let_def)
  qed
qed simp

lemma memory_reg_sat:
  assumes "v + len \<le> length blob" "ac \<le> 2" "sc \<le> 2" "memories_ok (fst s) (snd s)"
  shows "sat (read_memory_reg blob v len ac sc s) (\<lambda>s'. memories_ok (fst s') (snd s') \<and>
    fst s' = (fst s)\<lparr>dmemories := dmemories (fst s'), dmemory := dmemory (fst s')\<rparr>)"
proof -
  have t: "add32 ac sc * 4 mod 2 ^ 32 = (ac + sc) * 4" using assms(2,3) by (simp add: add32_def)
  show ?thesis unfolding read_memory_reg_def Let_def t
  proof (rule sat_if, simp)
    assume "\<not> ((ac + sc) * 4 = 0 \<or> len = 0 \<or> len mod ((ac + sc) * 4) \<noteq> 0)"
    then have "len div ((ac + sc) * 4) * ((ac + sc) * 4) = len" by (metis dvd_div_mult_self mod_0_imp_dvd)
    then show "sat (memory_loop blob ac sc ((ac + sc) * 4) v (len div ((ac + sc) * 4)) s) (\<lambda>s'. memories_ok (fst s') (snd s') \<and>
        fst s' = (fst s)\<lparr>dmemories := dmemories (fst s'), dmemory := dmemory (fst s')\<rparr>)"
      using assms(1,4) by (intro memory_loop_sat) simp_all
  qed
qed

definition reserved_ok :: "dtb_boot_info \<Rightarrow> bool" where
  "reserved_ok i \<longleftrightarrow> length (dreserved i) \<le> 16 \<and> (\<forall>r \<in> set (dreserved i). rsize r \<noteq> 0)"

lemma reserved_loop_sat:
  assumes "v + n * tuple_size \<le> length blob" "(ac + sc) * 4 \<le> tuple_size" "reserved_ok i"
  shows "sat (reserved_loop blob ac sc tuple_size v n i) (\<lambda>i'. reserved_ok i' \<and> i' = i\<lparr>dreserved := dreserved i'\<rparr>)"
  using assms(1,3)
proof (induction n arbitrary: v i)
  case (Suc n)
  have le: "v + ac * 4 + sc * 4 \<le> length blob" "v + ac * 4 \<le> length blob" "v + tuple_size + n * tuple_size \<le> length blob"
    using Suc.prems(1) assms(2) by simp_all
  obtain sz where sz: "read_cells blob (v + ac * 4) sc = Some sz" using read_cells_has [OF le(1)] by (auto simp: has_def)
  obtain base where base: "read_cells blob v ac = Some base" using read_cells_has [OF le(2)] by (auto simp: has_def)
  have skip: "sat (reserved_loop blob ac sc tuple_size (v + tuple_size) n i) (\<lambda>i'. reserved_ok i' \<and> i' = i\<lparr>dreserved := dreserved i'\<rparr>)"
    by (rule Suc.IH [OF le(3) Suc.prems(2)])
  show ?case
  proof (cases "sz = 0 \<or> length (dreserved i) = 16")
    case True
    then show ?thesis using sz base skip by auto
  next
    case False
    let ?i = "i\<lparr>dreserved := dreserved i @ [\<lparr>rbase = base, rsize = sz\<rparr>]\<rparr>"
    have "reserved_ok ?i" using Suc.prems(2) False by (auto simp: reserved_ok_def)
    then have "sat (reserved_loop blob ac sc tuple_size (v + tuple_size) n ?i) (\<lambda>i'. reserved_ok i' \<and> i' = ?i\<lparr>dreserved := dreserved i'\<rparr>)"
      by (rule Suc.IH [OF le(3)])
    then have "sat (reserved_loop blob ac sc tuple_size (v + tuple_size) n ?i) (\<lambda>i'. reserved_ok i' \<and> i' = i\<lparr>dreserved := dreserved i'\<rparr>)"
      by (rule sat_mono) auto
    then show ?thesis using False sz base by simp
  qed
qed simp

lemma reserved_reg_sat:
  assumes "v + len \<le> length blob" "ac \<le> 2" "sc \<le> 2" "reserved_ok i"
  shows "sat (append_reserved_reg blob v len ac sc i) (\<lambda>i'. reserved_ok i' \<and> i' = i\<lparr>dreserved := dreserved i'\<rparr>)"
proof -
  have t: "add32 ac sc * 4 mod 2 ^ 32 = (ac + sc) * 4" using assms(2,3) by (simp add: add32_def)
  show ?thesis unfolding append_reserved_reg_def Let_def t
  proof (rule sat_if, simp)
    assume "\<not> ((ac + sc) * 4 = 0 \<or> len = 0 \<or> len mod ((ac + sc) * 4) \<noteq> 0)"
    then have "len div ((ac + sc) * 4) * ((ac + sc) * 4) = len" by (metis dvd_div_mult_self mod_0_imp_dvd)
    then show "sat (reserved_loop blob ac sc ((ac + sc) * 4) v (len div ((ac + sc) * 4)) i)
        (\<lambda>i'. reserved_ok i' \<and> i' = i\<lparr>dreserved := dreserved i'\<rparr>)"
      using assms(1,4) by (intro reserved_loop_sat) simp_all
  qed
qed

end
