(* ===== verification/Dtb_Discover.thy ===== *)
theory Dtb_Discover
  imports Dtb_Safe
begin

text \<open>The tokens of the structure block, and that the discovery of virtio devices reads safely, ends, and finds disjoint device ranges.\<close>

definition fdt_ok :: "fdt \<Rightarrow> bool" where
  "fdt_ok d \<longleftrightarrow> 0 < fstructure d \<and> fstructure d + fstructure_size d \<le> length (fblob d) \<and> fstrings d + fstrings_size d \<le> length (fblob d) \<and>
     fstructure_size d < 2 ^ 32 \<and> fstructure_size d mod 4 = 0"

definition value_ok :: "fdt \<Rightarrow> nat \<Rightarrow> nat \<Rightarrow> bool" where
  "value_ok d v len \<longleftrightarrow> 0 < v \<and> v + len \<le> length (fblob d) \<and> len < 2 ^ 32"

section \<open>Tokens\<close>

lemma add32_small: "x + y < 2 ^ 32 \<Longrightarrow> add32 x y = x + y"
  by (simp add: add32_def)

lemma align_bounds:
  assumes "align_to_u32 v = Some w"
  shows "w = (v + 3) div 4 * 4" "v \<le> w"
  using assms by (auto simp: align_to_u32_def split: if_splits)

lemma begin_node_sat:
  assumes "fdt_ok d" "pos \<le> fstructure_size d"
  shows "sat (begin_node d pos) (\<lambda>(n, next_pos). cstring_at (fblob d) (fstructure d + pos) n \<and> pos + n < fstructure_size d \<and>
    next_pos = (pos + n + 4) div 4 * 4 \<and> pos < next_pos \<and> next_pos \<le> fstructure_size d)"
proof -
  have le: "fstructure d + pos + (fstructure_size d - pos) \<le> length (fblob d)" using assms by (simp add: fdt_ok_def)
  show ?thesis unfolding begin_node_def
  proof (rule sat_reads [OF string_length_has [OF le]])
    fix r assume r: "\<forall>n. r = Some n \<longrightarrow> n < fstructure_size d - pos \<and> cstring_at (fblob d) (fstructure d + pos) n"
    have wrap: "add32 (add32 pos n) 1 = pos + n + 1" if "n < fstructure_size d - pos" for n
    proof -
      have "pos + n + 1 < 2 ^ 32" using that assms by (auto simp: fdt_ok_def)
      then show ?thesis using add32_small [of pos n] add32_small [of "pos + n" 1] by simp
    qed
    show "sat (case r of None \<Rightarrow> fails DTB_INVALID
        | Some n \<Rightarrow> (case align_to_u32 (add32 (add32 pos n) 1) of None \<Rightarrow> fails DTB_INVALID
          | Some next_position \<Rightarrow> if fstructure_size d < next_position then fails DTB_INVALID else gives (n, next_position)))
       (\<lambda>(n, next_pos). cstring_at (fblob d) (fstructure d + pos) n \<and> pos + n < fstructure_size d \<and>
          next_pos = (pos + n + 4) div 4 * 4 \<and> pos < next_pos \<and> next_pos \<le> fstructure_size d)"
    proof (cases r)
      case (Some n)
      then have n: "n < fstructure_size d - pos" "cstring_at (fblob d) (fstructure d + pos) n" using r by auto
      show ?thesis
      proof (cases "align_to_u32 (pos + n + 1)")
        case (Some w)
        note a = align_bounds [OF Some]
        have "pos < w" "w = (pos + n + 4) div 4 * 4" using a by (simp_all add: add.commute)
        then show ?thesis using \<open>r = Some n\<close> n wrap [OF n(1)] Some by (auto simp: not_less)
      qed (use Some n wrap [OF n(1)] in simp)
    qed simp
  qed
qed

lemma property_name_sat:
  assumes "fdt_ok d"
  shows "sat (property_name (fblob d) (fstrings d) (fstrings_size d) off) (\<lambda>(name, n). name = fstrings d + off \<and> cstring_at (fblob d) name n)"
proof (cases "fstrings_size d \<le> off")
  case False
  have le: "fstrings d + off + (fstrings_size d - off) \<le> length (fblob d)" using assms False by (simp add: fdt_ok_def)
  show ?thesis unfolding property_name_def using False
    by (auto intro!: sat_bind [OF string_length_has [OF le]] split: option.splits)
qed (simp add: property_name_def)

text \<open>What a property header says.\<close>

definition prop_at :: "fdt \<Rightarrow> nat \<Rightarrow> nat \<Rightarrow> nat \<Rightarrow> nat \<Rightarrow> nat \<Rightarrow> nat \<Rightarrow> bool" where
  "prop_at d pos len v next_pos name n \<longleftrightarrow> read_size (fblob d) (fstructure d + pos) = Some len \<and>
     (\<exists>off. read_size (fblob d) (fstructure d + pos + 4) = Some off \<and> name = fstrings d + off) \<and> v = fstructure d + pos + 8 \<and>
     next_pos = pos + 8 + (len + 3) div 4 * 4 \<and> next_pos \<le> fstructure_size d \<and> cstring_at (fblob d) name n \<and> value_ok d v len"

lemma prop_header_sat:
  assumes "fdt_ok d" "pos + 8 \<le> fstructure_size d"
  shows "sat (prop_header d pos) (\<lambda>(len, v, next_pos, name, n). prop_at d pos len v next_pos name n)"
proof -
  have le: "fstructure d + pos + 4 \<le> length (fblob d)" "fstructure d + pos + 4 + 4 \<le> length (fblob d)" using assms by (simp_all add: fdt_ok_def)
  have p: "add32 pos 8 = pos + 8" by (rule add32_small) (use assms in \<open>auto simp: fdt_ok_def\<close>)
  show ?thesis unfolding prop_header_def p Let_def
  proof (rule sat_reads [OF size_has [OF le(1)]], rule sat_reads [OF size_has [OF le(2)]])
    fix len off assume l: "len < 2 ^ 32 \<and> read_size (fblob d) (fstructure d + pos) = Some len"
      and o: "off < 2 ^ 32 \<and> read_size (fblob d) (fstructure d + pos + 4) = Some off"
    show "sat (case align_to_u32 len of None \<Rightarrow> fails DTB_INVALID
          | Some padded \<Rightarrow> if fstructure_size d - (pos + 8) < padded then fails DTB_INVALID
              else andthen (property_name (fblob d) (fstrings d) (fstrings_size d) off) (\<lambda>(name, name_length).
                gives (len, fstructure d + (pos + 8), add32 (pos + 8) padded, name, name_length)))
       (\<lambda>(len, v, next_pos, name, n). prop_at d pos len v next_pos name n)"
    proof (cases "align_to_u32 len")
      case (Some w)
      note a = align_bounds [OF Some]
      show ?thesis
      proof (cases "fstructure_size d - (pos + 8) < w")
        case False
        then have w: "pos + 8 + w \<le> fstructure_size d" using assms(2) by simp
        then have ad: "add32 (pos + 8) w = pos + 8 + w" by (intro add32_small) (use assms(1) in \<open>auto simp: fdt_ok_def\<close>)
        have "sat (andthen (property_name (fblob d) (fstrings d) (fstrings_size d) off) (\<lambda>(name, name_length).
                gives (len, fstructure d + (pos + 8), add32 (pos + 8) w, name, name_length)))
             (\<lambda>(len, v, next_pos, name, n). prop_at d pos len v next_pos name n)"
          by (rule sat_andthen [OF property_name_sat [OF assms(1)]])
             (use l o w ad a assms(1) in \<open>auto simp: prop_at_def value_ok_def fdt_ok_def\<close>)
        then show ?thesis using Some False by simp
      qed (use Some in simp)
    qed simp
  qed
qed

lemma prop_at_facts:
  assumes "prop_at d pos len v next_pos name n"
  shows "name + n \<le> length (fblob d)" "value_ok d v len" "pos < next_pos" "next_pos \<le> fstructure_size d"
  using assms by (auto simp: prop_at_def cstring_at_def)

section \<open>Device ranges\<close>

definition virtio_ok :: "mrange list \<Rightarrow> bool" where
  "virtio_ok xs \<longleftrightarrow> length xs \<le> 16 \<and> sorted_wrt (\<lambda>r s. hi r \<le> lo s) xs \<and> (\<forall>r \<in> set xs. range_ok r)"

lemma shift_up_spec:
  assumes "p \<le> length us" "length us < length xs" "\<And>j. p \<le> j \<Longrightarrow> j < length us \<Longrightarrow> xs ! Suc j = us ! j \<and> base < rbase (us ! j)"
    "\<And>j. j < p \<Longrightarrow> xs ! j = us ! j" "length xs = Suc (length us)"
  shows "\<exists>q ys. shift_up xs base p = (ys, q) \<and> q \<le> length us \<and> length ys = length xs \<and> (\<forall>j < q. ys ! j = us ! j) \<and>
    (\<forall>j. q \<le> j \<and> j < length us \<longrightarrow> ys ! Suc j = us ! j \<and> base < rbase (us ! j)) \<and> (q = 0 \<or> \<not> base < rbase (us ! (q - 1)))"
  using assms
proof (induction p arbitrary: xs)
  case (Suc p)
  show ?case
  proof (cases "base < rbase (xs ! p)")
    case True
    have "\<exists>q ys. shift_up (xs[Suc p := xs ! p]) base p = (ys, q) \<and> q \<le> length us \<and> length ys = length (xs[Suc p := xs ! p]) \<and> (\<forall>j < q. ys ! j = us ! j) \<and>
      (\<forall>j. q \<le> j \<and> j < length us \<longrightarrow> ys ! Suc j = us ! j \<and> base < rbase (us ! j)) \<and> (q = 0 \<or> \<not> base < rbase (us ! (q - 1)))"
    proof (rule Suc.IH)
      show "xs[Suc p := xs ! p] ! Suc j = us ! j \<and> base < rbase (us ! j)" if "p \<le> j" "j < length us" for j
        using that Suc.prems True by (cases "j = p") (auto simp: nth_list_update)
    qed (use Suc.prems in \<open>auto simp: nth_list_update\<close>)
    then show ?thesis using True by simp
  next
    case False
    then show ?thesis using Suc.prems by (auto intro!: exI [of _ "Suc p"])
  qed
qed auto

lemma insert_virtio_sat:
  assumes "virtio_ok xs"
  shows "sat (insert_virtio_mmio xs base sz) virtio_ok"
proof (cases "sz = 0 \<or> - 1 - base < sz \<or> length xs = 16")
  case True
  then show ?thesis by (auto simp: insert_virtio_mmio_def)
next
  case False
  let ?r = "\<lparr>rbase = base, rsize = sz\<rparr>"
  have "unat base < 2 ^ LENGTH(64)" "unat sz < 2 ^ LENGTH(64)" by (rule unsigned_less)+
  then have "\<not> - 1 - sz < base"
    using False unat_max_minus [of base] unat_max_minus [of sz] by (auto simp: word_less_nat_alt)
  then have r: "range_ok ?r" using False by (intro range_okI) auto
  obtain q ys where s: "shift_up (xs @ [\<lparr>rbase = 0, rsize = 0\<rparr>]) base (length xs) = (ys, q)" "q \<le> length xs" "length ys = Suc (length xs)"
    "\<forall>j < q. ys ! j = xs ! j" "\<forall>j. q \<le> j \<and> j < length xs \<longrightarrow> ys ! Suc j = xs ! j \<and> base < rbase (xs ! j)"
    "q = 0 \<or> \<not> base < rbase (xs ! (q - 1))"
    using shift_up_spec [of "length xs" xs "xs @ [\<lparr>rbase = 0, rsize = 0\<rparr>]" base] by (auto simp: nth_append)
  define zs where "zs = ys[q := ?r]"
  have zs: "zs = take q xs @ ?r # drop q xs"
  proof (rule nth_equalityI)
    show "length zs = length (take q xs @ ?r # drop q xs)" using s(2,3) by (simp add: zs_def)
    fix j assume "j < length zs"
    moreover have "ys ! j = xs ! (j - 1)" if "q < j" "j < Suc (length xs)"
      using s(5) [rule_format, of "j - 1"] that by (cases j) auto
    ultimately show "zs ! j = (take q xs @ ?r # drop q xs) ! j"
      using s(2-4) by (cases "j < q"; cases "j = q") (auto simp: zs_def nth_append nth_Cons' nth_list_update)
  qed
  show ?thesis
  proof (cases "(0 < q \<and> base - rbase (zs ! (q - 1)) < rsize (zs ! (q - 1))) \<or> (q + 1 < length zs \<and> rbase (zs ! (q + 1)) - base < sz)")
    case True
    then show ?thesis using False s(1) by (auto simp: insert_virtio_mmio_def Let_def zs_def)
  next
    case fit: False
    have below: "hi x \<le> lo ?r" if x: "x \<in> set (take q xs)" for x
    proof -
      have q: "0 < q" using x by (cases q) auto
      have y: "zs ! (q - 1) = xs ! (q - 1)" using q s(2) unfolding zs by (simp add: nth_append)
      have "rbase (xs ! (q - 1)) \<le> base" using s(6) q by simp
      then have "hi (xs ! (q - 1)) \<le> unat base"
        using fit q y by (auto simp: hi_def word_less_nat_alt word_le_nat_alt unat_sub not_less)
      moreover have "hi x \<le> hi (xs ! (q - 1))"
      proof -
        obtain j where j: "j < q" "x = xs ! j" using x s(2) by (auto simp: in_set_conv_nth)
        show ?thesis
        proof (cases "j = q - 1")
          case False
          have "hi (xs ! j) \<le> lo (xs ! (q - 1))"
            using assms j q s(2) False by (auto simp: virtio_ok_def intro: sorted_wrt_nth_less)
          then show ?thesis using j by (simp add: lo_def hi_def)
        qed (use j in simp)
      qed
      ultimately show ?thesis by (simp add: lo_def)
    qed
    have above: "hi ?r \<le> lo x" if x: "x \<in> set (drop q xs)" for x
    proof -
      have q: "q < length xs" using x by (cases "q < length xs") auto
      have y: "zs ! (q + 1) = xs ! q" using q unfolding zs by (simp add: nth_append)
      have "base < rbase (xs ! q)" using s(5) q by auto
      then have "hi ?r \<le> lo (xs ! q)"
        using fit q y s(3) by (auto simp: hi_def lo_def zs_def word_less_nat_alt unat_sub word_le_nat_alt not_less)
      moreover have "lo (xs ! q) \<le> lo x"
      proof -
        obtain j where j: "q \<le> j" "j < length xs" "x = xs ! j" using x by (auto simp: in_set_conv_nth) (metis add.commute le_add2 less_diff_conv)
        show ?thesis
        proof (cases "j = q")
          case False
          have "hi (xs ! q) \<le> lo (xs ! j)"
            using assms j q False by (auto simp: virtio_ok_def intro: sorted_wrt_nth_less)
          then show ?thesis using j by (simp add: lo_def hi_def)
        qed (use j in simp)
      qed
      ultimately show ?thesis by simp
    qed
    have "sorted_wrt (\<lambda>r s. hi r \<le> lo s) (take q xs @ drop q xs)" using assms by (simp add: virtio_ok_def)
    then have "sorted_wrt (\<lambda>r s. hi r \<le> lo s) zs" unfolding zs sorted_wrt_append using below above by auto
    moreover have "\<forall>x \<in> set zs. range_ok x" using r assms by (auto simp: zs virtio_ok_def dest: in_set_takeD in_set_dropD)
    moreover have "length zs \<le> 16" using False assms s(3) by (simp add: zs_def virtio_ok_def)
    ultimately have "virtio_ok zs" by (simp add: virtio_ok_def)
    then show ?thesis using False fit s(1) by (simp add: insert_virtio_mmio_def Let_def zs_def)
  qed
qed

end
