(* ===== verification/Dtb_Walk.thy ===== *)
theory Dtb_Walk
  imports Dtb_Discover
begin

text \<open>
  The discovery pass as the validator of the structure block: it ends, reads safely and keeps the device ranges disjoint, and when it accepts,
  the block is a well-formed walk over nested nodes of depth at most 16, on which later passes can rely.
\<close>

definition node_ok :: "fdt \<Rightarrow> discovery_node \<Rightarrow> bool" where
  "node_ok d n \<longleftrightarrow> (nranges_seen n \<longrightarrow> value_ok d (nranges n) (nranges_length n)) \<and> (nreg_seen n \<longrightarrow> value_ok d (nreg n) (nreg_length n))"

section \<open>Bus addresses\<close>

lemma range_loop_sat:
  assumes "v + n * tuple_size \<le> length blob" "(nchild_address_cells bus + pac + nchild_size_cells bus) * 4 \<le> tuple_size"
  shows "sat (range_loop blob bus pac tuple_size v n address sz) (\<lambda>_. True)"
  using assms(1)
proof (induction n arbitrary: v)
  case (Suc n)
  let ?c = "nchild_address_cells bus"
  have le: "v + ?c * 4 \<le> length blob" "v + ?c * 4 + pac * 4 \<le> length blob" "v + (?c + pac) * 4 + nchild_size_cells bus * 4 \<le> length blob"
    "v + tuple_size + n * tuple_size \<le> length blob" using Suc.prems assms(2) by simp_all
  obtain a where a: "read_cells blob v ?c = Some a" using read_cells_has [OF le(1)] by (auto simp: has_def)
  obtain b where b: "read_cells blob (v + ?c * 4) pac = Some b" using read_cells_has [OF le(2)] by (auto simp: has_def)
  obtain c where c: "read_cells blob (v + (?c + pac) * 4) (nchild_size_cells bus) = Some c" using read_cells_has [OF le(3)] by (auto simp: has_def)
  have next_tuple: "sat (range_loop blob bus pac tuple_size (v + tuple_size) n address sz) (\<lambda>_. True)" by (rule Suc.IH [OF le(4)])
  show ?case unfolding range_loop.simps a b c bind.bind_lunit Let_def using next_tuple by auto
qed simp

lemma translate_sat:
  assumes "node_ok d bus"
  shows "sat (translate_bus_address (fblob d) bus pac address sz) (\<lambda>_. True)"
proof (cases "\<not> nranges_seen bus \<or> nranges_length bus = 0 \<or> nchild_address_cells bus = 0 \<or> 2 < nchild_address_cells bus \<or> pac = 0 \<or> 2 < pac \<or>
    2 < nchild_size_cells bus")
  case True
  then show ?thesis by (auto simp: translate_bus_address_def)
next
  case False
  let ?n = "nchild_address_cells bus + pac + nchild_size_cells bus"
  have c: "add32 (add32 (nchild_address_cells bus) pac) (nchild_size_cells bus) = ?n" "?n * 4 mod 2 ^ 32 = ?n * 4" "?n \<le> 6" "?n \<noteq> 0"
    using False by (auto simp: add32_def)
  show ?thesis
  proof (cases "nranges_length bus mod (?n * 4) = 0")
    case True
    then have "nranges_length bus div (?n * 4) * (?n * 4) = nranges_length bus" by (metis dvd_div_mult_self mod_0_imp_dvd)
    moreover have "nranges bus + nranges_length bus \<le> length (fblob d)" using assms False by (auto simp: node_ok_def value_ok_def)
    ultimately have "sat (range_loop (fblob d) bus pac (?n * 4) (nranges bus) (nranges_length bus div (?n * 4)) address sz) (\<lambda>_. True)"
      by (intro range_loop_sat) simp_all
    then show ?thesis unfolding translate_bus_address_def Let_def c(1,2) using True False by (auto simp del: mult_eq_0_iff)
  next
    case mod: False
    then show ?thesis unfolding translate_bus_address_def Let_def c(1,2) using False by auto
  qed
qed

lemma bus_loop_sat:
  assumes "\<forall>n \<in> set nodes. node_ok d n" "b < length nodes"
  shows "sat (bus_loop (fblob d) nodes b address sz) (\<lambda>_. True)"
  using assms(2)
proof (induction b arbitrary: address)
  case (Suc b)
  have "node_ok d (nodes ! Suc b)" using assms(1) Suc.prems by simp
  then have t: "sat (translate_bus_address (fblob d) (nodes ! Suc b) (nchild_address_cells (nodes ! b)) address sz) (\<lambda>_. True)" by (rule translate_sat)
  show ?case unfolding bus_loop.simps by (rule sat_andthen [OF t]) (use Suc in simp)
qed simp

lemma finish_sat:
  assumes "\<forall>n \<in> set nodes. node_ok d n" "nodes \<noteq> []" "virtio_ok (dvirtio_mmio i)"
  shows "sat (finish_discovery_node (fblob d) nodes i) (\<lambda>i'. virtio_ok (dvirtio_mmio i') \<and> i' = i\<lparr>dvirtio_mmio := dvirtio_mmio i'\<rparr>)"
proof -
  let ?n = "nodes ! (length nodes - 1)" and ?p = "nodes ! (length nodes - 2)"
  have n: "node_ok d ?n" using assms(1,2) by simp
  show ?thesis unfolding finish_discovery_node_def Let_def
  proof (intro sat_if)
    assume a: "\<not> (length nodes < 2 \<or> \<not> nreg_seen ?n \<or> nreg ?n = 0)"
      "\<not> (nchild_address_cells ?p = 0 \<or> 2 < nchild_address_cells ?p \<or> nchild_size_cells ?p = 0 \<or> 2 < nchild_size_cells ?p)"
      "\<not> nreg_length ?n \<noteq> (nchild_address_cells ?p + nchild_size_cells ?p) * 4"
    have v: "nreg ?n + nreg_length ?n \<le> length (fblob d)" using n a(1) by (auto simp: node_ok_def value_ok_def)
    have le: "nreg ?n + nchild_address_cells ?p * 4 \<le> length (fblob d)"
      "nreg ?n + nchild_address_cells ?p * 4 + nchild_size_cells ?p * 4 \<le> length (fblob d)" using v a(3) by simp_all
    have b: "length nodes - 2 < length nodes" using assms(2) by (cases nodes) auto
    show "sat (andthen (reads (read_cells (fblob d) (nreg ?n) (nchild_address_cells ?p))) (\<lambda>address.
        andthen (reads (read_cells (fblob d) (nreg ?n + nchild_address_cells ?p * 4) (nchild_size_cells ?p))) (\<lambda>sz.
          if sz = 0 \<or> - 1 - address < sz then fails DTB_INVALID
          else andthen (bus_loop (fblob d) nodes (length nodes - 2) address sz) (\<lambda>a.
            andthen (insert_virtio_mmio (dvirtio_mmio i) a sz) (\<lambda>xs. gives (i\<lparr>dvirtio_mmio := xs\<rparr>))))))
        (\<lambda>i'. virtio_ok (dvirtio_mmio i') \<and> i' = i\<lparr>dvirtio_mmio := dvirtio_mmio i'\<rparr>)"
    proof (intro sat_reads [OF read_cells_has [OF le(1)]] sat_reads [OF read_cells_has [OF le(2)]] sat_if)
      fix address sz
      show "sat (andthen (bus_loop (fblob d) nodes (length nodes - 2) address sz) (\<lambda>a.
            andthen (insert_virtio_mmio (dvirtio_mmio i) a sz) (\<lambda>xs. gives (i\<lparr>dvirtio_mmio := xs\<rparr>))))
        (\<lambda>i'. virtio_ok (dvirtio_mmio i') \<and> i' = i\<lparr>dvirtio_mmio := dvirtio_mmio i'\<rparr>)"
        by (rule sat_andthen [OF bus_loop_sat [OF assms(1) b]], rule sat_andthen [OF insert_virtio_sat [OF assms(3)]]) simp
    qed simp
  qed (use assms(3) in simp_all)
qed

section \<open>Walks\<close>

text \<open>The structure block from a position at a depth on: tokens, names and values inside the block, nesting up to the end token.\<close>

inductive walk :: "fdt \<Rightarrow> nat \<Rightarrow> nat \<Rightarrow> bool" for d where
  walk_end: "read_size (fblob d) (fstructure d + pos) = Some 9 \<Longrightarrow> pos + 4 = fstructure_size d \<Longrightarrow> walk d pos 0"
| walk_nop: "read_size (fblob d) (fstructure d + pos) = Some 4 \<Longrightarrow> pos + 4 \<le> fstructure_size d \<Longrightarrow> walk d (pos + 4) k \<Longrightarrow> walk d pos k"
| walk_begin: "read_size (fblob d) (fstructure d + pos) = Some 1 \<Longrightarrow> k < 16 \<Longrightarrow> cstring_at (fblob d) (fstructure d + pos + 4) n \<Longrightarrow>
    pos + 4 + n < fstructure_size d \<Longrightarrow> next_pos = (pos + 4 + n + 4) div 4 * 4 \<Longrightarrow> next_pos \<le> fstructure_size d \<Longrightarrow>
    walk d next_pos (Suc k) \<Longrightarrow> walk d pos k"
| walk_prop: "read_size (fblob d) (fstructure d + pos) = Some 3 \<Longrightarrow> 0 < k \<Longrightarrow> prop_at d (pos + 4) len v next_pos name n \<Longrightarrow>
    (bytes_equal_string (fblob d) name n ''#address-cells'' = Some True \<or> bytes_equal_string (fblob d) name n ''#size-cells'' = Some True \<longrightarrow> len = 4) \<Longrightarrow>
    walk d next_pos k \<Longrightarrow> walk d pos k"
| walk_close: "read_size (fblob d) (fstructure d + pos) = Some 2 \<Longrightarrow> pos + 4 \<le> fstructure_size d \<Longrightarrow> walk d (pos + 4) k \<Longrightarrow> walk d pos (Suc k)"

definition disc_ok :: "fdt \<Rightarrow> discovery \<Rightarrow> bool" where
  "disc_ok d s \<longleftrightarrow> vposition s \<le> fstructure_size d \<and> length (vnodes s) \<le> 16 \<and> (\<forall>n \<in> set (vnodes s). node_ok d n) \<and> virtio_ok (dvirtio_mmio (vinfo s))"

lemma discover_begin_sat:
  assumes "fdt_ok d" "disc_ok d s"
  shows "sat (discover_begin d s) (\<lambda>s'. disc_ok d s' \<and> vposition s < vposition s' \<and> vinfo s' = vinfo s \<and> length (vnodes s') = Suc (length (vnodes s)) \<and>
    length (vnodes s) < 16 \<and> (\<exists>n. cstring_at (fblob d) (fstructure d + vposition s) n \<and> vposition s + n < fstructure_size d \<and>
       vposition s' = (vposition s + n + 4) div 4 * 4))"
proof -
  have p: "vposition s \<le> fstructure_size d" using assms(2) by (simp add: disc_ok_def)
  have l: "node_ok d ((last (vnodes s))\<lparr>nchildren_started := True\<rparr>)" if "vnodes s \<noteq> []"
    using assms(2) last_in_set [OF that] by (auto simp: disc_ok_def node_ok_def)
  have st: "\<forall>n \<in> set ((vnodes s)[length (vnodes s) - 1 := (last (vnodes s))\<lparr>nchildren_started := True\<rparr>]). node_ok d n" if "vnodes s \<noteq> []"
    using assms(2) l [OF that] set_update_subset_insert [of "vnodes s" "length (vnodes s) - 1"] by (auto simp: disc_ok_def)
  show ?thesis unfolding discover_begin_def Let_def
    by (rule sat_andthen [OF begin_node_sat [OF assms(1) p]])
       (use assms(2) st in \<open>auto simp: disc_ok_def node_ok_def split: prod.splits\<close>)
qed

lemma discover_end_sat:
  assumes "disc_ok d s"
  shows "sat (discover_end d s) (\<lambda>s'. disc_ok d s' \<and> vposition s' = vposition s \<and> length (vnodes s) = Suc (length (vnodes s')) \<and>
    vinfo s' = (vinfo s)\<lparr>dvirtio_mmio := dvirtio_mmio (vinfo s')\<rparr>)"
proof (cases "vnodes s = []")
  case False
  have k: "\<forall>n \<in> set (vnodes s). node_ok d n" "virtio_ok (dvirtio_mmio (vinfo s))" using assms by (simp_all add: disc_ok_def)
  show ?thesis unfolding discover_end_def
    by (rule sat_if, simp, rule sat_andthen [OF finish_sat [OF k(1) False k(2)]])
       (use assms False in \<open>auto simp: disc_ok_def dest: in_set_butlastD\<close>)
qed (simp add: discover_end_def)

lemma discover_value_sat:
  assumes "node_ok d n" "value_ok d v len"
  shows "sat (discover_value (fblob d) which len v n) (\<lambda>n'. node_ok d n' \<and>
    (which = Some ''#address-cells'' \<or> which = Some ''#size-cells'' \<longrightarrow> len = 4))"
proof -
  have le: "v + len \<le> length (fblob d)" "len < 2 ^ 32" using assms(2) by (simp_all add: value_ok_def)
  have size: "has (read_size (fblob d) v) (\<lambda>_. True)" if "len = 4" using size_has [of v "fblob d"] le that by (auto simp: has_def)
  note avail = available_has [OF le] and cont = contains_has [OF le(1), of "''virtio,mmio''"]
  have n: "node_ok d (n\<lparr>naddress_cells_seen := True, nchild_address_cells := c\<rparr>)" "node_ok d (n\<lparr>nsize_cells_seen := True, nchild_size_cells := c\<rparr>)"
    "node_ok d (n\<lparr>nranges_seen := True, nranges := v, nranges_length := len\<rparr>)" "node_ok d (n\<lparr>nreg_seen := True, nreg := v, nreg_length := len\<rparr>)"
    "node_ok d (n\<lparr>ncompatible_seen := True, ncompatible_virtio_mmio := b\<rparr>)" "node_ok d (n\<lparr>nstatus_seen := True, nenabled := b\<rparr>)" for b c
    using assms by (simp_all add: node_ok_def)
  show ?thesis unfolding discover_value_def
    by (intro sat_if) (auto intro!: sat_reads [OF size] sat_reads [OF avail] sat_reads [OF cont] simp: n assms(1) split: option.splits)
qed

lemma cells_names:
  assumes "match_name blob name k [''#address-cells'', ''#size-cells'', a, b, c, e] = Some which"
    "bytes_equal_string blob name k ''#address-cells'' = Some True \<or> bytes_equal_string blob name k ''#size-cells'' = Some True"
  shows "which = Some ''#address-cells'' \<or> which = Some ''#size-cells''"
  using assms by (auto split: if_splits simp: bind_eq_Some_conv)

lemma discover_prop_sat:
  assumes "fdt_ok d" "disc_ok d s"
  shows "sat (discover_prop d s) (\<lambda>s'. disc_ok d s' \<and> vinfo s' = vinfo s \<and> length (vnodes s') = length (vnodes s) \<and> vnodes s \<noteq> [] \<and>
    (\<exists>len v name n. prop_at d (vposition s) len v (vposition s') name n \<and>
       (bytes_equal_string (fblob d) name n ''#address-cells'' = Some True \<or> bytes_equal_string (fblob d) name n ''#size-cells'' = Some True \<longrightarrow> len = 4)))"
  unfolding discover_prop_def
proof (intro sat_if, simp, simp)
  assume a: "\<not> (vnodes s = [] \<or> fstructure_size d - vposition s < 8)"
  then have p: "vposition s + 8 \<le> fstructure_size d" by linarith
  have l: "node_ok d (last (vnodes s))" using assms(2) a by (simp add: disc_ok_def)
  show "sat (andthen (prop_header d (vposition s)) (\<lambda>(len, v, next_position, name, name_length).
        andthen (reads (match_name (fblob d) name name_length
            [''#address-cells'', ''#size-cells'', ''ranges'', ''reg'', ''compatible'', ''status''])) (\<lambda>which.
          andthen (discover_value (fblob d) which len v (last (vnodes s))) (\<lambda>node.
            gives (s\<lparr>vposition := next_position, vnodes := butlast (vnodes s) @ [node]\<rparr>)))))
     (\<lambda>s'. disc_ok d s' \<and> vinfo s' = vinfo s \<and> length (vnodes s') = length (vnodes s) \<and> vnodes s \<noteq> [] \<and>
    (\<exists>len v name n. prop_at d (vposition s) len v (vposition s') name n \<and>
       (bytes_equal_string (fblob d) name n ''#address-cells'' = Some True \<or> bytes_equal_string (fblob d) name n ''#size-cells'' = Some True \<longrightarrow> len = 4)))"
  proof (rule sat_andthen [OF prop_header_sat [OF assms(1) p]], clarify)
    fix len v np name n
    assume pa: "prop_at d (vposition s) len v np name n"
    note f = prop_at_facts [OF pa]
    obtain which where w: "match_name (fblob d) name n [''#address-cells'', ''#size-cells'', ''ranges'', ''reg'', ''compatible'', ''status''] = Some which"
      using match_name_has [OF f(1)] unfolding has_def by blast
    show "sat (andthen (reads (match_name (fblob d) name n
            [''#address-cells'', ''#size-cells'', ''ranges'', ''reg'', ''compatible'', ''status''])) (\<lambda>which.
          andthen (discover_value (fblob d) which len v (last (vnodes s))) (\<lambda>node.
            gives (s\<lparr>vposition := np, vnodes := butlast (vnodes s) @ [node]\<rparr>))))
     (\<lambda>s'. disc_ok d s' \<and> vinfo s' = vinfo s \<and> length (vnodes s') = length (vnodes s) \<and> vnodes s \<noteq> [] \<and>
    (\<exists>len v name n. prop_at d (vposition s) len v (vposition s') name n \<and>
       (bytes_equal_string (fblob d) name n ''#address-cells'' = Some True \<or> bytes_equal_string (fblob d) name n ''#size-cells'' = Some True \<longrightarrow> len = 4)))"
    proof (rule sat_reads [of _ "\<lambda>x. x = which"], simp only: w has_Some, simp only:)
      have "sat (discover_value (fblob d) which len v (last (vnodes s))) (\<lambda>n'. node_ok d n' \<and>
          (which = Some ''#address-cells'' \<or> which = Some ''#size-cells'' \<longrightarrow> len = 4))" by (rule discover_value_sat [OF l f(2)])
      then show "sat (andthen (discover_value (fblob d) which len v (last (vnodes s))) (\<lambda>node.
            gives (s\<lparr>vposition := np, vnodes := butlast (vnodes s) @ [node]\<rparr>)))
         (\<lambda>s'. disc_ok d s' \<and> vinfo s' = vinfo s \<and> length (vnodes s') = length (vnodes s) \<and> vnodes s \<noteq> [] \<and>
        (\<exists>len v name n. prop_at d (vposition s) len v (vposition s') name n \<and>
           (bytes_equal_string (fblob d) name n ''#address-cells'' = Some True \<or> bytes_equal_string (fblob d) name n ''#size-cells'' = Some True \<longrightarrow> len = 4)))"
      proof (rule sat_andthen)
        fix node assume node: "node_ok d node \<and> (which = Some ''#address-cells'' \<or> which = Some ''#size-cells'' \<longrightarrow> len = 4)"
        have len: "bytes_equal_string (fblob d) name n ''#address-cells'' = Some True \<or> bytes_equal_string (fblob d) name n ''#size-cells'' = Some True \<longrightarrow> len = 4"
          using node cells_names [OF w] by blast
        show "sat (gives (s\<lparr>vposition := np, vnodes := butlast (vnodes s) @ [node]\<rparr>))
           (\<lambda>s'. disc_ok d s' \<and> vinfo s' = vinfo s \<and> length (vnodes s') = length (vnodes s) \<and> vnodes s \<noteq> [] \<and>
          (\<exists>len v name n. prop_at d (vposition s) len v (vposition s') name n \<and>
             (bytes_equal_string (fblob d) name n ''#address-cells'' = Some True \<or> bytes_equal_string (fblob d) name n ''#size-cells'' = Some True \<longrightarrow> len = 4)))"
          using a node f(4) assms(2) len pa by (auto simp: disc_ok_def dest: in_set_butlastD)
      qed
    qed
  qed
qed

lemma discover_loop_sat:
  assumes "fdt_ok d" "disc_ok d s"
  shows "sat (discover_loop d s) (\<lambda>i. walk d (vposition s) (length (vnodes s)) \<and> virtio_ok (dvirtio_mmio i) \<and>
    i = (vinfo s)\<lparr>dvirtio_mmio := dvirtio_mmio i\<rparr>)"
  using assms(2)
proof (induction "fstructure_size d - vposition s" arbitrary: s rule: less_induct)
  case less
  show ?case
  proof (cases "fstructure_size d \<le> vposition s \<or> fstructure_size d - vposition s < 4")
    case True
    then show ?thesis by (simp add: discover_loop.simps)
  next
    case False
    then have p: "vposition s + 4 \<le> fstructure_size d" by linarith
    have ad: "add32 (vposition s) 4 = vposition s + 4" by (rule add32_small) (use p assms(1) in \<open>auto simp: fdt_ok_def\<close>)
    obtain token where token: "read_size (fblob d) (fstructure d + vposition s) = Some token"
      using size_has [of "fstructure d + vposition s" "fblob d"] p assms(1) by (auto simp: has_def fdt_ok_def)
    define s1 where "s1 = s\<lparr>vposition := vposition s + 4\<rparr>"
    have s1: "disc_ok d s1" "vposition s1 = vposition s + 4" "vnodes s1 = vnodes s" "vinfo s1 = vinfo s"
      using less.prems p by (auto simp: s1_def disc_ok_def)
    let ?Q = "\<lambda>s i. walk d (vposition s) (length (vnodes s)) \<and> virtio_ok (dvirtio_mmio i) \<and> i = (vinfo s)\<lparr>dvirtio_mmio := dvirtio_mmio i\<rparr>"
    have IH: "sat (discover_loop d s') (?Q s')" if "disc_ok d s'" "vposition s < vposition s'" for s'
      using less.hyps [of s'] that p by (auto simp: disc_ok_def)
    have eq: "discover_loop d s =
       (if token = 1 then andthen (discover_begin d s1) (discover_loop d)
        else if token = 2 then andthen (discover_end d s1) (discover_loop d)
        else if token = 3 then andthen (discover_prop d s1) (discover_loop d)
        else if token = 4 then discover_loop d s1
        else if token = 9 then
          (if \<not> vsaw_root s1 \<or> vnodes s1 \<noteq> [] \<or> vposition s1 \<noteq> fstructure_size d then fails DTB_INVALID else gives (vinfo s1))
        else fails DTB_INVALID)"
      by (subst discover_loop.simps) (use False token ad in \<open>simp add: s1_def andthen_def reads_def Let_def\<close>)
    show ?thesis unfolding eq
    proof (intro sat_if)
      assume "token = 1"
      show "sat (andthen (discover_begin d s1) (discover_loop d)) (?Q s)"
      proof (rule sat_andthen [OF discover_begin_sat [OF assms(1) s1(1)]], elim conjE exE)
        fix s' n
        assume h: "disc_ok d s'" "vposition s1 < vposition s'" "vinfo s' = vinfo s1" "length (vnodes s') = Suc (length (vnodes s1))"
          "length (vnodes s1) < 16" "cstring_at (fblob d) (fstructure d + vposition s1) n" "vposition s1 + n < fstructure_size d"
          "vposition s' = (vposition s1 + n + 4) div 4 * 4"
        have "walk d (vposition s) (length (vnodes s))" if "walk d (vposition s') (Suc (length (vnodes s)))"
          by (rule walk_begin [of d "vposition s" _ n "vposition s'"]) (use that h token \<open>token = 1\<close> s1 in \<open>auto simp: disc_ok_def add.assoc\<close>)
        then show "sat (discover_loop d s') (?Q s)" using IH [OF h(1)] h s1 by (auto elim: sat_mono)
      qed
    next
      assume "token = 2"
      show "sat (andthen (discover_end d s1) (discover_loop d)) (?Q s)"
      proof (rule sat_andthen [OF discover_end_sat [OF s1(1)]], elim conjE)
        fix s'
        assume h: "disc_ok d s'" "vposition s' = vposition s1" "length (vnodes s1) = Suc (length (vnodes s'))"
          "vinfo s' = (vinfo s1)\<lparr>dvirtio_mmio := dvirtio_mmio (vinfo s')\<rparr>"
        have "walk d (vposition s) (length (vnodes s))" if "walk d (vposition s + 4) (length (vnodes s'))"
          using walk_close [of d "vposition s"] that h(3) s1 token \<open>token = 2\<close> p by simp
        moreover have "i = (vinfo s)\<lparr>dvirtio_mmio := dvirtio_mmio i\<rparr>" if "i = (vinfo s')\<lparr>dvirtio_mmio := dvirtio_mmio i\<rparr>" for i
          using that h(4) s1(4) by (metis dtb_boot_info.update_convs(6) dtb_boot_info.surjective)
        ultimately show "sat (discover_loop d s') (?Q s)" using IH [OF h(1)] h(2) s1 by (auto elim!: sat_mono)
      qed
    next
      assume "token = 3"
      show "sat (andthen (discover_prop d s1) (discover_loop d)) (?Q s)"
      proof (rule sat_andthen [OF discover_prop_sat [OF assms(1) s1(1)]], elim conjE exE)
        fix s' len v name n
        assume h: "disc_ok d s'" "vinfo s' = vinfo s1" "length (vnodes s') = length (vnodes s1)" "vnodes s1 \<noteq> []"
          "prop_at d (vposition s1) len v (vposition s') name n"
          "bytes_equal_string (fblob d) name n ''#address-cells'' = Some True \<or> bytes_equal_string (fblob d) name n ''#size-cells'' = Some True \<longrightarrow> len = 4"
        have "walk d (vposition s) (length (vnodes s))" if "walk d (vposition s') (length (vnodes s))"
          by (rule walk_prop [OF _ _ h(5) [unfolded s1(2)] h(6) that]) (use token \<open>token = 3\<close> h(4) s1(3) in auto)
        then show "sat (discover_loop d s') (?Q s)" using IH [OF h(1)] h(2,3) s1 prop_at_facts(3) [OF h(5)] by (auto elim!: sat_mono)
      qed
    next
      assume "token = 4"
      have "walk d (vposition s) (length (vnodes s))" if "walk d (vposition s1) (length (vnodes s1))"
        using walk_nop [of d "vposition s"] that s1 token \<open>token = 4\<close> p by simp
      then show "sat (discover_loop d s1) (?Q s)" using IH [OF s1(1)] s1 by (auto elim!: sat_mono)
    next
      assume "token = 9" "\<not> (\<not> vsaw_root s1 \<or> vnodes s1 \<noteq> [] \<or> vposition s1 \<noteq> fstructure_size d)"
      then show "sat (gives (vinfo s1)) (?Q s)"
        using walk_end [of d "vposition s"] token s1 less.prems by (auto simp: disc_ok_def)
    qed simp_all
  qed
qed

lemma discover_sat:
  assumes "fdt_ok d"
  shows "sat (discover_virtio_mmio d i) (\<lambda>i'. walk d 0 0 \<and> virtio_ok (dvirtio_mmio i') \<and> i' = i\<lparr>dvirtio_mmio := dvirtio_mmio i'\<rparr>)"
proof -
  have "disc_ok d \<lparr>vposition = 0, vnodes = [], vsaw_root = False, vinfo = i\<lparr>dvirtio_mmio := []\<rparr>\<rparr>"
    by (simp add: disc_ok_def virtio_ok_def)
  from discover_loop_sat [OF assms this] show ?thesis unfolding discover_virtio_mmio_def by (auto elim!: sat_mono)
qed

end
