(* ===== verification/Dtb_Boot_Safe.thy ===== *)
theory Dtb_Boot_Safe
  imports Dtb_Walk
begin

text \<open>
  \<^verbatim>\<open>dtb_read_boot_info\<close> on an arbitrary blob: it reads inside the blob only, ends, and what it returns on success satisfies \<open>boot_facts\<close>.
\<close>

definition boot_facts :: "nat \<Rightarrow> bool \<Rightarrow> dtb_boot_info \<Rightarrow> bool" where
  "boot_facts n f i \<longleftrightarrow> memories_ok i f \<and> reserved_ok i \<and> ddtb_size i = n \<and> dtimebase_frequency i < 2 ^ 32 \<and> (drng_seed i = [] \<or> length (drng_seed i) = 32)"

definition scan_ok :: "fdt \<Rightarrow> nat \<Rightarrow> dtb_scan \<Rightarrow> bool" where
  "scan_ok d n s \<longleftrightarrow> position s \<le> fstructure_size d \<and> address_cells s \<le> 2 \<and> size_cells s \<le> 2 \<and> reserved_address_cells s \<le> 2 \<and> reserved_size_cells s \<le> 2 \<and>
     (memory_reg_seen s \<longrightarrow> value_ok d (memory_reg s) (memory_reg_length s)) \<and> (reserved_reg_seen s \<longrightarrow> value_ok d (reserved_reg s) (reserved_reg_length s)) \<and>
     boot_facts n (found s) (info s)"

section \<open>Nodes\<close>

lemma scan_child_sat:
  assumes "scan_ok d n s" "name + len \<le> length (fblob d)"
  shows "sat (scan_child (fblob d) name len s) (\<lambda>s'. scan_ok d n s' \<and> position s' = position s)"
  unfolding scan_child_def
  by (intro sat_reads [OF equal_string_has [OF assms(2)]] sat_reads [OF classify_has [OF assms(2)]] sat_if)
     (use assms(1) in \<open>auto simp: scan_ok_def Let_def\<close>)

lemma scan_begin_sat:
  assumes "fdt_ok d" "scan_ok d n s"
  shows "sat (scan_begin d s) (\<lambda>s'. scan_ok d n s' \<and> position s \<le> position s')"
proof -
  have p: "position s \<le> fstructure_size d" using assms(2) by (simp add: scan_ok_def)
  show ?thesis unfolding scan_begin_def
  proof (rule sat_andthen [OF begin_node_sat [OF assms(1) p]], clarify)
    fix k np assume h: "cstring_at (fblob d) (fstructure d + position s) k" "position s < (position s + k + 4) div 4 * 4"
      "(position s + k + 4) div 4 * 4 \<le> fstructure_size d"
    have nm: "fstructure d + position s + k \<le> length (fblob d)" using h(1) by (simp add: cstring_at_def)
    define s1 where "s1 = s\<lparr>saw_root := (if depth s = 0 then True else saw_root s), depth := add32 (depth s) 1, property_depth := add32 (depth s) 1,
      position := (position s + k + 4) div 4 * 4\<rparr>"
    have s1: "scan_ok d n s1" "position s \<le> position s1" using assms(2) h(2,3) by (simp_all add: scan_ok_def s1_def)
    have s2: "scan_ok d n (s1\<lparr>reserved_child := True, reserved_reg := 0, reserved_reg_length := 0, reserved_reg_seen := False, reserved_size_seen := False\<rparr>)"
      using s1(1) by (simp add: scan_ok_def)
    show "sat (if depth s = 0 \<and> (saw_root s \<or> k \<noteq> 0) then fails DTB_INVALID
     else
       let deeper = add32 (depth s) 1;
           s1 = s\<lparr>saw_root := (if depth s = 0 then True else saw_root s), depth := deeper, property_depth := deeper, position := (position s + k + 4) div 4 * 4\<rparr>
       in if deeper = 2 then scan_child (fblob d) (fstructure d + position s) k s1
          else if deeper = 3 \<and> reserved_node s then
            (if \<not> reserved_address_cells_seen s \<or> \<not> reserved_size_cells_seen s \<or> \<not> reserved_ranges_seen s then fails DTB_INVALID
             else gives (s1\<lparr>reserved_child := True, reserved_reg := 0, reserved_reg_length := 0, reserved_reg_seen := False,
                    reserved_size_seen := False\<rparr>))
          else gives s1) (\<lambda>s'. scan_ok d n s' \<and> position s \<le> position s')"
      unfolding Let_def s1_def [symmetric]
      by (intro sat_if sat_mono [OF scan_child_sat [OF s1(1) nm]]) (use s1 s2 in auto)
  qed
qed

lemma end_memory_sat:
  assumes "scan_ok d n s"
  shows "sat (end_memory (fblob d) s) (\<lambda>s'. scan_ok d n s' \<and> position s' = position s)"
proof -
  have k: "address_cells s \<le> 2" "size_cells s \<le> 2" "memories_ok (fst (info s, found s)) (snd (info s, found s))"
    using assms by (simp_all add: scan_ok_def boot_facts_def)
  have v: "memory_reg s + memory_reg_length s \<le> length (fblob d)" if "memory_reg_seen s" using assms that by (simp add: scan_ok_def value_ok_def)
  show ?thesis unfolding end_memory_def
  proof (intro sat_if)
    assume a: "\<not> (\<not> memory_type_seen s \<or> \<not> memory_type s \<or> \<not> memory_reg_seen s \<or> memory_reg s = 0)"
    show "sat (andthen (read_memory_reg (fblob d) (memory_reg s) (memory_reg_length s) (address_cells s) (size_cells s) (info s, found s))
          (\<lambda>(i, f). gives (s\<lparr>info := i, found := f\<rparr>))) (\<lambda>s'. scan_ok d n s' \<and> position s' = position s)"
    proof (rule sat_andthen [OF memory_reg_sat [OF v k]])
      show "memory_reg_seen s" using a by simp
      fix x assume x: "memories_ok (fst x) (snd x) \<and> fst x = (fst (info s, found s))\<lparr>dmemories := dmemories (fst x), dmemory := dmemory (fst x)\<rparr>"
      obtain i f where xe: "x = (i, f)" by (cases x)
      have i: "i = (info s)\<lparr>dmemories := dmemories i, dmemory := dmemory i\<rparr>" using x xe by simp
      have "dreserved i = dreserved (info s)" "ddtb_size i = ddtb_size (info s)" "dtimebase_frequency i = dtimebase_frequency (info s)" "drng_seed i = drng_seed (info s)"
        by (subst i, simp)+
      then have "boot_facts n f i" using x xe assms by (simp add: boot_facts_def scan_ok_def reserved_ok_def)
      then show "sat (case x of (i, f) \<Rightarrow> gives (s\<lparr>info := i, found := f\<rparr>)) (\<lambda>s'. scan_ok d n s' \<and> position s' = position s)"
        using xe assms by (simp add: scan_ok_def)
    qed
  qed (use assms in simp_all)
qed

lemma end_reserved_sat:
  assumes "scan_ok d n s"
  shows "sat (end_reserved (fblob d) s) (\<lambda>s'. scan_ok d n s' \<and> position s' = position s)"
proof -
  have k: "reserved_address_cells s \<le> 2" "reserved_size_cells s \<le> 2" "reserved_ok (info s)" using assms by (simp_all add: scan_ok_def boot_facts_def)
  have v: "reserved_reg s + reserved_reg_length s \<le> length (fblob d)" if "reserved_reg_seen s" using assms that by (simp add: scan_ok_def value_ok_def)
  show ?thesis unfolding end_reserved_def
  proof (intro sat_if)
    assume a: "\<not> \<not> reserved_reg_seen s"
    show "sat (andthen (append_reserved_reg (fblob d) (reserved_reg s) (reserved_reg_length s) (reserved_address_cells s) (reserved_size_cells s) (info s))
          (\<lambda>i. gives (s\<lparr>info := i, reserved_child := False\<rparr>))) (\<lambda>s'. scan_ok d n s' \<and> position s' = position s)"
    proof (rule sat_andthen [OF reserved_reg_sat [OF v k]])
      show "reserved_reg_seen s" using a by simp
      fix i assume i: "reserved_ok i \<and> i = (info s)\<lparr>dreserved := dreserved i\<rparr>"
      have "dmemories i = dmemories (info s)" "dmemory i = dmemory (info s)" "ddtb_size i = ddtb_size (info s)"
        "dtimebase_frequency i = dtimebase_frequency (info s)" "drng_seed i = drng_seed (info s)"
        by (subst conjunct2 [OF i], simp)+
      then have "boot_facts n (found s) i" using i assms by (simp add: boot_facts_def scan_ok_def memories_ok_def)
      then show "sat (gives (s\<lparr>info := i, reserved_child := False\<rparr>)) (\<lambda>s'. scan_ok d n s' \<and> position s' = position s)"
        using assms by (simp add: scan_ok_def)
    qed
  qed (use assms in \<open>simp_all add: scan_ok_def\<close>)
qed

lemma scan_end_sat:
  assumes "scan_ok d n s"
  shows "sat (scan_end d s) (\<lambda>s'. scan_ok d n s' \<and> position s' = position s)"
  unfolding scan_end_def
proof (rule sat_if, simp)
  show "sat (andthen (end_memory (fblob d) s) (\<lambda>s1. andthen (end_reserved (fblob d) s1) (\<lambda>s2.
          let s3 = (if depth s2 = 2 then s2\<lparr>cpus_node := False, chosen_node := False\<rparr> else s2)
          in gives (s3\<lparr>property_depth := (if property_depth s3 = depth s3 then 0 else property_depth s3), depth := depth s3 - 1\<rparr>))))
        (\<lambda>s'. scan_ok d n s' \<and> position s' = position s)"
  proof (rule sat_andthen [OF end_memory_sat [OF assms]], elim conjE)
    fix s1 assume s1: "scan_ok d n s1" "position s1 = position s"
    show "sat (andthen (end_reserved (fblob d) s1) (\<lambda>s2.
          let s3 = (if depth s2 = 2 then s2\<lparr>cpus_node := False, chosen_node := False\<rparr> else s2)
          in gives (s3\<lparr>property_depth := (if property_depth s3 = depth s3 then 0 else property_depth s3), depth := depth s3 - 1\<rparr>)))
        (\<lambda>s'. scan_ok d n s' \<and> position s' = position s)"
      by (rule sat_andthen [OF end_reserved_sat [OF s1(1)]]) (use s1(2) in \<open>auto simp: scan_ok_def Let_def\<close>)
  qed
qed

section \<open>Properties\<close>

lemma cell_count_sat:
  assumes "value_ok d v len"
  shows "sat (cell_count (fblob d) seen len v) (\<lambda>c. c \<le> 2)"
proof -
  have "v + 4 \<le> length (fblob d)" if "len = 4" using assms that by (simp add: value_ok_def)
  then have "has (read_size (fblob d) v) (\<lambda>_. True)" if "len = 4" using size_has that by (auto simp: has_def)
  then show ?thesis unfolding cell_count_def by (auto intro!: sat_reads)
qed

lemma copy_bytes_has: "v + n \<le> length blob \<Longrightarrow> has (copy_bytes blob v n) (\<lambda>bs. length bs = n)"
proof (induction n arbitrary: v)
  case (Suc n)
  have "has (copy_bytes blob (v + 1) n) (\<lambda>bs. length bs = n)" by (rule Suc.IH) (use Suc.prems in simp)
  then show ?case using Suc.prems by (auto simp: byte_at_def has_def)
qed simp

lemma scan_value_sat:
  assumes "scan_ok d n s" "value_ok d v len"
  shows "sat (scan_value (fblob d) which len v s) (\<lambda>s'. scan_ok d n s' \<and> position s' = position s)"
proof -
  have le: "v + len \<le> length (fblob d)" "len < 2 ^ 32" "v + (len - 1) \<le> length (fblob d)" using assms(2) by (auto simp: value_ok_def)
  have size: "has (read_size (fblob d) v) (\<lambda>f. f < 2 ^ 32)" if "len = 4" using size_has [of v "fblob d"] le that by (auto simp: has_def)
  have seed: "has (copy_bytes (fblob d) v 32) (\<lambda>bs. length bs = 32)" if "\<not> len < 32" by (rule copy_bytes_has) (use le that in simp)
  note cells = cell_count_sat [OF assms(2)]
  have facts: "boot_facts n f (i\<lparr>dtimebase_frequency := c\<rparr>)" if "boot_facts n f i" "c < 2 ^ 32" for f i c
    using that by (simp add: boot_facts_def memories_ok_def reserved_ok_def)
  have facts': "boot_facts n f (i\<lparr>drng_seed := bs\<rparr>)" if "boot_facts n f i" "length bs = 32" for f i bs
    using that by (simp add: boot_facts_def memories_ok_def reserved_ok_def)
  have u: "c < 2 ^ 32 \<Longrightarrow> scan_ok d n (s\<lparr>info := (info s)\<lparr>dtimebase_frequency := c\<rparr>, timebase_frequency_seen := True\<rparr>)"
    "length bs = 32 \<Longrightarrow> scan_ok d n (s\<lparr>info := (info s)\<lparr>drng_seed := bs\<rparr>, rng_seed_seen := True\<rparr>)"
    "c \<le> 2 \<Longrightarrow> scan_ok d n (s\<lparr>address_cells_seen := True, address_cells := c\<rparr>)"
    "c \<le> 2 \<Longrightarrow> scan_ok d n (s\<lparr>size_cells_seen := True, size_cells := c\<rparr>)"
    "c \<le> 2 \<Longrightarrow> scan_ok d n (s\<lparr>reserved_address_cells_seen := True, reserved_address_cells := c\<rparr>)"
    "c \<le> 2 \<Longrightarrow> scan_ok d n (s\<lparr>reserved_size_cells_seen := True, reserved_size_cells := c\<rparr>)"
    "scan_ok d n (s\<lparr>reserved_ranges_seen := True\<rparr>)"
    "scan_ok d n (s\<lparr>reserved_reg_seen := True, reserved_reg := v, reserved_reg_length := len\<rparr>)"
    "scan_ok d n (s\<lparr>reserved_size_seen := True\<rparr>)"
    "scan_ok d n (s\<lparr>memory_type_seen := True, memory_type := b\<rparr>)"
    "scan_ok d n (s\<lparr>memory_reg_seen := True, memory_reg := v, memory_reg_length := len\<rparr>)" for bs b c
    using assms facts facts' by (simp_all add: scan_ok_def)
  have one: "sat (andthen (reads (property_value_is_one_string (fblob d) v len)) (\<lambda>one.
           if \<not> one then fails DTB_INVALID
           else andthen (reads (bytes_equal_string (fblob d) v (len - 1) ''memory'')) (\<lambda>m. gives (s\<lparr>memory_type_seen := True, memory_type := m\<rparr>))))
       (\<lambda>s'. scan_ok d n s' \<and> position s' = position s)"
    by (rule sat_reads [OF one_string_has [OF le(1,2)]], intro sat_if sat_reads [OF equal_string_has [OF le(3)]]) (simp_all add: u)
  have len4: "sat (andthen (reads (read_size (fblob d) v)) (\<lambda>f.
       if f = 0 then fails DTB_INVALID else gives (s\<lparr>info := (info s)\<lparr>dtimebase_frequency := f\<rparr>, timebase_frequency_seen := True\<rparr>)))
       (\<lambda>s'. scan_ok d n s' \<and> position s' = position s)" if "len = 4"
    by (rule sat_reads [OF size [OF that]]) (simp add: u)
  have bs: "sat (andthen (reads (copy_bytes (fblob d) v 32)) (\<lambda>bs.
           gives (s\<lparr>info := (info s)\<lparr>drng_seed := bs\<rparr>, rng_seed_seen := True\<rparr>))) (\<lambda>s'. scan_ok d n s' \<and> position s' = position s)"
    if "\<not> len < 32" by (rule sat_reads [OF seed [OF that]]) (simp add: u)
  have cell: "sat (andthen (cell_count (fblob d) seen len v) f) (\<lambda>s'. scan_ok d n s' \<and> position s' = position s)"
    if "\<And>c. c \<le> 2 \<Longrightarrow> sat (f c) (\<lambda>s'. scan_ok d n s' \<and> position s' = position s)" for f seen
    by (rule sat_andthen [OF cells that])
  show ?thesis unfolding scan_value_def
    by (intro sat_if one len4 bs cell) (simp_all add: u assms(1))
qed

lemma scan_prop_sat:
  assumes "fdt_ok d" "scan_ok d n s"
  shows "sat (scan_prop d s) (\<lambda>s'. scan_ok d n s' \<and> position s \<le> position s')"
  unfolding scan_prop_def
proof (rule sat_if, simp)
  assume a: "\<not> (depth s = 0 \<or> property_depth s \<noteq> depth s \<or> fstructure_size d - position s < 8)"
  then have p: "position s + 8 \<le> fstructure_size d" by linarith
  show "sat (andthen (prop_header d (position s)) (\<lambda>(len, v, next_position, name, name_length).
        andthen (reads (match_name (fblob d) name name_length (watched s))) (\<lambda>which.
          scan_value (fblob d) which len v (s\<lparr>position := next_position\<rparr>)))) (\<lambda>s'. scan_ok d n s' \<and> position s \<le> position s')"
  proof (rule sat_andthen [OF prop_header_sat [OF assms(1) p]], clarify)
    fix len v np name k assume pa: "prop_at d (position s) len v np name k"
    note f = prop_at_facts [OF pa]
    have s1: "scan_ok d n (s\<lparr>position := np\<rparr>)" using assms(2) f(4) by (simp add: scan_ok_def)
    show "sat (andthen (reads (match_name (fblob d) name k (watched s))) (\<lambda>which.
          scan_value (fblob d) which len v (s\<lparr>position := np\<rparr>))) (\<lambda>s'. scan_ok d n s' \<and> position s \<le> position s')"
      by (rule sat_reads [OF match_name_has [OF f(1)]], rule sat_mono [OF scan_value_sat [OF s1 f(2)]]) (use f(3) in auto)
  qed
qed

section \<open>The loops\<close>

definition final_facts :: "fdt \<Rightarrow> nat \<Rightarrow> dtb_boot_info \<Rightarrow> bool" where
  "final_facts d n i \<longleftrightarrow> boot_facts n True i \<and> virtio_ok (dvirtio_mmio i) \<and> walk d 0 0"

lemma scan_loop_sat:
  assumes "fdt_ok d" "scan_ok d n s"
  shows "sat (scan_loop d s) (final_facts d n)"
  using assms(2)
proof (induction "fstructure_size d - position s" arbitrary: s rule: less_induct)
  case less
  show ?case
  proof (cases "fstructure_size d \<le> position s \<or> fstructure_size d - position s < 4")
    case True
    then show ?thesis by (simp add: scan_loop.simps)
  next
    case False
    then have p: "position s + 4 \<le> fstructure_size d" by linarith
    have ad: "add32 (position s) 4 = position s + 4" by (rule add32_small) (use p assms(1) in \<open>auto simp: fdt_ok_def\<close>)
    obtain token where token: "read_size (fblob d) (fstructure d + position s) = Some token"
      using size_has [of "fstructure d + position s" "fblob d"] p assms(1) by (auto simp: has_def fdt_ok_def)
    define s1 where "s1 = s\<lparr>position := position s + 4\<rparr>"
    have s1: "scan_ok d n s1" "position s1 = position s + 4" using less.prems p by (auto simp: s1_def scan_ok_def)
    have IH: "sat (scan_loop d s') (final_facts d n)" if "scan_ok d n s'" "position s < position s'" for s'
      using less.hyps [of s'] that p by (auto simp: scan_ok_def)
    have eq: "scan_loop d s =
       (if token = 1 then andthen (scan_begin d s1) (scan_loop d)
        else if token = 2 then andthen (scan_end d s1) (scan_loop d)
        else if token = 3 then andthen (scan_prop d s1) (scan_loop d)
        else if token = 4 then scan_loop d s1
        else if token = 9 then
          (if \<not> saw_root s1 \<or> depth s1 \<noteq> 0 \<or> position s1 \<noteq> fstructure_size d then fails DTB_INVALID
           else if \<not> found s1 then fails DTB_NOT_FOUND
           else discover_virtio_mmio d (info s1))
        else fails DTB_INVALID)"
      by (subst scan_loop.simps) (use False token ad in \<open>simp add: s1_def andthen_def reads_def Let_def\<close>)
    have facts: "boot_facts n f i'" if "boot_facts n f i" "i' = i\<lparr>dvirtio_mmio := dvirtio_mmio i'\<rparr>" for f i i'
    proof -
      have "dmemories i' = dmemories i" "dmemory i' = dmemory i" "ddtb_size i' = ddtb_size i" "dreserved i' = dreserved i"
        "dtimebase_frequency i' = dtimebase_frequency i" "drng_seed i' = drng_seed i" by (subst that(2), simp)+
      then show ?thesis using that(1) by (simp add: boot_facts_def memories_ok_def reserved_ok_def)
    qed
    show ?thesis unfolding eq
      by (intro sat_if sat_andthen [OF scan_begin_sat [OF assms(1) s1(1)]] sat_andthen [OF scan_end_sat [OF s1(1)]]
            sat_andthen [OF scan_prop_sat [OF assms(1) s1(1)]] IH sat_mono [OF discover_sat [OF assms(1)]])
         (use s1 facts [of "found s1" "info s1"] in \<open>auto simp: final_facts_def scan_ok_def [of d n s1]\<close>)
  qed
qed

lemma reserve_loop_sat:
  assumes "structure_offset \<le> length blob" "structure_offset < 2 ^ 32" "boot_facts n False i"
  shows "sat (reserve_loop blob structure_offset pos i) (boot_facts n False)"
  using assms(3)
proof (induction "structure_offset - pos" arbitrary: pos i rule: less_induct)
  case less
  show ?case
  proof (cases "structure_offset < pos \<or> structure_offset - pos < 16")
    case True
    then show ?thesis by (simp add: reserve_loop.simps)
  next
    case False
    then have p: "pos + 16 \<le> structure_offset" by linarith
    have ad: "add32 pos 16 = pos + 16" by (rule add32_small) (use p assms(2) in linarith)
    have le: "pos + 16 \<le> length blob" "pos + 8 + 8 \<le> length blob" "pos + 8 \<le> length blob" using p assms(1) by linarith+
    have IH: "sat (reserve_loop blob structure_offset (pos + 16) i') (boot_facts n False)" if "boot_facts n False i'" for i'
      by (rule less.hyps) (use p that in auto)
    have more: "boot_facts n False (i\<lparr>dreserved := dreserved i @ [\<lparr>rbase = b, rsize = sz\<rparr>]\<rparr>)" if "length (dreserved i) \<noteq> 16" "sz \<noteq> 0" for b sz
      using less.prems that by (auto simp: boot_facts_def memories_ok_def reserved_ok_def)
    show ?thesis
      by (subst reserve_loop.simps, unfold ad,
          intro sat_if sat_reads [OF terminator_has [OF le(1)]] sat_reads [OF be64_has [OF le(2)]] sat_reads [OF be64_has [OF le(3)]] IH)
         (use less.prems more in simp_all)
  qed
qed

text \<open>A blob whose readable bytes include its header and the size the header announces.\<close>

definition blob_ok :: "u8 list \<Rightarrow> bool" where
  "blob_ok blob \<longleftrightarrow> 40 \<le> length blob \<and> (\<forall>n. read_size blob 4 = Some n \<longrightarrow> n \<le> length blob)"

lemma read_header_sat:
  assumes "blob_ok blob"
  shows "sat (read_header blob) (\<lambda>(n, d, r). fdt_ok d \<and> fblob d = blob \<and> read_size blob 4 = Some n \<and> 40 \<le> n \<and> n < 2 ^ 32 \<and> n \<le> length blob \<and>
    fstructure d \<le> length blob \<and> fstructure d < 2 ^ 32 \<and> read_size blob 8 = Some (fstructure d) \<and> read_size blob 12 = Some (fstrings d))"
proof -
  have h: "has (read_size blob k) (\<lambda>v. v < 2 ^ 32 \<and> read_size blob k = Some v)" if "k + 4 \<le> 40" for k
    by (rule size_has) (use assms that in \<open>simp add: blob_ok_def\<close>)
  have le: "n \<le> length blob" if "read_size blob 4 = Some n" for n using assms that by (simp add: blob_ok_def)
  show ?thesis unfolding read_header_def
    by (intro sat_if sat_reads [OF h]) (auto simp: fdt_ok_def range_is_inside_def dest: le)
qed

lemma read_boot_info_sat:
  assumes "blob_ok blob"
  shows "sat (andthen (read_header blob) (\<lambda>(total_size, d, reserve_offset).
            andthen (reserve_loop blob (fstructure d) reserve_offset
                \<lparr>dmemory = \<lparr>rbase = 0, rsize = 0\<rparr>, dmemories = [], ddtb_size = total_size, dtimebase_frequency = 0, dreserved = [],
                 dvirtio_mmio = [], drng_seed = []\<rparr>)
              (\<lambda>i. scan_loop d (scan_start i))))
     (\<lambda>i. \<exists>d n. final_facts d n i \<and> fdt_ok d \<and> fblob d = blob \<and> read_size blob 4 = Some n \<and> 40 \<le> n \<and> n < 2 ^ 32 \<and>
       read_size blob 8 = Some (fstructure d) \<and> read_size blob 12 = Some (fstrings d))"
proof (rule sat_andthen [OF read_header_sat [OF assms]], clarify)
  fix n d r
  assume h: "fdt_ok d" "blob = fblob d" "read_size (fblob d) 4 = Some n" "40 \<le> n" "n < 2 ^ 32" "fstructure d \<le> length (fblob d)" "fstructure d < 2 ^ 32"
    "read_size (fblob d) 8 = Some (fstructure d)" "read_size (fblob d) 12 = Some (fstrings d)"
  let ?i = "\<lparr>dmemory = \<lparr>rbase = 0, rsize = 0\<rparr>, dmemories = [], ddtb_size = n, dtimebase_frequency = 0, dreserved = [], dvirtio_mmio = [], drng_seed = []\<rparr>"
  have i: "boot_facts n False ?i" by (simp add: boot_facts_def memories_ok_def reserved_ok_def)
  have s: "scan_ok d n (scan_start i)" if "boot_facts n False i" for i using that by (simp add: scan_ok_def scan_start_def)
  show "sat (andthen (reserve_loop (fblob d) (fstructure d) r ?i) (\<lambda>i. scan_loop d (scan_start i)))
     (\<lambda>i. \<exists>da n. final_facts da n i \<and> fdt_ok da \<and> fblob da = fblob d \<and> read_size (fblob d) 4 = Some n \<and> 40 \<le> n \<and> n < 2 ^ 32 \<and>
       read_size (fblob d) 8 = Some (fstructure da) \<and> read_size (fblob d) 12 = Some (fstrings da))"
    by (rule sat_andthen [OF reserve_loop_sat [OF h(6,7) i]], rule sat_mono [OF scan_loop_sat [OF h(1) s]]) (use h in auto)
qed

end
