(* ===== verification/Dtb_Cpu_Safe.thy ===== *)
theory Dtb_Cpu_Safe
  imports Dtb_Cpu Dtb_Boot_Safe
begin

text \<open>The processor pass over a blob that the boot pass accepted: it stays inside the blob, ends, and returns distinct processors, the boot
  processor first and the others in ascending order.\<close>

lemma zero_offset_string: "cstring_at blob a n \<Longrightarrow> zero_offset blob a = Some n"
proof (induction n arbitrary: a)
  case 0
  then show ?case by (subst zero_offset.simps) (simp add: cstring_at_def)
next
  case (Suc n)
  have "cstring_at blob (a + 1) n" using Suc.prems by (auto simp: cstring_at_def)
  then have "zero_offset blob (a + 1) = Some n" by (rule Suc.IH)
  moreover have "blob ! a \<noteq> 0" "a < length blob" using Suc.prems by (auto simp: cstring_at_def dest: spec [of _ 0])
  ultimately show ?case by (subst zero_offset.simps) simp
qed

lemma align4_small: "v < 2 ^ 32 \<Longrightarrow> align4 v = v div 4 * 4"
  by (simp add: align4_def)

definition cnode_ok :: "fdt \<Rightarrow> cpu_node \<Rightarrow> bool" where
  "cnode_ok d n \<longleftrightarrow> (creg n \<noteq> 0 \<longrightarrow> value_ok d (creg n) (creg_length n))"

definition cpus_ok :: "u64 list \<Rightarrow> bool" where
  "cpus_ok hs \<longleftrightarrow> distinct hs \<and> length hs \<le> 4"

definition cpu_ok :: "fdt \<Rightarrow> cpu_scan \<Rightarrow> bool" where
  "cpu_ok d s \<longleftrightarrow> (\<forall>n \<in> set (cstack s). cnode_ok d n) \<and> cpus_ok (charts s)"

lemma cpu_begin_sat:
  assumes "cpu_ok d s" "cstring_at (fblob d) (fstructure d + cposition s) n" "cposition s + n + 4 < 2 ^ 32"
  shows "sat (cpu_begin (fblob d) (fstructure d) s) (\<lambda>s'. cpu_ok d s' \<and> length (cstack s') = Suc (length (cstack s)) \<and>
    cposition s' = (cposition s + n + 4) div 4 * 4)"
proof -
  let ?a = "fstructure d + cposition s"
  have le: "?a + n \<le> length (fblob d)" using assms(2) by (simp add: cstring_at_def)
  have z: "has (zero_offset (fblob d) ?a) (\<lambda>k. k = n)" using zero_offset_string [OF assms(2)] by simp
  have c: "has (if b then bytes_equal_string (fblob d) ?a n e else Some False) (\<lambda>_. True)" for b e using equal_string_has [OF le] by simp
  have m: "has (if b \<and> b' \<and> 4 \<le> n then bytes_start (fblob d) ?a (cstr ''cpu@'') else Some False) (\<lambda>_. True)" for b b'
    using bytes_start_has [of ?a "cstr ''cpu@''" "fblob d"] le by (auto simp: cstr_def)
  show ?thesis unfolding cpu_begin_def Let_def
    by (rule sat_reads [OF z], simp only:, intro sat_if sat_reads [OF c] sat_reads [OF m])
       (use assms align4_small [OF assms(3)] in \<open>auto simp: cpu_ok_def cnode_ok_def\<close>)
qed

lemma cpu_value_sat:
  assumes "cnode_ok d node" "value_ok d v len"
  shows "sat (cpu_value (fblob d) which len v b node) (\<lambda>(n, _). cnode_ok d n)"
proof -
  have le: "v + len \<le> length (fblob d)" "len < 2 ^ 32" using assms(2) by (simp_all add: value_ok_def)
  have size: "has (read_size (fblob d) v) (\<lambda>_. True)" if "len = 4" using size_has [of v "fblob d"] le that by (auto simp: has_def)
  have cpu: "has (bytes_equal_string (fblob d) v 3 ''cpu'') (\<lambda>_. True)" if "len = 4" by (rule equal_string_has) (use le that in simp)
  have n: "cnode_ok d (node\<lparr>caddress_cells := c\<rparr>)" "cnode_ok d (node\<lparr>cenabled := x\<rparr>)" "cnode_ok d (node\<lparr>ccpu := x\<rparr>)"
    "cnode_ok d (node\<lparr>creg := v, creg_length := len\<rparr>)" for c x using assms by (simp_all add: cnode_ok_def)
  show ?thesis unfolding cpu_value_def
    by (intro sat_if sat_reads [OF size] sat_reads [OF cpu] sat_reads [OF available_has [OF le]])
       (auto simp: n assms(1) split: option.splits)
qed

lemma cpu_prop_sat:
  assumes "fdt_ok d" "cpu_ok d s" "cstack s \<noteq> []" "prop_at d (cposition s) len v next_pos name n"
  shows "sat (cpu_prop (fblob d) (fstructure d) (fstrings d) s) (\<lambda>s'. cpu_ok d s' \<and> length (cstack s') = length (cstack s) \<and> cposition s' = next_pos)"
proof -
  obtain off where off: "read_size (fblob d) (fstructure d + cposition s) = Some len"
    "read_size (fblob d) (fstructure d + cposition s + 4) = Some off" "name = fstrings d + off" "v = fstructure d + cposition s + 8"
    "next_pos = cposition s + 8 + (len + 3) div 4 * 4" "next_pos \<le> fstructure_size d" "cstring_at (fblob d) name n" "value_ok d v len"
    using assms(4) by (auto simp: prop_at_def)
  have z: "zero_offset (fblob d) (fstrings d + off) = Some n" using zero_offset_string [OF off(7)] off(3) by simp
  have le: "fstrings d + off + n \<le> length (fblob d)" using off(3,7) by (simp add: cstring_at_def)
  have bound: "cposition s + (8 + (len + 3) div 4 * 4) < 2 ^ 32" using off(5,6) assms(1) by (auto simp: fdt_ok_def)
  moreover have "len + 3 < 2 ^ 32" using bound by linarith
  ultimately have pos: "add32 (cposition s) (8 + align4 (len + 3)) = next_pos" using off(5) by (simp add: align4_small add32_small)
  have l: "cnode_ok d (last (cstack s))" using assms(2,3) by (simp add: cpu_ok_def)
  define ns where "ns = [''#address-cells'', ''status''] @ (if length (cstack s) = 3 \<and> ccpus (cstack s ! 1) then [''device_type''] else []) @ [''reg'']"
  show ?thesis unfolding cpu_prop_def Let_def ns_def [symmetric]
  proof (rule sat_reads [of _ "\<lambda>x. x = len"], simp add: off, simp only:, rule sat_reads [of _ "\<lambda>x. x = off"], simp add: off,
      simp only:, rule sat_reads [of _ "\<lambda>x. x = n"], simp add: z, simp only:)
    show "sat (if length (cstack s) = 0 then None
            else andthen (reads (match_name (fblob d) (fstrings d + off) n ns)) (\<lambda>which.
              andthen (cpu_value (fblob d) which len (fstructure d + cposition s + 8)
                  (length (cstack s) = 1 \<or> cenabled (cstack s ! (length (cstack s) - 2))) (last (cstack s))) (\<lambda>(node, b).
                if b \<noteq> 0 \<and> cseen node AND b \<noteq> 0 then fails DTB_INVALID
                else gives (s\<lparr>cposition := add32 (cposition s) (8 + align4 (len + 3)),
                       cstack := butlast (cstack s) @ [node\<lparr>cseen := cseen node OR b\<rparr>]\<rparr>))))
       (\<lambda>s'. cpu_ok d s' \<and> length (cstack s') = length (cstack s) \<and> cposition s' = next_pos)"
    proof (rule sat_if)
      show "sat (andthen (reads (match_name (fblob d) (fstrings d + off) n ns)) (\<lambda>which.
              andthen (cpu_value (fblob d) which len (fstructure d + cposition s + 8)
                  (length (cstack s) = 1 \<or> cenabled (cstack s ! (length (cstack s) - 2))) (last (cstack s))) (\<lambda>(node, b).
                if b \<noteq> 0 \<and> cseen node AND b \<noteq> 0 then fails DTB_INVALID
                else gives (s\<lparr>cposition := add32 (cposition s) (8 + align4 (len + 3)),
                       cstack := butlast (cstack s) @ [node\<lparr>cseen := cseen node OR b\<rparr>]\<rparr>))))
         (\<lambda>s'. cpu_ok d s' \<and> length (cstack s') = length (cstack s) \<and> cposition s' = next_pos)"
        unfolding off(4) [symmetric] pos
        by (rule sat_reads [OF match_name_has [OF le]], rule sat_andthen [OF cpu_value_sat [OF l off(8)]], clarify, rule sat_if, simp)
           (use assms(2,3) in \<open>auto simp: cpu_ok_def cnode_ok_def dest: in_set_butlastD\<close>)
    qed (use assms(3) in simp)
  qed
qed

lemma cpu_end_sat:
  assumes "cpu_ok d s" "cstack s \<noteq> []"
  shows "sat (cpu_end (fblob d) s) (\<lambda>s'. cpu_ok d s' \<and> length (cstack s) = Suc (length (cstack s')) \<and> cposition s' = cposition s)"
proof -
  let ?n = "last (cstack s)" and ?ac = "caddress_cells (cstack s ! 1)"
  have n: "cnode_ok d ?n" using assms by (simp add: cpu_ok_def)
  have b: "\<forall>x \<in> set (butlast (cstack s)). cnode_ok d x" using assms(1) by (auto simp: cpu_ok_def dest: in_set_butlastD)
  show ?thesis unfolding cpu_end_def Let_def
  proof (intro sat_if)
    assume a: "\<not> (\<not> ccpu ?n \<or> creg ?n = 0 \<or> ?ac = 0 \<or> 2 < ?ac \<or> creg_length ?n \<noteq> ?ac * 4)"
    have le: "creg ?n + ?ac * 4 \<le> length (fblob d)" using n a by (auto simp: cnode_ok_def value_ok_def)
    show "sat (andthen (reads (read_cells (fblob d) (creg ?n) ?ac)) (\<lambda>hart.
                if hart \<in> set (charts s) then fails DTB_INVALID
                else if length (charts s) = 4 then fails DTB_UNSUPPORTED
                else gives (s\<lparr>charts := charts s @ [hart], cstack := butlast (cstack s)\<rparr>)))
        (\<lambda>s'. cpu_ok d s' \<and> length (cstack s) = Suc (length (cstack s')) \<and> cposition s' = cposition s)"
      by (rule sat_reads [OF read_cells_has [OF le]], intro sat_if) (use assms b in \<open>auto simp: cpu_ok_def cpus_ok_def\<close>)
  qed (use assms b in \<open>auto simp: cpu_ok_def\<close>)
qed

lemma cpu_loop_sat:
  assumes "fdt_ok d" "walk d pos k" "cpu_ok d s" "cposition s = pos" "length (cstack s) = k"
  shows "sat (cpu_loop (fblob d) (fstructure d) (fstrings d) s) cpus_ok"
  using assms(2-5)
proof (induction arbitrary: s rule: walk.induct)
  case (walk_end pos)
  then show ?case by (subst cpu_loop.simps) (simp add: andthen_def reads_def cpu_ok_def Let_def)
next
  case (walk_nop pos k)
  have ad: "add32 pos 4 = pos + 4" by (rule add32_small) (use walk_nop.hyps(2) assms(1) in \<open>auto simp: fdt_ok_def\<close>)
  have "sat (cpu_loop (fblob d) (fstructure d) (fstrings d) (s\<lparr>cposition := pos + 4\<rparr>)) cpus_ok"
    by (rule walk_nop.IH) (use walk_nop.prems in \<open>auto simp: cpu_ok_def\<close>)
  then show ?case using walk_nop.hyps walk_nop.prems ad by (subst cpu_loop.simps) (simp add: andthen_def reads_def Let_def)
next
  case (walk_begin pos k n next_pos)
  have bd: "pos + 4 + n + 4 < 2 ^ 32"
    using walk_begin.hyps(5,6) walk_begin.hyps(4) assms(1) by (auto simp: fdt_ok_def)
  have ad: "add32 pos 4 = pos + 4" by (rule add32_small) (use bd in linarith)
  let ?s = "s\<lparr>cposition := pos + 4\<rparr>"
  have s: "cpu_ok d ?s" "cstring_at (fblob d) (fstructure d + cposition ?s) n" "cposition ?s + n + 4 < 2 ^ 32"
    using walk_begin.prems walk_begin.hyps(3) bd by (simp_all add: cpu_ok_def add.assoc)
  have "sat (andthen (cpu_begin (fblob d) (fstructure d) ?s) (cpu_loop (fblob d) (fstructure d) (fstrings d))) cpus_ok"
    by (rule sat_andthen [OF cpu_begin_sat [OF s]], rule walk_begin.IH) (use walk_begin.prems walk_begin.hyps(5) in auto)
  then show ?case using walk_begin.hyps walk_begin.prems ad by (subst cpu_loop.simps) (simp add: andthen_def reads_def Let_def)
next
  case (walk_prop pos k len v next_pos name n)
  have "pos + 4 < fstructure_size d" using walk_prop.hyps(3) by (auto simp: prop_at_def)
  then have ad: "add32 pos 4 = pos + 4" by (intro add32_small) (use assms(1) in \<open>auto simp: fdt_ok_def\<close>)
  let ?s = "s\<lparr>cposition := pos + 4\<rparr>"
  have s: "cpu_ok d ?s" "cstack ?s \<noteq> []" "prop_at d (cposition ?s) len v next_pos name n"
    using walk_prop.prems walk_prop.hyps(2,3) by (auto simp: cpu_ok_def)
  have "sat (andthen (cpu_prop (fblob d) (fstructure d) (fstrings d) ?s) (cpu_loop (fblob d) (fstructure d) (fstrings d))) cpus_ok"
    by (rule sat_andthen [OF cpu_prop_sat [OF assms(1) s]], rule walk_prop.IH) (use walk_prop.prems in auto)
  then show ?case using walk_prop.hyps walk_prop.prems ad by (subst cpu_loop.simps) (simp add: andthen_def reads_def Let_def)
next
  case (walk_close pos k)
  have ad: "add32 pos 4 = pos + 4" by (rule add32_small) (use walk_close.hyps(2) assms(1) in \<open>auto simp: fdt_ok_def\<close>)
  let ?s = "s\<lparr>cposition := pos + 4\<rparr>"
  have s: "cpu_ok d ?s" "cstack ?s \<noteq> []" using walk_close.prems by (auto simp: cpu_ok_def)
  have "sat (andthen (cpu_end (fblob d) ?s) (cpu_loop (fblob d) (fstructure d) (fstrings d))) cpus_ok"
    by (rule sat_andthen [OF cpu_end_sat [OF s]], rule walk_close.IH) (use walk_close.prems in auto)
  then show ?case using walk_close.hyps walk_close.prems ad by (subst cpu_loop.simps) (simp add: andthen_def reads_def Let_def)
qed

end
