(* ===== verification/Dtb_Irq_Safe.thy ===== *)
theory Dtb_Irq_Safe
  imports Dtb_Irq Dtb_Cpu_Safe
begin

text \<open>The interrupt passes over a blob that the boot pass accepted: they stay inside the blob, end, and find routes with valid sources.\<close>

definition inode_ok :: "fdt \<Rightarrow> irq_node \<Rightarrow> bool" where
  "inode_ok d n \<longleftrightarrow> \<not> nreg_seen (ibus n) \<and> (nranges_seen (ibus n) \<longrightarrow> value_ok d (nranges (ibus n)) (nranges_length (ibus n))) \<and>
     (nreg_length (ibus n) \<noteq> 0 \<longrightarrow> value_ok d (nreg (ibus n)) (nreg_length (ibus n))) \<and>
     (iextended_length n \<noteq> 0 \<longrightarrow> value_ok d (iextended n) (iextended_length n))"

definition source_ok :: "dtb_irq_info \<Rightarrow> nat \<Rightarrow> bool" where
  "source_ok q src \<longleftrightarrow> 0 < src \<and> src \<le> qsource_count q"

definition routes_ok :: "dtb_irq_info \<Rightarrow> bool" where
  "routes_ok q \<longleftrightarrow> length (qroutes q) \<le> 16 \<and> (\<forall>(a, src) \<in> set (qroutes q). source_ok q src) \<and>
     (rsize (uregisters (quart q)) \<noteq> 0 \<longrightarrow> source_ok q (usource (quart q)) \<and>
       (\<forall>mapping. mapping AND 3 = rbase (uregisters (quart q)) AND 3 \<longrightarrow> \<not> ns16550_refuses (quart q) mapping))"

definition irq_ok :: "fdt \<Rightarrow> bool \<Rightarrow> irq_scan \<Rightarrow> bool" where
  "irq_ok d second s \<longleftrightarrow> (\<forall>n \<in> set (istack s). inode_ok d n) \<and> routes_ok (iout s) \<and>
     (\<not> second \<longrightarrow> qroutes (iout s) = [] \<and> rsize (uregisters (quart (iout s))) = 0)"

lemma irq_begin_sat:
  assumes "irq_ok d second s" "length (istack s) < 16" "cstring_at (fblob d) (fstructure d + iposition s) n" "iposition s + n + 4 < 2 ^ 32"
  shows "sat (irq_begin (fblob d) (fstructure d) s) (\<lambda>s'. irq_ok d second s' \<and> length (istack s') = Suc (length (istack s)) \<and>
    iposition s' = (iposition s + n + 4) div 4 * 4)"
  unfolding irq_begin_def
  by (rule sat_reads [of _ "\<lambda>k. k = n"])
     (use zero_offset_string [OF assms(3)] assms(1,2) align4_small [OF assms(4)] in \<open>auto simp: irq_ok_def inode_ok_def empty_bus_def Let_def\<close>)

section \<open>Properties\<close>

lemma irq_layout_sat:
  assumes "inode_ok d n" "value_ok d v len"
  shows "sat (irq_layout (fblob d) w len v n) (inode_ok d)"
proof -
  have size: "has (read_size (fblob d) v) (\<lambda>_. True)" if "len = 4" using size_has [of v "fblob d"] assms(2) that by (auto simp: has_def value_ok_def)
  show ?thesis unfolding irq_layout_def Let_def
    by (intro sat_if sat_reads [OF size]) (use assms(1) in \<open>auto simp: inode_ok_def\<close>)
qed

lemma irq_compatible_sat:
  assumes "inode_ok d n" "value_ok d v len"
  shows "sat (irq_compatible (fblob d) len v n) (inode_ok d)"
proof -
  have le: "v + len \<le> length (fblob d)" using assms(2) by (simp add: value_ok_def)
  have c: "sat (andthen (reads (string_list_contains (fblob d) v len e)) (\<lambda>c. case c of None \<Rightarrow> fails DTB_INVALID | Some c \<Rightarrow> gives c)) (\<lambda>_. True)" for e
    by (rule sat_reads [OF contains_has [OF le]]) (auto split: option.splits)
  show ?thesis unfolding irq_compatible_def Let_def
    by (intro sat_andthen [OF c]) (use assms(1) in \<open>simp add: inode_ok_def\<close>)
qed

lemma irq_cell_sat:
  assumes "inode_ok d n" "value_ok d v len"
  shows "sat (irq_cell (fblob d) w len v n) (inode_ok d)"
proof -
  have size: "has (read_size (fblob d) v) (\<lambda>_. True)" if "len = 4" using size_has [of v "fblob d"] assms(2) that by (auto simp: has_def value_ok_def)
  show ?thesis unfolding irq_cell_def
    by (intro sat_if sat_reads [OF size]) (use assms(1) in \<open>auto simp: inode_ok_def\<close>)
qed

lemma irq_value_sat:
  assumes "inode_ok d n" "value_ok d v len" "which = Some ''#address-cells'' \<or> which = Some ''#size-cells'' \<Longrightarrow> len = 4"
  shows "sat (irq_value (fblob d) which len v b n) (inode_ok d)"
proof (cases which)
  case None
  then show ?thesis using assms(1) by (simp add: irq_value_def)
next
  case (Some w)
  have le: "v + len \<le> length (fblob d)" "len < 2 ^ 32" using assms(2) by (simp_all add: value_ok_def)
  have size: "has (read_size (fblob d) v) (\<lambda>_. True)" if "w = ''#address-cells'' \<or> w = ''#size-cells''"
    using size_has [of v "fblob d"] le(1) assms(3) that Some by (auto simp: has_def)
  have sizes: "w = ''#address-cells'' \<Longrightarrow> has (read_size (fblob d) v) (\<lambda>_. True)" "w = ''#size-cells'' \<Longrightarrow> has (read_size (fblob d) v) (\<lambda>_. True)"
    using size by blast+
  have cpu: "has (if len = 4 then bytes_equal_string (fblob d) v 3 ''cpu'' else Some False) (\<lambda>_. True)"
    using equal_string_has [of v 3 "fblob d" "''cpu''"] le(1) by auto
  have upd: "inode_ok d (n\<lparr>ibus := (ibus n)\<lparr>nchild_address_cells := c\<rparr>\<rparr>)" "inode_ok d (n\<lparr>ibus := (ibus n)\<lparr>nchild_size_cells := c\<rparr>\<rparr>)"
    "inode_ok d (n\<lparr>ibig_endian := x\<rparr>)" "inode_ok d (n\<lparr>icpu := x\<rparr>)" "inode_ok d (n\<lparr>ibus := (ibus n)\<lparr>nenabled := x\<rparr>\<rparr>)"
    "inode_ok d (n\<lparr>ibus := (ibus n)\<lparr>nranges_seen := True, nranges := v, nranges_length := len\<rparr>\<rparr>)"
    "inode_ok d (n\<lparr>ibus := (ibus n)\<lparr>nreg := v, nreg_length := len\<rparr>\<rparr>)" "inode_ok d (n\<lparr>iextended := v, iextended_length := len\<rparr>)" for c x
    using assms(1,2) by (simp_all add: inode_ok_def)
  have st: "sat (andthen (reads (status_is_available (fblob d) v len)) (\<lambda>a.
              case a of None \<Rightarrow> fails DTB_INVALID | Some a \<Rightarrow> gives (n\<lparr>ibus := (ibus n)\<lparr>nenabled := a \<and> b\<rparr>\<rparr>))) (inode_ok d)"
    by (rule sat_reads [OF available_has [OF le]]) (auto simp: upd split: option.splits)
  show ?thesis unfolding irq_value_def Some option.case
    by (intro sat_if st sat_reads [OF sizes(1)] sat_reads [OF sizes(2)] sat_reads [OF cpu] irq_layout_sat [OF assms(1,2)] irq_compatible_sat [OF assms(1,2)]
        irq_cell_sat [OF assms(1,2)]) (simp_all add: upd)
qed

lemma match_name_equal:
  "match_name blob a k ss = Some (Some x) \<Longrightarrow> bytes_equal_string blob a k x = Some True"
  by (induction ss) (auto simp: bind_eq_Some_conv split: if_splits)

lemma irq_prop_sat:
  assumes "fdt_ok d" "irq_ok d second s" "istack s \<noteq> []" "prop_at d (iposition s) len v next_pos name n"
    "bytes_equal_string (fblob d) name n ''#address-cells'' = Some True \<or> bytes_equal_string (fblob d) name n ''#size-cells'' = Some True \<longrightarrow> len = 4"
  shows "sat (irq_prop (fblob d) (fstructure d) (fstrings d) s) (\<lambda>s'. irq_ok d second s' \<and> length (istack s') = length (istack s) \<and> iposition s' = next_pos)"
proof -
  obtain off where off: "read_size (fblob d) (fstructure d + iposition s) = Some len"
    "read_size (fblob d) (fstructure d + iposition s + 4) = Some off" "name = fstrings d + off" "v = fstructure d + iposition s + 8"
    "next_pos = iposition s + 8 + (len + 3) div 4 * 4" "next_pos \<le> fstructure_size d" "cstring_at (fblob d) name n" "value_ok d v len"
    using assms(4) by (auto simp: prop_at_def)
  have z: "zero_offset (fblob d) (fstrings d + off) = Some n" using zero_offset_string [OF off(7)] off(3) by simp
  have le: "fstrings d + off + n \<le> length (fblob d)" using off(3,7) by (simp add: cstring_at_def)
  have bound: "iposition s + (8 + (len + 3) div 4 * 4) < 2 ^ 32" using off(5,6) assms(1) by (auto simp: fdt_ok_def)
  moreover have "len + 3 < 2 ^ 32" using bound by linarith
  ultimately have pos: "add32 (iposition s) (8 + align4 (len + 3)) = next_pos" using off(5) by (simp add: align4_small add32_small)
  have l: "inode_ok d (last (istack s))" using assms(2,3) by (simp add: irq_ok_def)
  obtain which where w: "match_name (fblob d) (fstrings d + off) n irq_names = Some which" using match_name_has [OF le] unfolding has_def by blast
  have len4: "len = 4" if "which = Some ''#address-cells'' \<or> which = Some ''#size-cells''"
    using that w match_name_equal assms(5) off(3) by metis
  show ?thesis unfolding irq_prop_def Let_def
  proof (rule sat_reads [of _ "\<lambda>x. x = len"], simp add: off, simp only:, rule sat_reads [of _ "\<lambda>x. x = off"], simp add: off,
      simp only:, rule sat_reads [of _ "\<lambda>x. x = n"], simp add: z, simp only:, rule sat_if)
    show "sat (andthen (reads (match_name (fblob d) (fstrings d + off) n irq_names)) (\<lambda>which.
              andthen (irq_value (fblob d) which len (fstructure d + iposition s + 8)
                  (length (istack s) = 1 \<or> nenabled (ibus (istack s ! (length (istack s) - 2)))) (last (istack s))) (\<lambda>node.
                gives (s\<lparr>iposition := add32 (iposition s) (8 + align4 (len + 3)), istack := butlast (istack s) @ [node]\<rparr>))))
         (\<lambda>s'. irq_ok d second s' \<and> length (istack s') = length (istack s) \<and> iposition s' = next_pos)"
      unfolding off(4) [symmetric] pos
      by (rule sat_reads [of _ "\<lambda>x. x = which"], simp only: w has_Some, simp only:, rule sat_andthen [OF irq_value_sat [OF l off(8) len4]], assumption)
         (use assms(2,3) in \<open>auto simp: irq_ok_def dest: in_set_butlastD\<close>)
  qed (use assms(3) in simp)
qed

section \<open>Nodes\<close>

lemma irq_end_cpu_sat:
  assumes "irq_ok d second s" "istack s \<noteq> []"
  shows "sat (irq_end_cpu (fblob d) hart second s) (\<lambda>s'. irq_ok d second s' \<and> istack s' = istack s \<and> iposition s' = iposition s)"
proof (cases "3 \<le> length (istack s)")
  case False
  then show ?thesis using assms(1) by (simp add: irq_end_cpu_def)
next
  case True
  let ?c = "ibus (istack s ! (length (istack s) - 2))" and ?ac = "nchild_address_cells (ibus (istack s ! (length (istack s) - 3)))"
  have n: "inode_ok d (istack s ! (length (istack s) - 2))" using assms(1) True by (simp add: irq_ok_def)
  have le: "nreg ?c + ?ac * 4 \<le> length (fblob d)" if "\<not> (?ac = 0 \<or> 2 < ?ac \<or> nreg_length ?c \<noteq> 4 * ?ac \<or> x)" for x
    using n that by (auto simp: inode_ok_def value_ok_def)
  show ?thesis unfolding irq_end_cpu_def Let_def
    by (intro sat_if sat_reads [OF read_cells_has [OF le]]) (use assms(1) in \<open>auto simp: irq_ok_def\<close>)
qed

lemma context_loop_sat:
  assumes "v + 8 * (i + left) \<le> length (fblob d)" "irq_ok d True s"
  shows "sat (context_loop (fblob d) v i left s) (\<lambda>s'. irq_ok d True s' \<and> istack s' = istack s \<and> iposition s' = iposition s)"
  using assms
proof (induction left arbitrary: i s)
  case (Suc left)
  have le: "v + 8 * i + 4 \<le> length (fblob d)" "v + 8 * i + 4 + 4 \<le> length (fblob d)" "v + 8 * (i + 1 + left) \<le> length (fblob d)" using Suc.prems(1) by simp_all
  have second: "has (if b then map_option (\<lambda>x. x = 9) (read_size (fblob d) (v + 8 * i + 4)) else Some False) (\<lambda>_. True)" for b
    using size_has [OF le(2)] by (auto simp: has_def)
  show ?case unfolding context_loop.simps
  proof (rule sat_reads [OF size_has [OF le(1)]], rule sat_reads [OF second], rule sat_if, simp)
    fix hit
    let ?s = "if hit then s\<lparr>iout := (iout s)\<lparr>qcontext := i\<rparr>, icontext_found := True\<rparr> else s"
    have "irq_ok d True ?s" using Suc.prems(2) by (auto simp: irq_ok_def routes_ok_def source_ok_def)
    then have "sat (context_loop (fblob d) v (i + 1) left ?s) (\<lambda>s'. irq_ok d True s' \<and> istack s' = istack ?s \<and> iposition s' = iposition ?s)"
      by (rule Suc.IH [OF le(3)])
    then show "sat (context_loop (fblob d) v (i + 1) left ?s) (\<lambda>s'. irq_ok d True s' \<and> istack s' = istack s \<and> iposition s' = iposition s)"
      by (rule sat_mono) (auto split: if_splits)
  qed
qed simp

lemma irq_plic_sat:
  assumes "irq_ok d second s" "inode_ok d n"
  shows "sat (irq_plic (fblob d) second n address sz s) (\<lambda>s'. irq_ok d second s' \<and> istack s' = istack s \<and> iposition s' = iposition s)"
proof (cases second)
  case True
  have "iextended n + 8 * (0 + iextended_length n div 8) \<le> length (fblob d) \<or> iextended_length n = 0"
    using assms(2) times_div_less_eq_dividend [of 8 "iextended_length n"] by (auto simp: inode_ok_def value_ok_def)
  then show ?thesis using context_loop_sat [of "iextended n" 0 "iextended_length n div 8" d s] assms(1) True by (auto simp: irq_plic_def)
next
  case False
  then show ?thesis using assms(1) by (auto simp: irq_plic_def irq_ok_def routes_ok_def)
qed

lemma irq_device_sat:
  assumes "irq_ok d True s"
  shows "sat (irq_device n address sz s) (\<lambda>s'. irq_ok d True s' \<and> istack s' = istack s \<and> iposition s' = iposition s)"
  unfolding irq_device_def
  by (intro sat_if) (use assms in \<open>auto simp: irq_ok_def routes_ok_def source_ok_def ns16550_refuses_def not_less\<close>)

lemma irq_end_device_sat:
  assumes "irq_ok d second s" "istack s \<noteq> []"
  shows "sat (irq_end_device (fblob d) second s) (\<lambda>s'. irq_ok d second s' \<and> istack s' = istack s \<and> iposition s' = iposition s)"
proof -
  let ?n = "last (istack s)" and ?p = "ibus (istack s ! (length (istack s) - 2))"
  let ?P = "\<lambda>s'. irq_ok d second s' \<and> istack s' = istack s \<and> iposition s' = iposition s"
  have n: "inode_ok d ?n" using assms by (simp add: irq_ok_def)
  have nodes: "\<forall>b \<in> set (map ibus (istack s)). node_ok d b" using assms(1) by (auto simp: irq_ok_def inode_ok_def node_ok_def)
  have b: "length (istack s) - 2 < length (map ibus (istack s))" using assms(2) by (cases "istack s") auto
  have le: "nreg (ibus ?n) + nchild_address_cells ?p * 4 \<le> length (fblob d)"
    "nreg (ibus ?n) + 4 * nchild_address_cells ?p + nchild_size_cells ?p * 4 \<le> length (fblob d)"
    if "\<not> (nchild_address_cells ?p = 0 \<or> 2 < nchild_address_cells ?p \<or> nchild_size_cells ?p = 0 \<or> 2 < nchild_size_cells ?p \<or>
       nreg_length (ibus ?n) \<noteq> 4 * (nchild_address_cells ?p + nchild_size_cells ?p))"
    using n that by (auto simp: inode_ok_def value_ok_def)
  have last: "sat (if iplic ?n then irq_plic (fblob d) second ?n address sz s else if second then irq_device ?n address sz s else gives s) ?P" for address sz
    using irq_plic_sat [OF assms(1) n] irq_device_sat [of d s] assms(1) by (cases second) auto
  show ?thesis unfolding irq_end_device_def Let_def
  proof (intro sat_if)
    assume a: "\<not> (nchild_address_cells ?p = 0 \<or> 2 < nchild_address_cells ?p \<or> nchild_size_cells ?p = 0 \<or> 2 < nchild_size_cells ?p \<or>
       nreg_length (ibus ?n) \<noteq> 4 * (nchild_address_cells ?p + nchild_size_cells ?p))"
    show "sat (andthen (reads (read_cells (fblob d) (nreg (ibus ?n)) (nchild_address_cells ?p))) (\<lambda>a.
        andthen (reads (read_cells (fblob d) (nreg (ibus ?n) + 4 * nchild_address_cells ?p) (nchild_size_cells ?p))) (\<lambda>sz.
          if sz = 0 \<or> - 1 - sz < a then fails DTB_INVALID
          else andthen (bus_loop (fblob d) (map ibus (istack s)) (length (istack s) - 2) a sz) (\<lambda>address.
            if iplic ?n then irq_plic (fblob d) second ?n address sz s
            else if second then irq_device ?n address sz s else gives s)))) ?P"
      by (rule sat_reads [OF read_cells_has [OF le(1) [OF a]]], rule sat_reads [OF read_cells_has [OF le(2) [OF a]]], rule sat_if, simp,
          rule sat_andthen [OF bus_loop_sat [OF nodes b]], rule last)
  qed (use assms(1) in simp_all)
qed

lemma irq_end_sat:
  assumes "irq_ok d second s" "istack s \<noteq> []"
  shows "sat (irq_end (fblob d) hart second s) (\<lambda>s'. irq_ok d second s' \<and> length (istack s) = Suc (length (istack s')) \<and> iposition s' = iposition s)"
  unfolding irq_end_def
proof (rule sat_if, use assms(2) in simp)
  show "sat (andthen (irq_end_cpu (fblob d) hart second s) (\<lambda>s1.
        andthen (irq_end_device (fblob d) second s1) (\<lambda>s2. gives (s2\<lparr>istack := butlast (istack s2)\<rparr>))))
      (\<lambda>s'. irq_ok d second s' \<and> length (istack s) = Suc (length (istack s')) \<and> iposition s' = iposition s)"
  proof (rule sat_andthen [OF irq_end_cpu_sat [OF assms]], elim conjE)
    fix s1 assume h: "irq_ok d second s1" "istack s1 = istack s" "iposition s1 = iposition s"
    have ne: "istack s1 \<noteq> []" using assms(2) h(2) by simp
    show "sat (andthen (irq_end_device (fblob d) second s1) (\<lambda>s2. gives (s2\<lparr>istack := butlast (istack s2)\<rparr>)))
      (\<lambda>s'. irq_ok d second s' \<and> length (istack s) = Suc (length (istack s')) \<and> iposition s' = iposition s)"
      by (rule sat_andthen [OF irq_end_device_sat [OF h(1) ne]]) (use h assms(2) in \<open>auto simp: irq_ok_def dest: in_set_butlastD\<close>)
  qed
qed

section \<open>The passes\<close>

lemma irq_loop_sat:
  assumes "fdt_ok d" "walk d pos k" "irq_ok d second s" "iposition s = pos" "length (istack s) = k"
  shows "sat (irq_loop (fblob d) (fstructure d) (fstrings d) hart second s) (irq_ok d second)"
  using assms(2-5)
proof (induction arbitrary: s rule: walk.induct)
  case (walk_end pos)
  then show ?case by (subst irq_loop.simps) (simp add: andthen_def reads_def irq_ok_def Let_def)
next
  case (walk_nop pos k)
  have ad: "add32 pos 4 = pos + 4" by (rule add32_small) (use walk_nop.hyps(2) assms(1) in \<open>auto simp: fdt_ok_def\<close>)
  have "sat (irq_loop (fblob d) (fstructure d) (fstrings d) hart second (s\<lparr>iposition := pos + 4\<rparr>)) (irq_ok d second)"
    by (rule walk_nop.IH) (use walk_nop.prems in \<open>auto simp: irq_ok_def\<close>)
  then show ?case using walk_nop.hyps walk_nop.prems ad by (subst irq_loop.simps) (simp add: andthen_def reads_def Let_def)
next
  case (walk_begin pos k n next_pos)
  have bd: "pos + 4 + n + 4 < 2 ^ 32"
    using walk_begin.hyps(5,6) walk_begin.hyps(4) assms(1) by (auto simp: fdt_ok_def)
  have ad: "add32 pos 4 = pos + 4" by (rule add32_small) (use bd in linarith)
  let ?s = "s\<lparr>iposition := pos + 4\<rparr>"
  have s: "irq_ok d second ?s" "length (istack ?s) < 16" "cstring_at (fblob d) (fstructure d + iposition ?s) n" "iposition ?s + n + 4 < 2 ^ 32"
    using walk_begin.prems walk_begin.hyps(2,3) bd by (simp_all add: irq_ok_def add.assoc)
  have "sat (andthen (irq_begin (fblob d) (fstructure d) ?s) (irq_loop (fblob d) (fstructure d) (fstrings d) hart second)) (irq_ok d second)"
    by (rule sat_andthen [OF irq_begin_sat [OF s]], rule walk_begin.IH) (use walk_begin.prems walk_begin.hyps(5) in auto)
  then show ?case using walk_begin.hyps walk_begin.prems ad by (subst irq_loop.simps) (simp add: andthen_def reads_def Let_def)
next
  case (walk_prop pos k len v next_pos name n)
  have "pos + 4 < fstructure_size d" using walk_prop.hyps(3) by (auto simp: prop_at_def)
  then have ad: "add32 pos 4 = pos + 4" by (intro add32_small) (use assms(1) in \<open>auto simp: fdt_ok_def\<close>)
  let ?s = "s\<lparr>iposition := pos + 4\<rparr>"
  have s: "irq_ok d second ?s" "istack ?s \<noteq> []" "prop_at d (iposition ?s) len v next_pos name n"
    using walk_prop.prems walk_prop.hyps(2,3) by (auto simp: irq_ok_def)
  have "sat (andthen (irq_prop (fblob d) (fstructure d) (fstrings d) ?s) (irq_loop (fblob d) (fstructure d) (fstrings d) hart second)) (irq_ok d second)"
    by (rule sat_andthen [OF irq_prop_sat [OF assms(1) s walk_prop.hyps(4)]], rule walk_prop.IH) (use walk_prop.prems in auto)
  then show ?case using walk_prop.hyps walk_prop.prems ad by (subst irq_loop.simps) (simp add: andthen_def reads_def Let_def)
next
  case (walk_close pos k)
  have ad: "add32 pos 4 = pos + 4" by (rule add32_small) (use walk_close.hyps(2) assms(1) in \<open>auto simp: fdt_ok_def\<close>)
  let ?s = "s\<lparr>iposition := pos + 4\<rparr>"
  have s: "irq_ok d second ?s" "istack ?s \<noteq> []" using walk_close.prems by (auto simp: irq_ok_def)
  have "sat (andthen (irq_end (fblob d) hart second ?s) (irq_loop (fblob d) (fstructure d) (fstrings d) hart second)) (irq_ok d second)"
    by (rule sat_andthen [OF irq_end_sat [OF s]], rule walk_close.IH) (use walk_close.prems in auto)
  then show ?case using walk_close.hyps walk_close.prems ad by (subst irq_loop.simps) (simp add: andthen_def reads_def Let_def)
qed

lemma irq_discover_sat:
  assumes "fdt_ok d" "walk d 0 0" "read_size (fblob d) 8 = Some (fstructure d)" "read_size (fblob d) 12 = Some (fstrings d)"
  shows "sat (irq_discover (fblob d) hart) routes_ok"
proof -
  have pass: "sat (irq_pass (fblob d) (fstructure d) (fstrings d) hart second s) (irq_ok d second)" if "irq_ok d second s" for second s
    unfolding irq_pass_def
    by (rule sat_andthen [OF irq_loop_sat [OF assms(1,2)]]) (use that in \<open>auto simp: irq_ok_def\<close>)
  have start: "irq_ok d False \<lparr>iposition = 0, istack = [], icpu_intc = 0, iplic_phandle = 0, icontext_found = False, iout = empty_irq\<rparr>"
    by (simp add: irq_ok_def routes_ok_def empty_irq_def)
  have second: "irq_ok d True s" if "irq_ok d False s" for s using that by (simp add: irq_ok_def)
  show ?thesis unfolding irq_discover_def
    by (rule sat_reads [of _ "\<lambda>x. x = fstructure d"], simp add: assms(3), simp only:, rule sat_reads [of _ "\<lambda>x. x = fstrings d"], simp add: assms(4),
        simp only:, rule sat_andthen [OF pass [OF start]], rule sat_andthen [OF pass [OF second]], assumption)
       (simp add: irq_ok_def)
qed

end
