(* ===== verification/Dtb_Sample.thy ===== *)
theory Dtb_Sample
  imports Dtb_Irq Dtb_Cpu_Safe
begin

text \<open>
  A concrete device tree and what the three passes read from it, by evaluation: memory of 1 MiB at 2 GiB, two processors of which number 1 comes first,
  a serial port, a virtio device and the platform interrupt controller, which follows its consumers.
\<close>

definition sample_blob :: "u8 list" where
  "sample_blob = [
    208, 13, 254, 237, 0, 0, 3, 34, 0, 0, 0, 56, 0, 0, 2, 148, 0, 0, 0, 40, 0, 0, 0, 17, 0, 0, 0, 16, 0, 0, 0, 0,
    0, 0, 0, 142, 0, 0, 2, 92, 0, 0, 0, 0, 0, 0, 0, 0, 0, 0, 0, 0, 0, 0, 0, 0, 0, 0, 0, 1, 0, 0, 0, 0,
    0, 0, 0, 1, 109, 101, 109, 111, 114, 121, 0, 0, 0, 0, 0, 3, 0, 0, 0, 7, 0, 0, 0, 0, 109, 101, 109, 111, 114, 121, 0, 0,
    0, 0, 0, 3, 0, 0, 0, 12, 0, 0, 0, 12, 0, 0, 0, 0, 128, 0, 0, 0, 0, 16, 0, 0, 0, 0, 0, 2, 0, 0, 0, 1,
    99, 112, 117, 115, 0, 0, 0, 0, 0, 0, 0, 3, 0, 0, 0, 4, 0, 0, 0, 52, 0, 0, 0, 1, 0, 0, 0, 1, 100, 0, 0, 0,
    0, 0, 0, 3, 0, 0, 0, 4, 0, 0, 0, 0, 99, 112, 117, 0, 0, 0, 0, 3, 0, 0, 0, 4, 0, 0, 0, 12, 0, 0, 0, 1,
    0, 0, 0, 2, 0, 0, 0, 1, 99, 0, 0, 0, 0, 0, 0, 3, 0, 0, 0, 4, 0, 0, 0, 0, 99, 112, 117, 0, 0, 0, 0, 3,
    0, 0, 0, 4, 0, 0, 0, 12, 0, 0, 0, 0, 0, 0, 0, 1, 105, 0, 0, 0, 0, 0, 0, 3, 0, 0, 0, 15, 0, 0, 0, 16,
    114, 105, 115, 99, 118, 44, 99, 112, 117, 45, 105, 110, 116, 99, 0, 0, 0, 0, 0, 3, 0, 0, 0, 4, 0, 0, 0, 27, 0, 0, 0, 1,
    0, 0, 0, 3, 0, 0, 0, 4, 0, 0, 0, 35, 0, 0, 0, 1, 0, 0, 0, 2, 0, 0, 0, 2, 0, 0, 0, 2, 0, 0, 0, 1,
    117, 0, 0, 0, 0, 0, 0, 3, 0, 0, 0, 9, 0, 0, 0, 16, 110, 115, 49, 54, 53, 53, 48, 97, 0, 0, 0, 0, 0, 0, 0, 3,
    0, 0, 0, 12, 0, 0, 0, 12, 0, 0, 0, 0, 16, 0, 0, 0, 0, 0, 1, 0, 0, 0, 0, 3, 0, 0, 0, 4, 0, 0, 0, 67,
    0, 56, 64, 0, 0, 0, 0, 3, 0, 0, 0, 4, 0, 0, 0, 83, 0, 0, 0, 2, 0, 0, 0, 3, 0, 0, 0, 4, 0, 0, 0, 100,
    0, 0, 0, 10, 0, 0, 0, 2, 0, 0, 0, 1, 118, 0, 0, 0, 0, 0, 0, 3, 0, 0, 0, 12, 0, 0, 0, 16, 118, 105, 114, 116,
    105, 111, 44, 109, 109, 105, 111, 0, 0, 0, 0, 3, 0, 0, 0, 12, 0, 0, 0, 12, 0, 0, 0, 0, 16, 0, 16, 0, 0, 0, 16, 0,
    0, 0, 0, 3, 0, 0, 0, 4, 0, 0, 0, 83, 0, 0, 0, 2, 0, 0, 0, 3, 0, 0, 0, 4, 0, 0, 0, 100, 0, 0, 0, 1,
    0, 0, 0, 2, 0, 0, 0, 1, 112, 0, 0, 0, 0, 0, 0, 3, 0, 0, 0, 12, 0, 0, 0, 16, 114, 105, 115, 99, 118, 44, 112, 108,
    105, 99, 48, 0, 0, 0, 0, 3, 0, 0, 0, 12, 0, 0, 0, 12, 0, 0, 0, 0, 12, 0, 0, 0, 0, 96, 0, 0, 0, 0, 0, 3,
    0, 0, 0, 4, 0, 0, 0, 27, 0, 0, 0, 2, 0, 0, 0, 3, 0, 0, 0, 4, 0, 0, 0, 35, 0, 0, 0, 1, 0, 0, 0, 3,
    0, 0, 0, 4, 0, 0, 0, 111, 0, 0, 0, 53, 0, 0, 0, 3, 0, 0, 0, 16, 0, 0, 0, 122, 0, 0, 0, 1, 0, 0, 0, 11,
    0, 0, 0, 1, 0, 0, 0, 9, 0, 0, 0, 2, 0, 0, 0, 2, 0, 0, 0, 9, 100, 101, 118, 105, 99, 101, 95, 116, 121, 112, 101, 0,
    114, 101, 103, 0, 99, 111, 109, 112, 97, 116, 105, 98, 108, 101, 0, 112, 104, 97, 110, 100, 108, 101, 0, 35, 105, 110, 116, 101, 114, 114, 117, 112,
    116, 45, 99, 101, 108, 108, 115, 0, 35, 97, 100, 100, 114, 101, 115, 115, 45, 99, 101, 108, 108, 115, 0, 99, 108, 111, 99, 107, 45, 102, 114, 101,
    113, 117, 101, 110, 99, 121, 0, 105, 110, 116, 101, 114, 114, 117, 112, 116, 45, 112, 97, 114, 101, 110, 116, 0, 105, 110, 116, 101, 114, 114, 117, 112,
    116, 115, 0, 114, 105, 115, 99, 118, 44, 110, 100, 101, 118, 0, 105, 110, 116, 101, 114, 114, 117, 112, 116, 115, 45, 101, 120, 116, 101, 110, 100, 101,
    100, 0]"

text \<open>Evaluation: a step is run before what follows it.\<close>

lemma andthen_first: "m = m' \<Longrightarrow> andthen m f = andthen m' f"
  by simp

lemma bind_first: "m = m' \<Longrightarrow> Option.bind m f = Option.bind m' f"
  by simp

lemma andthen_eval: "andthen (gives x) f = f x" "andthen (fails e) f = fails e" "reads (Some x) = gives x"
  by (simp_all add: andthen_def gives_def fails_def reads_def)

lemma string_length_eval:
  "bounded_string_length blob a (numeral k) = do {
     b \<leftarrow> byte_at blob a;
     if b = 0 then Some (Some 0) else map_option (map_option Suc) (bounded_string_length blob (a + 1) (pred_numeral k)) }"
  by (simp add: numeral_eq_Suc)

lemma bytes_equal_eval:
  "bytes_equal blob a (numeral k) expected =
     (case expected of [] \<Rightarrow> Some False
      | c # cs \<Rightarrow> do { b \<leftarrow> byte_at blob a; if b \<noteq> c then Some False else bytes_equal blob (a + 1) (pred_numeral k) cs })"
  by (simp add: numeral_eq_Suc)

lemma cells_eval:
  "cells_loop blob v (numeral k) r = do { c \<leftarrow> read_be32 blob v; cells_loop blob (v + 4) (pred_numeral k) (push_bit 32 r + ucast c) }"
  by (simp add: numeral_eq_Suc)

text \<open>The bytes of a blob as rewrite rules.\<close>

primrec bytes_from :: "u8 list \<Rightarrow> nat \<Rightarrow> u8 list \<Rightarrow> bool" where
  "bytes_from blob a [] \<longleftrightarrow> True"
| "bytes_from blob a (x # xs) \<longleftrightarrow> byte_at blob a = Some x \<and> bytes_from blob (a + 1) xs"

lemma bytes_from_drop: "drop a blob = xs \<Longrightarrow> bytes_from blob a xs"
proof (induction xs arbitrary: a)
  case (Cons x xs)
  have "a < length blob" using Cons.prems by (metis drop_all list.distinct(1) not_less)
  then show ?case using Cons.prems Cons.IH [of "a + 1"] by (auto simp: byte_at_def Cons_nth_drop_Suc [symmetric])
qed simp

lemma blob_bytes:
  "blob = x # y # z # xs \<Longrightarrow>
   byte_at blob 0 = Some x \<and> byte_at blob (Suc 0) = Some y \<and> byte_at blob (Suc (Suc 0)) = Some z \<and> bytes_from blob 3 xs"
  using bytes_from_drop [of 3 blob xs] by (simp add: byte_at_def)

lemmas sample_bytes = blob_bytes [OF sample_blob_def, simplified]

abbreviation (input) sample_fdt :: fdt where
  "sample_fdt \<equiv> \<lparr>fblob = sample_blob, fstructure = 56, fstructure_size = 604, fstrings = 660, fstrings_size = 142\<rparr>"

lemma sample_header: "read_header sample_blob = gives (802, sample_fdt, 40)"
  by (simp add: read_header_def read_size_def read_be32_def sample_bytes andthen_eval range_is_inside_def cong: andthen_first bind_first)

lemma sample_reserve: "reserve_loop sample_blob 56 40 i = gives i"
  by (subst reserve_loop.simps)
     (simp add: reserve_entry_is_terminator_def read_be32_def sample_bytes andthen_eval cong: andthen_first bind_first)

lemmas sample_eval = read_size_def read_be32_def sample_bytes andthen_eval add32_def align_to_u32_def string_length_eval bytes_equal_eval bytes_equal_string_def cstr_def
  begin_node_def prop_header_def property_name_def cells_eval Let_def

definition sample_info :: dtb_boot_info where
  "sample_info = \<lparr>dmemory = \<lparr>rbase = 0x80000000, rsize = 0x100000\<rparr>, dmemories = [\<lparr>rbase = 0x80000000, rsize = 0x100000\<rparr>], ddtb_size = 802,
     dtimebase_frequency = 0, dreserved = [], dvirtio_mmio = [\<lparr>rbase = 0x10001000, rsize = 0x1000\<rparr>], drng_seed = []\<rparr>"

lemma sample_scan:
  "scan_loop sample_fdt (scan_start \<lparr>dmemory = \<lparr>rbase = 0, rsize = 0\<rparr>, dmemories = [], ddtb_size = 802, dtimebase_frequency = 0, dreserved = [],
     dvirtio_mmio = [], drng_seed = []\<rparr>) = gives sample_info"
  by (simp add: sample_eval scan_loop.simps scan_start_def scan_begin_def scan_child_def classify_memory_node_name_def scan_end_def end_memory_def
      end_reserved_def scan_prop_def watched_def scan_value_def property_value_is_one_string_def cell_count_def read_memory_reg_def read_cells_def
      discover_virtio_mmio_def discover_loop.simps discover_begin_def discover_end_def discover_prop_def discover_value_def finish_discovery_node_def
      sample_info_def string_list_contains_def string_list_loop.simps insert_virtio_mmio_def cong: andthen_first bind_first)

lemma sample_blob_ok: "blob_ok sample_blob"
proof -
  have "length sample_blob = 802" by (simp add: sample_blob_def)
  moreover have "read_size sample_blob 4 = Some 802" by (simp add: read_size_def read_be32_def sample_bytes)
  ultimately show ?thesis by (simp add: blob_ok_def)
qed

lemma sample_boot: "dtb_read_boot_info (Some sample_blob) (Some old) = Some (DTB_OK, Some sample_info)"
  by (simp add: dtb_read_boot_info_def sample_header sample_reserve andthen_eval sample_scan) (simp add: gives_def)

lemma sample_zero_offset:
  "zero_offset sample_blob a = do { b \<leftarrow> byte_at sample_blob a; if b = 0 then Some 0 else map_option Suc (zero_offset sample_blob (a + 1)) }"
  by (subst zero_offset.simps) (simp add: byte_at_def)

lemma sample_harts: "cpu_loop sample_blob 56 660 \<lparr>cposition = 0, cstack = [], ccpus_seen = 0, charts = []\<rparr> = gives [1, 0]"
  by (simp add: sample_eval cpu_loop.simps cpu_begin_def cpu_prop_def cpu_end_def cpu_value_def sample_zero_offset align4_def read_cells_def
      cong: andthen_first bind_first)

definition sample_irq :: dtb_irq_info where
  "sample_irq = \<lparr>qplic = \<lparr>rbase = 0xc000000, rsize = 0x600000\<rparr>, qcontext = 1, qsource_count = 53, qroutes = [(0x10001000, 1)],
     quart = \<lparr>uregisters = \<lparr>rbase = 0x10000000, rsize = 0x100\<rparr>, uclock = 0x384000, usource = 10, ushift = 0, uwidth = 1\<rparr>\<rparr>"

lemma context_eval:
  "context_loop blob v i (numeral k) s =
     andthen (reads (read_size blob (v + 8 * i))) (\<lambda>target.
       andthen (reads (if target = icpu_intc s then map_option (\<lambda>x. x = 9) (read_size blob (v + 8 * i + 4)) else Some False)) (\<lambda>hit.
         if hit \<and> icontext_found s then fails DTB_INVALID
         else context_loop blob v (i + 1) (pred_numeral k) (if hit then s\<lparr>iout := (iout s)\<lparr>qcontext := i\<rparr>, icontext_found := True\<rparr> else s)))"
  by (simp add: numeral_eq_Suc)

lemmas irq_eval = sample_eval irq_loop.simps irq_begin_def irq_prop_def irq_names_def irq_value_def irq_layout_def irq_compatible_def irq_cell_def irq_end_def
  irq_end_cpu_def irq_end_device_def irq_plic_def irq_device_def context_eval empty_bus_def sample_zero_offset align4_def read_cells_def
  string_list_contains_def string_list_loop.simps

lemma sample_first_pass:
  "irq_pass sample_blob 56 660 0 False \<lparr>iposition = 0, istack = [], icpu_intc = 0, iplic_phandle = 0, icontext_found = False, iout = empty_irq\<rparr> =
     gives \<lparr>iposition = 604, istack = [], icpu_intc = 1, iplic_phandle = 2, icontext_found = False,
       iout = empty_irq\<lparr>qplic := \<lparr>rbase = 0xc000000, rsize = 0x600000\<rparr>, qsource_count := 53\<rparr>\<rparr>"
  by (simp add: irq_pass_def irq_eval cong: andthen_first bind_first)

lemma sample_second_pass:
  "irq_pass sample_blob 56 660 0 True \<lparr>iposition = 604, istack = [], icpu_intc = 1, iplic_phandle = 2, icontext_found = False,
       iout = empty_irq\<lparr>qplic := \<lparr>rbase = 0xc000000, rsize = 0x600000\<rparr>, qsource_count := 53\<rparr>\<rparr> =
     gives \<lparr>iposition = 604, istack = [], icpu_intc = 1, iplic_phandle = 2, icontext_found = True, iout = sample_irq\<rparr>"
  by (simp add: irq_pass_def irq_eval empty_irq_def sample_irq_def cong: andthen_first bind_first)

lemma sample_routes: "irq_discover sample_blob 0 = gives sample_irq"
proof -
  have "read_size sample_blob 8 = Some 56" "read_size sample_blob 12 = Some 660" by (simp_all add: read_size_def read_be32_def sample_bytes)
  then show ?thesis unfolding irq_discover_def by (simp only: andthen_eval sample_first_pass sample_second_pass) simp
qed

end
