(* ===== verification/Dtb_Theorems.thy ===== *)
theory Dtb_Theorems
  imports Dtb_Irq_Safe Dtb_Sample
begin

text \<open>The properties of the device tree parser, on arbitrary blobs, with the concrete one as the witness.\<close>

section \<open>The order of the processors\<close>

lemma boot_index_spec:
  "if boot \<in> set hs then boot_index hs boot < length hs \<and> hs ! boot_index hs boot = boot else boot_index hs boot = length hs"
proof -
  have "let r = fold (\<lambda>i b. if hs ! i = boot then i else b) [0..<k] (length hs)
        in (r = length hs \<and> (\<forall>i < k. hs ! i \<noteq> boot)) \<or> (r < k \<and> hs ! r = boot)" for k
    by (induction k) (auto simp: Let_def less_Suc_eq)
  from this [of "length hs"] show ?thesis by (auto simp: boot_index_def Let_def in_set_conv_nth)
qed

lemma hart_down_spec:
  "j < length ys \<Longrightarrow> sorted (take j ys) \<Longrightarrow>
   \<exists>zs. hart_down (x # ys) h (Suc j) = x # zs \<and> mset zs = mset (ys[j := h]) \<and> sorted (take (Suc j) zs) \<and>
     set (take (Suc j) zs) = insert h (set (take j ys)) \<and> drop (Suc j) zs = drop (Suc j) ys"
proof (induction j arbitrary: ys)
  case 0
  then show ?case by (cases ys) auto
next
  case (Suc j)
  show ?case
  proof (cases "h < ys ! j")
    case True
    let ?ys = "ys[Suc j := ys ! j]"
    have st: "sorted (take j ys)" "\<forall>x \<in> set (take j ys). x \<le> ys ! j"
      using Suc.prems by (auto simp: take_Suc_conv_app_nth sorted_append)
    have "\<exists>zs. hart_down (x # ?ys) h (Suc j) = x # zs \<and> mset zs = mset (?ys[j := h]) \<and> sorted (take (Suc j) zs) \<and>
        set (take (Suc j) zs) = insert h (set (take j ?ys)) \<and> drop (Suc j) zs = drop (Suc j) ?ys"
      by (rule Suc.IH) (use Suc.prems st in auto)
    then obtain zs where z: "hart_down (x # ?ys) h (Suc j) = x # zs" "mset zs = mset (?ys[j := h])" "sorted (take (Suc j) zs)"
        "set (take (Suc j) zs) = insert h (set (take j ?ys))" "drop (Suc j) zs = drop (Suc j) ?ys" by blast
    have dr: "drop (Suc j) zs = ys ! j # drop (Suc (Suc j)) ys" using z(5) Suc.prems(1) by (simp add: Cons_nth_drop_Suc [symmetric])
    have len: "Suc j < length zs" using dr by (metis drop_eq_Nil list.distinct(1) not_less)
    have nth: "zs ! Suc j = ys ! j" using dr len by (metis nth_via_drop)
    have tk: "take (Suc (Suc j)) zs = take (Suc j) zs @ [ys ! j]" using take_Suc_conv_app_nth [OF len] nth by simp
    have "sorted (take (Suc (Suc j)) zs)" unfolding tk using z(3,4) st True by (auto simp: sorted_append)
    moreover have "set (take (Suc (Suc j)) zs) = insert h (set (take (Suc j) ys))"
      unfolding tk using z(4) Suc.prems(1) by (auto simp: take_Suc_conv_app_nth)
    moreover have "mset zs = mset (ys[Suc j := h])"
      using z(2) Suc.prems(1) by (simp add: mset_update nth_list_update)
    moreover have "drop (Suc (Suc j)) zs = drop (Suc (Suc j)) ys" using dr by (metis drop_Suc list.sel(3) tl_drop)
    ultimately show ?thesis using z(1) True by auto
  next
    case False
    have t: "take (Suc (Suc j)) (ys[Suc j := h]) = take (Suc j) ys @ [h]" using Suc.prems(1) by (simp add: take_Suc_conv_app_nth)
    have "\<forall>x \<in> set (take (Suc j) ys). x \<le> h"
      using Suc.prems False by (auto simp: take_Suc_conv_app_nth sorted_append dest: order_trans)
    then have "sorted (take (Suc (Suc j)) (ys[Suc j := h]))" unfolding t using Suc.prems(2) by (auto simp: sorted_append)
    then show ?thesis using False t by (auto intro!: exI [of _ "ys[Suc j := h]"])
  qed
qed

lemma sort_harts_spec:
  "k \<le> length ys \<Longrightarrow> \<exists>zs. fold (\<lambda>i xs. hart_down xs (xs ! i) i) [2..<Suc k] (x # ys) = x # zs \<and> mset zs = mset ys \<and> length zs = length ys \<and> sorted (take k zs)"
proof (induction k)
  case (Suc k)
  show ?case
  proof (cases "k = 0")
    case True
    then show ?thesis using Suc.prems by (cases ys) auto
  next
    case False
    obtain zs where z: "fold (\<lambda>i xs. hart_down xs (xs ! i) i) [2..<Suc k] (x # ys) = x # zs" "mset zs = mset ys" "length zs = length ys"
      "sorted (take k zs)" using Suc by auto
    have up: "[2..<Suc (Suc k)] = [2..<Suc k] @ [Suc k]" using False by simp
    have run: "fold (\<lambda>i xs. hart_down xs (xs ! i) i) [2..<Suc (Suc k)] (x # ys) = hart_down (x # zs) (zs ! k) (Suc k)"
      unfolding up fold_append comp_def z(1) by (simp only: fold_simps id_apply nth_Cons_Suc)
    obtain ws where w: "hart_down (x # zs) (zs ! k) (Suc k) = x # ws" "mset ws = mset (zs[k := zs ! k])" "sorted (take (Suc k) ws)"
      using hart_down_spec [of k zs x "zs ! k"] Suc.prems z(3,4) by auto
    have m: "mset ws = mset ys" using w(2) z(2) by simp
    then have "length ws = length ys" by (rule mset_eq_length)
    then show ?thesis using run w m by auto
  qed
qed auto

lemma order_harts_spec:
  assumes "distinct hs" "b < length hs" "hs ! b = boot"
  shows "\<exists>others. order_harts hs boot b = boot # others \<and> mset (boot # others) = mset hs \<and> sorted others"
proof -
  obtain ys where ys: "hs[b := hs ! 0, 0 := boot] = boot # ys" using assms(2) by (cases hs; cases b) auto
  have m: "mset (boot # ys) = mset hs"
  proof -
    have "hs[b := hs ! 0, 0 := boot] = hs[b := hs ! 0, 0 := hs ! b]" using assms(3) by simp
    then show ?thesis unfolding ys [symmetric] using assms(2) by (metis (no_types, lifting) gr_implies_not0 length_greater_0_conv list.size(3) mset_swap)
  qed
  have len: "length hs = Suc (length ys)" using mset_eq_length [OF m] by simp
  obtain zs where z: "fold (\<lambda>i xs. hart_down xs (xs ! i) i) [2..<Suc (length ys)] (boot # ys) = boot # zs" "mset zs = mset ys" "length zs = length ys"
    "sorted (take (length ys) zs)" using sort_harts_spec [of "length ys" ys boot] by auto
  have "order_harts hs boot b = boot # zs" unfolding order_harts_def ys len using z(1) by simp
  then show ?thesis using z m by auto
qed

section \<open>Properties\<close>

lemma boot_info_cases:
  assumes "blob_ok blob"
  obtains status where "dtb_read_boot_info (Some blob) (Some old) = Some (status, Some old)" "status \<noteq> DTB_OK"
  | i d n where "dtb_read_boot_info (Some blob) (Some old) = Some (DTB_OK, Some i)" "final_facts d n i" "fdt_ok d" "fblob d = blob"
      "read_size blob 4 = Some n" "40 \<le> n" "n < 2 ^ 32" "read_size blob 8 = Some (fstructure d)" "read_size blob 12 = Some (fstrings d)"
proof -
  obtain r where r: "andthen (read_header blob) (\<lambda>(total_size, d, reserve_offset).
            andthen (reserve_loop blob (fstructure d) reserve_offset
                \<lparr>dmemory = \<lparr>rbase = 0, rsize = 0\<rparr>, dmemories = [], ddtb_size = total_size, dtimebase_frequency = 0, dreserved = [],
                 dvirtio_mmio = [], drng_seed = []\<rparr>)
              (\<lambda>i. scan_loop d (scan_start i))) = Some r"
    "case r of Inl status \<Rightarrow> status \<noteq> DTB_OK
     | Inr i \<Rightarrow> \<exists>d n. final_facts d n i \<and> fdt_ok d \<and> fblob d = blob \<and> read_size blob 4 = Some n \<and> 40 \<le> n \<and> n < 2 ^ 32 \<and>
         read_size blob 8 = Some (fstructure d) \<and> read_size blob 12 = Some (fstrings d)"
    using read_boot_info_sat [OF assms] unfolding sat_def by auto
  show ?thesis
  proof (cases r)
    case (Inl status)
    then show ?thesis using r by (intro that(1)) (auto simp: dtb_read_boot_info_def)
  next
    case (Inr i)
    have run: "dtb_read_boot_info (Some blob) (Some old) = Some (DTB_OK, Some i)" using r(1) Inr by (simp add: dtb_read_boot_info_def)
    obtain d n where "final_facts d n i" "fdt_ok d" "fblob d = blob" "read_size blob 4 = Some n" "40 \<le> n" "n < 2 ^ 32"
      "read_size blob 8 = Some (fstructure d)" "read_size blob 12 = Some (fstrings d)" using r(2) Inr by auto
    then show ?thesis by (rule that(2) [OF run])
  qed
qed

lemma cpu_info_returns:
  assumes "blob_ok blob"
  shows "\<exists>status out. dtb_read_cpu_info (Some blob) boot_hart (Some old) = Some (status, Some out) \<and>
    (status \<noteq> DTB_OK \<and> out = old \<or> status = DTB_OK \<and> (\<exists>others. out = boot_hart # others \<and> sorted others \<and> cpus_ok out))"
proof -
  let ?i = "\<lparr>dmemory = \<lparr>rbase = 0, rsize = 0\<rparr>, dmemories = [], ddtb_size = 0, dtimebase_frequency = 0, dreserved = [], dvirtio_mmio = [], drng_seed = []\<rparr>"
  show ?thesis
  proof (rule boot_info_cases [OF assms, of ?i])
    fix status assume "dtb_read_boot_info (Some blob) (Some ?i) = Some (status, Some ?i)" "status \<noteq> DTB_OK"
    then show ?thesis by (simp add: dtb_read_cpu_info_def)
  next
    fix i d n
    assume h: "dtb_read_boot_info (Some blob) (Some ?i) = Some (DTB_OK, Some i)" "final_facts d n i" "fdt_ok d" "fblob d = blob"
      "read_size blob 8 = Some (fstructure d)" "read_size blob 12 = Some (fstrings d)"
    let ?s = "\<lparr>cposition = 0, cstack = [], ccpus_seen = 0, charts = []\<rparr>"
    have w: "walk d 0 0" using h(2) by (simp add: final_facts_def)
    have "sat (cpu_loop (fblob d) (fstructure d) (fstrings d) ?s) cpus_ok"
      by (rule cpu_loop_sat [OF h(3) w]) (simp_all add: cpu_ok_def cpus_ok_def)
    then obtain r where r: "cpu_loop blob (fstructure d) (fstrings d) ?s = Some r" "case r of Inl status \<Rightarrow> status \<noteq> DTB_OK | Inr hs \<Rightarrow> cpus_ok hs"
      using h(4) by (auto simp: sat_def)
    show ?thesis
    proof (cases r)
      case (Inl status)
      then show ?thesis using h r by (simp add: dtb_read_cpu_info_def)
    next
      case (Inr hs)
      let ?b = "boot_index hs boot_hart"
      have hs: "distinct hs" "length hs \<le> 4" using r(2) Inr by (simp_all add: cpus_ok_def)
      show ?thesis
      proof (cases "?b = length hs")
        case True
        then show ?thesis using h r Inr by (simp add: dtb_read_cpu_info_def)
      next
        case False
        then have b: "?b < length hs" "hs ! ?b = boot_hart" using boot_index_spec [of boot_hart hs] by (auto split: if_splits)
        obtain others where o: "order_harts hs boot_hart ?b = boot_hart # others" "mset (boot_hart # others) = mset hs" "sorted others"
          using order_harts_spec [OF hs(1) b] by auto
        have "cpus_ok (boot_hart # others)"
          using mset_eq_imp_distinct_iff [OF o(2)] mset_eq_length [OF o(2)] hs by (auto simp: cpus_ok_def)
        then show ?thesis using h r Inr False o by (simp add: dtb_read_cpu_info_def)
      qed
    qed
  qed
qed

lemma irq_info_returns:
  assumes "blob_ok blob"
  shows "\<exists>status out. dtb_read_irq_info (Some blob) boot_hart (Some old) = Some (status, Some out) \<and>
    (status \<noteq> DTB_OK \<and> out = old \<or> status = DTB_OK \<and> routes_ok out)"
proof -
  let ?i = "\<lparr>dmemory = \<lparr>rbase = 0, rsize = 0\<rparr>, dmemories = [], ddtb_size = 0, dtimebase_frequency = 0, dreserved = [], dvirtio_mmio = [], drng_seed = []\<rparr>"
  show ?thesis
  proof (rule boot_info_cases [OF assms, of ?i])
    fix status assume "dtb_read_boot_info (Some blob) (Some ?i) = Some (status, Some ?i)" "status \<noteq> DTB_OK"
    then show ?thesis by (simp add: dtb_read_irq_info_def)
  next
    fix i d n
    assume h: "dtb_read_boot_info (Some blob) (Some ?i) = Some (DTB_OK, Some i)" "final_facts d n i" "fdt_ok d" "fblob d = blob"
      "read_size blob 8 = Some (fstructure d)" "read_size blob 12 = Some (fstrings d)"
    have w: "walk d 0 0" using h(2) by (simp add: final_facts_def)
    have "sat (irq_discover blob boot_hart) routes_ok" using irq_discover_sat [OF h(3) w] h(4-6) by simp
    then obtain r where r: "irq_discover blob boot_hart = Some r" "case r of Inl status \<Rightarrow> status \<noteq> DTB_OK | Inr q \<Rightarrow> routes_ok q"
      by (auto simp: sat_def)
    show ?thesis
    proof (cases r)
      case (Inl status)
      then show ?thesis using h(1) r by (simp add: dtb_read_irq_info_def)
    next
      case (Inr q)
      then show ?thesis using h(1) r by (simp add: dtb_read_irq_info_def)
    qed
  qed
qed

lemma sample_cpus: "dtb_read_cpu_info (Some sample_blob) 0 (Some old) = Some (DTB_OK, Some [0, 1])"
  using sample_harts
  by (simp add: dtb_read_cpu_info_def sample_boot read_size_def read_be32_def sample_bytes gives_def boot_index_def order_harts_def)

lemma sample_irqs: "dtb_read_irq_info (Some sample_blob) 0 (Some old) = Some (DTB_OK, Some sample_irq)"
  using sample_routes by (simp add: dtb_read_irq_info_def sample_boot gives_def)

text \<open>C5. Parsing an arbitrary device tree is memory-safe and terminates. Whatever the bytes of the blob are, as long as the 40 bytes of the header and the
  size it announces can be read, the parser reads nothing else and returns. A failure leaves the result as it was. On success there are
  between 1 and 16 memory ranges in the order of the tree, none empty or wrapping, the first of which is the memory bank; at most 16 reserved ranges, none empty (the
  parser does not check that they do not wrap, the memory map does); at
  most 16 virtio device ranges in ascending order that neither wrap nor overlap; the size of the tree is that of its header, and the random seed is absent
  or has 32 bytes.\<close>

theorem dtb_boot_info_safe:
  assumes "blob_ok blob"
  shows "\<exists>status out. dtb_read_boot_info (Some blob) (Some old) = Some (status, Some out) \<and>
    (if status \<noteq> DTB_OK then out = old
     else dmemories out \<noteq> [] \<and> dmemory out = hd (dmemories out) \<and> length (dmemories out) \<le> 16 \<and>
       list_all (\<lambda>r. lo r < hi r \<and> hi r < 2 ^ 64) (dmemories out) \<and> length (dreserved out) \<le> 16 \<and> list_all (\<lambda>r. lo r < hi r) (dreserved out) \<and>
       length (dvirtio_mmio out) \<le> 16 \<and> list_all (\<lambda>r. lo r < hi r \<and> hi r < 2 ^ 64) (dvirtio_mmio out) \<and>
       sorted_wrt (\<lambda>r s. hi r \<le> lo s) (dvirtio_mmio out) \<and> read_size blob 4 = Some (ddtb_size out) \<and>
       (drng_seed out = [] \<or> length (drng_seed out) = 32))"
proof (rule boot_info_cases [OF assms, of old])
  fix status assume "dtb_read_boot_info (Some blob) (Some old) = Some (status, Some old)" "status \<noteq> DTB_OK"
  then show ?thesis by auto
next
  fix i d n
  assume h: "dtb_read_boot_info (Some blob) (Some old) = Some (DTB_OK, Some i)" "final_facts d n i" "read_size blob 4 = Some n"
  have ne: "lo r < hi r" if "rsize r \<noteq> 0" for r using that by (simp add: lo_def hi_def unat_gt_0)
  show ?thesis
    using h ne by (auto simp: final_facts_def boot_facts_def memories_ok_def reserved_ok_def virtio_ok_def range_ok_def list_all_iff)
qed

theorem dtb_boot_info_safe_witness:
  "\<exists>out. dtb_read_boot_info (Some sample_blob) (Some sample_info) = Some (DTB_OK, Some out) \<and> dmemories out \<noteq> [] \<and> dmemory out = hd (dmemories out)"
  using dtb_boot_info_safe [OF sample_blob_ok, of sample_info] sample_boot [of sample_info] by auto

text \<open>C26. The list of processors, read by a pass without bounds checks of its own from a blob the boot pass accepted: the pass never leaves the blob and
  ends; on success the boot processor comes first, the others follow in strictly ascending order, there are at most 4, and none
  occurs twice. A failure leaves the result as it was.\<close>

theorem dtb_cpu_info_ordered:
  assumes "blob_ok blob"
  shows "\<exists>status out. dtb_read_cpu_info (Some blob) boot_hart (Some old) = Some (status, Some out) \<and>
    (if status \<noteq> DTB_OK then out = old else \<exists>others. out = boot_hart # others \<and> sorted others \<and> distinct out \<and> length out \<le> 4)"
  using cpu_info_returns [OF assms, of boot_hart old] by (auto simp: cpus_ok_def)

theorem dtb_cpu_info_ordered_witness:
  "\<exists>others. dtb_read_cpu_info (Some sample_blob) 0 (Some []) = Some (DTB_OK, Some (0 # others)) \<and> sorted others"
  using dtb_cpu_info_ordered [OF sample_blob_ok, of 0 "[]"] sample_cpus [of "[]"] by auto

text \<open>C27. The interrupt routes, read by two passes without bounds checks of their own from a blob the boot pass accepted: the passes never leave
  the blob and end, whatever the tree contains. On success there are at most 16 device routes; every source, that of the serial port included, is one of the
  numbers 1 to the count the controller announces; and a serial port, if one was found, meets every condition the driver puts on it: it has a clock and
  a source, the shift and the width are supported, all eight registers lie in its range, and 4-byte registers are aligned at every mapping that
  keeps the low two bits of its address. A failure leaves the result as it was.\<close>

theorem dtb_irq_info_routes:
  assumes "blob_ok blob"
  shows "\<exists>status out. dtb_read_irq_info (Some blob) boot_hart (Some old) = Some (status, Some out) \<and>
    (if status \<noteq> DTB_OK then out = old
     else length (qroutes out) \<le> 16 \<and> list_all (\<lambda>(address, source). 1 \<le> source \<and> source \<le> qsource_count out) (qroutes out) \<and>
       (rsize (uregisters (quart out)) = 0 \<or>
        usource (quart out) \<le> qsource_count out \<and>
        (\<forall>mapping. mapping AND 3 = rbase (uregisters (quart out)) AND 3 \<longrightarrow> \<not> ns16550_refuses (quart out) mapping)))"
  using irq_info_returns [OF assms, of boot_hart old]
  by (elim exE conjE disjE) (auto simp: routes_ok_def source_ok_def list_all_iff)

theorem dtb_irq_info_routes_witness:
  "dtb_read_irq_info (Some sample_blob) 0 (Some empty_irq) = Some (DTB_OK, Some sample_irq) \<and>
   list_all (\<lambda>(address, source). 1 \<le> source \<and> source \<le> qsource_count sample_irq) (qroutes sample_irq) \<and>
   \<not> ns16550_refuses (quart sample_irq) 0x10000000"
  using dtb_irq_info_routes [OF sample_blob_ok, of 0 empty_irq] sample_irqs [of empty_irq] by (auto simp: sample_irq_def)

end
