(* ===== verification/Boot.thy ===== *)
theory Boot
  imports Dtb_Theorems Boot_Memory_Theorems
begin

text \<open>
  The first stage of the start-up, \<^verbatim>\<open>kernel_main\<close> of \<^verbatim>\<open>src/kernel/main.c\<close> up to the memory layout: the device tree is read three times, the
  static variables of the kernel are set, and the memory bank is divided. Each way into a shutdown is an outcome. The variables start as zero; the
  device tree is the address and the bytes that can be read there.
\<close>

record boot_state =
  boot_info_of_tree :: dtb_boot_info
  boot_irq :: dtb_irq_info
  boot_cpus :: "u64 list"
  boot_hart_id :: u64
  boot_dtb_address :: u64
  image_load_offset :: u64
  cleanup_retry_ticks :: nat
  random_seed :: "u8 list"
  layout :: boot_layout

datatype boot_outcome = Dtb_Shutdown dtb_status | Smp_Shutdown dtb_status | Memory_Shutdown boot_status | Memory_Ready boot_state

abbreviation (input) RISCV_KERNEL_VIRTUAL_BASE :: u64 where "RISCV_KERNEL_VIRTUAL_BASE \<equiv> 0xffffffff80000000"
abbreviation (input) KERNEL_TICKS_PER_SECOND :: nat where "KERNEL_TICKS_PER_SECOND \<equiv> 100"

definition empty_info :: dtb_boot_info where
  "empty_info = \<lparr>dmemory = \<lparr>rbase = 0, rsize = 0\<rparr>, dmemories = [], ddtb_size = 0, dtimebase_frequency = 0, dreserved = [], dvirtio_mmio = [], drng_seed = []\<rparr>"

text \<open>The part of the boot information that the memory map reads.\<close>

definition memory_info :: "dtb_boot_info \<Rightarrow> boot_info" where
  "memory_info i = \<lparr>imemory = dmemory i, idtb_size = of_nat (ddtb_size i), ireserved_count = length (dreserved i),
     ireserved = (\<lambda>j. if j < length (dreserved i) then dreserved i ! j else \<lparr>rbase = 0, rsize = 0\<rparr>)\<rparr>"

text \<open>\<open>smp\<close> says whether the kernel is built for several processors. The seed goes to the random number generator and is then erased from the boot information.\<close>

definition kernel_main :: "bool \<Rightarrow> u64 \<Rightarrow> u64 \<Rightarrow> u8 list option \<Rightarrow> u64 \<Rightarrow> u64 \<Rightarrow> boot_outcome option" where
  "kernel_main smp hart_id address dtb kernel_start kernel_end = do {
     (status, info) \<leftarrow> dtb_read_boot_info dtb (Some empty_info);
     if status \<noteq> DTB_OK then Some (Dtb_Shutdown status)
     else do {
       info \<leftarrow> info;
       (status, irq) \<leftarrow> dtb_read_irq_info dtb hart_id (Some empty_irq);
       if status \<noteq> DTB_OK then Some (Dtb_Shutdown DTB_UNSUPPORTED)
       else do {
         irq \<leftarrow> irq;
         (status, cpus) \<leftarrow> (if smp then dtb_read_cpu_info dtb hart_id (Some []) else Some (DTB_OK, Some []));
         if status \<noteq> DTB_OK then Some (Smp_Shutdown status)
         else do {
           cpus \<leftarrow> cpus;
           (status, lay) \<leftarrow> boot_memory_build (Some (memory_info info)) kernel_start kernel_end address (Some \<lparr>lreserved = [], lusable = []\<rparr>);
           if status \<noteq> BOOT_OK then Some (Memory_Shutdown status)
           else do {
             lay \<leftarrow> lay;
             Some (Memory_Ready \<lparr>boot_info_of_tree = info\<lparr>drng_seed := []\<rparr>, boot_irq = irq, boot_cpus = cpus, boot_hart_id = hart_id,
               boot_dtb_address = address, image_load_offset = RISCV_KERNEL_VIRTUAL_BASE - kernel_start,
               cleanup_retry_ticks = dtimebase_frequency info div KERNEL_TICKS_PER_SECOND, random_seed = drng_seed info, layout = lay\<rparr>)
           }
         }
       }
     }
   }"

section \<open>The layout of a tree that was read\<close>

lemma memory_info_spec:
  assumes "final_facts d n i" "40 \<le> n" "n < 2 ^ 32"
  shows "wanted (memory_info i) ks ke address = cover (dreserved i) \<union> {unat ks..<unat ke} \<union> {unat address..<unat address + ddtb_size i}"
    "bank (memory_info i) = {lo (dmemory i)..<hi (dmemory i)}"
proof -
  have "map (ireserved (memory_info i)) [0..<ireserved_count (memory_info i)] = dreserved i"
    by (rule nth_equalityI) (simp_all add: memory_info_def)
  moreover have "unat (idtb_size (memory_info i)) = ddtb_size i"
    using assms by (simp add: memory_info_def final_facts_def boot_facts_def unat_of_nat)
  ultimately show "wanted (memory_info i) ks ke address = cover (dreserved i) \<union> {unat ks..<unat ke} \<union> {unat address..<unat address + ddtb_size i}"
    by (simp add: wanted_def)
  show "bank (memory_info i) = {lo (dmemory i)..<hi (dmemory i)}" by (simp add: bank_def memory_info_def)
qed

lemma memory_info_layout:
  assumes "final_facts d n i" "40 \<le> n" "n < 2 ^ 32"
  obtains status where "boot_memory_build (Some (memory_info i)) ks ke address (Some old) = Some (status, Some old)" "status \<noteq> BOOT_OK"
  | lay where "boot_memory_build (Some (memory_info i)) ks ke address (Some old) = Some (BOOT_OK, Some lay)"
      "lo (dmemory i) \<le> unat ks" "ks < ke" "unat ke \<le> hi (dmemory i)"
      "cover (lusable lay) = {lo (dmemory i)..<hi (dmemory i)} -
         (cover (dreserved i) \<union> {unat ks..<unat ke} \<union> {unat address..<unat address + ddtb_size i})"
      "cover (lusable lay) \<noteq> {}"
proof (cases "boot_request_ok (memory_info i) ks ke address")
  case False
  show ?thesis by (rule that(1) [OF build_invalid [OF False]]) simp
next
  case True
  note l = build_layout [OF True, of old] and m = memory_info_spec(1) [OF assms, of ks ke address] memory_info_spec(2) [OF assms]
  have k: "lo (dmemory i) \<le> unat ks" "ks < ke" "unat ke \<le> hi (dmemory i)" using True by (simp_all add: boot_request_ok_def memory_info_def)
  show ?thesis
  proof (cases "bank (memory_info i) \<subseteq> wanted (memory_info i) ks ke address")
    case True
    then show ?thesis using l by (intro that(1) [of BOOT_EMPTY]) simp_all
  next
    case False
    then obtain lay where lay: "boot_memory_build (Some (memory_info i)) ks ke address (Some old) = Some (BOOT_OK, Some lay)"
      "cover (lusable lay) = bank (memory_info i) - wanted (memory_info i) ks ke address" using l by auto
    show ?thesis by (rule that(2) [OF lay(1) k]) (use lay(2) False m in auto)
  qed
qed

end
