(* ===== verification/Spec2Isabelle.thy ===== *)
theory Spec2Isabelle
  imports Vma_Theorems Record_Lock_Theorems Pid_Theorems Library_Theorems Elf64_Theorems Sched_Theorems Boot_Memory_Theorems Split_Queue_Theorems Cred_Theorems Boot
begin

text \<open>
  BoarOS is a small Unix-like kernel in C for RISC-V and LoongArch. This library models the parts of it whose
  state is self-contained data (tables, trees, queues, credentials, byte routines) and proves what they promise to their
  callers. Everything is a shallow embedding: a C struct is a record, an enum a datatype, a function a definition of the
  same name without its \<^verbatim>\<open>kernel_\<close> prefix where that is unambiguous, and an N-bit integer a word of N bits with the wrap-around of C.

  Conventions. A pointer is a natural number, 0 is the null pointer, and the objects behind pointers are stores
  \<^verbatim>\<open>ptr => record option\<close>. A call that traps (\<^verbatim>\<open>__builtin_trap\<close>), dereferences null or leaves an array is the value None, so
  a theorem that a call returns Some excludes all three. Status codes are datatypes; an out parameter is part of the result.
  The heap, user memory and the devices are parameters: which allocations succeed, what a read returns. Locks
  are not modelled: each operation is the code between taking and releasing its lock, and the theorems about histories
  quantify over all interleavings of whole operations.

  Parts and theories, with the files under \<^verbatim>\<open>src/\<close>:

  Shared. Kernel_Prelude (integer types, status codes, list lemmas), Word_Bits (bit lemmas: lowest bit, powers of
  two, masks), Kernel_Interface (two contracts as locales: atomic_object, a table whose calls return, keep an invariant and either act on
  its abstract contents or change nothing; ordered_index, a search tree as a sorted sequence).

  Virtual memory areas (\<^verbatim>\<open>mm/vma.c\<close>). Vma models every function on the sorted array of areas. Vma_View gives its meaning, the map from
  addresses to attributes, and the invariant; Vma_Slots, Vma_Edit, Vma_Query and Vma_Life prove slot moves, two-phase edits,
  queries, and remap, fork, trim and destroy; Vma_Spec interprets atomic_object on the requests. Vma_Theorems: requests
  refine updates of the map, a prepared request cannot fail, the gap search is optimal, counters are exact.

  Search trees and record locks (\<^verbatim>\<open>include/kernel/avl.h\<close>, \<^verbatim>\<open>fs/record_lock.c\<close>, \<^verbatim>\<open>fs/files/locks.c\<close>). Avl and Record_Lock hold the models,
  Record_Lock_Tree relates the augmented tree to the plain one and interprets ordered_index, Record_Lock_Join, _Plan, _Edit, _Set and
  _Ops follow a call from the plan to the edited tree, Record_Lock_World lets any holders interleave (atomic_object) over a heap that
  may refuse and may reuse freed nodes but never hands out one in use (heap_sound), Record_Lock_Wait
  has the byte ranges of \<^verbatim>\<open>struct flock\<close> and the deadlock search. Record_Lock_Theorems: mutual exclusion, exact outcomes, balanced heights.

  Process identities (\<^verbatim>\<open>kernel/pid.c\<close>). Pid_Allocator and Pid_Registry hold the models; Pid_Chain, Pid_Invariant, Pid_Put, Pid_Member,
  Pid_Ops, Pid_Walk and Pid_World prove the linked structures, the operations and all histories that keep the header's contract.
  Pid_Theorems: no trap, exact lookup, unique numbers, terminating enumeration, allocation whenever a number is free.

  Credentials (\<^verbatim>\<open>kernel/credentials.c\<close>, \<^verbatim>\<open>kernel/syscall/credentials.c\<close>, \<^verbatim>\<open>kernel/syscall/capability.c\<close>, \<^verbatim>\<open>kernel/exec_credentials.c\<close>,
  \<^verbatim>\<open>kernel/rlimit.c\<close> and the credential steps of \<^verbatim>\<open>kernel/exec.c\<close>, \<^verbatim>\<open>kernel/sched/exec.c\<close>, \<^verbatim>\<open>kernel/sched/process.c\<close>, \<^verbatim>\<open>kernel/sched/core.c\<close>).
  Credentials has the values, the group list and the exec rules; Cred_World the tasks, the process counts, publication and the id
  calls; Cred_Calls prctl, capget, capset, exec, clone and the first thread. Cred_Sets and Cred_Steps prove the sets and the invariant,
  Cred_Confine every call and the histories (the relation lineage). Cred_Theorems: no-new-privileges confines a task and its
  descendants, credentials stay well-formed, process counts are exact, group membership is decided correctly.

  Scheduling (\<^verbatim>\<open>kernel/sched/runqueue.c\<close>, \<^verbatim>\<open>kernel/sched/policy.c\<close>). Runqueue and Sched_Policy hold the models, Runqueue_Order, _Refine and
  _Steps the refinement to a list by priority. Sched_Theorems: that refinement, valid policies, the exact charge and the exact times of the real-time throttle.

  Boot memory (\<^verbatim>\<open>kernel/boot_memory.c\<close>). Boot_Memory is the model, Boot_Memory_Cover follows the covered addresses through clipping,
  sorting, merging and carving, Boot_Memory_Theorems shows that the bank is partitioned exactly.

  Device tree (\<^verbatim>\<open>kernel/dtb.c\<close>). Dtb_Read has the readers, Dtb the tokens and the virtio discovery, Dtb_Boot dtb_read_boot_info, Dtb_Cpu and Dtb_Irq the later passes
  for processors and interrupts. The blob is a list of bytes; a parse step returns a value, a status, or None for a read outside the blob.
  Dtb_Safe has the safety logic (has, sat) and the readers' rules, Dtb_Discover the discovery pass, Dtb_Walk the relation walk, what an accepted structure
  block looks like, Dtb_Boot_Safe the boot pass, Dtb_Cpu_Safe and Dtb_Irq_Safe the later passes, which check no bounds and rely on walk.
  Dtb_Sample evaluates all passes on a concrete tree. Dtb_Theorems: every blob is parsed safely, the results are bounded and
  in range, and a serial port that is found meets the conditions of its driver (\<^verbatim>\<open>drivers/serial/ns16550.c\<close>, ns16550_refuses).

  Start-up (\<^verbatim>\<open>kernel/main.c\<close>). Boot has kernel_main up to the memory layout; the theorem at the end of this theory spans the device tree, the memory map and
  the start-up.

  Virtio queue (\<^verbatim>\<open>drivers/virtio/split_queue.c\<close>). Split_Queue is the model; Split_Queue_Owner and Split_Queue_Theorems prove
  descriptor ownership against a device that may write anything to the used ring at any time.

  Executable files (\<^verbatim>\<open>kernel/elf64.c\<close>, \<^verbatim>\<open>kernel/read_source.c\<close>). Elf64 is the model, Elf64_Valid what an accepted image guarantees,
  Elf64_Codec an encoder as reference; Elf64_Theorems: accepted segments are valid and in range, decoding inverts encoding.

  Library (\<^verbatim>\<open>lib/string.c\<close>, \<^verbatim>\<open>lib/qsort.c\<close>). String_Lib and Qsort are the models over byte memory, String_Copy and Qsort_Sort their
  meaning; Library_Theorems: memmove for all overlaps and alignments, memcmp, terminating string loops, sorting by every total preorder.

  How the parts meet. The area set, the record locks and the search trees share the contracts of Kernel_Interface; the group list
  of Credentials reuses the heap sort proof of Qsort_Sort. kernel_main passes what the device tree parser found to the boot memory map, so the
  facts about accepted trees discharge the conditions of the map. Otherwise the modelled parts meet only through code that is not modelled.

  Bounds and fuel. No model runs on fuel: loops over lists and counters are structural or have a termination proof, and
  loops over linked structures and over the tokens of a device tree are partial functions into option, for which the theorems prove that they return. The
  hypothesis blob_ok says only that the 40 bytes of the header and the announced size can be read. The depth
  limit of ten in the deadlock search is that of the code. The clone guard of lineage (fewer than 2^63 live tasks) keeps the 64-bit process
  counts from wrapping; heights of search trees fit int8_t for all trees of 64-bit addresses.

  Not modelled. Page tables, traps, interrupts and assembly (\<^verbatim>\<open>arch\<close>, \<^verbatim>\<open>platform\<close>) need a model of the machine. The address space layer,
  the page allocator and the heap (\<^verbatim>\<open>mm/mm.c\<close>, \<^verbatim>\<open>kernel/physical_page.c\<close>, \<^verbatim>\<open>mm/heap.c\<close>) keep their data in the memory they manage.
  The scheduler core, futexes, signals, timers, terminals, pipes and message queues block and wake across CPUs, which the step-wise
  models here do not express. The virtual file system, the page cache and the file systems, the network and the device drivers
  rest on these and on third-party code (lwext4, lwIP). Of the modelled files these parts are left out: reference counts and the hash
  table of user accounts (an account is its user id), the limit objects of \<^verbatim>\<open>kernel/rlimit.c\<close>, and the blocking wait and descriptor
  lookup of \<^verbatim>\<open>fs/files/locks.c\<close>, and of \<^verbatim>\<open>kernel/main.c\<close> everything after the memory layout.
\<close>

text \<open>C6. The start-up up to the memory layout, whatever the firmware passes. As long as the header of the device tree and the size it announces can be read, the three
  passes over it and the construction of the memory map return, and the kernel either shuts down with the status of the stage that failed or
  goes on. If it goes on, the kernel image lies inside the memory bank, the ranges handed to the page allocator cover exactly the addresses of the bank that
  neither the firmware reserves nor the kernel image nor the device tree occupies, and there is such an address; the boot processor
  is the first of at most 4 different processors; every interrupt source is one of the controller; and no seed of the random numbers is left behind.\<close>

theorem kernel_main_prepares_memory:
  assumes "blob_ok blob"
  shows "\<exists>outcome. kernel_main smp hart_id address (Some blob) ks ke = Some outcome \<and>
    (case outcome of
       Dtb_Shutdown status \<Rightarrow> status \<noteq> DTB_OK
     | Smp_Shutdown status \<Rightarrow> smp \<and> status \<noteq> DTB_OK
     | Memory_Shutdown status \<Rightarrow> status \<noteq> BOOT_OK
     | Memory_Ready b \<Rightarrow>
         let i = boot_info_of_tree b; usable = cover (lusable (layout b))
         in lo (dmemory i) \<le> unat ks \<and> ks < ke \<and> unat ke \<le> hi (dmemory i) \<and> usable \<noteq> {} \<and>
            usable = {lo (dmemory i)..<hi (dmemory i)} -
              (cover (dreserved i) \<union> {unat ks..<unat ke} \<union> {unat address..<unat address + ddtb_size i}) \<and>
            (if smp then hd (boot_cpus b) = hart_id \<and> distinct (boot_cpus b) \<and> length (boot_cpus b) \<in> {1..4} else boot_cpus b = []) \<and>
            list_all (\<lambda>(base, source). source \<in> {1..qsource_count (boot_irq b)}) (qroutes (boot_irq b)) \<and> drng_seed i = [])"
proof (rule boot_info_cases [OF assms, of empty_info])
  fix status assume "dtb_read_boot_info (Some blob) (Some empty_info) = Some (status, Some empty_info)" "status \<noteq> DTB_OK"
  then show ?thesis by (simp add: kernel_main_def)
next
  fix i d n
  assume i: "dtb_read_boot_info (Some blob) (Some empty_info) = Some (DTB_OK, Some i)" and f: "final_facts d n i" "40 \<le> n" "n < 2 ^ 32"
  obtain st irq where irq: "dtb_read_irq_info (Some blob) hart_id (Some empty_irq) = Some (st, Some irq)" "st = DTB_OK \<Longrightarrow> routes_ok irq"
    using irq_info_returns [OF assms, of hart_id empty_irq] by auto
  obtain st' cpus where cpus: "(if smp then dtb_read_cpu_info (Some blob) hart_id (Some []) else Some (DTB_OK, Some [])) = Some (st', Some cpus)"
    "st' \<noteq> DTB_OK \<Longrightarrow> smp" "st' = DTB_OK \<Longrightarrow> if smp then \<exists>others. cpus = hart_id # others \<and> cpus_ok cpus else cpus = []"
    using cpu_info_returns [OF assms, of hart_id "[]"] by (cases smp) auto
  show ?thesis
  proof (cases "st = DTB_OK \<and> st' = DTB_OK")
    case False
    then show ?thesis using i irq(1) cpus(1,2) by (auto simp: kernel_main_def)
  next
    case True
    have routes: "list_all (\<lambda>(base, source). source \<in> {1..qsource_count irq}) (qroutes irq)"
      using irq(2) True by (auto simp: routes_ok_def source_ok_def list_all_iff)
    have procs: "if smp then hd cpus = hart_id \<and> distinct cpus \<and> length cpus \<in> {1..4} else cpus = []"
      using cpus(3) True by (auto simp: cpus_ok_def)
    show ?thesis
      by (rule memory_info_layout [OF f, of ks ke address "\<lparr>lreserved = [], lusable = []\<rparr>"])
         (use i irq(1) cpus(1) True routes procs in \<open>auto simp: kernel_main_def split: if_splits\<close>)
  qed
qed

theorem kernel_main_prepares_memory_witness:
  "\<exists>b. kernel_main True 0 0x80080000 (Some sample_blob) 0x80000000 0x80010000 = Some (Memory_Ready b) \<and>
     cover (lusable (layout b)) = {0x80010000..<0x80080000} \<union> {0x80080322..<0x80100000} \<and> hd (boot_cpus b) = 0"
proof -
  let ?i = "memory_info sample_info"
  have ok: "boot_request_ok ?i 0x80000000 0x80010000 0x80080000"
    by (simp add: boot_request_ok_def memory_info_def sample_info_def hi_def lo_def)
  have "0x80040000 \<in> bank ?i" "0x80040000 \<notin> wanted ?i 0x80000000 0x80010000 0x80080000"
    by (simp_all add: bank_def wanted_def memory_info_def sample_info_def hi_def lo_def)
  then have "\<exists>lay. boot_memory_build (Some ?i) 0x80000000 0x80010000 0x80080000 (Some \<lparr>lreserved = [], lusable = []\<rparr>) = Some (BOOT_OK, Some lay)"
    using build_layout [OF ok, of "\<lparr>lreserved = [], lusable = []\<rparr>"] by blast
  then obtain b where b: "kernel_main True 0 0x80080000 (Some sample_blob) 0x80000000 0x80010000 = Some (Memory_Ready b)"
    "boot_info_of_tree b = sample_info"
    by (auto simp: kernel_main_def sample_boot sample_irqs sample_cpus) (simp add: sample_info_def)
  have "cover (lusable (layout b)) = {0x80000000..<0x80100000} - ({0x80000000..<0x80010000} \<union> {0x80080000..<0x80080322})" "hd (boot_cpus b) = 0"
    using kernel_main_prepares_memory [OF sample_blob_ok, of True 0 "0x80080000" "0x80000000" "0x80010000"] b
    by (simp_all add: Let_def sample_info_def lo_def hi_def)
  moreover have "{0x80000000..<0x80100000} - ({0x80000000..<0x80010000} \<union> {0x80080000..<0x80080322}) =
      {0x80010000..<0x80080000} \<union> {0x80080322..<0x80100000::nat}" by auto
  ultimately show ?thesis using b(1) by auto
qed

end
